(* ===== verification/Prelude.thy ===== *)
theory Prelude
  imports Main "HOL-Library.Word" "HOL-Library.Monad_Syntax"
begin

unbundle bit_operations_syntax

text \<open>
  Shared vocabulary of the development.

  \<^item> The machine integers of the C code: \<open>u8\<close> to \<open>u64\<close> for values the code treats
    as bit patterns, and \<open>nat\<close> with \<open>sz_add\<close>, \<open>sz_sub\<close> (modulo 2^64) for
    \<open>size_t\<close> positions and \<open>u32_add\<close>, \<open>u32_sub\<close> (modulo 2^32) for the
    \<open>uint32_t\<close> fields that are plain counters. The wrap-around is part of the
    operations; the simplifier drops it where the operands are known to fit.
  \<^item> Memory: every buffer the decoder touches is a block of bytes, a pointer is a block
    and an offset, and an access outside its block has no result (\<open>None\<close>). The same
    \<open>None\<close> stands for a loop that does not return, so that "the function has a result"
    says both that it touches only its own memory and that it terminates.
  \<^item> The predicate \<open>ok m P\<close>: the computation \<open>m\<close> has a result and it satisfies
    \<open>P\<close>. Its rules (collection \<open>ok_simps\<close>) reduce a \<open>do\<close> block to its calls.
\<close>

section \<open>Machine integers\<close>

type_synonym u8 = "8 word"
type_synonym u16 = "16 word"
type_synonym u32 = "32 word"
type_synonym u64 = "64 word"

definition sz_add :: "nat \<Rightarrow> nat \<Rightarrow> nat" where
  "sz_add a b = (a + b) mod 2 ^ 64"

definition sz_sub :: "nat \<Rightarrow> nat \<Rightarrow> nat" where
  "sz_sub a b = (if b \<le> a then a - b else (a + 2 ^ 64) - b)"

definition u32_add :: "nat \<Rightarrow> nat \<Rightarrow> nat" where
  "u32_add a b = (a + b) mod 2 ^ 32"

definition u32_sub :: "nat \<Rightarrow> nat \<Rightarrow> nat" where
  "u32_sub a b = (if b \<le> a then a - b else (a + 2 ^ 32) - b)"

abbreviation u32_of :: "nat \<Rightarrow> nat" where
  "u32_of a \<equiv> a mod 4294967296"

lemma sz_add_fits [simp]: "a + b < 2 ^ 64 \<Longrightarrow> sz_add a b = a + b"
  by (simp add: sz_add_def)

lemma sz_sub_fits [simp]: "b \<le> a \<Longrightarrow> sz_sub a b = a - b"
  by (simp add: sz_sub_def)

lemma u32_add_fits [simp]: "a + b < 2 ^ 32 \<Longrightarrow> u32_add a b = a + b"
  by (simp add: u32_add_def)

lemma u32_sub_fits [simp]: "b \<le> a \<Longrightarrow> u32_sub a b = a - b"
  by (simp add: u32_sub_def)

lemma sz_add_less: "sz_add a b < 2 ^ 64"
  by (simp add: sz_add_def)

lemma u32_add_less: "u32_add a b < 2 ^ 32"
  by (simp add: u32_add_def)

lemma unat_u8_less [simp]: "unat (b :: u8) < 256"
  using unsigned_less [of b] by simp

lemma unat_u8_le [simp]: "unat (b :: u8) \<le> 255"
  using unat_u8_less [of b] by linarith

lemma unat_u32_less [simp]: "unat (x :: u32) < 4294967296"
  using unsigned_less [of x] by simp

lemma unat_u16_less [simp]: "unat (b :: u16) < 65536"
  using unsigned_less [of b] by simp

lemma unat_ucast_u8_u32 [simp]: "unat (ucast (b :: u8) :: u32) = unat b"
  using unat_u8_less [of b]
  by (simp add: unsigned_ucast_eq take_bit_nat_eq_self_iff del: unat_u8_less)

lemma unat_ucast_u16_u32 [simp]: "unat (ucast (b :: u16) :: u32) = unat b"
  using unat_u16_less [of b]
  by (simp add: unsigned_ucast_eq take_bit_nat_eq_self_iff del: unat_u16_less)

lemma ucast_u8_u32_u8 [simp]: "(ucast (ucast (b :: u8) :: u32) :: u8) = b"
  by (rule bit_word_eqI) (auto simp: bit_simps dest: bit_imp_le_length)

text \<open>Going back from position \<open>p\<close> in a ring of \<open>e\<close> bytes, through zero.\<close>

lemma sz_ring_back:
  assumes "p \<le> i" and "i < e" and "e < 2 ^ 63"
  shows "sz_add (sz_sub (sz_sub p i) 1) e = p + e - i - 1"
proof (cases "p = i")
  case True
  then have "sz_sub (sz_sub p i) 1 = 2 ^ 64 - 1" by (simp add: sz_sub_def)
  moreover have "2 ^ 64 - 1 + e = (e - 1) + 2 ^ 64" using assms by simp
  ultimately show ?thesis
    using True assms by (simp only: sz_add_def mod_add_self2) simp
next
  case False
  with assms have "sz_sub (sz_sub p i) 1 = p + 2 ^ 64 - i - 1" by (simp add: sz_sub_def)
  moreover have "p + 2 ^ 64 - i - 1 + e = (p + e - i - 1) + 2 ^ 64" using assms by simp
  ultimately show ?thesis
    using assms by (simp only: sz_add_def mod_add_self2) simp
qed

lemma unat_push_bit_small: "unat (w :: u32) * 2 ^ n < 4294967296 \<Longrightarrow> unat (push_bit n w) = unat w * 2 ^ n"
  unfolding unsigned_push_bit_eq by (simp add: push_bit_eq_mult take_bit_nat_eq_self_iff)

lemma unat_drop_bit_u32: "unat (drop_bit n (w :: u32)) = unat w div 2 ^ n"
proof -
  have "take_bit 32 (unat w) = unat w" by (rule take_bit_nat_eq_self) simp
  then show ?thesis unfolding unsigned_drop_bit_eq by (simp add: drop_bit_eq_div)
qed

lemma unat_mult_small: "unat (a :: u32) * unat b < 4294967296 \<Longrightarrow> unat (a * b) = unat a * unat b"
  by (simp add: unat_word_ariths)

lemma unat_add_small: "unat (a :: u32) + unat b < 4294967296 \<Longrightarrow> unat (a + b) = unat a + unat b"
  by (simp add: unat_word_ariths)

lemma unat_shl1: "unat (s :: u32) < 2147483648 \<Longrightarrow> unat (push_bit 1 s) = 2 * unat s"
  using unat_push_bit_small [of s 1] by simp

lemma unat_shl1_inc: "unat (s :: u32) < 2147483648 \<Longrightarrow> unat (push_bit 1 s + 1) = 2 * unat s + 1"
  using unat_shl1 [of s] by (simp add: unat_word_ariths)

text \<open>Equality of words bit by bit, for constants that are not written as masks.\<close>

lemma bits8:
  "(x :: u8) = y \<longleftrightarrow>
     bit x 0 = bit y 0 \<and> bit x 1 = bit y 1 \<and> bit x 2 = bit y 2 \<and> bit x 3 = bit y 3 \<and>
     bit x 4 = bit y 4 \<and> bit x 5 = bit y 5 \<and> bit x 6 = bit y 6 \<and> bit x 7 = bit y 7"
  (is "_ \<longleftrightarrow> ?bits")
proof (rule iffI, simp, rule bit_word_eqI)
  fix k assume bits: ?bits and "k < LENGTH(8)"
  then have "k < 8" by simp
  then have "k = 0 \<or> k = 1 \<or> k = 2 \<or> k = 3 \<or> k = 4 \<or> k = 5 \<or> k = 6 \<or> k = 7"
    by presburger
  then show "bit x k = bit y k"
    using bits by (elim disjE) simp_all
qed

lemma bits32:
  "(x :: u32) = y \<longleftrightarrow>
     bit x 0 = bit y 0 \<and> bit x 1 = bit y 1 \<and> bit x 2 = bit y 2 \<and> bit x 3 = bit y 3 \<and>
     bit x 4 = bit y 4 \<and> bit x 5 = bit y 5 \<and> bit x 6 = bit y 6 \<and> bit x 7 = bit y 7 \<and>
     bit x 8 = bit y 8 \<and> bit x 9 = bit y 9 \<and> bit x 10 = bit y 10 \<and> bit x 11 = bit y 11 \<and>
     bit x 12 = bit y 12 \<and> bit x 13 = bit y 13 \<and> bit x 14 = bit y 14 \<and> bit x 15 = bit y 15 \<and>
     bit x 16 = bit y 16 \<and> bit x 17 = bit y 17 \<and> bit x 18 = bit y 18 \<and> bit x 19 = bit y 19 \<and>
     bit x 20 = bit y 20 \<and> bit x 21 = bit y 21 \<and> bit x 22 = bit y 22 \<and> bit x 23 = bit y 23 \<and>
     bit x 24 = bit y 24 \<and> bit x 25 = bit y 25 \<and> bit x 26 = bit y 26 \<and> bit x 27 = bit y 27 \<and>
     bit x 28 = bit y 28 \<and> bit x 29 = bit y 29 \<and> bit x 30 = bit y 30 \<and> bit x 31 = bit y 31"
  (is "_ \<longleftrightarrow> ?bits")
proof (rule iffI, simp, rule bit_word_eqI)
  fix k assume bits: ?bits and "k < LENGTH(32)"
  then have "k < 32" by simp
  then have "k = 0 \<or> k = 1 \<or> k = 2 \<or> k = 3 \<or> k = 4 \<or> k = 5 \<or> k = 6 \<or> k = 7 \<or> k = 8 \<or> k
      = 9 \<or> k = 10 \<or> k = 11 \<or> k = 12 \<or> k = 13 \<or> k = 14 \<or> k = 15 \<or> k = 16 \<or> k = 17
      \<or> k = 18 \<or> k = 19 \<or> k = 20 \<or> k = 21 \<or> k = 22 \<or> k = 23 \<or> k = 24 \<or> k = 25 \<or>
      k = 26 \<or> k = 27 \<or> k = 28 \<or> k = 29 \<or> k = 30 \<or> k = 31"
    by presburger
  then show "bit x k = bit y k"
    using bits by (elim disjE) simp_all
qed

lemma bits64:
  "(x :: u64) = y \<longleftrightarrow>
     bit x 0 = bit y 0 \<and> bit x 1 = bit y 1 \<and> bit x 2 = bit y 2 \<and> bit x 3 = bit y 3 \<and>
     bit x 4 = bit y 4 \<and> bit x 5 = bit y 5 \<and> bit x 6 = bit y 6 \<and> bit x 7 = bit y 7 \<and>
     bit x 8 = bit y 8 \<and> bit x 9 = bit y 9 \<and> bit x 10 = bit y 10 \<and> bit x 11 = bit y 11 \<and>
     bit x 12 = bit y 12 \<and> bit x 13 = bit y 13 \<and> bit x 14 = bit y 14 \<and> bit x 15 = bit y 15 \<and>
     bit x 16 = bit y 16 \<and> bit x 17 = bit y 17 \<and> bit x 18 = bit y 18 \<and> bit x 19 = bit y 19 \<and>
     bit x 20 = bit y 20 \<and> bit x 21 = bit y 21 \<and> bit x 22 = bit y 22 \<and> bit x 23 = bit y 23 \<and>
     bit x 24 = bit y 24 \<and> bit x 25 = bit y 25 \<and> bit x 26 = bit y 26 \<and> bit x 27 = bit y 27 \<and>
     bit x 28 = bit y 28 \<and> bit x 29 = bit y 29 \<and> bit x 30 = bit y 30 \<and> bit x 31 = bit y 31 \<and>
     bit x 32 = bit y 32 \<and> bit x 33 = bit y 33 \<and> bit x 34 = bit y 34 \<and> bit x 35 = bit y 35 \<and>
     bit x 36 = bit y 36 \<and> bit x 37 = bit y 37 \<and> bit x 38 = bit y 38 \<and> bit x 39 = bit y 39 \<and>
     bit x 40 = bit y 40 \<and> bit x 41 = bit y 41 \<and> bit x 42 = bit y 42 \<and> bit x 43 = bit y 43 \<and>
     bit x 44 = bit y 44 \<and> bit x 45 = bit y 45 \<and> bit x 46 = bit y 46 \<and> bit x 47 = bit y 47 \<and>
     bit x 48 = bit y 48 \<and> bit x 49 = bit y 49 \<and> bit x 50 = bit y 50 \<and> bit x 51 = bit y 51 \<and>
     bit x 52 = bit y 52 \<and> bit x 53 = bit y 53 \<and> bit x 54 = bit y 54 \<and> bit x 55 = bit y 55 \<and>
     bit x 56 = bit y 56 \<and> bit x 57 = bit y 57 \<and> bit x 58 = bit y 58 \<and> bit x 59 = bit y 59 \<and>
     bit x 60 = bit y 60 \<and> bit x 61 = bit y 61 \<and> bit x 62 = bit y 62 \<and> bit x 63 = bit y 63"
  (is "_ \<longleftrightarrow> ?bits")
proof (rule iffI, simp, rule bit_word_eqI)
  fix k assume bits: ?bits and "k < LENGTH(64)"
  then have "k < 64" by simp
  then have "k = 0 \<or> k = 1 \<or> k = 2 \<or> k = 3 \<or> k = 4 \<or> k = 5 \<or> k = 6 \<or> k = 7 \<or> k = 8 \<or> k
      = 9 \<or> k = 10 \<or> k = 11 \<or> k = 12 \<or> k = 13 \<or> k = 14 \<or> k = 15 \<or> k = 16 \<or> k = 17
      \<or> k = 18 \<or> k = 19 \<or> k = 20 \<or> k = 21 \<or> k = 22 \<or> k = 23 \<or> k = 24 \<or> k = 25 \<or>
      k = 26 \<or> k = 27 \<or> k = 28 \<or> k = 29 \<or> k = 30 \<or> k = 31 \<or> k = 32 \<or> k = 33 \<or> k = 34
      \<or> k = 35 \<or> k = 36 \<or> k = 37 \<or> k = 38 \<or> k = 39 \<or> k = 40 \<or> k = 41 \<or> k = 42 \<or>
      k = 43 \<or> k = 44 \<or> k = 45 \<or> k = 46 \<or> k = 47 \<or> k = 48 \<or> k = 49 \<or> k = 50 \<or> k = 51
      \<or> k = 52 \<or> k = 53 \<or> k = 54 \<or> k = 55 \<or> k = 56 \<or> k = 57 \<or> k = 58 \<or> k = 59 \<or>
      k = 60 \<or> k = 61 \<or> k = 62 \<or> k = 63"
    by presburger
  then show "bit x k = bit y k"
    using bits by (elim disjE) simp_all
qed

section \<open>Computations that have a result\<close>

named_theorems ok_simps

definition ok :: "'a option \<Rightarrow> ('a \<Rightarrow> bool) \<Rightarrow> bool" where
  "ok m P \<longleftrightarrow> (case m of None \<Rightarrow> False | Some x \<Rightarrow> P x)"

lemma ok_Some [ok_simps, simp]: "ok (Some x) P \<longleftrightarrow> P x"
  by (simp add: ok_def)

lemma ok_None [ok_simps, simp]: "ok None P \<longleftrightarrow> False"
  by (simp add: ok_def)

lemma ok_bind [ok_simps]: "ok (Option.bind m f) P \<longleftrightarrow> ok m (\<lambda>x. ok (f x) P)"
  by (cases m) (simp_all add: ok_def)

lemma ok_if [ok_simps]: "ok (if c then a else b) P \<longleftrightarrow> (if c then ok a P else ok b P)"
  by simp

lemma ok_let [ok_simps]: "ok (let x = a in f x) P \<longleftrightarrow> ok (f a) P"
  by simp

lemma ok_map_option [ok_simps]: "ok (map_option f m) P \<longleftrightarrow> ok m (\<lambda>x. P (f x))"
  by (cases m) simp_all

lemma ok_mono: "ok m P \<Longrightarrow> (\<And>x. P x \<Longrightarrow> Q x) \<Longrightarrow> ok m Q"
  by (cases m) auto

lemma ok_conj: "ok m P \<Longrightarrow> ok m Q \<Longrightarrow> ok m (\<lambda>x. P x \<and> Q x)"
  by (cases m) auto

lemma ok_iff: "ok m P \<longleftrightarrow> (\<exists>x. m = Some x \<and> P x)"
  by (cases m) auto

lemma ok_bindI: "ok m P \<Longrightarrow> (\<And>x. P x \<Longrightarrow> ok (f x) Q) \<Longrightarrow> ok (Option.bind m f) Q"
  by (cases m) auto

lemma ok_D: "ok m P \<Longrightarrow> m = Some x \<Longrightarrow> P x"
  by simp

section \<open>Memory\<close>

text \<open>
  The blocks one decoder works with: the caller's input and output buffers, the
  dictionary that \<open>vmalloc\<close> returned, and the three small arrays inside the decoder
  structures that the code also addresses through pointers. A caller may pass the same
  block as input and output.
\<close>

datatype block =
    Null_Block
  | In_Block
  | Out_Block
  | Dict_Block
  | Lzma_Temp
  | Bcj_Temp
  | Stream_Temp

type_synonym ptr = "block \<times> nat"
type_synonym mem = "block \<Rightarrow> u8 list"

definition ptr_add :: "ptr \<Rightarrow> nat \<Rightarrow> ptr" where
  "ptr_add p n = (fst p, snd p + n)"

definition room :: "mem \<Rightarrow> ptr \<Rightarrow> nat" where
  \<comment> \<open>the number of bytes that may be addressed from \<open>p\<close> onward\<close>
  "room m p = length (m (fst p)) - snd p"

definition load :: "mem \<Rightarrow> ptr \<Rightarrow> nat \<Rightarrow> u8 option" where
  "load m p i = (if snd p + i < length (m (fst p)) then Some (m (fst p) ! (snd p + i)) else None)"

definition store :: "mem \<Rightarrow> ptr \<Rightarrow> nat \<Rightarrow> u8 \<Rightarrow> mem option" where
  "store m p i v =
     (if snd p + i < length (m (fst p)) then Some (m(fst p := (m (fst p))[snd p + i := v])) else None)"

definition load_bytes :: "mem \<Rightarrow> ptr \<Rightarrow> nat \<Rightarrow> u8 list option" where
  "load_bytes m p n =
     (if n = 0 then Some []
      else if snd p + n \<le> length (m (fst p)) then Some (take n (drop (snd p) (m (fst p)))) else None)"

definition splice :: "'a list \<Rightarrow> nat \<Rightarrow> 'a list \<Rightarrow> 'a list" where
  \<comment> \<open>overwrite \<open>xs\<close> from index \<open>i\<close> on with \<open>bs\<close>\<close>
  "splice xs i bs = take i xs @ bs @ drop (i + length bs) xs"

definition store_bytes :: "mem \<Rightarrow> ptr \<Rightarrow> u8 list \<Rightarrow> mem option" where
  "store_bytes m p bs =
     (if bs = [] then Some m
      else if snd p + length bs \<le> length (m (fst p))
      then Some (m(fst p := splice (m (fst p)) (snd p) bs)) else None)"

text \<open>\<open>memmove\<close> copies as if through a temporary; \<open>memcpy\<close> has no defined result
  when the two ranges overlap.\<close>

definition memmove :: "mem \<Rightarrow> ptr \<Rightarrow> ptr \<Rightarrow> nat \<Rightarrow> mem option" where
  "memmove m dst src n = do { bs \<leftarrow> load_bytes m src n; store_bytes m dst bs }"

definition overlap :: "ptr \<Rightarrow> ptr \<Rightarrow> nat \<Rightarrow> bool" where
  "overlap p q n \<longleftrightarrow> fst p = fst q \<and> snd p < snd q + n \<and> snd q < snd p + n"

definition memcpy :: "mem \<Rightarrow> ptr \<Rightarrow> ptr \<Rightarrow> nat \<Rightarrow> mem option" where
  "memcpy m dst src n = (if overlap dst src n then None else memmove m dst src n)"

definition memzero :: "mem \<Rightarrow> ptr \<Rightarrow> nat \<Rightarrow> mem option" where
  "memzero m p n = store_bytes m p (replicate n 0)"

text \<open>The shape of a memory: how long each block is. The decoder changes bytes, never
  the length of a block, apart from the dictionary allocation.\<close>

definition same_shape :: "mem \<Rightarrow> mem \<Rightarrow> bool" where
  "same_shape m m' \<longleftrightarrow> (\<forall>b. length (m' b) = length (m b))"

lemma same_shape_refl [simp]: "same_shape m m"
  by (simp add: same_shape_def)

lemma same_shape_trans: "same_shape m1 m2 \<Longrightarrow> same_shape m2 m3 \<Longrightarrow> same_shape m1 m3"
  by (simp add: same_shape_def)

lemma same_shape_room: "same_shape m m' \<Longrightarrow> room m' p = room m p"
  by (simp add: same_shape_def room_def)

lemma length_splice [simp]: "i + length bs \<le> length xs \<Longrightarrow> length (splice xs i bs) = length xs"
  by (simp add: splice_def)

lemma nth_splice:
  "i + length bs \<le> length xs \<Longrightarrow> k < length xs \<Longrightarrow>
   splice xs i bs ! k = (if i \<le> k \<and> k < i + length bs then bs ! (k - i) else xs ! k)"
  by (auto simp: splice_def nth_append)

lemma ok_load [ok_simps]:
  "ok (load m p i) P \<longleftrightarrow> i < room m p \<and> P (m (fst p) ! (snd p + i))"
  by (auto simp: load_def room_def)

lemma ok_load_bytes:
  "n \<le> room m p \<Longrightarrow> ok (load_bytes m p n) (\<lambda>bs. length bs = n)"
  by (auto simp: load_bytes_def room_def)

lemma ok_store:
  "i < room m p \<Longrightarrow> ok (store m p i v) (\<lambda>m'. same_shape m m' \<and> m' = m(fst p := (m (fst p))[snd p + i := v]))"
  by (auto simp: store_def room_def same_shape_def)

lemma ok_store_bytes:
  "length bs \<le> room m p \<Longrightarrow>
   ok (store_bytes m p bs) (\<lambda>m'. same_shape m m' \<and> (\<forall>b. b \<noteq> fst p \<longrightarrow> m' b = m b))"
proof (cases "bs = []")
  case False
  moreover assume "length bs \<le> room m p"
  ultimately have "snd p + length bs \<le> length (m (fst p))"
    by (cases bs) (simp_all add: room_def)
  with False show ?thesis
    by (simp add: store_bytes_def same_shape_def)
qed (simp add: store_bytes_def)

lemma ok_memmove:
  assumes "n \<le> room m dst" and "n \<le> room m src"
  shows "ok (memmove m dst src n) (\<lambda>m'. same_shape m m' \<and> (\<forall>b. b \<noteq> fst dst \<longrightarrow> m' b = m b))"
  unfolding memmove_def
  by (rule ok_bindI [OF ok_load_bytes [OF assms(2)]]) (rule ok_store_bytes, simp add: assms(1))

lemma ok_memcpy:
  assumes "n \<le> room m dst" and "n \<le> room m src" and "\<not> overlap dst src n"
  shows "ok (memcpy m dst src n) (\<lambda>m'. same_shape m m' \<and> (\<forall>b. b \<noteq> fst dst \<longrightarrow> m' b = m b))"
  using assms by (simp add: memcpy_def ok_memmove)

lemma ok_memzero:
  "n \<le> room m p \<Longrightarrow> ok (memzero m p n) (\<lambda>m'. same_shape m m' \<and> (\<forall>b. b \<noteq> fst p \<longrightarrow> m' b = m b))"
  unfolding memzero_def by (rule ok_store_bytes) simp

lemma room_ptr_add: "room m (ptr_add p n) = room m p - n"
  by (simp add: room_def ptr_add_def)

lemma fst_ptr_add [simp]: "fst (ptr_add p n) = fst p"
  by (simp add: ptr_add_def)

lemma snd_ptr_add [simp]: "snd (ptr_add p n) = snd p + n"
  by (simp add: ptr_add_def)

section \<open>The bytes of a word\<close>

text \<open>An object of an integer type as its bytes in memory, least significant first.\<close>

definition le_bytes :: "nat \<Rightarrow> 'a :: len word \<Rightarrow> u8 list" where
  "le_bytes n w = map (\<lambda>k. ucast (drop_bit (8 * k) w)) [0..<n]"

lemma length_le_bytes [simp]: "length (le_bytes n w) = n"
  by (simp add: le_bytes_def)

lemma le_bytes_Suc: "le_bytes (Suc n) w = ucast w # le_bytes n (drop_bit 8 w)"
  unfolding le_bytes_def upt_conv_Cons [OF zero_less_Suc] by (simp add: map_Suc_upt [symmetric] comp_def add.commute del: upt_Suc)

end
