(* ===== verification/Xz_Defs.thy ===== *)
theory Xz_Defs
  imports Prelude
begin

unbundle bit_operations_syntax

text \<open>
  The public types of the decoder (\<open>xz.h\<close>), its operation modes (\<open>xz_private.h\<close>),
  the build configuration, and the unaligned integer accessors of \<open>xz_config.h\<close>. The
  compile-time switches are the boolean fields of \<open>xz_env\<close>, so every theorem holds for
  every configuration; the two CRC tables, global variables of the code, are in the same
  record. All three operation modes are compiled in, as \<open>xz_private.h\<close> does unless told
  otherwise and as the CMake build of the library does.
\<close>

section \<open>xz.h\<close>

datatype xz_mode = XZ_SINGLE | XZ_PREALLOC | XZ_DYNALLOC

datatype xz_ret =
    XZ_OK
  | XZ_STREAM_END
  | XZ_UNSUPPORTED_CHECK
  | XZ_MEM_ERROR
  | XZ_MEMLIMIT_ERROR
  | XZ_FORMAT_ERROR
  | XZ_OPTIONS_ERROR
  | XZ_DATA_ERROR
  | XZ_BUF_ERROR

record xz_buf =
  b_in :: ptr
  b_in_pos :: nat
  b_in_size :: nat
  b_out :: ptr
  b_out_pos :: nat
  b_out_size :: nat

section \<open>xz_private.h: modes\<close>

definition DEC_IS_SINGLE :: "xz_mode \<Rightarrow> bool" where
  "DEC_IS_SINGLE mode \<longleftrightarrow> mode = XZ_SINGLE"

definition DEC_IS_PREALLOC :: "xz_mode \<Rightarrow> bool" where
  "DEC_IS_PREALLOC mode \<longleftrightarrow> mode = XZ_PREALLOC"

definition DEC_IS_DYNALLOC :: "xz_mode \<Rightarrow> bool" where
  "DEC_IS_DYNALLOC mode \<longleftrightarrow> mode = XZ_DYNALLOC"

definition DEC_IS_MULTI :: "xz_mode \<Rightarrow> bool" where
  "DEC_IS_MULTI mode \<longleftrightarrow> mode \<noteq> XZ_SINGLE"

lemmas mode_defs = DEC_IS_SINGLE_def DEC_IS_PREALLOC_def DEC_IS_DYNALLOC_def DEC_IS_MULTI_def

section \<open>Configuration and globals\<close>

record xz_env =
  XZ_USE_CRC64 :: bool
  XZ_DEC_ANY_CHECK :: bool
  XZ_DEC_MICROLZMA :: bool
  XZ_DEC_X86 :: bool
  XZ_DEC_POWERPC :: bool
  XZ_DEC_IA64 :: bool
  XZ_DEC_ARM :: bool
  XZ_DEC_ARMTHUMB :: bool
  XZ_DEC_SPARC :: bool
  XZ_DEC_ARM64 :: bool
  xz_crc32_table :: "u32 list"
  xz_crc64_table :: "u64 list"

definition XZ_DEC_BCJ :: "xz_env \<Rightarrow> bool" where
  "XZ_DEC_BCJ e \<longleftrightarrow> XZ_DEC_X86 e \<or> XZ_DEC_POWERPC e \<or> XZ_DEC_IA64 e \<or> XZ_DEC_ARM e
     \<or> XZ_DEC_ARMTHUMB e \<or> XZ_DEC_SPARC e \<or> XZ_DEC_ARM64 e"

section \<open>xz_config.h: unaligned integers\<close>

text \<open>The accessors read and write four bytes of a byte list from index \<open>i\<close>.\<close>

definition get_unaligned_le32 :: "u8 list \<Rightarrow> nat \<Rightarrow> u32" where
  "get_unaligned_le32 buf i =
     ucast (buf ! i) OR push_bit 8 (ucast (buf ! (i + 1)))
     OR push_bit 16 (ucast (buf ! (i + 2))) OR push_bit 24 (ucast (buf ! (i + 3)))"

definition get_unaligned_be32 :: "u8 list \<Rightarrow> nat \<Rightarrow> u32" where
  "get_unaligned_be32 buf i =
     push_bit 24 (ucast (buf ! i)) OR push_bit 16 (ucast (buf ! (i + 1)))
     OR push_bit 8 (ucast (buf ! (i + 2))) OR ucast (buf ! (i + 3))"

definition put_unaligned_le32 :: "u32 \<Rightarrow> u8 list \<Rightarrow> nat \<Rightarrow> u8 list" where
  "put_unaligned_le32 val buf i =
     buf[i := ucast val, i + 1 := ucast (drop_bit 8 val),
         i + 2 := ucast (drop_bit 16 val), i + 3 := ucast (drop_bit 24 val)]"

definition put_unaligned_be32 :: "u32 \<Rightarrow> u8 list \<Rightarrow> nat \<Rightarrow> u8 list" where
  "put_unaligned_be32 val buf i =
     buf[i := ucast (drop_bit 24 val), i + 1 := ucast (drop_bit 16 val),
         i + 2 := ucast (drop_bit 8 val), i + 3 := ucast val]"

lemma length_put_unaligned_le32 [simp]: "length (put_unaligned_le32 val buf i) = length buf"
  by (simp add: put_unaligned_le32_def)

lemma length_put_unaligned_be32 [simp]: "length (put_unaligned_be32 val buf i) = length buf"
  by (simp add: put_unaligned_be32_def)

text \<open>Four bytes and the word they spell, in little-endian order.\<close>

definition le32_of :: "u8 \<Rightarrow> u8 \<Rightarrow> u8 \<Rightarrow> u8 \<Rightarrow> u32" where
  "le32_of a b c d = ucast a OR push_bit 8 (ucast b) OR push_bit 16 (ucast c) OR push_bit 24 (ucast d)"

lemma byte_cases:
  assumes "n < (32 :: nat)"
  obtains "n < 8" | "8 \<le> n" "n < 16" | "16 \<le> n" "n < 24" | "24 \<le> n" "n < 32"
  using assms by linarith

lemma le32_of_bytes:
  "le32_of (ucast v) (ucast (drop_bit 8 v)) (ucast (drop_bit 16 v)) (ucast (drop_bit 24 v)) = v"
proof (rule bit_word_eqI)
  fix n assume n: "n < LENGTH(32)"
  then have "n < 32" by simp
  then show "bit (le32_of (ucast v) (ucast (drop_bit 8 v)) (ucast (drop_bit 16 v))
      (ucast (drop_bit 24 v))) n = bit v n"
    by (cases rule: byte_cases) (auto simp: le32_of_def bit_simps)
qed

lemma bytes_of_le32:
  "ucast (le32_of a b c d) = a" "ucast (drop_bit 8 (le32_of a b c d)) = b"
  "ucast (drop_bit 16 (le32_of a b c d)) = c" "ucast (drop_bit 24 (le32_of a b c d)) = d"
  by (rule bit_word_eqI; auto simp: le32_of_def bit_simps dest: bit_imp_le_length)+

lemma get_unaligned_le32_of:
  "get_unaligned_le32 buf i = le32_of (buf ! i) (buf ! (i + 1)) (buf ! (i + 2)) (buf ! (i + 3))"
  by (simp add: get_unaligned_le32_def le32_of_def)

lemma get_unaligned_be32_of:
  "get_unaligned_be32 buf i = le32_of (buf ! (i + 3)) (buf ! (i + 2)) (buf ! (i + 1)) (buf ! i)"
  by (simp add: get_unaligned_be32_def le32_of_def ac_simps)

lemma get_put_le32 [simp]:
  "i + 3 < length buf \<Longrightarrow> get_unaligned_le32 (put_unaligned_le32 val buf i) i = val"
  by (simp add: get_unaligned_le32_of put_unaligned_le32_def nth_list_update le32_of_bytes)

lemma get_put_be32 [simp]:
  "i + 3 < length buf \<Longrightarrow> get_unaligned_be32 (put_unaligned_be32 val buf i) i = val"
  by (simp add: get_unaligned_be32_of put_unaligned_be32_def nth_list_update le32_of_bytes)

lemma put_get_le32 [simp]: "put_unaligned_le32 (get_unaligned_le32 buf i) buf i = buf"
  by (simp add: get_unaligned_le32_of put_unaligned_le32_def bytes_of_le32)

lemma put_get_be32 [simp]: "put_unaligned_be32 (get_unaligned_be32 buf i) buf i = buf"
  by (simp add: get_unaligned_be32_of put_unaligned_be32_def bytes_of_le32)

lemma nth_update_at: "k < length xs \<Longrightarrow> xs[i := v] ! k = (if i = k then v else xs ! k)"
  by (simp add: nth_list_update)

lemma put_put_le32 [simp]:
  "put_unaligned_le32 v (put_unaligned_le32 w buf i) i = put_unaligned_le32 v buf i"
  by (rule nth_equalityI) (auto simp: put_unaligned_le32_def nth_update_at)

lemma put_put_be32 [simp]:
  "put_unaligned_be32 v (put_unaligned_be32 w buf i) i = put_unaligned_be32 v buf i"
  by (rule nth_equalityI) (auto simp: put_unaligned_be32_def nth_update_at)

lemma nth_put_le32_other [simp]:
  "k < i \<or> i + 4 \<le> k \<Longrightarrow> put_unaligned_le32 v buf i ! k = buf ! k"
  by (auto simp: put_unaligned_le32_def nth_list_update)

lemma nth_put_be32_other [simp]:
  "k < i \<or> i + 4 \<le> k \<Longrightarrow> put_unaligned_be32 v buf i ! k = buf ! k"
  by (auto simp: put_unaligned_be32_def nth_list_update)

section \<open>The next input byte\<close>

definition in_byte :: "mem \<Rightarrow> xz_buf \<Rightarrow> u8 option" where
  \<comment> \<open>the expression \<open>b->in[b->in_pos]\<close>\<close>
  "in_byte m b = load m (b_in b) (b_in_pos b)"

definition valid_buf :: "mem \<Rightarrow> xz_buf \<Rightarrow> bool" where
  \<comment> \<open>what \<open>xz.h\<close> asks of the caller: positions do not exceed sizes, and the sizes are
      those of real buffers\<close>
  "valid_buf m b \<longleftrightarrow> b_in_pos b \<le> b_in_size b \<and> b_in_size b \<le> room m (b_in b) \<and>
     b_out_pos b \<le> b_out_size b \<and> b_out_size b \<le> room m (b_out b) \<and>
     b_in_size b < 2 ^ 63 \<and> b_out_size b < 2 ^ 63"

lemma ok_in_byte [ok_simps]:
  "ok (in_byte m b) P \<longleftrightarrow> b_in_pos b < room m (b_in b) \<and> P (m (fst (b_in b)) ! (snd (b_in b) + b_in_pos b))"
  by (simp add: in_byte_def ok_load)

end
