(* ===== verification/Lzma_Defs.thy ===== *)
theory Lzma_Defs
  imports Prelude
begin

unbundle bit_operations_syntax

text \<open>
  \<open>xz_lzma2.h\<close>: the constants of the range coder and of the LZMA model, and the
  twelve-state machine that remembers which symbols came last. The enumeration is
  ordered by its C values (class \<open>linorder\<close>), so the comparisons and the subtractions of
  the code read as they do there.
\<close>

section \<open>Constants\<close>

definition RC_INIT_BYTES :: nat where
  "RC_INIT_BYTES = 5"

definition LZMA_IN_REQUIRED :: nat where
  "LZMA_IN_REQUIRED = 21"

definition RC_SHIFT_BITS :: nat where
  "RC_SHIFT_BITS = 8"

definition RC_TOP_VALUE :: u32 where
  "RC_TOP_VALUE = push_bit 24 1"

definition RC_BIT_MODEL_TOTAL_BITS :: nat where
  "RC_BIT_MODEL_TOTAL_BITS = 11"

definition RC_BIT_MODEL_TOTAL :: int where
  "RC_BIT_MODEL_TOTAL = push_bit 11 1"

definition RC_MOVE_BITS :: nat where
  "RC_MOVE_BITS = 5"

definition POS_STATES_MAX :: nat where
  "POS_STATES_MAX = 16"

definition LITERAL_CODER_SIZE :: nat where
  "LITERAL_CODER_SIZE = 0x300"

definition LITERAL_CODERS_MAX :: nat where
  "LITERAL_CODERS_MAX = 16"

definition MATCH_LEN_MIN :: nat where
  "MATCH_LEN_MIN = 2"

definition LEN_LOW_SYMBOLS :: nat where
  "LEN_LOW_SYMBOLS = 8"

definition LEN_MID_SYMBOLS :: nat where
  "LEN_MID_SYMBOLS = 8"

definition LEN_HIGH_SYMBOLS :: nat where
  "LEN_HIGH_SYMBOLS = 256"

definition LEN_SYMBOLS :: nat where
  "LEN_SYMBOLS = LEN_LOW_SYMBOLS + LEN_MID_SYMBOLS + LEN_HIGH_SYMBOLS"

definition MATCH_LEN_MAX :: nat where
  "MATCH_LEN_MAX = MATCH_LEN_MIN + LEN_SYMBOLS - 1"

definition DIST_STATES :: nat where
  "DIST_STATES = 4"

definition DIST_SLOTS :: nat where
  "DIST_SLOTS = 64"

definition DIST_MODEL_START :: nat where
  "DIST_MODEL_START = 4"

definition DIST_MODEL_END :: nat where
  "DIST_MODEL_END = 14"

definition FULL_DISTANCES :: nat where
  "FULL_DISTANCES = 2 ^ (DIST_MODEL_END div 2)"

definition ALIGN_BITS :: nat where
  "ALIGN_BITS = 4"

definition ALIGN_SIZE :: nat where
  "ALIGN_SIZE = 2 ^ ALIGN_BITS"

definition PROBS_TOTAL :: nat where
  "PROBS_TOTAL = 1846 + LITERAL_CODERS_MAX * LITERAL_CODER_SIZE"

lemmas lzma_consts =
  RC_INIT_BYTES_def LZMA_IN_REQUIRED_def RC_SHIFT_BITS_def RC_TOP_VALUE_def
  RC_BIT_MODEL_TOTAL_BITS_def RC_BIT_MODEL_TOTAL_def RC_MOVE_BITS_def POS_STATES_MAX_def
  LITERAL_CODER_SIZE_def LITERAL_CODERS_MAX_def MATCH_LEN_MIN_def LEN_LOW_SYMBOLS_def
  LEN_MID_SYMBOLS_def LEN_HIGH_SYMBOLS_def LEN_SYMBOLS_def MATCH_LEN_MAX_def DIST_STATES_def
  DIST_SLOTS_def DIST_MODEL_START_def DIST_MODEL_END_def FULL_DISTANCES_def ALIGN_BITS_def
  ALIGN_SIZE_def PROBS_TOTAL_def

section \<open>The symbol history\<close>

datatype lzma_state =
    STATE_LIT_LIT
  | STATE_MATCH_LIT_LIT
  | STATE_REP_LIT_LIT
  | STATE_SHORTREP_LIT_LIT
  | STATE_MATCH_LIT
  | STATE_REP_LIT
  | STATE_SHORTREP_LIT
  | STATE_LIT_MATCH
  | STATE_LIT_LONGREP
  | STATE_LIT_SHORTREP
  | STATE_NONLIT_MATCH
  | STATE_NONLIT_REP

fun lzma_state_val :: "lzma_state \<Rightarrow> nat" where
  "lzma_state_val STATE_LIT_LIT = 0"
| "lzma_state_val STATE_MATCH_LIT_LIT = 1"
| "lzma_state_val STATE_REP_LIT_LIT = 2"
| "lzma_state_val STATE_SHORTREP_LIT_LIT = 3"
| "lzma_state_val STATE_MATCH_LIT = 4"
| "lzma_state_val STATE_REP_LIT = 5"
| "lzma_state_val STATE_SHORTREP_LIT = 6"
| "lzma_state_val STATE_LIT_MATCH = 7"
| "lzma_state_val STATE_LIT_LONGREP = 8"
| "lzma_state_val STATE_LIT_SHORTREP = 9"
| "lzma_state_val STATE_NONLIT_MATCH = 10"
| "lzma_state_val STATE_NONLIT_REP = 11"

definition lzma_states :: "lzma_state list" where
  "lzma_states =
     [STATE_LIT_LIT, STATE_MATCH_LIT_LIT, STATE_REP_LIT_LIT, STATE_SHORTREP_LIT_LIT,
      STATE_MATCH_LIT, STATE_REP_LIT, STATE_SHORTREP_LIT, STATE_LIT_MATCH, STATE_LIT_LONGREP,
      STATE_LIT_SHORTREP, STATE_NONLIT_MATCH, STATE_NONLIT_REP]"

definition STATES :: nat where
  "STATES = 12"

definition LIT_STATES :: nat where
  "LIT_STATES = 7"

lemma lzma_state_val_less: "lzma_state_val st < STATES"
  by (cases st) (simp_all add: STATES_def)

lemma lzma_state_val_inj: "lzma_state_val st = lzma_state_val st' \<longleftrightarrow> st = st'"
  by (cases st; cases st') simp_all

lemma lzma_states_nth: "lzma_states ! lzma_state_val st = st"
  by (cases st) (simp_all add: lzma_states_def)

instantiation lzma_state :: linorder
begin

definition less_eq_lzma_state :: "lzma_state \<Rightarrow> lzma_state \<Rightarrow> bool" where
  "less_eq_lzma_state a b \<longleftrightarrow> lzma_state_val a \<le> lzma_state_val b"

definition less_lzma_state :: "lzma_state \<Rightarrow> lzma_state \<Rightarrow> bool" where
  "less_lzma_state a b \<longleftrightarrow> lzma_state_val a < lzma_state_val b"

instance
  by standard (auto simp: less_eq_lzma_state_def less_lzma_state_def lzma_state_val_inj)

end

text \<open>The state \<open>n\<close> below \<open>st\<close>: C's \<open>*state -= n\<close> on the enumeration.\<close>

definition lzma_state_minus :: "lzma_state \<Rightarrow> nat \<Rightarrow> lzma_state" where
  "lzma_state_minus st n = lzma_states ! (lzma_state_val st - n)"

definition lzma_state_literal :: "lzma_state \<Rightarrow> lzma_state" where
  "lzma_state_literal st =
     (if st \<le> STATE_SHORTREP_LIT_LIT then STATE_LIT_LIT
      else if st \<le> STATE_LIT_SHORTREP then lzma_state_minus st 3
      else lzma_state_minus st 6)"

definition lzma_state_match :: "lzma_state \<Rightarrow> lzma_state" where
  "lzma_state_match st = (if lzma_state_val st < LIT_STATES then STATE_LIT_MATCH else STATE_NONLIT_MATCH)"

definition lzma_state_long_rep :: "lzma_state \<Rightarrow> lzma_state" where
  "lzma_state_long_rep st = (if lzma_state_val st < LIT_STATES then STATE_LIT_LONGREP else STATE_NONLIT_REP)"

definition lzma_state_short_rep :: "lzma_state \<Rightarrow> lzma_state" where
  "lzma_state_short_rep st = (if lzma_state_val st < LIT_STATES then STATE_LIT_SHORTREP else STATE_NONLIT_REP)"

definition lzma_state_is_literal :: "lzma_state \<Rightarrow> bool" where
  "lzma_state_is_literal st \<longleftrightarrow> lzma_state_val st < LIT_STATES"

lemmas lzma_state_defs =
  lzma_state_literal_def lzma_state_match_def lzma_state_long_rep_def lzma_state_short_rep_def
  lzma_state_is_literal_def lzma_state_minus_def less_eq_lzma_state_def less_lzma_state_def
  LIT_STATES_def lzma_states_def

definition lzma_get_dist_state :: "nat \<Rightarrow> nat" where
  "lzma_get_dist_state len =
     (if len < DIST_STATES + MATCH_LEN_MIN then u32_sub len MATCH_LEN_MIN else DIST_STATES - 1)"

section \<open>What the state machine remembers\<close>

text \<open>
  The names of the states are of the form oldest, older, previous. The specification
  keeps the last three symbols; \<open>lzma_state_of_history\<close> reads a state name off them.
\<close>

datatype lzma_symbol = Lit | Match | Long_Rep | Short_Rep

fun lzma_state_step :: "lzma_state \<Rightarrow> lzma_symbol \<Rightarrow> lzma_state" where
  "lzma_state_step st Lit = lzma_state_literal st"
| "lzma_state_step st Match = lzma_state_match st"
| "lzma_state_step st Long_Rep = lzma_state_long_rep st"
| "lzma_state_step st Short_Rep = lzma_state_short_rep st"

fun lzma_state_of_history :: "lzma_symbol list \<Rightarrow> lzma_state" where
  \<comment> \<open>most recent symbol first; before the first symbol the history counts as literals\<close>
  "lzma_state_of_history [] = STATE_LIT_LIT"
| "lzma_state_of_history (Lit # h) =
     (case h of
        Match # _ \<Rightarrow> STATE_MATCH_LIT
      | Long_Rep # h' \<Rightarrow> STATE_REP_LIT
      | Short_Rep # h' \<Rightarrow> (case h' of [] \<Rightarrow> STATE_SHORTREP_LIT | Lit # _ \<Rightarrow> STATE_SHORTREP_LIT | _ \<Rightarrow> STATE_REP_LIT)
      | Lit # Match # _ \<Rightarrow> STATE_MATCH_LIT_LIT
      | Lit # Long_Rep # _ \<Rightarrow> STATE_REP_LIT_LIT
      | Lit # Short_Rep # h' \<Rightarrow>
          (case h' of [] \<Rightarrow> STATE_SHORTREP_LIT_LIT | Lit # _ \<Rightarrow> STATE_SHORTREP_LIT_LIT | _ \<Rightarrow> STATE_REP_LIT_LIT)
      | _ \<Rightarrow> STATE_LIT_LIT)"
| "lzma_state_of_history (Match # h) =
     (case h of [] \<Rightarrow> STATE_LIT_MATCH | Lit # _ \<Rightarrow> STATE_LIT_MATCH | _ \<Rightarrow> STATE_NONLIT_MATCH)"
| "lzma_state_of_history (Long_Rep # h) =
     (case h of [] \<Rightarrow> STATE_LIT_LONGREP | Lit # _ \<Rightarrow> STATE_LIT_LONGREP | _ \<Rightarrow> STATE_NONLIT_REP)"
| "lzma_state_of_history (Short_Rep # h) =
     (case h of [] \<Rightarrow> STATE_LIT_SHORTREP | Lit # _ \<Rightarrow> STATE_LIT_SHORTREP | _ \<Rightarrow> STATE_NONLIT_REP)"

lemma lzma_state_step_history:
  "lzma_state_step (lzma_state_of_history h) x = lzma_state_of_history (x # h)"
  by (cases x; cases h rule: lzma_state_of_history.cases)
     (auto simp: lzma_state_defs split: list.splits lzma_symbol.splits)

text \<open>
  C25: started at \<open>STATE_LIT_LIT\<close> and driven through any sequence of decoded symbols, the
  twelve-state machine is in the state whose name describes the last three symbols of
  that sequence.
\<close>

theorem lzma_state_machine_history:
  "foldl lzma_state_step STATE_LIT_LIT xs = lzma_state_of_history (rev xs)"
  by (induction xs rule: rev_induct) (simp_all add: lzma_state_step_history)

lemma lzma_state_literal_is_literal: "lzma_state_is_literal (lzma_state_literal st)"
  by (cases st) (simp_all add: lzma_state_defs)

end
