(* ===== verification/Range_Decoder.thy ===== *)
theory Range_Decoder
  imports Xz_Defs Lzma_Defs
begin

unbundle bit_operations_syntax

text \<open>
  The range decoder of \<open>xz_dec_lzma2.c\<close> (\<open>struct rc_dec\<close> and the \<open>rc_*\<close> functions).

  The probability variables of the LZMA decoder are one array of \<open>PROBS_TOTAL\<close> entries,
  as \<open>lzma_reset\<close> treats them; a C pointer into one of the member arrays is a
  \<open>prob_ptr\<close>: an index into that array together with the bounds of the member array it
  may be used for. An access outside these bounds has no result.

  The central relation is \<open>rc_reach np nd r0 r\<close>: the decoder got from \<open>r0\<close> to
  \<open>r\<close> by \<open>np\<close> modelled bits and \<open>nd\<close> direct bits. It bounds the range from below,
  hence the number of input bytes from above: 22 modelled and 26 direct bits, the most one
  symbol has, never take more than 20 bytes, which is what \<open>LZMA_IN_REQUIRED\<close> rests on.
\<close>

section \<open>The code\<close>

record rc_dec =
  rc_range :: u32
  rc_code :: u32
  init_bytes_left :: nat
  rc_in :: ptr
  rc_in_pos :: nat
  rc_in_limit :: nat

type_synonym probs = "nat \<Rightarrow> u16"

record prob_ptr =
  pp_addr :: nat
  pp_lo :: nat
  pp_hi :: nat

definition prob_index :: "prob_ptr \<Rightarrow> nat \<Rightarrow> nat option" where
  "prob_index p i =
     (if pp_lo p \<le> pp_addr p + i \<and> pp_addr p + i < pp_hi p then Some (pp_addr p + i) else None)"

definition rc_reset :: "rc_dec \<Rightarrow> rc_dec" where
  "rc_reset rc = rc\<lparr>rc_range := -1, rc_code := 0, init_bytes_left := RC_INIT_BYTES\<rparr>"

partial_function (option) rc_read_init ::
  "mem \<Rightarrow> rc_dec \<Rightarrow> xz_buf \<Rightarrow> (bool \<times> rc_dec \<times> xz_buf) option" where
  "rc_read_init m rc b =
     (if init_bytes_left rc > 0 then
        if b_in_pos b = b_in_size b then Some (False, rc, b)
        else do {
          byte \<leftarrow> in_byte m b;
          rc_read_init m
            (rc\<lparr>rc_code := push_bit 8 (rc_code rc) + ucast byte,
                init_bytes_left := u32_sub (init_bytes_left rc) 1\<rparr>)
            (b\<lparr>b_in_pos := sz_add (b_in_pos b) 1\<rparr>)
        }
      else Some (True, rc, b))"

definition rc_limit_exceeded :: "rc_dec \<Rightarrow> bool" where
  "rc_limit_exceeded rc \<longleftrightarrow> rc_in_pos rc > rc_in_limit rc"

definition rc_is_finished :: "rc_dec \<Rightarrow> bool" where
  "rc_is_finished rc \<longleftrightarrow> rc_code rc = 0"

definition rc_normalize :: "mem \<Rightarrow> rc_dec \<Rightarrow> rc_dec option" where
  "rc_normalize m rc =
     (if rc_range rc < RC_TOP_VALUE then do {
        byte \<leftarrow> load m (rc_in rc) (rc_in_pos rc);
        Some (rc\<lparr>rc_range := push_bit RC_SHIFT_BITS (rc_range rc),
                 rc_code := push_bit RC_SHIFT_BITS (rc_code rc) + ucast byte,
                 rc_in_pos := sz_add (rc_in_pos rc) 1\<rparr>)
      }
      else Some rc)"

text \<open>The two updates of a probability. The sums are of C type \<open>int\<close>, with an
  arithmetic shift, and are stored back as \<open>uint16_t\<close>.\<close>

definition prob_up :: "u16 \<Rightarrow> u16" where
  "prob_up p = word_of_int (uint p + drop_bit RC_MOVE_BITS (RC_BIT_MODEL_TOTAL - uint p))"

definition prob_down :: "u16 \<Rightarrow> u16" where
  "prob_down p = word_of_int (uint p - drop_bit RC_MOVE_BITS (uint p))"

definition rc_bit :: "mem \<Rightarrow> rc_dec \<Rightarrow> probs \<Rightarrow> prob_ptr \<Rightarrow> nat \<Rightarrow> (bool \<times> rc_dec \<times> probs) option" where
  \<comment> \<open>\<open>rc_bit(rc, &p[i])\<close>; the C result is an int that is 0 or 1\<close>
  "rc_bit m rc pr p i = do {
     rc \<leftarrow> rc_normalize m rc;
     k \<leftarrow> prob_index p i;
     let bound = drop_bit RC_BIT_MODEL_TOTAL_BITS (rc_range rc) * ucast (pr k);
     if rc_code rc < bound
     then Some (False, rc\<lparr>rc_range := bound\<rparr>, pr(k := prob_up (pr k)))
     else Some (True, rc\<lparr>rc_range := rc_range rc - bound, rc_code := rc_code rc - bound\<rparr>,
                pr(k := prob_down (pr k)))
   }"

partial_function (option) rc_bittree_from ::
  "mem \<Rightarrow> prob_ptr \<Rightarrow> u32 \<Rightarrow> rc_dec \<Rightarrow> probs \<Rightarrow> u32 \<Rightarrow> (u32 \<times> rc_dec \<times> probs) option" where
  "rc_bittree_from m p limit rc pr symbol = do {
     (bit, rc, pr) \<leftarrow> rc_bit m rc pr p (unat symbol);
     let symbol = (if bit then push_bit 1 symbol + 1 else push_bit 1 symbol);
     if symbol < limit then rc_bittree_from m p limit rc pr symbol else Some (symbol, rc, pr)
   }"

definition rc_bittree :: "mem \<Rightarrow> rc_dec \<Rightarrow> probs \<Rightarrow> prob_ptr \<Rightarrow> u32 \<Rightarrow> (u32 \<times> rc_dec \<times> probs) option" where
  "rc_bittree m rc pr p limit = rc_bittree_from m p limit rc pr 1"

partial_function (option) rc_bittree_reverse_from ::
  "mem \<Rightarrow> prob_ptr \<Rightarrow> nat \<Rightarrow> rc_dec \<Rightarrow> probs \<Rightarrow> u32 \<Rightarrow> u32 \<Rightarrow> nat \<Rightarrow> (u32 \<times> rc_dec \<times> probs) option" where
  "rc_bittree_reverse_from m p limit rc pr dest symbol i = do {
     (bit, rc, pr) \<leftarrow> rc_bit m rc pr p (unat symbol);
     let symbol' = (if bit then push_bit 1 symbol + 1 else push_bit 1 symbol);
     let dest' = (if bit then dest + push_bit i 1 else dest);
     let i' = u32_add i 1;
     if i' < limit then rc_bittree_reverse_from m p limit rc pr dest' symbol' i'
     else Some (dest', rc, pr)
   }"

definition rc_bittree_reverse ::
  "mem \<Rightarrow> rc_dec \<Rightarrow> probs \<Rightarrow> prob_ptr \<Rightarrow> u32 \<Rightarrow> nat \<Rightarrow> (u32 \<times> rc_dec \<times> probs) option" where
  "rc_bittree_reverse m rc pr p dest limit = rc_bittree_reverse_from m p limit rc pr dest 1 0"

definition rc_direct_step :: "rc_dec \<Rightarrow> u32 \<Rightarrow> rc_dec \<times> u32" where
  \<comment> \<open>the loop body of \<open>rc_direct\<close> after \<open>rc_normalize\<close>\<close>
  "rc_direct_step rc dest =
     (let range = drop_bit 1 (rc_range rc);
          code = rc_code rc - range;
          mask = 0 - drop_bit 31 code
      in (rc\<lparr>rc_range := range, rc_code := code + (range AND mask)\<rparr>, push_bit 1 dest + (mask + 1)))"

partial_function (option) rc_direct :: "mem \<Rightarrow> rc_dec \<Rightarrow> u32 \<Rightarrow> nat \<Rightarrow> (u32 \<times> rc_dec) option" where
  "rc_direct m rc dest limit = do {
     rc \<leftarrow> rc_normalize m rc;
     let (rc, dest) = rc_direct_step rc dest;
     let limit = u32_sub limit 1;
     if limit > 0 then rc_direct m rc dest limit else Some (dest, rc)
   }"

lemma unat_top: "unat RC_TOP_VALUE = 16777216"
  by (simp add: RC_TOP_VALUE_def)

section \<open>Probabilities stay within their bounds\<close>

definition prob_bounded :: "u16 \<Rightarrow> bool" where
  "prob_bounded p \<longleftrightarrow> 31 \<le> unat p \<and> unat p \<le> 2017"

definition probs_ok :: "probs \<Rightarrow> bool" where
  "probs_ok pr \<longleftrightarrow> (\<forall>k < PROBS_TOTAL. prob_bounded (pr k))"

lemma unat_u16_of_int: "0 \<le> x \<Longrightarrow> x < 65536 \<Longrightarrow> unat (word_of_int x :: u16) = nat x"
proof -
  assume "0 \<le> x" and "x < 65536"
  then have "uint (word_of_int x :: u16) = x"
    unfolding uint_word_of_int_eq by (intro take_bit_int_eq_self) simp_all
  then show "unat (word_of_int x :: u16) = nat x"
    by (simp only: unat_eq_nat_uint)
qed

lemma unat_prob_up:
  assumes "unat p \<le> 2048"
  shows "unat (prob_up p) = unat p + (2048 - unat p) div 32"
proof -
  have "prob_up p = word_of_int (int (unat p) + (2048 - int (unat p)) div 32)"
    by (simp add: prob_up_def RC_MOVE_BITS_def RC_BIT_MODEL_TOTAL_def drop_bit_eq_div)
  also have "unat \<dots> = nat (int (unat p) + (2048 - int (unat p)) div 32)"
    using assms by (intro unat_u16_of_int) linarith+
  also have "\<dots> = unat p + (2048 - unat p) div 32"
    using assms by linarith
  finally show ?thesis .
qed

lemma unat_prob_down: "unat (prob_down p) = unat p - unat p div 32"
proof -
  have "prob_down p = word_of_int (int (unat p) - int (unat p) div 32)"
    by (simp add: prob_down_def RC_MOVE_BITS_def drop_bit_eq_div)
  also have "unat \<dots> = nat (int (unat p) - int (unat p) div 32)"
    using unat_u16_less [of p] by (intro unat_u16_of_int) linarith+
  also have "\<dots> = unat p - unat p div 32" by linarith
  finally show ?thesis .
qed

lemma prob_bounded_up: "prob_bounded p \<Longrightarrow> prob_bounded (prob_up p)"
  unfolding prob_bounded_def by (subst (1 2) unat_prob_up) linarith+

lemma prob_bounded_down: "prob_bounded p \<Longrightarrow> prob_bounded (prob_down p)"
  unfolding prob_bounded_def unat_prob_down by linarith

lemma probs_ok_upd: "probs_ok pr \<Longrightarrow> prob_bounded v \<Longrightarrow> probs_ok (pr(k := v))"
  by (simp add: probs_ok_def)

section \<open>Progress of the range decoder\<close>

definition rc_reach :: "nat \<Rightarrow> nat \<Rightarrow> rc_dec \<Rightarrow> rc_dec \<Rightarrow> bool" where
  "rc_reach np nd r0 r \<longleftrightarrow>
     rc_in r = rc_in r0 \<and> rc_in_limit r = rc_in_limit r0 \<and> init_bytes_left r = init_bytes_left r0 \<and>
     253952 \<le> unat (rc_range r0) \<and> 253952 \<le> unat (rc_range r) \<and>
     (\<exists>k \<le> 20. rc_in_pos r = rc_in_pos r0 + k \<and>
        256 ^ k * unat (rc_range r0) * 253921 ^ np * 16777215 ^ nd
          \<le> unat (rc_range r) * 2 ^ (24 * np + 25 * nd))"

definition rc_room :: "mem \<Rightarrow> rc_dec \<Rightarrow> nat \<Rightarrow> bool" where
  \<comment> \<open>\<open>n\<close> more bytes may be read\<close>
  "rc_room m r n \<longleftrightarrow> rc_in_pos r + n \<le> room m (rc_in r) \<and> rc_in_pos r + n < 2 ^ 64"

lemma rc_reach_refl: "253952 \<le> unat (rc_range r) \<Longrightarrow> rc_reach 0 0 r r"
  by (auto simp: rc_reach_def intro!: exI [of _ 0])

text \<open>
  The arithmetic of the bound. Before each bit of a symbol at most 21 modelled and 26 direct
  bits precede it, or 22 modelled bits and no direct bit; with 20 bytes already read
  the range cannot be below 2^24 then.
\<close>

definition bits_ok :: "nat \<Rightarrow> nat \<Rightarrow> bool" where
  "bits_ok np nd \<longleftrightarrow> np \<le> 21 \<and> nd \<le> 26 \<or> np \<le> 22 \<and> nd = 0"

lemma bits_ok_mono: "bits_ok np nd \<Longrightarrow> np' \<le> np \<Longrightarrow> nd' \<le> nd \<Longrightarrow> bits_ok np' nd'"
  by (auto simp: bits_ok_def)

lemma range_bound:
  assumes "np \<le> P" and "nd \<le> D"
    and "256 ^ 20 * R0 * 253921 ^ np * 16777215 ^ nd \<le> R * 2 ^ (24 * np + 25 * nd)"
    and "253952 \<le> (R0 :: nat)" and "R < 16777216"
  shows "(256 :: nat) ^ 20 * 253952 * (253921 ^ P * 16777215 ^ D) \<le> 2 ^ 24 * 2 ^ (24 * P + 25 * D)"
proof -
  let ?u = "253921 ^ (P - np) * 16777215 ^ (D - nd) :: nat"
  let ?v = "2 ^ (24 * (P - np) + 25 * (D - nd)) :: nat"
  have uv: "?u \<le> ?v"
    by (simp add: power_add power_mult mult_le_mono power_mono)
  have split: "a ^ (n :: nat) * a ^ (k - n) = a ^ k" if "n \<le> k" for a k n :: nat
    using that by (simp flip: power_add)
  have "(256 :: nat) ^ 20 * 253952 * (253921 ^ P * 16777215 ^ D)
      \<le> 256 ^ 20 * R0 * (253921 ^ np * 253921 ^ (P - np) * (16777215 ^ nd * 16777215 ^ (D - nd)))"
    using assms(4) by (simp only: split [OF assms(1)] split [OF assms(2)]) simp
  also have "\<dots> = (256 ^ 20 * R0 * 253921 ^ np * 16777215 ^ nd) * ?u"
    by (simp only: ac_simps)
  also have "\<dots> \<le> (R * 2 ^ (24 * np + 25 * nd)) * ?v"
    by (rule mult_le_mono [OF assms(3) uv])
  also have "\<dots> = R * 2 ^ (24 * P + 25 * D)"
  proof -
    have "24 * np + 25 * nd + (24 * (P - np) + 25 * (D - nd)) = 24 * P + 25 * D"
      using assms(1,2) by linarith
    then show ?thesis by (metis mult.assoc power_add)
  qed
  also have "\<dots> \<le> 2 ^ 24 * 2 ^ (24 * P + 25 * D)"
    using assms(5) by (intro mult_le_mono1) simp
  finally show ?thesis .
qed

lemma twenty_bytes:
  assumes "bits_ok np nd"
    and "256 ^ 20 * R0 * 253921 ^ np * 16777215 ^ nd \<le> R * 2 ^ (24 * np + 25 * nd)"
    and "253952 \<le> (R0 :: nat)"
  shows "16777216 \<le> R"
proof (rule ccontr)
  assume "\<not> 16777216 \<le> R"
  then have R: "R < 16777216" by simp
  show False
  proof (cases "np \<le> 21 \<and> nd \<le> 26")
    case True
    then show False using range_bound [of np 21 nd 26, OF _ _ assms(2,3) R] by simp
  next
    case False
    with assms(1) have "np \<le> 22" "nd \<le> 0" by (auto simp: bits_ok_def)
    then show False using range_bound [of np 22 nd 0, OF _ _ assms(2,3) R] by simp
  qed
qed

text \<open>Decoding fewer bits than counted is never a problem.\<close>

lemma rc_reach_more:
  assumes "rc_reach np nd r0 r" and "np \<le> np'" and "nd \<le> nd'"
  shows "rc_reach np' nd' r0 r"
proof -
  from assms(1) obtain k where k: "k \<le> 20" "rc_in_pos r = rc_in_pos r0 + k"
    and low: "256 ^ k * unat (rc_range r0) * 253921 ^ np * 16777215 ^ nd
          \<le> unat (rc_range r) * 2 ^ (24 * np + 25 * nd)"
    by (auto simp: rc_reach_def)
  let ?u = "253921 ^ (np' - np) * 16777215 ^ (nd' - nd) :: nat"
  let ?v = "2 ^ (24 * (np' - np) + 25 * (nd' - nd)) :: nat"
  have uv: "?u \<le> ?v"
    by (simp add: power_add power_mult mult_le_mono power_mono)
  have split: "a ^ n * a ^ (k - n) = a ^ k" if "n \<le> k" for a k n :: nat
    using that by (simp flip: power_add)
  have "256 ^ k * unat (rc_range r0) * 253921 ^ np' * 16777215 ^ nd'
      = (256 ^ k * unat (rc_range r0) * 253921 ^ np * 16777215 ^ nd) * ?u"
    by (simp only: ac_simps flip: split [OF assms(2)] split [OF assms(3)])
  also have "\<dots> \<le> (unat (rc_range r) * 2 ^ (24 * np + 25 * nd)) * ?v"
    by (rule mult_le_mono [OF low uv])
  also have "\<dots> = unat (rc_range r) * 2 ^ (24 * np' + 25 * nd')"
  proof -
    have "24 * np + 25 * nd + (24 * (np' - np) + 25 * (nd' - nd)) = 24 * np' + 25 * nd'"
      using assms(2,3) by linarith
    then show ?thesis by (metis mult.assoc power_add)
  qed
  finally show ?thesis
    using assms(1) k unfolding rc_reach_def by (auto intro!: exI [of _ k])
qed

lemma range_test: "rc_range r < RC_TOP_VALUE \<longleftrightarrow> unat (rc_range r) < 16777216"
  by (simp add: word_less_nat_alt unat_top)

lemma ok_rc_normalize:
  assumes "rc_reach np nd r0 r" and "bits_ok np nd" and "rc_room m r0 20"
  shows "ok (rc_normalize m r) (\<lambda>r'. rc_reach np nd r0 r' \<and> 16777216 \<le> unat (rc_range r'))"
proof (cases "unat (rc_range r) < 16777216")
  case False
  with assms(1) show ?thesis by (simp add: rc_normalize_def range_test)
next
  case True
  from assms(1) obtain k where k: "k \<le> 20" "rc_in_pos r = rc_in_pos r0 + k"
    and low: "256 ^ k * unat (rc_range r0) * 253921 ^ np * 16777215 ^ nd
          \<le> unat (rc_range r) * 2 ^ (24 * np + 25 * nd)"
    and R: "253952 \<le> unat (rc_range r0)" "253952 \<le> unat (rc_range r)" and inp: "rc_in r = rc_in r0"
    by (auto simp: rc_reach_def)
  have "k \<noteq> 20"
    using twenty_bytes [OF assms(2) _ R(1), of "unat (rc_range r)"] low True by fastforce
  with k have k19: "k \<le> 19" by simp
  have range: "unat (push_bit 8 (rc_range r)) = unat (rc_range r) * 256"
    using True unat_push_bit_small [of "rc_range r" 8] by simp
  have pos: "sz_add (rc_in_pos r) (Suc 0) = Suc (rc_in_pos r0 + k)"
    using assms(3) k k19 by (simp add: rc_room_def)
  have low': "256 ^ Suc k * unat (rc_range r0) * 253921 ^ np * 16777215 ^ nd
      \<le> unat (push_bit 8 (rc_range r)) * 2 ^ (24 * np + 25 * nd)"
    using low by (simp add: range)
  have "rc_in_pos r < room m (rc_in r)"
    using assms(3) k k19 inp by (simp add: rc_room_def)
  moreover have "rc_reach np nd r0 (r\<lparr>rc_range := push_bit 8 (rc_range r), rc_code := c,
      rc_in_pos := Suc (rc_in_pos r0 + k)\<rparr>)" for c
    using assms(1) R low' k19 range unfolding rc_reach_def by (auto intro!: exI [of _ "Suc k"])
  ultimately show ?thesis
    using True R by (simp add: rc_normalize_def range_test ok_simps RC_SHIFT_BITS_def pos range)
qed

text \<open>One modelled bit. The split keeps at least 31 parts of 2048 of the range.\<close>

lemma split_range:
  assumes "16777216 \<le> unat (w :: u32)" and "prob_bounded p"
  defines "bound \<equiv> drop_bit 11 w * ucast p"
  shows "unat bound = unat w div 2048 * unat p" and "bound \<le> w"
    and "unat (w - bound) = unat w - unat bound"
    and "31 * (unat w div 2048) \<le> unat bound"
    and "31 * (unat w div 2048) \<le> unat (w - bound)"
proof -
  let ?q = "unat w div 2048"
  have p: "31 \<le> unat p" "unat p \<le> 2017" using assms(2) by (simp_all add: prob_bounded_def)
  have le: "?q * unat p \<le> ?q * 2017" using p by simp
  have qr: "?q * 2048 \<le> unat w" by simp
  have small: "?q * unat p < 4294967296"
    using le qr unat_u32_less [of w] by linarith
  show b: "unat bound = ?q * unat p"
    using small by (simp add: bound_def unat_mult_small unat_drop_bit_u32)
  show leq: "bound \<le> w"
    unfolding word_le_nat_alt b using le qr by linarith
  show diff: "unat (w - bound) = unat w - unat bound"
    using leq by (rule unat_sub)
  show "31 * ?q \<le> unat bound" using p by (simp add: b mult.commute)
  show "31 * ?q \<le> unat (w - bound)" unfolding diff b using le qr by linarith
qed

lemma reach_shrink:
  assumes "rc_reach np nd r0 r" and "16777216 \<le> unat (rc_range r)"
    and "31 * (unat (rc_range r) div 2048) \<le> unat range'"
  shows "rc_reach (Suc np) nd r0 (r\<lparr>rc_range := range', rc_code := c\<rparr>)"
proof -
  let ?R = "unat (rc_range r)" and ?q = "unat (rc_range r) div 2048"
  have q: "?R * 8191 \<le> ?q * 16777216" "8192 \<le> ?q" using assms(2) by linarith+
  then have shrink: "?R * 253921 \<le> unat range' * 16777216" and R': "253952 \<le> unat range'"
    using assms(3) by linarith+
  from assms(1) obtain k where k: "k \<le> 20" "rc_in_pos r = rc_in_pos r0 + k"
    and low: "256 ^ k * unat (rc_range r0) * 253921 ^ np * 16777215 ^ nd \<le> ?R * 2 ^ (24 * np + 25 * nd)"
    by (auto simp: rc_reach_def)
  have "256 ^ k * unat (rc_range r0) * 253921 ^ Suc np * 16777215 ^ nd
      = (256 ^ k * unat (rc_range r0) * 253921 ^ np * 16777215 ^ nd) * 253921"
    by simp
  also have "\<dots> \<le> (?R * 253921) * 2 ^ (24 * np + 25 * nd)"
    using mult_le_mono1 [OF low, of 253921] by (simp add: ac_simps)
  also have "\<dots> \<le> (unat range' * 16777216) * 2 ^ (24 * np + 25 * nd)"
    using shrink by (rule mult_le_mono1)
  also have "\<dots> = unat range' * 2 ^ (24 * Suc np + 25 * nd)"
    by (simp add: power_add)
  finally show ?thesis
    using assms(1) R' k unfolding rc_reach_def by (auto intro!: exI [of _ k])
qed

definition prob_ptr_ok :: "prob_ptr \<Rightarrow> nat \<Rightarrow> bool" where
  \<comment> \<open>indices below \<open>n\<close> (from 1 on) stay within the member array\<close>
  "prob_ptr_ok p n \<longleftrightarrow> pp_lo p \<le> pp_addr p + 1 \<and> pp_addr p + n \<le> pp_hi p \<and> pp_hi p \<le> PROBS_TOTAL"

lemma ok_rc_bit_at:
  assumes reach: "rc_reach np nd r0 r" and bits: "bits_ok np nd" and room: "rc_room m r0 20"
    and pr: "probs_ok pr" and idx: "prob_index p i = Some k" "k < PROBS_TOTAL"
  shows "ok (rc_bit m r pr p i) (\<lambda>(bit, r', pr'). rc_reach (Suc np) nd r0 r' \<and> probs_ok pr')"
  unfolding rc_bit_def
proof (rule ok_bindI [OF ok_rc_normalize [OF reach bits room]])
  fix r1 assume r1: "rc_reach np nd r0 r1 \<and> 16777216 \<le> unat (rc_range r1)"
  have pk: "prob_bounded (pr k)" using pr idx by (simp add: probs_ok_def)
  note split = split_range [OF conjunct2 [OF r1] pk]
  show "ok (do { k \<leftarrow> prob_index p i;
      let bound = drop_bit RC_BIT_MODEL_TOTAL_BITS (rc_range r1) * ucast (pr k);
      if rc_code r1 < bound
      then Some (False, r1\<lparr>rc_range := bound\<rparr>, pr(k := prob_up (pr k)))
      else Some (True, r1\<lparr>rc_range := rc_range r1 - bound, rc_code := rc_code r1 - bound\<rparr>,
                 pr(k := prob_down (pr k))) })
    (\<lambda>(bit, r', pr'). rc_reach (Suc np) nd r0 r' \<and> probs_ok pr')"
    using r1 split(4,5) reach_shrink [where r = r1 and c = "rc_code r1"] reach_shrink [where r = r1]
    by (auto simp: idx RC_BIT_MODEL_TOTAL_BITS_def Let_def pr
        intro!: probs_ok_upd prob_bounded_up prob_bounded_down pk)
qed

lemma ok_rc_bit:
  assumes "rc_reach np nd r0 r" and "bits_ok np nd" and "rc_room m r0 20"
    and "probs_ok pr" and "prob_ptr_ok p n" and "1 \<le> i" and "i < n"
  shows "ok (rc_bit m r pr p i) (\<lambda>(bit, r', pr'). rc_reach (Suc np) nd r0 r' \<and> probs_ok pr')"
  using assms by (intro ok_rc_bit_at [where k = "pp_addr p + i"]) (auto simp: prob_ptr_ok_def prob_index_def)

text \<open>A tree of \<open>n\<close> levels: the symbol has one more binary digit at each level.\<close>

lemma tree_step:
  assumes "2 ^ j \<le> unat (s :: u32)" and "unat s < 2 ^ Suc j" and "j < 31"
  shows "2 ^ Suc j \<le> unat (if b then push_bit 1 s + 1 else push_bit 1 s)" (is "_ \<le> unat ?s'")
    and "unat (if b then push_bit 1 s + 1 else push_bit 1 s) < 2 ^ Suc (Suc j)"
proof -
  have "(2 :: nat) ^ Suc j \<le> 2 ^ 31" using assms(3) by (intro power_increasing) auto
  then have s: "unat s < 2147483648" using assms(2) by simp
  show "2 ^ Suc j \<le> unat ?s'" and "unat ?s' < 2 ^ Suc (Suc j)"
    using assms(1,2) by (cases b; simp only: if_True if_False unat_shl1 [OF s] unat_shl1_inc [OF s]; simp)+
qed

lemma ok_bittree_from:
  assumes "rc_reach np nd r0 r" and "bits_ok (np + (n - j) - 1) nd" and "rc_room m r0 20"
    and "probs_ok pr" and "prob_ptr_ok p (2 ^ n)"
    and "2 ^ j \<le> unat s" and "unat s < 2 ^ Suc j" and "j < n" and "n < 31" and "unat limit = 2 ^ n"
  shows "ok (rc_bittree_from m p limit r pr s) (\<lambda>(s', r', pr').
      rc_reach (np + (n - j)) nd r0 r' \<and> probs_ok pr' \<and> 2 ^ n \<le> unat s' \<and> unat s' < 2 ^ Suc n)"
  using assms
proof (induction "n - j" arbitrary: np j r pr s)
  case (Suc d)
  have lt: "unat s < 2 ^ n"
    using Suc.prems(7,8) power_increasing [of "Suc j" n "2 :: nat"] by simp
  have one: "1 \<le> unat s" using Suc.prems(6) one_le_power [of "2 :: nat" j] by linarith
  have step: "ok (rc_bit m r pr p (unat s)) (\<lambda>(bit, r', pr'). rc_reach (Suc np) nd r0 r' \<and> probs_ok pr')"
    by (rule ok_rc_bit [where n = "2 ^ n"]) (use Suc.prems lt one in \<open>auto intro: bits_ok_mono\<close>)
  show ?case
  proof (subst rc_bittree_from.simps, rule ok_bindI [OF step], clarify)
    fix bit r1 pr1 assume r1: "rc_reach (Suc np) nd r0 r1" "probs_ok pr1"
    define s1 where "s1 = (if bit then push_bit 1 s + 1 else push_bit 1 s)"
    have s1: "2 ^ Suc j \<le> unat s1" "unat s1 < 2 ^ Suc (Suc j)"
      using tree_step [of j s bit] Suc.prems by (simp_all add: s1_def)
    show "ok (let symbol = if bit then push_bit 1 s + 1 else push_bit 1 s
         in if symbol < limit then rc_bittree_from m p limit r1 pr1 symbol else Some (symbol, r1, pr1))
       (\<lambda>(s', r', pr'). rc_reach (np + (n - j)) nd r0 r' \<and> probs_ok pr' \<and>
          2 ^ n \<le> unat s' \<and> unat s' < 2 ^ Suc n)"
    proof (cases "Suc j = n")
      case True
      then have "\<not> s1 < limit" using s1 Suc.prems(10) by (simp add: word_less_nat_alt)
      moreover from True have "np + (n - j) = Suc np" by simp
      ultimately show ?thesis using True r1 s1 by (simp add: Let_def flip: s1_def)
    next
      case False
      then have "(2 :: nat) ^ Suc (Suc j) \<le> 2 ^ n"
        using Suc.prems(8) by (intro power_increasing) auto
      then have less: "s1 < limit" using s1 Suc.prems(10) by (simp add: word_less_nat_alt)
      have eq: "Suc np + (n - Suc j) = np + (n - j)" using Suc.prems(8) by simp
      have "ok (rc_bittree_from m p limit r1 pr1 s1) (\<lambda>(s', r', pr').
          rc_reach (Suc np + (n - Suc j)) nd r0 r' \<and> probs_ok pr' \<and> 2 ^ n \<le> unat s' \<and> unat s' < 2 ^ Suc n)"
        using Suc False r1 s1 by (intro Suc.hyps(1)) auto
      then show ?thesis using less unfolding eq by (simp add: Let_def flip: s1_def)
    qed
  qed
qed simp

lemma ok_bittree:
  assumes "rc_reach np nd r0 r" and "bits_ok (np + n - 1) nd" and "rc_room m r0 20"
    and "probs_ok pr" and "prob_ptr_ok p (2 ^ n)" and "0 < n" and "n < 31" and "unat limit = 2 ^ n"
  shows "ok (rc_bittree m r pr p limit) (\<lambda>(s', r', pr').
      rc_reach (np + n) nd r0 r' \<and> probs_ok pr' \<and> 2 ^ n \<le> unat s' \<and> unat s' < 2 ^ Suc n)"
  using ok_bittree_from [of np nd r0 r n 0 m pr p 1 limit] assms by (simp add: rc_bittree_def)

lemma ok_bittree_reverse_from:
  assumes "rc_reach np nd r0 r" and "bits_ok (np + (n - i) - 1) nd" and "rc_room m r0 20"
    and "probs_ok pr" and "prob_ptr_ok p (2 ^ n)"
    and "2 ^ i \<le> unat s" and "unat s < 2 ^ Suc i" and "i < n" and "n < 31"
  shows "ok (rc_bittree_reverse_from m p n r pr dest s i) (\<lambda>(dest', r', pr').
      rc_reach (np + (n - i)) nd r0 r' \<and> probs_ok pr')"
  using assms
proof (induction "n - i" arbitrary: np i r pr dest s)
  case (Suc d)
  have lt: "unat s < 2 ^ n"
    using Suc.prems(7,8) power_increasing [of "Suc i" n "2 :: nat"] by simp
  have one: "1 \<le> unat s" using Suc.prems(6) one_le_power [of "2 :: nat" i] by linarith
  have step: "ok (rc_bit m r pr p (unat s)) (\<lambda>(bit, r', pr'). rc_reach (Suc np) nd r0 r' \<and> probs_ok pr')"
    by (rule ok_rc_bit [where n = "2 ^ n"]) (use Suc.prems lt one in \<open>auto intro: bits_ok_mono\<close>)
  have inc: "u32_add i (Suc 0) = Suc i" using Suc.prems(8,9) by simp
  show ?case
  proof (subst rc_bittree_reverse_from.simps, rule ok_bindI [OF step], clarify)
    fix bit r1 pr1 assume r1: "rc_reach (Suc np) nd r0 r1" "probs_ok pr1"
    let ?s1 = "if bit then push_bit 1 s + 1 else push_bit 1 s"
    let ?d1 = "if bit then dest + push_bit i 1 else dest"
    have s1: "2 ^ Suc i \<le> unat ?s1" "unat ?s1 < 2 ^ Suc (Suc i)"
      using tree_step [of i s bit] Suc.prems by simp_all
    have rest: "ok (rc_bittree_reverse_from m p n r1 pr1 ?d1 ?s1 (Suc i)) (\<lambda>(dest', r', pr').
        rc_reach (Suc np + (n - Suc i)) nd r0 r' \<and> probs_ok pr')" if "Suc i < n"
      by (rule Suc.hyps(1)) (use Suc that r1 s1 in auto)
    have eq: "Suc np + (n - Suc i) = np + (n - i)" using Suc.prems(8) by simp
    show "ok (let symbol' = if bit then push_bit 1 s + 1 else push_bit 1 s;
           dest' = if bit then dest + push_bit i 1 else dest; i' = u32_add i 1
         in if i' < n then rc_bittree_reverse_from m p n r1 pr1 dest' symbol' i' else Some (dest', r1, pr1))
       (\<lambda>(dest', r', pr'). rc_reach (np + (n - i)) nd r0 r' \<and> probs_ok pr')"
    proof (cases "Suc i < n")
      case True
      from rest [OF True] True show ?thesis
        unfolding eq by (simp add: Let_def inc)
    next
      case False
      with Suc.prems(8) have "np + (n - i) = Suc np" by simp
      with False r1 show ?thesis by (simp add: Let_def inc)
    qed
  qed
qed simp

lemma ok_bittree_reverse:
  assumes "rc_reach np nd r0 r" and "bits_ok (np + n - 1) nd" and "rc_room m r0 20"
    and "probs_ok pr" and "prob_ptr_ok p (2 ^ n)" and "0 < n" and "n < 31"
  shows "ok (rc_bittree_reverse m r pr p dest n) (\<lambda>(dest', r', pr').
      rc_reach (np + n) nd r0 r' \<and> probs_ok pr')"
  using ok_bittree_reverse_from [of np nd r0 r n 0 m pr p 1 dest] assms by (simp add: rc_bittree_reverse_def)

text \<open>Direct bits halve the range.\<close>

lemma reach_halve:
  assumes "rc_reach np nd r0 r" and "16777216 \<le> unat (rc_range r)"
  shows "rc_reach np (Suc nd) r0 (r\<lparr>rc_range := drop_bit 1 (rc_range r), rc_code := c\<rparr>)"
proof -
  let ?R = "unat (rc_range r)"
  have half: "unat (drop_bit (Suc 0) (rc_range r)) = ?R div 2"
    using unat_drop_bit_u32 [of "Suc 0" "rc_range r"] by simp
  have shrink: "?R * 16777215 \<le> (?R div 2) * 33554432" and R': "253952 \<le> ?R div 2"
    using assms(2) by linarith+
  from assms(1) obtain k where k: "k \<le> 20" "rc_in_pos r = rc_in_pos r0 + k"
    and low: "256 ^ k * unat (rc_range r0) * 253921 ^ np * 16777215 ^ nd \<le> ?R * 2 ^ (24 * np + 25 * nd)"
    by (auto simp: rc_reach_def)
  have "256 ^ k * unat (rc_range r0) * 253921 ^ np * 16777215 ^ Suc nd
      = (256 ^ k * unat (rc_range r0) * 253921 ^ np * 16777215 ^ nd) * 16777215"
    by simp
  also have "\<dots> \<le> (?R * 16777215) * 2 ^ (24 * np + 25 * nd)"
    using mult_le_mono1 [OF low, of 16777215] by (simp add: ac_simps)
  also have "\<dots> \<le> ((?R div 2) * 33554432) * 2 ^ (24 * np + 25 * nd)"
    using shrink by (rule mult_le_mono1)
  also have "\<dots> = (?R div 2) * 2 ^ (24 * np + 25 * Suc nd)"
    by (simp add: power_add)
  finally show ?thesis
    using assms(1) R' k unfolding rc_reach_def by (auto simp: half intro!: exI [of _ k])
qed

lemma ok_rc_direct:
  assumes "rc_reach np nd r0 r" and "bits_ok np (nd + n - 1)" and "rc_room m r0 20" and "0 < n"
  shows "ok (rc_direct m r dest n) (\<lambda>(dest', r'). rc_reach np (nd + n) r0 r')"
  using assms
proof (induction n arbitrary: nd r dest)
  case (Suc n)
  have norm: "ok (rc_normalize m r) (\<lambda>r'. rc_reach np nd r0 r' \<and> 16777216 \<le> unat (rc_range r'))"
    using Suc.prems by (intro ok_rc_normalize) (auto intro: bits_ok_mono)
  show ?case
  proof (subst rc_direct.simps, rule ok_bindI [OF norm])
    fix r1 assume r1: "rc_reach np nd r0 r1 \<and> 16777216 \<le> unat (rc_range r1)"
    obtain r2 d2 where step: "rc_direct_step r1 dest = (r2, d2)" by fastforce
    then have r2: "rc_reach np (Suc nd) r0 r2"
      using reach_halve [of np nd r0 r1] r1 by (auto simp: rc_direct_step_def Let_def)
    show "ok (let (rc, dest) = rc_direct_step r1 dest; limit = u32_sub (Suc n) 1
        in if limit > 0 then rc_direct m rc dest limit else Some (dest, rc))
       (\<lambda>(dest', r'). rc_reach np (nd + Suc n) r0 r')"
      using Suc.IH [of "Suc nd" r2 d2] Suc.prems r2 by (cases n) (simp_all add: step)
  qed
qed simp

text \<open>Reading the five initial bytes: it stops at the end of the input, and the input
  position moves by exactly the number of bytes the counter lost.\<close>

lemma ok_rc_read_init:
  assumes "init_bytes_left rc \<le> RC_INIT_BYTES" and "valid_buf m b"
  shows "ok (rc_read_init m rc b) (\<lambda>(done, rc', b').
      valid_buf m b' \<and> b' = b\<lparr>b_in_pos := b_in_pos b'\<rparr> \<and> b_in_pos b \<le> b_in_pos b' \<and>
      b_in_pos b' - b_in_pos b = init_bytes_left rc - init_bytes_left rc' \<and>
      init_bytes_left rc' \<le> init_bytes_left rc \<and>
      rc' = rc\<lparr>rc_code := rc_code rc', init_bytes_left := init_bytes_left rc'\<rparr> \<and>
      (if done then init_bytes_left rc' = 0 else b_in_pos b' = b_in_size b' \<and> 0 < init_bytes_left rc'))"
  using assms
proof (induction "init_bytes_left rc" arbitrary: rc b)
  case 0
  then show ?case by (subst rc_read_init.simps) simp
next
  case (Suc n)
  show ?case
  proof (cases "b_in_pos b = b_in_size b")
    case True
    with Suc show ?thesis by (subst rc_read_init.simps) simp
  next
    case False
    let ?b = "b\<lparr>b_in_pos := Suc (b_in_pos b)\<rparr>"
    let ?rc = "rc\<lparr>rc_code := push_bit 8 (rc_code rc) + ucast (m (fst (b_in b)) ! (snd (b_in b) + b_in_pos b)),
      init_bytes_left := n\<rparr>"
    have vb: "valid_buf m ?b" and pos: "b_in_pos b < room m (b_in b)" "b_in_pos b < 2 ^ 63"
      using False Suc.prems(2) by (auto simp: valid_buf_def)
    have "ok (rc_read_init m ?rc ?b) (\<lambda>(done, rc', b').
      valid_buf m b' \<and> b' = ?b\<lparr>b_in_pos := b_in_pos b'\<rparr> \<and> b_in_pos ?b \<le> b_in_pos b' \<and>
      b_in_pos b' - b_in_pos ?b = init_bytes_left ?rc - init_bytes_left rc' \<and>
      init_bytes_left rc' \<le> init_bytes_left ?rc \<and>
      rc' = ?rc\<lparr>rc_code := rc_code rc', init_bytes_left := init_bytes_left rc'\<rparr> \<and>
      (if done then init_bytes_left rc' = 0 else b_in_pos b' = b_in_size b' \<and> 0 < init_bytes_left rc'))"
      using Suc.hyps(2) Suc.prems(1) vb by (intro Suc.hyps(1)) auto
    moreover have "init_bytes_left rc = Suc n" using Suc.hyps(2) by simp
    ultimately show ?thesis
      using False pos
      by (subst rc_read_init.simps) (auto simp: ok_simps elim!: ok_mono)
  qed
qed

text \<open>The mask in the body of \<open>rc_direct\<close> is a comparison: the bit is one exactly when
  the code is in the upper half, which is then subtracted.\<close>

lemma top_bit_u32: "drop_bit 31 (x :: u32) = (if 2147483648 \<le> unat x then 1 else 0)"
  using unat_u32_less [of x]
  by (simp add: word_unat_eq_iff unat_drop_bit_u32 del: unat_u32_less) linarith

lemma direct_step_compare:
  assumes "rc_code rc < rc_range rc"
  defines "half \<equiv> drop_bit 1 (rc_range rc)"
  shows "rc_direct_step rc dest =
    (if rc_code rc < half then (rc\<lparr>rc_range := half\<rparr>, push_bit 1 dest)
     else (rc\<lparr>rc_range := half, rc_code := rc_code rc - half\<rparr>, push_bit 1 dest + 1))"
proof -
  have half: "unat half = unat (rc_range rc) div 2"
    using unat_drop_bit_u32 [of 1 "rc_range rc"] by (simp add: half_def)
  have code: "unat (rc_code rc) < unat (rc_range rc)" using assms(1) by (simp add: word_less_nat_alt)
  show ?thesis
  proof (cases "rc_code rc < half")
    case True
    then have "unat (rc_code rc - half) = unat (rc_code rc) + 4294967296 - unat half"
      by (simp add: unat_sub_if' word_less_nat_alt)
    then have "drop_bit 31 (rc_code rc - half) = 1"
      unfolding top_bit_u32 using half unat_u32_less [of "rc_range rc"] by (simp del: unat_u32_less)
    then show ?thesis
      using True unfolding rc_direct_step_def Let_def half_def [symmetric] by simp
  next
    case False
    then have "unat (rc_code rc - half) = unat (rc_code rc) - unat half"
      by (simp add: unat_sub word_less_nat_alt word_le_nat_alt)
    then have "drop_bit 31 (rc_code rc - half) = 0"
      unfolding top_bit_u32 using half code unat_u32_less [of "rc_range rc"] by (simp del: unat_u32_less)
    then show ?thesis
      using False unfolding rc_direct_step_def Let_def half_def [symmetric] by simp
  qed
qed

section \<open>The coding interval\<close>

text \<open>\<open>rc_inv\<close> is what the decoder keeps between bits: the code is inside the range and the
  range has not collapsed.\<close>

definition rc_inv :: "rc_dec \<Rightarrow> bool" where
  "rc_inv rc \<longleftrightarrow> rc_code rc < rc_range rc \<and> 253952 \<le> unat (rc_range rc)"

lemma rc_normalize_inv:
  assumes "rc_inv rc" and "rc_normalize m rc = Some rc'"
  shows "rc_inv rc' \<and> 16777216 \<le> unat (rc_range rc')"
proof (cases "rc_range rc < RC_TOP_VALUE")
  case True
  let ?r = "rc_range rc" and ?c = "rc_code rc"
  from True assms(2) obtain b where b: "load m (rc_in rc) (rc_in_pos rc) = Some b"
    by (cases "load m (rc_in rc) (rc_in_pos rc)") (auto simp: rc_normalize_def)
  have le: "unat ?c < unat ?r" "unat ?r < 16777216" "253952 \<le> unat ?r"
    using assms(1) True by (simp_all add: rc_inv_def word_less_nat_alt unat_top)
  have r: "unat (push_bit 8 ?r) = unat ?r * 256" and c: "unat (push_bit 8 ?c) = unat ?c * 256"
    using le unat_push_bit_small [of ?r 8] unat_push_bit_small [of ?c 8] by simp_all
  have "unat (push_bit 8 ?c) + unat (ucast b :: u32) < 4294967296"
    using le unfolding c unat_ucast_u8_u32 using unat_u8_less [of b] by linarith
  then have c': "unat (push_bit 8 ?c + ucast b) = unat ?c * 256 + unat b"
    by (simp only: unat_add_small c unat_ucast_u8_u32)
  have "unat ?c * 256 + unat b < unat ?r * 256"
    using le unat_u8_less [of b] by linarith
  then show ?thesis
    using True assms(2) b le r c'
    by (auto simp: rc_normalize_def rc_inv_def RC_SHIFT_BITS_def word_less_nat_alt)
next
  case False
  then show ?thesis
    using assms by (auto simp: rc_normalize_def range_test)
qed

text \<open>The step after normalisation: the interval is split at the bound, and the part that
  holds the code is kept.\<close>

lemma rc_split_inv:
  assumes "rc_inv rc" and "16777216 \<le> unat (rc_range rc)" and "prob_bounded p"
  defines "bound \<equiv> drop_bit 11 (rc_range rc) * ucast p"
  shows "rc_code rc < bound \<Longrightarrow> rc_inv (rc\<lparr>rc_range := bound\<rparr>)"
    and "\<not> rc_code rc < bound \<Longrightarrow>
      rc_inv (rc\<lparr>rc_range := rc_range rc - bound, rc_code := rc_code rc - bound\<rparr>)"
proof -
  note split = split_range [OF assms(2,3), folded bound_def]
  have q: "8192 \<le> unat (rc_range rc) div 2048" using assms(2) by linarith
  show "rc_inv (rc\<lparr>rc_range := bound\<rparr>)" if "rc_code rc < bound"
    using that split(4) q by (simp add: rc_inv_def)
  show "rc_inv (rc\<lparr>rc_range := rc_range rc - bound, rc_code := rc_code rc - bound\<rparr>)"
    if "\<not> rc_code rc < bound"
  proof -
    have "unat (rc_code rc - bound) = unat (rc_code rc) - unat bound"
      using that by (intro unat_sub) simp
    then show ?thesis
      using that split(2,3,5) q assms(1) by (auto simp: rc_inv_def word_less_nat_alt word_le_nat_alt)
  qed
qed

lemma rc_bit_inv:
  assumes "rc_inv rc" and "probs_ok pr" and "pp_hi p \<le> PROBS_TOTAL"
    and "rc_bit m rc pr p i = Some (bt, rc', pr')"
  shows "rc_inv rc' \<and> probs_ok pr'"
proof -
  from assms(4) obtain rc1 k where n: "rc_normalize m rc = Some rc1" and k: "prob_index p i = Some k"
    by (auto simp: rc_bit_def Let_def split: bind_splits)
  have i1: "rc_inv rc1" "16777216 \<le> unat (rc_range rc1)" using rc_normalize_inv [OF assms(1) n] by simp_all
  have pk: "prob_bounded (pr k)"
    using k assms(2,3) by (auto simp: prob_index_def probs_ok_def split: if_splits)
  let ?b = "drop_bit 11 (rc_range rc1) * ucast (pr k)"
  show ?thesis
  proof (cases "rc_code rc1 < ?b")
    case True
    with assms(4) have "rc' = rc1\<lparr>rc_range := ?b\<rparr>" "pr' = pr(k := prob_up (pr k))"
      by (simp_all add: rc_bit_def n k RC_BIT_MODEL_TOTAL_BITS_def Let_def)
    then show ?thesis
      using rc_split_inv(1) [OF i1 pk True] probs_ok_upd [OF assms(2) prob_bounded_up [OF pk]] by simp
  next
    case False
    with assms(4) have "rc' = rc1\<lparr>rc_range := rc_range rc1 - ?b, rc_code := rc_code rc1 - ?b\<rparr>"
        "pr' = pr(k := prob_down (pr k))"
      by (simp_all add: rc_bit_def n k RC_BIT_MODEL_TOTAL_BITS_def Let_def)
    then show ?thesis
      using rc_split_inv(2) [OF i1 pk False] probs_ok_upd [OF assms(2) prob_bounded_down [OF pk]] by simp
  qed
qed

section \<open>What the range decoder inverts\<close>

text \<open>
  The arithmetic coder that the decoder inverts, with exact numbers instead of carries: the
  encoder keeps an interval of \<open>rg\<close> numbers from \<open>lo\<close>, at a scale of \<open>k\<close> bytes, and each
  bit narrows it. Any byte string whose value lies in the last interval encodes the bits.
\<close>

datatype rc_event =
    Coded prob_ptr nat bool
  | Direct bool

fun event_bit :: "rc_event \<Rightarrow> bool" where
  "event_bit (Coded p i b) = b"
| "event_bit (Direct b) = b"

fun event_ok :: "rc_event \<Rightarrow> bool" where
  "event_ok (Coded p i b) \<longleftrightarrow> prob_index p i \<noteq> None \<and> pp_hi p \<le> PROBS_TOTAL"
| "event_ok (Direct b) \<longleftrightarrow> True"

type_synonym enc = "nat \<times> nat \<times> nat"

fun enc_normalize :: "enc \<Rightarrow> enc" where
  "enc_normalize (lo, rg, k) = (if rg < 2 ^ 24 then (lo * 256, rg * 256, Suc k) else (lo, rg, k))"

fun enc_split :: "nat \<Rightarrow> nat \<Rightarrow> bool \<Rightarrow> enc \<Rightarrow> enc" where
  \<comment> \<open>the first \<open>c\<close> numbers of the interval for a zero, \<open>d\<close> numbers after them for a one\<close>
  "enc_split c d b (lo, rg, k) = (if b then (lo + c, d, k) else (lo, c, k))"

fun enc_event :: "rc_event \<Rightarrow> enc \<times> probs \<Rightarrow> enc \<times> probs" where
  "enc_event (Coded p i b) (s, pr) =
     (let s = enc_normalize s; a = pp_addr p + i; rg = fst (snd s); c = rg div 2048 * unat (pr a)
      in (enc_split c (rg - c) b s, pr(a := if b then prob_down (pr a) else prob_up (pr a))))"
| "enc_event (Direct b) (s, pr) =
     (let s = enc_normalize s; h = fst (snd s) div 2 in (enc_split h h b s, pr))"

definition enc_events :: "rc_event list \<Rightarrow> enc \<times> probs \<Rightarrow> enc \<times> probs" where
  "enc_events es s = foldl (\<lambda>s e. enc_event e s) s es"

text \<open>Decoding the same events with the code's functions.\<close>

fun dec_event :: "mem \<Rightarrow> rc_event \<Rightarrow> rc_dec \<Rightarrow> probs \<Rightarrow> (bool \<times> rc_dec \<times> probs) option" where
  "dec_event m (Coded p i _) rc pr = rc_bit m rc pr p i"
| "dec_event m (Direct _) rc pr = do { (dest, rc) \<leftarrow> rc_direct m rc 0 1; Some (dest = 1, rc, pr) }"

fun dec_events :: "mem \<Rightarrow> rc_event list \<Rightarrow> rc_dec \<Rightarrow> probs \<Rightarrow> (bool list \<times> rc_dec \<times> probs) option" where
  "dec_events m [] rc pr = Some ([], rc, pr)"
| "dec_events m (e # es) rc pr = do {
     (b, rc, pr) \<leftarrow> dec_event m e rc pr;
     (bs, rc, pr) \<leftarrow> dec_events m es rc pr;
     Some (b # bs, rc, pr)
   }"

definition code_value :: "u8 list \<Rightarrow> nat" where
  "code_value bs = foldl (\<lambda>v b. v * 256 + unat b) 0 bs"

fun in_interval :: "u8 list \<Rightarrow> enc \<Rightarrow> bool" where
  "in_interval bs (lo, rg, k) \<longleftrightarrow>
     4 + k \<le> length bs \<and> lo \<le> code_value (take (4 + k) bs) \<and> code_value (take (4 + k) bs) < lo + rg"

fun rc_follows :: "mem \<Rightarrow> u8 list \<Rightarrow> ptr \<Rightarrow> nat \<Rightarrow> enc \<Rightarrow> rc_dec \<Rightarrow> bool" where
  \<comment> \<open>after \<open>k\<close> bytes the code is the distance of the value from the start of the interval\<close>
  "rc_follows m bs p pos (lo, rg, k) rc \<longleftrightarrow>
     rc_in rc = p \<and> rc_in_pos rc = pos + k \<and> unat (rc_range rc) = rg \<and>
     unat (rc_code rc) + lo = code_value (take (4 + k) bs) \<and>
     (\<forall>j. 4 + j < length bs \<longrightarrow> load m p (pos + j) = Some (bs ! (4 + j))) \<and> pos + length bs < 2 ^ 64"

lemma code_value_next: "j < length bs \<Longrightarrow> code_value (take (Suc j) bs) = code_value (take j bs) * 256 + unat (bs ! j)"
  by (simp add: code_value_def take_Suc_conv_app_nth)

lemma in_interval_normalize: "in_interval bs (enc_normalize s) \<Longrightarrow> in_interval bs s"
proof (cases s)
  case s: (fields lo rg k)
  assume hold: "in_interval bs (enc_normalize s)"
  show ?thesis
  proof (cases "rg < 2 ^ 24")
    case True
    let ?v = "code_value (take (4 + k) bs)" and ?b = "unat (bs ! (4 + k))"
    from hold True s have "4 + k < length bs" by simp
    then have step: "code_value (take (4 + Suc k) bs) = ?v * 256 + ?b"
      using code_value_next [of "4 + k" bs] by simp
    from hold True s have "lo * 256 \<le> ?v * 256 + ?b" "?v * 256 + ?b < lo * 256 + rg * 256"
      by (simp_all only: enc_normalize.simps if_True in_interval.simps step)
    then have "lo \<le> ?v" "?v < lo + rg" using unat_u8_less [of "bs ! (4 + k)"] by linarith+
    then show ?thesis using s \<open>4 + k < length bs\<close> by simp
  qed (use hold s in simp)
qed

lemma in_interval_split:
  "in_interval bs (enc_split c d b s) \<Longrightarrow> c + d \<le> fst (snd s) \<Longrightarrow> in_interval bs s"
  by (cases s) (auto split: if_splits)

lemma in_interval_event:
  assumes "in_interval bs (fst (enc_event e (s, pr)))" and "event_ok e" and "probs_ok pr"
  shows "in_interval bs (enc_normalize s)"
proof (cases e)
  case (Coded p i b)
  obtain lo rg k where n: "enc_normalize s = (lo, rg, k)" by (cases "enc_normalize s")
  have "unat (pr (pp_addr p + i)) \<le> 2017"
    using assms(2,3) Coded by (auto simp: prob_index_def probs_ok_def prob_bounded_def split: if_splits)
  then have "rg div 2048 * unat (pr (pp_addr p + i)) \<le> rg div 2048 * 2017" by simp
  also have "\<dots> \<le> rg" by linarith
  finally show ?thesis
    using assms(1) in_interval_split [of bs _ _ b "enc_normalize s"] by (simp add: Coded n Let_def)
next
  case (Direct b)
  obtain lo rg k where n: "enc_normalize s = (lo, rg, k)" by (cases "enc_normalize s")
  show ?thesis
    using assms(1) in_interval_split [of bs "rg div 2" "rg div 2" b "enc_normalize s"]
    by (simp add: Direct n Let_def)
qed

lemma shift_in_byte:
  assumes "unat (c :: u32) < 16777216"
  shows "unat (push_bit 8 c + ucast (b :: u8)) = unat c * 256 + unat b"
proof -
  have c: "unat (push_bit 8 c) = unat c * 256"
    using assms unat_push_bit_small [of c 8] by simp
  have "unat (push_bit 8 c) + unat (ucast b :: u32) < 4294967296"
    using assms unfolding c unat_ucast_u8_u32 using unat_u8_less [of b] by linarith
  then show ?thesis by (simp only: unat_add_small c unat_ucast_u8_u32)
qed

lemma follows_normalize:
  assumes "rc_follows m bs p pos s rc" and "in_interval bs (enc_normalize s)" and "253952 \<le> unat (rc_range rc)"
  shows "ok (rc_normalize m rc) (\<lambda>rc'. rc_follows m bs p pos (enc_normalize s) rc' \<and>
    16777216 \<le> unat (rc_range rc') \<and> rc_inv rc')"
proof (cases s)
  case s: (fields lo rg k)
  from in_interval_normalize [OF assms(2)] assms(1) s
  have inv: "rc_inv rc" using assms(3) by (auto simp: rc_inv_def word_less_nat_alt)
  show ?thesis
  proof (cases "rg < 2 ^ 24")
    case True
    let ?b = "bs ! (4 + k)"
    let ?r = "rc\<lparr>rc_range := push_bit 8 (rc_range rc), rc_code := push_bit 8 (rc_code rc) + ucast ?b,
      rc_in_pos := Suc (rc_in_pos rc)\<rparr>"
    from assms(2) True s have len: "4 + k < length bs" by simp
    have small: "unat (rc_range rc) < 16777216" "unat (rc_code rc) < 16777216"
      using True assms(1) s inv by (auto simp: rc_inv_def word_less_nat_alt)
    have "load m (rc_in rc) (rc_in_pos rc) = Some ?b" and "rc_in_pos rc + 1 < 2 ^ 64"
      using assms(1) s len by auto
    then have n: "rc_normalize m rc = Some ?r"
      using small by (simp add: rc_normalize_def range_test RC_SHIFT_BITS_def)
    have "unat (push_bit 8 (rc_code rc) + ucast ?b) + lo * 256 = code_value (take (4 + Suc k) bs)"
      using assms(1) s code_value_next [OF len] shift_in_byte [OF small(2), of ?b] by auto
    moreover have "unat (push_bit 8 (rc_range rc)) = rg * 256"
      using shift_in_byte [OF small(1), of 0] assms(1) s by simp
    ultimately have "rc_follows m bs p pos (enc_normalize s) ?r"
      using assms(1) s True by simp
    then show ?thesis using n rc_normalize_inv [OF inv n] by simp
  next
    case False
    then have n: "rc_normalize m rc = Some rc"
      using assms(1) s by (simp add: rc_normalize_def range_test)
    then show ?thesis using assms(1) s False inv by simp
  qed
qed

text \<open>Splitting the interval is what the two branches of \<open>rc_bit\<close> and of the direct step do.\<close>

lemma follows_split:
  assumes "rc_follows m bs p pos s rc" and "in_interval bs (enc_split c d b s)"
    and "unat low = c" and "low \<le> rc_range rc"
  shows "b = (\<not> rc_code rc < low)"
    and "\<not> b \<Longrightarrow> rc_follows m bs p pos (enc_split c d b s) (rc\<lparr>rc_range := low\<rparr>)"
    and "b \<Longrightarrow> unat r = d \<Longrightarrow>
      rc_follows m bs p pos (enc_split c d b s) (rc\<lparr>rc_range := r, rc_code := rc_code rc - low\<rparr>)"
proof -
  obtain lo rg k where s: "s = (lo, rg, k)" by (cases s)
  let ?v = "code_value (take (4 + k) bs)"
  have v: "unat (rc_code rc) + lo = ?v" using assms(1) s by simp
  have b: "if b then lo + c \<le> ?v else ?v < lo + c"
    using assms(2) s by (cases b) simp_all
  show eq: "b = (\<not> rc_code rc < low)"
    using b v assms(3) by (cases b) (auto simp: word_less_nat_alt)
  show "\<not> b \<Longrightarrow> rc_follows m bs p pos (enc_split c d b s) (rc\<lparr>rc_range := low\<rparr>)"
    using assms(1,3) s by simp
  assume "b" "unat r = d"
  moreover from this have "unat (rc_code rc - low) = unat (rc_code rc) - c"
    using eq assms(3) by (auto simp: unat_sub)
  moreover have "c \<le> unat (rc_code rc)" using \<open>b\<close> b v by simp
  ultimately show "rc_follows m bs p pos (enc_split c d b s) (rc\<lparr>rc_range := r, rc_code := rc_code rc - low\<rparr>)"
    using assms(1) s by auto
qed

lemma dec_coded:
  assumes follows: "rc_follows m bs q pos s rc" and hold: "in_interval bs (fst (enc_event (Coded p i b) (s, pr)))"
    and range: "253952 \<le> unat (rc_range rc)" and ev: "event_ok (Coded p i b)" and pr: "probs_ok pr"
  shows "ok (rc_bit m rc pr p i) (\<lambda>(b', rc', pr'). b' = b \<and>
    rc_follows m bs q pos (fst (enc_event (Coded p i b) (s, pr))) rc' \<and>
    pr' = snd (enc_event (Coded p i b) (s, pr)) \<and> 253952 \<le> unat (rc_range rc') \<and> probs_ok pr')"
proof -
  let ?s = "enc_normalize s"
  from ev obtain k where k: "prob_index p i = Some k" "k = pp_addr p + i" "k < PROBS_TOTAL"
    by (auto simp: prob_index_def split: if_splits)
  have pk: "prob_bounded (pr k)" using pr k by (simp add: probs_ok_def)
  from follows_normalize [OF follows in_interval_event [OF hold ev pr] range]
  obtain r where n: "rc_normalize m rc = Some r" and f: "rc_follows m bs q pos ?s r"
    and top: "16777216 \<le> unat (rc_range r)" and inv: "rc_inv r"
    by (auto simp: ok_iff)
  define low where "low = drop_bit 11 (rc_range r) * ucast (pr k)"
  note split = split_range [OF top pk, folded low_def]
  have rg: "unat (rc_range r) = fst (snd ?s)" using f by (cases ?s) simp
  let ?c = "fst (snd ?s) div 2048 * unat (pr k)"
  have low: "unat low = ?c" using split(1) rg by simp
  have enc: "enc_event (Coded p i b) (s, pr)
      = (enc_split ?c (fst (snd ?s) - ?c) b ?s, pr(k := if b then prob_down (pr k) else prob_up (pr k)))"
    by (simp add: Let_def k(2))
  have hold': "in_interval bs (enc_split ?c (fst (snd ?s) - ?c) b ?s)" using hold unfolding enc by simp
  note fs = follows_split [OF f hold' low split(2)]
  have bit: "rc_bit m rc pr p i = (if rc_code r < low
      then Some (False, r\<lparr>rc_range := low\<rparr>, pr(k := prob_up (pr k)))
      else Some (True, r\<lparr>rc_range := rc_range r - low, rc_code := rc_code r - low\<rparr>, pr(k := prob_down (pr k))))"
    by (simp add: rc_bit_def n k(1) RC_BIT_MODEL_TOTAL_BITS_def Let_def low_def)
  have pr': "probs_ok (pr(k := prob_up (pr k)))" "probs_ok (pr(k := prob_down (pr k)))"
    using pr pk by (auto intro!: probs_ok_upd prob_bounded_up prob_bounded_down)
  note inv' = rc_split_inv [OF inv top pk, folded low_def]
  show ?thesis
  proof (cases b)
    case True
    then have "\<not> rc_code r < low" using fs(1) by simp
    then show ?thesis
      using True fs(3) [of "rc_range r - low"] inv'(2) split(3) rg low pr' unfolding bit enc
      by (simp add: rc_inv_def)
  next
    case False
    then have "rc_code r < low" using fs(1) by simp
    then show ?thesis
      using False fs(2) inv'(1) pr' unfolding bit enc by (simp add: rc_inv_def)
  qed
qed

lemma dec_direct:
  assumes follows: "rc_follows m bs q pos s rc" and hold: "in_interval bs (fst (enc_event (Direct b) (s, pr)))"
    and range: "253952 \<le> unat (rc_range rc)" and pr: "probs_ok pr"
  shows "ok (dec_event m (Direct b) rc pr) (\<lambda>(b', rc', pr'). b' = b \<and>
    rc_follows m bs q pos (fst (enc_event (Direct b) (s, pr))) rc' \<and> pr' = pr \<and>
    253952 \<le> unat (rc_range rc'))"
proof -
  let ?s = "enc_normalize s"
  from follows_normalize [OF follows in_interval_event [OF hold _ pr] range]
  obtain r where n: "rc_normalize m rc = Some r" and f: "rc_follows m bs q pos ?s r"
    and top: "16777216 \<le> unat (rc_range r)" and inv: "rc_inv r"
    by (auto simp: ok_iff)
  define half where "half = drop_bit 1 (rc_range r)"
  have rg: "unat (rc_range r) = fst (snd ?s)" using f by (cases ?s) simp
  let ?h = "fst (snd ?s) div 2"
  have half: "unat half = ?h" using unat_drop_bit_u32 [of 1 "rc_range r"] rg by (simp add: half_def)
  have le: "half \<le> rc_range r" using half rg by (simp add: word_le_nat_alt)
  have enc: "enc_event (Direct b) (s, pr) = (enc_split ?h ?h b ?s, pr)"
    by (simp add: Let_def)
  have hold': "in_interval bs (enc_split ?h ?h b ?s)" using hold unfolding enc by simp
  note fs = follows_split [OF f hold' half le]
  have "rc_code r < rc_range r" using inv by (simp add: rc_inv_def)
  note step = direct_step_compare [OF this, of 0, folded half_def]
  have bit: "dec_event m (Direct b) rc pr = (if rc_code r < half then Some (False, r\<lparr>rc_range := half\<rparr>, pr)
      else Some (True, r\<lparr>rc_range := half, rc_code := rc_code r - half\<rparr>, pr))"
    by (simp add: rc_direct.simps [of m rc] n step Let_def)
  have "253952 \<le> unat half" using half rg top by simp
  then show ?thesis
    using fs(1,2) fs(3) [OF _ half] unfolding bit enc by (cases b) simp_all
qed

lemma enc_event_probs:
  assumes "event_ok e" and "probs_ok pr"
  shows "probs_ok (snd (enc_event e (s, pr)))"
proof (cases e)
  case (Coded p i b)
  with assms(1) have "pp_addr p + i < PROBS_TOTAL" by (auto simp: prob_index_def split: if_splits)
  with assms(2) have "prob_bounded (pr (pp_addr p + i))" by (simp add: probs_ok_def)
  then show ?thesis
    using assms(2) Coded by (simp add: Let_def probs_ok_upd prob_bounded_up prob_bounded_down)
qed (use assms in \<open>simp add: Let_def\<close>)

lemma enc_events_Cons: "enc_events (e # es) s = enc_events es (enc_event e s)"
  by (simp add: enc_events_def)

lemma in_interval_events:
  assumes "in_interval bs (fst (enc_events es (s, pr)))" and "\<forall>e \<in> set es. event_ok e" and "probs_ok pr"
  shows "in_interval bs s"
  using assms
proof (induction es arbitrary: s pr)
  case (Cons e es)
  obtain s1 pr1 where s1: "enc_event e (s, pr) = (s1, pr1)" by (cases "enc_event e (s, pr)")
  have ev: "event_ok e" "\<forall>e \<in> set es. event_ok e" using Cons.prems(2) by simp_all
  have pr1: "probs_ok pr1" using enc_event_probs [OF ev(1) Cons.prems(3), of s] s1 by simp
  have "in_interval bs (fst (enc_events es (s1, pr1)))"
    using Cons.prems(1) unfolding enc_events_Cons s1 .
  then have "in_interval bs s1" by (rule Cons.IH [OF _ ev(2) pr1])
  then have "in_interval bs (fst (enc_event e (s, pr)))" by (simp only: s1 fst_conv)
  then show ?case by (rule in_interval_normalize [OF in_interval_event [OF _ ev(1) Cons.prems(3)]])
qed (simp add: enc_events_def)

lemma dec_events_encoded:
  assumes "rc_follows m bs p pos s rc" and "in_interval bs (fst (enc_events es (s, pr)))"
    and "253952 \<le> unat (rc_range rc)" and "\<forall>e \<in> set es. event_ok e" and "probs_ok pr"
  shows "ok (dec_events m es rc pr) (\<lambda>(bits, rc', pr'). bits = map event_bit es \<and>
    rc_follows m bs p pos (fst (enc_events es (s, pr))) rc' \<and> pr' = snd (enc_events es (s, pr)))"
  using assms
proof (induction es arbitrary: s rc pr)
  case (Cons e es)
  obtain s1 pr1 where s1: "enc_event e (s, pr) = (s1, pr1)" by (cases "enc_event e (s, pr)")
  have ev: "event_ok e" "\<forall>e \<in> set es. event_ok e" using Cons.prems(4) by simp_all
  have pr1: "probs_ok pr1" using enc_event_probs [OF ev(1) Cons.prems(5), of s] s1 by simp
  have rest: "in_interval bs (fst (enc_events es (s1, pr1)))"
    using Cons.prems(2) s1 by (simp add: enc_events_Cons)
  have hold: "in_interval bs (fst (enc_event e (s, pr)))"
    using in_interval_events [OF rest ev(2) pr1] s1 by simp
  have "ok (dec_event m e rc pr) (\<lambda>(b, rc', pr'). b = event_bit e \<and>
      rc_follows m bs p pos s1 rc' \<and> pr' = pr1 \<and> 253952 \<le> unat (rc_range rc'))"
  proof (cases e)
    case (Coded q i b)
    show ?thesis
      using dec_coded [OF Cons.prems(1) hold [unfolded Coded] Cons.prems(3) ev(1) [unfolded Coded] Cons.prems(5)] s1 Coded
      by (auto elim!: ok_mono)
  next
    case (Direct b)
    then have "pr1 = pr" using s1 by (simp add: Let_def)
    then show ?thesis
      using dec_direct [OF Cons.prems(1) hold [unfolded Direct] Cons.prems(3,5)] s1 Direct
      by (auto elim!: ok_mono)
  qed
  then obtain rc1 where d: "dec_event m e rc pr = Some (event_bit e, rc1, pr1)"
      and f: "rc_follows m bs p pos s1 rc1" and r: "253952 \<le> unat (rc_range rc1)"
    by (auto simp: ok_iff)
  from Cons.IH [OF f rest r ev(2) pr1] show ?case
    by (auto simp: d s1 enc_events_Cons ok_bind elim!: ok_mono)
qed (simp add: enc_events_def)

section \<open>Properties\<close>

text \<open>
  C4: the range decoder inverts arithmetic coding: for any sequence of modelled and direct
  bits and any input whose value lies in the interval the encoder ends with, the decoder
  returns exactly the encoded bits, adapts the probabilities as the encoder did, and reads
  only bytes of that input.
\<close>

theorem rc_decodes_encoded:
  assumes "rc_follows m bs p pos s rc" and "in_interval bs (fst (enc_events es (s, pr)))"
    and "253952 \<le> unat (rc_range rc)" and "\<forall>e \<in> set es. event_ok e" and "probs_ok pr"
  shows "\<exists>rc'. dec_events m es rc pr = Some (map event_bit es, rc', snd (enc_events es (s, pr)))"
  using dec_events_encoded [OF assms] by (auto simp: ok_iff)

definition rc_start :: "u32 \<Rightarrow> rc_dec" where
  \<comment> \<open>a range decoder after the initial bytes\<close>
  "rc_start c = \<lparr>rc_range = 0xFFFFFFFF, rc_code = c, init_bytes_left = 0, rc_in = (In_Block, 0),
     rc_in_pos = 4, rc_in_limit = 0\<rparr>"

definition first_prob :: prob_ptr where
  "first_prob = \<lparr>pp_addr = 0, pp_lo = 0, pp_hi = PROBS_TOTAL\<rparr>"

theorem rc_decodes_encoded_witness:
  "\<exists>rc'. dec_events (\<lambda>k. if k = In_Block then [0x50, 0, 0, 0, 7] else [])
      [Coded first_prob 1 False, Direct True] (rc_start 0x50000000) (\<lambda>k. 1024)
    = Some ([False, True], rc', \<lambda>k. if k = 1 then 1056 else 1024)"
proof -
  let ?es = "[Coded first_prob 1 False, Direct True]"
  have up: "prob_up 1024 = 1056"
    by (simp add: prob_up_def RC_MOVE_BITS_def RC_BIT_MODEL_TOTAL_def)
  have enc: "enc_events ?es ((0, 4294967295, 0), \<lambda>k. 1024)
      = ((1073741312, 1073741312, 0), (\<lambda>k. 1024)(1 := prob_up 1024))"
    by (simp add: enc_events_def Let_def first_prob_def)
  have pr: "snd (enc_events ?es ((0, 4294967295, 0), \<lambda>k. 1024)) = (\<lambda>k. if k = 1 then 1056 else 1024)"
    unfolding enc snd_conv up by (rule ext) simp
  have hold: "in_interval [0x50, 0, 0, 0, 7] (fst (enc_events ?es ((0, 4294967295, 0), \<lambda>k. 1024)))"
    unfolding enc by (simp add: code_value_def)
  have follows: "rc_follows (\<lambda>k. if k = In_Block then [0x50, 0, 0, 0, 7] else []) [0x50, 0, 0, 0, 7]
      (In_Block, 0) 4 (0, 4294967295, 0) (rc_start 0x50000000)"
    by (auto simp: rc_start_def load_def code_value_def unsigned_minus_1_eq_mask mask_eq_exp_minus_1)
  have "\<forall>e \<in> set ?es. event_ok e" and "probs_ok (\<lambda>k. 1024)"
    by (simp_all add: prob_index_def first_prob_def PROBS_TOTAL_def probs_ok_def prob_bounded_def)
  from rc_decodes_encoded [OF follows hold _ this] show ?thesis
    unfolding pr by (simp add: rc_start_def unsigned_minus_1_eq_mask mask_eq_exp_minus_1)
qed

text \<open>
  C23: one modelled bit keeps the range decoder's invariant: the code stays below the
  range, the range never drops under 31/2048 of 2^24, and every probability stays between
  31 and 2017, so that neither half of a split is ever empty.
\<close>

theorem rc_bit_keeps_interval:
  assumes "rc_inv rc" and "probs_ok pr" and "pp_hi p \<le> PROBS_TOTAL"
    and "rc_bit m rc pr p i = Some (bt, rc', pr')"
  shows "rc_code rc' < rc_range rc' \<and> 253952 \<le> unat (rc_range rc') \<and>
    (\<forall>k < PROBS_TOTAL. 31 \<le> unat (pr' k) \<and> unat (pr' k) \<le> 2017)"
  using rc_bit_inv [OF assms] by (simp add: rc_inv_def probs_ok_def prob_bounded_def)

theorem rc_bit_keeps_interval_witness:
  "\<exists>rc' pr'. rc_bit (\<lambda>k. []) (rc_start 0x50000000) (\<lambda>k. 1024) first_prob 1 = Some (False, rc', pr') \<and>
     rc_code rc' < rc_range rc' \<and> 31 \<le> unat (pr' 1)"
proof -
  have bit: "rc_bit (\<lambda>k. []) (rc_start 0x50000000) (\<lambda>k. 1024) first_prob 1
      = Some (False, (rc_start 0x50000000)\<lparr>rc_range := 2147482624\<rparr>, (\<lambda>k. 1024)(1 := prob_up 1024))"
    by (simp add: rc_bit_def rc_normalize_def rc_start_def RC_TOP_VALUE_def prob_index_def first_prob_def
        PROBS_TOTAL_def RC_BIT_MODEL_TOTAL_BITS_def)
  have "rc_inv (rc_start 0x50000000)" "probs_ok (\<lambda>k. 1024)" "pp_hi first_prob \<le> PROBS_TOTAL"
    by (simp_all add: rc_inv_def rc_start_def probs_ok_def prob_bounded_def first_prob_def)
  from rc_bit_keeps_interval [OF this bit] bit show ?thesis
    by (auto simp: PROBS_TOTAL_def dest!: spec [of _ 1])
qed

text \<open>
  the body of \<open>rc_direct\<close> computes without a branch, by a mask, what a comparison
  would: with the code below the range, the bit is one exactly when the code is in the
  upper half of the range, and the half is then subtracted from the code.
\<close>

theorem rc_direct_branchless:
  assumes "rc_code rc < rc_range rc"
  shows "rc_direct_step rc dest =
    (if rc_code rc < drop_bit 1 (rc_range rc)
     then (rc\<lparr>rc_range := drop_bit 1 (rc_range rc)\<rparr>, push_bit 1 dest)
     else (rc\<lparr>rc_range := drop_bit 1 (rc_range rc), rc_code := rc_code rc - drop_bit 1 (rc_range rc)\<rparr>,
           push_bit 1 dest + 1))"
  by (rule direct_step_compare [OF assms])

theorem rc_direct_branchless_witness:
  "rc_direct_step (rc_start 0x90000000) 5 =
     ((rc_start 0x10000001)\<lparr>rc_range := 0x7FFFFFFF\<rparr>, 11)"
proof -
  have "rc_code (rc_start 0x90000000) < rc_range (rc_start 0x90000000)"
    by (simp add: rc_start_def)
  from rc_direct_branchless [OF this, of 5] show ?thesis
    by (simp add: rc_start_def)
qed

end
