(* ===== verification/Dictionary.thy ===== *)
theory Dictionary
  imports Xz_Defs
begin

unbundle bit_operations_syntax

text \<open>
  The LZMA2 dictionary: \<open>struct dictionary\<close> and the \<open>dict_*\<close> functions of
  \<open>xz_dec_lzma2.c\<close>. In multi-call mode it is a ring buffer of its own; in single-call
  mode it is the part of the caller's output buffer that starts where decoding started.

  The abstract view (\<open>dict_hist\<close>) is the list of the decoded bytes, most recent first,
  cut to the size of the ring. The locale \<open>history\<close> states what a byte history promises
  its client, and proves once that copying a match byte by byte is the LZ77 copy; the
  ring buffer interprets it.
\<close>

section \<open>The code\<close>

record dictionary =
  d_buf :: ptr
  d_start :: nat
  d_pos :: nat
  d_full :: nat
  d_limit :: nat
  d_end :: nat
  d_size :: nat
  d_size_max :: nat
  d_allocated :: nat
  d_mode :: xz_mode

definition dict_reset :: "dictionary \<Rightarrow> xz_buf \<Rightarrow> dictionary" where
  "dict_reset dict b =
     (let dict = (if DEC_IS_SINGLE (d_mode dict)
                  then dict\<lparr>d_buf := ptr_add (b_out b) (b_out_pos b),
                            d_end := sz_sub (b_out_size b) (b_out_pos b)\<rparr>
                  else dict)
      in dict\<lparr>d_start := 0, d_pos := 0, d_limit := 0, d_full := 0\<rparr>)"

definition dict_limit :: "dictionary \<Rightarrow> nat \<Rightarrow> dictionary" where
  "dict_limit dict out_max =
     (if sz_sub (d_end dict) (d_pos dict) \<le> out_max
      then dict\<lparr>d_limit := d_end dict\<rparr>
      else dict\<lparr>d_limit := sz_add (d_pos dict) out_max\<rparr>)"

definition dict_has_space :: "dictionary \<Rightarrow> bool" where
  "dict_has_space dict \<longleftrightarrow> d_pos dict < d_limit dict"

definition dict_get :: "mem \<Rightarrow> dictionary \<Rightarrow> nat \<Rightarrow> u32 option" where
  "dict_get m dict dist =
     (let offset = sz_sub (sz_sub (d_pos dict) dist) 1;
          offset = (if dist \<ge> d_pos dict then sz_add offset (d_end dict) else offset)
      in if d_full dict > 0 then do { byte \<leftarrow> load m (d_buf dict) offset; Some (ucast byte) }
         else Some 0)"

definition dict_raise_full :: "dictionary \<Rightarrow> dictionary" where
  "dict_raise_full dict = (if d_full dict < d_pos dict then dict\<lparr>d_full := d_pos dict\<rparr> else dict)"

definition dict_put :: "mem \<Rightarrow> dictionary \<Rightarrow> u8 \<Rightarrow> (dictionary \<times> mem) option" where
  "dict_put m dict byte = do {
     m \<leftarrow> store m (d_buf dict) (d_pos dict) byte;
     Some (dict_raise_full (dict\<lparr>d_pos := sz_add (d_pos dict) 1\<rparr>), m)
   }"

partial_function (option) dict_repeat_loop ::
  "mem \<Rightarrow> dictionary \<Rightarrow> nat \<Rightarrow> nat \<Rightarrow> (dictionary \<times> mem) option" where
  \<comment> \<open>the \<open>do ... while (--left > 0)\<close> of \<open>dict_repeat\<close>\<close>
  "dict_repeat_loop m dict back left = do {
     byte \<leftarrow> load m (d_buf dict) back;
     m \<leftarrow> store m (d_buf dict) (d_pos dict) byte;
     let dict = dict\<lparr>d_pos := sz_add (d_pos dict) 1\<rparr>;
     let back = sz_add back 1;
     let back = (if back = d_end dict then 0 else back);
     let left = u32_sub left 1;
     if left > 0 then dict_repeat_loop m dict back left else Some (dict, m)
   }"

definition dict_repeat ::
  "mem \<Rightarrow> dictionary \<Rightarrow> nat \<Rightarrow> nat \<Rightarrow> (bool \<times> nat \<times> dictionary \<times> mem) option" where
  \<comment> \<open>returns the C result and the new value of \<open>*len\<close>\<close>
  "dict_repeat m dict len dist =
     (if dist \<ge> d_full dict \<or> dist \<ge> d_size dict then Some (False, len, dict, m)
      else do {
        let left = u32_of (min (sz_sub (d_limit dict) (d_pos dict)) len);
        let len = u32_sub len left;
        let back = sz_sub (sz_sub (d_pos dict) dist) 1;
        let back = (if dist \<ge> d_pos dict then sz_add back (d_end dict) else back);
        (dict, m) \<leftarrow> dict_repeat_loop m dict back left;
        Some (True, len, dict_raise_full dict, m)
      })"

definition dict_copy_size :: "dictionary \<Rightarrow> xz_buf \<Rightarrow> nat \<Rightarrow> nat" where
  \<comment> \<open>\<open>copy_size\<close> of \<open>dict_uncompressed\<close>\<close>
  "dict_copy_size dict b left =
     (let copy_size = min (sz_sub (b_in_size b) (b_in_pos b)) (sz_sub (b_out_size b) (b_out_pos b));
          copy_size = (if copy_size > sz_sub (d_end dict) (d_pos dict)
                       then sz_sub (d_end dict) (d_pos dict) else copy_size)
      in if copy_size > left then left else copy_size)"

partial_function (option) dict_uncompressed ::
  "mem \<Rightarrow> dictionary \<Rightarrow> xz_buf \<Rightarrow> nat \<Rightarrow> (nat \<times> dictionary \<times> xz_buf \<times> mem) option" where
  \<comment> \<open>returns the new value of \<open>*left\<close>\<close>
  "dict_uncompressed m dict b left =
     (if left > 0 \<and> b_in_pos b < b_in_size b \<and> b_out_pos b < b_out_size b then do {
        let copy_size = dict_copy_size dict b left;
        let left = u32_sub left copy_size;
        m \<leftarrow> memmove m (ptr_add (d_buf dict) (d_pos dict)) (ptr_add (b_in b) (b_in_pos b)) copy_size;
        let dict = dict_raise_full (dict\<lparr>d_pos := sz_add (d_pos dict) copy_size\<rparr>);
        (dict, m) \<leftarrow>
          (if DEC_IS_MULTI (d_mode dict) then do {
             let dict = (if d_pos dict = d_end dict then dict\<lparr>d_pos := 0\<rparr> else dict);
             m \<leftarrow> memmove m (ptr_add (b_out b) (b_out_pos b)) (ptr_add (b_in b) (b_in_pos b)) copy_size;
             Some (dict, m)
           } else Some (dict, m));
        let dict = dict\<lparr>d_start := d_pos dict\<rparr>;
        let b = b\<lparr>b_out_pos := sz_add (b_out_pos b) copy_size, b_in_pos := sz_add (b_in_pos b) copy_size\<rparr>;
        dict_uncompressed m dict b left
      }
      else Some (left, dict, b, m))"

definition dict_flush ::
  "xz_env \<Rightarrow> mem \<Rightarrow> dictionary \<Rightarrow> xz_buf \<Rightarrow> (nat \<times> dictionary \<times> xz_buf \<times> mem) option" where
  "dict_flush e m dict b = do {
     let copy_size = sz_sub (d_pos dict) (d_start dict);
     (dict, m) \<leftarrow>
       (if DEC_IS_MULTI (d_mode dict) then do {
          let dict' = (if d_pos dict = d_end dict then dict\<lparr>d_pos := 0\<rparr> else dict);
          m \<leftarrow> (if \<not> XZ_DEC_MICROLZMA e \<or> fst (b_out b) \<noteq> Null_Block
                then memcpy m (ptr_add (b_out b) (b_out_pos b)) (ptr_add (d_buf dict) (d_start dict)) copy_size
                else Some m);
          Some (dict', m)
        } else Some (dict, m));
     Some (u32_of copy_size, dict\<lparr>d_start := d_pos dict\<rparr>,
           b\<lparr>b_out_pos := sz_add (b_out_pos b) copy_size\<rparr>, m)
   }"

section \<open>Byte histories\<close>

text \<open>The LZ77 copy on a history (most recent byte first): repeat the byte at distance
  \<open>dist\<close>, \<open>n\<close> times; each new byte becomes part of the history at once.\<close>

fun lz_copy :: "nat \<Rightarrow> nat \<Rightarrow> 'b list \<Rightarrow> 'b list" where
  "lz_copy 0 dist h = h"
| "lz_copy (Suc n) dist h = lz_copy n dist (h ! dist # h)"

fun copy_match :: "('s \<Rightarrow> nat \<Rightarrow> 'b option) \<Rightarrow> ('s \<Rightarrow> 'b \<Rightarrow> 's option) \<Rightarrow> nat \<Rightarrow> nat \<Rightarrow> 's \<Rightarrow> 's option" where
  "copy_match get put 0 dist s = Some s"
| "copy_match get put (Suc n) dist s = do { v \<leftarrow> get s dist; s \<leftarrow> put s v; copy_match get put n dist s }"

lemma length_lz_copy [simp]: "length (lz_copy n dist h) = n + length h"
  by (induction n dist h rule: lz_copy.induct) simp_all

lemma take_lz_copy:
  assumes "dist < c" and "dist < length h"
  shows "take c (lz_copy n dist (take c h)) = take c (lz_copy n dist h)"
  using assms
proof (induction n arbitrary: h)
  case (Suc n)
  have "take c (lz_copy (Suc n) dist (take c h)) = take c (lz_copy n dist (take c (h ! dist # take c h)))"
    using Suc.prems Suc.IH [of "h ! dist # take c h"] by simp
  also have "take c (h ! dist # take c h) = take c (h ! dist # h)"
    by (cases c) simp_all
  also have "take c (lz_copy n dist \<dots>) = take c (lz_copy n dist (h ! dist # h))"
    using Suc.prems by (intro Suc.IH) auto
  finally show ?case by simp
qed simp

locale history =
  fixes hist :: "'s \<Rightarrow> 'b list"
    and get :: "'s \<Rightarrow> nat \<Rightarrow> 'b option"
    and put :: "'s \<Rightarrow> 'b \<Rightarrow> 's option"
    and cap :: "'s \<Rightarrow> nat"
    and space :: "'s \<Rightarrow> nat"
    and inv :: "'s \<Rightarrow> bool"
  assumes length_hist: "inv s \<Longrightarrow> length (hist s) \<le> cap s"
    and get_hist: "inv s \<Longrightarrow> i < length (hist s) \<Longrightarrow> get s i = Some (hist s ! i)"
    and put_hist: "inv s \<Longrightarrow> 0 < space s \<Longrightarrow>
      ok (put s v) (\<lambda>s'. inv s' \<and> hist s' = take (cap s) (v # hist s) \<and>
        space s' = space s - 1 \<and> cap s' = cap s)"
begin

lemma copy_match_lz:
  assumes "inv s" and "dist < length (hist s)" and "n \<le> space s"
  shows "ok (copy_match get put n dist s) (\<lambda>s'. inv s' \<and>
    hist s' = take (cap s) (lz_copy n dist (hist s)) \<and> space s' = space s - n \<and> cap s' = cap s)"
  using assms
proof (induction n arbitrary: s)
  case 0
  then show ?case using length_hist by simp
next
  case (Suc n)
  let ?v = "hist s ! dist"
  have put: "ok (put s ?v) (\<lambda>s'. inv s' \<and> hist s' = take (cap s) (?v # hist s) \<and>
      space s' = space s - 1 \<and> cap s' = cap s)"
    using Suc.prems by (intro put_hist) auto
  have dist: "dist < cap s" using Suc.prems(1,2) length_hist [of s] by simp
  have "ok (copy_match get put n dist s') (\<lambda>s''. inv s'' \<and>
      hist s'' = take (cap s) (lz_copy (Suc n) dist (hist s)) \<and> space s'' = space s - Suc n \<and> cap s'' = cap s)"
    if "inv s' \<and> hist s' = take (cap s) (?v # hist s) \<and> space s' = space s - 1 \<and> cap s' = cap s" for s'
  proof -
    have len: "dist < length (?v # hist s)" using Suc.prems(2) by simp
    have "ok (copy_match get put n dist s') (\<lambda>s''. inv s'' \<and>
        hist s'' = take (cap s') (lz_copy n dist (hist s')) \<and> space s'' = space s' - n \<and> cap s'' = cap s')"
      using that Suc.prems dist by (intro Suc.IH) auto
    then show ?thesis
      using that take_lz_copy [OF dist len] by (auto elim!: ok_mono)
  qed
  then show ?case
    using Suc.prems by (simp add: get_hist) (rule ok_bindI [OF put], simp)
qed

end

section \<open>The ring buffer as a history\<close>

definition dict_ok :: "mem \<Rightarrow> dictionary \<Rightarrow> bool" where
  "dict_ok m d \<longleftrightarrow> d_start d \<le> d_pos d \<and> d_pos d \<le> d_full d \<and> d_full d \<le> d_end d \<and>
     d_end d \<le> room m (d_buf d) \<and> d_end d < 2 ^ 63 \<and>
     (d_pos d = d_full d \<or> d_full d = d_end d \<and> DEC_IS_MULTI (d_mode d))"

definition dict_index :: "dictionary \<Rightarrow> nat \<Rightarrow> nat" where
  \<comment> \<open>where the byte at distance \<open>i\<close> is\<close>
  "dict_index d i = (if i < d_pos d then d_pos d - i - 1 else d_pos d + d_end d - i - 1)"

definition dict_hist :: "mem \<Rightarrow> dictionary \<Rightarrow> u8 list" where
  "dict_hist m d = map (\<lambda>i. m (fst (d_buf d)) ! (snd (d_buf d) + dict_index d i)) [0..<d_full d]"

definition hist_get :: "dictionary \<times> mem \<Rightarrow> nat \<Rightarrow> u8 option" where
  "hist_get s i = map_option ucast (dict_get (snd s) (fst s) i)"

definition hist_put :: "dictionary \<times> mem \<Rightarrow> u8 \<Rightarrow> (dictionary \<times> mem) option" where
  "hist_put s v = dict_put (snd s) (fst s) v"

lemma dict_index_less: "dict_ok m d \<Longrightarrow> i < d_full d \<Longrightarrow> dict_index d i < d_end d"
  by (auto simp: dict_ok_def dict_index_def)

lemma dict_offset:
  assumes "dict_ok m d" and "i < d_end d"
  shows "(if i \<ge> d_pos d then sz_add (sz_sub (sz_sub (d_pos d) i) 1) (d_end d)
          else sz_sub (sz_sub (d_pos d) i) 1) = dict_index d i"
  using assms sz_ring_back [of "d_pos d" i "d_end d"] by (auto simp: dict_ok_def dict_index_def)

lemma ok_dict_get:
  assumes "dict_ok m d" and "0 < d_full d \<longrightarrow> dist < d_full d"
  shows "ok (dict_get m d dist) (\<lambda>v. unat v < 256 \<and>
    v = (if d_full d = 0 then 0 else ucast (dict_hist m d ! dist)))"
proof (cases "d_full d = 0")
  case False
  with assms have lt: "dist < d_full d" "dist < d_end d" by (auto simp: dict_ok_def)
  have "dict_index d dist < room m (d_buf d)"
    using dict_index_less [OF assms(1) lt(1)] assms(1) by (simp add: dict_ok_def)
  then show ?thesis
    using False lt(1) unfolding dict_get_def Let_def dict_offset [OF assms(1) lt(2)]
    by (simp add: ok_simps dict_hist_def)
qed (simp add: dict_get_def)

lemma dict_hist_put:
  assumes "dict_ok m d" and "d_pos d < d_end d"
    and "d' = dict_raise_full (d\<lparr>d_pos := Suc (d_pos d)\<rparr>)"
    and "m' = m(fst (d_buf d) := (m (fst (d_buf d)))[snd (d_buf d) + d_pos d := v])"
  shows "dict_hist m' d' = take (d_end d) (v # dict_hist m d)"
proof (rule nth_equalityI)
  have room: "snd (d_buf d) + d_pos d < length (m (fst (d_buf d)))"
    using assms(1,2) by (auto simp: dict_ok_def room_def)
  show len: "length (dict_hist m' d') = length (take (d_end d) (v # dict_hist m d))"
    using assms by (auto simp: dict_hist_def dict_raise_full_def dict_ok_def)
  have d': "d_buf d' = d_buf d" "d_pos d' = Suc (d_pos d)" "d_end d' = d_end d"
    by (simp_all add: assms(3) dict_raise_full_def)
  fix i assume i: "i < length (dict_hist m' d')"
  then have i': "i < d_full d'" "i < d_end d" "i \<le> d_full d"
    using len by (simp_all add: dict_hist_def)
  show "dict_hist m' d' ! i = take (d_end d) (v # dict_hist m d) ! i"
  proof (cases i)
    case 0
    then show ?thesis using i' room by (simp add: dict_hist_def d' dict_index_def assms(4))
  next
    case (Suc j)
    have "dict_index d' (Suc j) = dict_index d j" by (simp add: dict_index_def d')
    moreover have "dict_index d j \<noteq> d_pos d" using i' Suc assms(2) by (auto simp: dict_index_def)
    ultimately show ?thesis using i' Suc by (simp add: dict_hist_def d' assms(4))
  qed
qed

lemma ok_dict_put:
  assumes "dict_ok m d" and "d_pos d < d_end d"
  shows "ok (dict_put m d v) (\<lambda>(d', m'). dict_ok m' d' \<and> same_shape m m' \<and>
     d' = dict_raise_full (d\<lparr>d_pos := Suc (d_pos d)\<rparr>) \<and>
     (\<forall>b. b \<noteq> fst (d_buf d) \<longrightarrow> m' b = m b) \<and>
     dict_hist m' d' = take (d_end d) (v # dict_hist m d))"
proof -
  let ?m = "m(fst (d_buf d) := (m (fst (d_buf d)))[snd (d_buf d) + d_pos d := v])"
  have pos: "sz_add (d_pos d) (Suc 0) = Suc (d_pos d)" and "d_pos d < room m (d_buf d)"
    using assms by (auto simp: dict_ok_def)
  then have st: "store m (d_buf d) (d_pos d) v = Some ?m"
    by (simp add: store_def room_def)
  have shape: "same_shape m ?m" by (simp add: same_shape_def)
  have "dict_ok ?m (dict_raise_full (d\<lparr>d_pos := Suc (d_pos d)\<rparr>))"
    using assms by (auto simp: dict_ok_def dict_raise_full_def room_def)
  then show ?thesis
    using dict_hist_put [OF assms refl refl] shape by (simp add: dict_put_def st pos)
qed

interpretation dict: history
  "\<lambda>s. dict_hist (snd s) (fst s)" hist_get hist_put "\<lambda>s. d_end (fst s)"
  "\<lambda>s. d_end (fst s) - d_pos (fst s)" "\<lambda>s. dict_ok (snd s) (fst s)"
proof unfold_locales
  fix s :: "dictionary \<times> mem" and i v
  assume ok: "dict_ok (snd s) (fst s)"
  show "length (dict_hist (snd s) (fst s)) \<le> d_end (fst s)"
    using ok by (simp add: dict_hist_def dict_ok_def)
  show "hist_get s i = Some (dict_hist (snd s) (fst s) ! i)" if "i < length (dict_hist (snd s) (fst s))"
  proof -
    have "ok (dict_get (snd s) (fst s) i) (\<lambda>v. unat v < 256 \<and>
        v = (if d_full (fst s) = 0 then 0 else ucast (dict_hist (snd s) (fst s) ! i)))"
      using that by (intro ok_dict_get ok) (simp add: dict_hist_def)
    then show ?thesis
      using that by (auto simp: ok_iff hist_get_def dict_hist_def)
  qed
  show "ok (hist_put s v) (\<lambda>s'. dict_ok (snd s') (fst s') \<and>
      dict_hist (snd s') (fst s') = take (d_end (fst s)) (v # dict_hist (snd s) (fst s)) \<and>
      d_end (fst s') - d_pos (fst s') = d_end (fst s) - d_pos (fst s) - 1 \<and> d_end (fst s') = d_end (fst s))"
    if "0 < d_end (fst s) - d_pos (fst s)"
    using ok_dict_put [OF ok, of v] that
    by (auto simp: hist_put_def dict_raise_full_def elim!: ok_mono)
qed

section \<open>The copy loop is the LZ77 copy\<close>

lemma raise_full_simps [simp]:
  "d_buf (dict_raise_full d) = d_buf d" "d_pos (dict_raise_full d) = d_pos d"
  "d_end (dict_raise_full d) = d_end d" "d_limit (dict_raise_full d) = d_limit d"
  "d_start (dict_raise_full d) = d_start d" "d_size (dict_raise_full d) = d_size d"
  "d_mode (dict_raise_full d) = d_mode d"
  "d_size_max (dict_raise_full d) = d_size_max d" "d_allocated (dict_raise_full d) = d_allocated d"
  "d_full (dict_raise_full d) = max (d_full d) (d_pos d)"
  by (auto simp: dict_raise_full_def)

lemma raise_full_idem [simp]: "d_pos d \<le> d_full d \<Longrightarrow> dict_raise_full d = d"
  by (simp add: dict_raise_full_def)

lemma raise_full_absorb:
  "dict_raise_full (dict_raise_full d\<lparr>d_pos := Suc (d_pos d)\<rparr>) = dict_raise_full (d\<lparr>d_pos := Suc (d_pos d)\<rparr>)"
  by (auto simp: dict_raise_full_def)

lemma dict_index_Suc:
  assumes "d_pos d < d_end d" and "dist < d_end d"
  shows "(if Suc (dict_index d dist) = d_end d then 0 else Suc (dict_index d dist))
    = dict_index (d\<lparr>d_pos := Suc (d_pos d)\<rparr>) dist"
  using assms by (auto simp: dict_index_def)

text \<open>The loop keeps its source index; it agrees with reading at the distance anew each
  time, as the specification does. Only the high-water mark is written later.\<close>

lemma dict_repeat_loop_copy:
  assumes "0 < n" and "n < 2 ^ 32" and "d_pos d + n \<le> d_end d" and "d_end d < 2 ^ 63"
    and "dist < d_end d" and "0 < d_full d"
  shows "map_option (\<lambda>(d, m). (dict_raise_full d, m)) (dict_repeat_loop m d (dict_index d dist) n)
    = copy_match hist_get hist_put n dist (dict_raise_full d, m)"
  using assms
proof (induction n arbitrary: d m)
  case (Suc n)
  let ?r = "dict_raise_full d" and ?i = "dict_index d dist"
  let ?d1 = "d\<lparr>d_pos := Suc (d_pos d)\<rparr>"
  have pos: "sz_add (d_pos d) 1 = Suc (d_pos d)" using Suc.prems by simp
  have inc: "sz_add ?i 1 = Suc ?i" using Suc.prems by (auto simp: dict_index_def)
  have offset: "(if d_pos ?r \<le> dist then sz_add (sz_sub (sz_sub (d_pos ?r) dist) 1) (d_end ?r)
      else sz_sub (sz_sub (d_pos ?r) dist) 1) = ?i"
    using Suc.prems sz_ring_back [of "d_pos d" dist "d_end d"] by (auto simp: dict_index_def)
  have get: "hist_get (?r, m) dist = load m (d_buf d) ?i"
    using Suc.prems(6) unfolding hist_get_def dict_get_def Let_def fst_conv snd_conv offset
    by (cases "load m (d_buf d) ?i") simp_all
  have put: "hist_put (?r, m) v = map_option (\<lambda>m'. (dict_raise_full ?d1, m')) (store m (d_buf d) (d_pos d) v)" for v
    using pos by (cases "store m (d_buf d) (d_pos d) v")
      (simp_all add: hist_put_def dict_put_def raise_full_absorb)
  have unfold: "dict_repeat_loop m d ?i (Suc n) = do {
      byte \<leftarrow> load m (d_buf d) ?i;
      m \<leftarrow> store m (d_buf d) (d_pos d) byte;
      if n > 0 then dict_repeat_loop m ?d1 (dict_index ?d1 dist) n else Some (?d1, m) }"
  proof -
    have "dict_index ?d1 dist = (if Suc ?i = d_end d then 0 else Suc ?i)"
      using Suc.prems dict_index_Suc [of d dist] by simp
    then show ?thesis
      using Suc.prems pos inc
      by (subst dict_repeat_loop.simps) (cases "Suc ?i = d_end d"; simp add: Let_def cong: if_cong)
  qed
  have IH: "map_option (\<lambda>(d, m). (dict_raise_full d, m)) (dict_repeat_loop m' ?d1 (dict_index ?d1 dist) n)
      = copy_match hist_get hist_put n dist (dict_raise_full ?d1, m')" if "0 < n" for m'
    using Suc.prems that by (intro Suc.IH) auto
  show ?case
  proof (cases "load m (d_buf d) ?i")
    case (Some v)
    show ?thesis
    proof (cases "store m (d_buf d) (d_pos d) v")
      case (Some m1)
      with \<open>load m (d_buf d) ?i = Some v\<close> show ?thesis
        unfolding unfold by (cases "0 < n") (simp_all add: get put IH)
    qed (use Some in \<open>simp add: unfold get put\<close>)
  qed (simp add: unfold get)
qed simp

definition dict_limit_ok :: "dictionary \<Rightarrow> bool" where
  "dict_limit_ok d \<longleftrightarrow> d_pos d \<le> d_limit d \<and> d_limit d \<le> d_end d"

text \<open>Fields that only \<open>dict_reset\<close>, \<open>dict_limit\<close> and the allocation write.\<close>

definition dict_frame :: "dictionary \<Rightarrow> dictionary \<Rightarrow> bool" where
  "dict_frame d d' \<longleftrightarrow> d_buf d' = d_buf d \<and> d_end d' = d_end d \<and> d_limit d' = d_limit d \<and>
     d_size d' = d_size d \<and> d_size_max d' = d_size_max d \<and> d_allocated d' = d_allocated d \<and>
     d_mode d' = d_mode d \<and> d_full d \<le> d_full d'"

lemma dict_frame_refl [simp]: "dict_frame d d"
  by (simp add: dict_frame_def)

lemma dict_frame_trans: "dict_frame d1 d2 \<Longrightarrow> dict_frame d2 d3 \<Longrightarrow> dict_frame d1 d3"
  by (auto simp: dict_frame_def)

lemma dict_frame_put: "dict_frame d (dict_raise_full (d\<lparr>d_pos := p\<rparr>))"
  by (auto simp: dict_frame_def dict_raise_full_def)

lemma copy_match_frame:
  "copy_match hist_get hist_put n dist (d, m) = Some (d', m') \<Longrightarrow>
   dict_frame d d' \<and> d_start d' = d_start d \<and> same_shape m m' \<and>
   (\<forall>b. b \<noteq> fst (d_buf d) \<longrightarrow> m' b = m b)"
proof (induction n arbitrary: d m)
  case (Suc n)
  from Suc.prems obtain v d1 m1 where put: "hist_put (d, m) v = Some (d1, m1)"
    and rest: "copy_match hist_get hist_put n dist (d1, m1) = Some (d', m')"
    by (auto simp: bind_eq_Some_conv)
  from put have st: "store m (d_buf d) (d_pos d) v = Some m1"
    and d1: "d1 = dict_raise_full (d\<lparr>d_pos := sz_add (d_pos d) 1\<rparr>)"
    by (auto simp: hist_put_def dict_put_def bind_eq_Some_conv)
  from st have "same_shape m m1 \<and> (\<forall>b. b \<noteq> fst (d_buf d) \<longrightarrow> m1 b = m b)"
    by (auto simp: store_def same_shape_def split: if_splits)
  moreover have "dict_frame d d1" and "d_start d1 = d_start d" by (simp_all add: d1 dict_frame_put)
  ultimately show ?case
    using Suc.IH [OF rest] by (auto intro: dict_frame_trans same_shape_trans simp: dict_frame_def)
qed simp

lemma ok_dict_repeat:
  assumes "dict_ok m d" and "dict_limit_ok d" and "d_pos d < d_limit d" and "0 < len" and "len < 2 ^ 32"
  shows "ok (dict_repeat m d len dist) (\<lambda>(res, len', d', m').
      if dist < d_full d \<and> dist < d_size d
      then res \<and> dict_ok m' d' \<and> dict_frame d d' \<and> d_start d' = d_start d \<and> same_shape m m' \<and>
           (\<forall>b. b \<noteq> fst (d_buf d) \<longrightarrow> m' b = m b) \<and>
           (let n = min (d_limit d - d_pos d) len in
              len' = len - n \<and> d_pos d' = d_pos d + n \<and>
              dict_hist m' d' = take (d_end d) (lz_copy n dist (dict_hist m d)))
      else \<not> res \<and> len' = len \<and> d' = d \<and> m' = m)"
proof (cases "dist < d_full d \<and> dist < d_size d")
  case False
  then show ?thesis by (auto simp: dict_repeat_def)
next
  case True
  let ?n = "min (d_limit d - d_pos d) len"
  from assms(1) have dok: "d_pos d \<le> d_full d" "d_full d \<le> d_end d" "d_end d < 2 ^ 63"
    by (simp_all add: dict_ok_def)
  have n: "0 < ?n" "?n < 2 ^ 32" "d_pos d + ?n \<le> d_end d" "?n \<le> len"
    using assms by (auto simp: dict_limit_ok_def)
  have left: "u32_of (min (sz_sub (d_limit d) (d_pos d)) len) = ?n"
    using n assms(2) by (simp add: dict_limit_ok_def)
  have dist: "dist < d_end d" "0 < d_full d" using True dok by auto
  have copy: "map_option (\<lambda>(d, m). (dict_raise_full d, m)) (dict_repeat_loop m d (dict_index d dist) ?n)
      = copy_match hist_get hist_put ?n dist (d, m)"
    using dict_repeat_loop_copy [OF n(1,2,3) dok(3) dist] dok(1) by simp
  have cm: "ok (copy_match hist_get hist_put ?n dist (d, m)) (\<lambda>s'. dict_ok (snd s') (fst s') \<and>
      dict_hist (snd s') (fst s') = take (d_end d) (lz_copy ?n dist (dict_hist m d)) \<and>
      d_end (fst s') - d_pos (fst s') = d_end d - d_pos d - ?n \<and> d_end (fst s') = d_end d)"
    using dict.copy_match_lz [of "(d, m)" dist ?n] assms(1) True n dok
    by (simp add: dict_hist_def)
  then obtain d' m' where res: "copy_match hist_get hist_put ?n dist (d, m) = Some (d', m')"
    and post: "dict_ok m' d'" "dict_hist m' d' = take (d_end d) (lz_copy ?n dist (dict_hist m d))"
      "d_end d' - d_pos d' = d_end d - d_pos d - ?n" "d_end d' = d_end d"
    by (auto simp: ok_iff)
  from copy res obtain d2 where d2: "dict_repeat_loop m d (dict_index d dist) ?n = Some (d2, m')"
      "d' = dict_raise_full d2"
    by auto
  have offset: "(if d_pos d \<le> dist then sz_add (sz_sub (sz_sub (d_pos d) dist) 1) (d_end d)
      else sz_sub (sz_sub (d_pos d) dist) 1) = dict_index d dist"
    using dict_offset [OF assms(1) dist(1)] .
  have "d_pos d' \<le> d_end d'" using post(1) by (auto simp: dict_ok_def)
  then have "d_pos d' = d_pos d + ?n"
    using post(3) n(3) unfolding post(4) by linarith
  then show ?thesis
    using True post copy_match_frame [OF res] n d2
    unfolding dict_repeat_def Let_def left offset by (simp add: ok_simps)
qed

section \<open>Flushing and copying\<close>

text \<open>How the dictionary and the output buffer belong together: in multi-call mode the
  ring is a block of its own, in single-call mode it is the rest of the output buffer.\<close>

definition dict_link :: "dictionary \<Rightarrow> xz_buf \<Rightarrow> bool" where
  "dict_link d b \<longleftrightarrow>
     (if DEC_IS_MULTI (d_mode d)
      then d_buf d = (Dict_Block, 0) \<and> fst (b_out b) \<noteq> Dict_Block \<and> fst (b_in b) \<noteq> Dict_Block
      else fst (d_buf d) = fst (b_out b) \<and> snd (d_buf d) + d_start d = snd (b_out b) + b_out_pos b \<and>
           d_end d = d_start d + (b_out_size b - b_out_pos b))"

definition dict_ready :: "dictionary \<Rightarrow> bool" where
  \<comment> \<open>everything is flushed, and the ring has a free place\<close>
  "dict_ready d \<longleftrightarrow> d_start d = d_pos d \<and> (DEC_IS_MULTI (d_mode d) \<longrightarrow> d_pos d < d_end d)"

definition buf_frame :: "xz_buf \<Rightarrow> xz_buf \<Rightarrow> bool" where
  "buf_frame b b' \<longleftrightarrow> b' = b\<lparr>b_in_pos := b_in_pos b', b_out_pos := b_out_pos b'\<rparr> \<and>
     b_in_pos b \<le> b_in_pos b' \<and> b_out_pos b \<le> b_out_pos b'"

lemma buf_frame_refl [simp]: "buf_frame b b"
  by (simp add: buf_frame_def)

lemma buf_frame_sel:
  assumes "buf_frame b b'"
  shows "b_in b' = b_in b" "b_out b' = b_out b" "b_in_size b' = b_in_size b" "b_out_size b' = b_out_size b"
  by (subst conjunct1 [OF assms [unfolded buf_frame_def]], simp)+

lemma buf_frame_trans: "buf_frame b1 b2 \<Longrightarrow> buf_frame b2 b3 \<Longrightarrow> buf_frame b1 b3"
  by (cases b1, cases b2, cases b3) (auto simp: buf_frame_def)

definition out_kept :: "mem \<Rightarrow> xz_buf \<Rightarrow> mem \<Rightarrow> xz_buf \<Rightarrow> bool" where
  \<comment> \<open>the block of the output buffer is written only between the old and the new position\<close>
  "out_kept m b m' b' \<longleftrightarrow> (\<forall>i < length (m (fst (b_out b))).
     i < snd (b_out b) + b_out_pos b \<or> snd (b_out b) + b_out_pos b' \<le> i \<longrightarrow>
     m' (fst (b_out b)) ! i = m (fst (b_out b)) ! i)"

lemma out_kept_same [simp]: "m' (fst (b_out b)) = m (fst (b_out b)) \<Longrightarrow> out_kept m b m' b'"
  by (simp add: out_kept_def)

lemma out_kept_splice:
  assumes "m' (fst (b_out b)) = splice (m (fst (b_out b))) (snd (b_out b) + b_out_pos b) bs"
    and "b_out_pos b' = b_out_pos b + length bs" and "valid_buf m b" and "b_out_pos b' \<le> b_out_size b"
  shows "out_kept m b m' b'"
proof (cases "bs = []")
  case True
  then show ?thesis using assms(1) by (simp add: out_kept_def splice_def)
next
  case False
  then have "0 < length bs" by simp
  then have "snd (b_out b) + b_out_pos b + length bs \<le> length (m (fst (b_out b)))"
    using assms(2-4) unfolding valid_buf_def room_def by linarith
  then show ?thesis using assms(1,2) by (auto simp: out_kept_def nth_splice)
qed

lemma out_kept_trans:
  assumes "out_kept m b m1 b1" and "out_kept m1 b1 m2 b2" and "same_shape m m1" and "buf_frame b b1" and "buf_frame b1 b2"
  shows "out_kept m b m2 b2"
proof -
  have "b_out b1 = b_out b" "b_out_pos b \<le> b_out_pos b1" "b_out_pos b1 \<le> b_out_pos b2"
    using assms(4,5) buf_frame_sel(2) [OF assms(4)] by (simp_all add: buf_frame_def)
  then show ?thesis
    using assms(1-3) by (auto simp: out_kept_def same_shape_def)
qed

lemma ok_dict_limit:
  assumes "dict_ok m d" and "dict_ready d"
  shows "dict_limit_ok (dict_limit d out_max) \<and>
    d_limit (dict_limit d out_max) = d_pos d + min out_max (d_end d - d_pos d)"
  using assms by (auto simp: dict_limit_def dict_limit_ok_def dict_ok_def)

text \<open>Bytes stored at the write position join the history.\<close>

lemma dict_hist_write:
  assumes "dict_ok m d" and "d_pos d + length bs \<le> d_end d"
    and "d' = dict_raise_full (d\<lparr>d_pos := d_pos d + length bs\<rparr>)"
    and "m' (fst (d_buf d)) = splice (m (fst (d_buf d))) (snd (d_buf d) + d_pos d) bs"
  shows "dict_hist m' d' = take (d_end d) (rev bs @ dict_hist m d)"
proof (rule nth_equalityI)
  let ?n = "length bs" and ?blk = "m (fst (d_buf d))" and ?o = "snd (d_buf d)"
  have room: "?o + d_end d \<le> length ?blk \<or> d_end d = 0"
    using assms(1) by (auto simp: dict_ok_def room_def)
  show len: "length (dict_hist m' d') = length (take (d_end d) (rev bs @ dict_hist m d))"
    using assms by (auto simp: dict_hist_def dict_raise_full_def dict_ok_def)
  have d': "d_buf d' = d_buf d" "d_pos d' = d_pos d + ?n" "d_end d' = d_end d"
    by (simp_all add: assms(3) dict_raise_full_def)
  fix i assume i: "i < length (dict_hist m' d')"
  then have i': "i < d_full d'" "i < d_end d" "i < ?n + d_full d"
    using len by (simp_all add: dict_hist_def)
  then have nth: "m' (fst (d_buf d)) ! (?o + k) =
      (if d_pos d \<le> k \<and> k < d_pos d + ?n then bs ! (k - d_pos d) else ?blk ! (?o + k))" if "k < d_end d" for k
    using that assms(2,4) room by (auto simp: nth_splice)
  show "dict_hist m' d' ! i = take (d_end d) (rev bs @ dict_hist m d) ! i"
  proof (cases "i < ?n")
    case True
    obtain k where k: "?n - Suc i = k" "k < ?n" using True by simp
    have idx: "dict_index d' i = d_pos d + k" using True k by (simp add: dict_index_def d')
    show ?thesis
      using True i' k assms(2) by (simp add: dict_hist_def d' nth_append rev_nth nth idx)
  next
    case False
    have idx: "dict_index d' i = dict_index d (i - ?n)"
      using False by (auto simp: dict_index_def d')
    have "dict_index d (i - ?n) < d_end d"
      using dict_index_less [OF assms(1)] i' False by simp
    moreover have "\<not> (d_pos d \<le> dict_index d (i - ?n) \<and> dict_index d (i - ?n) < d_pos d + ?n)"
      using False i' assms(2) by (auto simp: dict_index_def)
    ultimately show ?thesis
      using False i' by (auto simp: dict_hist_def d' nth_append idx nth)
  qed
qed


lemma dict_ok_shape: "same_shape m m' \<Longrightarrow> dict_ok m' d = dict_ok m d"
  by (simp add: dict_ok_def same_shape_room)

lemma valid_buf_shape: "same_shape m m' \<Longrightarrow> valid_buf m' b = valid_buf m b"
  by (simp add: valid_buf_def same_shape_room)

lemma dict_hist_frame: "m' (fst (d_buf d)) = m (fst (d_buf d)) \<Longrightarrow> dict_hist m' d = dict_hist m d"
  by (simp add: dict_hist_def)

lemma dict_hist_index:
  "d_buf d' = d_buf d \<Longrightarrow> d_full d' = d_full d \<Longrightarrow>
   (\<And>i. i < d_full d \<Longrightarrow> dict_index d' i = dict_index d i) \<Longrightarrow> dict_hist m d' = dict_hist m d"
  by (simp add: dict_hist_def)

text \<open>Stepping from the end of the ring to its start changes no distance.\<close>

definition dict_wrap :: "dictionary \<Rightarrow> dictionary" where
  "dict_wrap d = (if d_pos d = d_end d then d\<lparr>d_pos := 0\<rparr> else d)"

lemma dict_hist_wrap [simp]: "dict_ok m d \<Longrightarrow> dict_hist m (dict_wrap d\<lparr>d_start := p\<rparr>) = dict_hist m d"
  by (auto simp: dict_wrap_def dict_hist_def dict_index_def dict_ok_def)

lemma hist_segment:
  assumes "dict_ok m d" and "n = d_pos d - d_start d"
  shows "take n (drop (snd (d_buf d) + d_start d) (m (fst (d_buf d)))) = rev (take n (dict_hist m d))"
proof (rule nth_equalityI)
  have ok: "d_start d \<le> d_pos d" "d_pos d \<le> d_full d" "d_full d \<le> d_end d" "d_end d \<le> room m (d_buf d)"
    using assms(1) by (simp_all add: dict_ok_def)
  show len: "length (take n (drop (snd (d_buf d) + d_start d) (m (fst (d_buf d)))))
      = length (rev (take n (dict_hist m d)))"
    using ok assms(2) by (auto simp: dict_hist_def room_def)
  fix i assume "i < length (take n (drop (snd (d_buf d) + d_start d) (m (fst (d_buf d)))))"
  then have i: "i < n" "snd (d_buf d) + d_start d + i < length (m (fst (d_buf d)))" by auto
  obtain k where k: "n - Suc i = k" "k < n" using i(1) by simp
  then have "dict_index d k = d_start d + i" "k < d_full d"
    using i ok assms(2) by (auto simp: dict_index_def)
  moreover have "length (take n (dict_hist m d)) = n" using ok assms(2) by (simp add: dict_hist_def)
  then have "rev (take n (dict_hist m d)) ! i = dict_hist m d ! k"
    using i k by (simp add: rev_nth)
  ultimately show "take n (drop (snd (d_buf d) + d_start d) (m (fst (d_buf d)))) ! i
      = rev (take n (dict_hist m d)) ! i"
    using i by (simp add: dict_hist_def add.assoc)
qed

lemma load_bytes_hist:
  assumes "dict_ok m d" and "n = d_pos d - d_start d"
  shows "load_bytes m (ptr_add (d_buf d) (d_start d)) n = Some (rev (take n (dict_hist m d)))"
proof (cases "n = 0")
  case False
  have "snd (d_buf d) + d_start d + n \<le> length (m (fst (d_buf d)))"
    using assms False by (auto simp: dict_ok_def room_def)
  then show ?thesis using False hist_segment [OF assms] by (simp add: load_bytes_def add.assoc)
qed (simp add: load_bytes_def)

lemma take_drop_splice:
  "i + length bs \<le> length xs \<Longrightarrow> take (length bs) (drop i (splice xs i bs)) = bs"
  by (simp add: splice_def)

lemma store_bytes_result:
  assumes "store_bytes m p bs = Some m'"
  shows "take (length bs) (drop (snd p) (m' (fst p))) = bs"
    and "m' (fst p) = splice (m (fst p)) (snd p) bs" and "\<forall>b. b \<noteq> fst p \<longrightarrow> m' b = m b"
    and "same_shape m m'"
  using assms
  by (auto simp: store_bytes_def take_drop_splice same_shape_def split: if_splits) (simp_all add: splice_def)

text \<open>\<open>dict_flush\<close> appends exactly the newest bytes of the history to the output.\<close>

lemma ok_dict_flush:
  assumes "dict_ok m d" and "valid_buf m b" and "dict_link d b"
    and "d_pos d - d_start d \<le> b_out_size b - b_out_pos b" and "d_pos d - d_start d < 2 ^ 32"
    and "DEC_IS_MULTI (d_mode d) \<Longrightarrow> 0 < d_end d"
  defines "n \<equiv> d_pos d - d_start d"
  shows "ok (dict_flush e m d b) (\<lambda>(n', d', b', m'). n' = n \<and>
     dict_ok m' d' \<and> dict_ready d' \<and> dict_link d' b' \<and> dict_frame d d' \<and> d_full d' = d_full d \<and>
     b' = b\<lparr>b_out_pos := b_out_pos b + n\<rparr> \<and> valid_buf m' b' \<and>
     same_shape m m' \<and> (\<forall>k. k \<noteq> fst (b_out b) \<longrightarrow> m' k = m k) \<and> dict_hist m' d' = dict_hist m d \<and>
     (fst (b_out b) \<noteq> Null_Block \<longrightarrow>
        take n (drop (snd (b_out b) + b_out_pos b) (m' (fst (b_out b)))) = rev (take n (dict_hist m d))) \<and>
     (DEC_IS_MULTI (d_mode d) \<longrightarrow> out_kept m b m' b'))"
proof -
  have d: "d_start d \<le> d_pos d" "d_pos d \<le> d_full d" "d_full d \<le> d_end d" "d_end d < 2 ^ 63"
    using assms(1) by (auto simp: dict_ok_def)
  have n_eq: "n = d_pos d - d_start d" by (simp add: n_def)
  have b: "b_out_pos b + n \<le> b_out_size b" "b_out_size b < 2 ^ 63" "b_out_size b \<le> room m (b_out b)"
    using assms(2,4) by (auto simp: valid_buf_def n_def)
  have n: "sz_sub (d_pos d) (d_start d) = n" "u32_of n = n" "sz_add (b_out_pos b) n = b_out_pos b + n"
    using d b assms(5) by (simp_all add: n_def)
  have len: "length (take n (dict_hist m d)) = n" using d by (simp add: dict_hist_def n_def)
  have vb: "valid_buf m (b\<lparr>b_out_pos := b_out_pos b + n\<rparr>)"
    using assms(2) b by (simp add: valid_buf_def)
  show ?thesis
  proof (cases "DEC_IS_MULTI (d_mode d)")
    case False
    then have "ptr_add (d_buf d) (d_start d) = ptr_add (b_out b) (b_out_pos b)"
      using assms(3) by (simp add: dict_link_def ptr_add_def)
    then have "take n (drop (snd (b_out b) + b_out_pos b) (m (fst (b_out b)))) = rev (take n (dict_hist m d))"
      using hist_segment [OF assms(1) n_eq] by (simp add: ptr_add_def)
    moreover have "dict_hist m (d\<lparr>d_start := d_pos d\<rparr>) = dict_hist m d"
      by (rule dict_hist_index) (simp_all add: dict_index_def)
    moreover have "dict_ok m (d\<lparr>d_start := d_pos d\<rparr>)" using assms(1) by (simp add: dict_ok_def)
    moreover have "dict_link (d\<lparr>d_start := d_pos d\<rparr>) (b\<lparr>b_out_pos := b_out_pos b + n\<rparr>)"
      using assms(3) False d(1) b(1) by (simp add: dict_link_def n_eq) linarith
    ultimately show ?thesis
      using False vb by (simp add: dict_flush_def n dict_ready_def dict_frame_def)
  next
    case True
    let ?dst = "ptr_add (b_out b) (b_out_pos b)" and ?src = "ptr_add (d_buf d) (d_start d)"
    let ?d = "dict_wrap d\<lparr>d_start := d_pos (dict_wrap d)\<rparr>"
    have sep: "fst (b_out b) \<noteq> fst (d_buf d)" using assms(3) True by (auto simp: dict_link_def)
    have facts: "dict_ok m' ?d" "dict_hist m' ?d = dict_hist m d"
      if "same_shape m m'" "\<forall>k. k \<noteq> fst (b_out b) \<longrightarrow> m' k = m k" for m'
    proof -
      show "dict_ok m' ?d"
        using assms(1) True unfolding dict_ok_shape [OF that(1)] by (auto simp: dict_ok_def dict_wrap_def)
      have "dict_hist m' d = dict_hist m d" using that(2) sep by (intro dict_hist_frame) auto
      then show "dict_hist m' ?d = dict_hist m d"
        using assms(1) by (simp add: dict_ok_shape [OF that(1)])
    qed
    have rest: "dict_ready ?d" "dict_link ?d (b\<lparr>b_out_pos := b_out_pos b + n\<rparr>)" "dict_frame d ?d"
        "d_full ?d = d_full d"
      using assms(3,6) True d by (auto simp: dict_ready_def dict_link_def dict_frame_def dict_wrap_def)
    have flush: "dict_flush e m d b = do {
        m \<leftarrow> (if \<not> XZ_DEC_MICROLZMA e \<or> fst (b_out b) \<noteq> Null_Block then memcpy m ?dst ?src n else Some m);
        Some (n, ?d, b\<lparr>b_out_pos := b_out_pos b + n\<rparr>, m) }"
      using True by (simp add: dict_flush_def n dict_wrap_def Let_def)
    have "memcpy m ?dst ?src n = store_bytes m ?dst (rev (take n (dict_hist m d)))"
      using sep load_bytes_hist [OF assms(1) n_eq] by (simp add: memcpy_def overlap_def memmove_def)
    moreover have "ok (store_bytes m ?dst (rev (take n (dict_hist m d)))) (\<lambda>m'. same_shape m m' \<and>
        (\<forall>k. k \<noteq> fst (b_out b) \<longrightarrow> m' k = m k))"
      using b len ok_store_bytes [of "rev (take n (dict_hist m d))" m ?dst]
      by (simp add: room_ptr_add)
    then obtain m1 where m1: "store_bytes m ?dst (rev (take n (dict_hist m d))) = Some m1"
        "same_shape m m1" "\<forall>k. k \<noteq> fst (b_out b) \<longrightarrow> m1 k = m k"
      by (auto simp: ok_iff)
    moreover have "take n (drop (snd (b_out b) + b_out_pos b) (m1 (fst (b_out b)))) = rev (take n (dict_hist m d))"
      using store_bytes_result(1) [OF m1(1)] len by simp
    moreover have "out_kept m b m1 (b\<lparr>b_out_pos := b_out_pos b + n\<rparr>)"
    proof -
      obtain bs where "bs = rev (take n (dict_hist m d))" and "length bs = n" using len by simp
      then show ?thesis
        using store_bytes_result(2) [OF m1(1)] b(1) assms(2) by (intro out_kept_splice [where bs = bs]) simp_all
    qed
    moreover have "out_kept m b m (b\<lparr>b_out_pos := b_out_pos b + n\<rparr>)" by (rule out_kept_same) simp
    ultimately show ?thesis
      unfolding flush using rest facts [OF m1(2,3)] facts [OF same_shape_refl] vb
      by (auto simp: valid_buf_shape [OF m1(2)])
  qed
qed


lemma splice_splice:
  assumes "i + length as + length bs \<le> length xs"
  shows "splice (splice xs i as) (i + length as) bs = splice xs i (as @ bs)"
proof -
  have "length (take i xs) = i" using assms by simp
  then show ?thesis
    using assms unfolding splice_def
    by (simp add: drop_drop add.commute add.left_commute)
qed

lemma take_append_take: "take e (xs @ take e ys) = take e (xs @ ys)"
  by (simp add: min_def)

text \<open>One pass of the copy loop with \<open>n\<close> bytes; \<open>in_bytes\<close> is what it reads.\<close>

definition in_bytes :: "mem \<Rightarrow> xz_buf \<Rightarrow> nat \<Rightarrow> u8 list" where
  "in_bytes m b n = take n (drop (snd (b_in b) + b_in_pos b) (m (fst (b_in b))))"

definition copy_pass :: "mem \<Rightarrow> dictionary \<Rightarrow> xz_buf \<Rightarrow> nat \<Rightarrow> (dictionary \<times> mem) option" where
  "copy_pass m dict b n = do {
     m \<leftarrow> memmove m (ptr_add (d_buf dict) (d_pos dict)) (ptr_add (b_in b) (b_in_pos b)) n;
     let dict = dict_raise_full (dict\<lparr>d_pos := d_pos dict + n\<rparr>);
     if DEC_IS_MULTI (d_mode dict) then do {
       m \<leftarrow> memmove m (ptr_add (b_out b) (b_out_pos b)) (ptr_add (b_in b) (b_in_pos b)) n;
       Some (dict_wrap dict\<lparr>d_start := d_pos (dict_wrap dict)\<rparr>, m)
     } else Some (dict\<lparr>d_start := d_pos dict\<rparr>, m)
   }"

definition copied :: "mem \<Rightarrow> dictionary \<Rightarrow> xz_buf \<Rightarrow> nat \<Rightarrow> dictionary \<Rightarrow> mem \<Rightarrow> bool" where
  \<comment> \<open>\<open>n\<close> input bytes went to the history and to the output\<close>
  "copied m d b n d' m' \<longleftrightarrow>
     dict_ok m' d' \<and> dict_ready d' \<and> dict_frame d d' \<and> same_shape m m' \<and>
     dict_link d' (b\<lparr>b_in_pos := b_in_pos b + n, b_out_pos := b_out_pos b + n\<rparr>) \<and>
     (\<forall>k. k \<noteq> fst (b_out b) \<and> k \<noteq> fst (d_buf d) \<longrightarrow> m' k = m k) \<and>
     (fst (b_in b) \<noteq> fst (b_out b) \<longrightarrow>
        dict_hist m' d' = take (d_end d) (rev (in_bytes m b n) @ dict_hist m d) \<and>
        m' (fst (b_out b)) = splice (m (fst (b_out b))) (snd (b_out b) + b_out_pos b) (in_bytes m b n))"

lemma load_in_bytes:
  assumes "valid_buf m b" and "n \<le> b_in_size b - b_in_pos b"
  shows "load_bytes m (ptr_add (b_in b) (b_in_pos b)) n = Some (in_bytes m b n)"
    and "length (in_bytes m b n) = n"
  using assms by (auto simp: load_bytes_def in_bytes_def valid_buf_def room_def)

lemma store_bytes_Some:
  assumes "length bs \<le> room m p"
  shows "store_bytes m p bs = Some (m(fst p := if bs = [] then m (fst p) else splice (m (fst p)) (snd p) bs))"
  using assms by (cases bs) (auto simp: store_bytes_def room_def)

lemma splice_Nil [simp]: "splice xs i [] = xs"
  by (simp add: splice_def)

lemma ok_store_splice:
  assumes "length bs \<le> room m p"
  shows "store_bytes m p bs = Some (m(fst p := splice (m (fst p)) (snd p) bs))"
    and "same_shape m (m(fst p := splice (m (fst p)) (snd p) bs))"
proof -
  show "store_bytes m p bs = Some (m(fst p := splice (m (fst p)) (snd p) bs))"
    using store_bytes_Some [OF assms] by (cases "bs = []") simp_all
  then show "same_shape m (m(fst p := splice (m (fst p)) (snd p) bs))"
    by (rule store_bytes_result(4))
qed

lemma ok_copy_pass:
  assumes ok: "dict_ok m d" and ready: "dict_ready d" and link: "dict_link d b" and vb: "valid_buf m b"
    and n: "n \<le> b_in_size b - b_in_pos b" "n \<le> b_out_size b - b_out_pos b" "n \<le> d_end d - d_pos d"
  shows "ok (copy_pass m d b n) (\<lambda>(d', m'). copied m d b n d' m')"
proof -
  let ?bs = "in_bytes m b n" and ?p = "ptr_add (d_buf d) (d_pos d)" and ?q = "ptr_add (b_out b) (b_out_pos b)"
  let ?src = "ptr_add (b_in b) (b_in_pos b)"
  let ?d1 = "dict_raise_full (d\<lparr>d_pos := d_pos d + n\<rparr>)"
  define m1 where "m1 = m(fst ?p := splice (m (fst ?p)) (snd ?p) ?bs)"
  note bs = load_in_bytes [OF vb n(1)]
  have d: "d_start d = d_pos d" "d_pos d \<le> d_full d" "d_full d \<le> d_end d" "d_end d \<le> room m (d_buf d)"
    using ok ready by (auto simp: dict_ok_def dict_ready_def)
  have "length ?bs \<le> room m ?p" using d n(3) bs(2) by (simp add: room_ptr_add)
  note m1 = ok_store_splice [OF this, folded m1_def]
  have mv1: "memmove m ?p ?src n = Some m1"
    unfolding memmove_def bs Option.bind_lunit by (rule m1(1))
  have m1_at: "m1 (fst (d_buf d)) = splice (m (fst (d_buf d))) (snd (d_buf d) + d_pos d) ?bs"
    and m1_else: "\<And>k. k \<noteq> fst (d_buf d) \<Longrightarrow> m1 k = m k"
    by (simp_all add: m1_def)
  have dok1: "dict_ok m' ?d1" if "same_shape m m'" for m'
    unfolding dict_ok_shape [OF that] using ok n(3) d by (auto simp: dict_ok_def)
  have hist1: "dict_hist m' ?d1 = take (d_end d) (rev ?bs @ dict_hist m d)"
    if "m' (fst (d_buf d)) = m1 (fst (d_buf d))" for m'
    using that n(3) d bs(2) m1_at by (intro dict_hist_write [OF ok]) auto
  show ?thesis
  proof (cases "DEC_IS_MULTI (d_mode d)")
    case False
    then have pq: "fst (d_buf d) = fst (b_out b)" "snd (d_buf d) + d_pos d = snd (b_out b) + b_out_pos b"
      using link d by (auto simp: dict_link_def)
    have "dict_hist m1 (?d1\<lparr>d_start := d_pos ?d1\<rparr>) = dict_hist m1 ?d1"
      by (rule dict_hist_index) (simp_all add: dict_index_def)
    then have "dict_hist m1 (?d1\<lparr>d_start := d_pos ?d1\<rparr>) = take (d_end d) (rev ?bs @ dict_hist m d)"
      using hist1 by simp
    moreover have "dict_ok m1 (?d1\<lparr>d_start := d_pos ?d1\<rparr>)"
      using dok1 [OF m1(2)] by (simp add: dict_ok_def)
    moreover have "dict_link (?d1\<lparr>d_start := d_pos ?d1\<rparr>) (b\<lparr>b_in_pos := b_in_pos b + n, b_out_pos := b_out_pos b + n\<rparr>)"
      using link False d n(2) by (simp add: dict_link_def)
    ultimately show ?thesis
      using False pq m1_at m1_else m1(2)
      by (simp add: copy_pass_def mv1 copied_def dict_ready_def dict_frame_def Let_def del: take_append)
  next
    case True
    define m2 where "m2 = m1(fst ?q := splice (m1 (fst ?q)) (snd ?q) ?bs)"
    let ?d2 = "dict_wrap ?d1\<lparr>d_start := d_pos (dict_wrap ?d1)\<rparr>"
    have sep: "fst (b_out b) \<noteq> fst (d_buf d)" "fst (b_in b) \<noteq> fst (d_buf d)"
      using link True by (auto simp: dict_link_def)
    have "in_bytes m1 b n = ?bs" using sep m1_else by (simp add: in_bytes_def)
    then have ld: "load_bytes m1 ?src n = Some ?bs"
      using load_in_bytes(1) [OF iffD2 [OF valid_buf_shape [OF m1(2)] vb] n(1)] by simp
    have "length ?bs \<le> room m1 ?q"
      using vb n(2) bs(2) unfolding same_shape_room [OF m1(2)] by (auto simp: room_ptr_add valid_buf_def)
    note m2 = ok_store_splice [OF this, folded m2_def]
    have shape: "same_shape m m2" by (rule same_shape_trans [OF m1(2) m2(2)])
    have mv2: "memmove m1 ?q ?src n = Some m2"
      unfolding memmove_def ld Option.bind_lunit by (rule m2(1))
    have m2_at: "m2 (fst (b_out b)) = splice (m (fst (b_out b))) (snd (b_out b) + b_out_pos b) ?bs"
      and m2_dict: "m2 (fst (d_buf d)) = m1 (fst (d_buf d))"
      and m2_else: "\<And>k. k \<noteq> fst (b_out b) \<and> k \<noteq> fst (d_buf d) \<Longrightarrow> m2 k = m k"
      using sep m1_else by (simp_all add: m2_def)
    have dok2: "dict_ok m2 ?d2" and rest: "dict_ready ?d2" "dict_frame d ?d2"
      using dok1 [OF shape] ready True n(3) d
      by (auto simp: dict_ok_def dict_wrap_def dict_ready_def dict_frame_def)
    have "dict_hist m2 ?d2 = take (d_end d) (rev ?bs @ dict_hist m d)"
      using hist1 [of m2] m2_dict dok1 [OF shape] by simp
    moreover have "dict_link ?d2 (b\<lparr>b_in_pos := b_in_pos b + n, b_out_pos := b_out_pos b + n\<rparr>)"
      using link True by (simp add: dict_link_def dict_wrap_def)
    ultimately show ?thesis
      using True dok2 rest shape sep m2_at m2_else
      by (simp add: copy_pass_def mv1 mv2 copied_def Let_def del: take_append)
  qed
qed

lemma in_bytes_add:
  assumes "m1 (fst (b_in b)) = m (fst (b_in b))"
  shows "in_bytes m b (n + k) =
    in_bytes m b n @ in_bytes m1 (b\<lparr>b_in_pos := b_in_pos b + n, b_out_pos := p\<rparr>) k"
  unfolding in_bytes_def take_add by (simp add: assms ac_simps)

lemma copied_none:
  "dict_ok m d \<Longrightarrow> dict_ready d \<Longrightarrow> dict_link d b \<Longrightarrow> copied m d b 0 d m"
  by (simp add: copied_def in_bytes_def dict_hist_def dict_ok_def)

lemma copied_trans:
  assumes "copied m d b n d1 m1" and "valid_buf m b"
    and "n + k \<le> b_in_size b - b_in_pos b" and "n + k \<le> b_out_size b - b_out_pos b"
    and "copied m1 d1 (b\<lparr>b_in_pos := b_in_pos b + n, b_out_pos := b_out_pos b + n\<rparr>) k d2 m2"
  shows "copied m d b (n + k) d2 m2"
proof -
  let ?b = "b\<lparr>b_in_pos := b_in_pos b + n, b_out_pos := b_out_pos b + n\<rparr>"
  have frame: "dict_frame d d1" "d_end d1 = d_end d" "d_buf d1 = d_buf d" "d_mode d1 = d_mode d"
    and shape: "same_shape m m1"
    using assms(1) by (auto simp: copied_def dict_frame_def)
  have content: "dict_hist m2 d2 = take (d_end d) (rev (in_bytes m b (n + k)) @ dict_hist m d) \<and>
      m2 (fst (b_out b)) = splice (m (fst (b_out b))) (snd (b_out b) + b_out_pos b) (in_bytes m b (n + k))"
    if io: "fst (b_in b) \<noteq> fst (b_out b)"
  proof -
    have link: "dict_link d1 ?b" using assms(1) by (simp add: copied_def)
    have "fst (b_in b) \<noteq> fst (d_buf d)"
      using link io frame by (cases "DEC_IS_MULTI (d_mode d)") (auto simp: dict_link_def)
    with assms(1) io have same: "m1 (fst (b_in b)) = m (fst (b_in b))" by (simp add: copied_def)
    have bytes: "in_bytes m b n @ in_bytes m1 ?b k = in_bytes m b (n + k)"
      by (rule in_bytes_add [where ?m1.0 = m1 and m = m and b = b, OF same, symmetric])
    have len: "length (in_bytes m b n) = n" "length (in_bytes m1 ?b k) = k"
      using assms(2,3) by (auto simp: in_bytes_def same valid_buf_def room_def)
    have "dict_hist m2 d2 = take (d_end d) (rev (in_bytes m1 ?b k) @ take (d_end d) (rev (in_bytes m b n) @ dict_hist m d))"
      using assms(1,5) io frame by (simp add: copied_def)
    then have hist: "dict_hist m2 d2 = take (d_end d) (rev (in_bytes m b (n + k)) @ dict_hist m d)"
      by (simp only: take_append_take rev_append append_assoc flip: bytes)
    let ?i = "snd (b_out b) + b_out_pos b"
    have "splice (splice (m (fst (b_out b))) ?i (in_bytes m b n)) (?i + n) (in_bytes m1 ?b k)
        = splice (m (fst (b_out b))) ?i (in_bytes m b n @ in_bytes m1 ?b k)"
    proof (cases "n + k = 0")
      case True
      then show ?thesis by (simp add: in_bytes_def)
    next
      case False
      then have "?i + n + k \<le> length (m (fst (b_out b)))"
        using assms(2,4) by (auto simp: valid_buf_def room_def)
      then show ?thesis
        using splice_splice [of ?i "in_bytes m b n" "in_bytes m1 ?b k"] len by simp
    qed
    moreover have "m1 (fst (b_out b)) = splice (m (fst (b_out b))) ?i (in_bytes m b n)"
      using assms(1) io by (simp add: copied_def)
    moreover have "m2 (fst (b_out b)) = splice (m1 (fst (b_out b))) (?i + n) (in_bytes m1 ?b k)"
      using assms(5) io by (simp add: copied_def add.assoc)
    ultimately show ?thesis
      using hist by (simp only: bytes)
  qed
  show ?thesis
    using assms(1,5) content dict_frame_trans [OF frame(1)] same_shape_trans [OF shape] frame
    by (auto simp: copied_def ac_simps)
qed

text \<open>\<open>dict_uncompressed\<close> stops only when the chunk, the input or the output is used up.\<close>

fun uncompressed_post :: "mem \<Rightarrow> dictionary \<Rightarrow> xz_buf \<Rightarrow> nat \<Rightarrow> nat \<times> dictionary \<times> xz_buf \<times> mem \<Rightarrow> bool" where
  "uncompressed_post m d b left (left', d', b', m') \<longleftrightarrow> (\<exists>n \<le> left. left' = left - n \<and>
     n \<le> b_in_size b - b_in_pos b \<and> n \<le> b_out_size b - b_out_pos b \<and>
     b' = b\<lparr>b_in_pos := b_in_pos b + n, b_out_pos := b_out_pos b + n\<rparr> \<and> copied m d b n d' m' \<and>
     (left' = 0 \<or> b_in_pos b' = b_in_size b' \<or> b_out_pos b' = b_out_size b'))"

lemma clamp:
  "(let c = min i j; c = (if c > e then e else c) in if c > l then l else c) = min (min (min i j) e) (l :: nat)"
  by (auto simp: Let_def min_def)

lemma copy_size_props:
  assumes "dict_ok m d" and "dict_ready d" and "dict_link d b" and "valid_buf m b"
    and "0 < left" and "b_in_pos b < b_in_size b" and "b_out_pos b < b_out_size b"
  defines "n \<equiv> dict_copy_size d b left"
  shows "0 < n" "n \<le> left" "n \<le> b_in_size b - b_in_pos b" "n \<le> b_out_size b - b_out_pos b" "n \<le> d_end d - d_pos d"
    and "sz_add (d_pos d) n = d_pos d + n" "sz_add (b_out_pos b) n = b_out_pos b + n"
    and "sz_add (b_in_pos b) n = b_in_pos b + n"
proof -
  let ?i = "b_in_size b - b_in_pos b" and ?o = "b_out_size b - b_out_pos b" and ?e = "d_end d - d_pos d"
  have vb: "b_in_size b < 2 ^ 63" "b_out_size b < 2 ^ 63" "d_end d < 2 ^ 63" "d_pos d \<le> d_end d"
    using assms(1,4) by (auto simp: valid_buf_def dict_ok_def)
  have "0 < ?e"
    using assms(2,3,6,7) by (cases "DEC_IS_MULTI (d_mode d)") (auto simp: dict_ready_def dict_link_def)
  moreover have "n = min (min (min ?i ?o) ?e) left"
    using assms(6,7) vb(4) unfolding n_def dict_copy_size_def clamp by simp
  ultimately show n: "0 < n" "n \<le> left" "n \<le> ?i" "n \<le> ?o" "n \<le> ?e"
    using assms(5,6,7) by linarith+
  show "sz_add (d_pos d) n = d_pos d + n" "sz_add (b_out_pos b) n = b_out_pos b + n"
    "sz_add (b_in_pos b) n = b_in_pos b + n"
    using n vb assms(6,7) by (simp_all add: sz_add_def)
qed

lemma buf_pos_order: "b\<lparr>b_out_pos := x, b_in_pos := y\<rparr> = b\<lparr>b_in_pos := y, b_out_pos := x\<rparr>"
  by simp

lemma dict_uncompressed_pass:
  assumes "dict_ok m d" and "dict_ready d" and "dict_link d b" and "valid_buf m b"
    and "0 < left" and "b_in_pos b < b_in_size b" and "b_out_pos b < b_out_size b"
  defines "n \<equiv> dict_copy_size d b left"
  shows "dict_uncompressed m d b left = do {
    (d, m) \<leftarrow> copy_pass m d b n;
    dict_uncompressed m d (b\<lparr>b_in_pos := b_in_pos b + n, b_out_pos := b_out_pos b + n\<rparr>) (left - n) }"
proof -
  note n = copy_size_props [OF assms(1-7), folded n_def]
  show ?thesis
  proof (cases "memmove m (ptr_add (d_buf d) (d_pos d)) (ptr_add (b_in b) (b_in_pos b)) n")
    case None
    then show ?thesis
      using assms(5,6,7) by (subst dict_uncompressed.simps, fold n_def) (simp add: copy_pass_def)
  next
    case (Some m1)
    then show ?thesis
      using assms(5,6,7) n(2)
      by (subst dict_uncompressed.simps, fold n_def, cases "DEC_IS_MULTI (d_mode d)";
          cases "memmove m1 (ptr_add (b_out b) (b_out_pos b)) (ptr_add (b_in b) (b_in_pos b)) n")
         (simp_all add: copy_pass_def Let_def n(6,7,8) dict_wrap_def buf_pos_order)
  qed
qed

lemma ok_dict_uncompressed:
  assumes "dict_ok m d" and "dict_ready d" and "dict_link d b" and "valid_buf m b" and "left < 2 ^ 32"
  shows "ok (dict_uncompressed m d b left) (uncompressed_post m d b left)"
  using assms
proof (induction left arbitrary: m d b rule: less_induct)
  case (less left)
  show ?case
  proof (cases "0 < left \<and> b_in_pos b < b_in_size b \<and> b_out_pos b < b_out_size b")
    case False
    then show ?thesis
      using less.prems by (subst dict_uncompressed.simps) (auto simp: copied_none valid_buf_def intro!: exI [of _ 0])
  next
    case True
    define n where "n = dict_copy_size d b left"
    let ?b = "b\<lparr>b_in_pos := b_in_pos b + n, b_out_pos := b_out_pos b + n\<rparr>"
    note hyps = less.prems(1-4) conjunct1 [OF True] conjunct1 [OF conjunct2 [OF True]] conjunct2 [OF conjunct2 [OF True]]
    note n = copy_size_props [OF hyps, folded n_def]
    have pass: "ok (copy_pass m d b n) (\<lambda>(d', m'). copied m d b n d' m')"
      using less.prems n by (intro ok_copy_pass)
    show ?thesis
      unfolding dict_uncompressed_pass [OF hyps, folded n_def]
    proof (rule ok_bindI [OF pass], clarify)
      fix d1 m1 assume c: "copied m d b n d1 m1"
      have "valid_buf m1 ?b"
        using less.prems(4) n c by (auto simp: valid_buf_def copied_def same_shape_room)
      then have "ok (dict_uncompressed m1 d1 ?b (left - n)) (uncompressed_post m1 d1 ?b (left - n))"
        using c n less.prems(5) by (intro less.IH) (auto simp: copied_def ac_simps)
      then show "ok (dict_uncompressed m1 d1 ?b (left - n)) (uncompressed_post m d b left)"
      proof (rule ok_mono)
        fix r assume "uncompressed_post m1 d1 ?b (left - n) r"
        then obtain k d' m' where k: "k \<le> left - n" "k \<le> b_in_size ?b - b_in_pos ?b"
            "k \<le> b_out_size ?b - b_out_pos ?b" and c2: "copied m1 d1 ?b k d' m'"
          and r: "r = (left - n - k, d', ?b\<lparr>b_in_pos := b_in_pos ?b + k, b_out_pos := b_out_pos ?b + k\<rparr>, m')"
          and stop: "left - n - k = 0 \<or> b_in_pos ?b + k = b_in_size b \<or> b_out_pos ?b + k = b_out_size b"
          by (cases r) auto
        have "copied m d b (n + k) d' m'"
          using k n c2 less.prems(4) by (intro copied_trans [OF c]) auto
        then show "uncompressed_post m d b left r"
          using k n stop unfolding r by (auto simp: add.assoc intro!: exI [of _ "n + k"])
      qed
    qed
  qed
qed

section \<open>Properties\<close>

definition ring_sample :: "dictionary" where
  \<comment> \<open>a ring of eight bytes, three of them written\<close>
  "ring_sample = \<lparr>d_buf = (Dict_Block, 0), d_start = 3, d_pos = 3, d_full = 3, d_limit = 8, d_end = 8,
     d_size = 8, d_size_max = 8, d_allocated = 8, d_mode = XZ_PREALLOC\<rparr>"

definition ring_memory :: "mem" where
  "ring_memory k = (case k of
      Dict_Block \<Rightarrow> [1, 2, 3, 0, 0, 0, 0, 0] | In_Block \<Rightarrow> [7, 8, 9] | Out_Block \<Rightarrow> [0, 0, 0, 0] | _ \<Rightarrow> [])"

definition ring_buf :: xz_buf where
  "ring_buf = \<lparr>b_in = (In_Block, 0), b_in_pos = 0, b_in_size = 3, b_out = (Out_Block, 0), b_out_pos = 0, b_out_size = 4\<rparr>"

lemmas ring_defs = ring_sample_def ring_memory_def ring_buf_def

lemma ring_ok: "dict_ok ring_memory ring_sample" "valid_buf ring_memory ring_buf" "dict_link ring_sample ring_buf"
    "dict_ready ring_sample"
  by (simp_all add: ring_defs dict_ok_def room_def valid_buf_def dict_link_def dict_ready_def mode_defs)

lemma ring_hist: "dict_hist ring_memory ring_sample = [3, 2, 1]"
  by (simp add: dict_hist_def dict_index_def ring_defs upt_rec)

text \<open>
  C12: \<open>dict_repeat\<close>, with its wrap-around in the ring and its clamping to the limit, is
  the LZ77 copy on the byte history: it rejects exactly the distances that reach behind the
  history or the dictionary size, and otherwise appends the byte at the distance once for
  each byte of the length that fits under the limit; it stays inside the ring, terminates,
  and writes no other block.
\<close>

theorem dict_repeat_is_lz77:
  assumes "dict_ok m d" and "dict_limit_ok d" and "d_pos d < d_limit d" and "0 < len" and "len < 2 ^ 32"
  shows "ok (dict_repeat m d len dist) (\<lambda>(res, len', d', m').
      if dist < d_full d \<and> dist < d_size d
      then res \<and> dict_ok m' d' \<and> dict_frame d d' \<and> d_start d' = d_start d \<and> same_shape m m' \<and>
           (\<forall>b. b \<noteq> fst (d_buf d) \<longrightarrow> m' b = m b) \<and>
           (let n = min (d_limit d - d_pos d) len in
              len' = len - n \<and> d_pos d' = d_pos d + n \<and>
              dict_hist m' d' = take (d_end d) (lz_copy n dist (dict_hist m d)))
      else \<not> res \<and> len' = len \<and> d' = d \<and> m' = m)"
  by (rule ok_dict_repeat [OF assms])

theorem dict_repeat_is_lz77_witness:
  "\<exists>d' m'. dict_repeat ring_memory ring_sample 4 1 = Some (True, 0, d', m') \<and>
     dict_hist m' d' = [3, 2, 3, 2, 3, 2, 1]"
proof -
  have "dict_limit_ok ring_sample" "d_pos ring_sample < d_limit ring_sample"
    by (simp_all add: dict_limit_ok_def ring_sample_def)
  note repeat = dict_repeat_is_lz77 [OF ring_ok(1) this, of 4 1, simplified]
  have "lz_copy 4 1 [3, 2, 1 :: u8] = [3, 2, 3, 2, 3, 2, 1]"
    by (simp add: numeral_eq_Suc)
  moreover have "d_full ring_sample = 3" "d_size ring_sample = 8" "d_end ring_sample = 8"
      "d_limit ring_sample = 8" "d_pos ring_sample = 3"
    by (simp_all add: ring_sample_def)
  ultimately show ?thesis
    using repeat by (auto simp: ok_iff ring_hist)
qed

text \<open>
  C16: \<open>dict_flush\<close> copies to the output exactly the bytes decoded since the last flush, in
  order, advances the output by as many, and changes neither the history nor anything else.
\<close>

theorem dict_flush_emits_history:
  assumes "dict_ok m d" and "valid_buf m b" and "dict_link d b"
    and "d_pos d - d_start d \<le> b_out_size b - b_out_pos b" and "d_pos d - d_start d < 2 ^ 32"
    and "DEC_IS_MULTI (d_mode d) \<Longrightarrow> 0 < d_end d"
  shows "ok (dict_flush e m d b) (\<lambda>(n', d', b', m'). n' = d_pos d - d_start d \<and>
     dict_ok m' d' \<and> dict_ready d' \<and> b' = b\<lparr>b_out_pos := b_out_pos b + n'\<rparr> \<and>
     (\<forall>k. k \<noteq> fst (b_out b) \<longrightarrow> m' k = m k) \<and> dict_hist m' d' = dict_hist m d \<and>
     (fst (b_out b) \<noteq> Null_Block \<longrightarrow>
        take n' (drop (snd (b_out b) + b_out_pos b) (m' (fst (b_out b)))) = rev (take n' (dict_hist m d))))"
  by (rule ok_mono [OF ok_dict_flush [OF assms]]) auto

theorem dict_flush_emits_history_witness:
  "\<forall>e. \<exists>d' b' m'. dict_flush e ring_memory (ring_sample\<lparr>d_start := 1\<rparr>) ring_buf = Some (2, d', b', m') \<and>
     take 2 (m' Out_Block) = [2, 3]"
proof
  fix e
  let ?d = "ring_sample\<lparr>d_start := 1\<rparr>"
  have "dict_ok ring_memory ?d" "valid_buf ring_memory ring_buf" "dict_link ?d ring_buf"
      "d_pos ?d - d_start ?d \<le> b_out_size ring_buf - b_out_pos ring_buf" "d_pos ?d - d_start ?d < 2 ^ 32" "0 < d_end ?d"
    by (simp_all add: ring_defs dict_ok_def room_def valid_buf_def dict_link_def mode_defs)
  note flush = dict_flush_emits_history [OF this(1-5), of e]
  have "dict_hist ring_memory ?d = [3, 2, 1]"
    by (simp add: dict_hist_def dict_index_def ring_defs upt_rec)
  with flush show "\<exists>d' b' m'. dict_flush e ring_memory ?d ring_buf = Some (2, d', b', m') \<and>
      take 2 (m' Out_Block) = [2, 3]"
    by (auto simp: ok_iff ring_defs numeral_eq_Suc)
qed

text \<open>
  C15: \<open>dict_uncompressed\<close>, the copy loop of a stored chunk, terminates inside its buffers,
  stops only when the chunk, the input or the output is used up, and where input and output
  are different blocks puts the same input bytes into the history and into the output.
\<close>

theorem dict_uncompressed_copies:
  assumes "dict_ok m d" and "dict_ready d" and "dict_link d b" and "valid_buf m b" and "left < 2 ^ 32"
  shows "ok (dict_uncompressed m d b left) (\<lambda>(left', d', b', m'). \<exists>n \<le> left. left' = left - n \<and>
     b' = b\<lparr>b_in_pos := b_in_pos b + n, b_out_pos := b_out_pos b + n\<rparr> \<and>
     (left' = 0 \<or> b_in_pos b' = b_in_size b' \<or> b_out_pos b' = b_out_size b') \<and>
     dict_ok m' d' \<and> dict_ready d' \<and>
     (fst (b_in b) \<noteq> fst (b_out b) \<longrightarrow>
        dict_hist m' d' = take (d_end d) (rev (in_bytes m b n) @ dict_hist m d) \<and>
        m' (fst (b_out b)) = splice (m (fst (b_out b))) (snd (b_out b) + b_out_pos b) (in_bytes m b n)))"
  by (rule ok_mono [OF ok_dict_uncompressed [OF assms]]) (auto simp: copied_def)

theorem dict_uncompressed_copies_witness:
  "\<exists>d' b' m'. dict_uncompressed ring_memory ring_sample ring_buf 2 = Some (0, d', b', m') \<and>
     dict_hist m' d' = [8, 7, 3, 2, 1] \<and> m' Out_Block = [7, 8, 0, 0]"
proof -
  have "(2 :: nat) < 2 ^ 32" by simp
  from dict_uncompressed_copies [OF ring_ok(1,4,3,2) this]
  obtain n left' d' m' where run: "dict_uncompressed ring_memory ring_sample ring_buf 2
      = Some (left', d', ring_buf\<lparr>b_in_pos := n, b_out_pos := n\<rparr>, m')"
    and n: "n \<le> 2" "left' = 2 - n" "left' = 0 \<or> n = 3 \<or> n = 4"
    and hist: "dict_hist m' d' = take 8 (rev (in_bytes ring_memory ring_buf n) @ [3, 2, 1])"
    and out: "m' Out_Block = splice (ring_memory Out_Block) 0 (in_bytes ring_memory ring_buf n)"
    by (auto simp: ok_iff ring_hist) (auto simp: ring_defs)
  have "n = 2" using n by auto
  moreover have "in_bytes ring_memory ring_buf 2 = [7, 8]"
    by (simp add: in_bytes_def ring_defs numeral_eq_Suc)
  ultimately show ?thesis
    using run hist out n(2) by (simp add: splice_def ring_memory_def)
qed

end
