(* ===== verification/Lzma.thy ===== *)
theory Lzma
  imports Range_Decoder Dictionary
begin

unbundle bit_operations_syntax

text \<open>
  The LZMA decoder of \<open>xz_dec_lzma2.c\<close>: \<open>struct lzma_dec\<close>, \<open>struct xz_dec_lzma2\<close>
  and the \<open>lzma_*\<close> functions. The probability arrays of \<open>struct lzma_dec\<close> are one array
  (field \<open>lz_probs\<close>, in the order of the declarations, as \<open>lzma_reset\<close> relies on); the
  offsets below name the members. The two length decoders are the two bases a
  \<open>lzma_len\<close> call gets.
\<close>

section \<open>State\<close>

record lzma_dec =
  rep0 :: u32
  rep1 :: u32
  rep2 :: u32
  rep3 :: u32
  lz_state :: lzma_state
  lz_len :: nat
  lz_lc :: nat
  literal_pos_mask :: nat
  pos_mask :: nat
  lz_probs :: probs

datatype lzma2_seq =
    SEQ_CONTROL
  | SEQ_UNCOMPRESSED_1
  | SEQ_UNCOMPRESSED_2
  | SEQ_COMPRESSED_0
  | SEQ_COMPRESSED_1
  | SEQ_PROPERTIES
  | SEQ_LZMA_PREPARE
  | SEQ_LZMA_RUN
  | SEQ_COPY

record lzma2_dec =
  sequence :: lzma2_seq
  next_sequence :: lzma2_seq
  uncompressed :: nat
  compressed :: nat
  need_dict_reset :: bool
  need_props :: bool
  pedantic_microlzma :: bool

record xz_dec_lzma2 =
  s_rc :: rc_dec
  s_dict :: dictionary
  s_lzma2 :: lzma2_dec
  s_lzma :: lzma_dec
  temp_size :: nat

section \<open>The layout of the probability arrays\<close>

definition is_match_base :: nat where "is_match_base = 0"
definition is_rep_base :: nat where "is_rep_base = is_match_base + STATES * POS_STATES_MAX"
definition is_rep0_base :: nat where "is_rep0_base = is_rep_base + STATES"
definition is_rep1_base :: nat where "is_rep1_base = is_rep0_base + STATES"
definition is_rep2_base :: nat where "is_rep2_base = is_rep1_base + STATES"
definition is_rep0_long_base :: nat where "is_rep0_long_base = is_rep2_base + STATES"
definition dist_slot_base :: nat where "dist_slot_base = is_rep0_long_base + STATES * POS_STATES_MAX"
definition dist_special_base :: nat where "dist_special_base = dist_slot_base + DIST_STATES * DIST_SLOTS"
definition dist_align_base :: nat where "dist_align_base = dist_special_base + (FULL_DISTANCES - DIST_MODEL_END)"
definition match_len_dec_base :: nat where "match_len_dec_base = dist_align_base + ALIGN_SIZE"

definition len_choice :: nat where "len_choice = 0"
definition len_choice2 :: nat where "len_choice2 = 1"
definition len_low :: nat where "len_low = 2"
definition len_mid :: nat where "len_mid = len_low + POS_STATES_MAX * LEN_LOW_SYMBOLS"
definition len_high :: nat where "len_high = len_mid + POS_STATES_MAX * LEN_MID_SYMBOLS"
definition len_dec_size :: nat where "len_dec_size = len_high + LEN_HIGH_SYMBOLS"

definition rep_len_dec_base :: nat where "rep_len_dec_base = match_len_dec_base + len_dec_size"
definition literal_base :: nat where "literal_base = rep_len_dec_base + len_dec_size"

lemmas layout =
  is_match_base_def is_rep_base_def is_rep0_base_def is_rep1_base_def is_rep2_base_def
  is_rep0_long_base_def dist_slot_base_def dist_special_base_def dist_align_base_def
  match_len_dec_base_def len_choice_def len_choice2_def len_low_def len_mid_def len_high_def
  len_dec_size_def rep_len_dec_base_def literal_base_def STATES_def lzma_consts

definition prob_row :: "nat \<Rightarrow> nat \<Rightarrow> nat \<Rightarrow> nat \<Rightarrow> prob_ptr" where
  \<comment> \<open>row \<open>i\<close> of an array with \<open>rows\<close> rows of \<open>cols\<close> entries that starts at \<open>base\<close>; no
      entry may be used through a row that does not exist\<close>
  "prob_row base rows cols i =
     \<lparr>pp_addr = base + i * cols, pp_lo = base + i * cols,
      pp_hi = (if i < rows then base + i * cols + cols else 0)\<rparr>"

text \<open>\<open>PROBS_TOTAL\<close>, a hand-computed constant of \<open>xz_lzma2.h\<close>, is the size of all arrays
  together.\<close>

lemma probs_total_layout: "literal_base + LITERAL_CODERS_MAX * LITERAL_CODER_SIZE = PROBS_TOTAL"
  by (simp add: layout)

section \<open>The code\<close>

definition lzma_bit ::
  "mem \<Rightarrow> xz_dec_lzma2 \<Rightarrow> prob_ptr \<Rightarrow> nat \<Rightarrow> (bool \<times> xz_dec_lzma2) option" where
  \<comment> \<open>\<open>rc_bit(&s->rc, &p[i])\<close>\<close>
  "lzma_bit m s p i = do {
     (bit, rc, pr) \<leftarrow> rc_bit m (s_rc s) (lz_probs (s_lzma s)) p i;
     Some (bit, s\<lparr>s_rc := rc, s_lzma := (s_lzma s)\<lparr>lz_probs := pr\<rparr>\<rparr>)
   }"

definition lzma_tree ::
  "mem \<Rightarrow> xz_dec_lzma2 \<Rightarrow> prob_ptr \<Rightarrow> u32 \<Rightarrow> (u32 \<times> xz_dec_lzma2) option" where
  \<comment> \<open>\<open>rc_bittree(&s->rc, p, limit)\<close>\<close>
  "lzma_tree m s p limit = do {
     (symbol, rc, pr) \<leftarrow> rc_bittree m (s_rc s) (lz_probs (s_lzma s)) p limit;
     Some (symbol, s\<lparr>s_rc := rc, s_lzma := (s_lzma s)\<lparr>lz_probs := pr\<rparr>\<rparr>)
   }"

definition lzma_literal_probs :: "mem \<Rightarrow> xz_dec_lzma2 \<Rightarrow> prob_ptr option" where
  "lzma_literal_probs m s = do {
     prev_byte \<leftarrow> dict_get m (s_dict s) 0;
     let low = drop_bit (u32_sub 8 (lz_lc (s_lzma s))) (unat prev_byte);
     let high = u32_of (push_bit (lz_lc (s_lzma s)) (d_pos (s_dict s) AND literal_pos_mask (s_lzma s)));
     Some (prob_row literal_base LITERAL_CODERS_MAX LITERAL_CODER_SIZE (u32_add low high))
   }"

partial_function (option) lzma_literal_matched ::
  "mem \<Rightarrow> prob_ptr \<Rightarrow> xz_dec_lzma2 \<Rightarrow> u32 \<Rightarrow> u32 \<Rightarrow> u32 \<Rightarrow> (u32 \<times> xz_dec_lzma2) option" where
  \<comment> \<open>the \<open>do ... while (symbol < 0x100)\<close> of \<open>lzma_literal\<close>\<close>
  "lzma_literal_matched m probs s symbol match_byte offset = do {
     let match_bit = match_byte AND offset;
     let match_byte = push_bit 1 match_byte;
     let i = offset + match_bit + symbol;
     (bit, s) \<leftarrow> lzma_bit m s probs (unat i);
     let symbol = (if bit then push_bit 1 symbol + 1 else push_bit 1 symbol);
     let offset = (if bit then offset AND match_bit else offset AND NOT match_bit);
     if symbol < 0x100 then lzma_literal_matched m probs s symbol match_byte offset
     else Some (symbol, s)
   }"

definition lzma_literal :: "mem \<Rightarrow> xz_dec_lzma2 \<Rightarrow> (xz_dec_lzma2 \<times> mem) option" where
  "lzma_literal m s = do {
     probs \<leftarrow> lzma_literal_probs m s;
     (symbol, s) \<leftarrow>
       (if lzma_state_is_literal (lz_state (s_lzma s)) then lzma_tree m s probs 0x100
        else do {
          match_byte \<leftarrow> dict_get m (s_dict s) (unat (rep0 (s_lzma s)));
          lzma_literal_matched m probs s 1 (push_bit 1 match_byte) 0x100
        });
     (dict, m) \<leftarrow> dict_put m (s_dict s) (ucast symbol);
     Some (s\<lparr>s_dict := dict,
             s_lzma := (s_lzma s)\<lparr>lz_state := lzma_state_literal (lz_state (s_lzma s))\<rparr>\<rparr>, m)
   }"

definition set_len :: "nat \<Rightarrow> xz_dec_lzma2 \<Rightarrow> xz_dec_lzma2" where
  "set_len n s = s\<lparr>s_lzma := (s_lzma s)\<lparr>lz_len := n\<rparr>\<rparr>"

definition lzma_len :: "mem \<Rightarrow> xz_dec_lzma2 \<Rightarrow> nat \<Rightarrow> nat \<Rightarrow> xz_dec_lzma2 option" where
  \<comment> \<open>\<open>l\<close> is the base of the length decoder\<close>
  "lzma_len m s l pos_state = do {
     (bit, s) \<leftarrow> lzma_bit m s (prob_row (l + len_choice) 1 1 0) 0;
     (probs, limit, s) \<leftarrow>
       (if \<not> bit then
          Some (prob_row (l + len_low) POS_STATES_MAX LEN_LOW_SYMBOLS pos_state, LEN_LOW_SYMBOLS,
                set_len MATCH_LEN_MIN s)
        else do {
          (bit, s) \<leftarrow> lzma_bit m s (prob_row (l + len_choice2) 1 1 0) 0;
          if \<not> bit then
            Some (prob_row (l + len_mid) POS_STATES_MAX LEN_MID_SYMBOLS pos_state, LEN_MID_SYMBOLS,
                  set_len (MATCH_LEN_MIN + LEN_LOW_SYMBOLS) s)
          else
            Some (prob_row (l + len_high) 1 LEN_HIGH_SYMBOLS 0, LEN_HIGH_SYMBOLS,
                  set_len (MATCH_LEN_MIN + LEN_LOW_SYMBOLS + LEN_MID_SYMBOLS) s)
        });
     (symbol, s) \<leftarrow> lzma_tree m s probs (word_of_nat limit);
     Some (set_len (u32_add (lz_len (s_lzma s)) (u32_sub (unat symbol) limit)) s)
   }"

definition lzma_reverse ::
  "mem \<Rightarrow> xz_dec_lzma2 \<Rightarrow> prob_ptr \<Rightarrow> nat \<Rightarrow> xz_dec_lzma2 option" where
  \<comment> \<open>\<open>rc_bittree_reverse(&s->rc, p, &s->lzma.rep0, limit)\<close>\<close>
  "lzma_reverse m s p limit = do {
     (dest, rc, pr) \<leftarrow> rc_bittree_reverse m (s_rc s) (lz_probs (s_lzma s)) p (rep0 (s_lzma s)) limit;
     Some (s\<lparr>s_rc := rc, s_lzma := (s_lzma s)\<lparr>lz_probs := pr, rep0 := dest\<rparr>\<rparr>)
   }"

definition set_rep0 :: "u32 \<Rightarrow> xz_dec_lzma2 \<Rightarrow> xz_dec_lzma2" where
  "set_rep0 d s = s\<lparr>s_lzma := (s_lzma s)\<lparr>rep0 := d\<rparr>\<rparr>"

definition lzma_distance :: "mem \<Rightarrow> xz_dec_lzma2 \<Rightarrow> nat \<Rightarrow> xz_dec_lzma2 option" where
  \<comment> \<open>the part of \<open>lzma_match\<close> after \<open>dist_slot\<close> is known\<close>
  "lzma_distance m s dist_slot =
     (if dist_slot < DIST_MODEL_START then Some (set_rep0 (word_of_nat dist_slot) s)
      else
        let limit = u32_sub (dist_slot div 2) 1;
            s = set_rep0 (word_of_nat (2 + dist_slot mod 2)) s
        in if dist_slot < DIST_MODEL_END then
             let s = set_rep0 (push_bit limit (rep0 (s_lzma s))) s;
                 probs = \<lparr>pp_addr = dist_special_base + unat (rep0 (s_lzma s)) - dist_slot - 1,
                          pp_lo = dist_special_base,
                          pp_hi = dist_special_base + (FULL_DISTANCES - DIST_MODEL_END)\<rparr>
             in lzma_reverse m s probs limit
           else do {
             (dest, rc) \<leftarrow> rc_direct m (s_rc s) (rep0 (s_lzma s)) (u32_sub limit ALIGN_BITS);
             let s = set_rep0 (push_bit ALIGN_BITS dest) (s\<lparr>s_rc := rc\<rparr>);
             lzma_reverse m s (prob_row dist_align_base 1 ALIGN_SIZE 0) ALIGN_BITS
           })"

definition lzma_match :: "mem \<Rightarrow> xz_dec_lzma2 \<Rightarrow> nat \<Rightarrow> xz_dec_lzma2 option" where
  "lzma_match m s pos_state = do {
     let l = s_lzma s;
     let s = s\<lparr>s_lzma := l\<lparr>lz_state := lzma_state_match (lz_state l),
                           rep3 := rep2 l, rep2 := rep1 l, rep1 := rep0 l\<rparr>\<rparr>;
     s \<leftarrow> lzma_len m s match_len_dec_base pos_state;
     let probs = prob_row dist_slot_base DIST_STATES DIST_SLOTS (lzma_get_dist_state (lz_len (s_lzma s)));
     (symbol, s) \<leftarrow> lzma_tree m s probs (word_of_nat DIST_SLOTS);
     let dist_slot = u32_sub (unat symbol) DIST_SLOTS;
     lzma_distance m s dist_slot
   }"

definition lzma_rep_match :: "mem \<Rightarrow> xz_dec_lzma2 \<Rightarrow> nat \<Rightarrow> xz_dec_lzma2 option" where
  "lzma_rep_match m s pos_state = do {
     let st = lzma_state_val (lz_state (s_lzma s));
     (bit, s) \<leftarrow> lzma_bit m s (prob_row is_rep0_base 1 STATES 0) st;
     (short, s) \<leftarrow>
       (if \<not> bit then do {
          (bit, s) \<leftarrow> lzma_bit m s (prob_row is_rep0_long_base STATES POS_STATES_MAX st) pos_state;
          if \<not> bit then
            Some (True, set_len 1 (s\<lparr>s_lzma := (s_lzma s)\<lparr>lz_state := lzma_state_short_rep (lz_state (s_lzma s))\<rparr>\<rparr>))
          else Some (False, s)
        } else do {
          (bit, s) \<leftarrow> lzma_bit m s (prob_row is_rep1_base 1 STATES 0) st;
          (tmp, s) \<leftarrow>
            (if \<not> bit then Some (rep1 (s_lzma s), s)
             else do {
               (bit, s) \<leftarrow> lzma_bit m s (prob_row is_rep2_base 1 STATES 0) st;
               let l = s_lzma s;
               let (tmp, l) = (if \<not> bit then (rep2 l, l) else (rep3 l, l\<lparr>rep3 := rep2 l\<rparr>));
               Some (tmp, s\<lparr>s_lzma := l\<lparr>rep2 := rep1 l\<rparr>\<rparr>)
             });
          let l = s_lzma s;
          Some (False, s\<lparr>s_lzma := l\<lparr>rep1 := rep0 l, rep0 := tmp\<rparr>\<rparr>)
        });
     if short then Some s
     else do {
       let s = s\<lparr>s_lzma := (s_lzma s)\<lparr>lz_state := lzma_state_long_rep (lz_state (s_lzma s))\<rparr>\<rparr>;
       lzma_len m s rep_len_dec_base pos_state
     }
   }"

definition lzma_repeat :: "mem \<Rightarrow> xz_dec_lzma2 \<Rightarrow> (bool \<times> xz_dec_lzma2 \<times> mem) option" where
  \<comment> \<open>\<open>dict_repeat(&s->dict, &s->lzma.len, s->lzma.rep0)\<close>\<close>
  "lzma_repeat m s = do {
     (res, len, dict, m) \<leftarrow> dict_repeat m (s_dict s) (lz_len (s_lzma s)) (unat (rep0 (s_lzma s)));
     Some (res, set_len len (s\<lparr>s_dict := dict\<rparr>), m)
   }"

definition lzma_symbol :: "mem \<Rightarrow> xz_dec_lzma2 \<Rightarrow> (bool \<times> xz_dec_lzma2 \<times> mem) option" where
  \<comment> \<open>the body of the loop of \<open>lzma_main\<close>; \<open>False\<close> is its \<open>return false\<close>\<close>
  "lzma_symbol m s = do {
     let pos_state = d_pos (s_dict s) AND pos_mask (s_lzma s);
     let st = lzma_state_val (lz_state (s_lzma s));
     (bit, s) \<leftarrow> lzma_bit m s (prob_row is_match_base STATES POS_STATES_MAX st) pos_state;
     if \<not> bit then do {
       (s, m) \<leftarrow> lzma_literal m s;
       Some (True, s, m)
     } else do {
       (bit, s) \<leftarrow> lzma_bit m s (prob_row is_rep_base 1 STATES 0) st;
       s \<leftarrow> (if bit then lzma_rep_match m s pos_state else lzma_match m s pos_state);
       lzma_repeat m s
     }
   }"

partial_function (option) lzma_symbols :: "mem \<Rightarrow> xz_dec_lzma2 \<Rightarrow> (bool \<times> xz_dec_lzma2 \<times> mem) option" where
  "lzma_symbols m s =
     (if dict_has_space (s_dict s) \<and> \<not> rc_limit_exceeded (s_rc s) then do {
        (res, s, m) \<leftarrow> lzma_symbol m s;
        if \<not> res then Some (False, s, m) else lzma_symbols m s
      }
      else Some (True, s, m))"

definition lzma_main :: "mem \<Rightarrow> xz_dec_lzma2 \<Rightarrow> (bool \<times> xz_dec_lzma2 \<times> mem) option" where
  "lzma_main m s = do {
     (s, m) \<leftarrow>
       (if dict_has_space (s_dict s) \<and> lz_len (s_lzma s) > 0
        then do { (res, s, m) \<leftarrow> lzma_repeat m s; Some (s, m) }
        else Some (s, m));
     (res, s, m) \<leftarrow> lzma_symbols m s;
     if \<not> res then Some (False, s, m)
     else do {
       rc \<leftarrow> rc_normalize m (s_rc s);
       Some (True, s\<lparr>s_rc := rc\<rparr>, m)
     }
   }"

definition lzma_reset :: "xz_dec_lzma2 \<Rightarrow> xz_dec_lzma2" where
  "lzma_reset s =
     s\<lparr>s_lzma := (s_lzma s)\<lparr>lz_state := STATE_LIT_LIT, rep0 := 0, rep1 := 0, rep2 := 0, rep3 := 0, lz_len := 0,
                  lz_probs := (\<lambda>i. if i < PROBS_TOTAL then word_of_int (RC_BIT_MODEL_TOTAL div 2)
                                   else lz_probs (s_lzma s) i)\<rparr>,
       s_rc := rc_reset (s_rc s)\<rparr>"

function props_count :: "nat \<Rightarrow> nat \<Rightarrow> nat \<Rightarrow> nat \<times> nat" where
  \<comment> \<open>\<open>while (props >= k) { props -= k; ++n; }\<close>\<close>
  "props_count k props n =
     (if props \<ge> k \<and> k > 0 then props_count k (props - k) (u32_add n 1) else (props, n))"
  by pat_completeness auto

termination
  by (relation "measure (\<lambda>(k, props, n). props)") auto

definition lzma_props :: "xz_dec_lzma2 \<Rightarrow> u8 \<Rightarrow> bool \<times> xz_dec_lzma2" where
  "lzma_props s props =
     (if unat props > (4 * 5 + 4) * 9 + 8 then (False, s)
      else
        let (props, pb) = props_count (9 * 5) (unat props) 0;
            l = (s_lzma s)\<lparr>pos_mask := 2 ^ pb - 1\<rparr>;
            (props, lp) = props_count 9 props 0;
            l = l\<lparr>literal_pos_mask := lp, lz_lc := props\<rparr>
        in if u32_add (lz_lc l) (literal_pos_mask l) > 4 then (False, s\<lparr>s_lzma := l\<rparr>)
           else (True, lzma_reset (s\<lparr>s_lzma := l\<lparr>literal_pos_mask := 2 ^ literal_pos_mask l - 1\<rparr>\<rparr>)))"

section \<open>Progress of one symbol\<close>

text \<open>
  \<open>sreach np nd s0 s\<close>: since the start \<open>s0\<close> of the symbol the decoder has taken
  \<open>np\<close> modelled and \<open>nd\<close> direct bits, and nothing but the range decoder, the
  probabilities, the distances, the length and the symbol history has changed.
\<close>

definition lz_view :: "lzma_dec \<Rightarrow> lzma_state \<times> u32 list \<times> nat" where
  "lz_view l = (lz_state l, [rep0 l, rep1 l, rep2 l, rep3 l], lz_len l)"

definition sreach :: "nat \<Rightarrow> nat \<Rightarrow> xz_dec_lzma2 \<Rightarrow> xz_dec_lzma2 \<Rightarrow> bool" where
  "sreach np nd s0 s \<longleftrightarrow>
     rc_reach np nd (s_rc s0) (s_rc s) \<and> probs_ok (lz_probs (s_lzma s)) \<and>
     s_dict s = s_dict s0 \<and> s_lzma2 s = s_lzma2 s0 \<and> temp_size s = temp_size s0 \<and>
     lz_lc (s_lzma s) = lz_lc (s_lzma s0) \<and> literal_pos_mask (s_lzma s) = literal_pos_mask (s_lzma s0) \<and>
     pos_mask (s_lzma s) = pos_mask (s_lzma s0)"

lemma sreach_more: "sreach np nd s0 s \<Longrightarrow> np \<le> np' \<Longrightarrow> nd \<le> nd' \<Longrightarrow> sreach np' nd' s0 s"
  by (auto simp: sreach_def intro: rc_reach_more)

lemma sreach_upd:
  "s_rc s' = s_rc s \<Longrightarrow> s_dict s' = s_dict s \<Longrightarrow> s_lzma2 s' = s_lzma2 s \<Longrightarrow> temp_size s' = temp_size s \<Longrightarrow>
   lz_probs (s_lzma s') = lz_probs (s_lzma s) \<Longrightarrow> lz_lc (s_lzma s') = lz_lc (s_lzma s) \<Longrightarrow>
   literal_pos_mask (s_lzma s') = literal_pos_mask (s_lzma s) \<Longrightarrow> pos_mask (s_lzma s') = pos_mask (s_lzma s) \<Longrightarrow>
   sreach np nd s0 s' = sreach np nd s0 s"
  by (simp add: sreach_def)

lemma sreach_set [simp]:
  "sreach np nd s0 (set_len n s) = sreach np nd s0 s"
  "sreach np nd s0 (set_rep0 d s) = sreach np nd s0 s"
  "sreach np nd s0 (s\<lparr>s_lzma := (s_lzma s)\<lparr>lz_state := st\<rparr>\<rparr>) = sreach np nd s0 s"
  by (rule sreach_upd; simp add: set_len_def set_rep0_def)+

lemma set_sel [simp]:
  "lz_len (s_lzma (set_len n s)) = n" "lz_state (s_lzma (set_len n s)) = lz_state (s_lzma s)"
  "rep0 (s_lzma (set_len n s)) = rep0 (s_lzma s)" "rep1 (s_lzma (set_len n s)) = rep1 (s_lzma s)"
  "rep2 (s_lzma (set_len n s)) = rep2 (s_lzma s)" "rep3 (s_lzma (set_len n s)) = rep3 (s_lzma s)"
  "lz_len (s_lzma (set_rep0 d s)) = lz_len (s_lzma s)" "lz_state (s_lzma (set_rep0 d s)) = lz_state (s_lzma s)"
  "rep0 (s_lzma (set_rep0 d s)) = d" "rep1 (s_lzma (set_rep0 d s)) = rep1 (s_lzma s)"
  "rep2 (s_lzma (set_rep0 d s)) = rep2 (s_lzma s)" "rep3 (s_lzma (set_rep0 d s)) = rep3 (s_lzma s)"
  by (simp_all add: set_len_def set_rep0_def)

lemma set_frame [simp]:
  "s_dict (set_len n s) = s_dict s" "s_rc (set_len n s) = s_rc s" "s_lzma2 (set_len n s) = s_lzma2 s"
  "temp_size (set_len n s) = temp_size s" "lz_probs (s_lzma (set_len n s)) = lz_probs (s_lzma s)"
  "s_dict (set_rep0 d s) = s_dict s" "s_rc (set_rep0 d s) = s_rc s" "s_lzma2 (set_rep0 d s) = s_lzma2 s"
  "temp_size (set_rep0 d s) = temp_size s" "lz_probs (s_lzma (set_rep0 d s)) = lz_probs (s_lzma s)"
  by (simp_all add: set_len_def set_rep0_def)

lemma view_sel:
  assumes "lz_view l' = lz_view l"
  shows "lz_state l' = lz_state l" "lz_len l' = lz_len l"
    and "rep0 l' = rep0 l" "rep1 l' = rep1 l" "rep2 l' = rep2 l" "rep3 l' = rep3 l"
  using assms by (simp_all add: lz_view_def)

lemma row_bound: "r < rows \<Longrightarrow> base + r * cols + cols \<le> base + rows * (cols :: nat)"
  using mult_le_mono1 [of "Suc r" rows cols] by simp

lemma row_index:
  "r < rows \<Longrightarrow> i < cols \<Longrightarrow> prob_index (prob_row base rows cols r) i = Some (base + r * cols + i)"
  by (simp add: prob_index_def prob_row_def)

lemma row_ok:
  "r < rows \<Longrightarrow> base + rows * cols \<le> PROBS_TOTAL \<Longrightarrow> prob_ptr_ok (prob_row base rows cols r) cols"
  using row_bound [of r rows base cols] by (simp add: prob_ptr_ok_def prob_row_def)

lemma lzma_bitI:
  assumes "sreach np nd s0 s" and "bits_ok np nd" and "rc_room m (s_rc s0) 20"
    and "r < rows" and "i < cols" and "base + rows * cols \<le> PROBS_TOTAL"
    and "\<And>bit s'. sreach (Suc np) nd s0 s' \<Longrightarrow> lz_view (s_lzma s') = lz_view (s_lzma s) \<Longrightarrow> Q (bit, s')"
  shows "ok (lzma_bit m s (prob_row base rows cols r) i) Q"
proof -
  have "base + r * cols + i < PROBS_TOTAL"
    using row_bound [OF assms(4), of base cols] assms(5,6) by linarith
  then have "ok (rc_bit m (s_rc s) (lz_probs (s_lzma s)) (prob_row base rows cols r) i)
      (\<lambda>(bit, r', pr'). rc_reach (Suc np) nd (s_rc s0) r' \<and> probs_ok pr')"
    using assms(1-6) by (intro ok_rc_bit_at [OF _ _ _ _ row_index]) (auto simp: sreach_def)
  then show ?thesis
    unfolding lzma_bit_def
    by (rule ok_bindI) (use assms(1) in \<open>auto simp: sreach_def lz_view_def intro!: assms(7)\<close>)
qed

lemma lzma_treeI:
  assumes "sreach np nd s0 s" and "bits_ok (np + n - 1) nd" and "rc_room m (s_rc s0) 20"
    and "prob_ptr_ok p (2 ^ n)" and "0 < n" and "n < 31" and "unat limit = 2 ^ n"
    and "\<And>symbol s'. sreach (np + n) nd s0 s' \<Longrightarrow> lz_view (s_lzma s') = lz_view (s_lzma s) \<Longrightarrow>
           2 ^ n \<le> unat symbol \<Longrightarrow> unat symbol < 2 ^ Suc n \<Longrightarrow> Q (symbol, s')"
  shows "ok (lzma_tree m s p limit) Q"
proof -
  have "ok (rc_bittree m (s_rc s) (lz_probs (s_lzma s)) p limit) (\<lambda>(symbol, r', pr').
      rc_reach (np + n) nd (s_rc s0) r' \<and> probs_ok pr' \<and> 2 ^ n \<le> unat symbol \<and> unat symbol < 2 ^ Suc n)"
    using assms(1-7) by (intro ok_bittree) (auto simp: sreach_def)
  then show ?thesis
    unfolding lzma_tree_def
    by (rule ok_bindI) (use assms(1) in \<open>auto simp: sreach_def lz_view_def intro!: assms(8)\<close>)
qed

lemma lzma_reverseI:
  assumes "sreach np nd s0 s" and "bits_ok (np + n - 1) nd" and "rc_room m (s_rc s0) 20"
    and "prob_ptr_ok p (2 ^ n)" and "0 < n" and "n < 31"
    and "\<And>d s'. sreach (np + n) nd s0 s' \<Longrightarrow> lz_view (s_lzma s') = lz_view (s_lzma (set_rep0 d s)) \<Longrightarrow> Q s'"
  shows "ok (lzma_reverse m s p n) Q"
proof -
  have "ok (rc_bittree_reverse m (s_rc s) (lz_probs (s_lzma s)) p (rep0 (s_lzma s)) n) (\<lambda>(dest, r', pr').
      rc_reach (np + n) nd (s_rc s0) r' \<and> probs_ok pr')"
    using assms(1-6) by (intro ok_bittree_reverse) (auto simp: sreach_def)
  then show ?thesis
    unfolding lzma_reverse_def
    by (rule ok_bindI)
       (use assms(1) in \<open>auto simp: sreach_def lz_view_def set_rep0_def intro!: assms(7)\<close>)
qed

text \<open>A length is between 2 and 273 and takes at most ten modelled bits.\<close>

lemma lzma_lenI:
  assumes "sreach np nd s0 s" and "bits_ok (np + 9) nd" and "rc_room m (s_rc s0) 20"
    and "l + len_dec_size \<le> PROBS_TOTAL" and "pos_state < POS_STATES_MAX"
    and "\<And>n s'. sreach (np + 10) nd s0 s' \<Longrightarrow> 2 \<le> n \<Longrightarrow> n \<le> 273 \<Longrightarrow>
           lz_view (s_lzma s') = lz_view (s_lzma (set_len n s)) \<Longrightarrow> Q s'"
  shows "ok (lzma_len m s l pos_state) Q"
proof -
  have size: "l + 514 \<le> PROBS_TOTAL" and ps: "pos_state < 16"
    using assms(4,5) by (simp_all add: layout)
  have tree: "ok (do { (symbol, s) \<leftarrow> lzma_tree m (set_len k s1) (prob_row (l + off) rows (2 ^ n) i) (word_of_nat (2 ^ n));
      Some (set_len (u32_add (lz_len (s_lzma s)) (u32_sub (unat symbol) (2 ^ n))) s) }) Q"
    if "sreach np1 nd s0 s1" "lz_view (s_lzma s1) = lz_view (s_lzma s)" "np1 + n \<le> np + 10" "0 < n" "n \<le> 8"
      "i < rows" "off + rows * 2 ^ n \<le> 514" "2 \<le> k" "k + 2 ^ n \<le> 274" for np1 s1 k off rows n i
  proof -
    have len: "unat (word_of_nat (2 ^ n) :: u32) = 2 ^ n"
    proof -
      have "(2 :: nat) ^ n \<le> 2 ^ 8" using that(5) by (intro power_increasing) auto
      then show ?thesis unfolding unat_of_nat by simp
    qed
    have bits: "bits_ok (np1 + n - 1) nd" using that assms(2) by (auto intro: bits_ok_mono)
    have ptr: "prob_ptr_ok (prob_row (l + off) rows (2 ^ n) i) (2 ^ n)"
      using that size by (intro row_ok) auto
    show ?thesis
      unfolding ok_bind
    proof (rule lzma_treeI [where s = "set_len k s1" and n = n and np = np1 and nd = nd and ?s0.0 = s0])
      fix symbol s'
      assume s': "sreach (np1 + n) nd s0 s'" "lz_view (s_lzma s') = lz_view (s_lzma (set_len k s1))"
        and sym: "2 ^ n \<le> unat symbol" "unat symbol < 2 ^ Suc n"
      have "lz_len (s_lzma s') = k" using s'(2) by (simp add: lz_view_def)
      moreover have "u32_add k (unat symbol - 2 ^ n) = k + (unat symbol - 2 ^ n)"
        using sym that(9) by (intro u32_add_fits) simp
      moreover have "Q (set_len (k + (unat symbol - 2 ^ n)) s')"
        using s' sym that(2,3,8,9) by (intro assms(6)) (auto simp: lz_view_def intro: sreach_more)
      ultimately show "ok (case (symbol, s') of (symbol, s) \<Rightarrow>
          Some (set_len (u32_add (lz_len (s_lzma s)) (u32_sub (unat symbol) (2 ^ n))) s)) Q"
        using sym by simp
    qed (use that bits ptr len assms(3) in auto)
  qed
  have powers: "LEN_LOW_SYMBOLS = 2 ^ 3" "LEN_MID_SYMBOLS = 2 ^ 3" "LEN_HIGH_SYMBOLS = 2 ^ 8"
    by (simp_all add: lzma_consts)
  have offs: "len_choice = 0" "len_choice2 = 1" "len_low = 2" "len_mid = 130" "len_high = 258"
    "POS_STATES_MAX = 16" "MATCH_LEN_MIN = 2"
    by (simp_all add: layout)
  show ?thesis
    unfolding lzma_len_def powers offs
  proof (subst ok_bind, rule lzma_bitI [OF assms(1) _ assms(3)])
    fix bit s1 assume s1: "sreach (Suc np) nd s0 s1" "lz_view (s_lzma s1) = lz_view (s_lzma s)"
    have low: "ok (do { (symbol, s) \<leftarrow> lzma_tree m (set_len 2 s1) (prob_row (l + 2) 16 (2 ^ 3) pos_state) (word_of_nat (2 ^ 3));
      Some (set_len (u32_add (lz_len (s_lzma s)) (u32_sub (unat symbol) (2 ^ 3))) s) }) Q"
      using s1 ps by (intro tree) auto
    show "ok (case (bit, s1) of (bit, s) \<Rightarrow> do {
       (probs, limit, s) \<leftarrow>
         (if \<not> bit then Some (prob_row (l + 2) 16 (2 ^ 3) pos_state, 2 ^ 3, set_len 2 s)
          else do {
            (bit, s) \<leftarrow> lzma_bit m s (prob_row (l + 1) 1 1 0) 0;
            if \<not> bit then Some (prob_row (l + 130) 16 (2 ^ 3) pos_state, 2 ^ 3, set_len (2 + 2 ^ 3) s)
            else Some (prob_row (l + 258) 1 (2 ^ 8) 0, 2 ^ 8, set_len (2 + 2 ^ 3 + 2 ^ 3) s) });
       (symbol, s) \<leftarrow> lzma_tree m s probs (word_of_nat limit);
       Some (set_len (u32_add (lz_len (s_lzma s)) (u32_sub (unat symbol) limit)) s) }) Q"
    proof (cases bit)
      case False
      with low show ?thesis by simp
    next
      case True
      have "ok (lzma_bit m s1 (prob_row (l + 1) 1 1 0) 0) (\<lambda>(bit, s).
          sreach (Suc (Suc np)) nd s0 s \<and> lz_view (s_lzma s) = lz_view (s_lzma s1))"
        by (rule lzma_bitI [OF s1(1) _ assms(3)]) (use size assms(2) in \<open>auto intro: bits_ok_mono\<close>)
      then obtain bit2 s2 where b2: "lzma_bit m s1 (prob_row (l + 1) 1 1 0) 0 = Some (bit2, s2)"
          and s2: "sreach (Suc (Suc np)) nd s0 s2" "lz_view (s_lzma s2) = lz_view (s_lzma s)"
        using s1(2) by (auto simp: ok_iff)
      have mid: "ok (do { (symbol, s) \<leftarrow> lzma_tree m (set_len 10 s2) (prob_row (l + 130) 16 (2 ^ 3) pos_state) (word_of_nat (2 ^ 3));
        Some (set_len (u32_add (lz_len (s_lzma s)) (u32_sub (unat symbol) (2 ^ 3))) s) }) Q"
        using s2 ps by (intro tree) auto
      have high: "ok (do { (symbol, s) \<leftarrow> lzma_tree m (set_len 18 s2) (prob_row (l + 258) 1 (2 ^ 8) 0) (word_of_nat (2 ^ 8));
        Some (set_len (u32_add (lz_len (s_lzma s)) (u32_sub (unat symbol) (2 ^ 8))) s) }) Q"
        using s2 ps by (intro tree) auto
      show ?thesis
        using True mid high by (cases bit2) (simp_all add: b2 [simplified])
    qed
  qed (use size assms(2) in \<open>auto intro: bits_ok_mono\<close>)
qed

section \<open>What a symbol means\<close>

text \<open>
  The specification of the symbols: the state machine, the list of the four latest
  distances, and the length still to be copied. A match puts its distance in front of the
  list; a repeated match moves the distance it names to the front.
\<close>

datatype lz_op =
    Op_Literal u8
  | Op_Match u32 nat
  | Op_Rep nat nat
  | Op_Short_Rep

definition move_to_front :: "nat \<Rightarrow> 'a list \<Rightarrow> 'a list" where
  "move_to_front i xs = xs ! i # take i xs @ drop (Suc i) xs"

fun op_view :: "lz_op \<Rightarrow> lzma_state \<times> u32 list \<times> nat \<Rightarrow> lzma_state \<times> u32 list \<times> nat" where
  "op_view (Op_Literal b) (st, reps, len) = (lzma_state_literal st, reps, len)"
| "op_view (Op_Match d n) (st, reps, len) = (lzma_state_match st, d # butlast reps, n)"
| "op_view (Op_Rep i n) (st, reps, len) = (lzma_state_long_rep st, move_to_front i reps, n)"
| "op_view Op_Short_Rep (st, reps, len) = (lzma_state_short_rep st, reps, 1)"

fun op_valid :: "lz_op \<Rightarrow> bool" where
  "op_valid (Op_Literal b) = True"
| "op_valid (Op_Match d n) = (2 \<le> n \<and> n \<le> 273)"
| "op_valid (Op_Rep i n) = (i < 4 \<and> 2 \<le> n \<and> n \<le> 273)"
| "op_valid Op_Short_Rep = True"

lemma lzma_bit_result:
  assumes "sreach np nd s0 s" and "bits_ok np nd" and "rc_room m (s_rc s0) 20"
    and "r < rows" and "i < cols" and "base + rows * cols \<le> PROBS_TOTAL"
  obtains bit s' where "lzma_bit m s (prob_row base rows cols r) i = Some (bit, s')"
    and "sreach (Suc np) nd s0 s'" and "lz_view (s_lzma s') = lz_view (s_lzma s)"
proof -
  have "ok (lzma_bit m s (prob_row base rows cols r) i)
      (\<lambda>(bit, s'). sreach (Suc np) nd s0 s' \<and> lz_view (s_lzma s') = lz_view (s_lzma s))"
    using assms by (rule lzma_bitI) simp
  with that show thesis by (auto simp: ok_iff)
qed

lemma special_cases:
  assumes "4 \<le> slot" and "slot < (14 :: nat)"
  shows "slot = 4 \<or> slot = 5 \<or> slot = 6 \<or> slot = 7 \<or> slot = 8 \<or> slot = 9 \<or> slot = 10
    \<or> slot = 11 \<or> slot = 12 \<or> slot = 13"
  using assms by presburger

lemma special_ptr:
  assumes "4 \<le> slot" and "slot < 14"
  defines "limit \<equiv> slot div 2 - 1"
  defines "p \<equiv> \<lparr>pp_addr = dist_special_base + unat (push_bit limit (word_of_nat (2 + slot mod 2) :: u32)) - slot - 1,
                 pp_lo = dist_special_base, pp_hi = dist_special_base + (FULL_DISTANCES - DIST_MODEL_END)\<rparr>"
  shows "prob_ptr_ok p (2 ^ limit) \<and> 0 < limit \<and> limit \<le> 5"
  using special_cases [OF assms(1,2)] unfolding p_def limit_def
  by (elim disjE; simp add: prob_ptr_ok_def layout)

lemma lzma_distanceI:
  assumes "sreach 18 0 s0 s" and "rc_room m (s_rc s0) 20" and "slot < 64"
    and "\<And>np nd d s'. sreach np nd s0 s' \<Longrightarrow> lz_view (s_lzma s') = lz_view (s_lzma (set_rep0 d s)) \<Longrightarrow> Q s'"
  shows "ok (lzma_distance m s slot) Q"
proof (cases "slot < 4")
  case True
  then have "lzma_distance m s slot = Some (set_rep0 (word_of_nat slot) s)"
    by (simp add: lzma_distance_def lzma_consts)
  moreover have "Q (set_rep0 (word_of_nat slot) s)"
    by (rule assms(4) [OF _ refl], subst sreach_set(2), rule assms(1))
  ultimately show ?thesis by simp
next
  case False
  define limit where "limit = slot div 2 - 1"
  have limit: "u32_sub (slot div 2) 1 = limit" "limit \<le> 30"
    using False assms(3) by (auto simp: limit_def)
  let ?r = "word_of_nat (2 + slot mod 2) :: u32"
  let ?s = "set_rep0 ?r s"
  show ?thesis
  proof (cases "slot < 14")
    case True
    let ?s1 = "set_rep0 (push_bit limit ?r) ?s"
    let ?p = "\<lparr>pp_addr = dist_special_base + unat (push_bit limit ?r) - slot - 1, pp_lo = dist_special_base,
               pp_hi = dist_special_base + (FULL_DISTANCES - DIST_MODEL_END)\<rparr>"
    have ptr: "prob_ptr_ok ?p (2 ^ limit)" "0 < limit" "limit \<le> 5"
      using special_ptr [of slot] False True by (simp_all add: limit_def)
    have "lzma_distance m s slot = lzma_reverse m ?s1 ?p limit"
      using False True unfolding lzma_distance_def Let_def limit by (simp add: lzma_consts)
    moreover have "ok (lzma_reverse m ?s1 ?p limit) Q"
    proof (rule lzma_reverseI [where np = 18 and nd = 0])
      show "bits_ok (18 + limit - 1) 0" using ptr by (simp add: bits_ok_def)
      fix d s' assume "sreach (18 + limit) 0 s0 s'" "lz_view (s_lzma s') = lz_view (s_lzma (set_rep0 d ?s1))"
      then show "Q s'" by (intro assms(4)) (auto simp: lz_view_def)
    qed (use assms(1,2) ptr in auto)
    ultimately show ?thesis by simp
  next
    case False
    then have big: "6 \<le> limit" by (simp add: limit_def)
    have "ok (rc_direct m (s_rc ?s) ?r (limit - 4)) (\<lambda>(dest, r'). rc_reach 18 (0 + (limit - 4)) (s_rc s0) r')"
      using assms(1,2) big limit
      by (intro ok_rc_direct) (auto simp: sreach_def set_rep0_def bits_ok_def)
    then obtain dest rc where direct: "rc_direct m (s_rc ?s) ?r (limit - 4) = Some (dest, rc)"
        and rc: "rc_reach 18 (limit - 4) (s_rc s0) rc"
      by (auto simp: ok_iff)
    let ?s1 = "set_rep0 (push_bit ALIGN_BITS dest) (?s\<lparr>s_rc := rc\<rparr>)"
    have s1: "sreach 18 (limit - 4) s0 ?s1"
      using assms(1) rc by (simp add: sreach_def set_rep0_def)
    have "lzma_distance m s slot = lzma_reverse m ?s1 (prob_row dist_align_base 1 ALIGN_SIZE 0) ALIGN_BITS"
      using False big direct unfolding lzma_distance_def Let_def limit by (simp add: lzma_consts)
    moreover have "ok (lzma_reverse m ?s1 (prob_row dist_align_base 1 ALIGN_SIZE 0) ALIGN_BITS) Q"
    proof (rule lzma_reverseI [where np = 18 and nd = "limit - 4"])
      show "bits_ok (18 + ALIGN_BITS - 1) (limit - 4)"
        using limit(2) by (auto simp: bits_ok_def ALIGN_BITS_def)
      show "prob_ptr_ok (prob_row dist_align_base 1 ALIGN_SIZE 0) (2 ^ ALIGN_BITS)"
        using row_ok [of 0 1 dist_align_base ALIGN_SIZE] by (simp add: layout)
      fix d s' assume "sreach (18 + ALIGN_BITS) (limit - 4) s0 s'" "lz_view (s_lzma s') = lz_view (s_lzma (set_rep0 d ?s1))"
      then show "Q s'" by (intro assms(4)) (auto simp: lz_view_def set_rep0_def)
    qed (use s1 assms(2) in \<open>simp_all add: ALIGN_BITS_def\<close>)
    ultimately show ?thesis by simp
  qed
qed

lemma lzma_matchI:
  assumes "sreach 2 0 s0 s" and "rc_room m (s_rc s0) 20" and "pos_state < POS_STATES_MAX"
    and "\<And>np nd d n s'. sreach np nd s0 s' \<Longrightarrow> op_valid (Op_Match d n) \<Longrightarrow>
           lz_view (s_lzma s') = op_view (Op_Match d n) (lz_view (s_lzma s)) \<Longrightarrow> Q s'"
  shows "ok (lzma_match m s pos_state) Q"
  unfolding lzma_match_def ok_let
proof (subst ok_bind, rule lzma_lenI)
  let ?l = "s_lzma s"
  let ?s = "s\<lparr>s_lzma := ?l\<lparr>lz_state := lzma_state_match (lz_state ?l), rep3 := rep2 ?l, rep2 := rep1 ?l, rep1 := rep0 ?l\<rparr>\<rparr>"
  show "sreach 2 0 s0 ?s" using assms(1) by (simp add: sreach_def)
  show "bits_ok (2 + 9) 0" by (simp add: bits_ok_def)
  show "match_len_dec_base + len_dec_size \<le> PROBS_TOTAL" by (simp add: layout)
  show "rc_room m (s_rc s0) 20" "pos_state < POS_STATES_MAX" by fact+
  fix n s1 assume s1: "sreach (2 + 10) 0 s0 s1" and n: "2 \<le> n" "n \<le> 273"
    and "lz_view (s_lzma s1) = lz_view (s_lzma (set_len n ?s))"
  then have v1: "lz_view (s_lzma s1) = (lzma_state_match (lz_state ?l), [rep0 ?l, rep0 ?l, rep1 ?l, rep2 ?l], n)"
    by (simp add: lz_view_def)
  let ?p = "prob_row dist_slot_base DIST_STATES DIST_SLOTS (lzma_get_dist_state (lz_len (s_lzma s1)))"
  show "ok (do {
      let probs = ?p;
      (symbol, s) \<leftarrow> lzma_tree m s1 probs (word_of_nat DIST_SLOTS);
      let dist_slot = u32_sub (unat symbol) DIST_SLOTS;
      lzma_distance m s dist_slot }) Q"
    unfolding ok_let
  proof (subst ok_bind, rule lzma_treeI [where n = 6])
    show "sreach 12 0 s0 s1" using s1 by simp
    show "bits_ok (12 + 6 - 1) 0" by (simp add: bits_ok_def)
    have "lzma_get_dist_state (lz_len (s_lzma s1)) < DIST_STATES"
      using v1 n by (auto simp: lz_view_def lzma_get_dist_state_def lzma_consts)
    then show "prob_ptr_ok ?p (2 ^ 6)"
      using row_ok [of "lzma_get_dist_state (lz_len (s_lzma s1))" DIST_STATES dist_slot_base DIST_SLOTS]
      by (simp add: layout)
    show "unat (word_of_nat DIST_SLOTS :: u32) = 2 ^ 6" by (simp add: lzma_consts)
    fix symbol s2 assume s2: "sreach (12 + 6) 0 s0 s2" "lz_view (s_lzma s2) = lz_view (s_lzma s1)"
      and sym: "2 ^ 6 \<le> unat symbol" "unat symbol < 2 ^ Suc 6"
    have "ok (lzma_distance m s2 (u32_sub (unat symbol) DIST_SLOTS)) Q"
    proof (rule lzma_distanceI)
      show "sreach 18 0 s0 s2" using s2(1) by simp
      show "u32_sub (unat symbol) DIST_SLOTS < 64" using sym by (simp add: lzma_consts)
      fix np nd d s' assume s': "sreach np nd s0 s'" "lz_view (s_lzma s') = lz_view (s_lzma (set_rep0 d s2))"
      then have "lz_view (s_lzma s') = op_view (Op_Match d n) (lz_view ?l)"
        using view_sel [OF s2(2)] v1 by (simp add: lz_view_def)
      then show "Q s'" using s'(1) n by (intro assms(4)) auto
    qed fact
    then show "ok (case (symbol, s2) of (symbol, s) \<Rightarrow>
        let dist_slot = u32_sub (unat symbol) DIST_SLOTS in lzma_distance m s dist_slot) Q"
      by simp
  qed (simp_all add: assms(2))
qed

lemma rep_bases:
  "is_rep_base + 1 * STATES \<le> PROBS_TOTAL" "is_rep0_base + 1 * STATES \<le> PROBS_TOTAL"
  "is_rep1_base + 1 * STATES \<le> PROBS_TOTAL" "is_rep2_base + 1 * STATES \<le> PROBS_TOTAL"
  "is_rep0_long_base + STATES * POS_STATES_MAX \<le> PROBS_TOTAL"
  "is_match_base + STATES * POS_STATES_MAX \<le> PROBS_TOTAL"
  "rep_len_dec_base + len_dec_size \<le> PROBS_TOTAL"
  by (simp_all add: layout)

lemma lzma_rep_matchI:
  assumes "sreach 2 0 s0 s" and "rc_room m (s_rc s0) 20" and "pos_state < POS_STATES_MAX"
    and "\<And>np nd x s'. sreach np nd s0 s' \<Longrightarrow> op_valid x \<Longrightarrow> (\<exists>i n. x = Op_Rep i n) \<or> x = Op_Short_Rep \<Longrightarrow>
           lz_view (s_lzma s') = op_view x (lz_view (s_lzma s)) \<Longrightarrow> Q s'"
  shows "ok (lzma_rep_match m s pos_state) Q"
proof -
  let ?st = "lzma_state_val (lz_state (s_lzma s))" and ?l = "s_lzma s"
  have bits: "bits_ok np 0" if "np \<le> 20" for np using that by (simp add: bits_ok_def)
  note room = assms(2) and st = lzma_state_val_less [of "lz_state (s_lzma s)"]
  have len: "ok (lzma_len m s1 rep_len_dec_base pos_state) Q"
    if "sreach np 0 s0 s1" "np \<le> 5" "i < 4" "lz_view (s_lzma s1) =
        (lzma_state_long_rep (lz_state ?l), move_to_front i [rep0 ?l, rep1 ?l, rep2 ?l, rep3 ?l], k)" for np s1 i k
  proof (rule lzma_lenI [OF that(1) _ room rep_bases(7) assms(3)])
    show "bits_ok (np + 9) 0" using that(2) by (simp add: bits_ok_def)
    fix n s' assume s': "sreach (np + 10) 0 s0 s'" "2 \<le> n" "n \<le> 273" "lz_view (s_lzma s') = lz_view (s_lzma (set_len n s1))"
    then show "Q s'"
      using that(3,4) by (intro assms(4) [of "np + 10" 0 s' "Op_Rep i n"]) (auto simp: lz_view_def)
  qed
  obtain bit1 s1 where b1: "lzma_bit m s (prob_row is_rep0_base 1 STATES 0) ?st = Some (bit1, s1)"
      and s1: "sreach (Suc 2) 0 s0 s1" "lz_view (s_lzma s1) = lz_view ?l"
    using lzma_bit_result [OF assms(1) bits room _ st rep_bases(2), of 0] by auto
  note b1 = b1 [simplified] and v1 = view_sel [OF s1(2)]
  show ?thesis
  proof (cases bit1)
    case False
    obtain bit2 s2 where b2: "lzma_bit m s1 (prob_row is_rep0_long_base STATES POS_STATES_MAX ?st) pos_state = Some (bit2, s2)"
        and s2: "sreach (Suc (Suc 2)) 0 s0 s2" "lz_view (s_lzma s2) = lz_view (s_lzma s1)"
      using lzma_bit_result [OF s1(1) bits room st assms(3) rep_bases(5)] by auto
    note v2 = view_sel [OF s2(2)]
    show ?thesis
    proof (cases bit2)
      case False
      let ?s3 = "set_len 1 (s2\<lparr>s_lzma := (s_lzma s2)\<lparr>lz_state := lzma_state_short_rep (lz_state (s_lzma s2))\<rparr>\<rparr>)"
      have "Q ?s3"
        using s2(1) v2 v1 by (intro assms(4) [of "Suc (Suc 2)" 0 ?s3 Op_Short_Rep]) (auto simp: lz_view_def)
      then show ?thesis
        using \<open>\<not> bit1\<close> False by (simp add: lzma_rep_match_def Let_def b1 b2)
    next
      case True
      have "ok (lzma_len m (s2\<lparr>s_lzma := (s_lzma s2)\<lparr>lz_state := lzma_state_long_rep (lz_state (s_lzma s2))\<rparr>\<rparr>)
          rep_len_dec_base pos_state) Q"
        by (rule len [of "Suc (Suc 2)" _ 0]) (use s2(1) v2 v1 in \<open>auto simp: lz_view_def move_to_front_def\<close>)
      then show ?thesis
        using \<open>\<not> bit1\<close> True by (simp add: lzma_rep_match_def Let_def b1 b2)
    qed
  next
    case True
    obtain bit2 s2 where b2: "lzma_bit m s1 (prob_row is_rep1_base 1 STATES 0) ?st = Some (bit2, s2)"
        and s2: "sreach (Suc (Suc 2)) 0 s0 s2" "lz_view (s_lzma s2) = lz_view (s_lzma s1)"
      using lzma_bit_result [OF s1(1) bits room _ st rep_bases(3), of 0] by auto
    note b2 = b2 [simplified] and v2 = view_sel [OF s2(2)]
    show ?thesis
    proof (cases bit2)
      case False
      let ?s3 = "s2\<lparr>s_lzma := (s_lzma s2)\<lparr>rep1 := rep0 (s_lzma s2), rep0 := rep1 (s_lzma s2),
          lz_state := lzma_state_long_rep (lz_state (s_lzma s2))\<rparr>\<rparr>"
      have "ok (lzma_len m ?s3 rep_len_dec_base pos_state) Q"
        by (rule len [of "Suc (Suc 2)" _ 1])
           (use s2(1) v2 v1 in \<open>auto simp: lz_view_def move_to_front_def sreach_def\<close>)
      then show ?thesis
        using \<open>bit1\<close> False by (simp add: lzma_rep_match_def Let_def b1 b2)
    next
      case True
      obtain bit3 s3 where b3: "lzma_bit m s2 (prob_row is_rep2_base 1 STATES 0) ?st = Some (bit3, s3)"
          and s3: "sreach (Suc (Suc (Suc 2))) 0 s0 s3" "lz_view (s_lzma s3) = lz_view (s_lzma s2)"
        using lzma_bit_result [OF s2(1) bits room _ st rep_bases(4), of 0] by auto
      note b3 = b3 [simplified] and v3 = view_sel [OF s3(2)]
      show ?thesis
      proof (cases bit3)
        case False
        let ?s4 = "s3\<lparr>s_lzma := (s_lzma s3)\<lparr>rep2 := rep1 (s_lzma s3), rep1 := rep0 (s_lzma s3),
            rep0 := rep2 (s_lzma s3), lz_state := lzma_state_long_rep (lz_state (s_lzma s3))\<rparr>\<rparr>"
        have "ok (lzma_len m ?s4 rep_len_dec_base pos_state) Q"
          by (rule len [of "Suc (Suc (Suc 2))" _ 2])
             (use s3(1) v3 v2 v1 in \<open>auto simp: lz_view_def move_to_front_def sreach_def\<close>)
        then show ?thesis
          using \<open>bit1\<close> \<open>bit2\<close> False by (simp add: lzma_rep_match_def Let_def b1 b2 b3)
      next
        case True
        let ?s4 = "s3\<lparr>s_lzma := (s_lzma s3)\<lparr>rep3 := rep2 (s_lzma s3), rep2 := rep1 (s_lzma s3),
            rep1 := rep0 (s_lzma s3), rep0 := rep3 (s_lzma s3),
            lz_state := lzma_state_long_rep (lz_state (s_lzma s3))\<rparr>\<rparr>"
        have "ok (lzma_len m ?s4 rep_len_dec_base pos_state) Q"
          by (rule len [of "Suc (Suc (Suc 2))" _ 3])
             (use s3(1) v3 v2 v1 in \<open>auto simp: lz_view_def move_to_front_def sreach_def numeral_3_eq_3\<close>)
        then show ?thesis
          using \<open>bit1\<close> \<open>bit2\<close> True by (simp add: lzma_rep_match_def Let_def b1 b2 b3)
      qed
    qed
  qed
qed

section \<open>Literals\<close>

definition lzma_params_ok :: "lzma_dec \<Rightarrow> bool" where
  "lzma_params_ok l \<longleftrightarrow> (\<exists>lp pb. lz_lc l + lp \<le> 4 \<and> pb \<le> 4 \<and>
     literal_pos_mask l = 2 ^ lp - 1 \<and> pos_mask l = 2 ^ pb - 1)"

lemma and_mask_less: "(n :: nat) AND (2 ^ k - 1) < 2 ^ k"
proof -
  have "n AND mask k = take_bit k n" by (simp add: take_bit_eq_mask)
  then show ?thesis by (simp add: mask_eq_exp_minus_1)
qed

lemma pos_state_less: "lzma_params_ok l \<Longrightarrow> n AND pos_mask l < POS_STATES_MAX"
proof -
  assume "lzma_params_ok l"
  then obtain pb where "pb \<le> 4" "pos_mask l = 2 ^ pb - 1" by (auto simp: lzma_params_ok_def)
  moreover have "(2 :: nat) ^ pb \<le> 2 ^ 4" using \<open>pb \<le> 4\<close> by (intro power_increasing) auto
  ultimately show ?thesis using and_mask_less [of n pb] by (simp add: lzma_consts)
qed

lemma ok_literal_probs:
  assumes "dict_ok m (s_dict s)" and "lzma_params_ok (s_lzma s)"
  shows "ok (lzma_literal_probs m s) (\<lambda>p. \<exists>i < LITERAL_CODERS_MAX.
    p = prob_row literal_base LITERAL_CODERS_MAX LITERAL_CODER_SIZE i)"
proof -
  let ?lc = "lz_lc (s_lzma s)" and ?d = "s_dict s"
  from assms(2) obtain lp where lp: "?lc + lp \<le> 4" "literal_pos_mask (s_lzma s) = 2 ^ lp - 1"
    by (auto simp: lzma_params_ok_def)
  have get: "ok (dict_get m ?d 0) (\<lambda>v. unat v < 256)"
    by (rule ok_mono [OF ok_dict_get [OF assms(1)]]) auto
  have "(2 :: nat) ^ (?lc + lp) \<le> 2 ^ 4" using lp(1) by (intro power_increasing) auto
  then have pw: "2 ^ ?lc * (2 :: nat) ^ lp \<le> 16" by (simp add: power_add)
  have "u32_add (drop_bit (u32_sub 8 ?lc) (unat v)) (u32_of (push_bit ?lc (d_pos ?d AND literal_pos_mask (s_lzma s)))) < 16"
    if "unat (v :: u32) < 256" for v
  proof -
    have "unat v div 2 ^ (8 - ?lc) < 2 ^ ?lc"
    proof -
      have "(256 :: nat) = 2 ^ ?lc * 2 ^ (8 - ?lc)" using lp(1) by (simp flip: power_add)
      then show ?thesis using that by (simp add: less_mult_imp_div_less)
    qed
    then have low: "drop_bit (u32_sub 8 ?lc) (unat v) < 2 ^ ?lc"
      using lp(1) by (simp add: drop_bit_eq_div)
    let ?a = "d_pos ?d AND literal_pos_mask (s_lzma s)"
    have a: "Suc ?a \<le> 2 ^ lp" using and_mask_less [of "d_pos ?d" lp] lp(2) by simp
    then have "push_bit ?lc (Suc ?a) \<le> 2 ^ ?lc * 2 ^ lp"
      by (simp add: push_bit_eq_mult mult.commute del: mult_Suc mult_Suc_right)
    then have high: "push_bit ?lc ?a + 2 ^ ?lc \<le> 16"
      using pw by (simp add: push_bit_eq_mult algebra_simps)
    then have "u32_of (push_bit ?lc ?a) = push_bit ?lc ?a" by simp
    then show ?thesis using low high by simp
  qed
  then show ?thesis
    unfolding lzma_literal_probs_def by (intro ok_bindI [OF get]) (auto simp: lzma_consts)
qed

lemma and_single_bit: "x AND push_bit n 1 = (if bit x n then push_bit n 1 else 0)" for x :: u32
  by (rule bit_word_eqI) (auto simp: bit_simps)

lemma and_0x100: "(x :: u32) AND 0x100 = (if bit x 8 then 0x100 else 0)"
  using and_single_bit [of x 8] by simp

lemma offset_cases:
  assumes "offset = 0 \<or> offset = (0x100 :: u32)" and "v = x AND offset"
  shows "v = 0 \<or> v = 0x100" and "offset AND v = 0 \<or> offset AND v = 0x100"
    and "offset AND NOT v = 0 \<or> offset AND NOT v = 0x100"
proof -
  have "v = 0 \<or> v = 0x100 \<and> offset = 0x100"
    using assms by (cases "bit x 8") (auto simp: and_0x100)
  then show "v = 0 \<or> v = 0x100" and "offset AND v = 0 \<or> offset AND v = 0x100"
    and "offset AND NOT v = 0 \<or> offset AND NOT v = 0x100"
    using assms(1) by (elim disjE conjE; simp)+
qed

lemma ok_literal_matched:
  assumes "sreach np 0 s0 s" and "np + (8 - j) \<le> 21" and "rc_room m (s_rc s0) 20"
    and "i < LITERAL_CODERS_MAX"
    and "2 ^ j \<le> unat symbol" and "unat symbol < 2 ^ Suc j" and "j < 8"
    and "offset = 0 \<or> offset = 0x100"
  shows "ok (lzma_literal_matched m (prob_row literal_base LITERAL_CODERS_MAX LITERAL_CODER_SIZE i) s symbol match_byte offset)
    (\<lambda>(symbol', s'). sreach (np + (8 - j)) 0 s0 s' \<and> lz_view (s_lzma s') = lz_view (s_lzma s))"
  using assms
proof (induction "8 - j" arbitrary: np j s symbol match_byte offset)
  case (Suc k)
  let ?p = "prob_row literal_base LITERAL_CODERS_MAX LITERAL_CODER_SIZE i"
  let ?bit = "match_byte AND offset"
  note mb = offset_cases [OF Suc.prems(8) refl, of match_byte]
  have sym: "unat symbol < 256"
    using Suc.prems(6,7) power_increasing [of "Suc j" 8 "2 :: nat"] by simp
  have "unat (offset + ?bit + symbol) = unat offset + unat ?bit + unat symbol"
  proof -
    have "unat (offset + ?bit) = unat offset + unat ?bit"
      using Suc.prems(8) mb(1) by (intro unat_add_small) auto
    then show ?thesis using Suc.prems(8) mb(1) sym by (subst unat_add_small) auto
  qed
  then have idx: "unat (offset + ?bit + symbol) < LITERAL_CODER_SIZE"
    using Suc.prems(8) mb(1) sym by (auto simp: lzma_consts)
  have base: "literal_base + LITERAL_CODERS_MAX * LITERAL_CODER_SIZE \<le> PROBS_TOTAL"
    by (simp add: probs_total_layout)
  have "np \<le> 21" using Suc.prems(2) by linarith
  then have bits: "bits_ok np 0" by (simp add: bits_ok_def)
  obtain bit s1 where b: "lzma_bit m s ?p (unat (offset + ?bit + symbol)) = Some (bit, s1)"
      and s1: "sreach (Suc np) 0 s0 s1" "lz_view (s_lzma s1) = lz_view (s_lzma s)"
    using lzma_bit_result [OF Suc.prems(1) bits Suc.prems(3,4) idx base] by auto
  define symbol1 where "symbol1 = (if bit then push_bit 1 symbol + 1 else push_bit 1 symbol)"
  have sym1: "2 ^ Suc j \<le> unat symbol1" "unat symbol1 < 2 ^ Suc (Suc j)"
    using tree_step [of j symbol bit] Suc.prems(5,6,7) by (simp_all add: symbol1_def)
  let ?off = "if bit then offset AND ?bit else offset AND NOT ?bit"
  have unfold: "lzma_literal_matched m ?p s symbol match_byte offset =
      (if symbol1 < 0x100 then lzma_literal_matched m ?p s1 symbol1 (push_bit 1 match_byte) ?off
       else Some (symbol1, s1))"
    by (subst lzma_literal_matched.simps) (simp only: Let_def b Option.bind_lunit prod.case symbol1_def)
  show ?case
  proof (cases "Suc j = 8")
    case True
    then have "\<not> symbol1 < 0x100" using sym1 by (auto simp: word_less_nat_alt)
    moreover have "np + (8 - j) = Suc np" using True by simp
    ultimately show ?thesis using s1 unfolding unfold by simp
  next
    case False
    then have j: "Suc j < 8" using Suc.prems(7) by simp
    then have "(2 :: nat) ^ Suc (Suc j) \<le> 2 ^ 8" by (intro power_increasing) auto
    then have less: "symbol1 < 0x100" using sym1 by (simp add: word_less_nat_alt)
    have eq: "Suc np + (8 - Suc j) = np + (8 - j)" using Suc.prems(7) by simp
    have "ok (lzma_literal_matched m ?p s1 symbol1 (push_bit 1 match_byte) ?off)
      (\<lambda>(symbol', s'). sreach (Suc np + (8 - Suc j)) 0 s0 s' \<and> lz_view (s_lzma s') = lz_view (s_lzma s1))"
      using Suc.hyps(2) Suc.prems(2,3,4) j s1(1) sym1 mb
      by (intro Suc.hyps(1)) (auto split: if_splits)
    then show ?thesis
      unfolding unfold eq using less s1(2) by simp
  qed
qed simp

section \<open>One symbol refines the specification\<close>

definition rep0_ok :: "xz_dec_lzma2 \<Rightarrow> bool" where
  "rep0_ok s \<longleftrightarrow> (lzma_state_is_literal (lz_state (s_lzma s)) \<and> lz_len (s_lzma s) = 0 \<or>
     unat (rep0 (s_lzma s)) < d_full (s_dict s) \<and> unat (rep0 (s_lzma s)) < d_size (s_dict s))"

definition lzma_ok :: "mem \<Rightarrow> xz_dec_lzma2 \<Rightarrow> bool" where
  "lzma_ok m s \<longleftrightarrow> dict_ok m (s_dict s) \<and> lzma_params_ok (s_lzma s) \<and> probs_ok (lz_probs (s_lzma s)) \<and>
     253952 \<le> unat (rc_range (s_rc s)) \<and> rep0_ok s \<and> lz_len (s_lzma s) \<le> 273"

definition lz_frame :: "mem \<Rightarrow> xz_dec_lzma2 \<Rightarrow> mem \<Rightarrow> xz_dec_lzma2 \<Rightarrow> bool" where
  "lz_frame m s m' s' \<longleftrightarrow> same_shape m m' \<and> (\<forall>k. k \<noteq> fst (d_buf (s_dict s)) \<longrightarrow> m' k = m k) \<and>
     dict_frame (s_dict s) (s_dict s') \<and> d_start (s_dict s') = d_start (s_dict s) \<and>
     s_lzma2 s' = s_lzma2 s \<and> temp_size s' = temp_size s \<and>
     rc_in (s_rc s') = rc_in (s_rc s) \<and> rc_in_limit (s_rc s') = rc_in_limit (s_rc s) \<and>
     init_bytes_left (s_rc s') = init_bytes_left (s_rc s) \<and> rc_in_pos (s_rc s) \<le> rc_in_pos (s_rc s')"

lemma lz_frame_refl [simp]: "lz_frame m s m s"
  by (simp add: lz_frame_def)

lemma lz_frame_trans: "lz_frame m s m1 s1 \<Longrightarrow> lz_frame m1 s1 m2 s2 \<Longrightarrow> lz_frame m s m2 s2"
  by (auto simp: lz_frame_def dict_frame_def intro: same_shape_trans)

text \<open>The abstract decoder: the view of the LZMA state and the byte history.\<close>

definition lz_abs :: "mem \<Rightarrow> xz_dec_lzma2 \<Rightarrow> (lzma_state \<times> u32 list \<times> nat) \<times> u8 list" where
  "lz_abs m s = (lz_view (s_lzma s), dict_hist m (s_dict s))"

fun lz_finish :: "nat \<Rightarrow> nat \<Rightarrow> (lzma_state \<times> u32 list \<times> nat) \<times> u8 list \<Rightarrow>
    (lzma_state \<times> u32 list \<times> nat) \<times> u8 list" where
  \<comment> \<open>copy what is pending, as far as there is space\<close>
  "lz_finish cap space ((st, reps, n), h) =
     ((st, reps, n - min space n), take cap (lz_copy (min space n) (unat (hd reps)) h))"

definition lz_step :: "nat \<Rightarrow> nat \<Rightarrow> lz_op \<Rightarrow> (lzma_state \<times> u32 list \<times> nat) \<times> u8 list \<Rightarrow>
    (lzma_state \<times> u32 list \<times> nat) \<times> u8 list" where
  "lz_step cap space x a =
     (case x of
        Op_Literal b \<Rightarrow> (op_view x (fst a), take cap (b # snd a))
      | _ \<Rightarrow> lz_finish cap space (op_view x (fst a), snd a))"

fun op_size :: "nat \<Rightarrow> lz_op \<Rightarrow> nat" where
  \<comment> \<open>the bytes a symbol writes when \<open>k\<close> are free\<close>
  "op_size k (Op_Literal b) = 1"
| "op_size k (Op_Match d n) = min k n"
| "op_size k (Op_Rep i n) = min k n"
| "op_size k Op_Short_Rep = min k 1"

lemma sreach_frame:
  assumes "sreach np nd s0 s"
  shows "lz_frame m s0 m s" and "rc_in_pos (s_rc s) \<le> rc_in_pos (s_rc s0) + 20"
    and "253952 \<le> unat (rc_range (s_rc s))" and "s_dict s = s_dict s0" and "probs_ok (lz_probs (s_lzma s))"
    and "lzma_params_ok (s_lzma s) = lzma_params_ok (s_lzma s0)"
  using assms by (auto simp: sreach_def rc_reach_def lz_frame_def lzma_params_ok_def)

lemma params_set_len [simp]: "lzma_params_ok (s_lzma (set_len n s)) = lzma_params_ok (s_lzma s)"
  by (simp add: set_len_def lzma_params_ok_def)

text \<open>The part every symbol other than a literal ends with, and an interrupted call
  starts with.\<close>

lemma ok_lzma_repeat:
  assumes "dict_ok m (s_dict s)" and "lzma_params_ok (s_lzma s)" and "probs_ok (lz_probs (s_lzma s))"
    and "253952 \<le> unat (rc_range (s_rc s))"
    and "dict_limit_ok (s_dict s)" and "d_pos (s_dict s) < d_limit (s_dict s)"
    and "0 < lz_len (s_lzma s)" and "lz_len (s_lzma s) \<le> 273"
  shows "ok (lzma_repeat m s) (\<lambda>(res, s', m'). lz_frame m s m' s' \<and> s_rc s' = s_rc s \<and>
     res = (unat (rep0 (s_lzma s)) < d_full (s_dict s) \<and> unat (rep0 (s_lzma s)) < d_size (s_dict s)) \<and>
     (res \<longrightarrow> lzma_ok m' s' \<and>
        d_pos (s_dict s') = d_pos (s_dict s) + min (d_limit (s_dict s) - d_pos (s_dict s)) (lz_len (s_lzma s)) \<and>
        (d_pos (s_dict s') < d_limit (s_dict s) \<longrightarrow> lz_len (s_lzma s') = 0) \<and>
        lz_abs m' s' = lz_finish (d_end (s_dict s)) (d_limit (s_dict s) - d_pos (s_dict s)) (lz_abs m s)))"
proof -
  let ?d = "s_dict s" and ?l = "s_lzma s"
  let ?n = "min (d_limit ?d - d_pos ?d) (lz_len ?l)" and ?r = "unat (rep0 ?l)"
  let ?c = "?r < d_full ?d \<and> ?r < d_size ?d"
  have n: "0 < ?n" "d_pos ?d + ?n \<le> d_limit ?d" "?n \<le> lz_len ?l" using assms(5,6,7) by (auto simp: dict_limit_ok_def)
  have step: "ok (dict_repeat m ?d (lz_len ?l) ?r) (\<lambda>(res, len', d', m').
      if ?c
      then res \<and> dict_ok m' d' \<and> dict_frame ?d d' \<and> d_start d' = d_start ?d \<and> same_shape m m' \<and>
           (\<forall>b. b \<noteq> fst (d_buf ?d) \<longrightarrow> m' b = m b) \<and>
           (let n = ?n in len' = lz_len ?l - n \<and> d_pos d' = d_pos ?d + n \<and>
              dict_hist m' d' = take (d_end ?d) (lz_copy n ?r (dict_hist m ?d)))
      else \<not> res \<and> len' = lz_len ?l \<and> d' = ?d \<and> m' = m)"
    using assms by (intro ok_dict_repeat) auto
  show ?thesis
    unfolding lzma_repeat_def
  proof (rule ok_bindI [OF step])
    fix x assume x: "case x of (res, len', d', m') \<Rightarrow>
      if ?c
      then res \<and> dict_ok m' d' \<and> dict_frame ?d d' \<and> d_start d' = d_start ?d \<and> same_shape m m' \<and>
           (\<forall>b. b \<noteq> fst (d_buf ?d) \<longrightarrow> m' b = m b) \<and>
           (let n = ?n in len' = lz_len ?l - n \<and> d_pos d' = d_pos ?d + n \<and>
              dict_hist m' d' = take (d_end ?d) (lz_copy n ?r (dict_hist m ?d)))
      else \<not> res \<and> len' = lz_len ?l \<and> d' = ?d \<and> m' = m"
    obtain res len' d' m' where xe: "x = (res, len', d', m')" by (cases x)
    let ?s = "set_len len' (s\<lparr>s_dict := d'\<rparr>)"
    have sel: "s_dict ?s = d'" "s_rc ?s = s_rc s" "s_lzma2 ?s = s_lzma2 s" "temp_size ?s = temp_size s"
      "lz_probs (s_lzma ?s) = lz_probs ?l" "lzma_params_ok (s_lzma ?s) = lzma_params_ok ?l"
      by (simp_all add: set_len_def lzma_params_ok_def)
    show "ok (case x of (res, len, dict, m) \<Rightarrow> Some (res, set_len len (s\<lparr>s_dict := dict\<rparr>), m)) (\<lambda>(res, s', m').
       lz_frame m s m' s' \<and> s_rc s' = s_rc s \<and> res = ?c \<and>
       (res \<longrightarrow> lzma_ok m' s' \<and> d_pos (s_dict s') = d_pos ?d + ?n \<and>
        (d_pos (s_dict s') < d_limit ?d \<longrightarrow> lz_len (s_lzma s') = 0) \<and>
        lz_abs m' s' = lz_finish (d_end ?d) (d_limit ?d - d_pos ?d) (lz_abs m s)))"
    proof (cases ?c)
      case False
      with x show ?thesis unfolding xe by (auto simp: lz_frame_def sel)
    next
      case True
      then have d': "res" "dict_ok m' d'" "dict_frame ?d d'" "d_start d' = d_start ?d" "same_shape m m'"
          "\<forall>b. b \<noteq> fst (d_buf ?d) \<longrightarrow> m' b = m b" "len' = lz_len ?l - ?n" "d_pos d' = d_pos ?d + ?n"
          "dict_hist m' d' = take (d_end ?d) (lz_copy ?n ?r (dict_hist m ?d))"
        using x unfolding xe by (simp_all add: Let_def)
      have "lz_frame m s m' ?s" using d' by (simp add: lz_frame_def sel)
      moreover have "rep0_ok ?s"
        using d'(3) True by (auto simp: rep0_ok_def sel dict_frame_def)
      then have "lzma_ok m' ?s"
        using d'(2,7) assms(2,3,4,8) by (auto simp: lzma_ok_def sel)
      moreover have "d_pos d' < d_limit ?d \<longrightarrow> len' = 0" using d'(7,8) by auto
      moreover have "lz_abs m' ?s = lz_finish (d_end ?d) (d_limit ?d - d_pos ?d) (lz_abs m s)"
        using d'(7,9) by (simp add: lz_abs_def lz_view_def sel)
      ultimately show ?thesis
        unfolding xe using True d'(1,8) n by (simp add: sel)
    qed
  qed
qed

text \<open>A literal.\<close>

lemma ok_lzma_literal:
  assumes reach: "sreach 1 0 s0 s" and view: "lz_view (s_lzma s) = lz_view (s_lzma s0)"
    and ok: "lzma_ok m s0" and room: "rc_room m (s_rc s0) 20"
    and lim: "dict_limit_ok (s_dict s0)" "d_pos (s_dict s0) < d_limit (s_dict s0)"
    and len: "lz_len (s_lzma s0) = 0"
  shows "ok (lzma_literal m s) (\<lambda>(s', m'). lz_frame m s0 m' s' \<and> rc_in_pos (s_rc s') \<le> rc_in_pos (s_rc s0) + 20 \<and>
     lzma_ok m' s' \<and> d_pos (s_dict s') = Suc (d_pos (s_dict s0)) \<and> lz_len (s_lzma s') = 0 \<and>
     (\<exists>b. lz_abs m' s' = lz_step (d_end (s_dict s0)) (d_limit (s_dict s0) - d_pos (s_dict s0)) (Op_Literal b) (lz_abs m s0)))"
proof -
  let ?d = "s_dict s0" and ?st = "lz_state (s_lzma s0)"
  have dict: "s_dict s = ?d" and dok: "dict_ok m ?d" and par: "lzma_params_ok (s_lzma s)"
    using sreach_frame [OF reach] ok by (auto simp: lzma_ok_def)
  have pos: "d_pos ?d < d_end ?d" using lim by (simp add: dict_limit_ok_def)
  note v = view_sel [OF view]
  obtain i where p: "lzma_literal_probs m s = Some (prob_row literal_base LITERAL_CODERS_MAX LITERAL_CODER_SIZE i)"
      "i < LITERAL_CODERS_MAX"
    using ok_literal_probs [of m s] dict dok par by (auto simp: ok_iff)
  let ?p = "prob_row literal_base LITERAL_CODERS_MAX LITERAL_CODER_SIZE i"
  have ptr: "prob_ptr_ok ?p (2 ^ 8)"
    using row_ok [OF p(2), of literal_base LITERAL_CODER_SIZE] probs_total_layout
    by (simp add: prob_ptr_ok_def prob_row_def LITERAL_CODER_SIZE_def)
  have sym: "ok (if lzma_state_is_literal (lz_state (s_lzma s)) then lzma_tree m s ?p 0x100
        else do {
          match_byte \<leftarrow> dict_get m (s_dict s) (unat (rep0 (s_lzma s)));
          lzma_literal_matched m ?p s 1 (push_bit 1 match_byte) 0x100
        }) (\<lambda>(symbol, s'). sreach 9 0 s0 s' \<and> lz_view (s_lzma s') = lz_view (s_lzma s))"
  proof (cases "lzma_state_is_literal (lz_state (s_lzma s))")
    case True
    then have "ok (lzma_tree m s ?p 0x100) (\<lambda>(symbol, s'). sreach 9 0 s0 s' \<and> lz_view (s_lzma s') = lz_view (s_lzma s))"
      by (intro lzma_treeI [OF reach _ room ptr]) (simp_all add: bits_ok_def)
    then show ?thesis using True by simp
  next
    case False
    then have "unat (rep0 (s_lzma s0)) < d_full ?d"
      using ok v len by (auto simp: lzma_ok_def rep0_ok_def)
    then obtain mb where mb: "dict_get m ?d (unat (rep0 (s_lzma s0))) = Some mb"
      using ok_dict_get [OF dok, of "unat (rep0 (s_lzma s0))"] by (auto simp: ok_iff)
    have "ok (lzma_literal_matched m ?p s 1 (push_bit 1 mb) 0x100)
        (\<lambda>(symbol', s'). sreach (1 + (8 - 0)) 0 s0 s' \<and> lz_view (s_lzma s') = lz_view (s_lzma s))"
      by (rule ok_literal_matched [OF reach _ room p(2)]) simp_all
    then show ?thesis using False mb v dict by simp
  qed
  show ?thesis
    unfolding lzma_literal_def p(1) Option.bind_lunit
  proof (rule ok_bindI [OF sym], clarify)
    fix symbol s1 assume r1: "sreach 9 0 s0 s1" and v1: "lz_view (s_lzma s1) = lz_view (s_lzma s)"
    note f1 = sreach_frame [OF r1] and v1 = view_sel [OF v1]
    note put = ok_dict_put [OF dok pos, of "ucast symbol"]
    show "ok (do {
        (dict, m) \<leftarrow> dict_put m (s_dict s1) (ucast symbol);
        Some (s1\<lparr>s_dict := dict, s_lzma := (s_lzma s1)\<lparr>lz_state := lzma_state_literal (lz_state (s_lzma s1))\<rparr>\<rparr>, m) })
      (\<lambda>(s', m'). lz_frame m s0 m' s' \<and> rc_in_pos (s_rc s') \<le> rc_in_pos (s_rc s0) + 20 \<and>
         lzma_ok m' s' \<and> d_pos (s_dict s') = Suc (d_pos ?d) \<and> lz_len (s_lzma s') = 0 \<and>
         (\<exists>b. lz_abs m' s' = lz_step (d_end ?d) (d_limit ?d - d_pos ?d) (Op_Literal b) (lz_abs m s0)))"
      unfolding f1(4)
    proof (rule ok_bindI [OF put], clarify)
      fix d' m' assume d': "dict_ok m' (dict_raise_full (?d\<lparr>d_pos := Suc (d_pos ?d)\<rparr>))" "same_shape m m'"
        "\<forall>b. b \<noteq> fst (d_buf ?d) \<longrightarrow> m' b = m b"
        "dict_hist m' (dict_raise_full (?d\<lparr>d_pos := Suc (d_pos ?d)\<rparr>)) = take (d_end ?d) (ucast symbol # dict_hist m ?d)"
      let ?d' = "dict_raise_full (?d\<lparr>d_pos := Suc (d_pos ?d)\<rparr>)"
      let ?s = "s1\<lparr>s_dict := ?d', s_lzma := (s_lzma s1)\<lparr>lz_state := lzma_state_literal (lz_state (s_lzma s1))\<rparr>\<rparr>"
      have "lz_frame m s0 m' ?s"
        using f1(1) d' by (simp add: lz_frame_def dict_frame_put)
      moreover have "lzma_ok m' ?s"
        using ok f1 d' v v1 len by (simp add: lzma_ok_def lzma_params_ok_def rep0_ok_def lzma_state_literal_is_literal)
      moreover have "lz_abs m' ?s = lz_step (d_end ?d) (d_limit ?d - d_pos ?d) (Op_Literal (ucast symbol)) (lz_abs m s0)"
        using d'(4) v v1 by (simp add: lz_abs_def lz_view_def lz_step_def)
      ultimately show "ok (Some (?s, m')) (\<lambda>(s', m'). lz_frame m s0 m' s' \<and> rc_in_pos (s_rc s') \<le> rc_in_pos (s_rc s0) + 20 \<and>
         lzma_ok m' s' \<and> d_pos (s_dict s') = Suc (d_pos ?d) \<and> lz_len (s_lzma s') = 0 \<and>
         (\<exists>b. lz_abs m' s' = lz_step (d_end ?d) (d_limit ?d - d_pos ?d) (Op_Literal b) (lz_abs m s0)))"
        using f1(2) v v1 len by auto
    qed
  qed
qed

text \<open>
  The refinement. From a state with free space in the dictionary and 20 readable bytes, one
  pass of the loop stays within memory and takes at most 20 bytes; unless it reports corrupt
  data, it performs one step of the abstract decoder.
\<close>

fun symbol_post :: "mem \<Rightarrow> xz_dec_lzma2 \<Rightarrow> bool \<times> xz_dec_lzma2 \<times> mem \<Rightarrow> bool" where
  "symbol_post m s (res, s', m') \<longleftrightarrow>
     lz_frame m s m' s' \<and> rc_in_pos (s_rc s') \<le> rc_in_pos (s_rc s) + 20 \<and>
     (res \<longrightarrow> lzma_ok m' s' \<and> (d_pos (s_dict s') < d_limit (s_dict s) \<longrightarrow> lz_len (s_lzma s') = 0) \<and>
        (\<exists>x. op_valid x \<and>
           d_pos (s_dict s') = d_pos (s_dict s) + op_size (d_limit (s_dict s) - d_pos (s_dict s)) x \<and>
           lz_abs m' s' =
           lz_step (d_end (s_dict s)) (d_limit (s_dict s) - d_pos (s_dict s)) x (lz_abs m s)))"

lemma symbol_post_repeat:
  assumes ok: "lzma_ok m s0" and lim: "dict_limit_ok (s_dict s0)" "d_pos (s_dict s0) < d_limit (s_dict s0)"
    and s: "sreach np nd s0 s" and x: "op_valid x" "\<not> (\<exists>b. x = Op_Literal b)"
    and view: "lz_view (s_lzma s) = op_view x (lz_view (s_lzma s0))"
  shows "ok (lzma_repeat m s) (symbol_post m s0)"
proof -
  note f = sreach_frame [OF s]
  have len: "0 < lz_len (s_lzma s)" "lz_len (s_lzma s) \<le> 273"
    using view x by (cases x; simp add: lz_view_def)+
  have rep: "ok (lzma_repeat m s) (\<lambda>(res, s', m'). lz_frame m s m' s' \<and> s_rc s' = s_rc s \<and>
     res = (unat (rep0 (s_lzma s)) < d_full (s_dict s) \<and> unat (rep0 (s_lzma s)) < d_size (s_dict s)) \<and>
     (res \<longrightarrow> lzma_ok m' s' \<and>
        d_pos (s_dict s') = d_pos (s_dict s) + min (d_limit (s_dict s) - d_pos (s_dict s)) (lz_len (s_lzma s)) \<and>
        (d_pos (s_dict s') < d_limit (s_dict s) \<longrightarrow> lz_len (s_lzma s') = 0) \<and>
        lz_abs m' s' = lz_finish (d_end (s_dict s)) (d_limit (s_dict s) - d_pos (s_dict s)) (lz_abs m s)))"
    using ok f lim len by (intro ok_lzma_repeat) (simp_all add: lzma_ok_def)
  have size: "op_size k x = min k (lz_len (s_lzma s))" for k
    using view x by (cases x) (simp_all add: lz_view_def)
  have step: "lz_finish cap space (lz_abs m s) = lz_step cap space x (lz_abs m s0)" for cap space
    using view x f(4) by (cases x) (simp_all add: lz_step_def lz_abs_def)
  show ?thesis
    using rep
  proof (rule ok_mono, clarify)
    fix s' m' assume frame: "lz_frame m s m' s'" and rc: "s_rc s' = s_rc s"
      and post: "(unat (rep0 (s_lzma s)) < d_full (s_dict s) \<and> unat (rep0 (s_lzma s)) < d_size (s_dict s)) \<longrightarrow>
        lzma_ok m' s' \<and>
        d_pos (s_dict s') = d_pos (s_dict s) + min (d_limit (s_dict s) - d_pos (s_dict s)) (lz_len (s_lzma s)) \<and>
        (d_pos (s_dict s') < d_limit (s_dict s) \<longrightarrow> lz_len (s_lzma s') = 0) \<and>
        lz_abs m' s' = lz_finish (d_end (s_dict s)) (d_limit (s_dict s) - d_pos (s_dict s)) (lz_abs m s)"
    show "symbol_post m s0 (unat (rep0 (s_lzma s)) < d_full (s_dict s) \<and> unat (rep0 (s_lzma s)) < d_size (s_dict s), s', m')"
      using lz_frame_trans [OF f(1) frame] rc f(2,4) post x(1) step size by auto
  qed
qed

lemma ok_lzma_symbol:
  assumes ok: "lzma_ok m s" and room: "rc_room m (s_rc s) 20"
    and lim: "dict_limit_ok (s_dict s)" "d_pos (s_dict s) < d_limit (s_dict s)"
    and len: "lz_len (s_lzma s) = 0"
  shows "ok (lzma_symbol m s) (symbol_post m s)"
proof -
  let ?st = "lzma_state_val (lz_state (s_lzma s))" and ?ps = "d_pos (s_dict s) AND pos_mask (s_lzma s)"
  have s0: "sreach 0 0 s s" using ok by (simp add: sreach_def lzma_ok_def rc_reach_refl)
  have ps: "?ps < POS_STATES_MAX" using ok by (intro pos_state_less) (simp add: lzma_ok_def)
  note st = lzma_state_val_less [of "lz_state (s_lzma s)"]
  have bits: "bits_ok np 0" if "np \<le> 20" for np using that by (simp add: bits_ok_def)
  obtain bit1 s1 where b1: "lzma_bit m s (prob_row is_match_base STATES POS_STATES_MAX ?st) ?ps = Some (bit1, s1)"
      and s1: "sreach (Suc 0) 0 s s1" "lz_view (s_lzma s1) = lz_view (s_lzma s)"
    using lzma_bit_result [OF s0 bits room st ps rep_bases(6)] by auto
  show ?thesis
  proof (cases bit1)
    case False
    have lit: "ok (lzma_literal m s1) (\<lambda>(s', m'). symbol_post m s (True, s', m'))"
      using ok_lzma_literal [OF _ s1(2) ok room lim len] s1(1) lim(2)
      by (auto elim!: ok_mono intro: op_valid.simps(1) [THEN iffD2])
    show ?thesis
      using False unfolding lzma_symbol_def Let_def b1 Option.bind_lunit
      by (simp add: ok_bind) (rule ok_mono [OF lit], auto)
  next
    case True
    obtain bit2 s2 where b2: "lzma_bit m s1 (prob_row is_rep_base 1 STATES 0) ?st = Some (bit2, s2)"
        and s2: "sreach (Suc (Suc 0)) 0 s s2" "lz_view (s_lzma s2) = lz_view (s_lzma s1)"
      using lzma_bit_result [OF s1(1) bits room _ st rep_bases(1), of 0] by auto
    have s2': "sreach 2 0 s s2" using s2(1) by (simp add: numeral_2_eq_2)
    have "ok (if bit2 then lzma_rep_match m s2 ?ps else lzma_match m s2 ?ps)
        (\<lambda>s'. ok (lzma_repeat m s') (symbol_post m s))"
    proof (cases bit2)
      case True
      have "ok (lzma_rep_match m s2 ?ps) (\<lambda>s'. ok (lzma_repeat m s') (symbol_post m s))"
      proof (rule lzma_rep_matchI [OF s2' room ps])
        fix np nd x s' assume "sreach np nd s s'" "op_valid x" "(\<exists>i n. x = Op_Rep i n) \<or> x = Op_Short_Rep"
          "lz_view (s_lzma s') = op_view x (lz_view (s_lzma s2))"
        then show "ok (lzma_repeat m s') (symbol_post m s)"
          using s1(2) s2(2) by (intro symbol_post_repeat [OF ok lim]) auto
      qed
      with True show ?thesis by simp
    next
      case False
      have "ok (lzma_match m s2 ?ps) (\<lambda>s'. ok (lzma_repeat m s') (symbol_post m s))"
      proof (rule lzma_matchI [OF s2' room ps])
        fix np nd d n s' assume "sreach np nd s s'" "op_valid (Op_Match d n)"
          "lz_view (s_lzma s') = op_view (Op_Match d n) (lz_view (s_lzma s2))"
        then show "ok (lzma_repeat m s') (symbol_post m s)"
          using s1(2) s2(2) by (intro symbol_post_repeat [OF ok lim, of np nd s' "Op_Match d n"]) auto
      qed
      with False show ?thesis by simp
    qed
    then show ?thesis
      using True b2 [simplified] unfolding lzma_symbol_def Let_def b1 Option.bind_lunit
      by (simp add: ok_bind)
  qed
qed

section \<open>The decoder loop\<close>

text \<open>A run of the abstract decoder: symbols one after another while there is space.\<close>

inductive lz_runs :: "nat \<Rightarrow> nat \<Rightarrow> (lzma_state \<times> u32 list \<times> nat) \<times> u8 list \<Rightarrow>
    nat \<Rightarrow> (lzma_state \<times> u32 list \<times> nat) \<times> u8 list \<Rightarrow> bool" where
  lz_runs_stop: "lz_runs cap k a k a"
| lz_runs_symbol:
    "op_valid x \<Longrightarrow> 0 < k \<Longrightarrow> lz_runs cap (k - op_size k x) (lz_step cap k x a) k' a' \<Longrightarrow> lz_runs cap k a k' a'"

inductive_simps lz_runs_zero: "lz_runs cap 0 a k' a'"

inductive_cases lz_runsE: "lz_runs cap k a k' a'"

lemma op_size_bounds: "op_valid x \<Longrightarrow> 0 < k \<Longrightarrow> 0 < op_size k x \<and> op_size k x \<le> k"
  by (cases x) auto

lemma lz_runs_space: "lz_runs cap k a k' a' \<Longrightarrow> k' \<le> k"
  by (induction rule: lz_runs.induct) auto

lemma lz_runs_trans: "lz_runs cap k a k1 a1 \<Longrightarrow> lz_runs cap k1 a1 k2 a2 \<Longrightarrow> lz_runs cap k a k2 a2"
  by (induction rule: lz_runs.induct) (auto intro: lz_runs.intros)

fun symbols_post :: "mem \<Rightarrow> xz_dec_lzma2 \<Rightarrow> bool \<times> xz_dec_lzma2 \<times> mem \<Rightarrow> bool" where
  "symbols_post m s (res, s', m') \<longleftrightarrow>
     lz_frame m s m' s' \<and> rc_in_pos (s_rc s') \<le> max (rc_in_pos (s_rc s)) (rc_in_limit (s_rc s) + 20) \<and>
     (res \<longrightarrow> lzma_ok m' s' \<and> d_pos (s_dict s) \<le> d_pos (s_dict s') \<and> d_pos (s_dict s') \<le> d_limit (s_dict s) \<and>
        (d_pos (s_dict s') < d_limit (s_dict s) \<longrightarrow> lz_len (s_lzma s') = 0 \<and> rc_limit_exceeded (s_rc s')) \<and>
        (d_pos (s_dict s) < d_limit (s_dict s) \<and> \<not> rc_limit_exceeded (s_rc s) \<longrightarrow>
           d_pos (s_dict s) < d_pos (s_dict s')) \<and>
        lz_runs (d_end (s_dict s)) (d_limit (s_dict s) - d_pos (s_dict s)) (lz_abs m s)
          (d_limit (s_dict s) - d_pos (s_dict s')) (lz_abs m' s'))"

text \<open>The wrapper of the decoder promises that \<open>LZMA_IN_REQUIRED\<close> bytes may be read from
  the limit on.\<close>

definition rc_limit_ok :: "mem \<Rightarrow> rc_dec \<Rightarrow> bool" where
  "rc_limit_ok m rc \<longleftrightarrow> rc_in_limit rc + LZMA_IN_REQUIRED \<le> room m (rc_in rc) \<and>
     rc_in_limit rc + LZMA_IN_REQUIRED < 2 ^ 64"

lemma ok_lzma_symbols:
  assumes "lzma_ok m s" and "rc_limit_ok m (s_rc s)" and "dict_limit_ok (s_dict s)"
    and "d_pos (s_dict s) < d_limit (s_dict s) \<longrightarrow> lz_len (s_lzma s) = 0"
  shows "ok (lzma_symbols m s) (symbols_post m s)"
  using assms
proof (induction "d_limit (s_dict s) - d_pos (s_dict s)" arbitrary: m s rule: less_induct)
  case less
  let ?d = "s_dict s"
  show ?case
  proof (cases "dict_has_space ?d \<and> \<not> rc_limit_exceeded (s_rc s)")
    case False
    then show ?thesis
      using less.prems
      by (subst lzma_symbols.simps) (auto simp: dict_has_space_def dict_limit_ok_def intro: lz_runs_stop)
  next
    case True
    then have sp: "d_pos ?d < d_limit ?d" and lim: "rc_in_pos (s_rc s) \<le> rc_in_limit (s_rc s)"
      by (auto simp: dict_has_space_def rc_limit_exceeded_def)
    have room: "rc_room m (s_rc s) 20"
      using less.prems(2) lim by (simp add: rc_limit_ok_def rc_room_def LZMA_IN_REQUIRED_def)
    have step: "ok (lzma_symbol m s) (symbol_post m s)"
      using less.prems sp room by (intro ok_lzma_symbol) auto
    show ?thesis
    proof (subst lzma_symbols.simps, simp only: True if_True simp_thms, rule ok_bindI [OF step])
      fix x assume x: "symbol_post m s x"
      obtain res s1 m1 where xe: "x = (res, s1, m1)" by (cases x)
      show "ok (case x of (res, s, m) \<Rightarrow> if \<not> res then Some (False, s, m) else lzma_symbols m s) (symbols_post m s)"
      proof (cases res)
        case False
        with x lim show ?thesis by (auto simp: xe)
      next
        case True
        with x obtain y where p: "lz_frame m s m1 s1" "rc_in_pos (s_rc s1) \<le> rc_in_pos (s_rc s) + 20" "lzma_ok m1 s1"
            "d_pos (s_dict s1) < d_limit ?d \<longrightarrow> lz_len (s_lzma s1) = 0" "op_valid y"
            "d_pos (s_dict s1) = d_pos ?d + op_size (d_limit ?d - d_pos ?d) y"
            "lz_abs m1 s1 = lz_step (d_end ?d) (d_limit ?d - d_pos ?d) y (lz_abs m s)"
          by (auto simp: xe)
        let ?k = "d_limit ?d - d_pos ?d"
        have size: "0 < op_size ?k y" "op_size ?k y \<le> ?k" using op_size_bounds [OF p(5), of ?k] sp by auto
        have fr: "d_limit (s_dict s1) = d_limit ?d" "d_end (s_dict s1) = d_end ?d"
            "rc_in_limit (s_rc s1) = rc_in_limit (s_rc s)" "rc_in (s_rc s1) = rc_in (s_rc s)" "same_shape m m1"
          using p(1) by (auto simp: lz_frame_def dict_frame_def)
        have "ok (lzma_symbols m1 s1) (symbols_post m1 s1)"
        proof (rule less.hyps)
          show "rc_limit_ok m1 (s_rc s1)" using less.prems(2) fr by (simp add: rc_limit_ok_def same_shape_room)
          show "dict_limit_ok (s_dict s1)" using less.prems(3) size p(6) fr by (simp add: dict_limit_ok_def)
        qed (use p fr size sp in auto)
        then show ?thesis
          unfolding xe using True
        proof (simp, elim ok_mono)
          fix z assume z: "symbols_post m1 s1 z"
          obtain r s2 m2 where ze: "z = (r, s2, m2)" by (cases z)
          have frame: "lz_frame m s m2 s2" using z lz_frame_trans [OF p(1)] by (simp add: ze)
          have pos: "rc_in_pos (s_rc s2) \<le> rc_in_limit (s_rc s) + 20" using z p(2) lim fr(3) by (simp add: ze)
          show "symbols_post m s z"
          proof (cases r)
            case False
            with frame pos show ?thesis by (simp add: ze)
          next
            case True
            with z fr(1,2) have q: "lzma_ok m2 s2" "d_pos (s_dict s1) \<le> d_pos (s_dict s2)" "d_pos (s_dict s2) \<le> d_limit ?d"
              "d_pos (s_dict s2) < d_limit ?d \<longrightarrow> lz_len (s_lzma s2) = 0 \<and> rc_limit_exceeded (s_rc s2)"
              "lz_runs (d_end ?d) (d_limit ?d - d_pos (s_dict s1)) (lz_abs m1 s1) (d_limit ?d - d_pos (s_dict s2)) (lz_abs m2 s2)"
              by (simp_all add: ze)
            have left: "?k - op_size ?k y = d_limit ?d - d_pos (s_dict s1)" using p(6) by simp
            have "lz_runs (d_end ?d) ?k (lz_abs m s) (d_limit ?d - d_pos (s_dict s2)) (lz_abs m2 s2)"
              by (rule lz_runs_symbol [OF p(5)]) (use q(5) p(7) sp left in simp_all)
            moreover have "d_pos ?d < d_pos (s_dict s2)" using q(2) p(6) size(1) by linarith
            ultimately show ?thesis using True frame pos q by (simp add: ze)
          qed
        qed
      qed
    qed
  qed
qed

lemma rc_normalize_one:
  assumes "253952 \<le> unat (rc_range r)" and "rc_in_pos r < room m (rc_in r)" and "rc_in_pos r < 2 ^ 64 - 1"
  shows "ok (rc_normalize m r) (\<lambda>r'. 16777216 \<le> unat (rc_range r') \<and> rc_in r' = rc_in r \<and>
    rc_in_limit r' = rc_in_limit r \<and> init_bytes_left r' = init_bytes_left r \<and>
    rc_in_pos r \<le> rc_in_pos r' \<and> rc_in_pos r' \<le> Suc (rc_in_pos r))"
proof (cases "unat (rc_range r) < 16777216")
  case False
  then show ?thesis by (simp add: rc_normalize_def range_test)
next
  case True
  have "unat (push_bit 8 (rc_range r)) = unat (rc_range r) * 256"
    using True unat_push_bit_small [of "rc_range r" 8] by simp
  then show ?thesis
    using True assms by (simp add: rc_normalize_def range_test ok_simps RC_SHIFT_BITS_def)
qed

text \<open>\<open>lzma_main\<close>: finish what is pending, then decode symbols until the dictionary limit or
  the input limit is reached.\<close>

definition lz_resume :: "nat \<Rightarrow> nat \<Rightarrow> (lzma_state \<times> u32 list \<times> nat) \<times> u8 list \<Rightarrow>
    nat \<times> ((lzma_state \<times> u32 list \<times> nat) \<times> u8 list)" where
  "lz_resume cap k a =
     (let n = snd (snd (fst a)) in if 0 < k \<and> 0 < n then (k - min k n, lz_finish cap k a) else (k, a))"

fun main_post :: "mem \<Rightarrow> xz_dec_lzma2 \<Rightarrow> bool \<times> xz_dec_lzma2 \<times> mem \<Rightarrow> bool" where
  "main_post m s (res, s', m') \<longleftrightarrow>
     lz_frame m s m' s' \<and> rc_in_pos (s_rc s') \<le> rc_in_limit (s_rc s) + LZMA_IN_REQUIRED \<and>
     (res \<longrightarrow> lzma_ok m' s' \<and> d_pos (s_dict s) \<le> d_pos (s_dict s') \<and> d_pos (s_dict s') \<le> d_limit (s_dict s) \<and>
        (d_pos (s_dict s) < d_limit (s_dict s) \<longrightarrow> d_pos (s_dict s) < d_pos (s_dict s')) \<and>
        (let (k, a) = lz_resume (d_end (s_dict s)) (d_limit (s_dict s) - d_pos (s_dict s)) (lz_abs m s)
         in lz_runs (d_end (s_dict s)) k a (d_limit (s_dict s) - d_pos (s_dict s')) (lz_abs m' s')))"

lemma ok_lzma_main:
  assumes "lzma_ok m s" and "rc_limit_ok m (s_rc s)" and "dict_limit_ok (s_dict s)"
    and "rc_in_pos (s_rc s) \<le> rc_in_limit (s_rc s)"
  shows "ok (lzma_main m s) (main_post m s)"
proof -
  let ?d = "s_dict s" and ?k = "d_limit (s_dict s) - d_pos (s_dict s)"
  define pre where "pre = (if dict_has_space ?d \<and> lz_len (s_lzma s) > 0
        then do { (res, s, m) \<leftarrow> lzma_repeat m s; Some (s, m) } else Some (s, m))"
  have pre: "ok pre (\<lambda>(s1, m1). lz_frame m s m1 s1 \<and> s_rc s1 = s_rc s \<and> lzma_ok m1 s1 \<and>
      d_pos ?d \<le> d_pos (s_dict s1) \<and> d_pos (s_dict s1) \<le> d_limit ?d \<and>
      (d_pos (s_dict s1) < d_limit ?d \<longrightarrow> lz_len (s_lzma s1) = 0) \<and>
      (d_pos ?d < d_limit ?d \<and> d_pos (s_dict s1) = d_pos ?d \<longrightarrow> s1 = s) \<and>
      lz_resume (d_end ?d) ?k (lz_abs m s) = (d_limit ?d - d_pos (s_dict s1), lz_abs m1 s1))"
  proof (cases "dict_has_space ?d \<and> lz_len (s_lzma s) > 0")
    case False
    have "lz_resume (d_end ?d) ?k (lz_abs m s) = (?k, lz_abs m s)"
      using False by (auto simp: lz_resume_def lz_abs_def lz_view_def dict_has_space_def)
    then show ?thesis
      using False assms by (auto simp: pre_def dict_has_space_def dict_limit_ok_def)
  next
    case True
    then have sp: "d_pos ?d < d_limit ?d" "0 < lz_len (s_lzma s)" by (auto simp: dict_has_space_def)
    have ok: "dict_ok m ?d" "lzma_params_ok (s_lzma s)" "probs_ok (lz_probs (s_lzma s))"
        "253952 \<le> unat (rc_range (s_rc s))" "lz_len (s_lzma s) \<le> 273"
      and rep: "unat (rep0 (s_lzma s)) < d_full ?d \<and> unat (rep0 (s_lzma s)) < d_size ?d"
      using assms(1) sp(2) by (auto simp: lzma_ok_def rep0_ok_def)
    have "lz_resume (d_end ?d) ?k (lz_abs m s) = (?k - min ?k (lz_len (s_lzma s)), lz_finish (d_end ?d) ?k (lz_abs m s))"
      using sp by (simp add: lz_resume_def lz_abs_def lz_view_def Let_def)
    then show ?thesis
      using True rep sp ok_lzma_repeat [OF ok(1-4) assms(3) sp ok(5)]
      unfolding pre_def by (auto simp: ok_bind elim!: ok_mono)
  qed
  show ?thesis
    unfolding lzma_main_def pre_def [symmetric]
  proof (rule ok_bindI [OF pre], clarify)
    fix s1 m1 assume f1: "lz_frame m s m1 s1" and rc1: "s_rc s1 = s_rc s" and ok1: "lzma_ok m1 s1"
      and pos1: "d_pos ?d \<le> d_pos (s_dict s1)" "d_pos (s_dict s1) \<le> d_limit ?d"
      and len1: "d_pos (s_dict s1) < d_limit ?d \<longrightarrow> lz_len (s_lzma s1) = 0"
      and same: "d_pos ?d < d_limit ?d \<and> d_pos (s_dict s1) = d_pos ?d \<longrightarrow> s1 = s"
      and resume: "lz_resume (d_end ?d) ?k (lz_abs m s) = (d_limit ?d - d_pos (s_dict s1), lz_abs m1 s1)"
    have fr: "d_limit (s_dict s1) = d_limit ?d" "d_end (s_dict s1) = d_end ?d" "same_shape m m1"
      using f1 by (auto simp: lz_frame_def dict_frame_def)
    have loop: "ok (lzma_symbols m1 s1) (symbols_post m1 s1)"
      using ok1 assms(2,3) len1 pos1 fr rc1
      by (intro ok_lzma_symbols) (auto simp: rc_limit_ok_def same_shape_room dict_limit_ok_def)
    show "ok (do { (res, s, m) \<leftarrow> lzma_symbols m1 s1;
        if \<not> res then Some (False, s, m) else do { rc \<leftarrow> rc_normalize m (s_rc s); Some (True, s\<lparr>s_rc := rc\<rparr>, m) } })
      (main_post m s)"
    proof (rule ok_bindI [OF loop])
      fix x assume x: "symbols_post m1 s1 x"
      obtain res s2 m2 where xe: "x = (res, s2, m2)" by (cases x)
      have f2: "lz_frame m s m2 s2" using x f1 by (auto simp: xe intro: lz_frame_trans)
      have pos2: "rc_in_pos (s_rc s2) \<le> rc_in_limit (s_rc s) + 20" using x rc1 assms(4) by (simp add: xe)
      show "ok (case x of (res, s, m) \<Rightarrow> if \<not> res then Some (False, s, m)
          else do { rc \<leftarrow> rc_normalize m (s_rc s); Some (True, s\<lparr>s_rc := rc\<rparr>, m) }) (main_post m s)"
      proof (cases res)
        case False
        with f2 pos2 show ?thesis by (simp add: xe LZMA_IN_REQUIRED_def)
      next
        case True
        then have ok2: "lzma_ok m2 s2" using x by (simp add: xe)
        have "rc_in (s_rc s2) = rc_in (s_rc s)" "same_shape m m2" using f2 by (auto simp: lz_frame_def)
        then have "ok (rc_normalize m2 (s_rc s2)) (\<lambda>r'. 16777216 \<le> unat (rc_range r') \<and> rc_in r' = rc_in (s_rc s2) \<and>
            rc_in_limit r' = rc_in_limit (s_rc s2) \<and> init_bytes_left r' = init_bytes_left (s_rc s2) \<and>
            rc_in_pos (s_rc s2) \<le> rc_in_pos r' \<and> rc_in_pos r' \<le> Suc (rc_in_pos (s_rc s2)))"
          using ok2 pos2 assms(2)
          by (intro rc_normalize_one) (auto simp: lzma_ok_def rc_limit_ok_def LZMA_IN_REQUIRED_def same_shape_room)
        then obtain rc where norm: "rc_normalize m2 (s_rc s2) = Some rc"
          and rc: "16777216 \<le> unat (rc_range rc)" "rc_in rc = rc_in (s_rc s2)" "rc_in_limit rc = rc_in_limit (s_rc s2)"
            "init_bytes_left rc = init_bytes_left (s_rc s2)" "rc_in_pos (s_rc s2) \<le> rc_in_pos rc"
            "rc_in_pos rc \<le> Suc (rc_in_pos (s_rc s2))"
          by (auto simp: ok_iff)
        have "lz_frame m s m2 (s2\<lparr>s_rc := rc\<rparr>)" using f2 rc by (auto simp: lz_frame_def)
        moreover have "lzma_ok m2 (s2\<lparr>s_rc := rc\<rparr>)" using ok2 rc(1) by (simp add: lzma_ok_def rep0_ok_def)
        moreover have "d_pos ?d < d_limit ?d \<longrightarrow> d_pos ?d < d_pos (s_dict s2)"
          using x True pos1 same fr assms(4) by (auto simp: xe rc_limit_exceeded_def)
        moreover have "lz_abs m2 (s2\<lparr>s_rc := rc\<rparr>) = lz_abs m2 s2" by (simp add: lz_abs_def)
        ultimately show ?thesis
          using x True pos1 pos2 rc(6) fr resume by (simp add: xe norm LZMA_IN_REQUIRED_def)
      qed
    qed
  qed
qed

section \<open>Properties byte and reset\<close>

declare props_count.simps [simp del]

lemma props_count_div:
  assumes "0 < k" and "n + p div k < 2 ^ 32"
  shows "props_count k p n = (p mod k, n + p div k)"
  using assms
proof (induction k p n rule: props_count.induct)
  case (1 k p n)
  show ?case
  proof (cases "p \<ge> k")
    case True
    have div: "p div k = Suc ((p - k) div k)" "p mod k = (p - k) mod k"
      using True "1.prems"(1) by (simp_all add: le_div_geq le_mod_geq)
    have "props_count k (p - k) (u32_add n 1) = ((p - k) mod k, u32_add n 1 + (p - k) div k)"
      using True "1.prems" div by (intro "1.IH") auto
    then show ?thesis
      using True "1.prems" div by (subst props_count.simps) simp
  next
    case False
    then show ?thesis using "1.prems"(1) by (subst props_count.simps) simp
  qed
qed

definition props_byte :: "nat \<Rightarrow> nat \<Rightarrow> nat \<Rightarrow> nat" where
  \<comment> \<open>how an encoder writes lc, lp and pb\<close>
  "props_byte lc lp pb = (pb * 5 + lp) * 9 + lc"

lemma props_byte_decode:
  assumes "lc < 9" and "lp < 5"
  shows "props_byte lc lp pb div 45 = pb" and "props_byte lc lp pb mod 45 = lp * 9 + lc"
    and "(lp * 9 + lc) div 9 = lp" and "(lp * 9 + lc) mod 9 = lc"
proof -
  have eq: "props_byte lc lp pb = (lp * 9 + lc) + 45 * pb" by (simp add: props_byte_def)
  have "lp * 9 + lc < 45" using assms by linarith
  then show "props_byte lc lp pb div 45 = pb" and "props_byte lc lp pb mod 45 = lp * 9 + lc"
    by (simp_all add: eq)
  show "(lp * 9 + lc) div 9 = lp" and "(lp * 9 + lc) mod 9 = lc"
    using assms(1) by (simp_all add: div_add1_eq)
qed

lemma props_byte_of: "p = props_byte (p mod 45 mod 9) (p mod 45 div 9) (p div 45)"
proof -
  have "p = p div 45 * 45 + p mod 45" and "p mod 45 = p mod 45 div 9 * 9 + p mod 45 mod 9"
    by (metis div_mult_mod_eq)+
  then have "p = p div 45 * 45 + (p mod 45 div 9 * 9 + p mod 45 mod 9)" by argo
  then show ?thesis unfolding props_byte_def by (simp add: algebra_simps)
qed

definition set_params :: "nat \<Rightarrow> nat \<Rightarrow> nat \<Rightarrow> xz_dec_lzma2 \<Rightarrow> xz_dec_lzma2" where
  "set_params lc lp pb s =
     s\<lparr>s_lzma := (s_lzma s)\<lparr>pos_mask := 2 ^ pb - 1, lz_lc := lc, literal_pos_mask := 2 ^ lp - 1\<rparr>\<rparr>"

lemma lzma_props_eq:
  assumes "unat p = props_byte lc lp pb" and "lc < 9" and "lp < 5" and "pb < 5"
  shows "fst (lzma_props s p) = (lc + lp \<le> 4)"
    and "lc + lp \<le> 4 \<Longrightarrow> lzma_props s p = (True, lzma_reset (set_params lc lp pb s))"
proof -
  have pb: "props_count 45 (unat p) 0 = (lp * 9 + lc, pb)"
    using props_count_div [of 45 0 "unat p"] props_byte_decode [OF assms(2,3)] assms by simp
  note pb = pb [unfolded assms(1)]
  have lp: "props_count 9 (lp * 9 + lc) 0 = (lc, lp)"
    using props_count_div [of 9 0 "lp * 9 + lc"] props_byte_decode [OF assms(2,3)] assms by simp
  have le: "\<not> unat p > (4 * 5 + 4) * 9 + 8" using assms by (simp add: props_byte_def)
  show "fst (lzma_props s p) = (lc + lp \<le> 4)"
    using le assms unfolding lzma_props_def by (simp add: pb lp Let_def)
  show "lzma_props s p = (True, lzma_reset (set_params lc lp pb s))" if "lc + lp \<le> 4"
    using le that assms unfolding lzma_props_def by (simp add: pb lp Let_def set_params_def)
qed

lemma lzma_props_range: "fst (lzma_props s p) \<Longrightarrow> unat p < 225"
  unfolding lzma_props_def by (simp split: if_splits)

lemma lzma_props_cases:
  assumes "fst (lzma_props s p)"
  obtains lc lp pb where "unat p = props_byte lc lp pb" and "lc + lp \<le> 4" and "pb < 5"
    and "lzma_props s p = (True, lzma_reset (set_params lc lp pb s))"
proof -
  let ?p = "unat p"
  have p: "?p < 225" using assms by (rule lzma_props_range)
  have b: "?p mod 45 mod 9 < 9" "?p mod 45 div 9 < 5" "?p div 45 < 5" using p by (auto simp: less_mult_imp_div_less)
  note eq = lzma_props_eq [OF props_byte_of b, of s]
  show thesis
    using assms eq that [OF props_byte_of] b by auto
qed

lemma probs_reset: "probs_ok (lz_probs (s_lzma (lzma_reset s)))"
  by (simp add: probs_ok_def lzma_reset_def prob_bounded_def RC_BIT_MODEL_TOTAL_def)

lemma reset_sel [simp]:
  "s_dict (lzma_reset s) = s_dict s" "s_lzma2 (lzma_reset s) = s_lzma2 s" "temp_size (lzma_reset s) = temp_size s"
  "lz_view (s_lzma (lzma_reset s)) = (STATE_LIT_LIT, [0, 0, 0, 0], 0)"
  "lzma_params_ok (s_lzma (lzma_reset s)) = lzma_params_ok (s_lzma s)"
  "rc_range (s_rc (lzma_reset s)) = -1" "init_bytes_left (s_rc (lzma_reset s)) = RC_INIT_BYTES"
  by (simp_all add: lzma_reset_def lz_view_def lzma_params_ok_def rc_reset_def)

text \<open>A reset decoder is well-formed with any well-formed dictionary.\<close>

lemma lzma_ok_reset: "dict_ok m (s_dict s) \<Longrightarrow> lzma_params_ok (s_lzma s) \<Longrightarrow> lzma_ok m (lzma_reset s)"
proof -
  assume "dict_ok m (s_dict s)" and "lzma_params_ok (s_lzma s)"
  moreover have "lz_state (s_lzma (lzma_reset s)) = STATE_LIT_LIT" "lz_len (s_lzma (lzma_reset s)) = 0"
    by (simp_all add: lzma_reset_def)
  moreover have "unat (- 1 :: u32) = 4294967295" by (simp add: unsigned_minus_1_eq_mask mask_eq_exp_minus_1)
  ultimately show ?thesis
    using probs_reset [of s] by (simp add: lzma_ok_def rep0_ok_def lzma_state_is_literal_def LIT_STATES_def)
qed

lemma params_set: "lc + lp \<le> 4 \<Longrightarrow> pb < 5 \<Longrightarrow> lzma_params_ok (s_lzma (set_params lc lp pb s))"
  unfolding lzma_params_ok_def set_params_def
  by (rule exI [of _ lp], rule exI [of _ pb]) simp

text \<open>Resuming an interrupted match: copying \<open>j\<close> more bytes after \<open>k\<close> is copying
  \<open>k + j\<close> at once.\<close>

lemma lz_copy_add: "lz_copy (k + j) dist h = lz_copy j dist (lz_copy k dist h)"
  by (induction k dist h rule: lz_copy.induct) simp_all

section \<open>Properties\<close>

definition lzma_sample :: xz_dec_lzma2 where
  \<comment> \<open>a decoder in the middle of a chunk, at the start of a symbol\<close>
  "lzma_sample =
     \<lparr>s_rc = (rc_start 0)\<lparr>rc_in_pos := 0, rc_in_limit := 20\<rparr>, s_dict = ring_sample,
      s_lzma2 = \<lparr>sequence = SEQ_LZMA_RUN, next_sequence = SEQ_LZMA_PREPARE, uncompressed = 5, compressed = 30,
                 need_dict_reset = False, need_props = False, pedantic_microlzma = False\<rparr>,
      s_lzma = \<lparr>rep0 = 0, rep1 = 0, rep2 = 0, rep3 = 0, lz_state = STATE_LIT_LIT, lz_len = 0, lz_lc = 3,
                literal_pos_mask = 0, pos_mask = 3, lz_probs = (\<lambda>i. 1024)\<rparr>,
      temp_size = 0\<rparr>"

definition lzma_memory :: mem where
  "lzma_memory = ring_memory(In_Block := replicate 64 0)"

lemma lzma_memory_ring: "dict_ok lzma_memory ring_sample" "dict_hist lzma_memory ring_sample = [3, 2, 1]"
proof -
  show "dict_ok lzma_memory ring_sample"
    by (simp add: lzma_memory_def ring_defs dict_ok_def room_def)
  have "dict_hist lzma_memory ring_sample = dict_hist ring_memory ring_sample"
    by (rule dict_hist_frame) (simp add: lzma_memory_def ring_sample_def)
  then show "dict_hist lzma_memory ring_sample = [3, 2, 1]" by (simp only: ring_hist)
qed

lemma lzma_params_sample: "lzma_params_ok (s_lzma lzma_sample)"
  unfolding lzma_params_ok_def by (rule exI [of _ 0], rule exI [of _ 2]) (simp add: lzma_sample_def)

lemma lzma_sample_ok: "lzma_ok lzma_memory lzma_sample"
proof -
  have "probs_ok (lz_probs (s_lzma lzma_sample))"
    by (simp add: lzma_sample_def probs_ok_def prob_bounded_def)
  moreover have "rep0_ok lzma_sample"
    by (simp add: rep0_ok_def lzma_sample_def ring_sample_def)
  ultimately show ?thesis
    using lzma_params_sample lzma_memory_ring(1)
    by (simp add: lzma_ok_def) (simp add: lzma_sample_def rc_start_def)
qed

lemma lzma_sample_room: "rc_room lzma_memory (s_rc lzma_sample) 20" "rc_limit_ok lzma_memory (s_rc lzma_sample)"
  by (simp_all add: rc_room_def rc_limit_ok_def room_def lzma_sample_def rc_start_def lzma_memory_def LZMA_IN_REQUIRED_def)

lemma lzma_sample_limit: "dict_limit_ok (s_dict lzma_sample)" "d_pos (s_dict lzma_sample) < d_limit (s_dict lzma_sample)"
  by (simp_all add: dict_limit_ok_def lzma_sample_def ring_sample_def)

text \<open>
  C3: one pass of the loop of \<open>lzma_main\<close> refines the abstract LZMA decoder. From a
  well-formed state with free dictionary space and 20 readable bytes it stays within its
  memory, terminates and takes at most 20 input bytes; when it does not report corrupt data,
  it has performed one valid symbol: a literal, a new match of length 2 to 273, or one of
  the four repeated matches, with the distance list, the symbol history and the byte history
  updated as the symbol says.
\<close>

theorem lzma_symbol_refines:
  assumes "lzma_ok m s" and "rc_room m (s_rc s) 20" and "dict_limit_ok (s_dict s)"
    and "d_pos (s_dict s) < d_limit (s_dict s)" and "lz_len (s_lzma s) = 0"
  shows "ok (lzma_symbol m s) (\<lambda>(res, s', m').
     rc_in_pos (s_rc s') \<le> rc_in_pos (s_rc s) + 20 \<and>
     (\<forall>k. k \<noteq> fst (d_buf (s_dict s)) \<longrightarrow> m' k = m k) \<and>
     (res \<longrightarrow> lzma_ok m' s' \<and>
        (\<exists>x. op_valid x \<and>
           d_pos (s_dict s') = d_pos (s_dict s) + op_size (d_limit (s_dict s) - d_pos (s_dict s)) x \<and>
           lz_abs m' s' =
           lz_step (d_end (s_dict s)) (d_limit (s_dict s) - d_pos (s_dict s)) x (lz_abs m s))))"
  by (rule ok_mono [OF ok_lzma_symbol [OF assms]]) (auto simp: lz_frame_def)

theorem lzma_symbol_refines_witness:
  "\<exists>res s' m'. lzma_symbol lzma_memory lzma_sample = Some (res, s', m') \<and> rc_in_pos (s_rc s') \<le> 20"
proof -
  have "lz_len (s_lzma lzma_sample) = 0" "rc_in_pos (s_rc lzma_sample) = 0" by (simp_all add: lzma_sample_def)
  from lzma_symbol_refines [OF lzma_sample_ok lzma_sample_room(1) lzma_sample_limit this(1)] this(2)
  show ?thesis by (auto simp: ok_iff)
qed

text \<open>
  C5: \<open>lzma_main\<close> terminates without leaving its buffers whenever
  \<open>LZMA_IN_REQUIRED\<close> bytes may be read from its input limit on; it never reads further,
  decodes at least one byte when there is space, and what it decodes is the interrupted
  match of the previous call followed by a run of valid symbols of the abstract decoder.
\<close>

theorem lzma_main_runs_symbols:
  assumes "lzma_ok m s" and "rc_limit_ok m (s_rc s)" and "dict_limit_ok (s_dict s)"
    and "rc_in_pos (s_rc s) \<le> rc_in_limit (s_rc s)"
  shows "ok (lzma_main m s) (\<lambda>(res, s', m').
     rc_in_pos (s_rc s') \<le> rc_in_limit (s_rc s) + LZMA_IN_REQUIRED \<and>
     (\<forall>k. k \<noteq> fst (d_buf (s_dict s)) \<longrightarrow> m' k = m k) \<and>
     (res \<longrightarrow> lzma_ok m' s' \<and> d_pos (s_dict s') \<le> d_limit (s_dict s) \<and>
        (d_pos (s_dict s) < d_limit (s_dict s) \<longrightarrow> d_pos (s_dict s) < d_pos (s_dict s')) \<and>
        (let (k, a) = lz_resume (d_end (s_dict s)) (d_limit (s_dict s) - d_pos (s_dict s)) (lz_abs m s)
         in lz_runs (d_end (s_dict s)) k a (d_limit (s_dict s) - d_pos (s_dict s')) (lz_abs m' s'))))"
  by (rule ok_mono [OF ok_lzma_main [OF assms]]) (auto simp: lz_frame_def)

theorem lzma_main_runs_symbols_witness:
  "\<exists>res s' m'. lzma_main lzma_memory lzma_sample = Some (res, s', m') \<and> rc_in_pos (s_rc s') \<le> 41"
proof -
  have "rc_in_pos (s_rc lzma_sample) \<le> rc_in_limit (s_rc lzma_sample)"
      "rc_in_limit (s_rc lzma_sample) = 20" by (simp_all add: lzma_sample_def)
  from lzma_main_runs_symbols [OF lzma_sample_ok lzma_sample_room(2) lzma_sample_limit(1) this(1)] this(2)
  show ?thesis by (auto simp: ok_iff LZMA_IN_REQUIRED_def)
qed

text \<open>
  C24: \<open>lzma_props\<close> accepts exactly the bytes that encode lc, lp and pb with
  lc + lp at most 4 and pb at most 4, and then stores lc and the two masks and resets the
  decoder.
\<close>

theorem lzma_props_exact:
  "fst (lzma_props s p) \<longleftrightarrow> (\<exists>lc lp pb. unat p = props_byte lc lp pb \<and> lc + lp \<le> 4 \<and> pb \<le> 4 \<and>
     snd (lzma_props s p) = lzma_reset (set_params lc lp pb s))"
proof
  assume "fst (lzma_props s p)"
  then show "\<exists>lc lp pb. unat p = props_byte lc lp pb \<and> lc + lp \<le> 4 \<and> pb \<le> 4 \<and>
      snd (lzma_props s p) = lzma_reset (set_params lc lp pb s)"
  proof (cases rule: lzma_props_cases)
    case (1 lc lp pb)
    then show ?thesis by (intro exI [of _ lc] exI [of _ lp] exI [of _ pb]) simp
  qed
next
  assume "\<exists>lc lp pb. unat p = props_byte lc lp pb \<and> lc + lp \<le> 4 \<and> pb \<le> 4 \<and>
      snd (lzma_props s p) = lzma_reset (set_params lc lp pb s)"
  then obtain lc lp pb where "unat p = props_byte lc lp pb" "lc + lp \<le> 4" "pb \<le> 4" by blast
  then show "fst (lzma_props s p)" using lzma_props_eq(1) [of p lc lp pb s] by simp
qed


end
