(* ===== verification/Lzma2.thy ===== *)
theory Lzma2
  imports Lzma
begin

unbundle bit_operations_syntax

text \<open>
  The LZMA2 layer of \<open>xz_dec_lzma2.c\<close>: \<open>lzma2_lzma\<close>, which gives the LZMA decoder
  windows of input in which it may read ahead, the chunk state machine
  \<open>xz_dec_lzma2_run\<close>, and creation, reset and destruction of the decoder.

  \<open>temp.buf\<close> is the block \<open>Lzma_Temp\<close> of 63 bytes. The allocators are parameters:
  \<open>kmalloc\<close> gives the decoder structure with arbitrary contents or nothing, and
  \<open>vmalloc n\<close> gives \<open>n\<close> bytes with arbitrary contents or nothing.
\<close>

section \<open>The code\<close>

definition TEMP_BUF_SIZE :: nat where
  "TEMP_BUF_SIZE = 3 * LZMA_IN_REQUIRED"

definition set_compressed :: "nat \<Rightarrow> xz_dec_lzma2 \<Rightarrow> xz_dec_lzma2" where
  "set_compressed n s = s\<lparr>s_lzma2 := (s_lzma2 s)\<lparr>compressed := n\<rparr>\<rparr>"

definition set_uncompressed :: "nat \<Rightarrow> xz_dec_lzma2 \<Rightarrow> xz_dec_lzma2" where
  "set_uncompressed n s = s\<lparr>s_lzma2 := (s_lzma2 s)\<lparr>uncompressed := n\<rparr>\<rparr>"

definition set_sequence :: "lzma2_seq \<Rightarrow> xz_dec_lzma2 \<Rightarrow> xz_dec_lzma2" where
  "set_sequence q s = s\<lparr>s_lzma2 := (s_lzma2 s)\<lparr>sequence := q\<rparr>\<rparr>"

definition set_next :: "lzma2_seq \<Rightarrow> xz_dec_lzma2 \<Rightarrow> xz_dec_lzma2" where
  "set_next q s = s\<lparr>s_lzma2 := (s_lzma2 s)\<lparr>next_sequence := q\<rparr>\<rparr>"

definition rc_window :: "ptr \<Rightarrow> nat \<Rightarrow> nat \<Rightarrow> xz_dec_lzma2 \<Rightarrow> xz_dec_lzma2" where
  \<comment> \<open>the assignments to \<open>rc.in\<close>, \<open>rc.in_pos\<close> and \<open>rc.in_limit\<close>\<close>
  "rc_window p pos limit s = s\<lparr>s_rc := (s_rc s)\<lparr>rc_in := p, rc_in_pos := pos, rc_in_limit := limit\<rparr>\<rparr>"

type_synonym lzma2_result = "bool option \<times> xz_dec_lzma2 \<times> xz_buf \<times> mem"
  \<comment> \<open>\<open>Some r\<close>: the function returned \<open>r\<close>; \<open>None\<close>: it goes on\<close>

definition lzma2_decode_temp ::
  "mem \<Rightarrow> xz_dec_lzma2 \<Rightarrow> xz_buf \<Rightarrow> nat \<Rightarrow> nat \<Rightarrow> lzma2_result option" where
  \<comment> \<open>decode from \<open>temp.buf\<close>, which holds \<open>n\<close> bytes\<close>
  "lzma2_decode_temp m s b n limit = do {
     let s = rc_window (Lzma_Temp, 0) 0 limit s;
     (res, s, m) \<leftarrow> lzma_main m s;
     let in_pos = rc_in_pos (s_rc s);
     if \<not> res \<or> in_pos > n then Some (Some False, s, b, m)
     else do {
       let s = set_compressed (u32_sub (compressed (s_lzma2 s)) (u32_of in_pos)) s;
       if in_pos < temp_size s then do {
         let s = s\<lparr>temp_size := u32_sub (temp_size s) (u32_of in_pos)\<rparr>;
         m \<leftarrow> memmove m (Lzma_Temp, 0) (Lzma_Temp, in_pos) (temp_size s);
         Some (Some True, s, b, m)
       } else
         Some (None, s\<lparr>temp_size := 0\<rparr>, b\<lparr>b_in_pos := sz_add (b_in_pos b) (sz_sub in_pos (temp_size s))\<rparr>, m)
     }
   }"

definition lzma2_temp_size :: "xz_dec_lzma2 \<Rightarrow> xz_buf \<Rightarrow> nat" where
  \<comment> \<open>\<open>tmp\<close>, the number of bytes to add to \<open>temp.buf\<close>\<close>
  "lzma2_temp_size s b =
     (let in_avail = sz_sub (b_in_size b) (b_in_pos b);
          tmp = u32_sub (2 * LZMA_IN_REQUIRED) (temp_size s);
          tmp = (if tmp > u32_sub (compressed (s_lzma2 s)) (temp_size s)
                 then u32_sub (compressed (s_lzma2 s)) (temp_size s) else tmp)
      in if tmp > in_avail then u32_of in_avail else tmp)"

definition lzma2_temp :: "mem \<Rightarrow> xz_dec_lzma2 \<Rightarrow> xz_buf \<Rightarrow> lzma2_result option" where
  "lzma2_temp m s b = do {
     let tmp = lzma2_temp_size s b;
     m \<leftarrow> memcpy m (Lzma_Temp, temp_size s) (ptr_add (b_in b) (b_in_pos b)) tmp;
     let n = u32_add (temp_size s) tmp;
     if n = compressed (s_lzma2 s) then do {
       m \<leftarrow> memzero m (Lzma_Temp, n) (sz_sub TEMP_BUF_SIZE n);
       lzma2_decode_temp m s b n n
     }
     else if n < LZMA_IN_REQUIRED then
       Some (Some True, s\<lparr>temp_size := n\<rparr>, b\<lparr>b_in_pos := sz_add (b_in_pos b) tmp\<rparr>, m)
     else lzma2_decode_temp m s b n (u32_sub n LZMA_IN_REQUIRED)
   }"

definition lzma2_direct :: "mem \<Rightarrow> xz_dec_lzma2 \<Rightarrow> xz_buf \<Rightarrow> lzma2_result option" where
  "lzma2_direct m s b = do {
     let in_avail = sz_sub (b_in_size b) (b_in_pos b);
     if in_avail \<ge> LZMA_IN_REQUIRED then do {
       let limit = (if in_avail \<ge> u32_add (compressed (s_lzma2 s)) LZMA_IN_REQUIRED
                    then sz_add (b_in_pos b) (compressed (s_lzma2 s))
                    else sz_sub (b_in_size b) LZMA_IN_REQUIRED);
       let s = rc_window (b_in b) (b_in_pos b) limit s;
       (res, s, m) \<leftarrow> lzma_main m s;
       let in_avail = sz_sub (rc_in_pos (s_rc s)) (b_in_pos b);
       if \<not> res \<or> in_avail > compressed (s_lzma2 s) then Some (Some False, s, b, m)
       else Some (None, set_compressed (u32_sub (compressed (s_lzma2 s)) (u32_of in_avail)) s,
                  b\<lparr>b_in_pos := rc_in_pos (s_rc s)\<rparr>, m)
     } else Some (None, s, b, m)
   }"

definition lzma2_tail :: "mem \<Rightarrow> xz_dec_lzma2 \<Rightarrow> xz_buf \<Rightarrow> (xz_dec_lzma2 \<times> xz_buf \<times> mem) option" where
  "lzma2_tail m s b = do {
     let in_avail = sz_sub (b_in_size b) (b_in_pos b);
     if in_avail < LZMA_IN_REQUIRED then do {
       let in_avail = (if in_avail > compressed (s_lzma2 s) then compressed (s_lzma2 s) else in_avail);
       m \<leftarrow> memcpy m (Lzma_Temp, 0) (ptr_add (b_in b) (b_in_pos b)) in_avail;
       Some (s\<lparr>temp_size := u32_of in_avail\<rparr>, b\<lparr>b_in_pos := sz_add (b_in_pos b) in_avail\<rparr>, m)
     } else Some (s, b, m)
   }"

definition lzma2_lzma ::
  "mem \<Rightarrow> xz_dec_lzma2 \<Rightarrow> xz_buf \<Rightarrow> (bool \<times> xz_dec_lzma2 \<times> xz_buf \<times> mem) option" where
  "lzma2_lzma m s b = do {
     (r, s, b, m) \<leftarrow>
       (if temp_size s > 0 \<or> compressed (s_lzma2 s) = 0 then lzma2_temp m s b else Some (None, s, b, m));
     case r of Some res \<Rightarrow> Some (res, s, b, m)
     | None \<Rightarrow> do {
         (r, s, b, m) \<leftarrow> lzma2_direct m s b;
         case r of Some res \<Rightarrow> Some (res, s, b, m)
         | None \<Rightarrow> do {
             (s, b, m) \<leftarrow> lzma2_tail m s b;
             Some (True, s, b, m)
           }
       }
   }"

definition dict_update :: "(dictionary \<Rightarrow> dictionary) \<Rightarrow> xz_dec_lzma2 \<Rightarrow> xz_dec_lzma2" where
  "dict_update f s = s\<lparr>s_dict := f (s_dict s)\<rparr>"

type_synonym step_result = "xz_ret option \<times> xz_dec_lzma2 \<times> xz_buf \<times> mem"

definition next_byte :: "mem \<Rightarrow> xz_buf \<Rightarrow> (nat \<times> xz_buf) option" where
  \<comment> \<open>\<open>b->in[b->in_pos++]\<close>\<close>
  "next_byte m b = do { byte \<leftarrow> in_byte m b; Some (unat byte, b\<lparr>b_in_pos := sz_add (b_in_pos b) 1\<rparr>) }"

definition lzma2_control :: "nat \<Rightarrow> xz_buf \<Rightarrow> xz_dec_lzma2 \<Rightarrow> xz_ret option \<times> xz_dec_lzma2" where
  \<comment> \<open>\<open>SEQ_CONTROL\<close> after the control byte \<open>tmp\<close> has been read\<close>
  "lzma2_control tmp b s =
     (if tmp = 0x00 then (Some XZ_STREAM_END, s)
      else if (\<not> (tmp \<ge> 0xE0 \<or> tmp = 0x01)) \<and> need_dict_reset (s_lzma2 s) then (Some XZ_DATA_ERROR, s)
      else
        let s = (if tmp \<ge> 0xE0 \<or> tmp = 0x01
                 then s\<lparr>s_lzma2 := (s_lzma2 s)\<lparr>need_props := True, need_dict_reset := False\<rparr>,
                        s_dict := dict_reset (s_dict s) b\<rparr>
                 else s)
        in if tmp \<ge> 0x80 then
             let s = set_sequence SEQ_UNCOMPRESSED_1 (set_uncompressed (push_bit 16 (tmp AND 0x1F)) s)
             in if tmp \<ge> 0xC0 then
                  (None, set_next SEQ_PROPERTIES (s\<lparr>s_lzma2 := (s_lzma2 s)\<lparr>need_props := False\<rparr>\<rparr>))
                else if need_props (s_lzma2 s) then (Some XZ_DATA_ERROR, s)
                else let s = set_next SEQ_LZMA_PREPARE s
                     in (None, if tmp \<ge> 0xA0 then lzma_reset s else s)
           else if tmp > 0x02 then (Some XZ_DATA_ERROR, s)
           else (None, set_next SEQ_COPY (set_sequence SEQ_COMPRESSED_0 s)))"

definition lzma2_run_chunk :: "xz_env \<Rightarrow> mem \<Rightarrow> xz_dec_lzma2 \<Rightarrow> xz_buf \<Rightarrow> step_result option" where
  \<comment> \<open>\<open>SEQ_LZMA_RUN\<close>\<close>
  "lzma2_run_chunk e m s b = do {
     let s = dict_update (\<lambda>d. dict_limit d (min (sz_sub (b_out_size b) (b_out_pos b)) (uncompressed (s_lzma2 s)))) s;
     (res, s, b, m) \<leftarrow> lzma2_lzma m s b;
     if \<not> res then Some (Some XZ_DATA_ERROR, s, b, m)
     else do {
       (n, dict, b, m) \<leftarrow> dict_flush e m (s_dict s) b;
       let s = set_uncompressed (u32_sub (uncompressed (s_lzma2 s)) n) (s\<lparr>s_dict := dict\<rparr>);
       if uncompressed (s_lzma2 s) = 0 then
         if compressed (s_lzma2 s) > 0 \<or> lz_len (s_lzma s) > 0 \<or> \<not> rc_is_finished (s_rc s)
         then Some (Some XZ_DATA_ERROR, s, b, m)
         else Some (None, set_sequence SEQ_CONTROL (s\<lparr>s_rc := rc_reset (s_rc s)\<rparr>), b, m)
       else if b_out_pos b = b_out_size b
               \<or> (b_in_pos b = b_in_size b \<and> temp_size s < compressed (s_lzma2 s))
       then Some (Some XZ_OK, s, b, m)
       else Some (None, s, b, m)
     }
   }"

definition lzma2_prepare :: "xz_env \<Rightarrow> mem \<Rightarrow> xz_dec_lzma2 \<Rightarrow> xz_buf \<Rightarrow> step_result option" where
  \<comment> \<open>\<open>SEQ_LZMA_PREPARE\<close>, falling through to \<open>SEQ_LZMA_RUN\<close>\<close>
  "lzma2_prepare e m s b = do {
     if compressed (s_lzma2 s) < RC_INIT_BYTES then Some (Some XZ_DATA_ERROR, s, b, m)
     else do {
       (done, rc, b) \<leftarrow> rc_read_init m (s_rc s) b;
       let s = s\<lparr>s_rc := rc\<rparr>;
       if \<not> done then Some (Some XZ_OK, s, b, m)
       else lzma2_run_chunk e m
              (set_sequence SEQ_LZMA_RUN (set_compressed (u32_sub (compressed (s_lzma2 s)) RC_INIT_BYTES) s)) b
     }
   }"

definition lzma2_step :: "xz_env \<Rightarrow> mem \<Rightarrow> xz_dec_lzma2 \<Rightarrow> xz_buf \<Rightarrow> step_result option" where
  \<comment> \<open>one pass of the loop of \<open>xz_dec_lzma2_run\<close>; \<open>Some ret\<close> is its \<open>return\<close>\<close>
  "lzma2_step e m s b =
     (case sequence (s_lzma2 s) of
        SEQ_CONTROL \<Rightarrow> do {
          (tmp, b) \<leftarrow> next_byte m b;
          let (r, s) = lzma2_control tmp b s;
          Some (r, s, b, m)
        }
      | SEQ_UNCOMPRESSED_1 \<Rightarrow> do {
          (byte, b) \<leftarrow> next_byte m b;
          Some (None, set_sequence SEQ_UNCOMPRESSED_2
            (set_uncompressed (u32_add (uncompressed (s_lzma2 s)) (push_bit 8 byte)) s), b, m)
        }
      | SEQ_UNCOMPRESSED_2 \<Rightarrow> do {
          (byte, b) \<leftarrow> next_byte m b;
          Some (None, set_sequence SEQ_COMPRESSED_0
            (set_uncompressed (u32_add (uncompressed (s_lzma2 s)) (u32_add byte 1)) s), b, m)
        }
      | SEQ_COMPRESSED_0 \<Rightarrow> do {
          (byte, b) \<leftarrow> next_byte m b;
          Some (None, set_sequence SEQ_COMPRESSED_1 (set_compressed (push_bit 8 byte) s), b, m)
        }
      | SEQ_COMPRESSED_1 \<Rightarrow> do {
          (byte, b) \<leftarrow> next_byte m b;
          Some (None, set_sequence (next_sequence (s_lzma2 s))
            (set_compressed (u32_add (compressed (s_lzma2 s)) (u32_add byte 1)) s), b, m)
        }
      | SEQ_PROPERTIES \<Rightarrow> do {
          byte \<leftarrow> in_byte m b;
          let b = b\<lparr>b_in_pos := sz_add (b_in_pos b) 1\<rparr>;
          let (good, s) = lzma_props s byte;
          if \<not> good then Some (Some XZ_DATA_ERROR, s, b, m)
          else lzma2_prepare e m (set_sequence SEQ_LZMA_PREPARE s) b
        }
      | SEQ_LZMA_PREPARE \<Rightarrow> lzma2_prepare e m s b
      | SEQ_LZMA_RUN \<Rightarrow> lzma2_run_chunk e m s b
      | SEQ_COPY \<Rightarrow> do {
          (left, dict, b, m) \<leftarrow> dict_uncompressed m (s_dict s) b (compressed (s_lzma2 s));
          let s = set_compressed left (s\<lparr>s_dict := dict\<rparr>);
          if left > 0 then Some (Some XZ_OK, s, b, m)
          else Some (None, set_sequence SEQ_CONTROL s, b, m)
        })"

partial_function (option) xz_dec_lzma2_run ::
  "xz_env \<Rightarrow> mem \<Rightarrow> xz_dec_lzma2 \<Rightarrow> xz_buf \<Rightarrow> (xz_ret \<times> xz_dec_lzma2 \<times> xz_buf \<times> mem) option" where
  "xz_dec_lzma2_run e m s b =
     (if b_in_pos b < b_in_size b \<or> sequence (s_lzma2 s) = SEQ_LZMA_RUN then do {
        (r, s, b, m) \<leftarrow> lzma2_step e m s b;
        case r of Some ret \<Rightarrow> Some (ret, s, b, m) | None \<Rightarrow> xz_dec_lzma2_run e m s b
      }
      else Some (XZ_OK, s, b, m))"

definition xz_dec_lzma2_create ::
  "xz_dec_lzma2 option \<Rightarrow> (nat \<Rightarrow> u8 list option) \<Rightarrow> mem \<Rightarrow> xz_mode \<Rightarrow> nat \<Rightarrow> xz_dec_lzma2 option \<times> mem" where
  \<comment> \<open>\<open>kmalloc\<close> stands for the memory it returned, with whatever it contains\<close>
  "xz_dec_lzma2_create kmalloc vmalloc m mode dict_max =
     (case kmalloc of None \<Rightarrow> (None, m)
      | Some s \<Rightarrow>
          let s = dict_update (\<lambda>d. d\<lparr>d_mode := mode, d_size_max := dict_max\<rparr>) s
          in if DEC_IS_PREALLOC mode then
               (case vmalloc dict_max of None \<Rightarrow> (None, m)
                | Some bytes \<Rightarrow> (Some (dict_update (\<lambda>d. d\<lparr>d_buf := (Dict_Block, 0)\<rparr>) s), m(Dict_Block := bytes)))
             else if DEC_IS_DYNALLOC mode then
               (Some (dict_update (\<lambda>d. d\<lparr>d_buf := (Null_Block, 0), d_allocated := 0\<rparr>) s), m)
             else (Some s, m))"

definition xz_dec_lzma2_reset ::
  "(nat \<Rightarrow> u8 list option) \<Rightarrow> mem \<Rightarrow> xz_dec_lzma2 \<Rightarrow> u8 \<Rightarrow> xz_ret \<times> xz_dec_lzma2 \<times> mem" where
  "xz_dec_lzma2_reset vmalloc m s props =
     (if unat props > 39 then (XZ_OPTIONS_ERROR, s, m)
      else
        let size = u32_of (push_bit (unat props div 2 + 11) (2 + unat props mod 2));
            s = dict_update (\<lambda>d. d\<lparr>d_size := size\<rparr>) s;
            finish = (\<lambda>s. s\<lparr>s_lzma2 := (s_lzma2 s)\<lparr>sequence := SEQ_CONTROL, need_dict_reset := True\<rparr>, temp_size := 0\<rparr>)
        in if DEC_IS_MULTI (d_mode (s_dict s)) then
             if size > d_size_max (s_dict s) then (XZ_MEMLIMIT_ERROR, s, m)
             else
               let s = dict_update (\<lambda>d. d\<lparr>d_end := size\<rparr>) s
               in if DEC_IS_DYNALLOC (d_mode (s_dict s)) \<and> d_allocated (s_dict s) < size then
                    (case vmalloc size of
                       None \<Rightarrow> (XZ_MEM_ERROR, dict_update (\<lambda>d. d\<lparr>d_buf := (Null_Block, 0), d_allocated := 0\<rparr>) s, m(Dict_Block := []))
                     | Some bytes \<Rightarrow>
                         (XZ_OK, finish (dict_update (\<lambda>d. d\<lparr>d_buf := (Dict_Block, 0), d_allocated := size\<rparr>) s),
                          m(Dict_Block := bytes)))
                  else (XZ_OK, finish s, m)
           else (XZ_OK, finish s, m))"

definition xz_dec_lzma2_end :: "mem \<Rightarrow> xz_dec_lzma2 \<Rightarrow> mem" where
  \<comment> \<open>what is left of memory; the structure itself is gone\<close>
  "xz_dec_lzma2_end m s = (if DEC_IS_MULTI (d_mode (s_dict s)) then m(Dict_Block := []) else m)"

section \<open>The input windows\<close>

lemma set_lz2_sel [simp]:
  "s_dict (set_compressed n s) = s_dict s" "s_rc (set_compressed n s) = s_rc s"
  "s_lzma (set_compressed n s) = s_lzma s" "temp_size (set_compressed n s) = temp_size s"
  "s_lzma2 (set_compressed n s) = (s_lzma2 s)\<lparr>compressed := n\<rparr>"
  "s_dict (set_uncompressed n s) = s_dict s" "s_rc (set_uncompressed n s) = s_rc s"
  "s_lzma (set_uncompressed n s) = s_lzma s" "temp_size (set_uncompressed n s) = temp_size s"
  "s_lzma2 (set_uncompressed n s) = (s_lzma2 s)\<lparr>uncompressed := n\<rparr>"
  "s_dict (set_sequence q s) = s_dict s" "s_rc (set_sequence q s) = s_rc s"
  "s_lzma (set_sequence q s) = s_lzma s" "temp_size (set_sequence q s) = temp_size s"
  "s_lzma2 (set_sequence q s) = (s_lzma2 s)\<lparr>sequence := q\<rparr>"
  "s_dict (set_next q s) = s_dict s" "s_rc (set_next q s) = s_rc s"
  "s_lzma (set_next q s) = s_lzma s" "temp_size (set_next q s) = temp_size s"
  "s_lzma2 (set_next q s) = (s_lzma2 s)\<lparr>next_sequence := q\<rparr>"
  "s_dict (dict_update f s) = f (s_dict s)" "s_rc (dict_update f s) = s_rc s"
  "s_lzma (dict_update f s) = s_lzma s" "temp_size (dict_update f s) = temp_size s"
  "s_lzma2 (dict_update f s) = s_lzma2 s"
  "s_dict (rc_window p i l s) = s_dict s" "s_lzma (rc_window p i l s) = s_lzma s"
  "temp_size (rc_window p i l s) = temp_size s" "s_lzma2 (rc_window p i l s) = s_lzma2 s"
  "rc_in (s_rc (rc_window p i l s)) = p" "rc_in_pos (s_rc (rc_window p i l s)) = i"
  "rc_in_limit (s_rc (rc_window p i l s)) = l" "rc_range (s_rc (rc_window p i l s)) = rc_range (s_rc s)"
  "init_bytes_left (s_rc (rc_window p i l s)) = init_bytes_left (s_rc s)"
  by (simp_all add: set_compressed_def set_uncompressed_def set_sequence_def set_next_def dict_update_def rc_window_def)

definition temp_sep :: "mem \<Rightarrow> xz_buf \<Rightarrow> bool" where
  "temp_sep m b \<longleftrightarrow> length (m Lzma_Temp) = TEMP_BUF_SIZE \<and> fst (b_in b) \<noteq> Lzma_Temp \<and> fst (b_out b) \<noteq> Lzma_Temp"

definition window_ok :: "mem \<Rightarrow> xz_dec_lzma2 \<Rightarrow> xz_buf \<Rightarrow> bool" where
  "window_ok m s b \<longleftrightarrow> lzma_ok m s \<and> dict_limit_ok (s_dict s) \<and> dict_link (s_dict s) b \<and> valid_buf m b \<and>
     temp_sep m b \<and> temp_size s \<le> 20 \<and> temp_size s \<le> compressed (s_lzma2 s) \<and>
     compressed (s_lzma2 s) \<le> 3 * 2 ^ 30"

definition chunk_frame :: "mem \<Rightarrow> xz_dec_lzma2 \<Rightarrow> xz_buf \<Rightarrow> mem \<Rightarrow> xz_dec_lzma2 \<Rightarrow> xz_buf \<Rightarrow> bool" where
  "chunk_frame m s b m' s' b' \<longleftrightarrow> same_shape m m' \<and>
     (\<forall>k. k \<noteq> fst (d_buf (s_dict s)) \<and> k \<noteq> Lzma_Temp \<longrightarrow> m' k = m k) \<and>
     dict_frame (s_dict s) (s_dict s') \<and> d_start (s_dict s') = d_start (s_dict s) \<and>
     b' = b\<lparr>b_in_pos := b_in_pos b'\<rparr> \<and> b_in_pos b \<le> b_in_pos b' \<and> b_in_pos b' \<le> b_in_size b \<and>
     init_bytes_left (s_rc s') = init_bytes_left (s_rc s)"

text \<open>What a successful stage keeps. The accounting: the bytes of the chunk that have
  been neither decoded nor buffered shrink exactly as the input position moves.\<close>

definition chunk_good :: "mem \<Rightarrow> xz_dec_lzma2 \<Rightarrow> xz_buf \<Rightarrow> mem \<Rightarrow> xz_dec_lzma2 \<Rightarrow> xz_buf \<Rightarrow> bool" where
  "chunk_good m s b m' s' b' \<longleftrightarrow> lzma_ok m' s' \<and>
     s_lzma2 s' = (s_lzma2 s)\<lparr>compressed := compressed (s_lzma2 s')\<rparr> \<and>
     compressed (s_lzma2 s') \<le> compressed (s_lzma2 s) \<and>
     temp_size s' \<le> 20 \<and> temp_size s' \<le> compressed (s_lzma2 s') \<and>
     b_in_pos b' + (compressed (s_lzma2 s') - temp_size s') = b_in_pos b + (compressed (s_lzma2 s) - temp_size s) \<and>
     d_pos (s_dict s) \<le> d_pos (s_dict s') \<and> d_pos (s_dict s') \<le> d_limit (s_dict s)"

lemma chunk_frame_refl: "b_in_pos b \<le> b_in_size b \<Longrightarrow> chunk_frame m s b m s b"
  by (simp add: chunk_frame_def)

lemma chunk_frame_trans:
  "chunk_frame m s b m1 s1 b1 \<Longrightarrow> chunk_frame m1 s1 b1 m2 s2 b2 \<Longrightarrow> chunk_frame m s b m2 s2 b2"
  by (cases b, cases b1, cases b2) (auto simp: chunk_frame_def dict_frame_def intro: same_shape_trans)

lemma chunk_good_trans:
  "chunk_frame m s b m1 s1 b1 \<Longrightarrow> chunk_good m s b m1 s1 b1 \<Longrightarrow> chunk_good m1 s1 b1 m2 s2 b2 \<Longrightarrow>
   chunk_good m s b m2 s2 b2"
  by (cases "s_lzma2 s", cases "s_lzma2 s1", cases "s_lzma2 s2")
     (auto simp: chunk_good_def chunk_frame_def dict_frame_def)

lemma window_ok_next:
  assumes "window_ok m s b" and "chunk_frame m s b m1 s1 b1" and "chunk_good m s b m1 s1 b1"
  shows "window_ok m1 s1 b1"
proof -
  have f: "same_shape m m1" "d_limit (s_dict s1) = d_limit (s_dict s)" "d_end (s_dict s1) = d_end (s_dict s)"
      "d_start (s_dict s1) = d_start (s_dict s)" "d_mode (s_dict s1) = d_mode (s_dict s)"
      "d_buf (s_dict s1) = d_buf (s_dict s)"
    using assms(2) by (auto simp: chunk_frame_def dict_frame_def)
  have b: "b1 = b\<lparr>b_in_pos := b_in_pos b1\<rparr>" "b_in_pos b1 \<le> b_in_size b"
    using assms(2) by (auto simp: chunk_frame_def)
  have "dict_link (s_dict s1) b1"
    using assms(1) f by (subst b(1)) (simp add: window_ok_def dict_link_def)
  moreover have "valid_buf m1 b1"
    using assms(1) b(2) by (subst b(1)) (simp add: window_ok_def valid_buf_def same_shape_room [OF f(1)])
  moreover have "temp_sep m1 b1"
    using assms(1) f(1) by (subst b(1)) (simp add: window_ok_def temp_sep_def same_shape_def)
  ultimately show ?thesis
    using assms(1,3) f by (auto simp: window_ok_def chunk_good_def dict_limit_ok_def)
qed

lemma lzma_ok_frame:
  "lzma_ok m s \<Longrightarrow> same_shape m m' \<Longrightarrow> lzma_ok m' s"
  by (simp add: lzma_ok_def dict_ok_shape)

lemma lzma_ok_upd:
  "s_dict s' = s_dict s \<Longrightarrow> s_lzma s' = s_lzma s \<Longrightarrow> rc_range (s_rc s') = rc_range (s_rc s) \<Longrightarrow>
   lzma_ok m s' = lzma_ok m s"
  by (simp add: lzma_ok_def rep0_ok_def)

lemma dict_link_not_temp: "dict_link d b \<Longrightarrow> temp_sep m b \<Longrightarrow> fst (d_buf d) \<noteq> Lzma_Temp"
  by (cases "DEC_IS_MULTI (d_mode d)") (auto simp: dict_link_def temp_sep_def)

text \<open>Running the decoder in a window of memory.\<close>

lemma ok_window_main:
  assumes ok: "window_ok m s b" and pos: "pos \<le> limit" and room: "limit + 21 \<le> room m p" and lim: "limit < 2 ^ 63"
  shows "ok (lzma_main m (rc_window p pos limit s)) (\<lambda>(res, s', m').
    same_shape m m' \<and> (\<forall>k. k \<noteq> fst (d_buf (s_dict s)) \<longrightarrow> m' k = m k) \<and>
    dict_frame (s_dict s) (s_dict s') \<and> d_start (s_dict s') = d_start (s_dict s) \<and>
    s_lzma2 s' = s_lzma2 s \<and> temp_size s' = temp_size s \<and> init_bytes_left (s_rc s') = init_bytes_left (s_rc s) \<and>
    pos \<le> rc_in_pos (s_rc s') \<and> rc_in_pos (s_rc s') \<le> limit + 21 \<and>
    (res \<longrightarrow> lzma_ok m' s' \<and> d_pos (s_dict s) \<le> d_pos (s_dict s') \<and> d_pos (s_dict s') \<le> d_limit (s_dict s) \<and>
      (d_pos (s_dict s) < d_limit (s_dict s) \<longrightarrow> d_pos (s_dict s) < d_pos (s_dict s'))))"
proof -
  let ?s = "rc_window p pos limit s"
  have "lzma_ok m ?s" using ok by (simp add: window_ok_def lzma_ok_upd [of ?s s])
  then have "ok (lzma_main m ?s) (main_post m ?s)"
    using ok pos room lim by (intro ok_lzma_main) (auto simp: window_ok_def rc_limit_ok_def LZMA_IN_REQUIRED_def)
  then show ?thesis
  proof (rule ok_mono, clarify)
    fix res s' m' assume "main_post m ?s (res, s', m')"
    then show "same_shape m m' \<and> (\<forall>k. k \<noteq> fst (d_buf (s_dict s)) \<longrightarrow> m' k = m k) \<and>
      dict_frame (s_dict s) (s_dict s') \<and> d_start (s_dict s') = d_start (s_dict s) \<and>
      s_lzma2 s' = s_lzma2 s \<and> temp_size s' = temp_size s \<and> init_bytes_left (s_rc s') = init_bytes_left (s_rc s) \<and>
      pos \<le> rc_in_pos (s_rc s') \<and> rc_in_pos (s_rc s') \<le> limit + 21 \<and>
      (res \<longrightarrow> lzma_ok m' s' \<and> d_pos (s_dict s) \<le> d_pos (s_dict s') \<and> d_pos (s_dict s') \<le> d_limit (s_dict s) \<and>
        (d_pos (s_dict s) < d_limit (s_dict s) \<longrightarrow> d_pos (s_dict s) < d_pos (s_dict s')))"
      by (simp add: lz_frame_def LZMA_IN_REQUIRED_def)
  qed
qed

fun stage_post :: "mem \<Rightarrow> xz_dec_lzma2 \<Rightarrow> xz_buf \<Rightarrow> lzma2_result \<Rightarrow> bool" where
  "stage_post m s b (r, s', b', m') \<longleftrightarrow> chunk_frame m s b m' s' b' \<and>
     (r \<noteq> Some False \<longrightarrow> chunk_good m s b m' s' b') \<and> (r = None \<longrightarrow> temp_size s' = 0)"

definition moved :: "xz_dec_lzma2 \<Rightarrow> xz_buf \<Rightarrow> xz_dec_lzma2 \<Rightarrow> xz_buf \<Rightarrow> bool" where
  "moved s b s' b' \<longleftrightarrow> d_pos (s_dict s) < d_limit (s_dict s) \<longrightarrow>
     d_pos (s_dict s) < d_pos (s_dict s') \<or> b_in_pos b < b_in_pos b' \<or>
     b_in_pos b' = b_in_size b \<and> temp_size s' < compressed (s_lzma2 s')"

lemma window_bounds:
  assumes "window_ok m s b"
  shows "b_in_pos b \<le> b_in_size b" "b_in_size b < 2 ^ 63" "b_in_size b \<le> room m (b_in b)"
    and "temp_size s \<le> 20" "temp_size s \<le> compressed (s_lzma2 s)" "compressed (s_lzma2 s) \<le> 3221225472"
    and "length (m Lzma_Temp) = 63" "fst (b_in b) \<noteq> Lzma_Temp" "fst (d_buf (s_dict s)) \<noteq> Lzma_Temp"
  using assms dict_link_not_temp [of "s_dict s" b m]
  by (auto simp: window_ok_def valid_buf_def temp_sep_def TEMP_BUF_SIZE_def LZMA_IN_REQUIRED_def)

lemma ok_decode_temp:
  assumes ok: "window_ok m s b" and n: "temp_size s \<le> n" "n \<le> compressed (s_lzma2 s)" "n \<le> 42"
    and avail: "b_in_pos b + (n - temp_size s) \<le> b_in_size b" and limit: "limit \<le> n"
  shows "ok (lzma2_decode_temp m s b n limit) (\<lambda>(r, s', b', m'). stage_post m s b (r, s', b', m') \<and>
    (r \<noteq> Some False \<longrightarrow> moved s b s' b'))"
proof -
  note bd = window_bounds [OF ok]
  have room: "room m (Lzma_Temp, k) = 63 - k" for k using bd(7) by (simp add: room_def)
  note main = ok_window_main [OF ok, of 0 limit "(Lzma_Temp, 0)", unfolded room]
  have main: "ok (lzma_main m (rc_window (Lzma_Temp, 0) 0 limit s)) (\<lambda>(res, s', m').
    same_shape m m' \<and> (\<forall>k. k \<noteq> fst (d_buf (s_dict s)) \<longrightarrow> m' k = m k) \<and>
    dict_frame (s_dict s) (s_dict s') \<and> d_start (s_dict s') = d_start (s_dict s) \<and>
    s_lzma2 s' = s_lzma2 s \<and> temp_size s' = temp_size s \<and> init_bytes_left (s_rc s') = init_bytes_left (s_rc s) \<and>
    0 \<le> rc_in_pos (s_rc s') \<and> rc_in_pos (s_rc s') \<le> limit + 21 \<and>
    (res \<longrightarrow> lzma_ok m' s' \<and> d_pos (s_dict s) \<le> d_pos (s_dict s') \<and> d_pos (s_dict s') \<le> d_limit (s_dict s) \<and>
      (d_pos (s_dict s) < d_limit (s_dict s) \<longrightarrow> d_pos (s_dict s) < d_pos (s_dict s'))))"
    using n limit by (intro main) simp_all
  show ?thesis
    unfolding lzma2_decode_temp_def Let_def
  proof (rule ok_bindI [OF main], clarify)
    fix res s1 m1
    assume shape: "same_shape m m1" and blk: "\<forall>k. k \<noteq> fst (d_buf (s_dict s)) \<longrightarrow> m1 k = m k"
      and fr: "dict_frame (s_dict s) (s_dict s1)" "d_start (s_dict s1) = d_start (s_dict s)"
        "s_lzma2 s1 = s_lzma2 s" "temp_size s1 = temp_size s" "init_bytes_left (s_rc s1) = init_bytes_left (s_rc s)"
      and pos: "rc_in_pos (s_rc s1) \<le> limit + 21"
      and good: "res \<longrightarrow> lzma_ok m1 s1 \<and> d_pos (s_dict s) \<le> d_pos (s_dict s1) \<and> d_pos (s_dict s1) \<le> d_limit (s_dict s) \<and>
        (d_pos (s_dict s) < d_limit (s_dict s) \<longrightarrow> d_pos (s_dict s) < d_pos (s_dict s1))"
    let ?p = "rc_in_pos (s_rc s1)"
    show "ok (if \<not> res \<or> n < ?p then Some (Some False, s1, b, m1)
       else if ?p < temp_size (set_compressed (u32_sub (compressed (s_lzma2 s1)) (u32_of ?p)) s1)
       then memmove m1 (Lzma_Temp, 0) (Lzma_Temp, ?p)
              (temp_size (set_compressed (u32_sub (compressed (s_lzma2 s1)) (u32_of ?p)) s1
                 \<lparr>temp_size := u32_sub (temp_size (set_compressed (u32_sub (compressed (s_lzma2 s1)) (u32_of ?p)) s1)) (u32_of ?p)\<rparr>)) \<bind>
            (\<lambda>m. Some (Some True, set_compressed (u32_sub (compressed (s_lzma2 s1)) (u32_of ?p)) s1
                 \<lparr>temp_size := u32_sub (temp_size (set_compressed (u32_sub (compressed (s_lzma2 s1)) (u32_of ?p)) s1)) (u32_of ?p)\<rparr>, b, m))
       else Some (None, set_compressed (u32_sub (compressed (s_lzma2 s1)) (u32_of ?p)) s1\<lparr>temp_size := 0\<rparr>,
              b\<lparr>b_in_pos := sz_add (b_in_pos b) (sz_sub ?p (temp_size (set_compressed (u32_sub (compressed (s_lzma2 s1)) (u32_of ?p)) s1)))\<rparr>, m1))
      (\<lambda>(r, s', b', m'). stage_post m s b (r, s', b', m') \<and> (r \<noteq> Some False \<longrightarrow> moved s b s' b'))"
    proof (cases "\<not> res \<or> n < ?p")
      case True
      have "chunk_frame m s b m1 s1 b"
        using shape blk fr bd(1) by (simp add: chunk_frame_def)
      then show ?thesis using True by simp
    next
      case False
      then have g: "lzma_ok m1 s1" "d_pos (s_dict s) \<le> d_pos (s_dict s1)" "d_pos (s_dict s1) \<le> d_limit (s_dict s)"
          "d_pos (s_dict s) < d_limit (s_dict s) \<longrightarrow> d_pos (s_dict s) < d_pos (s_dict s1)" and p: "?p \<le> n"
        using good by auto
      have num: "u32_of ?p = ?p" "u32_sub (compressed (s_lzma2 s)) ?p = compressed (s_lzma2 s) - ?p"
        using p n by auto
      let ?s2 = "set_compressed (compressed (s_lzma2 s) - ?p) s1"
      show ?thesis
      proof (cases "?p < temp_size s")
        case True
        let ?s3 = "?s2\<lparr>temp_size := temp_size s - ?p\<rparr>"
        have "ok (memmove m1 (Lzma_Temp, 0) (Lzma_Temp, ?p) (temp_size s - ?p)) (\<lambda>m'. same_shape m1 m' \<and>
            (\<forall>b. b \<noteq> fst (Lzma_Temp, 0 :: nat) \<longrightarrow> m' b = m1 b))"
          using bd(4) True same_shape_room [OF shape] by (intro ok_memmove) (simp_all add: room)
        then obtain m2 where m2: "memmove m1 (Lzma_Temp, 0) (Lzma_Temp, ?p) (temp_size s - ?p) = Some m2"
            "same_shape m1 m2" "\<forall>b. b \<noteq> Lzma_Temp \<longrightarrow> m2 b = m1 b"
          by (auto simp: ok_iff)
        have "chunk_frame m s b m2 ?s3 b"
          using shape blk fr bd(1) m2 by (auto simp: chunk_frame_def intro: same_shape_trans)
        moreover have "chunk_good m s b m2 ?s3 b"
          using g n p bd True m2(2) fr(3)
          by (auto simp: chunk_good_def lzma_ok_frame lzma_ok_upd [of ?s3 s1])
        ultimately show ?thesis
          using False True fr num m2(1) g(4) by (simp add: moved_def)
      next
        case nlt: False
        let ?b = "b\<lparr>b_in_pos := b_in_pos b + (?p - temp_size s)\<rparr>" and ?s3 = "?s2\<lparr>temp_size := 0\<rparr>"
        have in_pos: "sz_add (b_in_pos b) (sz_sub ?p (temp_size s)) = b_in_pos b + (?p - temp_size s)"
          using nlt p avail bd(2) by simp
        have "chunk_frame m s b m1 ?s3 ?b"
          using shape blk fr nlt p avail by (auto simp: chunk_frame_def)
        moreover have "chunk_good m s b m1 ?s3 ?b"
          using g n p nlt fr(3) by (auto simp: chunk_good_def lzma_ok_upd [of ?s3 s1])
        ultimately show ?thesis
          using False nlt fr num in_pos g(4) by (simp add: moved_def)
      qed
    qed
  qed
qed

lemma temp_size_props:
  assumes "window_ok m s b"
  defines "tmp \<equiv> lzma2_temp_size s b"
  shows "tmp = min (min (42 - temp_size s) (compressed (s_lzma2 s) - temp_size s)) (b_in_size b - b_in_pos b)"
    and "u32_add (temp_size s) tmp = temp_size s + tmp" and "sz_add (b_in_pos b) tmp = b_in_pos b + tmp"
proof -
  note bd = window_bounds [OF assms(1)]
  let ?a = "42 - temp_size s" and ?c = "compressed (s_lzma2 s) - temp_size s" and ?i = "b_in_size b - b_in_pos b"
  have "tmp = (let t = (if ?a > ?c then ?c else ?a) in if t > ?i then u32_of ?i else t)"
    using bd by (simp add: tmp_def lzma2_temp_size_def Let_def LZMA_IN_REQUIRED_def)
  also have "\<dots> = min (min ?a ?c) ?i"
    by (auto simp: Let_def min_def)
  finally show tmp: "tmp = min (min ?a ?c) ?i" .
  then have "tmp \<le> 42" "tmp \<le> ?i" by linarith+
  then show "u32_add (temp_size s) tmp = temp_size s + tmp" "sz_add (b_in_pos b) tmp = b_in_pos b + tmp"
    using bd by (auto simp: u32_add_def sz_add_def)
qed

text \<open>Filling and decoding \<open>temp.buf\<close>.\<close>

lemma ok_lzma2_temp:
  assumes ok: "window_ok m s b"
  shows "ok (lzma2_temp m s b) (\<lambda>(r, s', b', m'). stage_post m s b (r, s', b', m') \<and>
    (r \<noteq> Some False \<longrightarrow> moved s b s' b'))"
proof -
  note bd = window_bounds [OF ok] and tmp = temp_size_props [OF ok]
  define t where "t = lzma2_temp_size s b"
  note tmp = tmp [folded t_def]
  let ?n = "temp_size s + t"
  have t: "t \<le> 42 - temp_size s" "t \<le> compressed (s_lzma2 s) - temp_size s" "t \<le> b_in_size b - b_in_pos b"
    using tmp(1) by linarith+
  have room: "length (m1 Lzma_Temp) = 63 \<Longrightarrow> room m1 (Lzma_Temp, k) = 63 - k" for m1 k by (simp add: room_def)
  have "ok (memcpy m (Lzma_Temp, temp_size s) (ptr_add (b_in b) (b_in_pos b)) t) (\<lambda>m'. same_shape m m' \<and>
      (\<forall>k. k \<noteq> fst (Lzma_Temp, temp_size s) \<longrightarrow> m' k = m k))"
    using t bd by (intro ok_memcpy) (auto simp: room room_ptr_add overlap_def)
  then obtain m1 where m1: "memcpy m (Lzma_Temp, temp_size s) (ptr_add (b_in b) (b_in_pos b)) t = Some m1"
      "same_shape m m1" "\<forall>k. k \<noteq> Lzma_Temp \<longrightarrow> m1 k = m k"
    by (auto simp: ok_iff)
  have step: "ok (lzma2_decode_temp m2 s b ?n limit) (\<lambda>(r, s', b', m'). stage_post m s b (r, s', b', m') \<and>
      (r \<noteq> Some False \<longrightarrow> moved s b s' b'))"
    if m2: "same_shape m m2" "\<forall>k. k \<noteq> Lzma_Temp \<longrightarrow> m2 k = m k" and "limit \<le> ?n" for m2 limit
  proof -
    have fr: "chunk_frame m s b m2 s b" using m2 bd(1) by (simp add: chunk_frame_def)
    have gd: "chunk_good m s b m2 s b"
      using ok bd lzma_ok_frame [OF _ m2(1), of s]
      by (simp add: chunk_good_def window_ok_def dict_limit_ok_def)
    have "ok (lzma2_decode_temp m2 s b ?n limit) (\<lambda>(r, s', b', m'). stage_post m2 s b (r, s', b', m') \<and>
        (r \<noteq> Some False \<longrightarrow> moved s b s' b'))"
      using t bd that(3) by (intro ok_decode_temp window_ok_next [OF ok fr gd]) auto
    then show ?thesis
      by (rule ok_mono) (auto intro: chunk_frame_trans [OF fr] chunk_good_trans [OF fr gd])
  qed
  show ?thesis
  proof (cases "?n = compressed (s_lzma2 s)")
    case True
    have "ok (memzero m1 (Lzma_Temp, ?n) (63 - ?n)) (\<lambda>m'. same_shape m1 m' \<and>
        (\<forall>k. k \<noteq> fst (Lzma_Temp, ?n) \<longrightarrow> m' k = m1 k))"
      using m1(2) bd(7) by (intro ok_memzero) (simp add: room same_shape_def)
    then obtain m2 where m2: "memzero m1 (Lzma_Temp, ?n) (63 - ?n) = Some m2" "same_shape m1 m2"
        "\<forall>k. k \<noteq> Lzma_Temp \<longrightarrow> m2 k = m1 k"
      by (auto simp: ok_iff)
    have "?n \<le> 42" using t(1) bd(4) by linarith
    then have "sz_sub TEMP_BUF_SIZE ?n = 63 - ?n" by (simp add: TEMP_BUF_SIZE_def LZMA_IN_REQUIRED_def)
    then show ?thesis
      using True m1 m2 step [of m2 ?n] same_shape_trans [OF m1(2) m2(2)]
      by (simp add: lzma2_temp_def Let_def tmp(2) flip: t_def)
  next
    case False
    show ?thesis
    proof (cases "?n < 21")
      case True
      let ?b = "b\<lparr>b_in_pos := b_in_pos b + t\<rparr>" and ?s = "s\<lparr>temp_size := ?n\<rparr>"
      have all: "t = b_in_size b - b_in_pos b" and lt: "?n < compressed (s_lzma2 s)"
        using tmp(1) True False t bd(5) by linarith+
      have "chunk_frame m s b m1 ?s ?b" using m1 t(3) bd(1) by (auto simp: chunk_frame_def)
      moreover have "chunk_good m s b m1 ?s ?b"
        using ok True t bd lzma_ok_frame [OF _ m1(2), of s]
        by (auto simp: chunk_good_def window_ok_def lzma_ok_upd [of ?s s] dict_limit_ok_def)
      moreover have "moved s b ?s ?b" using all lt bd(1) by (simp add: moved_def)
      ultimately show ?thesis
        using False True m1(1) by (simp add: lzma2_temp_def Let_def tmp(2,3) LZMA_IN_REQUIRED_def flip: t_def)
    next
      case ge: False
      then have "u32_sub ?n 21 = ?n - 21" by simp
      then show ?thesis
        using False ge m1 step [of m1 "?n - 21"]
        by (simp add: lzma2_temp_def Let_def tmp(2) LZMA_IN_REQUIRED_def flip: t_def)
    qed
  qed
qed

text \<open>Decoding straight from the caller's buffer, and putting the rest aside.\<close>

lemma ok_lzma2_direct:
  assumes ok: "window_ok m s b" and temp: "temp_size s = 0"
  shows "ok (lzma2_direct m s b) (\<lambda>(r, s', b', m'). stage_post m s b (r, s', b', m') \<and> r \<noteq> Some True \<and>
    (r = None \<longrightarrow> (if b_in_size b - b_in_pos b \<ge> 21 then moved s b s' b' else s' = s \<and> b' = b)))"
proof -
  note bd = window_bounds [OF ok]
  let ?avail = "b_in_size b - b_in_pos b" and ?c = "compressed (s_lzma2 s)"
  show ?thesis
  proof (cases "?avail \<ge> 21")
    case False
    have "chunk_good m s b m s b"
      using ok bd by (simp add: chunk_good_def window_ok_def dict_limit_ok_def)
    then show ?thesis
      using False bd(1) temp chunk_frame_refl [OF bd(1)] by (simp add: lzma2_direct_def LZMA_IN_REQUIRED_def)
  next
    case True
    define limit where "limit = (if ?avail \<ge> ?c + 21 then b_in_pos b + ?c else b_in_size b - 21)"
    have lim: "b_in_pos b \<le> limit" "limit + 21 \<le> b_in_size b" "limit < 2 ^ 63" "limit + 21 \<le> room m (b_in b)"
      using True bd by (auto simp: limit_def)
    have limit: "(if ?avail \<ge> u32_add ?c 21 then sz_add (b_in_pos b) ?c else sz_sub (b_in_size b) 21) = limit"
      using True bd by (auto simp: limit_def sz_add_def)
    note main = ok_window_main [OF ok lim(1) lim(4) lim(3)]
    have unfold: "lzma2_direct m s b = do {
       (res, s, m) \<leftarrow> lzma_main m (rc_window (b_in b) (b_in_pos b) limit s);
       let in_avail = sz_sub (rc_in_pos (s_rc s)) (b_in_pos b);
       if \<not> res \<or> in_avail > compressed (s_lzma2 s) then Some (Some False, s, b, m)
       else Some (None, set_compressed (u32_sub (compressed (s_lzma2 s)) (u32_of in_avail)) s,
                  b\<lparr>b_in_pos := rc_in_pos (s_rc s)\<rparr>, m) }"
      using True bd(1) limit unfolding lzma2_direct_def Let_def LZMA_IN_REQUIRED_def by simp
    show ?thesis
      unfolding unfold
    proof (rule ok_bindI [OF main], clarify)
      fix res s1 m1
      assume shape: "same_shape m m1" and blk: "\<forall>k. k \<noteq> fst (d_buf (s_dict s)) \<longrightarrow> m1 k = m k"
        and fr: "dict_frame (s_dict s) (s_dict s1)" "d_start (s_dict s1) = d_start (s_dict s)"
          "s_lzma2 s1 = s_lzma2 s" "temp_size s1 = temp_size s" "init_bytes_left (s_rc s1) = init_bytes_left (s_rc s)"
        and pos: "b_in_pos b \<le> rc_in_pos (s_rc s1)" "rc_in_pos (s_rc s1) \<le> limit + 21"
        and good: "res \<longrightarrow> lzma_ok m1 s1 \<and> d_pos (s_dict s) \<le> d_pos (s_dict s1) \<and> d_pos (s_dict s1) \<le> d_limit (s_dict s) \<and>
          (d_pos (s_dict s) < d_limit (s_dict s) \<longrightarrow> d_pos (s_dict s) < d_pos (s_dict s1))"
      let ?p = "rc_in_pos (s_rc s1)"
      have fr0: "chunk_frame m s b m1 s1 b" using shape blk fr bd(1) by (simp add: chunk_frame_def)
      show "ok (let in_avail = sz_sub ?p (b_in_pos b)
           in if \<not> res \<or> in_avail > compressed (s_lzma2 s1) then Some (Some False, s1, b, m1)
              else Some (None, set_compressed (u32_sub (compressed (s_lzma2 s1)) (u32_of in_avail)) s1,
                  b\<lparr>b_in_pos := ?p\<rparr>, m1))
        (\<lambda>(r, s', b', m'). stage_post m s b (r, s', b', m') \<and> r \<noteq> Some True \<and>
          (r = None \<longrightarrow> (if ?avail \<ge> 21 then moved s b s' b' else s' = s \<and> b' = b)))"
      proof (cases "\<not> res \<or> ?p - b_in_pos b > ?c")
        case True
        then show ?thesis using fr0 fr(3) pos(1) by simp
      next
        case False
        then have g: "lzma_ok m1 s1" "d_pos (s_dict s) \<le> d_pos (s_dict s1)" "d_pos (s_dict s1) \<le> d_limit (s_dict s)"
          "d_pos (s_dict s) < d_limit (s_dict s) \<longrightarrow> d_pos (s_dict s) < d_pos (s_dict s1)" and p: "?p - b_in_pos b \<le> ?c"
          using good by auto
        let ?s2 = "set_compressed (?c - (?p - b_in_pos b)) s1" and ?b = "b\<lparr>b_in_pos := ?p\<rparr>"
        have num: "u32_of (?p - b_in_pos b) = ?p - b_in_pos b" using p bd(6) by simp
        have "chunk_frame m s b m1 ?s2 ?b"
          using shape blk fr pos lim(2) by (simp add: chunk_frame_def)
        moreover have "chunk_good m s b m1 ?s2 ?b"
        proof -
          have "lzma_ok m1 ?s2" using g(1) lzma_ok_upd [of ?s2 s1 m1] by simp
          then show ?thesis using g p pos(1) fr(3,4) temp by (auto simp: chunk_good_def)
        qed
        ultimately show ?thesis
          using False True p pos(1) fr(3,4) num g(4) temp by (simp add: moved_def)
      qed
    qed
  qed
qed

lemma ok_lzma2_tail:
  assumes ok: "window_ok m s b" and temp: "temp_size s = 0"
  shows "ok (lzma2_tail m s b) (\<lambda>(s', b', m'). chunk_frame m s b m' s' b' \<and> chunk_good m s b m' s' b' \<and>
    s_dict s' = s_dict s \<and>
    (if b_in_size b - b_in_pos b < 21
     then b_in_pos b < b_in_pos b' \<or> compressed (s_lzma2 s) = 0 \<or>
          b_in_pos b' = b_in_size b \<and> temp_size s' < compressed (s_lzma2 s')
     else s' = s \<and> b' = b))"
proof -
  note bd = window_bounds [OF ok]
  let ?avail = "b_in_size b - b_in_pos b" and ?c = "compressed (s_lzma2 s)"
  have good: "lzma_ok m s" "d_pos (s_dict s) \<le> d_limit (s_dict s)"
    using ok by (auto simp: window_ok_def dict_limit_ok_def)
  show ?thesis
  proof (cases "?avail < 21")
    case False
    have "chunk_good m s b m s b"
      using good bd by (simp add: chunk_good_def)
    then show ?thesis
      using False bd(1) chunk_frame_refl [OF bd(1)] by (simp add: lzma2_tail_def LZMA_IN_REQUIRED_def)
  next
    case True
    define t where "t = min ?avail ?c"
    have t: "t \<le> ?avail" "t \<le> ?c" "t \<le> 20" using True by (auto simp: t_def)
    have room: "room m (Lzma_Temp, 0) = 63" using bd(7) by (simp add: room_def)
    have "ok (memcpy m (Lzma_Temp, 0) (ptr_add (b_in b) (b_in_pos b)) t) (\<lambda>m'. same_shape m m' \<and>
        (\<forall>k. k \<noteq> fst (Lzma_Temp, 0 :: nat) \<longrightarrow> m' k = m k))"
      using t bd by (intro ok_memcpy) (auto simp: room room_ptr_add overlap_def)
    then obtain m1 where m1: "memcpy m (Lzma_Temp, 0) (ptr_add (b_in b) (b_in_pos b)) t = Some m1"
        "same_shape m m1" "\<forall>k. k \<noteq> Lzma_Temp \<longrightarrow> m1 k = m k"
      by (auto simp: ok_iff)
    let ?b = "b\<lparr>b_in_pos := b_in_pos b + t\<rparr>" and ?s = "s\<lparr>temp_size := t\<rparr>"
    have num: "u32_of t = t" "sz_add (b_in_pos b) t = b_in_pos b + t" using t bd(1,2) by auto
    have size: "(if sz_sub (b_in_size b) (b_in_pos b) > ?c then ?c else sz_sub (b_in_size b) (b_in_pos b)) = t"
      using bd(1) by (auto simp: t_def min_def)
    have "lzma2_tail m s b = Some (?s, ?b, m1)"
      using True bd(1) m1(1) num unfolding lzma2_tail_def Let_def size by (simp add: LZMA_IN_REQUIRED_def)
    moreover have "chunk_frame m s b m1 ?s ?b"
      using m1(2,3) t bd(1) by (auto simp: chunk_frame_def)
    moreover have "chunk_good m s b m1 ?s ?b"
      using good t temp lzma_ok_frame [OF _ m1(2), of s]
      by (auto simp: chunk_good_def lzma_ok_upd [of ?s s])
    moreover have "0 < t \<or> ?c = 0 \<or> t = ?avail \<and> t < ?c"
      by (auto simp: t_def min_def)
    ultimately show ?thesis
      using True bd(1) by auto
  qed
qed

lemma moved_mono:
  assumes "moved s b s1 b1" and "chunk_frame m s b m1 s1 b1" and "chunk_frame m1 s1 b1 m2 s2 b2"
    and "chunk_good m1 s1 b1 m2 s2 b2"
  shows "moved s b s2 b2"
  unfolding moved_def
proof (intro impI)
  assume "d_pos (s_dict s) < d_limit (s_dict s)"
  with assms(1) consider "d_pos (s_dict s) < d_pos (s_dict s1)" | "b_in_pos b < b_in_pos b1"
    | "b_in_pos b1 = b_in_size b" "temp_size s1 < compressed (s_lzma2 s1)"
    by (auto simp: moved_def)
  then show "d_pos (s_dict s) < d_pos (s_dict s2) \<or> b_in_pos b < b_in_pos b2 \<or>
      b_in_pos b2 = b_in_size b \<and> temp_size s2 < compressed (s_lzma2 s2)"
  proof cases
    case 1
    then show ?thesis using assms(4) by (simp add: chunk_good_def)
  next
    case 2
    then show ?thesis using assms(3) by (simp add: chunk_frame_def)
  next
    case 3
    have size: "b_in_size b1 = b_in_size b"
      using arg_cong [OF conjunct1 [OF conjunct2 [OF conjunct2 [OF conjunct2 [OF conjunct2 [OF assms(2) [unfolded chunk_frame_def]]]]]], of b_in_size]
      by simp
    have "b_in_pos b1 \<le> b_in_pos b2" "b_in_pos b2 \<le> b_in_size b1"
      using assms(3) by (auto simp: chunk_frame_def)
    with 3 size have "b_in_pos b2 = b_in_size b" "b_in_pos b2 = b_in_pos b1" by simp_all
    moreover have "b_in_pos b2 + (compressed (s_lzma2 s2) - temp_size s2) = b_in_pos b1 + (compressed (s_lzma2 s1) - temp_size s1)"
      using assms(4) by (simp add: chunk_good_def)
    ultimately have "temp_size s2 < compressed (s_lzma2 s2)" using 3(2) by linarith
    then show ?thesis using \<open>b_in_pos b2 = b_in_size b\<close> by simp
  qed
qed

text \<open>\<open>lzma2_lzma\<close> as a whole.\<close>

lemma ok_lzma2_lzma:
  assumes ok: "window_ok m s b"
  shows "ok (lzma2_lzma m s b) (\<lambda>(res, s', b', m'). chunk_frame m s b m' s' b' \<and>
    (res \<longrightarrow> chunk_good m s b m' s' b' \<and> moved s b s' b'))"
proof -
  note bd = window_bounds [OF ok]
  let ?fst = "temp_size s > 0 \<or> compressed (s_lzma2 s) = 0"
  define rest where "rest = (\<lambda>s b m. do {
         (r, s, b, m) \<leftarrow> lzma2_direct m s b;
         case r of Some res \<Rightarrow> Some (res, s, b, m)
         | None \<Rightarrow> do { (s, b, m) \<leftarrow> lzma2_tail m s b; Some (True, s, b, m) } })"
  have rest: "ok (rest s1 b1 m1) (\<lambda>(res, s', b', m'). chunk_frame m1 s1 b1 m' s' b' \<and>
      (res \<longrightarrow> chunk_good m1 s1 b1 m' s' b' \<and> (compressed (s_lzma2 s1) > 0 \<longrightarrow> moved s1 b1 s' b')))"
    if w1: "window_ok m1 s1 b1" and t1: "temp_size s1 = 0" for s1 b1 m1
    unfolding rest_def
  proof (rule ok_bindI [OF ok_lzma2_direct [OF w1 t1]], clarify)
    fix r s2 b2 m2
    assume st: "stage_post m1 s1 b1 (r, s2, b2, m2)" and r: "r \<noteq> Some True"
      and mv: "r = None \<longrightarrow> (if b_in_size b1 - b_in_pos b1 \<ge> 21 then moved s1 b1 s2 b2 else s2 = s1 \<and> b2 = b1)"
    show "ok (case r of None \<Rightarrow> do { (s, b, m) \<leftarrow> lzma2_tail m2 s2 b2; Some (True, s, b, m) }
        | Some res \<Rightarrow> Some (res, s2, b2, m2)) (\<lambda>(res, s', b', m'). chunk_frame m1 s1 b1 m' s' b' \<and>
      (res \<longrightarrow> chunk_good m1 s1 b1 m' s' b' \<and> (compressed (s_lzma2 s1) > 0 \<longrightarrow> moved s1 b1 s' b')))"
    proof (cases r)
      case (Some res)
      with r st show ?thesis by simp
    next
      case None
      with st have f: "chunk_frame m1 s1 b1 m2 s2 b2" and g: "chunk_good m1 s1 b1 m2 s2 b2" and t2: "temp_size s2 = 0"
        by simp_all
      note tail = ok_lzma2_tail [OF window_ok_next [OF w1 f g] t2]
      show ?thesis
        unfolding None option.case
      proof (rule ok_bindI [OF tail], clarify)
        fix s3 b3 m3
        assume f3: "chunk_frame m2 s2 b2 m3 s3 b3" and g3: "chunk_good m2 s2 b2 m3 s3 b3"
          and end3: "if b_in_size b2 - b_in_pos b2 < 21
           then b_in_pos b2 < b_in_pos b3 \<or> compressed (s_lzma2 s2) = 0 \<or>
                b_in_pos b3 = b_in_size b2 \<and> temp_size s3 < compressed (s_lzma2 s3)
           else s3 = s2 \<and> b3 = b2"
        have "moved s1 b1 s3 b3" if "compressed (s_lzma2 s1) > 0"
        proof (cases "b_in_size b1 - b_in_pos b1 \<ge> 21")
          case True
          then show ?thesis using mv None moved_mono [OF _ f f3 g3] by simp
        next
          case False
          then have "s2 = s1" "b2 = b1" using mv None by simp_all
          then show ?thesis using False end3 that by (auto simp: moved_def)
        qed
        then show "ok (Some (True, s3, b3, m3)) (\<lambda>(res, s', b', m'). chunk_frame m1 s1 b1 m' s' b' \<and>
          (res \<longrightarrow> chunk_good m1 s1 b1 m' s' b' \<and> (compressed (s_lzma2 s1) > 0 \<longrightarrow> moved s1 b1 s' b')))"
          using chunk_frame_trans [OF f f3] chunk_good_trans [OF f g g3] by simp
      qed
    qed
  qed
  have unfold: "lzma2_lzma m s b = do {
      (r, s, b, m) \<leftarrow> (if ?fst then lzma2_temp m s b else Some (None, s, b, m));
      case r of Some res \<Rightarrow> Some (res, s, b, m) | None \<Rightarrow> rest s b m }"
    by (simp only: lzma2_lzma_def rest_def)
  show ?thesis
  proof (cases ?fst)
    case False
    then have t: "temp_size s = 0" "compressed (s_lzma2 s) > 0" by auto
    show ?thesis
      unfolding unfold using False t rest [OF ok t(1)] by (auto elim!: ok_mono)
  next
    case True
    show ?thesis
      unfolding unfold if_P [OF True]
    proof (rule ok_bindI [OF ok_lzma2_temp [OF ok]], clarify)
      fix r s1 b1 m1
      assume st: "stage_post m s b (r, s1, b1, m1)" and mv: "r \<noteq> Some False \<longrightarrow> moved s b s1 b1"
      show "ok (case r of None \<Rightarrow> rest s1 b1 m1 | Some res \<Rightarrow> Some (res, s1, b1, m1)) (\<lambda>(res, s', b', m').
        chunk_frame m s b m' s' b' \<and> (res \<longrightarrow> chunk_good m s b m' s' b' \<and> moved s b s' b'))"
      proof (cases r)
        case (Some res)
        with st mv show ?thesis by (cases res) simp_all
      next
        case None
        with st have f: "chunk_frame m s b m1 s1 b1" and g: "chunk_good m s b m1 s1 b1" and t1: "temp_size s1 = 0"
          by simp_all
        show ?thesis
          unfolding None option.case using rest [OF window_ok_next [OF ok f g] t1]
        proof (rule ok_mono, clarify)
          fix res s' b' m'
          assume f': "chunk_frame m1 s1 b1 m' s' b'"
            and g': "res \<longrightarrow> chunk_good m1 s1 b1 m' s' b' \<and> (compressed (s_lzma2 s1) > 0 \<longrightarrow> moved s1 b1 s' b')"
          show "chunk_frame m s b m' s' b' \<and> (res \<longrightarrow> chunk_good m s b m' s' b' \<and> moved s b s' b')"
            using chunk_frame_trans [OF f f'] g' chunk_good_trans [OF f g] moved_mono [OF _ f f'] mv None by simp
        qed
      qed
    qed
  qed
qed

section \<open>One pass: limit, decode, flush\<close>

definition chunk_pass ::
  "xz_env \<Rightarrow> mem \<Rightarrow> xz_dec_lzma2 \<Rightarrow> xz_buf \<Rightarrow> (bool \<times> xz_dec_lzma2 \<times> xz_buf \<times> mem) option" where
  \<comment> \<open>the statements \<open>xz_dec_lzma2_run\<close> and \<open>xz_dec_microlzma_run\<close> share\<close>
  "chunk_pass e m s b = do {
     (res, s, b, m) \<leftarrow> lzma2_lzma m
       (dict_update (\<lambda>d. dict_limit d (min (sz_sub (b_out_size b) (b_out_pos b)) (uncompressed (s_lzma2 s)))) s) b;
     if \<not> res then Some (False, s, b, m)
     else do {
       (n, dict, b, m) \<leftarrow> dict_flush e m (s_dict s) b;
       Some (True, set_uncompressed (u32_sub (uncompressed (s_lzma2 s)) n) (s\<lparr>s_dict := dict\<rparr>), b, m)
     }
   }"

lemma run_chunk_pass:
  "lzma2_run_chunk e m s b = do {
     (res, s, b, m) \<leftarrow> chunk_pass e m s b;
     if \<not> res then Some (Some XZ_DATA_ERROR, s, b, m)
     else if uncompressed (s_lzma2 s) = 0 then
       if compressed (s_lzma2 s) > 0 \<or> lz_len (s_lzma s) > 0 \<or> \<not> rc_is_finished (s_rc s)
       then Some (Some XZ_DATA_ERROR, s, b, m)
       else Some (None, set_sequence SEQ_CONTROL (s\<lparr>s_rc := rc_reset (s_rc s)\<rparr>), b, m)
     else if b_out_pos b = b_out_size b \<or> (b_in_pos b = b_in_size b \<and> temp_size s < compressed (s_lzma2 s))
     then Some (Some XZ_OK, s, b, m)
     else Some (None, s, b, m)
   }"
proof -
  let ?s = "dict_update (\<lambda>d. dict_limit d (min (sz_sub (b_out_size b) (b_out_pos b)) (uncompressed (s_lzma2 s)))) s"
  show ?thesis
  proof (cases "lzma2_lzma m ?s b")
    case None
    then show ?thesis by (simp add: lzma2_run_chunk_def chunk_pass_def)
  next
    case (Some r)
    obtain res s1 b1 m1 where r: "r = (res, s1, b1, m1)" by (cases r)
    show ?thesis
      using Some by (cases "dict_flush e m1 (s_dict s1) b1") (auto simp: r lzma2_run_chunk_def chunk_pass_def Let_def split: prod.split)
  qed
qed

definition pass_ok :: "mem \<Rightarrow> xz_dec_lzma2 \<Rightarrow> xz_buf \<Rightarrow> bool" where
  "pass_ok m s b \<longleftrightarrow> lzma_ok m s \<and> dict_ready (s_dict s) \<and> dict_link (s_dict s) b \<and> valid_buf m b \<and>
     temp_sep m b \<and> temp_size s \<le> 20 \<and> temp_size s \<le> compressed (s_lzma2 s) \<and>
     compressed (s_lzma2 s) \<le> 3 * 2 ^ 30 \<and> uncompressed (s_lzma2 s) < 2 ^ 32"

definition io_frame :: "mem \<Rightarrow> xz_dec_lzma2 \<Rightarrow> xz_buf \<Rightarrow> mem \<Rightarrow> xz_dec_lzma2 \<Rightarrow> xz_buf \<Rightarrow> bool" where
  \<comment> \<open>only the dictionary, \<open>temp.buf\<close> and the output are written, and positions only grow\<close>
  "io_frame m s b m' s' b' \<longleftrightarrow> same_shape m m' \<and> buf_frame b b' \<and> valid_buf m' b' \<and>
     (\<forall>k. k \<noteq> Dict_Block \<and> k \<noteq> Lzma_Temp \<and> k \<noteq> fst (b_out b) \<longrightarrow> m' k = m k) \<and>
     d_mode (s_dict s') = d_mode (s_dict s) \<and> d_size (s_dict s') = d_size (s_dict s) \<and>
     d_size_max (s_dict s') = d_size_max (s_dict s) \<and> d_allocated (s_dict s') = d_allocated (s_dict s) \<and>
     (DEC_IS_MULTI (d_mode (s_dict s)) \<longrightarrow> d_end (s_dict s') = d_end (s_dict s) \<and> d_buf (s_dict s') = d_buf (s_dict s)) \<and>
     (DEC_IS_MULTI (d_mode (s_dict s)) \<and> fst (b_in b) \<noteq> fst (b_out b) \<longrightarrow> out_kept m b m' b')"

fun pass_post :: "mem \<Rightarrow> xz_dec_lzma2 \<Rightarrow> xz_buf \<Rightarrow> bool \<times> xz_dec_lzma2 \<times> xz_buf \<times> mem \<Rightarrow> bool" where
  "pass_post m s b (res, s', b', m') \<longleftrightarrow> io_frame m s b m' s' b' \<and>
     (res \<longrightarrow> pass_ok m' s' b' \<and> d_end (s_dict s') = d_end (s_dict s) \<and> d_buf (s_dict s') = d_buf (s_dict s) \<and>
        init_bytes_left (s_rc s') = init_bytes_left (s_rc s) \<and>
        s_lzma2 s' = (s_lzma2 s)\<lparr>compressed := compressed (s_lzma2 s'), uncompressed := uncompressed (s_lzma2 s')\<rparr> \<and>
        compressed (s_lzma2 s') \<le> compressed (s_lzma2 s) \<and>
        b_in_pos b' + (compressed (s_lzma2 s') - temp_size s') = b_in_pos b + (compressed (s_lzma2 s) - temp_size s) \<and>
        b_out_pos b' + uncompressed (s_lzma2 s') = b_out_pos b + uncompressed (s_lzma2 s) \<and>
        (fst (b_out b) \<noteq> Null_Block \<longrightarrow>
          take (b_out_pos b' - b_out_pos b) (drop (snd (b_out b) + b_out_pos b) (m' (fst (b_out b))))
          = rev (take (b_out_pos b' - b_out_pos b) (dict_hist m' (s_dict s')))) \<and>
        (0 < uncompressed (s_lzma2 s) \<and> b_out_pos b < b_out_size b \<longrightarrow>
          b_out_pos b < b_out_pos b' \<or> b_in_pos b < b_in_pos b' \<or>
          b_in_pos b' = b_in_size b \<and> temp_size s' < compressed (s_lzma2 s')))"

lemma io_frame_refl: "valid_buf m b \<Longrightarrow> io_frame m s b m s b"
  by (simp add: io_frame_def)

lemma io_frame_trans:
  assumes "io_frame m s b m1 s1 b1" and "io_frame m1 s1 b1 m2 s2 b2"
  shows "io_frame m s b m2 s2 b2"
proof -
  have "b_out b1 = b_out b" "b_in b1 = b_in b" using assms(1) buf_frame_sel by (auto simp: io_frame_def)
  then show ?thesis
    using assms buf_frame_trans [of b b1 b2] same_shape_trans [of m m1 m2] out_kept_trans [of m b m1 b1 m2 b2]
    unfolding io_frame_def by auto
qed

lemma io_frame_upd:
  "s_dict s2 = s_dict s1 \<Longrightarrow> io_frame m s b m1 s2 b1 = io_frame m s b m1 s1 b1"
  by (simp add: io_frame_def)

lemma dict_link_blocks:
  assumes "dict_link d b"
  shows "fst (d_buf d) = Dict_Block \<or> fst (d_buf d) = fst (b_out b)"
  using assms by (cases "DEC_IS_MULTI (d_mode d)") (auto simp: dict_link_def)

lemma chunk_io_frame:
  assumes "chunk_frame m s b m' s' b'" and "valid_buf m b" and "dict_link (s_dict s) b" and "temp_sep m b"
  shows "io_frame m s b m' s' b'"
proof -
  from assms(1) have b': "b' = b\<lparr>b_in_pos := b_in_pos b'\<rparr>" "b_in_pos b \<le> b_in_pos b'" "b_in_pos b' \<le> b_in_size b"
    and shape: "same_shape m m'"
    by (auto simp: chunk_frame_def)
  have "buf_frame b b'" using b' by (cases b, cases b') (simp add: buf_frame_def)
  moreover have "valid_buf m' b'"
    using assms(2) b'(3) by (subst b'(1)) (simp add: valid_buf_def same_shape_room [OF shape])
  moreover have "fst (b_out b) \<noteq> fst (d_buf (s_dict s)) \<and> fst (b_out b) \<noteq> Lzma_Temp" if "DEC_IS_MULTI (d_mode (s_dict s))"
    using assms(3,4) that by (auto simp: dict_link_def temp_sep_def)
  then have "out_kept m b m' b'" if "DEC_IS_MULTI (d_mode (s_dict s))"
    using assms(1) that by (intro out_kept_same) (auto simp: chunk_frame_def)
  ultimately show ?thesis
    using assms(1) dict_link_blocks [OF assms(3)] by (auto simp: io_frame_def chunk_frame_def dict_frame_def)
qed

lemma ok_chunk_pass:
  assumes ok: "pass_ok m s b"
  shows "ok (chunk_pass e m s b) (pass_post m s b)"
proof -
  let ?out = "min (sz_sub (b_out_size b) (b_out_pos b)) (uncompressed (s_lzma2 s))"
  let ?s = "dict_update (\<lambda>d. dict_limit d ?out) s" and ?d = "s_dict s"
  have lz: "lzma_ok m s" and ready: "dict_ready ?d" and link: "dict_link ?d b" and vb: "valid_buf m b"
    and dok: "dict_ok m ?d"
    using ok by (auto simp: pass_ok_def lzma_ok_def)
  have bsz: "b_out_pos b \<le> b_out_size b" "b_out_size b < 2 ^ 63" using vb by (auto simp: valid_buf_def)
  then have out: "?out = min (b_out_size b - b_out_pos b) (uncompressed (s_lzma2 s))" by simp
  have lim: "dict_limit_ok (s_dict ?s)" "d_limit (s_dict ?s) = d_pos ?d + min ?out (d_end ?d - d_pos ?d)"
    using ok_dict_limit [OF dok ready, of ?out] by simp_all
  have d1: "d_pos (s_dict ?s) = d_pos ?d" "d_start (s_dict ?s) = d_pos ?d" "d_end (s_dict ?s) = d_end ?d"
      "d_buf (s_dict ?s) = d_buf ?d" "d_mode (s_dict ?s) = d_mode ?d" "d_full (s_dict ?s) = d_full ?d"
      "d_size (s_dict ?s) = d_size ?d" "d_size_max (s_dict ?s) = d_size_max ?d" "d_allocated (s_dict ?s) = d_allocated ?d"
    using ready by (auto simp: dict_limit_def dict_ready_def)
  have "lzma_ok m ?s" using lz d1 ready by (simp add: lzma_ok_def dict_ok_def rep0_ok_def dict_ready_def)
  moreover have "dict_link (s_dict ?s) b" using link d1 ready
    by (cases "DEC_IS_MULTI (d_mode ?d)") (simp_all add: dict_link_def dict_ready_def)
  ultimately have w: "window_ok m ?s b" using ok lim(1) by (simp add: window_ok_def pass_ok_def)
  show ?thesis
    unfolding chunk_pass_def
  proof (rule ok_bindI [OF ok_lzma2_lzma [OF w]], clarify)
    fix res s1 b1 m1
    assume f: "chunk_frame m ?s b m1 s1 b1" and good: "res \<longrightarrow> chunk_good m ?s b m1 s1 b1 \<and> moved ?s b s1 b1"
    have fd: "dict_frame (s_dict ?s) (s_dict s1)" "d_start (s_dict s1) = d_pos ?d" "same_shape m m1"
        "init_bytes_left (s_rc s1) = init_bytes_left (s_rc s)" "b1 = b\<lparr>b_in_pos := b_in_pos b1\<rparr>"
        "b_in_pos b \<le> b_in_pos b1" "b_in_pos b1 \<le> b_in_size b"
      using f d1 by (auto simp: chunk_frame_def)
    have b1: "b_out_pos b1 = b_out_pos b" "b_out_size b1 = b_out_size b" "b_out b1 = b_out b" "b_in_size b1 = b_in_size b"
      by (subst fd(5), simp)+
    have io1: "io_frame m s b m1 s1 b1"
      using chunk_io_frame [OF f vb] w d1 by (simp add: io_frame_def window_ok_def)
    show "ok (if \<not> res then Some (False, s1, b1, m1)
       else do { (n, dict, b, m) \<leftarrow> dict_flush e m1 (s_dict s1) b1;
         Some (True, set_uncompressed (u32_sub (uncompressed (s_lzma2 s1)) n) (s1\<lparr>s_dict := dict\<rparr>), b, m) })
      (pass_post m s b)"
    proof (cases res)
      case False
      with io1 show ?thesis by simp
    next
      case True
      then have g: "chunk_good m ?s b m1 s1 b1" and mv: "moved ?s b s1 b1" using good by simp_all
      have w1: "window_ok m1 s1 b1" by (rule window_ok_next [OF w f g])
      let ?d1 = "s_dict s1" and ?n = "d_pos (s_dict s1) - d_pos ?d"
      have lz1: "lzma_ok m1 s1" and pos: "d_pos ?d \<le> d_pos ?d1" "d_pos ?d1 \<le> d_limit (s_dict ?s)"
        and l2: "s_lzma2 s1 = (s_lzma2 s)\<lparr>compressed := compressed (s_lzma2 s1)\<rparr>"
        using g d1 by (simp_all add: chunk_good_def)
      have n: "?n \<le> b_out_size b - b_out_pos b" "?n \<le> uncompressed (s_lzma2 s)"
          using pos lim(2) unfolding out by linarith+
      have unc: "uncompressed (s_lzma2 s1) = uncompressed (s_lzma2 s)" by (subst l2, simp)
      have "DEC_IS_MULTI (d_mode ?d1) \<Longrightarrow> 0 < d_end ?d1"
        using fd(1) d1 ready by (auto simp: dict_frame_def dict_ready_def)
      then have flush: "ok (dict_flush e m1 ?d1 b1) (\<lambda>(n', d', b', m'). n' = ?n \<and>
         dict_ok m' d' \<and> dict_ready d' \<and> dict_link d' b' \<and> dict_frame ?d1 d' \<and> d_full d' = d_full ?d1 \<and>
         b' = b1\<lparr>b_out_pos := b_out_pos b1 + ?n\<rparr> \<and> valid_buf m' b' \<and>
         same_shape m1 m' \<and> (\<forall>k. k \<noteq> fst (b_out b1) \<longrightarrow> m' k = m1 k) \<and> dict_hist m' d' = dict_hist m1 ?d1 \<and>
         (fst (b_out b1) \<noteq> Null_Block \<longrightarrow>
            take ?n (drop (snd (b_out b1) + b_out_pos b1) (m' (fst (b_out b1)))) = rev (take ?n (dict_hist m1 ?d1))) \<and>
         (DEC_IS_MULTI (d_mode ?d1) \<longrightarrow> out_kept m1 b1 m' b'))"
        using w1 lz1 n b1 fd(2) ok unfolding fd(2) [symmetric]
        by (intro ok_dict_flush) (auto simp: window_ok_def lzma_ok_def pass_ok_def)
      show ?thesis
        using True
      proof (simp, intro ok_bindI [OF flush], clarify)
        fix d' m2
        let ?b2 = "b1\<lparr>b_out_pos := b_out_pos b1 + ?n\<rparr>"
        assume d': "dict_ok m2 d'" "dict_ready d'" "dict_link d' ?b2" "dict_frame ?d1 d'" "d_full d' = d_full ?d1"
          and vb2: "valid_buf m2 ?b2" and shape2: "same_shape m1 m2" and blk: "\<forall>k. k \<noteq> fst (b_out b1) \<longrightarrow> m2 k = m1 k"
          and hist: "dict_hist m2 d' = dict_hist m1 ?d1"
          and bytes: "fst (b_out b1) \<noteq> Null_Block \<longrightarrow>
            take ?n (drop (snd (b_out b1) + b_out_pos b1) (m2 (fst (b_out b1)))) = rev (take ?n (dict_hist m1 ?d1))"
          and kept: "DEC_IS_MULTI (d_mode ?d1) \<longrightarrow> out_kept m1 b1 m2 ?b2"
        let ?s2 = "set_uncompressed (u32_sub (uncompressed (s_lzma2 s1)) ?n) (s1\<lparr>s_dict := d'\<rparr>)"
        have lz2: "lzma_ok m2 ?s2"
          using lz1 d'(1,4,5) by (simp add: lzma_ok_def rep0_ok_def dict_frame_def)
        have "temp_sep m2 ?b2"
          using w1 shape2 by (simp add: window_ok_def temp_sep_def same_shape_def)
        then have pass: "pass_ok m2 ?s2 ?b2"
          using w1 lz2 d' vb2 n unc ok by (auto simp: pass_ok_def window_ok_def)
        have "buf_frame b1 ?b2" by (simp add: buf_frame_def)
        then have "io_frame m1 s1 b1 m2 ?s2 ?b2"
          using shape2 vb2 blk d'(4) kept by (simp add: io_frame_def dict_frame_def)
        then have io: "io_frame m s b m2 ?s2 ?b2" by (rule io_frame_trans [OF io1])
        have prog: "b_out_pos b < b_out_pos b + ?n \<or> b_in_pos b < b_in_pos b1 \<or>
            b_in_pos b1 = b_in_size b \<and> temp_size s1 < compressed (s_lzma2 s1)"
          if "0 < uncompressed (s_lzma2 s)" "b_out_pos b < b_out_size b"
        proof -
          have "d_pos ?d < d_end ?d"
            using ready link that(2) by (cases "DEC_IS_MULTI (d_mode ?d)") (auto simp: dict_ready_def dict_link_def)
          moreover have "0 < ?out" unfolding out using that by simp
          ultimately have "d_pos (s_dict ?s) < d_limit (s_dict ?s)" unfolding lim(2) d1(1) by linarith
          then show ?thesis using mv d1(1) by (auto simp: moved_def)
        qed
        have "s_lzma2 ?s2 = (s_lzma2 s)\<lparr>compressed := compressed (s_lzma2 s1), uncompressed := uncompressed (s_lzma2 s) - ?n\<rparr>"
          using n(2) unc by simp (subst l2, simp)
        moreover have "d_end d' = d_end ?d" "d_buf d' = d_buf ?d"
          using fd(1) d1(3,4) d'(4) by (simp_all add: dict_frame_def)
        moreover have "b_in_pos b1 + (compressed (s_lzma2 s1) - temp_size s1) = b_in_pos b + (compressed (s_lzma2 s) - temp_size s)"
            "compressed (s_lzma2 s1) \<le> compressed (s_lzma2 s)"
          using g by (simp_all add: chunk_good_def)
        moreover have "b_out_pos b + ?n + (uncompressed (s_lzma2 s) - ?n) = b_out_pos b + uncompressed (s_lzma2 s)"
          using n(2) by simp
        moreover have "u32_sub (uncompressed (s_lzma2 s1)) ?n = uncompressed (s_lzma2 s) - ?n"
          using n(2) unc by simp
        moreover have "fst (b_out b) \<noteq> Null_Block \<longrightarrow>
            take ?n (drop (snd (b_out b) + b_out_pos b) (m2 (fst (b_out b)))) = rev (take ?n (dict_hist m2 d'))"
          using bytes hist b1 by simp
        ultimately show "ok (Some (True, ?s2, ?b2, m2)) (pass_post m s b)"
          unfolding ok_Some pass_post.simps using io pass
          by (intro conjI impI) (use prog fd(4) b1(1) in simp_all)
      qed
    qed
  qed
qed

section \<open>The chunk state machine\<close>

text \<open>The LZMA state can be used as soon as the sizes of a chunk are known.\<close>

definition lzma_ready :: "xz_dec_lzma2 \<Rightarrow> bool" where
  "lzma_ready s \<longleftrightarrow> lzma_params_ok (s_lzma s) \<and> probs_ok (lz_probs (s_lzma s)) \<and>
     253952 \<le> unat (rc_range (s_rc s)) \<and> rep0_ok s \<and> lz_len (s_lzma s) = 0 \<and>
     init_bytes_left (s_rc s) \<le> RC_INIT_BYTES"

definition dict_static :: "mem \<Rightarrow> dictionary \<Rightarrow> xz_buf \<Rightarrow> bool" where
  \<comment> \<open>the allocation of a multi-call decoder\<close>
  "dict_static m d b \<longleftrightarrow> (DEC_IS_MULTI (d_mode d) \<longrightarrow>
     d_buf d = (Dict_Block, 0) \<and> 0 < d_end d \<and> d_end d \<le> length (m Dict_Block) \<and> d_end d < 2 ^ 63 \<and>
     fst (b_out b) \<noteq> Dict_Block \<and> fst (b_in b) \<noteq> Dict_Block)"

definition next_ok :: "xz_dec_lzma2 \<Rightarrow> bool" where
  "next_ok s \<longleftrightarrow>
     (case next_sequence (s_lzma2 s) of
        SEQ_PROPERTIES \<Rightarrow> True
      | SEQ_LZMA_PREPARE \<Rightarrow> lzma_ready s
      | _ \<Rightarrow> False)"

definition next_ok_copy :: "xz_dec_lzma2 \<Rightarrow> bool" where
  "next_ok_copy s \<longleftrightarrow>
     (if next_sequence (s_lzma2 s) = SEQ_COPY then need_props (s_lzma2 s) \<or> lzma_ready s
      else next_ok s \<and> 0 < uncompressed (s_lzma2 s) \<and> uncompressed (s_lzma2 s) \<le> 2 ^ 21)"

definition sizes_ok :: "xz_dec_lzma2 \<Rightarrow> bool" where
  "sizes_ok s \<longleftrightarrow> 0 < uncompressed (s_lzma2 s) \<and> uncompressed (s_lzma2 s) \<le> 2 ^ 21 \<and>
     compressed (s_lzma2 s) \<le> 2 ^ 16"

definition seq_ok :: "mem \<Rightarrow> xz_dec_lzma2 \<Rightarrow> bool" where
  "seq_ok m s \<longleftrightarrow>
     (case sequence (s_lzma2 s) of
        SEQ_CONTROL \<Rightarrow> temp_size s = 0 \<and> (need_props (s_lzma2 s) \<or> lzma_ready s)
      | SEQ_UNCOMPRESSED_1 \<Rightarrow> temp_size s = 0 \<and> uncompressed (s_lzma2 s) \<le> 0x1F0000 \<and> next_ok s
      | SEQ_UNCOMPRESSED_2 \<Rightarrow> temp_size s = 0 \<and> uncompressed (s_lzma2 s) \<le> 0x1FFF00 \<and> next_ok s
      | SEQ_COMPRESSED_0 \<Rightarrow> temp_size s = 0 \<and> next_ok_copy s
      | SEQ_COMPRESSED_1 \<Rightarrow> temp_size s = 0 \<and> compressed (s_lzma2 s) \<le> 0xFF00 \<and> next_ok_copy s
      | SEQ_PROPERTIES \<Rightarrow> temp_size s = 0 \<and> sizes_ok s
      | SEQ_LZMA_PREPARE \<Rightarrow> temp_size s = 0 \<and> sizes_ok s \<and> lzma_ready s
      | SEQ_LZMA_RUN \<Rightarrow> temp_size s \<le> 20 \<and> temp_size s \<le> compressed (s_lzma2 s) \<and> sizes_ok s \<and> lzma_ok m s \<and>
          init_bytes_left (s_rc s) \<le> RC_INIT_BYTES
      | SEQ_COPY \<Rightarrow> temp_size s = 0 \<and> 0 < compressed (s_lzma2 s) \<and> compressed (s_lzma2 s) \<le> 2 ^ 16 \<and>
          (need_props (s_lzma2 s) \<or> lzma_ready s))"

text \<open>The invariant of the decoder between calls.\<close>

definition lzma2_ok :: "mem \<Rightarrow> xz_dec_lzma2 \<Rightarrow> xz_buf \<Rightarrow> bool" where
  "lzma2_ok m s b \<longleftrightarrow> valid_buf m b \<and> temp_sep m b \<and> dict_static m (s_dict s) b \<and>
     (if need_dict_reset (s_lzma2 s) then sequence (s_lzma2 s) = SEQ_CONTROL \<and> temp_size s = 0
      else dict_ok m (s_dict s) \<and> dict_ready (s_dict s) \<and> dict_link (s_dict s) b \<and> seq_ok m s)"

definition io_left :: "xz_buf \<Rightarrow> nat" where
  "io_left b = (b_in_size b - b_in_pos b) + (b_out_size b - b_out_pos b)"

fun step_post :: "mem \<Rightarrow> xz_dec_lzma2 \<Rightarrow> xz_buf \<Rightarrow> step_result \<Rightarrow> bool" where
  "step_post m s b (r, s', b', m') \<longleftrightarrow> io_frame m s b m' s' b' \<and>
     (case r of
        None \<Rightarrow> lzma2_ok m' s' b' \<and> io_left b' < io_left b
      | Some XZ_OK \<Rightarrow> lzma2_ok m' s' b' \<and> (b_in_pos b' = b_in_size b' \<or> b_out_pos b' = b_out_size b')
      | Some XZ_STREAM_END \<Rightarrow> lzma2_ok m' s' b'
      | Some e \<Rightarrow> e = XZ_DATA_ERROR)"

lemma dict_reset_ok:
  assumes "dict_static m d b" and "valid_buf m b"
  shows "dict_ok m (dict_reset d b)" and "dict_ready (dict_reset d b)" and "dict_link (dict_reset d b) b"
    and "dict_static m (dict_reset d b) b"
  using assms
  by (cases "d_mode d"; auto simp: dict_reset_def dict_static_def dict_ok_def dict_ready_def dict_link_def
      mode_defs valid_buf_def room_def Let_def)+

lemma lzma_ready_ok: "lzma_ready s \<Longrightarrow> dict_ok m (s_dict s) \<Longrightarrow> lzma_ok m s"
  by (simp add: lzma_ready_def lzma_ok_def)

lemma lzma_ready_upd:
  "s_dict s' = s_dict s \<Longrightarrow> s_lzma s' = s_lzma s \<Longrightarrow> s_rc s' = s_rc s \<Longrightarrow> lzma_ready s' = lzma_ready s"
  by (simp add: lzma_ready_def rep0_ok_def)

lemma lzma_ready_reset: "lzma_params_ok (s_lzma s) \<Longrightarrow> lzma_ready (lzma_reset s)"
proof -
  assume "lzma_params_ok (s_lzma s)"
  moreover have "lz_state (s_lzma (lzma_reset s)) = STATE_LIT_LIT" "lz_len (s_lzma (lzma_reset s)) = 0"
    by (simp_all add: lzma_reset_def)
  ultimately show ?thesis
    using probs_reset [of s]
    by (simp add: lzma_ready_def rep0_ok_def lzma_state_is_literal_def LIT_STATES_def
        unsigned_minus_1_eq_mask mask_eq_exp_minus_1)
qed

lemma ready_set [simp]:
  "lzma_ready (set_sequence q s) = lzma_ready s" "lzma_ready (set_next q s) = lzma_ready s"
  "lzma_ready (set_compressed n s) = lzma_ready s" "lzma_ready (set_uncompressed n s) = lzma_ready s"
  by (rule lzma_ready_upd; simp)+

lemma ok_next_byte:
  assumes "valid_buf m b" and "b_in_pos b < b_in_size b"
  shows "ok (next_byte m b) (\<lambda>(n, b'). n < 256 \<and> b' = b\<lparr>b_in_pos := Suc (b_in_pos b)\<rparr>)"
  using assms by (auto simp: next_byte_def ok_simps valid_buf_def)

lemma step_in_frame:
  assumes "valid_buf m b" and "b_in_pos b < b_in_size b" and "s_dict s' = s_dict s"
  shows "io_frame m s b m s' (b\<lparr>b_in_pos := Suc (b_in_pos b)\<rparr>)"
    and "io_left (b\<lparr>b_in_pos := Suc (b_in_pos b)\<rparr>) < io_left b"
    and "valid_buf m (b\<lparr>b_in_pos := Suc (b_in_pos b)\<rparr>)"
  using assms by (auto simp: io_frame_def buf_frame_def valid_buf_def io_left_def)

lemma lzma2_ok_static:
  assumes "lzma2_ok m s b"
  shows "valid_buf m b" "temp_sep m b" "dict_static m (s_dict s) b"
    and "\<not> need_dict_reset (s_lzma2 s) \<Longrightarrow> dict_ok m (s_dict s)"
    and "\<not> need_dict_reset (s_lzma2 s) \<Longrightarrow> dict_ready (s_dict s)"
    and "\<not> need_dict_reset (s_lzma2 s) \<Longrightarrow> dict_link (s_dict s) b"
    and "\<not> need_dict_reset (s_lzma2 s) \<Longrightarrow> seq_ok m s"
  using assms by (auto simp: lzma2_ok_def)

text \<open>A step that only reads a byte and changes the control state.\<close>

lemma lzma2_ok_byte:
  assumes "lzma2_ok m s b" and "\<not> need_dict_reset (s_lzma2 s)" and "b_in_pos b < b_in_size b"
    and "s_dict s' = s_dict s" and "\<not> need_dict_reset (s_lzma2 s')" and "seq_ok m s'"
  shows "step_post m s b (None, s', b\<lparr>b_in_pos := Suc (b_in_pos b)\<rparr>, m)"
proof -
  note st = lzma2_ok_static [OF assms(1)]
  have "lzma2_ok m s' (b\<lparr>b_in_pos := Suc (b_in_pos b)\<rparr>)"
    using st(2-6) assms step_in_frame(3) [OF st(1) assms(3) refl]
    by (simp add: lzma2_ok_def temp_sep_def dict_static_def dict_link_def)
  then show ?thesis
    using step_in_frame [OF st(1) assms(3,4)] by simp
qed

lemma and_low5: "n AND 0x1F \<le> (0x1F :: nat)"
proof -
  have "n AND mask 5 = take_bit 5 n" by (simp add: take_bit_eq_mask)
  moreover have "take_bit 5 n < 2 ^ 5" by (rule take_bit_nat_less_exp)
  ultimately show ?thesis by (simp add: mask_eq_exp_minus_1)
qed

lemma dict_static_pos: "dict_static m d (b\<lparr>b_in_pos := i\<rparr>) = dict_static m d b"
  by (simp add: dict_static_def)

lemma temp_sep_pos: "temp_sep m (b\<lparr>b_in_pos := i\<rparr>) = temp_sep m b"
  by (simp add: temp_sep_def)

lemma dict_link_pos: "dict_link d (b\<lparr>b_in_pos := i\<rparr>) = dict_link d b"
  by (simp add: dict_link_def)

text \<open>The control byte: every value is either rejected or leads to a state in which the
  invariant holds.\<close>

lemma control_good:
  assumes ok: "lzma2_ok m s b" and seq: "sequence (s_lzma2 s) = SEQ_CONTROL" and res: "lzma2_control tmp b s = (r, s')"
  shows "(r = None \<longrightarrow> lzma2_ok m s' b) \<and> (r \<noteq> None \<longrightarrow> r = Some XZ_STREAM_END \<and> s' = s \<or> r = Some XZ_DATA_ERROR) \<and>
    d_mode (s_dict s') = d_mode (s_dict s) \<and> d_size (s_dict s') = d_size (s_dict s) \<and>
    d_size_max (s_dict s') = d_size_max (s_dict s) \<and> d_allocated (s_dict s') = d_allocated (s_dict s) \<and>
    (DEC_IS_MULTI (d_mode (s_dict s)) \<longrightarrow> d_end (s_dict s') = d_end (s_dict s) \<and> d_buf (s_dict s') = d_buf (s_dict s))"
proof -
  note st = lzma2_ok_static [OF ok]
  let ?reset = "tmp \<ge> 0xE0 \<or> tmp = 0x01"
  show ?thesis
  proof (cases "tmp = 0 \<or> \<not> ?reset \<and> need_dict_reset (s_lzma2 s)")
    case True
    then show ?thesis using res by (auto simp: lzma2_control_def split: if_splits)
  next
    case False
    define s1 where "s1 = (if ?reset then s\<lparr>s_lzma2 := (s_lzma2 s)\<lparr>need_props := True, need_dict_reset := False\<rparr>,
                        s_dict := dict_reset (s_dict s) b\<rparr> else s)"
    have res1: "(if tmp \<ge> 0x80 then
             let s = set_sequence SEQ_UNCOMPRESSED_1 (set_uncompressed (push_bit 16 (tmp AND 0x1F)) s1)
             in if tmp \<ge> 0xC0 then
                  (None, set_next SEQ_PROPERTIES (s\<lparr>s_lzma2 := (s_lzma2 s)\<lparr>need_props := False\<rparr>\<rparr>))
                else if need_props (s_lzma2 s) then (Some XZ_DATA_ERROR, s)
                else let s = set_next SEQ_LZMA_PREPARE s
                     in (None, if tmp \<ge> 0xA0 then lzma_reset s else s)
           else if tmp > 0x02 then (Some XZ_DATA_ERROR, s1)
           else (None, set_next SEQ_COPY (set_sequence SEQ_COMPRESSED_0 s1))) = (r, s')"
    proof -
      have h: "tmp \<noteq> 0" "\<not> ((\<not> ?reset) \<and> need_dict_reset (s_lzma2 s))" using False by auto
      show ?thesis
        using res unfolding lzma2_control_def if_not_P [OF h(1)] if_not_P [OF h(2)] s1_def Let_def .
    qed
    have dict1: "dict_ok m (s_dict s1)" "dict_ready (s_dict s1)" "dict_link (s_dict s1) b" "dict_static m (s_dict s1) b"
      using False st dict_reset_ok [OF st(3,1)] by (auto simp: s1_def)
    have keep: "\<not> need_dict_reset (s_lzma2 s1)" "temp_size s1 = 0" "need_props (s_lzma2 s1) \<or> lzma_ready s1"
      using False seq st(7) by (auto simp: s1_def seq_ok_def) (use ok in \<open>auto simp: lzma2_ok_def seq_ok_def seq split: if_splits\<close>)
    have same: "d_mode (s_dict s1) = d_mode (s_dict s) \<and> d_size (s_dict s1) = d_size (s_dict s) \<and>
        d_size_max (s_dict s1) = d_size_max (s_dict s) \<and> d_allocated (s_dict s1) = d_allocated (s_dict s) \<and>
        (DEC_IS_MULTI (d_mode (s_dict s)) \<longrightarrow> d_end (s_dict s1) = d_end (s_dict s) \<and> d_buf (s_dict s1) = d_buf (s_dict s))"
      by (auto simp: s1_def dict_reset_def mode_defs Let_def)
    have sd: "s_dict s' = s_dict s1"
      using res1 by (auto simp: Let_def split: if_splits)
    have unc: "push_bit 16 (tmp AND 0x1F) \<le> 0x1F0000"
      using and_low5 [of tmp] by (simp add: push_bit_eq_mult)
    have "r = None \<longrightarrow> lzma2_ok m s' b"
    proof
      assume none: "r = None"
      have "\<not> need_dict_reset (s_lzma2 s') \<and> seq_ok m s'"
      proof (cases "tmp \<ge> 0x80")
        case True
        show ?thesis
        proof (cases "tmp \<ge> 0xC0")
          case True
          then show ?thesis
            using res1 \<open>tmp \<ge> 0x80\<close> keep unc by (auto simp: Let_def seq_ok_def next_ok_def)
        next
          case False
          then have np: "\<not> need_props (s_lzma2 s1)" using res1 none True by (auto simp: Let_def split: if_splits)
          then have rd: "lzma_ready s1" using keep by simp
          then have par: "lzma_params_ok (s_lzma s1)" by (simp add: lzma_ready_def)
          let ?s2 = "set_next SEQ_LZMA_PREPARE (set_sequence SEQ_UNCOMPRESSED_1 (set_uncompressed (push_bit 16 (tmp AND 0x1F)) s1))"
          have s': "s' = (if tmp \<ge> 0xA0 then lzma_reset ?s2 else ?s2)"
            using res1 none True False np by (auto simp: Let_def split: if_splits)
          have "lzma_ready s'"
            using s' rd lzma_ready_reset [of ?s2] par by simp
          moreover have "s_lzma2 s' = s_lzma2 ?s2" "temp_size s' = temp_size s1" using s' by simp_all
          ultimately show ?thesis
            using keep unc by (simp add: seq_ok_def next_ok_def)
        qed
      next
        case False
        then have "s' = set_next SEQ_COPY (set_sequence SEQ_COMPRESSED_0 s1)"
          using res1 none by (auto split: if_splits)
        then show ?thesis using keep by (simp add: seq_ok_def next_ok_copy_def)
      qed
      then show "lzma2_ok m s' b"
        using dict1 st(1,2) sd by (simp add: lzma2_ok_def)
    qed
    moreover have "r \<noteq> None \<longrightarrow> r = Some XZ_DATA_ERROR"
      using res1 by (auto simp: Let_def split: if_splits)
    ultimately show ?thesis using same sd by simp
  qed
qed

lemma ok_step_control:
  assumes ok: "lzma2_ok m s b" and "b_in_pos b < b_in_size b" and seq: "sequence (s_lzma2 s) = SEQ_CONTROL"
  shows "ok (lzma2_step e m s b) (step_post m s b)"
proof -
  note st = lzma2_ok_static [OF ok]
  let ?b = "b\<lparr>b_in_pos := Suc (b_in_pos b)\<rparr>"
  have okb: "lzma2_ok m s ?b"
    using ok st(1) step_in_frame(3) [OF st(1) assms(2) refl]
    by (simp add: lzma2_ok_def temp_sep_pos dict_static_pos dict_link_pos)
  obtain n where n: "next_byte m b = Some (n, ?b)"
    using ok_next_byte [OF st(1) assms(2)] by (auto simp: ok_iff)
  obtain r s' where c: "lzma2_control n ?b s = (r, s')" by (cases "lzma2_control n ?b s")
  note good = control_good [OF okb seq c]
  have io: "io_frame m s b m s' ?b"
    using good step_in_frame(1) [OF st(1) assms(2), of s] by (simp add: io_frame_def)
  have left: "io_left ?b < io_left b"
    using step_in_frame(2) [OF st(1) assms(2) refl] .
  show ?thesis
    using good io left okb by (cases r) (auto simp: lzma2_step_def seq n c)
qed

lemma step_post_after:
  assumes "io_frame m s b m1 s1 b1" and "step_post m1 s1 b1 r"
  shows "step_post m s b r"
proof -
  obtain x s' b' m' where r: "r = (x, s', b', m')" by (cases r)
  have fr: "io_frame m s b m' s' b'" using assms io_frame_trans [OF assms(1)] by (simp add: r)
  have "buf_frame b b1" using assms(1) by (simp add: io_frame_def)
  then have left: "io_left b1 \<le> io_left b"
    using buf_frame_sel [of b b1] by (simp add: io_left_def buf_frame_def diff_le_mono2 add_mono)
  show ?thesis
    using assms(2) fr left unfolding r by (auto split: option.splits xz_ret.splits)
qed

lemma ok_step_run:
  assumes ok: "lzma2_ok m s b" and seq: "sequence (s_lzma2 s) = SEQ_LZMA_RUN"
  shows "ok (lzma2_run_chunk e m s b) (step_post m s b)"
proof -
  note st = lzma2_ok_static [OF ok]
  have ndr: "\<not> need_dict_reset (s_lzma2 s)" using ok seq by (auto simp: lzma2_ok_def)
  note st = st(1-3) st(4-7) [OF ndr]
  have sq: "temp_size s \<le> 20" "temp_size s \<le> compressed (s_lzma2 s)" "sizes_ok s" "lzma_ok m s"
      "init_bytes_left (s_rc s) \<le> RC_INIT_BYTES"
    using st(7) by (simp_all add: seq_ok_def seq)
  have pass: "pass_ok m s b"
    using st sq by (simp add: pass_ok_def sizes_ok_def)
  show ?thesis
    unfolding run_chunk_pass
  proof (rule ok_bindI [OF ok_chunk_pass [OF pass]])
    fix r assume post: "pass_post m s b r"
    obtain res s1 b1 m1 where r: "r = (res, s1, b1, m1)" by (cases r)
    have io: "io_frame m s b m1 s1 b1" using post by (simp add: r)
    show "ok (case r of (res, s, b, m) \<Rightarrow>
        if \<not> res then Some (Some XZ_DATA_ERROR, s, b, m)
        else if uncompressed (s_lzma2 s) = 0 then
          if compressed (s_lzma2 s) > 0 \<or> lz_len (s_lzma s) > 0 \<or> \<not> rc_is_finished (s_rc s)
          then Some (Some XZ_DATA_ERROR, s, b, m)
          else Some (None, set_sequence SEQ_CONTROL (s\<lparr>s_rc := rc_reset (s_rc s)\<rparr>), b, m)
        else if b_out_pos b = b_out_size b \<or> (b_in_pos b = b_in_size b \<and> temp_size s < compressed (s_lzma2 s))
        then Some (Some XZ_OK, s, b, m)
        else Some (None, s, b, m)) (step_post m s b)"
    proof (cases res)
      case False
      with io show ?thesis by (simp add: r)
    next
      case True
      with post have p: "pass_ok m1 s1 b1" "d_end (s_dict s1) = d_end (s_dict s)" "d_buf (s_dict s1) = d_buf (s_dict s)"
        "init_bytes_left (s_rc s1) = init_bytes_left (s_rc s)" "compressed (s_lzma2 s1) \<le> compressed (s_lzma2 s)"
        "b_out_pos b1 + uncompressed (s_lzma2 s1) = b_out_pos b + uncompressed (s_lzma2 s)"
        and l2: "s_lzma2 s1 = (s_lzma2 s)\<lparr>compressed := compressed (s_lzma2 s1), uncompressed := uncompressed (s_lzma2 s1)\<rparr>"
        and prog: "0 < uncompressed (s_lzma2 s) \<and> b_out_pos b < b_out_size b \<longrightarrow>
          b_out_pos b < b_out_pos b1 \<or> b_in_pos b < b_in_pos b1 \<or>
          b_in_pos b1 = b_in_size b \<and> temp_size s1 < compressed (s_lzma2 s1)"
        by (simp_all add: r)
      have bf: "b_in b1 = b_in b" "b_out b1 = b_out b" "b_in_size b1 = b_in_size b" "b_out_size b1 = b_out_size b"
          "b_in_pos b \<le> b_in_pos b1" "b_out_pos b \<le> b_out_pos b1" "b_in_pos b1 \<le> b_in_size b" "b_out_pos b1 \<le> b_out_size b"
        using io buf_frame_sel [of b b1] by (auto simp: io_frame_def buf_frame_def valid_buf_def)
      have shape: "same_shape m m1" using io by (simp add: io_frame_def)
      have base: "valid_buf m1 b1" "temp_sep m1 b1" "dict_static m1 (s_dict s1) b1"
        using p(1-3) st(3) io bf shape by (auto simp: pass_ok_def dict_static_def io_frame_def same_shape_def)
      have nd1: "\<not> need_dict_reset (s_lzma2 s1)" by (subst l2) (simp add: ndr)
      have seq1: "sequence (s_lzma2 s1) = SEQ_LZMA_RUN" by (subst l2) (simp add: seq)
      have lz1: "lzma_ok m1 s1" "temp_size s1 \<le> 20" "temp_size s1 \<le> compressed (s_lzma2 s1)" "dict_ready (s_dict s1)"
          "dict_link (s_dict s1) b1"
        using p(1) by (simp_all add: pass_ok_def)
      have dok1: "dict_ok m1 (s_dict s1)" using lz1(1) by (simp add: lzma_ok_def)
      show ?thesis
      proof (cases "uncompressed (s_lzma2 s1) = 0")
        case True
        let ?s2 = "set_sequence SEQ_CONTROL (s1\<lparr>s_rc := rc_reset (s_rc s1)\<rparr>)"
        have fin: "lzma2_ok m1 ?s2 b1 \<and> io_left b1 < io_left b"
          if "compressed (s_lzma2 s1) = 0" "lz_len (s_lzma s1) = 0"
        proof
          have "temp_size ?s2 = 0" using lz1(3) that(1) by simp
          moreover have "lzma_ready ?s2"
            using lz1(1) that(2) by (simp add: lzma_ready_def lzma_ok_def rep0_ok_def rc_reset_def
                unsigned_minus_1_eq_mask mask_eq_exp_minus_1)
          ultimately show "lzma2_ok m1 ?s2 b1"
            using base nd1 dok1 lz1 by (simp add: lzma2_ok_def seq_ok_def)
          have "b_out_pos b < b_out_pos b1" using True p(6) sq(3) by (simp add: sizes_ok_def)
          then show "io_left b1 < io_left b" using bf by (simp add: io_left_def)
        qed
        show ?thesis
          using True \<open>res\<close> fin io io_frame_upd [of ?s2 s1] by (simp add: r)
      next
        case unc: False
        have ok1: "lzma2_ok m1 s1 b1"
          using base nd1 dok1 lz1 seq1 p(4,5,6) sq(3,5) unc bf(6)
          by (simp add: lzma2_ok_def seq_ok_def sizes_ok_def)
        show ?thesis
        proof (cases "b_out_pos b1 = b_out_size b1 \<or> (b_in_pos b1 = b_in_size b1 \<and> temp_size s1 < compressed (s_lzma2 s1))")
          case True
          then show ?thesis using \<open>res\<close> unc ok1 io by (auto simp: r)
        next
          case False
          then have "b_out_pos b < b_out_pos b1 \<or> b_in_pos b < b_in_pos b1"
            using prog sq(3) bf by (auto simp: sizes_ok_def)
          then have "io_left b1 < io_left b" using bf by (auto simp: io_left_def)
          then show ?thesis using False \<open>res\<close> unc ok1 io by (simp add: r)
        qed
      qed
    qed
  qed
qed

lemma ok_step_prepare:
  assumes ok: "lzma2_ok m s b" and seq: "sequence (s_lzma2 s) = SEQ_LZMA_PREPARE"
  shows "ok (lzma2_prepare e m s b) (step_post m s b)"
proof -
  note st = lzma2_ok_static [OF ok]
  have ndr: "\<not> need_dict_reset (s_lzma2 s)" using ok seq by (auto simp: lzma2_ok_def)
  note st = st(1-3) st(4-7) [OF ndr]
  have sq: "temp_size s = 0" "sizes_ok s" "lzma_ready s" using st(7) by (simp_all add: seq_ok_def seq)
  show ?thesis
  proof (cases "compressed (s_lzma2 s) < RC_INIT_BYTES")
    case True
    then show ?thesis using io_frame_refl [OF st(1)] by (simp add: lzma2_prepare_def)
  next
    case False
    have init: "init_bytes_left (s_rc s) \<le> RC_INIT_BYTES" using sq(3) by (simp add: lzma_ready_def)
    show ?thesis
      unfolding lzma2_prepare_def if_not_P [OF False]
    proof (rule ok_bindI [OF ok_rc_read_init [OF init st(1)]], clarify)
      fix fin rc b1
      assume vb1: "valid_buf m b1" and b1: "b1 = b\<lparr>b_in_pos := b_in_pos b1\<rparr>" "b_in_pos b \<le> b_in_pos b1"
        and rc: "init_bytes_left rc \<le> init_bytes_left (s_rc s)"
          "rc = (s_rc s)\<lparr>rc_code := rc_code rc, init_bytes_left := init_bytes_left rc\<rparr>"
        and fin: "if fin then init_bytes_left rc = 0 else b_in_pos b1 = b_in_size b1 \<and> 0 < init_bytes_left rc"
      let ?s1 = "s\<lparr>s_rc := rc\<rparr>"
      have range: "rc_range rc = rc_range (s_rc s)" by (subst rc(2), simp)
      have io: "io_frame m s b m s1 b1" if "s_dict s1 = s_dict s" for s1
        using vb1 b1 that by (cases b, cases b1) (simp add: io_frame_def buf_frame_def)
      have link: "dict_link (s_dict s) b1" "temp_sep m b1" "dict_static m (s_dict s) b1"
        using st by (subst b1(1), simp add: dict_link_pos temp_sep_pos dict_static_pos)+
      have ready: "lzma_ready ?s1" using sq(3) rc(1) range by (auto simp: lzma_ready_def rep0_ok_def)
      have ok1: "lzma2_ok m ?s1 b1"
        using st ndr link vb1 ready sq seq by (simp add: lzma2_ok_def seq_ok_def sizes_ok_def)
      let ?s2 = "set_sequence SEQ_LZMA_RUN (set_compressed (u32_sub (compressed (s_lzma2 ?s1)) RC_INIT_BYTES) ?s1)"
      have lz: "lzma_ok m ?s2"
        using lzma_ready_ok [OF ready, of m] st(4) lzma_ok_upd [of ?s2 ?s1 m] by simp
      have ok2: "lzma2_ok m ?s2 b1"
        using st ndr link vb1 sq False lz ready by (auto simp: lzma2_ok_def seq_ok_def sizes_ok_def lzma_ready_def)
      have seq2: "sequence (s_lzma2 ?s2) = SEQ_LZMA_RUN" by simp
      have run: "ok (lzma2_run_chunk e m ?s2 b1) (step_post m s b)"
        by (rule ok_mono [OF ok_step_run [OF ok2 seq2]]) (rule step_post_after [OF io], simp_all)
      show "ok (let s = s\<lparr>s_rc := rc\<rparr>
         in if \<not> fin then Some (Some XZ_OK, s, b1, m)
            else lzma2_run_chunk e m
              (set_sequence SEQ_LZMA_RUN (set_compressed (u32_sub (compressed (s_lzma2 s)) RC_INIT_BYTES) s)) b1)
        (step_post m s b)"
        using run ok1 io [of ?s1] fin by (cases fin) (simp_all add: Let_def)
    qed
  qed
qed

lemma ok_step_copy:
  assumes ok: "lzma2_ok m s b" and seq: "sequence (s_lzma2 s) = SEQ_COPY"
  shows "ok (lzma2_step e m s b) (step_post m s b)"
proof -
  note st = lzma2_ok_static [OF ok]
  have ndr: "\<not> need_dict_reset (s_lzma2 s)" using ok seq by (auto simp: lzma2_ok_def)
  note st = st(1-3) st(4-7) [OF ndr]
  have sq: "temp_size s = 0" "0 < compressed (s_lzma2 s)" "compressed (s_lzma2 s) \<le> 65536"
      "need_props (s_lzma2 s) \<or> lzma_ready s"
    using st(7) by (simp_all add: seq_ok_def seq)
  have copy: "ok (dict_uncompressed m (s_dict s) b (compressed (s_lzma2 s)))
      (uncompressed_post m (s_dict s) b (compressed (s_lzma2 s)))"
    using st sq by (intro ok_dict_uncompressed) auto
  then obtain left d1 b1 m1 where run0: "dict_uncompressed m (s_dict s) b (compressed (s_lzma2 s)) = Some (left, d1, b1, m1)"
    and post: "uncompressed_post m (s_dict s) b (compressed (s_lzma2 s)) (left, d1, b1, m1)"
    by (cases "dict_uncompressed m (s_dict s) b (compressed (s_lzma2 s))") auto
  then obtain n where run: "dict_uncompressed m (s_dict s) b (compressed (s_lzma2 s)) = Some (left, d1, b1, m1)"
    and n: "n \<le> compressed (s_lzma2 s)" "left = compressed (s_lzma2 s) - n" "n \<le> b_in_size b - b_in_pos b"
      "n \<le> b_out_size b - b_out_pos b"
    and b1: "b1 = b\<lparr>b_in_pos := b_in_pos b + n, b_out_pos := b_out_pos b + n\<rparr>"
    and c: "copied m (s_dict s) b n d1 m1"
    and stop: "left = 0 \<or> b_in_pos b1 = b_in_size b1 \<or> b_out_pos b1 = b_out_size b1"
    unfolding uncompressed_post.simps by blast
  have d1: "dict_ok m1 d1" "dict_ready d1" "dict_frame (s_dict s) d1" "same_shape m m1" "dict_link d1 b1"
    using c by (simp_all add: copied_def b1)
  have vb1: "valid_buf m1 b1" using st(1) n(3,4) by (auto simp: b1 valid_buf_def same_shape_room [OF d1(4)])
  have sep1: "temp_sep m1 b1" "dict_static m1 d1 b1"
    using st(2,3) d1(3,4) by (auto simp: b1 temp_sep_def dict_static_def same_shape_def dict_frame_def)
  let ?s1 = "set_compressed left (s\<lparr>s_dict := d1\<rparr>)"
  have kept: "out_kept m b m1 b1" if "fst (b_in b) \<noteq> fst (b_out b)"
    using c that n(3,4) st(1) load_in_bytes(2) [OF st(1) n(3)]
    by (intro out_kept_splice [where bs = "in_bytes m b n"]) (auto simp: copied_def b1 valid_buf_def)
  have io: "io_frame m s b m1 s1 b1" if "s_dict s1 = d1" for s1
    using that d1(3,4) vb1 c dict_link_blocks [OF st(6)] kept
    by (auto simp: io_frame_def buf_frame_def b1 copied_def dict_frame_def)
  have ready: "need_props (s_lzma2 s) \<or> lzma_ready (s\<lparr>s_dict := d1\<rparr>)"
    using sq(4) d1(3) by (auto simp: lzma_ready_def rep0_ok_def dict_frame_def)
  show ?thesis
  proof (cases "left = 0")
    case True
    then have "0 < n" using n(1,2) sq(2) by linarith
    then have "io_left b1 < io_left b" using n(3,4) by (auto simp: b1 io_left_def)
    moreover have "lzma2_ok m1 (set_sequence SEQ_CONTROL ?s1) b1"
      using vb1 sep1 ndr d1 sq(1) ready by (simp add: lzma2_ok_def seq_ok_def)
    ultimately show ?thesis
      using True io by (simp add: lzma2_step_def seq run)
  next
    case False
    then have "lzma2_ok m1 ?s1 b1"
      using vb1 sep1 ndr d1 sq ready n(2) seq by (simp add: lzma2_ok_def seq_ok_def)
    then show ?thesis
      using False io stop by (simp add: lzma2_step_def seq run)
  qed
qed

lemma ok_step_properties:
  assumes ok: "lzma2_ok m s b" and pos: "b_in_pos b < b_in_size b" and seq: "sequence (s_lzma2 s) = SEQ_PROPERTIES"
  shows "ok (lzma2_step e m s b) (step_post m s b)"
proof -
  note st = lzma2_ok_static [OF ok]
  have ndr: "\<not> need_dict_reset (s_lzma2 s)" using ok seq by (auto simp: lzma2_ok_def)
  note st = st(1-3) st(4-7) [OF ndr]
  have sq: "temp_size s = 0" "sizes_ok s" using st(7) by (simp_all add: seq_ok_def seq)
  let ?b = "b\<lparr>b_in_pos := Suc (b_in_pos b)\<rparr>"
  have inc: "sz_add (b_in_pos b) (Suc 0) = Suc (b_in_pos b)" and room: "b_in_pos b < room m (b_in b)"
    using st(1) pos by (auto simp: valid_buf_def)
  then obtain byte where byte: "in_byte m b = Some byte"
    using ok_in_byte [of m b "\<lambda>_. True"] by (auto simp: ok_iff)
  note fr = step_in_frame [OF st(1) pos]
  show ?thesis
  proof (cases "fst (lzma_props s byte)")
    case False
    then obtain s1 where p: "lzma_props s byte = (False, s1)" by (cases "lzma_props s byte") auto
    then have "s_dict s1 = s_dict s" by (auto simp: lzma_props_def Let_def split: if_splits prod.splits)
    then show ?thesis
      using fr(1) [of s1] p byte inc by (simp add: lzma2_step_def seq)
  next
    case True
    then obtain lc lp pb where lc: "lc + lp \<le> 4" "pb < 5"
        and p: "lzma_props s byte = (True, lzma_reset (set_params lc lp pb s))"
      by (rule lzma_props_cases)
    let ?s1 = "set_sequence SEQ_LZMA_PREPARE (lzma_reset (set_params lc lp pb s))"
    have sel: "s_dict ?s1 = s_dict s" "s_lzma2 ?s1 = (s_lzma2 s)\<lparr>sequence := SEQ_LZMA_PREPARE\<rparr>" "temp_size ?s1 = 0"
      using sq(1) by (simp_all add: set_params_def)
    have "lzma_ready ?s1" using lzma_ready_reset [OF params_set [OF lc]] by simp
    then have ok1: "lzma2_ok m ?s1 ?b"
      using st ndr sel sq fr(3) [OF refl]
      by (simp add: lzma2_ok_def seq_ok_def sizes_ok_def temp_sep_pos dict_static_pos dict_link_pos)
    have seq1: "sequence (s_lzma2 ?s1) = SEQ_LZMA_PREPARE" by simp
    have "ok (lzma2_prepare e m ?s1 ?b) (step_post m s b)"
      by (rule ok_mono [OF ok_step_prepare [OF ok1 seq1]]) (rule step_post_after [OF fr(1) [OF sel(1)]])
    then show ?thesis
      using p byte inc by (simp add: lzma2_step_def seq)
  qed
qed

text \<open>The header bytes.\<close>

lemma ok_step_header:
  assumes ok: "lzma2_ok m s b" and pos: "b_in_pos b < b_in_size b"
    and seq: "sequence (s_lzma2 s) \<in> {SEQ_UNCOMPRESSED_1, SEQ_UNCOMPRESSED_2, SEQ_COMPRESSED_0, SEQ_COMPRESSED_1}"
  shows "ok (lzma2_step e m s b) (step_post m s b)"
proof -
  note st = lzma2_ok_static [OF ok]
  have ndr: "\<not> need_dict_reset (s_lzma2 s)" using ok seq by (auto simp: lzma2_ok_def)
  note sq = st(7) [OF ndr]
  obtain n where n: "next_byte m b = Some (n, b\<lparr>b_in_pos := Suc (b_in_pos b)\<rparr>)" "n < 256"
    using ok_next_byte [OF st(1) pos] by (auto simp: ok_iff)
  have byte: "step_post m s b (None, s', b\<lparr>b_in_pos := Suc (b_in_pos b)\<rparr>, m)"
    if "s_dict s' = s_dict s" "\<not> need_dict_reset (s_lzma2 s')" "seq_ok m s'" for s'
    using lzma2_ok_byte [OF ok ndr pos that] .
  consider "sequence (s_lzma2 s) = SEQ_UNCOMPRESSED_1" | "sequence (s_lzma2 s) = SEQ_UNCOMPRESSED_2"
    | "sequence (s_lzma2 s) = SEQ_COMPRESSED_0" | "sequence (s_lzma2 s) = SEQ_COMPRESSED_1"
    using seq by auto
  then show ?thesis
  proof cases
    case 1
    have "u32_add (uncompressed (s_lzma2 s)) (push_bit 8 n) = uncompressed (s_lzma2 s) + 256 * n"
      using sq n(2) by (simp add: seq_ok_def 1 push_bit_eq_mult)
    moreover let ?s = "set_sequence SEQ_UNCOMPRESSED_2 (set_uncompressed (uncompressed (s_lzma2 s) + 256 * n) s)"
    have "seq_ok m ?s" using sq n(2) by (auto simp: seq_ok_def 1 next_ok_def split: lzma2_seq.splits)
    ultimately show ?thesis using n ndr byte [of ?s] by (simp add: lzma2_step_def 1)
  next
    case 2
    have "u32_add (uncompressed (s_lzma2 s)) (u32_add n (Suc 0)) = Suc (uncompressed (s_lzma2 s) + n)"
      using sq n(2) by (simp add: seq_ok_def 2)
    moreover have "next_sequence (s_lzma2 s) \<noteq> SEQ_COPY" using sq by (auto simp: seq_ok_def 2 next_ok_def split: lzma2_seq.splits)
    moreover let ?s = "set_sequence SEQ_COMPRESSED_0 (set_uncompressed (Suc (uncompressed (s_lzma2 s) + n)) s)"
    have "seq_ok m ?s"
      using sq n(2) calculation(2) by (auto simp: seq_ok_def 2 next_ok_def next_ok_copy_def split: lzma2_seq.splits)
    ultimately show ?thesis using n ndr byte [of ?s] by (simp add: lzma2_step_def 2)
  next
    case 3
    have "push_bit 8 n \<le> 65280" using n(2) by (simp add: push_bit_eq_mult)
    moreover let ?s = "set_sequence SEQ_COMPRESSED_1 (set_compressed (push_bit 8 n) s)"
    have "seq_ok m ?s"
      using sq calculation by (auto simp: seq_ok_def 3 next_ok_def next_ok_copy_def split: lzma2_seq.splits)
    then show ?thesis using n ndr byte [of ?s] by (simp add: lzma2_step_def 3)
  next
    case 4
    have add: "u32_add (compressed (s_lzma2 s)) (Suc n) = Suc (compressed (s_lzma2 s) + n)"
      using sq n(2) by (simp add: seq_ok_def 4)
    let ?s = "set_sequence (next_sequence (s_lzma2 s)) (set_compressed (Suc (compressed (s_lzma2 s) + n)) s)"
    have "seq_ok m ?s"
      using sq n(2)
      by (cases "next_sequence (s_lzma2 s)") (auto simp: seq_ok_def 4 next_ok_def next_ok_copy_def sizes_ok_def)
    then show ?thesis
      using n ndr byte [of ?s] by (simp add: lzma2_step_def 4 add)
  qed
qed

text \<open>All together.\<close>

lemma ok_lzma2_step:
  assumes "lzma2_ok m s b" and "b_in_pos b < b_in_size b \<or> sequence (s_lzma2 s) = SEQ_LZMA_RUN"
  shows "ok (lzma2_step e m s b) (step_post m s b)"
  using assms ok_step_control [of m s b e] ok_step_header [of m s b e] ok_step_properties [of m s b e]
    ok_step_prepare [of m s b e] ok_step_run [of m s b e] ok_step_copy [of m s b e]
  by (cases "sequence (s_lzma2 s)") (auto simp: lzma2_step_def)

fun run_post :: "mem \<Rightarrow> xz_dec_lzma2 \<Rightarrow> xz_buf \<Rightarrow> xz_ret \<times> xz_dec_lzma2 \<times> xz_buf \<times> mem \<Rightarrow> bool" where
  "run_post m s b (ret, s', b', m') \<longleftrightarrow> io_frame m s b m' s' b' \<and>
     (ret = XZ_OK \<and> lzma2_ok m' s' b' \<and> (b_in_pos b' = b_in_size b' \<or> b_out_pos b' = b_out_size b') \<or>
      ret = XZ_STREAM_END \<and> lzma2_ok m' s' b' \<or> ret = XZ_DATA_ERROR)"

lemma run_post_after:
  "io_frame m s b m1 s1 b1 \<Longrightarrow> run_post m1 s1 b1 r \<Longrightarrow> run_post m s b r"
  by (cases r) (auto intro: io_frame_trans)

lemma ok_lzma2_run:
  assumes "lzma2_ok m s b"
  shows "ok (xz_dec_lzma2_run e m s b) (run_post m s b)"
  using assms
proof (induction "io_left b" arbitrary: m s b rule: less_induct)
  case less
  show ?case
  proof (cases "b_in_pos b < b_in_size b \<or> sequence (s_lzma2 s) = SEQ_LZMA_RUN")
    case False
    have vb: "valid_buf m b" using less.prems by (simp add: lzma2_ok_def)
    then have "b_in_pos b = b_in_size b" using False by (auto simp: valid_buf_def)
    then show ?thesis
      using False less.prems io_frame_refl [OF vb] by (subst xz_dec_lzma2_run.simps) auto
  next
    case True
    show ?thesis
    proof (subst xz_dec_lzma2_run.simps, simp only: True if_True, rule ok_bindI [OF ok_lzma2_step [OF less.prems True]])
      fix x assume x: "step_post m s b x"
      obtain r s1 b1 m1 where xe: "x = (r, s1, b1, m1)" by (cases x)
      show "ok (case x of (r, s, b, m) \<Rightarrow> case r of Some ret \<Rightarrow> Some (ret, s, b, m) | None \<Rightarrow> xz_dec_lzma2_run e m s b)
          (run_post m s b)"
      proof (cases r)
        case None
        with x have "io_frame m s b m1 s1 b1" "lzma2_ok m1 s1 b1" "io_left b1 < io_left b" by (simp_all add: xe)
        then show ?thesis
          using less.hyps [of b1 m1 s1] by (auto simp: xe None elim!: ok_mono intro: run_post_after)
      next
        case (Some ret)
        with x show ?thesis by (cases ret) (simp_all add: xe)
      qed
    qed
  qed
qed

section \<open>Creation and reset\<close>

definition alloc_ok :: "mem \<Rightarrow> dictionary \<Rightarrow> bool" where
  "alloc_ok m d \<longleftrightarrow> d_size_max d < 2 ^ 32 \<and>
     (DEC_IS_PREALLOC (d_mode d) \<longrightarrow> d_buf d = (Dict_Block, 0) \<and> length (m Dict_Block) = d_size_max d) \<and>
     (DEC_IS_DYNALLOC (d_mode d) \<and> 0 < d_allocated d \<longrightarrow>
        d_buf d = (Dict_Block, 0) \<and> length (m Dict_Block) = d_allocated d)"

definition vmalloc_ok :: "(nat \<Rightarrow> u8 list option) \<Rightarrow> bool" where
  "vmalloc_ok vmalloc \<longleftrightarrow> (\<forall>n. case vmalloc n of None \<Rightarrow> True | Some bytes \<Rightarrow> length bytes = n)"

definition lzma2_dict_size :: "nat \<Rightarrow> nat" where
  \<comment> \<open>the dictionary size a properties byte stands for\<close>
  "lzma2_dict_size p = (2 + p mod 2) * 2 ^ (p div 2 + 11)"

lemma dict_size_bounds:
  assumes "p \<le> 39"
  shows "4096 \<le> lzma2_dict_size p" and "lzma2_dict_size p \<le> 3 * 2 ^ 30"
    and "u32_of (push_bit (p div 2 + 11) (2 + p mod 2)) = lzma2_dict_size p"
proof -
  have lo: "(2 :: nat) ^ 11 \<le> 2 ^ (p div 2 + 11)" and hi: "(2 :: nat) ^ (p div 2 + 11) \<le> 2 ^ 30"
    using assms by (intro power_increasing; simp)+
  have m: "2 \<le> 2 + p mod 2" "2 + p mod 2 \<le> 3" by auto
  have "2 * 2 ^ 11 \<le> lzma2_dict_size p" unfolding lzma2_dict_size_def by (intro mult_le_mono m lo)
  then show "4096 \<le> lzma2_dict_size p" by simp
  show le: "lzma2_dict_size p \<le> 3 * 2 ^ 30" unfolding lzma2_dict_size_def by (intro mult_le_mono m hi)
  have "push_bit (p div 2 + 11) (2 + p mod 2) = lzma2_dict_size p"
    by (simp add: push_bit_eq_mult lzma2_dict_size_def)
  then show "u32_of (push_bit (p div 2 + 11) (2 + p mod 2)) = lzma2_dict_size p" using le by simp
qed

text \<open>After a successful reset the invariant holds with any output and input buffer apart
  from the decoder's own blocks.\<close>

lemma reset_good:
  assumes alloc: "alloc_ok m (s_dict s)" and vm: "vmalloc_ok vmalloc"
    and res: "xz_dec_lzma2_reset vmalloc m s props = (ret, s', m')"
  shows "alloc_ok m' (s_dict s') \<and> d_mode (s_dict s') = d_mode (s_dict s) \<and>
    (\<forall>k. k \<noteq> Dict_Block \<longrightarrow> m' k = m k) \<and>
    (ret = XZ_OK \<longrightarrow> unat props \<le> 39 \<and> d_size (s_dict s') = lzma2_dict_size (unat props) \<and>
      (\<forall>b. valid_buf m b \<and> temp_sep m b \<and> fst (b_in b) \<noteq> Dict_Block \<and> fst (b_out b) \<noteq> Dict_Block \<longrightarrow>
         lzma2_ok m' s' b))"
proof (cases "unat props > 39")
  case True
  then show ?thesis using res alloc by (auto simp: xz_dec_lzma2_reset_def)
next
  case False
  let ?size = "lzma2_dict_size (unat props)" and ?d = "s_dict s"
  have size: "u32_of (push_bit (unat props div 2 + 11) (2 + unat props mod 2)) = ?size" "4096 \<le> ?size" "?size \<le> 3221225472"
    using dict_size_bounds [of "unat props"] False by simp_all
  have vb: "valid_buf m' b" "temp_sep m' b"
    if "\<forall>k. k \<noteq> Dict_Block \<longrightarrow> m' k = m k" "valid_buf m b" "temp_sep m b" "fst (b_in b) \<noteq> Dict_Block" "fst (b_out b) \<noteq> Dict_Block" for b m'
    using that by (simp_all add: valid_buf_def temp_sep_def room_def)
  note unfolded = res [unfolded xz_dec_lzma2_reset_def if_not_P [OF False] size(1) Let_def]
  show ?thesis
  proof (cases "DEC_IS_MULTI (d_mode ?d)")
    case single: False
    then show ?thesis
      using False unfolded alloc
      by (auto simp: alloc_ok_def mode_defs lzma2_ok_def dict_static_def temp_sep_def)
  next
    case multi: True
    show ?thesis
    proof (cases "?size > d_size_max ?d")
      case True
      then show ?thesis using False unfolded alloc multi by (auto simp: alloc_ok_def)
    next
      case fits: False
      show ?thesis
      proof (cases "DEC_IS_DYNALLOC (d_mode ?d) \<and> d_allocated ?d < ?size")
        case True
        show ?thesis
        proof (cases "vmalloc ?size")
          case None
          then show ?thesis using False unfolded alloc multi fits True by (auto simp: alloc_ok_def mode_defs)
        next
          case (Some bytes)
          then have len: "length bytes = ?size" using vm by (auto simp: vmalloc_ok_def split: option.splits)
          have s': "ret = XZ_OK" "m' = m(Dict_Block := bytes)"
            "s_dict s' = ?d\<lparr>d_size := ?size, d_end := ?size, d_buf := (Dict_Block, 0), d_allocated := ?size\<rparr>"
            "sequence (s_lzma2 s') = SEQ_CONTROL" "need_dict_reset (s_lzma2 s')" "temp_size s' = 0"
            using unfolded multi fits True Some by (auto simp: mode_defs)
          show ?thesis
            using False s' len alloc True size vb [of m']
            by (auto simp: alloc_ok_def mode_defs lzma2_ok_def dict_static_def)
        qed
      next
        case False
        have s': "ret = XZ_OK" "m' = m" "s_dict s' = ?d\<lparr>d_size := ?size, d_end := ?size\<rparr>"
            "sequence (s_lzma2 s') = SEQ_CONTROL" "need_dict_reset (s_lzma2 s')" "temp_size s' = 0"
          using unfolded multi fits False by (auto simp: mode_defs)
        have buf: "d_buf ?d = (Dict_Block, 0) \<and> ?size \<le> length (m Dict_Block)"
          using alloc multi False fits size(2) by (cases "d_mode ?d") (auto simp: alloc_ok_def mode_defs)
        show ?thesis
          using \<open>\<not> unat props > 39\<close> s' alloc size buf vb [of m]
          by (auto simp: alloc_ok_def lzma2_ok_def dict_static_def)
      qed
    qed
  qed
qed

lemma create_good:
  assumes "vmalloc_ok vmalloc" and "dict_max < 2 ^ 32"
    and "xz_dec_lzma2_create kmalloc vmalloc m mode dict_max = (Some s, m')"
  shows "alloc_ok m' (s_dict s) \<and> d_mode (s_dict s) = mode \<and> (\<forall>k. k \<noteq> Dict_Block \<longrightarrow> m' k = m k)"
  using assms
  by (cases mode; cases kmalloc; cases "vmalloc dict_max")
     (auto simp: xz_dec_lzma2_create_def mode_defs alloc_ok_def vmalloc_ok_def Let_def split: option.splits)

section \<open>Properties\<close>

definition lzma2_sample :: xz_dec_lzma2 where
  \<comment> \<open>a single-call decoder, before its first reset\<close>
  "lzma2_sample = lzma_sample\<lparr>s_dict := ring_sample\<lparr>d_mode := XZ_SINGLE\<rparr>, temp_size := 3\<rparr>"

definition lzma2_memory :: mem where
  \<comment> \<open>a stored chunk of two bytes and the end marker\<close>
  "lzma2_memory = (\<lambda>k. [])(In_Block := [0x01, 0, 1, 0x41, 0x42, 0], Out_Block := [0, 0, 0], Lzma_Temp := replicate 63 0)"

definition lzma2_buf :: xz_buf where
  "lzma2_buf = \<lparr>b_in = (In_Block, 0), b_in_pos = 0, b_in_size = 6, b_out = (Out_Block, 0), b_out_pos = 0, b_out_size = 3\<rparr>"

lemmas lzma2_sample_defs = lzma2_sample_def lzma_sample_def ring_sample_def

lemma lzma2_sample_buf: "valid_buf lzma2_memory lzma2_buf" "temp_sep lzma2_memory lzma2_buf"
    "fst (b_in lzma2_buf) \<noteq> Dict_Block" "fst (b_out lzma2_buf) \<noteq> Dict_Block"
  by (simp_all add: lzma2_memory_def lzma2_buf_def valid_buf_def room_def temp_sep_def TEMP_BUF_SIZE_def LZMA_IN_REQUIRED_def)

lemma lzma2_sample_reset:
  "xz_dec_lzma2_reset (\<lambda>n. None) lzma2_memory lzma2_sample 0
    = (XZ_OK, lzma2_sample\<lparr>s_dict := (s_dict lzma2_sample)\<lparr>d_size := 4096\<rparr>,
         s_lzma2 := (s_lzma2 lzma2_sample)\<lparr>sequence := SEQ_CONTROL, need_dict_reset := True\<rparr>, temp_size := 0\<rparr>,
       lzma2_memory)"
  by (simp add: xz_dec_lzma2_reset_def Let_def mode_defs dict_update_def) (simp add: lzma2_sample_defs)

text \<open>
  C14: \<open>xz_dec_lzma2_reset\<close> on the decoder that \<open>xz_dec_lzma2_create\<close> returned (or on
  one in any later state of its allocation) establishes the invariant of
  \<open>xz_dec_lzma2_run\<close> whenever it returns \<open>XZ_OK\<close>, for every operation mode and for
  whatever the fresh memory contained; it accepts only properties bytes up to 39 and stores
  the dictionary size they stand for.
\<close>

theorem lzma2_reset_establishes_invariant:
  assumes "alloc_ok m (s_dict s)" and "vmalloc_ok vmalloc"
    and "xz_dec_lzma2_reset vmalloc m s props = (ret, s', m')"
  shows "alloc_ok m' (s_dict s') \<and> (\<forall>k. k \<noteq> Dict_Block \<longrightarrow> m' k = m k) \<and>
    (ret = XZ_OK \<longrightarrow> unat props \<le> 39 \<and> d_size (s_dict s') = (2 + unat props mod 2) * 2 ^ (unat props div 2 + 11) \<and>
      (\<forall>b. valid_buf m b \<and> temp_sep m b \<and> fst (b_in b) \<noteq> Dict_Block \<and> fst (b_out b) \<noteq> Dict_Block \<longrightarrow>
         lzma2_ok m' s' b))"
  using reset_good [OF assms] by (auto simp: lzma2_dict_size_def)

theorem lzma2_reset_establishes_invariant_witness:
  "\<exists>s' m'. xz_dec_lzma2_reset (\<lambda>n. None) lzma2_memory lzma2_sample 0 = (XZ_OK, s', m') \<and>
     d_size (s_dict s') = 4096 \<and> lzma2_ok m' s' lzma2_buf"
proof -
  have "alloc_ok lzma2_memory (s_dict lzma2_sample)" "vmalloc_ok (\<lambda>n. None)"
    by (simp_all add: alloc_ok_def vmalloc_ok_def lzma2_sample_defs mode_defs)
  from lzma2_reset_establishes_invariant [OF this lzma2_sample_reset]
  have "lzma2_ok lzma2_memory (lzma2_sample\<lparr>s_dict := (s_dict lzma2_sample)\<lparr>d_size := 4096\<rparr>,
      s_lzma2 := (s_lzma2 lzma2_sample)\<lparr>sequence := SEQ_CONTROL, need_dict_reset := True\<rparr>, temp_size := 0\<rparr>) lzma2_buf"
    using lzma2_sample_buf by blast
  then show ?thesis unfolding lzma2_sample_reset by simp
qed

text \<open>
  C2: \<open>xz_dec_lzma2_run\<close> is total and memory safe on every input: from a state that
  satisfies the decoder's invariant it returns, having read only input that the caller
  declared, written only the output, the dictionary and its own \<open>temp.buf\<close>, and moved the
  positions only forward and within their sizes. It reports nothing but \<open>XZ_OK\<close>,
  \<open>XZ_STREAM_END\<close> and \<open>XZ_DATA_ERROR\<close>; \<open>XZ_OK\<close> only when the input is used up or
  the output is full; and after \<open>XZ_OK\<close> or \<open>XZ_STREAM_END\<close> the invariant holds again, so
  that the caller may go on with more input.
\<close>

theorem xz_dec_lzma2_run_safe:
  assumes "lzma2_ok m s b"
  shows "ok (xz_dec_lzma2_run e m s b) (\<lambda>(ret, s', b', m').
     (\<forall>k. length (m' k) = length (m k)) \<and>
     (\<forall>k. k \<noteq> Dict_Block \<and> k \<noteq> Lzma_Temp \<and> k \<noteq> fst (b_out b) \<longrightarrow> m' k = m k) \<and>
     b' = b\<lparr>b_in_pos := b_in_pos b', b_out_pos := b_out_pos b'\<rparr> \<and>
     b_in_pos b \<le> b_in_pos b' \<and> b_in_pos b' \<le> b_in_size b \<and>
     b_out_pos b \<le> b_out_pos b' \<and> b_out_pos b' \<le> b_out_size b \<and>
     ret \<in> {XZ_OK, XZ_STREAM_END, XZ_DATA_ERROR} \<and>
     (ret \<noteq> XZ_DATA_ERROR \<longrightarrow> lzma2_ok m' s' b') \<and>
     (ret = XZ_OK \<longrightarrow> b_in_pos b' = b_in_size b' \<or> b_out_pos b' = b_out_size b'))"
proof (rule ok_mono [OF ok_lzma2_run [OF assms]], clarify)
  fix ret s' b' m' assume post: "run_post m s b (ret, s', b', m')"
  then have frame: "buf_frame b b'" "valid_buf m' b'" by (simp_all add: io_frame_def)
  note sel = buf_frame_sel [OF frame(1)]
  show "(\<forall>k. length (m' k) = length (m k)) \<and>
     (\<forall>k. k \<noteq> Dict_Block \<and> k \<noteq> Lzma_Temp \<and> k \<noteq> fst (b_out b) \<longrightarrow> m' k = m k) \<and>
     b' = b\<lparr>b_in_pos := b_in_pos b', b_out_pos := b_out_pos b'\<rparr> \<and>
     b_in_pos b \<le> b_in_pos b' \<and> b_in_pos b' \<le> b_in_size b \<and>
     b_out_pos b \<le> b_out_pos b' \<and> b_out_pos b' \<le> b_out_size b \<and>
     ret \<in> {XZ_OK, XZ_STREAM_END, XZ_DATA_ERROR} \<and>
     (ret \<noteq> XZ_DATA_ERROR \<longrightarrow> lzma2_ok m' s' b') \<and>
     (ret = XZ_OK \<longrightarrow> b_in_pos b' = b_in_size b' \<or> b_out_pos b' = b_out_size b')"
    using post frame sel by (auto simp: io_frame_def same_shape_def buf_frame_def valid_buf_def)
qed

theorem xz_dec_lzma2_run_safe_witness:
  "\<forall>e. \<exists>ret s' b' m'. xz_dec_lzma2_run e lzma2_memory
     (lzma2_sample\<lparr>s_lzma2 := (s_lzma2 lzma2_sample)\<lparr>sequence := SEQ_CONTROL, need_dict_reset := True\<rparr>, temp_size := 0\<rparr>)
     lzma2_buf = Some (ret, s', b', m') \<and> b_out_pos b' \<le> 3"
proof
  fix e
  let ?s = "lzma2_sample\<lparr>s_lzma2 := (s_lzma2 lzma2_sample)\<lparr>sequence := SEQ_CONTROL, need_dict_reset := True\<rparr>, temp_size := 0\<rparr>"
  have "lzma2_ok lzma2_memory ?s lzma2_buf"
    using lzma2_sample_buf by (simp add: lzma2_ok_def dict_static_def) (simp add: lzma2_sample_defs mode_defs)
  moreover have "b_out_size lzma2_buf = 3" by (simp add: lzma2_buf_def)
  ultimately show "\<exists>ret s' b' m'. xz_dec_lzma2_run e lzma2_memory ?s lzma2_buf = Some (ret, s', b', m') \<and> b_out_pos b' \<le> 3"
    using xz_dec_lzma2_run_safe [of lzma2_memory ?s lzma2_buf e] by (auto simp: ok_iff)
qed


definition window_memory :: mem where
  "window_memory = (\<lambda>k. [])(In_Block := replicate 40 0, Out_Block := replicate 5 0,
     Dict_Block := replicate 8 0, Lzma_Temp := replicate 63 0)"

definition window_buf :: xz_buf where
  "window_buf = \<lparr>b_in = (In_Block, 0), b_in_pos = 0, b_in_size = 40, b_out = (Out_Block, 0), b_out_pos = 0, b_out_size = 5\<rparr>"

lemma window_sample_ok: "window_ok window_memory lzma_sample window_buf"
proof -
  have "dict_ok window_memory (s_dict lzma_sample)"
    by (simp add: window_memory_def lzma_sample_def ring_sample_def dict_ok_def room_def)
  then have "lzma_ok window_memory lzma_sample"
    using lzma_sample_ok by (simp add: lzma_ok_def)
  then show ?thesis
    using lzma_sample_limit(1)
    by (simp add: window_ok_def) (simp add: window_memory_def window_buf_def lzma_sample_def ring_sample_def dict_link_def
        mode_defs valid_buf_def room_def temp_sep_def TEMP_BUF_SIZE_def LZMA_IN_REQUIRED_def)
qed


end
