(* ===== verification/Bcj_Filters.thy ===== *)
theory Bcj_Filters
  imports Xz_Defs
begin

unbundle bit_operations_syntax

text \<open>
  The seven branch filters of \<open>xz_dec_bcj.c\<close>, which turn the absolute branch targets of a
  compressed program back into relative ones. Each filter gets the position \<open>pos\<close> of its
  buffer in the uncompressed data (\<open>s->pos\<close>) and the buffer of \<open>sz\<close> bytes as a list,
  and returns the number of bytes it has finished with and the new buffer.

  The counterpart of each decoder is the encoder that adds the position where the decoder
  subtracts it; the theorems show that decoding undoes encoding, that a filter can be run in
  pieces, and that it leaves fewer than sixteen bytes unfiltered, the size of \<open>temp.buf\<close>.
\<close>

section \<open>The code\<close>

function bcj_loop :: "nat \<Rightarrow> (nat \<Rightarrow> u8 list \<Rightarrow> u8 list) \<Rightarrow> nat \<Rightarrow> nat \<Rightarrow> u8 list \<Rightarrow> nat \<times> u8 list" where
  \<comment> \<open>\<open>for (; i + k <= size; i += k) body; return i;\<close>\<close>
  "bcj_loop k body sz i buf =
     (if 0 < k \<and> i + k \<le> sz then bcj_loop k body sz (i + k) (body i buf) else (i, buf))"
  by auto
termination by (relation "measure (\<lambda>(k, body, sz, i, buf). sz - i)") auto

declare bcj_loop.simps [simp del]

definition powerpc_instr :: "u32 \<Rightarrow> u32 \<Rightarrow> u32" where
  \<comment> \<open>the new value of an instruction at address \<open>at\<close>\<close>
  "powerpc_instr at instr =
     (if instr AND 0xFC000003 = 0x48000001 then
        let instr = instr AND 0x03FFFFFC;
            instr = instr - at;
            instr = instr AND 0x03FFFFFC
        in instr OR 0x48000001
      else instr)"

definition bcj_powerpc :: "u32 \<Rightarrow> u8 list \<Rightarrow> nat \<Rightarrow> nat \<times> u8 list" where
  "bcj_powerpc pos buf sz =
     bcj_loop 4 (\<lambda>i buf. put_unaligned_be32 (powerpc_instr (pos + word_of_nat i) (get_unaligned_be32 buf i)) buf i)
       sz 0 buf"

definition arm_step :: "u32 \<Rightarrow> nat \<Rightarrow> u8 list \<Rightarrow> u8 list" where
  "arm_step pos i buf =
     (if buf ! (i + 3) = 0xEB then
        let addr = ucast (buf ! i) OR push_bit 8 (ucast (buf ! (i + 1))) OR push_bit 16 (ucast (buf ! (i + 2)));
            addr = push_bit 2 addr;
            addr = addr - (pos + word_of_nat i + 8);
            addr = drop_bit 2 addr
        in buf[i := ucast (addr :: u32), i + 1 := ucast (drop_bit 8 addr), i + 2 := ucast (drop_bit 16 addr)]
      else buf)"

definition bcj_arm :: "u32 \<Rightarrow> u8 list \<Rightarrow> nat \<Rightarrow> nat \<times> u8 list" where
  "bcj_arm pos buf sz = bcj_loop 4 (arm_step pos) sz 0 buf"

definition armthumb_match :: "u8 list \<Rightarrow> nat \<Rightarrow> bool" where
  "armthumb_match buf i \<longleftrightarrow> buf ! (i + 1) AND 0xF8 = 0xF0 \<and> buf ! (i + 3) AND 0xF8 = 0xF8"

definition armthumb_step :: "u32 \<Rightarrow> nat \<Rightarrow> u8 list \<Rightarrow> u8 list" where
  "armthumb_step pos i buf =
     (let addr = push_bit 19 (ucast (buf ! (i + 1)) AND 0x07) OR push_bit 11 (ucast (buf ! i))
                 OR push_bit 8 (ucast (buf ! (i + 3)) AND 0x07) OR ucast (buf ! (i + 2));
          addr = push_bit 1 addr;
          addr = addr - (pos + word_of_nat i + 4);
          addr = drop_bit 1 addr
      in buf[i + 1 := ucast (0xF0 OR (drop_bit 19 addr AND 0x07) :: u32), i := ucast (drop_bit 11 addr),
             i + 3 := ucast (0xF8 OR (drop_bit 8 addr AND 0x07) :: u32), i + 2 := ucast addr])"

function armthumb_loop :: "u32 \<Rightarrow> nat \<Rightarrow> nat \<Rightarrow> u8 list \<Rightarrow> nat \<times> u8 list" where
  "armthumb_loop pos sz i buf =
     (if i + 4 \<le> sz then
        if armthumb_match buf i then armthumb_loop pos sz (i + 2 + 2) (armthumb_step pos i buf)
        else armthumb_loop pos sz (i + 2) buf
      else (i, buf))"
  by auto
termination by (relation "measure (\<lambda>(pos, sz, i, buf). sz - i)") auto

declare armthumb_loop.simps [simp del]

definition bcj_armthumb :: "u32 \<Rightarrow> u8 list \<Rightarrow> nat \<Rightarrow> nat \<times> u8 list" where
  "bcj_armthumb pos buf sz = armthumb_loop pos sz 0 buf"

definition sparc_instr :: "u32 \<Rightarrow> u32 \<Rightarrow> u32" where
  "sparc_instr at instr =
     (if drop_bit 22 instr = 0x100 \<or> drop_bit 22 instr = 0x1FF then
        let instr = push_bit 2 instr;
            instr = instr - at;
            instr = drop_bit 2 instr
        in (0x40000000 - (instr AND 0x400000)) OR 0x40000000 OR (instr AND 0x3FFFFF)
      else instr)"

definition bcj_sparc :: "u32 \<Rightarrow> u8 list \<Rightarrow> nat \<Rightarrow> nat \<times> u8 list" where
  "bcj_sparc pos buf sz =
     bcj_loop 4 (\<lambda>i buf. put_unaligned_be32 (sparc_instr (pos + word_of_nat i) (get_unaligned_be32 buf i)) buf i)
       sz 0 buf"

definition arm64_instr :: "u32 \<Rightarrow> u32 \<Rightarrow> u32" where
  "arm64_instr at instr =
     (if drop_bit 26 instr = 0x25 then
        let addr = instr - drop_bit 2 at
        in 0x94000000 OR (addr AND 0x03FFFFFF)
      else if instr AND 0x9F000000 = 0x90000000 then
        let addr = (drop_bit 29 instr AND 3) OR (drop_bit 3 instr AND 0x1FFFFC)
        in if (addr + 0x020000) AND 0x1C0000 \<noteq> 0 then instr
           else
             let addr = addr - drop_bit 12 at;
                 instr = instr AND 0x9000001F;
                 instr = instr OR push_bit 29 (addr AND 3);
                 instr = instr OR push_bit 3 (addr AND 0x03FFFC)
             in instr OR ((0 - (addr AND 0x020000)) AND 0xE00000)
      else instr)"

definition bcj_arm64 :: "u32 \<Rightarrow> u8 list \<Rightarrow> nat \<Rightarrow> nat \<times> u8 list" where
  "bcj_arm64 pos buf sz =
     bcj_loop 4 (\<lambda>i buf. put_unaligned_le32 (arm64_instr (pos + word_of_nat i) (get_unaligned_le32 buf i)) buf i)
       sz 0 buf"

definition ia64_branch_table :: "u32 list" where
  "ia64_branch_table =
     [0, 0, 0, 0, 0, 0, 0, 0,
      0, 0, 0, 0, 0, 0, 0, 0,
      4, 4, 6, 6, 0, 0, 7, 7,
      4, 4, 0, 0, 4, 4, 0, 0]"

definition ia64_norm :: "u32 \<Rightarrow> u64 \<Rightarrow> u64" where
  \<comment> \<open>the new value of \<open>norm\<close>, for a bundle at address \<open>at\<close>\<close>
  "ia64_norm at norm =
     (if drop_bit 37 norm AND 0x0F = 0x05 \<and> drop_bit 9 norm AND 0x07 = 0 then
        let addr = ucast (drop_bit 13 norm AND 0x0FFFFF) :: u32;
            addr = addr OR push_bit 20 (ucast (drop_bit 36 norm) AND 1);
            addr = push_bit 4 addr;
            addr = addr - at;
            addr = drop_bit 4 addr;
            norm = norm AND NOT (push_bit 13 0x8FFFFF);
            norm = norm OR push_bit 13 (ucast (addr AND 0x0FFFFF))
        in norm OR push_bit (36 - 20) (ucast (addr AND 0x100000))
      else norm)"

definition ia64_load :: "u8 list \<Rightarrow> nat \<Rightarrow> u64" where
  \<comment> \<open>six bytes, little-endian\<close>
  "ia64_load buf k = foldl (\<lambda>instr j. instr OR push_bit (8 * j) (ucast (buf ! (k + j)))) 0 [0..<6]"

definition ia64_store :: "u64 \<Rightarrow> u8 list \<Rightarrow> nat \<Rightarrow> u8 list" where
  "ia64_store instr buf k = foldl (\<lambda>buf j. buf[k + j := ucast (drop_bit (8 * j) instr)]) buf [0..<6]"

definition ia64_slot :: "u32 \<Rightarrow> nat \<Rightarrow> u32 \<Rightarrow> u8 list \<Rightarrow> nat \<Rightarrow> u8 list" where
  \<comment> \<open>the body of the loop over the slots, for a bundle at index \<open>i\<close>\<close>
  "ia64_slot pos i slots buf slot =
     (if drop_bit slot slots AND 1 = 0 then buf
      else
        let bit_pos = 5 + 41 * slot;
            byte_pos = bit_pos div 8;
            bit_res = bit_pos mod 8;
            instr = ia64_load buf (i + byte_pos);
            norm = drop_bit bit_res instr
        in if drop_bit 37 norm AND 0x0F = 0x05 \<and> drop_bit 9 norm AND 0x07 = 0 then
             ia64_store ((instr AND (push_bit bit_res 1 - 1))
                OR push_bit bit_res (ia64_norm (pos + word_of_nat i) norm)) buf (i + byte_pos)
           else buf)"

definition ia64_step :: "u32 \<Rightarrow> nat \<Rightarrow> u8 list \<Rightarrow> u8 list" where
  "ia64_step pos i buf =
     foldl (ia64_slot pos i (ia64_branch_table ! unat (buf ! i AND 0x1F))) buf [0..<3]"

definition bcj_ia64 :: "u32 \<Rightarrow> u8 list \<Rightarrow> nat \<Rightarrow> nat \<times> u8 list" where
  "bcj_ia64 pos buf sz = bcj_loop 16 (ia64_step pos) sz 0 buf"

subsection \<open>x86\<close>

definition bcj_x86_test_msbyte :: "u8 \<Rightarrow> bool" where
  "bcj_x86_test_msbyte b \<longleftrightarrow> b = 0x00 \<or> b = 0xFF"

definition mask_to_allowed_status :: "bool list" where
  "mask_to_allowed_status = [True, True, True, False, True, False, False, False]"

definition mask_to_bit_num :: "nat list" where
  "mask_to_bit_num = [0, 1, 2, 2, 3, 3, 3, 3]"

partial_function (option) x86_convert :: "u32 \<Rightarrow> u32 \<Rightarrow> u32 \<Rightarrow> u32 option" where
  \<comment> \<open>the \<open>while (true)\<close>; \<open>at\<close> is the address after the instruction\<close>
  "x86_convert at prev_mask src =
     (let dest = src - at
      in if prev_mask = 0 then Some dest
         else
           let j = mask_to_bit_num ! unat prev_mask * 8;
               b = ucast (drop_bit (24 - j) dest)
           in if \<not> bcj_x86_test_msbyte b then Some dest
              else x86_convert at prev_mask (dest XOR (push_bit (32 - j) 1 - 1)))"

definition x86_dest :: "u32 \<Rightarrow> u32" where
  "x86_dest dest = (let dest = dest AND 0x01FFFFFF in dest OR (0 - (dest AND 0x01000000)))"

record x86_vars =
  x_i :: nat
  x_prev_pos :: nat
  x_prev_mask :: u32
  x_buf :: "u8 list"

definition x86_skip :: "x86_vars \<Rightarrow> u32 \<Rightarrow> nat \<Rightarrow> bool" where
  \<comment> \<open>the test that leads to the inner \<open>continue\<close>, with the new \<open>prev_mask\<close> and \<open>prev_pos\<close>\<close>
  "x86_skip v prev_mask prev_pos \<longleftrightarrow> prev_pos \<le> 3 \<and> prev_mask \<noteq> 0 \<and>
     (\<not> mask_to_allowed_status ! unat prev_mask
      \<or> bcj_x86_test_msbyte (x_buf v ! (x_i v + 4 - mask_to_bit_num ! unat prev_mask)))"

definition x86_step :: "u32 \<Rightarrow> x86_vars \<Rightarrow> x86_vars option" where
  \<comment> \<open>the body of the \<open>for\<close> loop\<close>
  "x86_step pos v =
     (if x_buf v ! x_i v AND 0xFE \<noteq> 0xE8 then Some v
      else
        let prev_pos = sz_sub (x_i v) (x_prev_pos v);
            prev_mask = (if prev_pos > 3 then 0 else push_bit (prev_pos - 1) (x_prev_mask v) AND 7)
        in if x86_skip v prev_mask prev_pos then
             Some (v\<lparr>x_prev_pos := x_i v, x_prev_mask := push_bit 1 prev_mask OR 1\<rparr>)
           else
             let v = v\<lparr>x_prev_pos := x_i v, x_prev_mask := prev_mask\<rparr>
             in if bcj_x86_test_msbyte (x_buf v ! (x_i v + 4)) then do {
                  dest \<leftarrow> x86_convert (pos + word_of_nat (x_i v) + 5) prev_mask (get_unaligned_le32 (x_buf v) (x_i v + 1));
                  Some (v\<lparr>x_buf := put_unaligned_le32 (x86_dest dest) (x_buf v) (x_i v + 1), x_i := x_i v + 4\<rparr>)
                }
                else Some (v\<lparr>x_prev_mask := push_bit 1 prev_mask OR 1\<rparr>))"

partial_function (option) x86_loop :: "u32 \<Rightarrow> nat \<Rightarrow> x86_vars \<Rightarrow> x86_vars option" where
  "x86_loop pos sz v =
     (if x_i v < sz then do {
        v \<leftarrow> x86_step pos v;
        x86_loop pos sz (v\<lparr>x_i := x_i v + 1\<rparr>)
      }
      else Some v)"

definition bcj_x86 :: "u32 \<Rightarrow> u32 \<Rightarrow> u8 list \<Rightarrow> nat \<Rightarrow> (nat \<times> u32 \<times> u8 list) option" where
  \<comment> \<open>also returns the new \<open>s->x86_prev_mask\<close>\<close>
  "bcj_x86 pos prev_mask buf sz =
     (if sz \<le> 4 then Some (0, prev_mask, buf)
      else do {
        v \<leftarrow> x86_loop pos (sz - 4)
               \<lparr>x_i = 0, x_prev_pos = 2 ^ 64 - 1, x_prev_mask = prev_mask, x_buf = buf\<rparr>;
        let prev_pos = sz_sub (x_i v) (x_prev_pos v);
        Some (x_i v, if prev_pos > 3 then 0 else push_bit (prev_pos - 1) (x_prev_mask v), x_buf v)
      })"


section \<open>Windows of a buffer\<close>

text \<open>A filter step at index \<open>i\<close> reads and writes \<open>k\<close> bytes from there on. \<open>window\<close> is
  those bytes; putting a window back is \<open>splice\<close>.\<close>

definition window :: "nat \<Rightarrow> nat \<Rightarrow> 'a list \<Rightarrow> 'a list" where
  "window k i buf = take k (drop i buf)"

lemma length_window [simp]: "i + k \<le> length buf \<Longrightarrow> length (window k i buf) = k"
  by (simp add: window_def)

lemma splice_window [simp]: "i + k \<le> length buf \<Longrightarrow> splice buf i (window k i buf) = buf"
  by (simp add: window_def splice_def add.commute [of i] flip: drop_drop)

lemma window_splice [simp]: "length w = k \<Longrightarrow> i + k \<le> length buf \<Longrightarrow> window k i (splice buf i w) = w"
  by (simp add: window_def splice_def)

lemma nth_splice_window: "length w = k \<Longrightarrow> i + k \<le> length buf \<Longrightarrow> a < k \<Longrightarrow> splice buf i w ! (i + a) = w ! a"
  by (simp add: nth_splice)

lemma update_splice_window:
  "length w = k \<Longrightarrow> i + k \<le> length buf \<Longrightarrow> a < k \<Longrightarrow> (splice buf i w)[i + a := v] = splice buf i (w[a := v])"
  by (rule nth_equalityI) (auto simp: nth_splice nth_list_update)

section \<open>Filters that work block by block\<close>

text \<open>
  The body of the loop replaces the window at \<open>i\<close> by \<open>conv i\<close> of it. Then the loop
  converts one block after another, and stops where no whole block is left.
\<close>

function conv_blocks :: "nat \<Rightarrow> (nat \<Rightarrow> u8 list \<Rightarrow> u8 list) \<Rightarrow> nat \<Rightarrow> u8 list \<Rightarrow> u8 list" where
  "conv_blocks k conv i xs =
     (if 0 < k \<and> k \<le> length xs then conv i (take k xs) @ conv_blocks k conv (i + k) (drop k xs) else xs)"
  by auto
termination by (relation "measure (\<lambda>(k, conv, i, xs). length xs)") auto

declare conv_blocks.simps [simp del]

locale block_filter =
  fixes k :: nat
    and conv :: "nat \<Rightarrow> u8 list \<Rightarrow> u8 list"
    and body :: "nat \<Rightarrow> u8 list \<Rightarrow> u8 list"
  assumes k_pos: "0 < k"
    and length_conv: "length w = k \<Longrightarrow> length (conv i w) = k"
    and body_window: "i + k \<le> length buf \<Longrightarrow> body i buf = splice buf i (conv i (window k i buf))"
begin

lemma blocks_end: "length xs < k \<Longrightarrow> conv_blocks k conv i xs = xs"
  by (simp add: conv_blocks.simps)

lemma blocks_step: "length w = k \<Longrightarrow> conv_blocks k conv i (w @ xs) = conv i w @ conv_blocks k conv (i + k) xs"
  by (subst conv_blocks.simps) (simp add: k_pos)

lemma blocks_induct [case_names rest block]:
  assumes "\<And>i xs. length xs < k \<Longrightarrow> P i xs"
    and "\<And>i w xs. length w = k \<Longrightarrow> P (i + k) xs \<Longrightarrow> P i (w @ xs)"
  shows "P i xs"
proof (induction "length xs" arbitrary: i xs rule: less_induct)
  case less
  show ?case
  proof (cases "length xs < k")
    case False
    then have "P (i + k) (drop k xs)" using k_pos by (intro less) simp
    with assms(2) [of "take k xs" i "drop k xs"] False show ?thesis by simp
  qed (rule assms(1))
qed

lemma length_blocks [simp]: "length (conv_blocks k conv i xs) = length xs"
  by (induction i xs rule: blocks_induct) (simp_all add: blocks_end blocks_step length_conv)

lemma whole_Suc: "k * ((k + n) div k) = k + k * (n div k)"
proof -
  have "(k + n) div k = Suc (n div k)" using div_add_self1 [of k n] k_pos by simp
  then show ?thesis by simp
qed

text \<open>The loop is the conversion of the blocks.\<close>

lemma loop_blocks:
  assumes "length pre = i" and "length buf = i + length xs" and "buf = pre @ xs"
  shows "bcj_loop k body (length buf) i buf = (i + k * (length xs div k), pre @ conv_blocks k conv i xs)"
  using assms
proof (induction i xs arbitrary: pre buf rule: blocks_induct)
  case (rest i xs)
  then show ?case using k_pos by (subst bcj_loop.simps) (simp add: blocks_end)
next
  case (block i w xs)
  have w: "window k i buf = w" using block by (simp add: window_def)
  have "splice buf i (conv i w) = (pre @ conv i w) @ xs"
    using block by (simp add: splice_def length_conv)
  moreover have "body i buf = splice buf i (conv i (window k i buf))"
    using block by (intro body_window) simp
  ultimately have step: "body i buf = (pre @ conv i w) @ xs" by (simp only: w)
  then have len: "length (body i buf) = length buf"
    using block by (simp add: length_conv)
  have "bcj_loop k body (length buf) i buf = bcj_loop k body (length (body i buf)) (i + k) (body i buf)"
    using block k_pos len by (subst bcj_loop.simps) simp
  also have "\<dots> = (i + k + k * (length xs div k), (pre @ conv i w) @ conv_blocks k conv (i + k) xs)"
    using block step len by (intro block.IH) (simp_all add: length_conv)
  finally show ?case
    using block by (simp add: blocks_step whole_Suc del: div_add_self1)
qed

lemma loop_result:
  "bcj_loop k body (length buf) 0 buf = (k * (length buf div k), conv_blocks k conv 0 buf)"
  using loop_blocks [of "[]" 0 buf buf] by simp

text \<open>Whatever is left is less than a block, and untouched.\<close>

lemma blocks_tail: "drop (k * (length xs div k)) (conv_blocks k conv i xs) = drop (k * (length xs div k)) xs"
  by (induction i xs rule: blocks_induct) (simp_all add: blocks_end blocks_step length_conv whole_Suc del: div_add_self1)

text \<open>Converting in pieces: what was left over is converted together with what follows.\<close>

lemma blocks_append:
  "conv_blocks k conv i (xs @ ys) =
    take (k * (length xs div k)) (conv_blocks k conv i xs)
    @ conv_blocks k conv (i + k * (length xs div k)) (drop (k * (length xs div k)) xs @ ys)"
proof (induction i xs rule: blocks_induct)
  case (block i w xs)
  then show ?case by (simp add: blocks_step length_conv add.assoc whole_Suc del: div_add_self1)
qed (simp add: blocks_end)

lemma blocks_shift:
  "conv_blocks k (\<lambda>j. conv (i0 + j)) i xs = conv_blocks k conv (i0 + i) xs"
proof (induction i xs rule: blocks_induct)
  case (rest i xs)
  then show ?case by (simp add: conv_blocks.simps)
next
  case (block i w xs)
  then show ?case
    using k_pos by (subst conv_blocks.simps) (simp add: blocks_step add.assoc)
qed

end

text \<open>A decoder and an encoder that invert each other on every block invert each other on
  every buffer.\<close>

locale block_codec = dec: block_filter k dconv dbody + enc: block_filter k econv ebody
  for k dconv dbody econv ebody +
  assumes inverse: "length w = k \<Longrightarrow> k dvd i \<Longrightarrow> dconv i (econv i w) = w"
begin

lemma blocks_inverse: "k dvd i \<Longrightarrow> conv_blocks k dconv i (conv_blocks k econv i xs) = xs"
proof (induction i xs rule: dec.blocks_induct)
  case (block i w xs)
  then show ?case by (simp add: enc.blocks_step dec.blocks_step enc.length_conv inverse)
qed (simp add: enc.blocks_end dec.blocks_end)

lemma decode_encode:
  "bcj_loop k dbody (length buf) 0 (snd (bcj_loop k ebody (length buf) 0 buf)) = (k * (length buf div k), buf)"
  using dec.loop_result [of "conv_blocks k econv 0 buf"] blocks_inverse [of 0 buf]
  by (simp add: enc.loop_result)

end

section \<open>Branch fields\<close>

text \<open>
  What a filter does to one instruction: if the instruction is a branch, a field of \<open>n\<close>
  bits in it is replaced. \<open>field_add\<close> adds a number to the field; the encoder adds the
  address (in the unit of the field), the decoder subtracts it.
\<close>

definition field_add ::
  "('w::len word \<Rightarrow> bool) \<Rightarrow> ('w word \<Rightarrow> u32) \<Rightarrow> ('w word \<Rightarrow> u32 \<Rightarrow> 'w word) \<Rightarrow> u32 \<Rightarrow> 'w word \<Rightarrow> 'w word" where
  "field_add matches ext ins c w = (if matches w then ins w (ext w + c) else w)"

lemma take_bit_add_left: "take_bit n (take_bit n a + b) = take_bit n (a + b)" for a b :: "'w::len word"
proof -
  have int: "take_bit m (take_bit n x + y) = take_bit m (x + y)" if "m \<le> n" for m and x y :: int
    using that take_bit_add [of m "take_bit n x" y] take_bit_add [of m x y] by (simp add: min_def)
  have "uint (take_bit n (take_bit n a + b)) = take_bit (min n LENGTH('w)) (take_bit n (uint a) + uint b)"
    by (simp add: unsigned_take_bit_eq uint_word_ariths take_bit_take_bit flip: take_bit_eq_mod)
  also have "\<dots> = take_bit (min n LENGTH('w)) (uint a + uint b)" by (rule int) simp
  also have "\<dots> = uint (take_bit n (a + b))"
    by (simp add: unsigned_take_bit_eq uint_word_ariths take_bit_take_bit flip: take_bit_eq_mod)
  finally show ?thesis by (simp only: word_uint_eq_iff)
qed

locale field_codec =
  fixes matches :: "'w::len word \<Rightarrow> bool"
    and ext :: "'w word \<Rightarrow> u32"
    and ins :: "'w word \<Rightarrow> u32 \<Rightarrow> 'w word"
    and n :: nat
  assumes matches_ins: "matches w \<Longrightarrow> matches (ins w v)"
    and ext_ins: "matches w \<Longrightarrow> ext (ins w v) = take_bit n v"
    and ins_ext: "matches w \<Longrightarrow> ins w (ext w) = w"
    and ins_ins: "matches w \<Longrightarrow> ins (ins w v) v' = ins w v'"
    and ins_take: "ins w (take_bit n v) = ins w v"
begin

lemma ext_take: "matches w \<Longrightarrow> take_bit n (ext w) = ext w"
  by (metis ext_ins ins_ext)

lemma add_minus: "field_add matches ext ins (- c) (field_add matches ext ins c w) = w"
proof (cases "matches w")
  case True
  have "ins w (take_bit n (ext w + c) + - c) = ins w (take_bit n (take_bit n (ext w + c) - c))"
    by (simp add: ins_take)
  also have "take_bit n (take_bit n (ext w + c) - c) = take_bit n (ext w)"
    using take_bit_add_left [of n "ext w + c" "- c"] by simp
  also have "ins w \<dots> = w" using True by (simp add: ins_take ins_ext)
  finally show ?thesis
    using True by (simp add: field_add_def matches_ins ext_ins ins_ins)
qed (simp add: field_add_def)

lemma minus_add: "field_add matches ext ins c (field_add matches ext ins (- c) w) = w"
  using add_minus [of "- c" w] by simp

end

text \<open>The code scales the field to a byte address and back.\<close>

lemma scaled_diff:
  assumes "s + n \<le> 32" and "take_bit s at = (0 :: u32)"
  shows "take_bit n (drop_bit s (push_bit s a - at)) = take_bit n (a - drop_bit s at)"
proof -
  have "at = push_bit s (drop_bit s at)"
    using assms(2) by (metis add.right_neutral bits_ident)
  moreover have "push_bit s a - push_bit s d = push_bit s (a - d)" for d :: u32
    by (simp add: push_bit_eq_mult algebra_simps)
  ultimately have "push_bit s a - at = push_bit s (a - drop_bit s at)" by metis
  moreover have "take_bit n (drop_bit s (push_bit s x)) = take_bit n x" for x :: u32
    using assms(1) by (intro bit_word_eqI) (auto simp: bit_simps)
  ultimately show ?thesis by simp
qed

lemma bit_u8_high: "8 \<le> n \<Longrightarrow> bit (b :: u8) n = False"
  by (auto dest: bit_imp_le_length)

subsection \<open>PowerPC, ARM, SPARC\<close>

definition ppc_branch :: "u32 \<Rightarrow> bool" where
  "ppc_branch w \<longleftrightarrow> w AND 0xFC000003 = 0x48000001"

definition ppc_target :: "u32 \<Rightarrow> u32" where
  "ppc_target w = take_bit 24 (drop_bit 2 w)"

definition ppc_retarget :: "u32 \<Rightarrow> u32 \<Rightarrow> u32" where
  "ppc_retarget w v = push_bit 2 (take_bit 24 v) OR 0x48000001"

interpretation ppc: field_codec ppc_branch ppc_target ppc_retarget 24
  by unfold_locales (simp_all add: ppc_branch_def ppc_target_def ppc_retarget_def bits32 bit_simps)

lemma powerpc_instr_field:
  assumes "take_bit 2 at = 0"
  shows "powerpc_instr at w = field_add ppc_branch ppc_target ppc_retarget (- drop_bit 2 at) w"
proof -
  have mask: "x AND 0x03FFFFFC = push_bit 2 (take_bit 24 (drop_bit 2 x))" for x :: u32
    by (simp add: bits32 bit_simps)
  have "take_bit 24 (drop_bit 2 (push_bit 2 (ppc_target w) - at)) = take_bit 24 (ppc_target w - drop_bit 2 at)"
    by (rule scaled_diff) (use assms in simp_all)
  then show ?thesis
    unfolding powerpc_instr_def field_add_def Let_def mask ppc_branch_def [symmetric] ppc_target_def [symmetric]
    by (simp add: ppc_retarget_def)
qed

definition arm_branch :: "u32 \<Rightarrow> bool" where
  "arm_branch w \<longleftrightarrow> drop_bit 24 w = 0xEB"

definition arm_target :: "u32 \<Rightarrow> u32" where
  "arm_target w = take_bit 24 w"

definition arm_retarget :: "u32 \<Rightarrow> u32 \<Rightarrow> u32" where
  "arm_retarget w v = take_bit 24 v OR 0xEB000000"

interpretation arm: field_codec arm_branch arm_target arm_retarget 24
  by unfold_locales (simp_all add: arm_branch_def arm_target_def arm_retarget_def bits32 bit_simps)

lemma arm_step_field:
  assumes "take_bit 2 (pos + word_of_nat i) = 0" and "i + 4 \<le> length buf"
  shows "arm_step pos i buf =
    put_unaligned_le32 (field_add arm_branch arm_target arm_retarget (- drop_bit 2 (pos + word_of_nat i + 8))
      (get_unaligned_le32 buf i)) buf i"
proof -
  let ?w = "get_unaligned_le32 buf i" and ?at = "pos + word_of_nat i + 8"
  have top: "drop_bit 24 ?w = ucast (buf ! (i + 3))"
    by (simp add: get_unaligned_le32_def bits32 bit_simps bit_u8_high)
  have low: "ucast (buf ! i) OR push_bit 8 (ucast (buf ! (i + 1))) OR push_bit 16 (ucast (buf ! (i + 2))) = arm_target ?w"
    by (simp add: get_unaligned_le32_def arm_target_def bits32 bit_simps bit_u8_high)
  have "take_bit 2 ?at = take_bit 2 (take_bit 2 (pos + word_of_nat i) + 8)"
    by (simp only: take_bit_add_left)
  then have "take_bit 2 ?at = 0" using assms(1) by simp
  then have field: "take_bit 24 (drop_bit 2 (push_bit 2 (arm_target ?w) - ?at)) = take_bit 24 (arm_target ?w - drop_bit 2 ?at)"
    by (intro scaled_diff) simp_all
  have bytes: "ucast (take_bit 24 x :: u32) = (ucast x :: u8)" "ucast (drop_bit 8 (take_bit 24 x :: u32)) = (ucast (drop_bit 8 x) :: u8)"
      "ucast (drop_bit 16 (take_bit 24 x :: u32)) = (ucast (drop_bit 16 x) :: u8)" for x
    by (simp_all add: bits8 bit_simps)
  have put: "put_unaligned_le32 (take_bit 24 x OR 0xEB000000) buf i
      = buf[i := ucast x, i + 1 := ucast (drop_bit 8 x), i + 2 := ucast (drop_bit 16 x)]"
    if "buf ! (i + 3) = 0xEB" for x :: u32
  proof -
    have b: "ucast (take_bit 24 x OR 0xEB000000 :: u32) = (ucast x :: u8)"
        "ucast (drop_bit 8 (take_bit 24 x OR 0xEB000000 :: u32)) = (ucast (drop_bit 8 x) :: u8)"
        "ucast (drop_bit 16 (take_bit 24 x OR 0xEB000000 :: u32)) = (ucast (drop_bit 16 x) :: u8)"
        "ucast (drop_bit 24 (take_bit 24 x OR 0xEB000000 :: u32)) = (0xEB :: u8)"
      by (simp_all add: bits8 bit_simps)
    show ?thesis
      unfolding put_unaligned_le32_def b
      using that assms(2) by (simp add: list_update_same_conv)
  qed
  have match: "arm_branch ?w \<longleftrightarrow> buf ! (i + 3) = 0xEB"
    by (simp add: arm_branch_def top bits32 bits8 bit_simps bit_u8_high)
  show ?thesis
  proof (cases "arm_branch ?w")
    case True
    let ?v = "arm_target ?w - drop_bit 2 ?at" and ?d = "drop_bit 2 (push_bit 2 (arm_target ?w) - ?at)"
    have "arm_step pos i buf = buf[i := ucast ?d, i + 1 := ucast (drop_bit 8 ?d), i + 2 := ucast (drop_bit 16 ?d)]"
      using True match unfolding arm_step_def Let_def low by simp
    also have "\<dots> = put_unaligned_le32 (take_bit 24 ?d OR 0xEB000000) buf i"
      using True match put by simp
    also have "\<dots> = put_unaligned_le32 (arm_retarget ?w ?v) buf i"
      by (simp only: field arm_retarget_def)
    finally show ?thesis using True by (simp add: field_add_def)
  qed (use match in \<open>simp add: arm_step_def field_add_def\<close>)
qed

definition sparc_branch :: "u32 \<Rightarrow> bool" where
  "sparc_branch w \<longleftrightarrow> drop_bit 22 w = 0x100 \<or> drop_bit 22 w = 0x1FF"

definition sparc_target :: "u32 \<Rightarrow> u32" where
  "sparc_target w = take_bit 23 w"

definition sparc_retarget :: "u32 \<Rightarrow> u32 \<Rightarrow> u32" where
  \<comment> \<open>the field is extended with its sign bit\<close>
  "sparc_retarget w v = (if bit v 22 then 0x7FC00000 else 0x40000000) OR take_bit 22 v"

interpretation sparc: field_codec sparc_branch sparc_target sparc_retarget 23
  by unfold_locales (auto simp: sparc_branch_def sparc_target_def sparc_retarget_def bits32 bit_simps)

lemma sparc_instr_field:
  assumes "take_bit 2 at = 0"
  shows "sparc_instr at w = field_add sparc_branch sparc_target sparc_retarget (- drop_bit 2 at) w"
proof -
  let ?x = "drop_bit 2 (push_bit 2 w - at)"
  have sign: "x AND 0x400000 = (if bit x 22 then 0x400000 else 0)" for x :: u32
    by (simp add: bits32 bit_simps)
  have out: "((0x40000000 - (x AND 0x400000)) OR 0x40000000 OR (x AND 0x3FFFFF)) = sparc_retarget w x" for x
    unfolding sign by (simp add: sparc_retarget_def bits32 bit_simps)
  have "take_bit 23 ?x = take_bit 23 (w - drop_bit 2 at)"
    by (rule scaled_diff) (use assms in simp_all)
  also have "\<dots> = take_bit 23 (sparc_target w - drop_bit 2 at)"
    using take_bit_add_left [of 23 w "- drop_bit 2 at"] by (simp add: sparc_target_def)
  finally have "sparc_retarget w ?x = sparc_retarget w (sparc_target w - drop_bit 2 at)"
    by (metis sparc.ins_take)
  then show ?thesis
    unfolding sparc_instr_def field_add_def Let_def out sparc_branch_def [symmetric] by simp
qed

subsection \<open>ARM64\<close>

definition bl_branch :: "u32 \<Rightarrow> bool" where
  "bl_branch w \<longleftrightarrow> drop_bit 26 w = 0x25"

definition bl_target :: "u32 \<Rightarrow> u32" where
  "bl_target w = take_bit 26 w"

definition bl_retarget :: "u32 \<Rightarrow> u32 \<Rightarrow> u32" where
  "bl_retarget w v = 0x94000000 OR take_bit 26 v"

interpretation bl: field_codec bl_branch bl_target bl_retarget 26
  by unfold_locales (simp_all add: bl_branch_def bl_target_def bl_retarget_def bits32 bit_simps)

text \<open>ADRP: the 21 bits of the page number are in two places; the filter touches only those
  numbers that fit 18 bits with sign.\<close>

definition adrp_address :: "u32 \<Rightarrow> u32" where
  "adrp_address w = (drop_bit 29 w AND 3) OR (drop_bit 3 w AND 0x1FFFFC)"

definition adrp_branch :: "u32 \<Rightarrow> bool" where
  "adrp_branch w \<longleftrightarrow> w AND 0x9F000000 = 0x90000000 \<and>
     bit w 21 = bit w 20 \<and> bit w 22 = bit w 20 \<and> bit w 23 = bit w 20"

definition adrp_target :: "u32 \<Rightarrow> u32" where
  "adrp_target w = take_bit 18 (adrp_address w)"

definition adrp_retarget :: "u32 \<Rightarrow> u32 \<Rightarrow> u32" where
  "adrp_retarget w v = (w AND 0x9000001F) OR push_bit 29 (v AND 3) OR push_bit 3 (v AND 0x03FFFC)
     OR (if bit v 17 then 0xE00000 else 0)"

interpretation adrp: field_codec adrp_branch adrp_target adrp_retarget 18
  by unfold_locales
     (simp_all add: adrp_branch_def adrp_target_def adrp_retarget_def adrp_address_def bits32 bit_simps)

lemma signed_range:
  fixes a :: u32
  assumes "unat a < 2097152"
  shows "(a + 0x020000) AND 0x1C0000 = 0 \<longleftrightarrow> bit a 18 = bit a 17 \<and> bit a 19 = bit a 17 \<and> bit a 20 = bit a 17"
proof -
  let ?x = "a + 0x020000" and ?h = "drop_bit 17 a"
  have "unat ?x = unat a + 131072" using assms by (subst unat_add_small) simp_all
  then have "unat (drop_bit 17 ?x) = unat ?h + 1" and h: "unat ?h < 16"
    using assms by (simp_all add: unat_drop_bit_u32)
  then have x: "drop_bit 17 ?x = ?h + 1"
    by (simp add: word_unat_eq_iff unat_add_small)
  have "?x AND 0x1C0000 = 0 \<longleftrightarrow> drop_bit 17 ?x AND 0xE = 0"
    by (simp add: bits32 bit_simps)
  also have "\<dots> \<longleftrightarrow> (?h + 1) AND 0xE = 0" by (simp only: x)
  also have "\<dots> \<longleftrightarrow> bit ?h 1 = bit ?h 0 \<and> bit ?h 2 = bit ?h 0 \<and> bit ?h 3 = bit ?h 0"
  proof -
    from h have "?h \<in> {0, 1, 2, 3, 4, 5, 6, 7, 8, 9, 10, 11, 12, 13, 14, 15}"
      by (simp add: word_unat_eq_iff) presburger
    then show ?thesis by (elim insertE emptyE) simp_all
  qed
  also have "\<dots> \<longleftrightarrow> bit a 18 = bit a 17 \<and> bit a 19 = bit a 17 \<and> bit a 20 = bit a 17"
    by (simp add: bit_simps)
  finally show ?thesis .
qed

lemma adrp_match:
  "adrp_branch w \<longleftrightarrow> w AND 0x9F000000 = 0x90000000 \<and> (adrp_address w + 0x020000) AND 0x1C0000 = 0"
proof -
  have "adrp_address w = take_bit 21 (adrp_address w)"
    by (simp add: adrp_address_def bits32 bit_simps)
  then have "unat (adrp_address w) = take_bit 21 (unat (adrp_address w))"
    by (metis unsigned_take_bit_eq)
  then have "unat (adrp_address w) < 2097152"
    using take_bit_nat_less_exp [of 21 "unat (adrp_address w)"] by simp
  note signed_range [OF this]
  moreover have "bit (adrp_address w) 17 = bit w 20" "bit (adrp_address w) 18 = bit w 21"
      "bit (adrp_address w) 19 = bit w 22" "bit (adrp_address w) 20 = bit w 23"
    by (simp_all add: adrp_address_def bit_simps)
  ultimately show ?thesis by (simp add: adrp_branch_def)
qed

lemma adrp_not_bl: "adrp_branch w \<Longrightarrow> \<not> bl_branch w"
  by (simp add: adrp_branch_def bl_branch_def bits32 bit_simps)

lemma arm64_instr_field:
  "arm64_instr at w =
    (if bl_branch w then field_add bl_branch bl_target bl_retarget (- drop_bit 2 at) w
     else field_add adrp_branch adrp_target adrp_retarget (- drop_bit 12 at) w)"
proof (cases "bl_branch w")
  case True
  have "0x94000000 OR (x AND 0x03FFFFFF) = bl_retarget w x" for x
    by (simp add: bl_retarget_def bits32 bit_simps)
  then have "arm64_instr at w = bl_retarget w (w - drop_bit 2 at)"
    using True by (simp add: arm64_instr_def bl_branch_def)
  also have "\<dots> = bl_retarget w (bl_target w + - drop_bit 2 at)"
    using take_bit_add_left [of 26 w "- drop_bit 2 at"] by (simp add: bl_target_def bl_retarget_def)
  finally show ?thesis using True by (simp add: field_add_def)
next
  case False
  have out: "(((w AND 0x9000001F) OR push_bit 29 (x AND 3)) OR push_bit 3 (x AND 0x03FFFC))
      OR ((0 - (x AND 0x020000)) AND 0xE00000) = adrp_retarget w x" for x
  proof -
    have "x AND 0x020000 = (if bit x 17 then 0x020000 else 0)" by (simp add: bits32 bit_simps)
    then show ?thesis by (simp add: adrp_retarget_def or.assoc)
  qed
  have "arm64_instr at w = (if adrp_branch w then adrp_retarget w (adrp_address w - drop_bit 12 at) else w)"
    using False unfolding arm64_instr_def Let_def adrp_match adrp_address_def [symmetric] bl_branch_def out
    by simp
  also have "adrp_retarget w (adrp_address w - drop_bit 12 at) = adrp_retarget w (adrp_target w - drop_bit 12 at)"
    by (metis adrp.ins_take adrp_target_def take_bit_add_left add_uminus_conv_diff)
  finally show ?thesis using False by (simp add: field_add_def)
qed

section \<open>The word filters as codecs\<close>

definition be_conv :: "(nat \<Rightarrow> u32 \<Rightarrow> u32) \<Rightarrow> nat \<Rightarrow> u8 list \<Rightarrow> u8 list" where
  "be_conv f i w = put_unaligned_be32 (f i (get_unaligned_be32 w 0)) w 0"

definition be_body :: "(nat \<Rightarrow> u32 \<Rightarrow> u32) \<Rightarrow> nat \<Rightarrow> u8 list \<Rightarrow> u8 list" where
  "be_body f i buf = put_unaligned_be32 (f i (get_unaligned_be32 buf i)) buf i"

definition le_conv :: "(nat \<Rightarrow> u32 \<Rightarrow> u32) \<Rightarrow> nat \<Rightarrow> u8 list \<Rightarrow> u8 list" where
  "le_conv f i w = put_unaligned_le32 (f i (get_unaligned_le32 w 0)) w 0"

definition le_body :: "(nat \<Rightarrow> u32 \<Rightarrow> u32) \<Rightarrow> nat \<Rightarrow> u8 list \<Rightarrow> u8 list" where
  "le_body f i buf = put_unaligned_le32 (f i (get_unaligned_le32 buf i)) buf i"

lemma get_window:
  assumes "length w = 4" and "i + 4 \<le> length buf"
  shows "get_unaligned_be32 (splice buf i w) i = get_unaligned_be32 w 0"
    and "get_unaligned_le32 (splice buf i w) i = get_unaligned_le32 w 0"
  using nth_splice_window [OF assms, of 0] nth_splice_window [OF assms, of 1]
    nth_splice_window [OF assms, of 2] nth_splice_window [OF assms, of 3]
  by (simp_all add: get_unaligned_be32_def get_unaligned_le32_def numeral_2_eq_2)

lemma put_window:
  assumes "length w = 4" and "i + 4 \<le> length buf"
  shows "put_unaligned_be32 v (splice buf i w) i = splice buf i (put_unaligned_be32 v w 0)"
    and "put_unaligned_le32 v (splice buf i w) i = splice buf i (put_unaligned_le32 v w 0)"
proof -
  have upd: "(splice buf i w')[i + a := x] = splice buf i (w'[a := x])" if "length w' = 4" "a < 4" for w' a x
    by (rule update_splice_window [OF that(1) assms(2) that(2)])
  note u = upd [where a = 0, simplified] upd [where a = 1, simplified] upd [where a = 2, simplified] upd [where a = 3, simplified]
  show "put_unaligned_be32 v (splice buf i w) i = splice buf i (put_unaligned_be32 v w 0)"
    using assms by (simp add: put_unaligned_be32_def u numeral_2_eq_2)
  show "put_unaligned_le32 v (splice buf i w) i = splice buf i (put_unaligned_le32 v w 0)"
    using assms by (simp add: put_unaligned_le32_def u numeral_2_eq_2)
qed

lemma be_block: "block_filter 4 (be_conv f) (be_body f)"
proof
  fix i and buf :: "u8 list" assume len: "i + 4 \<le> length buf"
  let ?w = "window 4 i buf"
  have "be_body f i (splice buf i ?w) = splice buf i (be_conv f i ?w)"
    using len by (simp only: be_body_def be_conv_def get_window put_window length_window)
  then show "be_body f i buf = splice buf i (be_conv f i (window 4 i buf))"
    using len by simp
qed (simp_all add: be_conv_def)

lemma le_block: "block_filter 4 (le_conv f) (le_body f)"
proof
  fix i and buf :: "u8 list" assume len: "i + 4 \<le> length buf"
  let ?w = "window 4 i buf"
  have "le_body f i (splice buf i ?w) = splice buf i (le_conv f i ?w)"
    using len by (simp only: le_body_def le_conv_def get_window put_window length_window)
  then show "le_body f i buf = splice buf i (le_conv f i (window 4 i buf))"
    using len by simp
qed (simp_all add: le_conv_def)

lemma be_codec:
  assumes "\<And>i v. 4 dvd i \<Longrightarrow> d i (e i v) = v"
  shows "block_codec 4 (be_conv d) (be_body d) (be_conv e) (be_body e)"
  by (intro block_codec.intro be_block block_codec_axioms.intro) (simp add: be_conv_def assms)

lemma le_codec:
  assumes "\<And>i v. 4 dvd i \<Longrightarrow> d i (e i v) = v"
  shows "block_codec 4 (le_conv d) (le_body d) (le_conv e) (le_body e)"
  by (intro block_codec.intro le_block block_codec_axioms.intro) (simp add: le_conv_def assms)

text \<open>Addresses of whole words.\<close>

lemma aligned_at:
  assumes "2 ^ s dvd i" shows "take_bit s (push_bit s q + word_of_nat i) = (0 :: u32)"
proof -
  from assms obtain j where "i = 2 ^ s * j" ..
  then have "push_bit s q + word_of_nat i = push_bit s (q + word_of_nat j :: u32)"
    by (simp add: push_bit_eq_mult algebra_simps)
  then show ?thesis by (simp add: bits_ident) (rule bit_word_eqI, auto simp: bit_simps)
qed

lemma aligned_pos: "take_bit s pos = (0 :: u32) \<Longrightarrow> pos = push_bit s (drop_bit s pos)"
  by (metis add.right_neutral bits_ident)

definition powerpc_code :: "u32 \<Rightarrow> nat \<Rightarrow> u32 \<Rightarrow> u32" where
  "powerpc_code pos i = field_add ppc_branch ppc_target ppc_retarget (drop_bit 2 (pos + word_of_nat i))"

definition sparc_code :: "u32 \<Rightarrow> nat \<Rightarrow> u32 \<Rightarrow> u32" where
  "sparc_code pos i = field_add sparc_branch sparc_target sparc_retarget (drop_bit 2 (pos + word_of_nat i))"

definition arm_code :: "u32 \<Rightarrow> nat \<Rightarrow> u32 \<Rightarrow> u32" where
  "arm_code pos i = field_add arm_branch arm_target arm_retarget (drop_bit 2 (pos + word_of_nat i + 8))"

definition arm64_code :: "u32 \<Rightarrow> nat \<Rightarrow> u32 \<Rightarrow> u32" where
  "arm64_code pos i w =
     (if bl_branch w then field_add bl_branch bl_target bl_retarget (drop_bit 2 (pos + word_of_nat i)) w
      else field_add adrp_branch adrp_target adrp_retarget (drop_bit 12 (pos + word_of_nat i)) w)"

interpretation powerpc: block_codec 4
  "be_conv (\<lambda>i. powerpc_instr (push_bit 2 q + word_of_nat i))" "be_body (\<lambda>i. powerpc_instr (push_bit 2 q + word_of_nat i))"
  "be_conv (powerpc_code (push_bit 2 q))" "be_body (powerpc_code (push_bit 2 q))" for q
  by (rule be_codec) (simp add: powerpc_code_def powerpc_instr_field [OF aligned_at] ppc.add_minus)

interpretation sparc: block_codec 4
  "be_conv (\<lambda>i. sparc_instr (push_bit 2 q + word_of_nat i))" "be_body (\<lambda>i. sparc_instr (push_bit 2 q + word_of_nat i))"
  "be_conv (sparc_code (push_bit 2 q))" "be_body (sparc_code (push_bit 2 q))" for q
  by (rule be_codec) (simp add: sparc_code_def sparc_instr_field [OF aligned_at] sparc.add_minus)

lemma arm64_inverse: "arm64_instr (pos + word_of_nat i) (arm64_code pos i w) = w"
proof (cases "bl_branch w")
  case True
  then have "bl_branch (field_add bl_branch bl_target bl_retarget c w)" for c
    by (simp add: field_add_def bl.matches_ins)
  then show ?thesis
    using True by (simp add: arm64_instr_field arm64_code_def bl.add_minus)
next
  case False
  then have "\<not> bl_branch (field_add adrp_branch adrp_target adrp_retarget c w)" for c
    using adrp_not_bl adrp.matches_ins by (auto simp: field_add_def)
  then show ?thesis
    using False by (simp add: arm64_instr_field arm64_code_def adrp.add_minus)
qed

interpretation arm64: block_codec 4
  "le_conv (\<lambda>i. arm64_instr (pos + word_of_nat i))" "le_body (\<lambda>i. arm64_instr (pos + word_of_nat i))"
  "le_conv (arm64_code pos)" "le_body (arm64_code pos)" for pos
  by (rule le_codec) (rule arm64_inverse)

lemma arm_step_window:
  assumes "length w = 4" and "i + 4 \<le> length buf"
  shows "arm_step pos i (splice buf i w) = splice buf i (arm_step (pos + word_of_nat i) 0 w)"
proof -
  note n = nth_splice_window [OF assms, of 0, simplified] nth_splice_window [OF assms, of 1, simplified]
    nth_splice_window [OF assms, of 2, simplified] nth_splice_window [OF assms, of 3, simplified]
  have upd: "(splice buf i w')[i + a := x] = splice buf i (w'[a := x])" if "length w' = 4" "a < 4" for w' a x
    by (rule update_splice_window [OF that(1) assms(2) that(2)])
  note u = upd [where a = 0, simplified] upd [where a = 1, simplified] upd [where a = 2, simplified]
  show ?thesis
    using assms by (simp add: arm_step_def n u Let_def numeral_2_eq_2)
qed

interpretation arm: block_codec 4 "\<lambda>i. arm_step (push_bit 2 q + word_of_nat i) 0" "arm_step (push_bit 2 q)"
  "le_conv (arm_code (push_bit 2 q))" "le_body (arm_code (push_bit 2 q))" for q
proof (intro block_codec.intro le_block block_codec_axioms.intro)
  show "block_filter 4 (\<lambda>i. arm_step (push_bit 2 q + word_of_nat i) 0) (arm_step (push_bit 2 q))"
  proof
    fix i and buf :: "u8 list" assume len: "i + 4 \<le> length buf"
    show "arm_step (push_bit 2 q) i buf = splice buf i (arm_step (push_bit 2 q + word_of_nat i) 0 (window 4 i buf))"
      using arm_step_window [OF length_window [OF len] len, of "push_bit 2 q"] len by simp
  qed (simp_all add: arm_step_def Let_def)
next
  fix w :: "u8 list" and i :: nat assume w: "length w = 4" and i: "4 dvd i"
  let ?pos = "push_bit 2 q + word_of_nat i :: u32"
  have "take_bit 2 (?pos + word_of_nat 0) = 0" using aligned_at [of 2 i q] i by simp
  then show "arm_step ?pos 0 (le_conv (arm_code (push_bit 2 q)) i w) = w"
    using w by (subst arm_step_field) (simp_all add: le_conv_def arm_code_def arm.add_minus)
qed

subsection \<open>IA-64\<close>

text \<open>
  A bundle of 16 bytes is 5 bits of template and three slots of 41 bits. A slot is read and
  written through six bytes, which it shares with its neighbours; \<open>slot_bits\<close> is its own
  content. Decoding a slot changes that slot only.
\<close>

definition byte_pos :: "nat \<Rightarrow> nat" where
  "byte_pos s = (5 + 41 * s) div 8"

definition bit_res :: "nat \<Rightarrow> nat" where
  "bit_res s = (5 + 41 * s) mod 8"

definition bundle_bit :: "u8 list \<Rightarrow> nat \<Rightarrow> bool" where
  "bundle_bit w p = bit (w ! (p div 8)) (p mod 8)"

definition slot_bits :: "u8 list \<Rightarrow> nat \<Rightarrow> u64" where
  "slot_bits w s = take_bit 41 (drop_bit (bit_res s) (ia64_load w (byte_pos s)))"

definition slot_update :: "(u64 \<Rightarrow> u64) \<Rightarrow> u8 list \<Rightarrow> nat \<Rightarrow> u8 list" where
  "slot_update g w s =
     (let instr = ia64_load w (byte_pos s)
      in ia64_store ((instr AND (push_bit (bit_res s) 1 - 1)) OR push_bit (bit_res s) (g (drop_bit (bit_res s) instr)))
           w (byte_pos s))"

lemma six_bytes: "[0..<6] = [0, 1, 2, 3, 4, 5 :: nat]"
  by (simp add: upt_rec)

lemma bit_or_fold:
  "bit (foldl (\<lambda>x j. x OR f j) (v :: u64) js) n \<longleftrightarrow> bit v n \<or> (\<exists>j\<in>set js. bit (f j) n)"
  by (induction js arbitrary: v) (auto simp: bit_or_iff)

lemma bit_byte_at: "bit (push_bit (8 * j) (ucast (x :: u8)) :: u64) n \<longleftrightarrow> n < 64 \<and> j = n div 8 \<and> bit x (n mod 8)"
proof -
  have "8 * j \<le> n \<and> bit x (n - 8 * j) \<longleftrightarrow> j = n div 8 \<and> bit x (n mod 8)"
  proof (cases "j = n div 8")
    case False
    then have "8 * j \<le> n \<Longrightarrow> 8 \<le> n - 8 * j" by linarith
    with False show ?thesis using bit_u8_high by blast
  qed (simp add: modulo_nat_def mult.commute)
  then show ?thesis by (auto simp: bit_simps)
qed

lemma bit_load: "bit (ia64_load w k) n \<longleftrightarrow> n < 48 \<and> bundle_bit w (8 * k + n)"
proof -
  have "n < 48 \<longleftrightarrow> n div 8 < 6" by linarith
  then show ?thesis
    by (auto simp: ia64_load_def bit_or_fold bit_byte_at bundle_bit_def)
qed

lemma length_store [simp]: "length (ia64_store v w k) = length w"
  by (simp add: ia64_store_def six_bytes)

lemma nth_store:
  assumes "k + 6 \<le> length w" and "a < length w"
  shows "ia64_store v w k ! a = (if k \<le> a \<and> a < k + 6 then ucast (drop_bit (8 * (a - k)) v) else w ! a)"
proof (cases "k \<le> a \<and> a < k + 6")
  case True
  then obtain d where d: "a = k + d" "d < 6" by (metis le_add_diff_inverse nat_add_left_cancel_less)
  from d(2) have "d = 0 \<or> d = 1 \<or> d = 2 \<or> d = 3 \<or> d = 4 \<or> d = 5" by linarith
  then show ?thesis
    using assms d by (auto simp: ia64_store_def six_bytes nth_list_update)
qed (use assms in \<open>auto simp: ia64_store_def six_bytes nth_list_update\<close>)

lemma bit_store:
  assumes "k + 6 \<le> length w" and "p < 8 * length w"
  shows "bundle_bit (ia64_store v w k) p = (if 8 * k \<le> p \<and> p < 8 * k + 48 then bit v (p - 8 * k) else bundle_bit w p)"
proof -
  have in_range: "8 * k \<le> p \<and> p < 8 * k + 48 \<longleftrightarrow> k \<le> p div 8 \<and> p div 8 < k + 6" by linarith
  have "p mod 8 < 8" by simp
  moreover have "8 * (p div 8 - k) + p mod 8 = p - 8 * k" if "k \<le> p div 8"
    using that by (simp add: diff_mult_distrib2)
  ultimately show ?thesis
    unfolding in_range bundle_bit_def using assms
    by (subst nth_store) (auto simp: bit_simps add.commute)
qed


lemma slot_start: "8 * byte_pos s + bit_res s = 5 + 41 * s" "bit_res s < 8"
  by (simp_all add: byte_pos_def bit_res_def)

lemma bit_slot_bits: "bit (slot_bits w s) n \<longleftrightarrow> n < 41 \<and> bundle_bit w (5 + 41 * s + n)"
proof -
  have "bundle_bit w (8 * byte_pos s + (bit_res s + n)) = bundle_bit w (5 + 41 * s + n)"
    by (simp only: slot_start(1) flip: add.assoc)
  moreover have "n < 41 \<Longrightarrow> bit_res s + n < 48" using slot_start [of s] by linarith
  ultimately show ?thesis
    unfolding slot_bits_def bit_take_bit_iff bit_drop_bit_eq comp_def bit_load by blast
qed

text \<open>A function on a slot that keeps the bits above 41 and does not look at them.\<close>

definition slot_local :: "(u64 \<Rightarrow> u64) \<Rightarrow> bool" where
  "slot_local g \<longleftrightarrow> (\<forall>x n. bit (g x) n \<longleftrightarrow> (if n < 41 then bit (g (take_bit 41 x)) n else bit x n))"

lemma slot_local_high: "slot_local g \<Longrightarrow> 41 \<le> n \<Longrightarrow> bit (g x) n \<longleftrightarrow> bit x n"
  unfolding slot_local_def by (metis not_le)

lemma slot_local_low: "slot_local g \<Longrightarrow> n < 41 \<Longrightarrow> bit (g x) n \<longleftrightarrow> bit (g (take_bit 41 x)) n"
  unfolding slot_local_def by metis

lemma length_slot_update [simp]: "length (slot_update g w s) = length w"
  by (simp add: slot_update_def Let_def)

lemma bit_low_mask: "bit (2 ^ r - 1 :: u64) n \<longleftrightarrow> n < r \<and> n < 64"
  unfolding mask_eq_exp_minus_1 [symmetric] by (auto simp: bit_simps)

lemma bit_slot_update:
  assumes "slot_local g" and "s < 3" and "length w = 16" and "p < 128"
  shows "bundle_bit (slot_update g w s) p =
    (if 5 + 41 * s \<le> p \<and> p < 46 + 41 * s then bit (g (slot_bits w s)) (p - (5 + 41 * s)) else bundle_bit w p)"
proof -
  let ?k = "byte_pos s" and ?r = "bit_res s" and ?n = "p - 8 * byte_pos s"
  let ?x = "ia64_load w ?k"
  note start = slot_start [of s]
  have "s = 0 \<or> s = 1 \<or> s = 2" using assms(2) by linarith
  then have k: "?k + 6 \<le> 16" by (auto simp: byte_pos_def)
  have kept: "bundle_bit w p = bit ?x ?n" if "8 * ?k \<le> p" "p < 8 * ?k + 48"
    using that by (auto simp: bit_load)
  have high: "bit (g (drop_bit ?r ?x)) (?n - ?r) = bit ?x ?n" if "8 * ?k + ?r + 41 \<le> p"
    using that by (subst slot_local_high [OF assms(1)]) (simp_all add: bit_drop_bit_eq)
  have low: "bit (g (drop_bit ?r ?x)) m = bit (g (slot_bits w s)) m" if "m < 41" for m
    unfolding slot_bits_def by (rule slot_local_low [OF assms(1) that])
  have "bundle_bit (slot_update g w s) p =
      (if 8 * ?k \<le> p \<and> p < 8 * ?k + 48
       then bit ((?x AND (push_bit ?r 1 - 1)) OR push_bit ?r (g (drop_bit ?r ?x))) ?n else bundle_bit w p)"
    unfolding slot_update_def Let_def by (rule bit_store) (use k assms(3,4) in simp_all)
  also have "\<dots> = (if 8 * ?k + ?r \<le> p \<and> p < 8 * ?k + ?r + 41
      then bit (g (slot_bits w s)) (p - (8 * ?k + ?r)) else bundle_bit w p)"
  proof (cases "8 * ?k \<le> p \<and> p < 8 * ?k + 48")
    case in_load: True
    consider "p < 8 * ?k + ?r" | "8 * ?k + ?r \<le> p" "p < 8 * ?k + ?r + 41" | "8 * ?k + ?r + 41 \<le> p" by linarith
    then show ?thesis
    proof cases
      case 1
      with in_load show ?thesis by (auto simp: bit_or_iff bit_and_iff bit_push_bit_iff bit_low_mask kept)
    next
      case 2
      then have "bit (g (drop_bit ?r ?x)) (?n - ?r) = bit (g (slot_bits w s)) (p - (8 * ?k + ?r))"
        by (simp add: low)
      with 2 in_load show ?thesis by (auto simp: bit_or_iff bit_and_iff bit_push_bit_iff bit_low_mask)
    next
      case 3
      with in_load high start(2) show ?thesis by (auto simp: bit_or_iff bit_and_iff bit_push_bit_iff bit_low_mask kept)
    qed
  qed (use start(2) in auto)
  finally show ?thesis by (simp add: start(1))
qed

lemma slot_bits_update:
  assumes "slot_local g" and "s < 3" and "s' < 3" and "length w = 16"
  shows "slot_bits (slot_update g w s) s' = (if s' = s then take_bit 41 (g (slot_bits w s)) else slot_bits w s')"
proof (rule bit_word_eqI)
  fix n
  have other: "\<not> (5 + 41 * s \<le> 5 + 41 * s' + n \<and> 5 + 41 * s' + n < 46 + 41 * s)" if "n < 41" "s' \<noteq> s"
  proof -
    from that(2) have "41 * s' + 41 \<le> 41 * s \<or> 41 * s + 41 \<le> 41 * s'" by linarith
    with that show ?thesis by linarith
  qed
  show "bit (slot_bits (slot_update g w s) s') n
      = bit (if s' = s then take_bit 41 (g (slot_bits w s)) else slot_bits w s') n"
  proof (cases "n < 41")
    case True
    with assms have "5 + 41 * s' + n < 128" by linarith
    then have upd: "bit (slot_bits (slot_update g w s) s') n =
        (if 5 + 41 * s \<le> 5 + 41 * s' + n \<and> 5 + 41 * s' + n < 46 + 41 * s
         then bit (g (slot_bits w s)) (5 + 41 * s' + n - (5 + 41 * s)) else bundle_bit w (5 + 41 * s' + n))"
      using True by (simp only: bit_slot_bits bit_slot_update [OF assms(1,2,4)] simp_thms)
    show ?thesis
    proof (cases "s' = s")
      case False
      with other [OF True] upd True show ?thesis by (simp only: if_False bit_slot_bits simp_thms)
    next
      case True
      with \<open>n < 41\<close> show ?thesis unfolding upd by (simp add: bit_take_bit_iff)
    qed
  qed (simp add: bit_slot_bits bit_take_bit_iff)
qed

lemma template_update:
  "slot_local g \<Longrightarrow> s < 3 \<Longrightarrow> length w = 16 \<Longrightarrow> p < 5 \<Longrightarrow> bundle_bit (slot_update g w s) p = bundle_bit w p"
  by (simp add: bit_slot_update)

lemma bundle_eqI:
  assumes "length w = 16" and "length w' = 16" and "\<And>p. p < 5 \<Longrightarrow> bundle_bit w p = bundle_bit w' p"
    and "\<And>s. s < 3 \<Longrightarrow> slot_bits w s = slot_bits w' s"
  shows "w = w'"
proof (rule nth_equalityI)
  fix a assume "a < length w"
  then have a: "a < 16" using assms(1) by simp
  show "w ! a = w' ! a"
  proof (rule bit_word_eqI)
    fix m assume "m < LENGTH(8)"
    then have m: "m < 8" by simp
    let ?p = "8 * a + m"
    have "bundle_bit w ?p = bundle_bit w' ?p"
    proof (cases "?p < 5")
      case False
      let ?s = "(?p - 5) div 41" and ?n = "(?p - 5) mod 41"
      have p: "?p = 5 + 41 * ?s + ?n" using False by simp
      have "?p < 128" using a m by linarith
      then have "?p - 5 < 3 * 41" by linarith
      then have s: "?s < 3" by (rule less_mult_imp_div_less)
      have "bit (slot_bits w ?s) ?n = bit (slot_bits w' ?s) ?n" using assms(4) [OF s] by simp
      then have "bundle_bit w (5 + 41 * ?s + ?n) = bundle_bit w' (5 + 41 * ?s + ?n)"
        by (simp add: bit_slot_bits del: mult_div_mod_eq add_mult_distrib2)
      then show ?thesis by (metis p)
    qed (rule assms(3))
    then show "bit (w ! a) m = bit (w' ! a) m" using m by (simp add: bundle_bit_def)
  qed
qed (simp add: assms)


definition ia_branch :: "u64 \<Rightarrow> bool" where
  "ia_branch x \<longleftrightarrow> drop_bit 37 x AND 0x0F = 0x05 \<and> drop_bit 9 x AND 0x07 = 0"

definition ia_target :: "u64 \<Rightarrow> u32" where
  "ia_target x = ucast (drop_bit 13 x AND 0x0FFFFF) OR push_bit 20 (ucast (drop_bit 36 x) AND 1)"

definition ia_retarget :: "u64 \<Rightarrow> u32 \<Rightarrow> u64" where
  "ia_retarget x v = (x AND NOT (push_bit 13 0x8FFFFF)) OR push_bit 13 (ucast (v AND 0x0FFFFF))
     OR push_bit 16 (ucast (v AND 0x100000))"

interpretation ia: field_codec ia_branch ia_target ia_retarget 21
proof
  fix x v v'
  show "ia_branch x \<Longrightarrow> ia_branch (ia_retarget x v)"
    by (simp add: ia_branch_def ia_retarget_def bits64 bit_simps)
  show "ia_target (ia_retarget x v) = take_bit 21 v"
    by (simp add: ia_target_def ia_retarget_def bits32 bit_simps)
  show "ia_retarget x (ia_target x) = x"
    by (simp add: ia_target_def ia_retarget_def bits64 bit_simps)
  show "ia_retarget (ia_retarget x v) v' = ia_retarget x v'"
    by (simp add: ia_retarget_def bits64 bit_simps)
  show "ia_retarget x (take_bit 21 v) = ia_retarget x v"
    by (simp add: ia_retarget_def bits64 bit_simps)
qed

lemma ia64_norm_field:
  assumes "take_bit 4 at = 0"
  shows "ia64_norm at x = field_add ia_branch ia_target ia_retarget (- drop_bit 4 at) x"
proof -
  let ?d = "drop_bit 4 (push_bit 4 (ia_target x) - at)"
  have "ia64_norm at x = (if ia_branch x then ia_retarget x ?d else x)"
    unfolding ia64_norm_def Let_def ia_branch_def ia_target_def ia_retarget_def by (simp add: or.assoc)
  moreover have "take_bit 21 ?d = take_bit 21 (ia_target x - drop_bit 4 at)"
    by (rule scaled_diff) (use assms in simp_all)
  then have "ia_retarget x ?d = ia_retarget x (ia_target x - drop_bit 4 at)"
    by (metis ia.ins_take)
  ultimately show ?thesis by (simp add: field_add_def)
qed

lemma slot_localI:
  assumes low: "\<And>x. take_bit 41 (g (take_bit 41 x)) = take_bit 41 (g x)" and high: "\<And>x. drop_bit 41 (g x) = drop_bit 41 x"
  shows "slot_local g"
  unfolding slot_local_def
proof (intro allI)
  fix x n
  have "bit (drop_bit 41 y) (n - 41) = bit y n" if "\<not> n < 41" for y :: u64
    using that by (simp add: bit_drop_bit_eq)
  moreover have "bit (take_bit 41 y) n = bit y n" if "n < 41" for y :: u64
    using that by (simp add: bit_take_bit_iff)
  ultimately show "bit (g x) n = (if n < 41 then bit (g (take_bit 41 x)) n else bit x n)"
    using low [of x] high [of x] by metis
qed

lemma ia_local: "slot_local (field_add ia_branch ia_target ia_retarget c)" (is "slot_local ?f")
proof -
  have match: "ia_branch (take_bit 41 x) = ia_branch x" for x
    by (simp add: ia_branch_def bits64 bit_simps)
  have ext: "ia_target (take_bit 41 x) = ia_target x" for x
    by (simp add: ia_target_def bits32 bit_simps)
  have low: "take_bit 41 (ia_retarget (take_bit 41 x) v) = take_bit 41 (ia_retarget x v)" for x v
    by (simp add: ia_retarget_def bits64 bit_simps)
  have high: "drop_bit 41 (ia_retarget x v) = drop_bit 41 x" for x v
    by (auto simp: ia_retarget_def bits64 bit_simps dest: bit_imp_le_length)
  have "take_bit 41 (?f (take_bit 41 x)) = take_bit 41 (?f x)" for x
    by (simp add: field_add_def match ext low)
  moreover have "drop_bit 41 (?f x) = drop_bit 41 x" for x
    by (simp add: field_add_def high)
  ultimately show ?thesis by (rule slot_localI)
qed

text \<open>All slots that the template selects.\<close>

definition update_slots :: "(u64 \<Rightarrow> u64) \<Rightarrow> u32 \<Rightarrow> u8 list \<Rightarrow> u8 list" where
  "update_slots g slots w = foldl (\<lambda>w s. if bit slots s then slot_update g w s else w) w [0..<3]"

definition template :: "u8 list \<Rightarrow> u32" where
  "template w = ia64_branch_table ! unat (w ! 0 AND 0x1F)"

lemma three_slots: "[0..<3] = [0, 1, 2 :: nat]"
  by (simp add: upt_rec)

lemma length_update_slots [simp]: "length (update_slots g slots w) = length w"
  by (simp add: update_slots_def three_slots)

lemma slot_bits_slots:
  assumes "slot_local g" and "length w = 16" and "s < 3"
  shows "slot_bits (update_slots g slots w) s = (if bit slots s then take_bit 41 (g (slot_bits w s)) else slot_bits w s)"
proof -
  have "s = 0 \<or> s = 1 \<or> s = 2" using assms(3) by linarith
  then show ?thesis
    using assms(1,2) by (auto simp: update_slots_def three_slots slot_bits_update)
qed

lemma template_slots:
  assumes "slot_local g" and "length w = 16" and "p < 5"
  shows "bundle_bit (update_slots g slots w) p = bundle_bit w p"
  using assms by (simp add: update_slots_def three_slots template_update)

lemma template_cong:
  assumes "\<And>p. p < 5 \<Longrightarrow> bundle_bit w p = bundle_bit w' p"
  shows "template w = template w'"
proof -
  have "bit (w ! 0) p = bit (w' ! 0) p" if "p < 5" for p
    using assms [OF that] that by (simp add: bundle_bit_def)
  then have "w ! 0 AND 0x1F = w' ! 0 AND 0x1F"
    by (simp add: bits8 bit_simps)
  then show ?thesis by (simp add: template_def)
qed

lemma slots_inverse:
  assumes "slot_local g" and "slot_local h" and "\<And>x. g (h x) = x" and "length w = 16"
  shows "update_slots g slots (update_slots h slots w) = w"
proof (rule bundle_eqI)
  fix s :: nat assume s: "s < 3"
  have "take_bit 41 (g (take_bit 41 (h x))) = take_bit 41 x" for x
    by (rule bit_word_eqI) (auto simp: bit_take_bit_iff assms(3) simp flip: slot_local_low [OF assms(1)])
  moreover have "take_bit 41 (slot_bits w s) = slot_bits w s"
    by (simp add: slot_bits_def)
  ultimately show "slot_bits (update_slots g slots (update_slots h slots w)) s = slot_bits w s"
    using assms s by (simp add: slot_bits_slots)
qed (use assms in \<open>simp_all add: template_slots\<close>)

text \<open>The loop over the slots is such an update.\<close>

lemma store_load:
  assumes "k + 6 \<le> length w"
  shows "ia64_store (ia64_load w k) w k = w"
proof (rule nth_equalityI)
  fix a assume a: "a < length (ia64_store (ia64_load w k) w k)"
  then have in_w: "a < length w" by simp
  show "ia64_store (ia64_load w k) w k ! a = w ! a"
  proof (rule bit_word_eqI)
    fix m assume "m < LENGTH(8)"
    then have m: "m < 8" "8 * a + m < 8 * length w" using in_w by simp_all
    have "bundle_bit (ia64_store (ia64_load w k) w k) (8 * a + m) = bundle_bit w (8 * a + m)"
      by (subst bit_store [OF assms m(2)]) (auto simp: bit_load)
    then show "bit (ia64_store (ia64_load w k) w k ! a) m = bit (w ! a) m"
      using m(1) by (simp add: bundle_bit_def)
  qed
qed simp

lemma ia64_slot_update:
  assumes "s < 3" and "length w = 16"
  shows "ia64_slot pos 0 slots w s = (if bit slots s then slot_update (ia64_norm pos) w s else w)"
proof -
  let ?x = "ia64_load w (byte_pos s)" and ?r = "bit_res s"
  have "s = 0 \<or> s = 1 \<or> s = 2" using assms(1) by linarith
  then have k: "byte_pos s + 6 \<le> length w" using assms(2) by (auto simp: byte_pos_def)
  have join: "(?x AND (push_bit ?r 1 - 1)) OR push_bit ?r (drop_bit ?r ?x) = ?x"
  proof (rule bit_word_eqI)
    fix n assume "n < LENGTH(64)"
    then show "bit ((?x AND (push_bit ?r 1 - 1)) OR push_bit ?r (drop_bit ?r ?x)) n = bit ?x n"
      by (cases "n < ?r") (simp_all add: bit_or_iff bit_and_iff bit_push_bit_iff bit_low_mask bit_drop_bit_eq)
  qed
  have bit: "drop_bit s slots AND 1 = 0 \<longleftrightarrow> \<not> bit slots s"
    by (simp add: bit_iff_odd_drop_bit and_one_eq odd_iff_mod_2_eq_one)
  show ?thesis
  proof (cases "bit slots s \<and> \<not> ia_branch (drop_bit ?r ?x)")
    case True
    then have "slot_update (ia64_norm pos) w s = w"
      unfolding slot_update_def Let_def ia64_norm_def ia_branch_def
      by (simp only: if_False simp_thms join store_load [OF k])
    with True show ?thesis
      unfolding ia64_slot_def Let_def bit add_0 byte_pos_def [symmetric] bit_res_def [symmetric] ia_branch_def [symmetric]
      by simp
  next
    case False
    then show ?thesis
      unfolding ia64_slot_def slot_update_def Let_def bit add_0 byte_pos_def [symmetric] bit_res_def [symmetric]
        ia_branch_def [symmetric]
      by auto
  qed
qed

lemma ia64_step_slots:
  assumes "length w = 16"
  shows "ia64_step pos 0 w = update_slots (ia64_norm pos) (template w) w"
  using assms by (simp add: ia64_step_def update_slots_def three_slots ia64_slot_update template_def)

definition ia64_code :: "u32 \<Rightarrow> nat \<Rightarrow> u8 list \<Rightarrow> u8 list" where
  "ia64_code pos i w =
     update_slots (field_add ia_branch ia_target ia_retarget (drop_bit 4 (pos + word_of_nat i))) (template w) w"

lemma ia64_inverse:
  assumes "length w = 16" and "take_bit 4 (pos + word_of_nat i) = 0"
  shows "ia64_step (pos + word_of_nat i) 0 (ia64_code pos i w) = w"
proof -
  have "template (ia64_code pos i w) = template w"
    unfolding ia64_code_def by (rule template_cong) (simp add: template_slots assms ia_local)
  moreover have "ia64_norm (pos + word_of_nat i) = field_add ia_branch ia_target ia_retarget (- drop_bit 4 (pos + word_of_nat i))"
    using ia64_norm_field [OF assms(2)] by blast
  ultimately show ?thesis
    using assms by (simp add: ia64_step_slots ia64_code_def slots_inverse ia_local ia.add_minus)
qed


lemma ia64_load_window:
  assumes "length w = 16" and "i + 16 \<le> length buf" and "k + 6 \<le> 16"
  shows "ia64_load (splice buf i w) (i + k) = ia64_load w k"
proof -
  have "splice buf i w ! (i + k + j) = w ! (k + j)" if "j < 6" for j
    using nth_splice_window [OF assms(1,2), of "k + j"] assms(3) that by (simp add: add.assoc)
  then show ?thesis unfolding ia64_load_def by (intro foldl_cong refl) simp
qed

lemma ia64_store_window:
  assumes "length w = 16" and "i + 16 \<le> length buf" and "k + 6 \<le> 16"
  shows "ia64_store v (splice buf i w) (i + k) = splice buf i (ia64_store v w k)"
proof -
  have "foldl (\<lambda>buf j. buf[i + k + j := f j]) (splice buf i w) js = splice buf i (foldl (\<lambda>w j. w[k + j := f j]) w js)"
    if "length w = 16" "\<forall>j\<in>set js. j < 6" for f js w
    using that
  proof (induction js arbitrary: w)
    case (Cons j js)
    then show ?case
      using update_splice_window [OF Cons.prems(1) assms(2), of "k + j"] assms(3) by (simp add: add.assoc)
  qed simp
  then show ?thesis using assms(1) by (simp add: ia64_store_def)
qed

lemma ia64_slot_window:
  assumes "s < 3" and "length w = 16" and "i + 16 \<le> length buf"
  shows "ia64_slot pos i slots (splice buf i w) s = splice buf i (ia64_slot (pos + word_of_nat i) 0 slots w s)"
proof -
  have "s = 0 \<or> s = 1 \<or> s = 2" using assms(1) by linarith
  then have "(5 + 41 * s) div 8 + 6 \<le> 16" by auto
  note w = ia64_load_window [OF assms(2,3) this] ia64_store_window [OF assms(2,3) this]
  show ?thesis
    unfolding ia64_slot_def Let_def w add_0 by simp
qed

lemma length_ia64_slot [simp]: "length (ia64_slot pos i slots w s) = length w"
  by (simp add: ia64_slot_def Let_def)

lemma ia64_step_window:
  assumes "length w = 16" and "i + 16 \<le> length buf"
  shows "ia64_step pos i (splice buf i w) = splice buf i (ia64_step (pos + word_of_nat i) 0 w)"
proof -
  have "splice buf i w ! i = w ! 0"
    using nth_splice_window [OF assms, of 0] by simp
  then show ?thesis
    using assms by (simp add: ia64_step_def three_slots ia64_slot_window)
qed

lemma length_ia64_step [simp]: "length (ia64_step pos i w) = length w"
  by (simp add: ia64_step_def three_slots)

definition ia64_body :: "u32 \<Rightarrow> nat \<Rightarrow> u8 list \<Rightarrow> u8 list" where
  "ia64_body pos i buf = splice buf i (ia64_code pos i (window 16 i buf))"

interpretation ia64: block_codec 16 "\<lambda>i. ia64_step (push_bit 4 q + word_of_nat i) 0" "ia64_step (push_bit 4 q)"
  "ia64_code (push_bit 4 q)" "ia64_body (push_bit 4 q)" for q
proof (intro block_codec.intro block_codec_axioms.intro)
  show "block_filter 16 (\<lambda>i. ia64_step (push_bit 4 q + word_of_nat i) 0) (ia64_step (push_bit 4 q))"
  proof
    fix i and buf :: "u8 list" assume len: "i + 16 \<le> length buf"
    show "ia64_step (push_bit 4 q) i buf = splice buf i (ia64_step (push_bit 4 q + word_of_nat i) 0 (window 16 i buf))"
      using ia64_step_window [OF length_window [OF len] len, of "push_bit 4 q"] len by simp
  qed simp_all
  show "block_filter 16 (ia64_code (push_bit 4 q)) (ia64_body (push_bit 4 q))"
    by unfold_locales (simp_all add: ia64_body_def ia64_code_def)
next
  fix w :: "u8 list" and i :: nat assume w: "length w = 16" and i: "16 dvd i"
  have "take_bit 4 (push_bit 4 q + word_of_nat i) = (0 :: u32)" using i by (intro aligned_at) simp
  then show "ia64_step (push_bit 4 q + word_of_nat i) 0 (ia64_code (push_bit 4 q) i w) = w"
    by (rule ia64_inverse [OF w])
qed


subsection \<open>ARM-Thumb\<close>

text \<open>
  A BL instruction is two halfwords; the loop goes on by one halfword, and by two after an
  instruction it has converted. \<open>thumb_conv f\<close> is this scan on the list of bytes, with
  \<open>f\<close> the new target; \<open>thumb_done\<close> is where it stops.
\<close>

definition thumb_match :: "u8 \<Rightarrow> u8 \<Rightarrow> bool" where
  "thumb_match b d \<longleftrightarrow> b AND 0xF8 = 0xF0 \<and> d AND 0xF8 = 0xF8"

definition thumb_target :: "u8 \<Rightarrow> u8 \<Rightarrow> u8 \<Rightarrow> u8 \<Rightarrow> u32" where
  "thumb_target a b c d = push_bit 19 (ucast b AND 0x07) OR push_bit 11 (ucast a) OR push_bit 8 (ucast d AND 0x07) OR ucast c"

definition thumb_bytes :: "u32 \<Rightarrow> u8 list" where
  "thumb_bytes v = [ucast (drop_bit 11 v), ucast (0xF0 OR (drop_bit 19 v AND 0x07)), ucast v, ucast (0xF8 OR (drop_bit 8 v AND 0x07))]"

fun thumb_conv :: "(nat \<Rightarrow> u32 \<Rightarrow> u32) \<Rightarrow> nat \<Rightarrow> u8 list \<Rightarrow> u8 list" where
  "thumb_conv f i (a # b # c # d # xs) =
     (if thumb_match b d then thumb_bytes (f i (thumb_target a b c d)) @ thumb_conv f (i + 4) xs
      else a # b # thumb_conv f (i + 2) (c # d # xs))"
| "thumb_conv f i xs = xs"

fun thumb_done :: "u8 list \<Rightarrow> nat" where
  "thumb_done (a # b # c # d # xs) = (if thumb_match b d then 4 + thumb_done xs else 2 + thumb_done (c # d # xs))"
| "thumb_done xs = 0"

definition thumb_from :: "u32 \<Rightarrow> nat \<Rightarrow> u32 \<Rightarrow> u32" where
  "thumb_from pos i v = drop_bit 1 (push_bit 1 v - (pos + word_of_nat i + 4))"

lemma thumb_short: "length xs < 4 \<Longrightarrow> thumb_conv f i xs = xs \<and> thumb_done xs = 0"
  by (cases "(f, i, xs)" rule: thumb_conv.cases) simp_all

lemma armthumb_step_bytes:
  assumes "length pre = i"
  shows "armthumb_step pos i (pre @ a # b # c # d # xs) = pre @ thumb_bytes (thumb_from pos i (thumb_target a b c d)) @ xs"
proof -
  have n: "(pre @ a # b # c # d # xs) ! i = a" "(pre @ a # b # c # d # xs) ! (i + 1) = b"
      "(pre @ a # b # c # d # xs) ! (i + 2) = c" "(pre @ a # b # c # d # xs) ! (i + 3) = d"
    using assms by (simp_all add: nth_append)
  show ?thesis
    unfolding armthumb_step_def n Let_def thumb_target_def [symmetric] thumb_from_def [symmetric]
    using assms by (simp add: thumb_bytes_def list_update_append)
qed

lemma armthumb_loop_conv:
  assumes "length pre = i" and "buf = pre @ xs" and "length buf = n"
  shows "armthumb_loop pos n i buf = (i + thumb_done xs, pre @ thumb_conv (thumb_from pos) i xs)"
  using assms
proof (induction "thumb_from pos" i xs arbitrary: pre buf rule: thumb_conv.induct)
  case (1 i a b c d xs)
  have match: "armthumb_match buf i \<longleftrightarrow> thumb_match b d"
    using "1.prems" by (auto simp: armthumb_match_def thumb_match_def nth_append)
  have step: "armthumb_step pos i buf = pre @ thumb_bytes (thumb_from pos i (thumb_target a b c d)) @ xs"
    using "1.prems" by (simp add: armthumb_step_bytes)
  show ?case
  proof (cases "thumb_match b d")
    case True
    let ?pre = "pre @ thumb_bytes (thumb_from pos i (thumb_target a b c d))"
    have "armthumb_loop pos n (i + 4) (?pre @ xs) = (i + 4 + thumb_done xs, ?pre @ thumb_conv (thumb_from pos) (i + 4) xs)"
      using "1.prems" by (intro "1.hyps"(1) [OF True]) (simp_all add: thumb_bytes_def)
    then show ?thesis
      using True match step "1.prems" by (subst armthumb_loop.simps) (simp add: add.assoc numeral_eq_Suc)
  next
    case False
    have "armthumb_loop pos n (i + 2) buf = (i + 2 + thumb_done (c # d # xs), (pre @ [a, b]) @ thumb_conv (thumb_from pos) (i + 2) (c # d # xs))"
      using "1.prems" by (intro "1.hyps"(2) [OF False]) simp_all
    then show ?thesis
      using False match "1.prems" by (subst armthumb_loop.simps) simp
  qed
qed (subst armthumb_loop.simps, simp)+

lemma bcj_armthumb_conv: "bcj_armthumb pos buf (length buf) = (thumb_done buf, thumb_conv (thumb_from pos) 0 buf)"
  by (simp add: bcj_armthumb_def armthumb_loop_conv [of "[]" 0 buf buf])

lemma thumb_done_bound: "thumb_done xs \<le> length xs \<and> length xs < thumb_done xs + 4"
  by (induction xs rule: thumb_done.induct) auto

lemma length_thumb_conv [simp]: "length (thumb_conv f i xs) = length xs"
  by (induction f i xs rule: thumb_conv.induct) (simp_all add: thumb_bytes_def)

text \<open>Conversion preserves the bits that the scan looks at, and inverse targets undo it.\<close>

lemma thumb_bytes_match: "thumb_bytes v = [a, b, c, d] \<Longrightarrow> thumb_match b d"
  by (auto simp: thumb_bytes_def thumb_match_def bits8 bit_simps)

lemma thumb_target_bytes: "thumb_bytes v = [a, b, c, d] \<Longrightarrow> thumb_target a b c d = take_bit 22 v"
  by (auto simp: thumb_bytes_def thumb_target_def bits32 bit_simps bit_u8_high)

lemma thumb_bytes_target: "thumb_match b d \<Longrightarrow> thumb_bytes (thumb_target a b c d) = [a, b, c, d]"
  by (simp add: thumb_bytes_def thumb_match_def thumb_target_def bits8 bit_simps bit_u8_high)

lemma thumb_bytes_take: "thumb_bytes (take_bit 22 v) = thumb_bytes v"
  by (simp add: thumb_bytes_def bits8 bit_simps)

lemma thumb_target_take: "take_bit 22 (thumb_target a b c d) = thumb_target a b c d"
  by (simp add: thumb_target_def bits32 bit_simps bit_u8_high)

definition thumb_to :: "u32 \<Rightarrow> nat \<Rightarrow> u32 \<Rightarrow> u32" where
  "thumb_to pos i v = v + drop_bit 1 (pos + word_of_nat i + 4)"

lemma thumb_from_to:
  assumes "take_bit 1 (pos + word_of_nat i) = (0 :: u32)"
  shows "take_bit 22 (thumb_from pos i (take_bit 22 (thumb_to pos i v))) = take_bit 22 v"
proof -
  let ?at = "pos + word_of_nat i + 4"
  have "take_bit 1 ?at = take_bit 1 (take_bit 1 (pos + word_of_nat i) + 4)" by (simp only: take_bit_add_left)
  then have "take_bit 1 ?at = 0" using assms by simp
  then have "take_bit 22 (thumb_from pos i w) = take_bit 22 (w - drop_bit 1 ?at)" for w
    unfolding thumb_from_def by (intro scaled_diff) simp_all
  then show ?thesis
    using take_bit_add_left [of 22 "v + drop_bit 1 ?at" "- drop_bit 1 ?at"] by (simp add: thumb_to_def)
qed

lemma thumb_bytes_cases:
  obtains a b c d where "thumb_bytes v = [a, b, c, d]" and "thumb_match b d"
  using thumb_bytes_match [of v] by (simp add: thumb_bytes_def)

text \<open>The top bits of the second byte, which decide about a match two bytes before.\<close>

lemma thumb_conv_keeps:
  "\<exists>c' d' ys. thumb_conv f i (c # d # xs) = c' # d' # ys \<and> d' AND 0xF8 = d AND 0xF8"
proof (cases xs)
  case (Cons e ys)
  show ?thesis
  proof (cases ys)
    case (Cons e' zs)
    have xs: "xs = e # e' # zs" using \<open>xs = e # ys\<close> Cons by simp
    show ?thesis
    proof (cases "thumb_match d e'")
      case True
      obtain a' b' c' d' where "thumb_bytes (f i (thumb_target c d e e')) = [a', b', c', d']" "thumb_match b' d'"
        by (rule thumb_bytes_cases)
      with True show ?thesis by (simp add: xs thumb_match_def)
    qed (simp add: xs)
  qed (simp add: \<open>xs = e # ys\<close>)
qed simp

lemma thumb_inverse:
  assumes inv: "\<And>j v. 2 dvd j \<Longrightarrow> take_bit 22 (dec j (take_bit 22 (enc j v))) = take_bit 22 v" and "2 dvd i"
  shows "thumb_conv dec i (thumb_conv enc i xs) = xs \<and> thumb_done (thumb_conv enc i xs) = thumb_done xs"
  using assms
proof (induction "enc" i xs rule: thumb_conv.induct)
  case (1 enc i a b c d xs)
  note inv = "1.prems"(1)
  show ?case
  proof (cases "thumb_match b d")
    case True
    let ?v = "thumb_target a b c d"
    obtain a' b' c' d' where out: "thumb_bytes (enc i ?v) = [a', b', c', d']" "thumb_match b' d'"
      by (rule thumb_bytes_cases)
    have "thumb_bytes (dec i (take_bit 22 (enc i ?v))) = [a, b, c, d]"
      using inv [OF "1.prems"(2)] thumb_bytes_target [OF True] by (metis thumb_bytes_take thumb_target_take)
    then show ?thesis
      using "1.IH"(1) [OF True] "1.prems" True out by (simp add: thumb_target_bytes [OF out(1)])
  next
    case False
    obtain c' d' ys where next_two: "thumb_conv enc (i + 2) (c # d # xs) = c' # d' # ys" "d' AND 0xF8 = d AND 0xF8"
      using thumb_conv_keeps by blast
    then have "\<not> thumb_match b d'" using False by (simp add: thumb_match_def)
    then show ?thesis
      using "1.IH"(2) [OF False] "1.prems" False next_two by simp
  qed
qed simp_all

lemma thumb_append:
  "thumb_conv f i (xs @ ys) = take (thumb_done xs) (thumb_conv f i xs) @ thumb_conv f (i + thumb_done xs) (drop (thumb_done xs) xs @ ys)"
proof (induction f i xs rule: thumb_conv.induct)
  case (1 f i a b c d xs)
  then show ?case
    using thumb_bytes_cases [of "f i (thumb_target a b c d)"]
    by (cases "thumb_match b d") (auto simp: add.assoc thumb_bytes_def numeral_eq_Suc)
qed simp_all

lemma thumb_tail: "drop (thumb_done xs) (thumb_conv f i xs) = drop (thumb_done xs) xs"
  by (induction f i xs rule: thumb_conv.induct) (auto simp: thumb_bytes_def numeral_eq_Suc)


subsection \<open>x86\<close>

text \<open>
  An E8 or E9 byte (CALL, JMP) is converted when the last byte of its operand is 00 or FF.
  The mask records which of the last three bytes were such opcodes that were not converted,
  bit \<open>t - 1\<close> for \<open>t\<close> bytes ago. A conversion overlaps the operands of those; it is
  allowed only if there is at most one, and if the last byte of that operand is not 00 or
  FF, before and after.

  \<open>x86_scan\<close> is the loop on the list of bytes that remain: \<open>at\<close> is the address of the
  first, \<open>d\<close> its distance from the last opcode. It returns how many bytes it has finished
  with, the last \<open>d\<close> and mask, and the bytes.
\<close>

definition x86_mask :: "nat \<Rightarrow> u32 \<Rightarrow> u32" where
  "x86_mask d m = (if d > 3 then 0 else push_bit (d - 1) m AND 7)"

definition x86_avoid :: "u32 \<Rightarrow> u8 list \<Rightarrow> bool" where
  "x86_avoid pm xs \<longleftrightarrow> pm \<noteq> 0 \<and> (\<not> mask_to_allowed_status ! unat pm \<or> bcj_x86_test_msbyte (xs ! (4 - mask_to_bit_num ! unat pm)))"

definition x86_shift :: "u32 \<Rightarrow> nat" where
  "x86_shift pm = 24 - mask_to_bit_num ! unat pm * 8"

definition x86_target :: "(u32 \<Rightarrow> u32 \<Rightarrow> u32) \<Rightarrow> u32 \<Rightarrow> u32 \<Rightarrow> u32 \<Rightarrow> u32" where
  "x86_target f at pm src =
     (let dest = f src at
      in if pm = 0 \<or> \<not> bcj_x86_test_msbyte (ucast (drop_bit (x86_shift pm) dest)) then dest
         else f (dest XOR mask (x86_shift pm + 8)) at)"

definition x86_emit :: "u8 list \<Rightarrow> nat \<times> nat \<times> u32 \<times> u8 list \<Rightarrow> nat \<times> nat \<times> u32 \<times> u8 list" where
  "x86_emit w r = (case r of (n, d, m, ys) \<Rightarrow> (length w + n, d, m, w @ ys))"

function x86_scan :: "(u32 \<Rightarrow> u32 \<Rightarrow> u32) \<Rightarrow> u32 \<Rightarrow> nat \<Rightarrow> u32 \<Rightarrow> u8 list \<Rightarrow> nat \<times> nat \<times> u32 \<times> u8 list" where
  "x86_scan f at d m xs =
     (if length xs \<le> 4 then (0, d, m, xs)
      else if hd xs AND 0xFE \<noteq> 0xE8 then x86_emit [hd xs] (x86_scan f (at + 1) (d + 1) m (tl xs))
      else
        let pm = x86_mask d m
        in if x86_avoid pm xs \<or> \<not> bcj_x86_test_msbyte (xs ! 4)
           then x86_emit [hd xs] (x86_scan f (at + 1) 1 (push_bit 1 pm OR 1) (tl xs))
           else x86_emit (take 5 (put_unaligned_le32 (x86_dest (x86_target f (at + 5) pm (get_unaligned_le32 xs 1))) xs 1))
                  (x86_scan f (at + 5) 5 pm (drop 5 xs)))"
  by auto
termination by (relation "measure (\<lambda>(f, at, d, m, xs). length xs)") auto

declare x86_scan.simps [simp del]

lemma x86_scan_end: "length xs \<le> 4 \<Longrightarrow> x86_scan f at d m xs = (0, d, m, xs)"
  by (simp add: x86_scan.simps)

lemma x86_mask_cases: "x86_mask d m \<in> {0, 1, 2, 3, 4, 5, 6, 7}"
proof -
  have "unat (x AND 7 :: u32) < 8" for x
    using and_mask_less' [of 3 x] by (simp add: mask_eq_exp_minus_1 word_less_nat_alt)
  then have "unat (x86_mask d m) < 8" by (simp add: x86_mask_def)
  then show ?thesis by (simp add: word_unat_eq_iff) presburger
qed

text \<open>The loop of the code turns at most twice: the second time, the tested byte is the
  complement of the byte of the source.\<close>

lemma test_msbyte_not: "bcj_x86_test_msbyte (NOT b) = bcj_x86_test_msbyte b"
  by (auto simp: bcj_x86_test_msbyte_def bits8 bit_simps)

lemma take_bit_xor_mask: "take_bit n (x XOR mask n) = take_bit n (NOT x)" for x :: u32
  by (rule bit_word_eqI) (auto simp: bit_simps)

definition byte_at :: "nat \<Rightarrow> u32 \<Rightarrow> u8" where
  "byte_at k x = ucast (drop_bit k x)"

lemma byte_at_cong:
  assumes "take_bit n x = take_bit n y" and "k + 8 \<le> n"
  shows "byte_at k x = byte_at k y"
proof (rule bit_word_eqI)
  fix j assume "j < LENGTH(8)"
  then have j: "j < 8" "k + j < n" using assms(2) by simp_all
  have "bit (take_bit n x) (k + j) = bit (take_bit n y) (k + j)" by (simp only: assms(1))
  then have "bit x (k + j) = bit y (k + j)" using j(2) by (simp only: bit_take_bit_iff simp_thms)
  then show "bit (byte_at k x) j = bit (byte_at k y) j"
    using j(1) by (simp add: byte_at_def bit_ucast_iff bit_drop_bit_eq)
qed

lemma byte_at_not: "k + 8 \<le> 32 \<Longrightarrow> byte_at k (NOT x) = NOT (byte_at k x)"
  by (rule bit_word_eqI) (auto simp: byte_at_def bit_simps)

lemma byte_at_xor: "k + 8 \<le> 32 \<Longrightarrow> byte_at k (x XOR mask (k + 8)) = NOT (byte_at k x)"
  using byte_at_cong [OF take_bit_xor_mask, of k "k + 8" x] by (simp add: byte_at_not)

text \<open>The second round: what is left is the complement of the source.\<close>

lemma complement_ring:
  "- (a + b) - 1 + b = - a - 1" "- (a - b) - 1 + - b = - a - 1" for a b :: "'a::comm_ring_1"
  by (simp_all add: algebra_simps)

lemma take_bit_back:
  "take_bit n (((x + at) XOR mask n) + at) = take_bit n (NOT x)"
  "take_bit n (((x - at) XOR mask n) - at) = take_bit n (NOT x)" for x at :: u32
proof -
  have undo: "NOT (x + at) + at = NOT x" "NOT (x - at) + - at = NOT x"
    unfolding not_eq_complement by (rule complement_ring)+
  have flip: "take_bit n ((y XOR mask n) + c) = take_bit n (NOT y + c)" for y c :: u32
  proof -
    have "take_bit n (take_bit n (y XOR mask n) + c) = take_bit n (take_bit n (NOT y) + c)"
      by (simp only: take_bit_xor_mask)
    then show ?thesis by (simp only: take_bit_add_left)
  qed
  show "take_bit n (((x + at) XOR mask n) + at) = take_bit n (NOT x)"
    by (simp only: flip undo)
  show "take_bit n (((x - at) XOR mask n) - at) = take_bit n (NOT x)"
    using flip [of "x - at" "- at", unfolded undo(2)] by (simp only: add_uminus_conv_diff)
qed

lemma x86_target_alt:
  "x86_target f at pm src =
     (if pm = 0 \<or> \<not> bcj_x86_test_msbyte (byte_at (x86_shift pm) (f src at)) then f src at
      else f (f src at XOR mask (x86_shift pm + 8)) at)"
  by (simp add: x86_target_def byte_at_def Let_def)

lemma x86_shift_le: "x86_shift pm + 8 \<le> 32" "pm \<in> {1, 2, 3, 4, 5, 6, 7} \<Longrightarrow> x86_shift pm + 8 \<le> 24"
  by (auto simp: x86_shift_def mask_to_bit_num_def)

lemma x86_target_clear:
  assumes "pm \<noteq> 0" and "\<not> bcj_x86_test_msbyte (byte_at (x86_shift pm) src)"
  shows "\<not> bcj_x86_test_msbyte (byte_at (x86_shift pm) (x86_target (+) at pm src))"
    and "\<not> bcj_x86_test_msbyte (byte_at (x86_shift pm) (x86_target (-) at pm src))"
proof -
  let ?k = "x86_shift pm"
  have second: "\<not> bcj_x86_test_msbyte (byte_at ?k x)" if "take_bit (?k + 8) x = take_bit (?k + 8) (NOT src)" for x
    using byte_at_cong [OF that] assms(2) by (simp add: byte_at_not x86_shift_le test_msbyte_not)
  show "\<not> bcj_x86_test_msbyte (byte_at ?k (x86_target (+) at pm src))"
      and "\<not> bcj_x86_test_msbyte (byte_at ?k (x86_target (-) at pm src))"
    using assms(1) second [OF take_bit_back(1)] second [OF take_bit_back(2)] by (auto simp: x86_target_alt)
qed

lemma x86_convert_target:
  assumes "pm \<noteq> 0 \<Longrightarrow> \<not> bcj_x86_test_msbyte (byte_at (x86_shift pm) src)" and pm: "pm \<in> {0, 1, 2, 3, 4, 5, 6, 7}"
  shows "x86_convert at pm src = Some (x86_target (-) at pm src)"
proof -
  let ?k = "x86_shift pm"
  have k: "32 - mask_to_bit_num ! unat pm * 8 = ?k + 8" if "pm \<noteq> 0"
    using pm that by (auto simp: x86_shift_def mask_to_bit_num_def)
  have ones: "push_bit (?k + 8) 1 - 1 = (mask (?k + 8) :: u32)"
    by (simp add: mask_eq_exp_minus_1)
  note unfold = x86_convert.simps [of at pm, unfolded Let_def x86_shift_def [symmetric] byte_at_def [symmetric]]
  show ?thesis
  proof (cases "pm = 0 \<or> \<not> bcj_x86_test_msbyte (byte_at ?k (src - at))")
    case True
    then show ?thesis by (subst unfold) (auto simp: x86_target_alt)
  next
    case False
    let ?src = "(src - at) XOR mask (?k + 8)"
    have "\<not> bcj_x86_test_msbyte (byte_at ?k (?src - at))"
      using byte_at_cong [OF take_bit_back(2), of ?k "?k + 8" src at] False assms
      by (simp add: byte_at_not x86_shift_le test_msbyte_not)
    then have "x86_convert at pm ?src = Some (?src - at)"
      by (subst unfold) (use False in simp)
    with False show ?thesis
      by (subst unfold) (simp add: x86_target_alt k ones [simplified])
  qed
qed

lemma x86_target_inverse:
  assumes "pm \<noteq> 0 \<Longrightarrow> \<not> bcj_x86_test_msbyte (byte_at (x86_shift pm) src)"
  shows "x86_target (-) at pm (x86_target (+) at pm src) = src"
proof (cases "pm = 0 \<or> \<not> bcj_x86_test_msbyte (byte_at (x86_shift pm) (src + at))")
  case False
  then have "x86_target (+) at pm src - at = (src + at) XOR mask (x86_shift pm + 8)"
    by (simp add: x86_target_alt)
  then show ?thesis
    using False unfolding x86_target_alt [of "(-)"]
    by (simp add: byte_at_xor x86_shift_le test_msbyte_not xor.assoc)
qed (use assms in \<open>auto simp: x86_target_alt\<close>)


definition x86_keep :: "u32 \<Rightarrow> u8 list \<Rightarrow> bool" where
  \<comment> \<open>an opcode that is not converted\<close>
  "x86_keep pm xs \<longleftrightarrow> x86_avoid pm xs \<or> \<not> bcj_x86_test_msbyte (xs ! 4)"

definition x86_code5 :: "(u32 \<Rightarrow> u32 \<Rightarrow> u32) \<Rightarrow> u32 \<Rightarrow> u32 \<Rightarrow> u8 list \<Rightarrow> u8 list" where
  "x86_code5 f at pm xs = take 5 (put_unaligned_le32 (x86_dest (x86_target f (at + 5) pm (get_unaligned_le32 xs 1))) xs 1)"

lemma length_code5 [simp]: "4 < length xs \<Longrightarrow> length (x86_code5 f at pm xs) = 5"
  by (simp add: x86_code5_def)

lemma x86_scan_other:
  "4 < length xs \<Longrightarrow> hd xs AND 0xFE \<noteq> 0xE8 \<Longrightarrow> x86_scan f at d m xs = x86_emit [hd xs] (x86_scan f (at + 1) (d + 1) m (tl xs))"
  by (subst x86_scan.simps) simp

lemma x86_scan_keep:
  "4 < length xs \<Longrightarrow> hd xs AND 0xFE = 0xE8 \<Longrightarrow> x86_keep (x86_mask d m) xs \<Longrightarrow>
   x86_scan f at d m xs = x86_emit [hd xs] (x86_scan f (at + 1) 1 (push_bit 1 (x86_mask d m) OR 1) (tl xs))"
  by (subst x86_scan.simps) (simp add: x86_keep_def Let_def)

lemma x86_scan_conv:
  "4 < length xs \<Longrightarrow> hd xs AND 0xFE = 0xE8 \<Longrightarrow> \<not> x86_keep (x86_mask d m) xs \<Longrightarrow>
   x86_scan f at d m xs = x86_emit (x86_code5 f at (x86_mask d m) xs) (x86_scan f (at + 5) 5 (x86_mask d m) (drop 5 xs))"
  by (subst x86_scan.simps) (simp add: x86_keep_def x86_code5_def Let_def)

lemma x86_induct [case_names short other keep conv]:
  assumes "\<And>at d m xs. length xs \<le> 4 \<Longrightarrow> P at d m xs"
    and "\<And>at d m xs. 4 < length xs \<Longrightarrow> hd xs AND 0xFE \<noteq> 0xE8 \<Longrightarrow> P (at + 1) (d + 1) m (tl xs) \<Longrightarrow> P at d m xs"
    and "\<And>at d m xs. 4 < length xs \<Longrightarrow> hd xs AND 0xFE = 0xE8 \<Longrightarrow> x86_keep (x86_mask d m) xs \<Longrightarrow>
      P (at + 1) 1 (push_bit 1 (x86_mask d m) OR 1) (tl xs) \<Longrightarrow> P at d m xs"
    and "\<And>at d m xs. 4 < length xs \<Longrightarrow> hd xs AND 0xFE = 0xE8 \<Longrightarrow> \<not> x86_keep (x86_mask d m) xs \<Longrightarrow>
      P (at + 5) 5 (x86_mask d m) (drop 5 xs) \<Longrightarrow> P at d m xs"
  shows "P at d m (xs :: u8 list)"
proof (induction "length xs" arbitrary: at d m xs rule: less_induct)
  case less
  consider "length xs \<le> 4" | "4 < length xs" "hd xs AND 0xFE \<noteq> 0xE8"
    | "4 < length xs" "hd xs AND 0xFE = 0xE8" "x86_keep (x86_mask d m) xs"
    | "4 < length xs" "hd xs AND 0xFE = 0xE8" "\<not> x86_keep (x86_mask d m) xs" by linarith
  then show ?case
  proof cases
    case 1
    then show ?thesis by (rule assms(1))
  next
    case 2
    then show ?thesis by (rule assms(2)) (rule less, use 2 in simp)
  next
    case 3
    then show ?thesis by (rule assms(3)) (rule less, use 3 in simp)
  next
    case 4
    then show ?thesis by (rule assms(4)) (rule less, use 4 in simp)
  qed
qed

lemma x86_emit_cases: "(x86_emit w r = (k, d', m', ys)) = (\<exists>k1 ys1. r = (k1, d', m', ys1) \<and> k = length w + k1 \<and> ys = w @ ys1)"
  by (cases r) (auto simp: x86_emit_def)

lemma x86_scan_bound:
  "x86_scan f at d m xs = (k, d', m', ys) \<Longrightarrow> k \<le> length xs \<and> length xs \<le> k + 4 \<and> length ys = length xs \<and> drop k ys = drop k xs"
proof (induction at d m xs arbitrary: k ys rule: x86_induct)
  case (short at d m xs)
  then show ?case by (auto simp: x86_scan_end)
next
  case (other at d m xs)
  from other.prems obtain k1 ys1 where "x86_scan f (at + 1) (d + 1) m (tl xs) = (k1, d', m', ys1)"
      "k = length [hd xs] + k1" "ys = [hd xs] @ ys1"
    by (simp only: x86_scan_other [OF other.hyps(1,2)] x86_emit_cases) blast
  with other.IH [OF this(1)] other.hyps(1) show ?case by (cases xs) simp_all
next
  case (keep at d m xs)
  from keep.prems obtain k1 ys1 where "x86_scan f (at + 1) 1 (push_bit 1 (x86_mask d m) OR 1) (tl xs) = (k1, d', m', ys1)"
      "k = length [hd xs] + k1" "ys = [hd xs] @ ys1"
    by (simp only: x86_scan_keep [OF keep.hyps(1,2,3)] x86_emit_cases) blast
  with keep.IH [OF this(1)] keep.hyps(1) show ?case by (cases xs) simp_all
next
  case (conv at d m xs)
  from conv.prems conv.hyps obtain k1 ys1 where r: "x86_scan f (at + 5) 5 (x86_mask d m) (drop 5 xs) = (k1, d', m', ys1)"
      "k = 5 + k1" "ys = x86_code5 f at (x86_mask d m) xs @ ys1"
    by (auto simp: x86_scan_conv x86_emit_cases)
  have "drop (5 + k1) xs = drop k1 (drop 5 xs)" by (simp add: add.commute)
  with conv.IH [OF r(1)] conv.hyps r(2,3) show ?case by simp linarith
qed

text \<open>The loop of the code is the scan.\<close>

definition x86_dist :: "x86_vars \<Rightarrow> nat \<Rightarrow> bool" where
  "x86_dist v d \<longleftrightarrow> x_prev_pos v = 2 ^ 64 - 1 \<and> d = x_i v + 1 \<or> x_prev_pos v < x_i v \<and> d = x_i v - x_prev_pos v"

lemma x86_dist_sub: "x86_dist v d \<Longrightarrow> x_i v < 2 ^ 63 \<Longrightarrow> sz_sub (x_i v) (x_prev_pos v) = d"
  by (auto simp: x86_dist_def sz_sub_def)

lemma bit_num_le: "pm \<in> {0, 1, 2, 3, 4, 5, 6, 7} \<Longrightarrow> mask_to_bit_num ! unat (pm :: u32) \<le> 3"
  by (auto simp: mask_to_bit_num_def)

lemma bit_num_pos: "pm \<in> {0, 1, 2, 3, 4, 5, 6, 7} \<Longrightarrow> pm \<noteq> (0 :: u32) \<Longrightarrow> 1 \<le> mask_to_bit_num ! unat pm"
  by (auto simp: mask_to_bit_num_def)

lemma x86_skip_avoid:
  assumes "x_buf v = pre @ xs" and "length pre = x_i v"
  shows "x86_skip v (x86_mask d m) d \<longleftrightarrow> x86_avoid (x86_mask d m) xs"
proof -
  let ?n = "mask_to_bit_num ! unat (x86_mask d m)"
  have "?n \<le> 3" by (rule bit_num_le [OF x86_mask_cases])
  then have "x_i v + 4 - ?n = length pre + (4 - ?n)" using assms(2) by simp
  then have "x_buf v ! (x_i v + 4 - ?n) = xs ! (4 - ?n)"
    by (simp only: assms(1) nth_append_length_plus)
  moreover have "d \<le> 3" if "x86_mask d m \<noteq> 0" using that by (auto simp: x86_mask_def split: if_splits)
  ultimately show ?thesis by (auto simp: x86_skip_def x86_avoid_def)
qed

lemma get_append: "length pre = i \<Longrightarrow> get_unaligned_le32 (pre @ xs) (i + k) = get_unaligned_le32 xs k"
  by (simp add: get_unaligned_le32_def nth_append)

lemma put_append: "length pre = i \<Longrightarrow> put_unaligned_le32 v (pre @ xs) (i + k) = pre @ put_unaligned_le32 v xs k"
  by (simp add: put_unaligned_le32_def list_update_append)

lemma x86_avoid_byte:
  assumes "\<not> x86_avoid pm xs" and "pm \<noteq> 0" and "pm \<in> {0, 1, 2, 3, 4, 5, 6, 7}" and "4 < length xs"
  shows "\<not> bcj_x86_test_msbyte (byte_at (x86_shift pm) (get_unaligned_le32 xs 1))"
proof -
  have "mask_to_allowed_status ! unat pm" and test: "\<not> bcj_x86_test_msbyte (xs ! (4 - mask_to_bit_num ! unat pm))"
    using assms(1,2) by (auto simp: x86_avoid_def)
  then have "pm \<in> {1, 2, 4}" using assms(2,3) by (auto simp: mask_to_allowed_status_def)
  moreover have "byte_at 0 (get_unaligned_le32 xs 1) = xs ! 1" "byte_at 8 (get_unaligned_le32 xs 1) = xs ! 2"
      "byte_at 16 (get_unaligned_le32 xs 1) = xs ! 3"
    by (simp_all add: byte_at_def get_unaligned_le32_def bits8 bit_simps bit_u8_high numeral_2_eq_2 numeral_3_eq_3)
  ultimately show ?thesis
    using test by (auto simp: x86_shift_def mask_to_bit_num_def)
qed

lemma x86_step_scan:
  assumes buf: "x_buf v = pre @ xs" "length pre = x_i v" and d: "x86_dist v d" "x_i v < 2 ^ 63" and len: "4 < length xs"
  defines "pm \<equiv> x86_mask d (x_prev_mask v)"
  shows "x86_step pos v = Some
    (if hd xs AND 0xFE \<noteq> 0xE8 then v
     else if x86_avoid pm xs \<or> \<not> bcj_x86_test_msbyte (xs ! 4)
       then v\<lparr>x_prev_pos := x_i v, x_prev_mask := push_bit 1 pm OR 1\<rparr>
     else v\<lparr>x_prev_pos := x_i v, x_prev_mask := pm, x_i := x_i v + 4,
       x_buf := pre @ put_unaligned_le32 (x86_dest (x86_target (-) (pos + word_of_nat (x_i v) + 5) pm (get_unaligned_le32 xs 1))) xs 1\<rparr>)"
proof -
  have sub: "sz_sub (x_i v) (x_prev_pos v) = d" by (rule x86_dist_sub [OF d])
  have pm: "(if d > 3 then 0 else push_bit (d - 1) (x_prev_mask v) AND 7) = pm"
    by (simp add: pm_def x86_mask_def)
  have n: "x_buf v ! x_i v = hd xs" "x_buf v ! (x_i v + 4) = xs ! 4"
    using buf len by (cases xs, simp_all add: nth_append)
  have convert: "x86_convert at pm (get_unaligned_le32 xs 1) = Some (x86_target (-) at pm (get_unaligned_le32 xs 1))"
    if "\<not> x86_avoid pm xs" for at
    using x86_mask_cases [of d "x_prev_mask v", folded pm_def] x86_avoid_byte [OF that _ _ len] 
    by (intro x86_convert_target) auto
  note skip = x86_skip_avoid [OF buf, of d "x_prev_mask v", folded pm_def]
  have mem: "get_unaligned_le32 (x_buf v) (x_i v + 1) = get_unaligned_le32 xs 1"
      "put_unaligned_le32 w (x_buf v) (x_i v + 1) = pre @ put_unaligned_le32 w xs 1" for w
    unfolding buf(1) using get_append [OF buf(2), of xs 1] put_append [OF buf(2), of w xs 1] by simp_all
  show ?thesis
    unfolding x86_step_def sub Let_def pm n skip
    by (simp add: n mem convert del: One_nat_def)
qed

lemma x86_loop_scan:
  assumes "x_buf v = pre @ xs" and "length pre = x_i v" and "x86_dist v d" and "length (x_buf v) = n" and "4 < n" and "n < 2 ^ 63"
  shows "\<exists>k d' m' ys v'. x86_scan (-) (pos + word_of_nat (x_i v)) d (x_prev_mask v) xs = (k, d', m', ys) \<and>
    x86_loop pos (n - 4) v = Some v' \<and> x_i v' = x_i v + k \<and> x86_dist v' d' \<and> x_prev_mask v' = m' \<and> x_buf v' = pre @ ys"
  using assms
proof (induction "length xs" arbitrary: xs pre v d rule: less_induct)
  case less
  note buf = less.prems(1,2) and len = less.prems(4,5,6)
  let ?pm = "x86_mask d (x_prev_mask v)"
  show ?case
  proof (cases "4 < length xs")
    case False
    then have "\<not> x_i v < n - 4" using buf len by auto
    then have "x86_loop pos (n - 4) v = Some v" by (subst x86_loop.simps) simp
    with False less.prems show ?thesis by (simp add: x86_scan_end)
  next
    case True
    then have i: "x_i v < n - 4" "x_i v < 2 ^ 63" using buf len by auto
    note step = x86_step_scan [OF buf less.prems(3) i(2) True, of pos]
    have go: "\<exists>k d' m' ys v'. x86_emit w (x86_scan (-) (pos + word_of_nat (x_i v + length w)) d1 (x_prev_mask v1) zs) = (k, d', m', ys) \<and>
        x86_loop pos (n - 4) v = Some v' \<and> x_i v' = x_i v + k \<and> x86_dist v' d' \<and> x_prev_mask v' = m' \<and> x_buf v' = pre @ ys"
      if "x86_step pos v = Some v1" "x_buf v1 = pre @ w @ zs" "x_i v1 + 1 = x_i v + length w" "w \<noteq> []"
        "length w + length zs = length xs" "x86_dist (v1\<lparr>x_i := x_i v1 + 1\<rparr>) d1" for w zs v1 d1
    proof -
      let ?v2 = "v1\<lparr>x_i := x_i v1 + 1\<rparr>"
      have shorter: "length zs < length xs" using that(4,5) by (cases w) auto
      have i2: "x_i ?v2 = x_i v + length w" using that(3) by simp
      have "\<exists>k d' m' ys v'. x86_scan (-) (pos + word_of_nat (x_i ?v2)) d1 (x_prev_mask ?v2) zs = (k, d', m', ys) \<and>
          x86_loop pos (n - 4) ?v2 = Some v' \<and> x_i v' = x_i ?v2 + k \<and> x86_dist v' d' \<and> x_prev_mask v' = m' \<and> x_buf v' = (pre @ w) @ ys"
        using that buf len shorter by (intro less.hyps) auto
      from this [unfolded i2] obtain k d' m' ys v' where
          "x86_scan (-) (pos + word_of_nat (x_i v + length w)) d1 (x_prev_mask ?v2) zs = (k, d', m', ys)"
          "x86_loop pos (n - 4) ?v2 = Some v'" "x_i v' = x_i v + length w + k" "x86_dist v' d'" "x_prev_mask v' = m'"
          "x_buf v' = (pre @ w) @ ys" by blast
      moreover have "x86_loop pos (n - 4) v = x86_loop pos (n - 4) ?v2"
        using i(1) that(1) by (subst x86_loop.simps) simp
      ultimately show ?thesis by (simp add: x86_emit_def del: of_nat_add)
    qed
    obtain x zs where xs: "xs = x # zs" using True by (cases xs) auto
    show ?thesis
    proof (cases "hd xs AND 0xFE \<noteq> 0xE8")
      case other: True
      have "x86_dist (v\<lparr>x_i := x_i v + 1\<rparr>) (d + 1)"
        using less.prems(3) by (auto simp: x86_dist_def)
      moreover have "x86_step pos v = Some v" using step other by (simp only: if_True simp_thms)
      ultimately show ?thesis
        using go [of v "[x]" zs "d + 1"] buf True other
        by (simp add: x86_scan_other xs ac_simps del: One_nat_def)
    next
      case opcode: False
      show ?thesis
      proof (cases "x86_keep ?pm xs")
        case keep: True
        let ?v1 = "v\<lparr>x_prev_pos := x_i v, x_prev_mask := push_bit 1 ?pm OR 1\<rparr>"
        have "x86_step pos v = Some ?v1" using step opcode keep by (simp only: x86_keep_def if_False if_True simp_thms)
        moreover have "x86_dist (?v1\<lparr>x_i := x_i v + 1\<rparr>) 1" by (simp add: x86_dist_def)
        ultimately show ?thesis
          using go [of ?v1 "[x]" zs 1] buf True opcode keep
          by (simp add: x86_scan_keep xs ac_simps del: One_nat_def)
      next
        case conv: False
        let ?at = "pos + word_of_nat (x_i v)"
        let ?ys = "put_unaligned_le32 (x86_dest (x86_target (-) (?at + 5) ?pm (get_unaligned_le32 xs 1))) xs 1"
        let ?v1 = "v\<lparr>x_prev_pos := x_i v, x_prev_mask := ?pm, x_i := x_i v + 4, x_buf := pre @ ?ys\<rparr>"
        have "x86_step pos v = Some ?v1" using step opcode conv by (simp only: x86_keep_def if_False if_True simp_thms)
        moreover have "drop 5 ?ys = drop 5 xs" by (simp add: put_unaligned_le32_def)
        then have "?ys = x86_code5 (-) ?at ?pm xs @ drop 5 xs"
          by (metis append_take_drop_id x86_code5_def)
        moreover have "x86_dist (?v1\<lparr>x_i := x_i v + 5\<rparr>) 5" by (simp add: x86_dist_def)
        moreover have five: "length (x86_code5 (-) ?at ?pm xs) = 5" using True by simp
        moreover have "x86_code5 (-) ?at ?pm xs \<noteq> []" using five by force
        ultimately show ?thesis
          using go [of ?v1 "x86_code5 (-) ?at ?pm xs" "drop 5 xs" 5] buf True opcode conv
          by (simp add: x86_scan_conv ac_simps del: One_nat_def)
      qed
    qed
  qed
qed

definition x86_carry :: "nat \<Rightarrow> u32 \<Rightarrow> u32" where
  \<comment> \<open>the mask that is kept for the next call\<close>
  "x86_carry d m = (if d > 3 then 0 else push_bit (d - 1) m)"

theorem bcj_x86_scan:
  assumes "length buf < 2 ^ 63"
  shows "bcj_x86 pos m buf (length buf) =
    (case x86_scan (-) pos 1 m buf of (k, d, m', ys) \<Rightarrow> Some (k, x86_carry d m', ys))"
proof (cases "length buf \<le> 4")
  case True
  then show ?thesis by (simp add: bcj_x86_def x86_scan_end x86_carry_def)
next
  case False
  let ?v = "\<lparr>x_i = 0, x_prev_pos = 2 ^ 64 - 1, x_prev_mask = m, x_buf = buf\<rparr>"
  have "x86_dist ?v 1" by (simp add: x86_dist_def)
  then obtain k d m' ys v' where *: "x86_scan (-) pos 1 m buf = (k, d, m', ys)"
      "x86_loop pos (length buf - 4) ?v = Some v'" "x_i v' = k" "x86_dist v' d" "x_prev_mask v' = m'" "x_buf v' = ys"
    using x86_loop_scan [of ?v "[]" buf 1 "length buf" pos] False assms by auto
  have k: "k \<le> length buf" using x86_scan_bound [OF *(1)] by simp
  then have "sz_sub (x_i v') (x_prev_pos v') = d"
    using * assms by (intro x86_dist_sub) simp_all
  with * False show ?thesis by (simp add: bcj_x86_def x86_carry_def Let_def)
qed


text \<open>Decoding inverts encoding modulo the 25 bits that \<open>x86_dest\<close> keeps.\<close>

lemma x86_dest_cong: "take_bit 25 x = take_bit 25 y \<Longrightarrow> x86_dest x = x86_dest y"
proof -
  have "x AND 0x01FFFFFF = take_bit 25 x" for x :: u32 by (simp add: take_bit_eq_mask mask_eq_exp_minus_1)
  then show "take_bit 25 x = take_bit 25 y \<Longrightarrow> x86_dest x = x86_dest y" by (simp add: x86_dest_def)
qed

lemma x86_dest_alt: "x86_dest x = take_bit 25 x OR (if bit x 24 then 0xFF000000 else 0)"
proof -
  have masks: "x AND 0x01000000 = (if bit x 24 then 0x01000000 else 0)" "x AND 0x01FFFFFF = take_bit 25 x" for x :: u32
    by (simp_all add: bits32 bit_simps)
  have bit: "bit (take_bit 25 x) 24 = bit x 24" by (simp add: bit_take_bit_iff)
  have neg: "0 - 0x01000000 = (0xFF000000 :: u32)" by simp
  show ?thesis
    unfolding x86_dest_def Let_def masks bit if_distrib [of "\<lambda>x. 0 - x"] neg by simp
qed

lemma take_dest [simp]: "take_bit 25 (x86_dest x) = take_bit 25 x"
  by (simp add: x86_dest_alt bits32 bit_simps)

lemma test_dest: "bcj_x86_test_msbyte (byte_at 24 (x86_dest x))"
proof -
  have "byte_at 24 (x86_dest x) = (if bit x 24 then 0xFF else 0)"
    by (simp add: x86_dest_alt byte_at_def bits8 bit_simps)
  then show ?thesis by (simp add: bcj_x86_test_msbyte_def)
qed

lemma dest_id: "bcj_x86_test_msbyte (byte_at 24 x) \<Longrightarrow> x86_dest x = x"
  by (auto simp: bcj_x86_test_msbyte_def x86_dest_alt byte_at_def bits8 bits32 bit_simps)

lemma byte_at_dest: "k + 8 \<le> 25 \<Longrightarrow> byte_at k (x86_dest x) = byte_at k x"
  by (rule byte_at_cong [of 25]) simp_all

lemma x86_target_cong:
  assumes "take_bit 25 a = take_bit 25 b" and "pm \<in> {0, 1, 2, 3, 4, 5, 6, 7}"
  shows "take_bit 25 (x86_target (-) at pm a) = take_bit 25 (x86_target (-) at pm b)"
proof -
  have sub: "take_bit 25 (x - at) = take_bit 25 (y - at)" if "take_bit 25 x = take_bit 25 y" for x y
    using take_bit_add_left [of 25 x "- at"] take_bit_add_left [of 25 y "- at"] that
    by (simp only: add_uminus_conv_diff)
  have xor: "take_bit 25 ((a - at) XOR z) = take_bit 25 ((b - at) XOR z)" for z
    using sub [OF assms(1)] by (simp only: take_bit_xor)
  have "byte_at (x86_shift pm) (a - at) = byte_at (x86_shift pm) (b - at)" if "pm \<noteq> 0"
    using that assms(2) x86_shift_le(2) [of pm] by (intro byte_at_cong [OF sub [OF assms(1)]]) auto
  then show ?thesis
    using sub [OF assms(1)] sub [OF xor] by (auto simp: x86_target_alt)
qed

lemma x86_dest_inverse:
  assumes "pm \<noteq> 0 \<Longrightarrow> \<not> bcj_x86_test_msbyte (byte_at (x86_shift pm) src)" and "pm \<in> {0, 1, 2, 3, 4, 5, 6, 7}"
    and "bcj_x86_test_msbyte (byte_at 24 src)"
  shows "x86_dest (x86_target (-) at pm (x86_dest (x86_target (+) at pm src))) = src"
proof -
  have "take_bit 25 (x86_target (-) at pm (x86_dest (x86_target (+) at pm src)))
      = take_bit 25 (x86_target (-) at pm (x86_target (+) at pm src))"
    by (rule x86_target_cong) (simp_all only: take_dest assms(2))
  also have "x86_target (-) at pm (x86_target (+) at pm src) = src"
    using assms(1) by (rule x86_target_inverse)
  finally show ?thesis
    using dest_id [OF assms(3)] by (metis x86_dest_cong)
qed

text \<open>The five bytes.\<close>

lemma Suc_4: "Suc (Suc (Suc (Suc 0))) = 4"
  by simp

lemma five_bytes:
  assumes "4 < length xs" obtains x a b c e zs where "xs = x # a # b # c # e # zs"
  using assms by (auto simp: numeral_eq_Suc Suc_le_length_iff less_eq_Suc_le)

lemma code5_bytes:
  assumes "4 < length xs"
  shows "x86_code5 f at pm xs =
    (let v = x86_dest (x86_target f (at + 5) pm (get_unaligned_le32 xs 1))
     in [hd xs, byte_at 0 v, byte_at 8 v, byte_at 16 v, byte_at 24 v])"
proof -
  obtain x a b c e zs where "xs = x # a # b # c # e # zs" using assms by (rule five_bytes)
  then show ?thesis
    by (simp add: x86_code5_def put_unaligned_le32_def byte_at_def Let_def numeral_eq_Suc)
qed

lemma byte_at_get:
  "byte_at 0 (get_unaligned_le32 xs 1) = xs ! 1" "byte_at 8 (get_unaligned_le32 xs 1) = xs ! 2"
  "byte_at 16 (get_unaligned_le32 xs 1) = xs ! 3" "byte_at 24 (get_unaligned_le32 xs 1) = xs ! 4"
  by (simp_all add: byte_at_def get_unaligned_le32_def bits8 bit_simps bit_u8_high numeral_2_eq_2 numeral_3_eq_3 Suc_4)

lemma get_bytes: "get_unaligned_le32 ([x, byte_at 0 v, byte_at 8 v, byte_at 16 v, byte_at 24 v] @ ys) 1 = v"
  by (simp add: byte_at_def get_unaligned_le32_def bits32 bit_simps numeral_2_eq_2 numeral_3_eq_3)


lemma bit_seven: "bit (x AND 7 :: u32) j \<longleftrightarrow> j < 3 \<and> bit x j"
proof -
  have "(7 :: u32) = mask 3" by (simp add: mask_eq_exp_minus_1)
  then show ?thesis unfolding \<open>7 = mask 3\<close> bit_and_iff bit_mask_iff by (auto dest: bit_imp_le_length)
qed

lemma bit_x86_mask: "bit (x86_mask d m) j \<longleftrightarrow> d \<le> 3 \<and> d - 1 \<le> j \<and> j < 3 \<and> bit m (j - (d - 1))"
  by (auto simp: x86_mask_def bit_seven bit_push_bit_iff)

lemma mask_older: "1 \<le> d \<Longrightarrow> j < 2 \<Longrightarrow> bit (x86_mask (d + 1) m) (j + 1) = bit (x86_mask d m) j"
  by (auto simp: bit_x86_mask)

lemma mask_keep: "j < 2 \<Longrightarrow> bit (x86_mask 1 (push_bit 1 pm OR 1)) (j + 1) = bit pm j"
  "bit (x86_mask 1 (push_bit 1 pm OR 1)) 0"
  unfolding bit_x86_mask bit_or_iff bit_push_bit_iff bit_1_iff by auto

lemma hd_scan: "x86_scan f at d m xs = (k, d', m', ys) \<Longrightarrow> xs \<noteq> [] \<Longrightarrow> ys \<noteq> [] \<and> hd ys = hd xs"
proof -
  assume r: "x86_scan f at d m xs = (k, d', m', ys)" and "xs \<noteq> []"
  then have "ys \<noteq> []" using x86_scan_bound [OF r] by auto
  moreover have "hd ys = hd xs"
  proof (cases "4 < length xs")
    case True
    consider "hd xs AND 0xFE \<noteq> 0xE8" | "hd xs AND 0xFE = 0xE8" "x86_keep (x86_mask d m) xs"
      | "hd xs AND 0xFE = 0xE8" "\<not> x86_keep (x86_mask d m) xs" by blast
    then show ?thesis
      by cases (use r True in \<open>auto simp: x86_scan_other x86_scan_keep x86_scan_conv x86_emit_cases code5_bytes Let_def\<close>)
  qed (use r in \<open>simp add: x86_scan_end\<close>)
  ultimately show ?thesis ..
qed

text \<open>The test of a byte on which an earlier opcode depends is not changed.\<close>

lemma allowed_cases:
  assumes "\<not> x86_avoid pm xs" and "pm \<in> {0, 1, 2, 3, 4, 5, 6, 7}"
  shows "pm \<in> {0, 1, 2, 4}"
  using assms by (auto simp: x86_avoid_def mask_to_allowed_status_def)

lemma code5_nth:
  assumes "4 < length xs" and "t \<in> {1, 2, 3}"
  shows "x86_code5 f at pm xs ! (4 - t) = byte_at (8 * (3 - t)) (x86_target f (at + 5) pm (get_unaligned_le32 xs 1))"
  using assms(2) by (auto simp: code5_bytes [OF assms(1)] Let_def byte_at_dest)

lemma bit_one_two_four:
  "bit (1 :: u32) j \<longleftrightarrow> j = 0" "bit (2 :: u32) j \<longleftrightarrow> j = 1" "bit (4 :: u32) j \<longleftrightarrow> j = 2"
proof -
  have "(2 :: u32) = push_bit 1 1" "(4 :: u32) = push_bit 2 1" by simp_all
  note two = this
  show "bit (2 :: u32) j \<longleftrightarrow> j = 1" "bit (4 :: u32) j \<longleftrightarrow> j = 2"
    unfolding two bit_push_bit_iff bit_1_iff by auto
qed (simp add: bit_1_iff)

lemma conv_clears:
  assumes "4 < length xs" and "\<not> x86_keep pm xs" and "pm \<in> {0, 1, 2, 3, 4, 5, 6, 7}" and "t \<in> {1, 2, 3}" and "bit pm (t - 1)"
  shows "\<not> bcj_x86_test_msbyte (xs ! (4 - t)) \<and> \<not> bcj_x86_test_msbyte (x86_code5 (+) at pm xs ! (4 - t))"
proof -
  have avoid: "\<not> x86_avoid pm xs" using assms(2) by (simp add: x86_keep_def)
  from allowed_cases [OF this assms(3)] assms(4,5) have pm: "pm = 1 \<and> t = 1 \<or> pm = 2 \<and> t = 2 \<or> pm = 4 \<and> t = 3"
    by (auto simp: bit_one_two_four)
  then have "x86_shift pm = 8 * (3 - t)" "pm \<noteq> 0" by (auto simp: x86_shift_def mask_to_bit_num_def)
  moreover have "\<not> bcj_x86_test_msbyte (xs ! (4 - t))"
    using avoid pm by (auto simp: x86_avoid_def mask_to_allowed_status_def mask_to_bit_num_def)
  moreover have "\<not> bcj_x86_test_msbyte (byte_at (x86_shift pm) (get_unaligned_le32 xs 1))"
    using x86_avoid_byte [OF avoid _ assms(3,1)] \<open>pm \<noteq> 0\<close> by blast
  ultimately show ?thesis
    using x86_target_clear(1) [of pm "get_unaligned_le32 xs 1" "at + 5"] code5_nth [OF assms(1,4)] by simp
qed

text \<open>One byte further on, the opcode is one more byte back.\<close>

lemma tested_shift:
  assumes "4 < length xs" and "x86_scan f at d m (tl xs) = (k, d', m', ys)" and "t \<in> {1, 2, 3}"
    and "t < 3 \<Longrightarrow> bcj_x86_test_msbyte (ys ! (4 - (t + 1))) = bcj_x86_test_msbyte (tl xs ! (4 - (t + 1)))"
  shows "bcj_x86_test_msbyte ((hd xs # ys) ! (4 - t)) = bcj_x86_test_msbyte (xs ! (4 - t))"
proof (cases "t < 3")
  case True
  then have "4 - t = Suc (4 - (t + 1))" by simp
  with assms(1) assms(4) [OF True] show ?thesis by (cases xs) simp_all
next
  case False
  then have "4 - t = 1" using assms(3) by auto
  moreover have "ys ! 0 = tl xs ! 0"
    using hd_scan [OF assms(2)] assms(1) by (cases xs; cases "tl xs"; cases ys) auto
  ultimately show ?thesis using assms(1) by (cases xs) simp_all
qed

lemma tested_byte:
  assumes "x86_scan (+) at d m xs = (k, d', m', ys)" and "1 \<le> d" and "t \<in> {1, 2, 3}" and "bit (x86_mask d m) (t - 1)"
    and "4 - t < length xs"
  shows "bcj_x86_test_msbyte (ys ! (4 - t)) = bcj_x86_test_msbyte (xs ! (4 - t))"
  using assms
proof (induction at d m xs arbitrary: k ys t rule: x86_induct)
  case (short at d m xs)
  then show ?case by (simp add: x86_scan_end)
next
  case (other at d m xs)
  from other.prems(1) obtain k1 ys1 where r: "x86_scan (+) (at + 1) (d + 1) m (tl xs) = (k1, d', m', ys1)" "ys = hd xs # ys1"
    by (auto simp: x86_scan_other [OF other.hyps(1,2)] x86_emit_cases)
  have older: "bit (x86_mask (d + 1) m) ((t + 1) - 1)" if "t < 3"
  proof -
    have "(t + 1) - 1 = (t - 1) + 1" using other.prems(3) by auto
    then show ?thesis using that other.prems(2,4) mask_older [of d "t - 1" m] by simp
  qed
  show ?case
    unfolding r(2)
  proof (rule tested_shift [OF other.hyps(1) r(1) other.prems(3)])
    assume "t < 3"
    with other.prems show "bcj_x86_test_msbyte (ys1 ! (4 - (t + 1))) = bcj_x86_test_msbyte (tl xs ! (4 - (t + 1)))"
      by (intro other.IH [OF r(1) _ _ older]) auto
  qed
next
  case (keep at d m xs)
  let ?m = "push_bit 1 (x86_mask d m) OR 1"
  from keep.prems(1) obtain k1 ys1 where r: "x86_scan (+) (at + 1) 1 ?m (tl xs) = (k1, d', m', ys1)" "ys = hd xs # ys1"
    by (auto simp: x86_scan_keep [OF keep.hyps(1,2,3)] x86_emit_cases)
  have older: "bit (x86_mask 1 ?m) ((t + 1) - 1)" if "t < 3"
  proof -
    have "(t + 1) - 1 = (t - 1) + 1" using keep.prems(3) by auto
    then show ?thesis using that keep.prems(4) mask_keep(1) [of "t - 1" "x86_mask d m"] by (simp del: push_bit_of_1)
  qed
  show ?case
    unfolding r(2)
  proof (rule tested_shift [OF keep.hyps(1) r(1) keep.prems(3)])
    assume "t < 3"
    with keep.prems show "bcj_x86_test_msbyte (ys1 ! (4 - (t + 1))) = bcj_x86_test_msbyte (tl xs ! (4 - (t + 1)))"
      by (intro keep.IH [OF r(1) _ _ older]) auto
  qed
next
  case (conv at d m xs)
  let ?pm = "x86_mask d m"
  from conv.prems(1) obtain ys1 where "ys = x86_code5 (+) at ?pm xs @ ys1"
    by (auto simp: x86_scan_conv [OF conv.hyps(1,2,3)] x86_emit_cases)
  then have "ys ! (4 - t) = x86_code5 (+) at ?pm xs ! (4 - t)"
    using conv.hyps(1) less_imp_diff_less [of 4 5 t] by (simp add: nth_append)
  then show ?case
    using conv_clears [OF conv.hyps(1,3) x86_mask_cases conv.prems(3,4)] by simp
qed

theorem x86_scan_inverse:
  assumes "x86_scan (+) at d m xs = (k, d', m', ys)" and "1 \<le> d"
  shows "x86_scan (-) at d m ys = (k, d', m', xs)"
  using assms
proof (induction at d m xs arbitrary: k ys rule: x86_induct)
  case (short at d m xs)
  then show ?case by (simp add: x86_scan_end)
next
  case (other at d m xs)
  from other.prems(1) obtain k1 ys1 where r: "x86_scan (+) (at + 1) (d + 1) m (tl xs) = (k1, d', m', ys1)"
      "ys = hd xs # ys1" "k = 1 + k1"
    by (auto simp: x86_scan_other [OF other.hyps(1,2)] x86_emit_cases)
  have "4 < length ys" using other.hyps(1) x86_scan_bound [OF r(1)] r(2) by simp
  moreover have "hd xs # tl xs = xs" using other.hyps(1) by (cases xs) simp_all
  ultimately show ?case
    using other.IH [OF r(1)] other.hyps r(2,3) by (simp add: x86_scan_other x86_emit_def)
next
  case (keep at d m xs)
  let ?pm = "x86_mask d m"
  let ?n = "mask_to_bit_num ! unat ?pm"
  from keep.prems(1) obtain k1 ys1 where r: "x86_scan (+) (at + 1) 1 (push_bit 1 ?pm OR 1) (tl xs) = (k1, d', m', ys1)"
      "ys = hd xs # ys1" "k = 1 + k1"
    by (auto simp: x86_scan_keep [OF keep.hyps(1,2,3)] x86_emit_cases)
  have len: "4 < length ys" using keep.hyps(1) x86_scan_bound [OF r(1)] r(2) by simp
  have "x86_keep ?pm ys"
  proof (cases "x86_avoid ?pm xs")
    case True
    have "bcj_x86_test_msbyte (ys ! (4 - ?n)) = bcj_x86_test_msbyte (xs ! (4 - ?n))"
      if "mask_to_allowed_status ! unat ?pm" "?pm \<noteq> 0"
    proof -
      have "?pm \<in> {1, 2, 4}" using that x86_mask_cases [of d m] by (auto simp: mask_to_allowed_status_def)
      then have "?n \<in> {1, 2, 3}" "bit ?pm (?n - 1)" by (auto simp: mask_to_bit_num_def bit_one_two_four)
      then show ?thesis
        using keep.hyps(1) by (intro tested_byte [OF keep.prems]) auto
    qed
    with True show ?thesis by (auto simp: x86_keep_def x86_avoid_def)
  next
    case False
    then have "\<not> bcj_x86_test_msbyte (xs ! 4)" using keep.hyps(3) by (simp add: x86_keep_def)
    moreover have "bcj_x86_test_msbyte (ys1 ! (4 - 1)) = bcj_x86_test_msbyte (tl xs ! (4 - 1))"
      using keep.hyps(1) mask_keep(2) [of ?pm] by (intro tested_byte [OF r(1)]) simp_all
    then have "bcj_x86_test_msbyte (ys ! 4) = bcj_x86_test_msbyte (xs ! 4)"
      using keep.hyps(1) r(2) by (cases xs) (simp_all add: numeral_eq_Suc)
    ultimately show ?thesis by (simp add: x86_keep_def)
  qed
  moreover have "hd xs # tl xs = xs" using keep.hyps(1) by (cases xs) simp_all
  ultimately show ?case
    using keep.IH [OF r(1)] keep.hyps len r(2,3) by (simp add: x86_scan_keep x86_emit_def)
next
  case (conv at d m xs)
  let ?pm = "x86_mask d m" and ?src = "get_unaligned_le32 xs 1"
  let ?w = "x86_code5 (+) at ?pm xs"
  from conv.prems(1) obtain k1 ys1 where r: "x86_scan (+) (at + 5) 5 ?pm (drop 5 xs) = (k1, d', m', ys1)"
      "ys = ?w @ ys1" "k = 5 + k1"
    using conv.hyps(1) by (auto simp: x86_scan_conv [OF conv.hyps(1,2,3)] x86_emit_cases)
  have len: "4 < length ys" using conv.hyps(1) r(2) by simp
  have w: "?w = [hd xs, byte_at 0 v, byte_at 8 v, byte_at 16 v, byte_at 24 v]"
    if "v = x86_dest (x86_target (+) (at + 5) ?pm ?src)" for v
    using code5_bytes [OF conv.hyps(1)] that by (simp add: Let_def)
  have avoid: "\<not> x86_avoid ?pm xs" and msb: "bcj_x86_test_msbyte (byte_at 24 ?src)"
    using conv.hyps(3) by (simp_all add: x86_keep_def byte_at_get del: One_nat_def)
  have src: "?pm \<noteq> 0 \<Longrightarrow> \<not> bcj_x86_test_msbyte (byte_at (x86_shift ?pm) ?src)"
    using x86_avoid_byte [OF avoid _ x86_mask_cases conv.hyps(1)] .
  have "\<not> x86_keep ?pm ys"
  proof -
    have "bcj_x86_test_msbyte (ys ! 4)" using r(2) w [OF refl] test_dest by simp
    moreover have "\<not> x86_avoid ?pm ys"
    proof (cases "?pm = 0")
      case False
      then have pm: "?pm \<in> {1, 2, 4}" using allowed_cases [OF avoid x86_mask_cases] by auto
      let ?n = "mask_to_bit_num ! unat ?pm"
      have n: "?n \<in> {1, 2, 3}" "bit ?pm (?n - 1)" using pm by (auto simp: mask_to_bit_num_def bit_one_two_four)
      then have "bcj_x86_test_msbyte (ys ! (4 - ?n)) = bcj_x86_test_msbyte (xs ! (4 - ?n))"
        using conv.hyps(1) by (intro tested_byte [OF conv.prems]) auto
      with avoid show ?thesis by (auto simp: x86_avoid_def)
    qed (simp add: x86_avoid_def)
    ultimately show ?thesis by (simp add: x86_keep_def)
  qed
  moreover have "hd ys = hd xs" using r(2) w [OF refl] by simp
  moreover have "x86_code5 (-) at ?pm ys = take 5 xs"
  proof -
    have "get_unaligned_le32 ys 1 = x86_dest (x86_target (+) (at + 5) ?pm ?src)"
      unfolding r(2) w [OF refl] by (rule get_bytes)
    then have "x86_dest (x86_target (-) (at + 5) ?pm (get_unaligned_le32 ys 1)) = ?src"
      using x86_dest_inverse [OF src x86_mask_cases msb] by simp
    then have "x86_code5 (-) at ?pm ys = [hd ys, xs ! 1, xs ! 2, xs ! 3, xs ! 4]"
      unfolding code5_bytes [OF len] by (simp only: Let_def byte_at_get)
    moreover have "take 5 xs = [hd xs, xs ! 1, xs ! 2, xs ! 3, xs ! 4]"
    proof -
      obtain x a b c e zs where "xs = x # a # b # c # e # zs" using conv.hyps(1) by (rule five_bytes)
      then show ?thesis by (simp add: numeral_eq_Suc)
    qed
    ultimately show ?thesis using \<open>hd ys = hd xs\<close> by simp
  qed
  moreover have "drop 5 ys = ys1" using r(2) conv.hyps(1) by simp
  ultimately show ?case
    using conv.IH [OF r(1)] conv.hyps(1,2) len r(3) by (simp add: x86_scan_conv x86_emit_def)
qed


text \<open>Stopping and going on: the bytes already finished do not depend on what follows, and
  the mask that is kept carries the history over.\<close>

definition x86_same :: "nat \<Rightarrow> u32 \<Rightarrow> nat \<Rightarrow> u32 \<Rightarrow> bool" where
  "x86_same d m d' m' \<longleftrightarrow> 1 \<le> d \<and> 1 \<le> d' \<and> (\<forall>j. x86_mask (d + j) m = x86_mask (d' + j) m')"

lemma x86_same_carry: "1 \<le> d \<Longrightarrow> x86_same d m 1 (x86_carry d m)"
proof -
  assume d: "1 \<le> d"
  have "x86_mask (d + j) m = x86_mask (1 + j) (x86_carry d m)" for j
  proof (rule bit_word_eqI)
    fix n
    show "bit (x86_mask (d + j) m) n = bit (x86_mask (1 + j) (x86_carry d m)) n"
      using d by (auto simp: bit_x86_mask x86_carry_def bit_push_bit_iff ac_simps)
  qed
  with d show ?thesis by (simp add: x86_same_def)
qed

lemma x86_same_Suc: "x86_same d m d' m' \<Longrightarrow> x86_same (d + 1) m (d' + 1) m'"
  unfolding x86_same_def by (metis add.assoc le_add2 add.commute)

lemma x86_same_mask: "x86_same d m d' m' \<Longrightarrow> x86_mask d m = x86_mask d' m'"
  unfolding x86_same_def by (metis add_0_right)

lemma x86_same_refl: "1 \<le> d \<Longrightarrow> x86_same d m d m"
  by (simp add: x86_same_def)

lemma x86_scan_same:
  assumes "x86_same d m d1 m1" and "x86_scan f at d m xs = (k, d', m', ys)"
  shows "\<exists>d1' m1'. x86_scan f at d1 m1 xs = (k, d1', m1', ys) \<and> x86_same d' m' d1' m1'"
  using assms
proof (induction at d m xs arbitrary: d1 m1 k ys rule: x86_induct)
  case (short at d m xs)
  then show ?case by (auto simp: x86_scan_end)
next
  case (other at d m xs)
  from other.prems(2) show ?case
    unfolding x86_scan_other [OF other.hyps] x86_emit_cases
    using other.IH [OF x86_same_Suc [OF other.prems(1)]] by blast
next
  case (keep at d m xs)
  note pm = x86_same_mask [OF keep.prems(1)]
  from keep.prems(2) show ?case
    unfolding x86_scan_keep [OF keep.hyps] x86_scan_keep [OF keep.hyps(1,2) keep.hyps(3) [unfolded pm]] x86_emit_cases pm
    using keep.IH [OF x86_same_refl] unfolding pm by blast
next
  case (conv at d m xs)
  note pm = x86_same_mask [OF conv.prems(1)]
  have "x86_same 5 (x86_mask d m) 5 (x86_mask d1 m1)" by (simp add: pm x86_same_refl)
  from conv.prems(2) conv.IH [OF this] show ?case
    unfolding x86_scan_conv [OF conv.hyps] x86_scan_conv [OF conv.hyps(1,2) conv.hyps(3) [unfolded pm]] x86_emit_cases pm
    by blast
qed

lemma x86_scan_dist: "x86_scan f at d m xs = (k, d', m', ys) \<Longrightarrow> 1 \<le> d \<Longrightarrow> 1 \<le> d'"
proof (induction at d m xs arbitrary: k ys rule: x86_induct)
  case (short at d m xs)
  then show ?case by (simp add: x86_scan_end)
qed (auto simp: x86_scan_other x86_scan_keep x86_scan_conv x86_emit_cases)

lemma x86_keep_append: "4 < length xs \<Longrightarrow> x86_keep pm (xs @ zs) = x86_keep pm xs"
  by (auto simp: x86_keep_def x86_avoid_def nth_append)

lemma code5_append: "4 < length xs \<Longrightarrow> x86_code5 f at pm (xs @ zs) = x86_code5 f at pm xs"
proof -
  assume len: "4 < length xs"
  then have "get_unaligned_le32 (xs @ zs) 1 = get_unaligned_le32 xs 1" "hd (xs @ zs) = hd xs" "4 < length (xs @ zs)"
    by (auto simp: get_unaligned_le32_def nth_append hd_append)
  then show ?thesis by (simp only: code5_bytes [OF len] code5_bytes [of "xs @ zs"])
qed

lemma x86_scan_continue:
  assumes "x86_scan f at d m xs = (k, d', m', ys)" and "1 \<le> d"
  shows "x86_scan f at d m (xs @ zs) = x86_emit (take k ys) (x86_scan f (at + word_of_nat k) d' m' (drop k ys @ zs))"
  using assms
proof (induction at d m xs arbitrary: k ys rule: x86_induct)
  case (short at d m xs)
  then show ?case by (auto simp: x86_scan_end x86_emit_def split: prod.splits)
next
  case (other at d m xs)
  from other.prems(1) obtain k1 ys1 where r: "x86_scan f (at + 1) (d + 1) m (tl xs) = (k1, d', m', ys1)"
      "ys = hd xs # ys1" "k = 1 + k1"
    by (auto simp: x86_scan_other [OF other.hyps] x86_emit_cases)
  have "x86_scan f at d m (xs @ zs) = x86_emit [hd xs] (x86_scan f (at + 1) (d + 1) m (tl xs @ zs))"
    using other.hyps by (cases xs) (simp_all add: x86_scan_other)
  also note other.IH [OF r(1)]
  finally show ?case
    using r(2,3) by (simp add: x86_emit_def add.assoc split: prod.splits)
next
  case (keep at d m xs)
  let ?m = "push_bit 1 (x86_mask d m) OR 1"
  from keep.prems(1) obtain k1 ys1 where r: "x86_scan f (at + 1) 1 ?m (tl xs) = (k1, d', m', ys1)"
      "ys = hd xs # ys1" "k = 1 + k1"
    by (auto simp: x86_scan_keep [OF keep.hyps] x86_emit_cases)
  have "x86_scan f at d m (xs @ zs) = x86_emit [hd xs] (x86_scan f (at + 1) 1 ?m (tl xs @ zs))"
    using keep.hyps x86_keep_append [OF keep.hyps(1)] by (subst x86_scan_keep) (cases xs; simp)+
  also note keep.IH [OF r(1)]
  finally show ?case
    using r(2,3) by (simp add: x86_emit_def add.assoc split: prod.splits)
next
  case (conv at d m xs)
  let ?pm = "x86_mask d m"
  from conv.prems(1) obtain k1 ys1 where r: "x86_scan f (at + 5) 5 ?pm (drop 5 xs) = (k1, d', m', ys1)"
      "ys = x86_code5 f at ?pm xs @ ys1" "k = 5 + k1"
    using conv.hyps(1) by (auto simp: x86_scan_conv [OF conv.hyps] x86_emit_cases)
  have "x86_scan f at d m (xs @ zs) = x86_emit (x86_code5 f at ?pm xs) (x86_scan f (at + 5) 5 ?pm (drop 5 xs @ zs))"
    using conv.hyps x86_keep_append [OF conv.hyps(1)] code5_append [OF conv.hyps(1)]
    by (subst x86_scan_conv) (cases xs; simp)+
  also note conv.IH [OF r(1)]
  finally show ?case
    using conv.hyps(1) r(2,3) by (simp add: x86_emit_def add.assoc split: prod.splits)
qed


section \<open>All filters\<close>

datatype bcj_type = BCJ_X86 | BCJ_POWERPC | BCJ_IA64 | BCJ_ARM | BCJ_ARMTHUMB | BCJ_SPARC | BCJ_ARM64

definition keep_mask :: "u32 \<Rightarrow> nat \<times> u8 list \<Rightarrow> (nat \<times> u32 \<times> u8 list) option" where
  \<comment> \<open>a filter that does not touch \<open>s->x86_prev_mask\<close>\<close>
  "keep_mask m r = Some (fst r, m, snd r)"

definition bcj_filter :: "bcj_type \<Rightarrow> u32 \<Rightarrow> u32 \<Rightarrow> u8 list \<Rightarrow> nat \<Rightarrow> (nat \<times> u32 \<times> u8 list) option" where
  \<comment> \<open>the \<open>switch\<close> of \<open>bcj_apply\<close>\<close>
  "bcj_filter t pos m buf sz =
     (case t of
        BCJ_X86 \<Rightarrow> bcj_x86 pos m buf sz
      | BCJ_POWERPC \<Rightarrow> keep_mask m (bcj_powerpc pos buf sz)
      | BCJ_IA64 \<Rightarrow> keep_mask m (bcj_ia64 pos buf sz)
      | BCJ_ARM \<Rightarrow> keep_mask m (bcj_arm pos buf sz)
      | BCJ_ARMTHUMB \<Rightarrow> keep_mask m (bcj_armthumb pos buf sz)
      | BCJ_SPARC \<Rightarrow> keep_mask m (bcj_sparc pos buf sz)
      | BCJ_ARM64 \<Rightarrow> keep_mask m (bcj_arm64 pos buf sz))"

text \<open>The loops as conversions of blocks, at any position.\<close>

lemma be_block_at:
  "block_filter 4 (\<lambda>i w. put_unaligned_be32 (g (pos + word_of_nat i) (get_unaligned_be32 w 0)) w 0) (be_body (\<lambda>i. g (pos + word_of_nat i)))"
  using be_block [of "\<lambda>i. g (pos + word_of_nat i)"] unfolding be_conv_def [abs_def] .

lemma le_block_at:
  "block_filter 4 (\<lambda>i w. put_unaligned_le32 (g (pos + word_of_nat i) (get_unaligned_le32 w 0)) w 0) (le_body (\<lambda>i. g (pos + word_of_nat i)))"
  using le_block [of "\<lambda>i. g (pos + word_of_nat i)"] unfolding le_conv_def [abs_def] .

lemma arm_block: "block_filter 4 (\<lambda>i. arm_step (pos + word_of_nat i) 0) (arm_step pos)"
proof
  fix i and buf :: "u8 list" assume len: "i + 4 \<le> length buf"
  show "arm_step pos i buf = splice buf i (arm_step (pos + word_of_nat i) 0 (window 4 i buf))"
    using arm_step_window [OF length_window [OF len] len, of pos] len by simp
qed (simp_all add: arm_step_def Let_def)

lemma ia64_block: "block_filter 16 (\<lambda>i. ia64_step (pos + word_of_nat i) 0) (ia64_step pos)"
proof
  fix i and buf :: "u8 list" assume len: "i + 16 \<le> length buf"
  show "ia64_step pos i buf = splice buf i (ia64_step (pos + word_of_nat i) 0 (window 16 i buf))"
    using ia64_step_window [OF length_window [OF len] len, of pos] len by simp
qed simp_all

lemma filter_loops:
  "bcj_powerpc pos buf sz = bcj_loop 4 (be_body (\<lambda>i. powerpc_instr (pos + word_of_nat i))) sz 0 buf"
  "bcj_sparc pos buf sz = bcj_loop 4 (be_body (\<lambda>i. sparc_instr (pos + word_of_nat i))) sz 0 buf"
  "bcj_arm64 pos buf sz = bcj_loop 4 (le_body (\<lambda>i. arm64_instr (pos + word_of_nat i))) sz 0 buf"
  by (simp_all add: bcj_powerpc_def bcj_sparc_def bcj_arm64_def be_body_def [abs_def] le_body_def [abs_def])

text \<open>What a filter promises: it finishes with all bytes but fewer than 16, leaves those
  untouched, and can go on later with them and what follows.\<close>

definition goes_on ::
  "(u32 \<Rightarrow> u32 \<Rightarrow> u8 list \<Rightarrow> (nat \<times> u32 \<times> u8 list) option) \<Rightarrow> u32 \<Rightarrow> u32 \<Rightarrow> u8 list \<Rightarrow> u8 list \<Rightarrow> nat \<times> u32 \<times> u8 list \<Rightarrow> bool" where
  \<comment> \<open>going on with \<open>zs\<close> after \<open>xs\<close> gives what filtering both at once gives; only three bits of
    the mask count\<close>
  "goes_on f pos m xs zs r = (case r of (n, m1, ys) \<Rightarrow>
     \<forall>m1'. m1' AND 7 = m1 AND 7 \<longrightarrow>
       ok (f (pos + word_of_nat n) m1' (drop n ys @ zs)) (\<lambda>(n2, m2, ws).
         ok (f pos m (xs @ zs)) (\<lambda>(n3, m3, us). n3 = n + n2 \<and> us = take n ys @ ws \<and> m3 AND 7 = m2 AND 7)))"

definition streams :: "(u32 \<Rightarrow> u32 \<Rightarrow> u8 list \<Rightarrow> (nat \<times> u32 \<times> u8 list) option) \<Rightarrow> bool" where
  "streams f \<longleftrightarrow>
     (\<forall>pos m xs. length xs < 2 ^ 63 \<longrightarrow>
       ok (f pos m xs) (\<lambda>(n, m1, ys). n \<le> length xs \<and> length xs < n + 16 \<and> length ys = length xs \<and> drop n ys = drop n xs) \<and>
       (\<forall>zs. length (xs @ zs) < 2 ^ 63 \<longrightarrow> ok (f pos m xs) (goes_on f pos m xs zs)))"

lemma streams_keep_mask:
  assumes "\<And>pos xs. fst (g pos xs) \<le> length xs \<and> length xs < fst (g pos xs) + 16
      \<and> length (snd (g pos xs)) = length xs \<and> drop (fst (g pos xs)) (snd (g pos xs)) = drop (fst (g pos xs)) xs"
    and "\<And>pos xs zs n. n = fst (g pos xs) \<Longrightarrow> g pos (xs @ zs) =
      (n + fst (g (pos + word_of_nat n) (drop n xs @ zs)), take n (snd (g pos xs)) @ snd (g (pos + word_of_nat n) (drop n xs @ zs)))"
  shows "streams (\<lambda>pos m xs. keep_mask m (g pos xs))"
proof -
  have "goes_on (\<lambda>pos m xs. keep_mask m (g pos xs)) pos m xs zs (fst (g pos xs), m, snd (g pos xs))" for pos m xs zs
    using assms(1) [of pos xs] assms(2) [OF refl, of pos xs zs] by (simp add: goes_on_def keep_mask_def)
  then show ?thesis
    using assms(1) by (simp add: streams_def) (simp add: keep_mask_def)
qed

lemma block_streams:
  assumes block: "\<And>pos. block_filter k (\<lambda>i. conv (pos + word_of_nat i)) (body pos)" and "k \<le> 16"
  shows "streams (\<lambda>pos m buf. keep_mask m (bcj_loop k (body pos) (length buf) 0 buf))"
proof (rule streams_keep_mask)
  fix pos :: u32 and xs zs :: "u8 list" and n
  have k: "0 < k" using block_filter.k_pos [OF block] .
  let ?n = "k * (length xs div k)" and ?ys = "conv_blocks k (\<lambda>i. conv (pos + word_of_nat i)) 0 xs"
  note result = block_filter.loop_result [OF block]
  have le: "?n \<le> length xs" by (rule times_div_less_eq_dividend)
  have "length xs < ?n + k" using k mult_div_mod_eq [of k "length xs"] mod_less_divisor [of k "length xs"] by linarith
  with le assms(2) block_filter.blocks_tail [OF block] block_filter.length_blocks [OF block]
  show "fst (bcj_loop k (body pos) (length xs) 0 xs) \<le> length xs \<and> length xs < fst (bcj_loop k (body pos) (length xs) 0 xs) + 16
      \<and> length (snd (bcj_loop k (body pos) (length xs) 0 xs)) = length xs
      \<and> drop (fst (bcj_loop k (body pos) (length xs) 0 xs)) (snd (bcj_loop k (body pos) (length xs) 0 xs))
        = drop (fst (bcj_loop k (body pos) (length xs) 0 xs)) xs"
    by (simp add: result)
  assume "n = fst (bcj_loop k (body pos) (length xs) 0 xs)"
  then have n: "n = ?n" by (simp add: result)
  have count: "?n + k * ((length xs - ?n + length zs) div k) = k * ((length xs + length zs) div k)"
  proof -
    have split: "length xs + length zs = (length xs - ?n + length zs) + k * (length xs div k)" using le by linarith
    have "(length xs + length zs) div k = length xs div k + (length xs - ?n + length zs) div k"
      by (subst split) (rule div_mult_self2, use k in simp)
    then show ?thesis by (simp only: distrib_left)
  qed
  have shift: "conv_blocks k (\<lambda>i. conv (pos + word_of_nat ?n + word_of_nat i)) 0 us
      = conv_blocks k (\<lambda>i. conv (pos + word_of_nat i)) ?n us" for us
    using block_filter.blocks_shift [OF block [of pos], where ?i0.0 = ?n and i = 0 and xs = us] by (simp add: add.assoc del: of_nat_mult)
  show "bcj_loop k (body pos) (length (xs @ zs)) 0 (xs @ zs) =
      (n + fst (bcj_loop k (body (pos + word_of_nat n)) (length (drop n xs @ zs)) 0 (drop n xs @ zs)),
       take n (snd (bcj_loop k (body pos) (length xs) 0 xs)) @
       snd (bcj_loop k (body (pos + word_of_nat n)) (length (drop n xs @ zs)) 0 (drop n xs @ zs)))"
    unfolding n result fst_conv snd_conv
    unfolding length_append length_drop shift count
    by (simp only: block_filter.blocks_append [OF block, where i = 0] add_0)
qed

lemma thumb_conv_shift: "thumb_conv (\<lambda>j. f (i0 + j)) i xs = thumb_conv f (i0 + i) xs"
  by (induction "\<lambda>j. f (i0 + j)" i xs rule: thumb_conv.induct) (simp_all add: add.assoc)

lemma thumb_done_append: "thumb_done (xs @ zs) = thumb_done xs + thumb_done (drop (thumb_done xs) xs @ zs)"
  by (induction xs rule: thumb_done.induct) (simp_all add: numeral_eq_Suc)

lemma thumb_streams: "streams (\<lambda>pos m buf. keep_mask m (bcj_armthumb pos buf (length buf)))"
proof (rule streams_keep_mask)
  fix pos :: u32 and xs zs :: "u8 list" and n
  show "fst (bcj_armthumb pos xs (length xs)) \<le> length xs \<and> length xs < fst (bcj_armthumb pos xs (length xs)) + 16
      \<and> length (snd (bcj_armthumb pos xs (length xs))) = length xs
      \<and> drop (fst (bcj_armthumb pos xs (length xs))) (snd (bcj_armthumb pos xs (length xs)))
        = drop (fst (bcj_armthumb pos xs (length xs))) xs"
    using thumb_done_bound [of xs] by (simp add: bcj_armthumb_conv thumb_tail)
  assume "n = fst (bcj_armthumb pos xs (length xs))"
  then have n: "n = thumb_done xs" by (simp add: bcj_armthumb_conv)
  have "thumb_from (pos + word_of_nat n) = (\<lambda>j. thumb_from pos (n + j))"
    by (simp add: fun_eq_iff thumb_from_def add.assoc)
  then have "thumb_conv (thumb_from (pos + word_of_nat n)) 0 us = thumb_conv (thumb_from pos) n us" for us
    using thumb_conv_shift [of "thumb_from pos" n 0] by simp
  then show "bcj_armthumb pos (xs @ zs) (length (xs @ zs)) =
      (n + fst (bcj_armthumb (pos + word_of_nat n) (drop n xs @ zs) (length (drop n xs @ zs))),
       take n (snd (bcj_armthumb pos xs (length xs))) @
       snd (bcj_armthumb (pos + word_of_nat n) (drop n xs @ zs) (length (drop n xs @ zs))))"
    unfolding bcj_armthumb_conv fst_conv snd_conv
    using n thumb_append [of "thumb_from pos" 0 xs zs] thumb_done_append [of xs zs] by simp
qed

lemma x86_mask_carry: "x86_mask d m = x86_carry d m AND 7"
  by (simp add: x86_mask_def x86_carry_def)

lemma x86_same_low:
  assumes "x86_same d m 1 m1" and "m1 AND 7 = m2 AND 7"
  shows "x86_same d m 1 m2"
proof -
  have "bit m1 i = bit m2 i" if "i < 3" for i
    using arg_cong [OF assms(2), of "\<lambda>x. bit x i"] that by (simp add: bit_seven)
  then have "x86_mask (1 + j) m1 = x86_mask (1 + j) m2" for j
    by (intro bit_word_eqI) (auto simp: bit_x86_mask)
  with assms(1) show ?thesis by (simp add: x86_same_def)
qed

lemma x86_streams: "streams (\<lambda>pos m buf. bcj_x86 pos m buf (length buf))"
  unfolding streams_def
proof (intro allI impI conjI)
  fix pos m :: u32 and xs zs :: "u8 list"
  let ?f = "\<lambda>pos m buf. bcj_x86 pos m buf (length buf)"
  assume len: "length xs < 2 ^ 63"
  obtain k d m' ys where r: "x86_scan (-) pos 1 m xs = (k, d, m', ys)" by (cases "x86_scan (-) pos 1 m xs") auto
  note bound = x86_scan_bound [OF r]
  have f: "?f pos m xs = Some (k, x86_carry d m', ys)" by (simp only: bcj_x86_scan [OF len] r prod.case)
  show "ok (?f pos m xs) (\<lambda>(n, m1, ys). n \<le> length xs \<and> length xs < n + 16 \<and> length ys = length xs \<and> drop n ys = drop n xs)"
    using bound by (simp add: f)
  assume zs: "length (xs @ zs) < 2 ^ 63"
  have "ok (?f (pos + word_of_nat k) m1' (drop k ys @ zs)) (\<lambda>(n2, m2, ws).
      ok (?f pos m (xs @ zs)) (\<lambda>(n3, m3, us). n3 = k + n2 \<and> us = take k ys @ ws \<and> m3 AND 7 = m2 AND 7))"
    if m1': "m1' AND 7 = x86_carry d m' AND 7" for m1'
  proof -
    obtain k1 d1 m1 ws where r1: "x86_scan (-) (pos + word_of_nat k) d m' (drop k ys @ zs) = (k1, d1, m1, ws)"
      by (cases "x86_scan (-) (pos + word_of_nat k) d m' (drop k ys @ zs)") auto
    have "1 \<le> d" using x86_scan_dist [OF r] by simp
    from x86_scan_same [OF x86_same_low [OF x86_same_carry [OF this] m1' [symmetric]] r1] obtain d2 m2 where
        r2: "x86_scan (-) (pos + word_of_nat k) 1 m1' (drop k ys @ zs) = (k1, d2, m2, ws)" "x86_same d1 m1 d2 m2" by blast
    have "x86_carry d1 m1 AND 7 = x86_carry d2 m2 AND 7"
      using x86_same_mask [OF r2(2)] by (simp add: x86_mask_carry)
    moreover have "x86_scan (-) pos 1 m (xs @ zs) = (k + k1, d1, m1, take k ys @ ws)"
      using x86_scan_continue [OF r, of zs] bound unfolding r1 by (simp add: x86_emit_def)
    moreover have "length (drop k ys @ zs) < 2 ^ 63" using zs bound by simp
    ultimately show ?thesis
      using zs by (simp only: bcj_x86_scan r2(1) prod.case ok_Some simp_thms)
  qed
  then show "ok (?f pos m xs) (goes_on ?f pos m xs zs)"
    unfolding f ok_Some goes_on_def prod.case by blast
qed

lemma bcj_streams: "streams (\<lambda>pos m buf. bcj_filter t pos m buf (length buf))"
proof (cases t)
  case BCJ_X86
  then show ?thesis using x86_streams by (simp add: bcj_filter_def)
next
  case BCJ_POWERPC
  show ?thesis
    unfolding BCJ_POWERPC bcj_filter_def bcj_type.case filter_loops
    by (rule block_streams [where conv = "\<lambda>p w. put_unaligned_be32 (powerpc_instr p (get_unaligned_be32 w 0)) w 0"])
       (rule be_block_at, simp)
next
  case BCJ_IA64
  then show ?thesis
    using block_streams [where conv = "\<lambda>p. ia64_step p 0", OF ia64_block] by (simp add: bcj_filter_def bcj_ia64_def)
next
  case BCJ_ARM
  then show ?thesis
    using block_streams [where conv = "\<lambda>p. arm_step p 0", OF arm_block] by (simp add: bcj_filter_def bcj_arm_def)
next
  case BCJ_ARMTHUMB
  then show ?thesis using thumb_streams by (simp add: bcj_filter_def)
next
  case BCJ_SPARC
  show ?thesis
    unfolding BCJ_SPARC bcj_filter_def bcj_type.case filter_loops
    by (rule block_streams [where conv = "\<lambda>p w. put_unaligned_be32 (sparc_instr p (get_unaligned_be32 w 0)) w 0"])
       (rule be_block_at, simp)
next
  case BCJ_ARM64
  show ?thesis
    unfolding BCJ_ARM64 bcj_filter_def bcj_type.case filter_loops
    by (rule block_streams [where conv = "\<lambda>p w. put_unaligned_le32 (arm64_instr p (get_unaligned_le32 w 0)) w 0"])
       (rule le_block_at, simp)
qed


section \<open>Properties\<close>

definition bcj_align :: "bcj_type \<Rightarrow> nat" where
  \<comment> \<open>the addresses a filter works with are multiples of \<open>2 ^ bcj_align t\<close>\<close>
  "bcj_align t = (case t of BCJ_X86 \<Rightarrow> 0 | BCJ_POWERPC \<Rightarrow> 2 | BCJ_IA64 \<Rightarrow> 4 | BCJ_ARM \<Rightarrow> 2
     | BCJ_ARMTHUMB \<Rightarrow> 1 | BCJ_SPARC \<Rightarrow> 2 | BCJ_ARM64 \<Rightarrow> 2)"

definition bcj_encode :: "bcj_type \<Rightarrow> u32 \<Rightarrow> u32 \<Rightarrow> u8 list \<Rightarrow> u8 list" where
  \<comment> \<open>what a compressor does: it adds the address where the decoder subtracts it\<close>
  "bcj_encode t pos m buf =
     (case t of
        BCJ_X86 \<Rightarrow> (case x86_scan (+) pos 1 m buf of (_, _, _, ys) \<Rightarrow> ys)
      | BCJ_POWERPC \<Rightarrow> snd (bcj_loop 4 (be_body (powerpc_code pos)) (length buf) 0 buf)
      | BCJ_IA64 \<Rightarrow> snd (bcj_loop 16 (ia64_body pos) (length buf) 0 buf)
      | BCJ_ARM \<Rightarrow> snd (bcj_loop 4 (le_body (arm_code pos)) (length buf) 0 buf)
      | BCJ_ARMTHUMB \<Rightarrow> thumb_conv (thumb_to pos) 0 buf
      | BCJ_SPARC \<Rightarrow> snd (bcj_loop 4 (be_body (sparc_code pos)) (length buf) 0 buf)
      | BCJ_ARM64 \<Rightarrow> snd (bcj_loop 4 (le_body (arm64_code pos)) (length buf) 0 buf))"

lemma x86_round_trip:
  assumes "length buf < 2 ^ 63"
  shows "ok (bcj_x86 pos m (bcj_encode BCJ_X86 pos m buf) (length buf)) (\<lambda>(n, m', ys). ys = buf)"
proof -
  obtain k d m' ys where r: "x86_scan (+) pos 1 m buf = (k, d, m', ys)" by (cases "x86_scan (+) pos 1 m buf") auto
  then have "length ys = length buf" using x86_scan_bound by blast
  moreover have "x86_scan (-) pos 1 m ys = (k, d, m', buf)" by (rule x86_scan_inverse [OF r]) simp
  ultimately show ?thesis
    using bcj_x86_scan [of ys pos m] assms by (simp only: bcj_encode_def bcj_type.case r prod.case ok_Some)
qed

lemma thumb_round_trip:
  assumes "take_bit 1 pos = (0 :: u32)"
  shows "snd (bcj_armthumb pos (thumb_conv (thumb_to pos) 0 buf) (length buf)) = buf"
proof -
  have "take_bit 1 (pos + word_of_nat j) = (0 :: u32)" if "2 dvd j" for j
    using aligned_at [of 1 j "drop_bit 1 pos"] aligned_pos [OF assms] that by simp
  then have "thumb_conv (thumb_from pos) 0 (thumb_conv (thumb_to pos) 0 buf) = buf"
    by (intro thumb_inverse [THEN conjunct1] thumb_from_to) simp_all
  then show ?thesis
    using bcj_armthumb_conv [of pos "thumb_conv (thumb_to pos) 0 buf"] by simp
qed

text \<open>
  C17: decoding undoes encoding, for all seven filters and every buffer: at every position
  that is a multiple of the instruction alignment, a BCJ decoder applied to the output of
  the encoder returns the original bytes. For x86 this holds for every position and every
  mask left over from earlier data.
\<close>
theorem bcj_round_trip:
  assumes "take_bit (bcj_align t) pos = 0" and "length buf < 2 ^ 63"
  shows "ok (bcj_filter t pos m (bcj_encode t pos m buf) (length buf)) (\<lambda>(n, m', ys). ys = buf)"
proof (cases t)
  case BCJ_X86
  then show ?thesis using x86_round_trip [OF assms(2)] by (simp add: bcj_filter_def)
next
  case BCJ_POWERPC
  then have "pos = push_bit 2 (drop_bit 2 pos)" using assms(1) by (intro aligned_pos) (simp add: bcj_align_def)
  with powerpc.decode_encode [of "drop_bit 2 pos" buf] BCJ_POWERPC show ?thesis
    by (simp add: bcj_filter_def bcj_encode_def keep_mask_def filter_loops)
next
  case BCJ_IA64
  then have "pos = push_bit 4 (drop_bit 4 pos)" using assms(1) by (intro aligned_pos) (simp add: bcj_align_def)
  with ia64.decode_encode [of "drop_bit 4 pos" buf] BCJ_IA64 show ?thesis
    by (simp add: bcj_filter_def bcj_encode_def keep_mask_def bcj_ia64_def)
next
  case BCJ_ARM
  then have "pos = push_bit 2 (drop_bit 2 pos)" using assms(1) by (intro aligned_pos) (simp add: bcj_align_def)
  with arm.decode_encode [of "drop_bit 2 pos" buf] BCJ_ARM show ?thesis
    by (simp add: bcj_filter_def bcj_encode_def keep_mask_def bcj_arm_def)
next
  case BCJ_ARMTHUMB
  with thumb_round_trip [of pos buf] assms(1) show ?thesis
    by (simp add: bcj_filter_def bcj_encode_def keep_mask_def bcj_align_def)
next
  case BCJ_SPARC
  then have "pos = push_bit 2 (drop_bit 2 pos)" using assms(1) by (intro aligned_pos) (simp add: bcj_align_def)
  with sparc.decode_encode [of "drop_bit 2 pos" buf] BCJ_SPARC show ?thesis
    by (simp add: bcj_filter_def bcj_encode_def keep_mask_def filter_loops)
next
  case BCJ_ARM64
  with arm64.decode_encode [of pos buf] show ?thesis
    by (simp add: bcj_filter_def bcj_encode_def keep_mask_def filter_loops)
qed

definition ppc_sample :: "u8 list" where
  "ppc_sample = [0x60, 0, 0, 0, 0x48, 0, 0, 0x11, 0x4E]"

lemma bcj_round_trip_witness:
  "bcj_filter BCJ_POWERPC 0x1000 0 [0x60, 0, 0, 0, 0x48, 0, 0x10, 0x15, 0x4E] 9 = Some (8, 0, ppc_sample)
   \<and> ok (bcj_filter BCJ_POWERPC 0x1000 0 (bcj_encode BCJ_POWERPC 0x1000 0 ppc_sample) (length ppc_sample)) (\<lambda>(n, m', ys). ys = ppc_sample)
   \<and> ok (bcj_filter BCJ_X86 7 3 (bcj_encode BCJ_X86 7 3 ppc_sample) (length ppc_sample)) (\<lambda>(n, m', ys). ys = ppc_sample)"
proof (intro conjI)
  show "bcj_filter BCJ_POWERPC 0x1000 0 [0x60, 0, 0, 0, 0x48, 0, 0x10, 0x15, 0x4E] 9 = Some (8, 0, ppc_sample)"
    by (simp add: bcj_filter_def keep_mask_def bcj_powerpc_def bcj_loop.simps get_unaligned_be32_def put_unaligned_be32_def
        powerpc_instr_def ppc_sample_def)
qed (rule bcj_round_trip; simp add: bcj_align_def ppc_sample_def)+

text \<open>
  C18: a filter can be run piecewise. On a buffer it finishes with all bytes except fewer
  than sixteen at the end, which it does not change; run again later, on those bytes and
  the data that follows, at the new position and with the mask it left behind, it gives
  exactly what it would have given on all the data at once. The filter always returns: no
  input makes the search loop of the x86 filter spin.
\<close>
theorem bcj_filter_streams: "streams (\<lambda>pos m buf. bcj_filter t pos m buf (length buf))"
  by (rule bcj_streams)

end
