(* ===== verification/Bcj.thy ===== *)
theory Bcj
  imports Lzma2 Bcj_Filters
begin

unbundle bit_operations_syntax

text \<open>
  The BCJ stage of the filter chain (\<open>xz_dec_bcj.c\<close>). It lets the next filter, LZMA2,
  decode into the caller's output buffer and applies a branch filter there. The filters work
  on blocks of up to sixteen bytes, so what cannot be filtered yet is moved to
  \<open>temp.buf\<close>, the block \<open>Bcj_Temp\<close> of sixteen bytes, and put back on the next call;
  when too little output space is left, LZMA2 decodes into \<open>temp.buf\<close> itself.

  The next filter is an interface (locale \<open>next_filter\<close>): what it may write, and when it can
  be called again. The theorems are proved from that interface and then instantiated with
  \<open>xz_dec_lzma2_run\<close>. They say that the stage stays within its buffers and that the bytes it
  outputs, over any sequence of calls with any buffer sizes, are the filtered bytes of the
  next filter.
\<close>

section \<open>The code\<close>

record xz_dec_bcj =
  bcj_kind :: bcj_type
  bcj_ret :: xz_ret
  bcj_single_call :: bool
  bcj_pos :: u32
  x86_prev_mask :: u32
  bcj_out :: ptr
  bcj_out_pos :: nat
  bcj_out_size :: nat
  temp_filtered :: nat
  bcj_temp_size :: nat

definition BCJ_TEMP_SIZE :: nat where
  \<comment> \<open>\<open>sizeof(s->temp.buf)\<close>\<close>
  "BCJ_TEMP_SIZE = 16"

definition bcj_enabled :: "xz_env \<Rightarrow> bcj_type \<Rightarrow> bool" where
  \<comment> \<open>the \<open>#ifdef\<close>s around the cases of the \<open>switch\<close> statements\<close>
  "bcj_enabled e t =
     (case t of BCJ_X86 \<Rightarrow> XZ_DEC_X86 e | BCJ_POWERPC \<Rightarrow> XZ_DEC_POWERPC e | BCJ_IA64 \<Rightarrow> XZ_DEC_IA64 e
      | BCJ_ARM \<Rightarrow> XZ_DEC_ARM e | BCJ_ARMTHUMB \<Rightarrow> XZ_DEC_ARMTHUMB e | BCJ_SPARC \<Rightarrow> XZ_DEC_SPARC e
      | BCJ_ARM64 \<Rightarrow> XZ_DEC_ARM64 e)"

definition bcj_apply ::
  "xz_env \<Rightarrow> mem \<Rightarrow> xz_dec_bcj \<Rightarrow> ptr \<Rightarrow> nat \<Rightarrow> nat \<Rightarrow> (nat \<times> xz_dec_bcj \<times> mem) option" where
  \<comment> \<open>also returns the new value of \<open>*pos\<close>\<close>
  "bcj_apply e m s buf pos sz = do {
     let buf = ptr_add buf pos;
     let sz = sz_sub sz pos;
     bytes \<leftarrow> load_bytes m buf sz;
     (filtered, prev_mask, bytes) \<leftarrow>
       (if bcj_enabled e (bcj_kind s) then bcj_filter (bcj_kind s) (bcj_pos s) (x86_prev_mask s) bytes sz
        else Some (0, x86_prev_mask s, bytes));
     m \<leftarrow> store_bytes m buf bytes;
     Some (sz_add pos filtered, s\<lparr>bcj_pos := bcj_pos s + word_of_nat filtered, x86_prev_mask := prev_mask\<rparr>, m)
   }"

definition bcj_flush :: "mem \<Rightarrow> xz_dec_bcj \<Rightarrow> xz_buf \<Rightarrow> (xz_dec_bcj \<times> xz_buf \<times> mem) option" where
  "bcj_flush m s b = do {
     let copy_size = min (temp_filtered s) (sz_sub (b_out_size b) (b_out_pos b));
     m \<leftarrow> memcpy m (ptr_add (b_out b) (b_out_pos b)) (Bcj_Temp, 0) copy_size;
     let b = b\<lparr>b_out_pos := sz_add (b_out_pos b) copy_size\<rparr>;
     let s = s\<lparr>temp_filtered := sz_sub (temp_filtered s) copy_size, bcj_temp_size := sz_sub (bcj_temp_size s) copy_size\<rparr>;
     m \<leftarrow> memmove m (Bcj_Temp, 0) (Bcj_Temp, copy_size) (bcj_temp_size s);
     Some (s, b, m)
   }"

type_synonym 'l next_run = "mem \<Rightarrow> 'l \<Rightarrow> xz_buf \<Rightarrow> (xz_ret \<times> 'l \<times> xz_buf \<times> mem) option"
type_synonym 'l bcj_result = "xz_ret option \<times> xz_dec_bcj \<times> 'l \<times> xz_buf \<times> mem"
  \<comment> \<open>\<open>Some r\<close>: the function returned \<open>r\<close>; \<open>None\<close>: it goes on\<close>

definition bcj_pending :: "mem \<Rightarrow> xz_dec_bcj \<Rightarrow> 'l \<Rightarrow> xz_buf \<Rightarrow> 'l bcj_result option" where
  \<comment> \<open>flush what was filtered before\<close>
  "bcj_pending m s l b =
     (if temp_filtered s > 0 then do {
        (s, b, m) \<leftarrow> bcj_flush m s b;
        Some (if temp_filtered s > 0 then Some XZ_OK
              else if bcj_ret s = XZ_STREAM_END then Some XZ_STREAM_END else None, s, l, b, m)
      }
      else Some (None, s, l, b, m))"

definition bcj_direct :: "'l next_run \<Rightarrow> xz_env \<Rightarrow> mem \<Rightarrow> xz_dec_bcj \<Rightarrow> 'l \<Rightarrow> xz_buf \<Rightarrow> 'l bcj_result option" where
  \<comment> \<open>decode into the output buffer\<close>
  "bcj_direct run e m s l b =
     (if bcj_temp_size s < sz_sub (b_out_size b) (b_out_pos b) \<or> bcj_temp_size s = 0 then do {
        let out_start = b_out_pos b;
        m \<leftarrow> memcpy m (ptr_add (b_out b) (b_out_pos b)) (Bcj_Temp, 0) (bcj_temp_size s);
        let b = b\<lparr>b_out_pos := sz_add (b_out_pos b) (bcj_temp_size s)\<rparr>;
        (ret, l, b, m) \<leftarrow> run m l b;
        let s = s\<lparr>bcj_ret := ret\<rparr>;
        if ret \<noteq> XZ_STREAM_END \<and> (ret \<noteq> XZ_OK \<or> bcj_single_call s) then Some (Some ret, s, l, b, m)
        else do {
          (out_start, s, m) \<leftarrow> bcj_apply e m s (b_out b) out_start (b_out_pos b);
          if ret = XZ_STREAM_END then Some (Some XZ_STREAM_END, s, l, b, m)
          else do {
            let s = s\<lparr>bcj_temp_size := sz_sub (b_out_pos b) out_start\<rparr>;
            let b = b\<lparr>b_out_pos := sz_sub (b_out_pos b) (bcj_temp_size s)\<rparr>;
            m \<leftarrow> memcpy m (Bcj_Temp, 0) (ptr_add (b_out b) (b_out_pos b)) (bcj_temp_size s);
            if sz_add (b_out_pos b) (bcj_temp_size s) < b_out_size b then Some (Some XZ_OK, s, l, b, m)
            else Some (None, s, l, b, m)
          }
        }
      }
      else Some (None, s, l, b, m))"

definition bcj_via_temp :: "'l next_run \<Rightarrow> xz_env \<Rightarrow> mem \<Rightarrow> xz_dec_bcj \<Rightarrow> 'l \<Rightarrow> xz_buf \<Rightarrow> 'l bcj_result option" where
  \<comment> \<open>decode into \<open>temp.buf\<close>\<close>
  "bcj_via_temp run e m s l b =
     (if b_out_pos b < b_out_size b then do {
        let s = s\<lparr>bcj_out := b_out b, bcj_out_pos := b_out_pos b, bcj_out_size := b_out_size b\<rparr>;
        let b = b\<lparr>b_out := (Bcj_Temp, 0), b_out_pos := bcj_temp_size s, b_out_size := BCJ_TEMP_SIZE\<rparr>;
        (ret, l, b, m) \<leftarrow> run m l b;
        let s = s\<lparr>bcj_ret := ret, bcj_temp_size := b_out_pos b\<rparr>;
        let b = b\<lparr>b_out := bcj_out s, b_out_pos := bcj_out_pos s, b_out_size := bcj_out_size s\<rparr>;
        if ret \<noteq> XZ_OK \<and> ret \<noteq> XZ_STREAM_END then Some (Some ret, s, l, b, m)
        else do {
          (filtered, s, m) \<leftarrow> bcj_apply e m s (Bcj_Temp, 0) (temp_filtered s) (bcj_temp_size s);
          let s = s\<lparr>temp_filtered := (if ret = XZ_STREAM_END then bcj_temp_size s else filtered)\<rparr>;
          (s, b, m) \<leftarrow> bcj_flush m s b;
          Some (if temp_filtered s > 0 then Some XZ_OK else None, s, l, b, m)
        }
      }
      else Some (None, s, l, b, m))"

definition bcj_run :: "'l next_run \<Rightarrow> xz_env \<Rightarrow> mem \<Rightarrow> xz_dec_bcj \<Rightarrow> 'l \<Rightarrow> xz_buf \<Rightarrow> (xz_ret \<times> xz_dec_bcj \<times> 'l \<times> xz_buf \<times> mem) option" where
  \<comment> \<open>\<open>xz_dec_bcj_run\<close>, with the function it calls for the next filter\<close>
  "bcj_run run e m s l b = do {
     (r, s, l, b, m) \<leftarrow> bcj_pending m s l b;
     case r of Some ret \<Rightarrow> Some (ret, s, l, b, m)
     | None \<Rightarrow> do {
         (r, s, l, b, m) \<leftarrow> bcj_direct run e m s l b;
         case r of Some ret \<Rightarrow> Some (ret, s, l, b, m)
         | None \<Rightarrow> do {
             (r, s, l, b, m) \<leftarrow> bcj_via_temp run e m s l b;
             case r of Some ret \<Rightarrow> Some (ret, s, l, b, m) | None \<Rightarrow> Some (bcj_ret s, s, l, b, m)
           }
       }
   }"

definition xz_dec_bcj_run ::
  "xz_env \<Rightarrow> mem \<Rightarrow> xz_dec_bcj \<Rightarrow> xz_dec_lzma2 \<Rightarrow> xz_buf \<Rightarrow> (xz_ret \<times> xz_dec_bcj \<times> xz_dec_lzma2 \<times> xz_buf \<times> mem) option" where
  "xz_dec_bcj_run e = bcj_run (xz_dec_lzma2_run e) e"

definition xz_dec_bcj_create :: "xz_dec_bcj option \<Rightarrow> mem \<Rightarrow> bool \<Rightarrow> xz_dec_bcj option \<times> mem" where
  \<comment> \<open>\<open>kmalloc\<close> stands for the memory it returned, with whatever it contains\<close>
  "xz_dec_bcj_create kmalloc m single_call =
     (case kmalloc of None \<Rightarrow> (None, m) | Some s \<Rightarrow> (Some (s\<lparr>bcj_single_call := single_call\<rparr>), m))"

definition bcj_type_of_id :: "nat \<Rightarrow> bcj_type option" where
  \<comment> \<open>the values of the enumeration\<close>
  "bcj_type_of_id n = map_of
     [(4, BCJ_X86), (5, BCJ_POWERPC), (6, BCJ_IA64), (7, BCJ_ARM), (8, BCJ_ARMTHUMB), (9, BCJ_SPARC), (10, BCJ_ARM64)] n"

definition xz_dec_bcj_reset :: "xz_env \<Rightarrow> xz_dec_bcj \<Rightarrow> u8 \<Rightarrow> xz_ret \<times> xz_dec_bcj" where
  "xz_dec_bcj_reset e s filter_id =
     (case bcj_type_of_id (unat filter_id) of
        Some t \<Rightarrow>
          if bcj_enabled e t
          then (XZ_OK, s\<lparr>bcj_kind := t, bcj_ret := XZ_OK, bcj_pos := 0, x86_prev_mask := 0, temp_filtered := 0, bcj_temp_size := 0\<rparr>)
          else (XZ_OPTIONS_ERROR, s)
      | None \<Rightarrow> (XZ_OPTIONS_ERROR, s))"

section \<open>How much a filter leaves\<close>

definition bcj_tail :: "bcj_type \<Rightarrow> nat" where
  "bcj_tail t = (case t of BCJ_X86 \<Rightarrow> 4 | BCJ_IA64 \<Rightarrow> 15 | _ \<Rightarrow> 3)"

lemma block_tail:
  assumes "block_filter k conv body" and "keep_mask m (bcj_loop k body (length xs) 0 xs) = Some (n, m1, ys)"
  shows "n = k * (length xs div k)"
  using assms(2) by (simp add: keep_mask_def block_filter.loop_result [OF assms(1)])

lemma whole_blocks: "0 < k \<Longrightarrow> n - k * (n div k) < (k :: nat)" "0 < k \<Longrightarrow> k \<le> n \<Longrightarrow> k \<le> k * (n div k)"
proof -
  assume k: "0 < k"
  show "n - k * (n div k) < k" using k by (simp flip: minus_mod_eq_mult_div)
  assume "k \<le> n"
  then have "1 \<le> n div k" using k by (simp add: Suc_leI div_greater_zero_iff)
  then show "k \<le> k * (n div k)" by simp
qed

lemma block_tail_bounds:
  assumes "block_filter k conv body" and "keep_mask m (bcj_loop k body (length xs) 0 xs) = Some (n, m1, ys)"
  shows "length xs - n < k" and "k \<le> length xs \<Longrightarrow> k \<le> n" and "n = k * (length xs div k)"
  using block_tail [OF assms] whole_blocks [OF block_filter.k_pos [OF assms(1)]] by simp_all

lemma bcj_filter_tail:
  assumes "bcj_filter t pos m xs (length xs) = Some (n, m1, ys)" and "length xs < 2 ^ 63"
  shows "length xs - n \<le> bcj_tail t" and "16 \<le> length xs \<Longrightarrow> bcj_tail t \<le> n"
proof -
  have four: "length xs - n \<le> 3 \<and> (16 \<le> length xs \<longrightarrow> 3 \<le> n)"
    if "block_filter 4 conv body" "keep_mask m (bcj_loop 4 body (length xs) 0 xs) = Some (n, m1, ys)" for conv body
    using block_tail_bounds [OF that] by linarith
  have "length xs - n \<le> bcj_tail t \<and> (16 \<le> length xs \<longrightarrow> bcj_tail t \<le> n)"
  proof (cases t)
    case BCJ_X86
    obtain k d m' zs where r: "x86_scan (-) pos 1 m xs = (k, d, m', zs)" by (cases "x86_scan (-) pos 1 m xs") auto
    with assms BCJ_X86 have "n = k" by (simp add: bcj_filter_def bcj_x86_scan)
    with x86_scan_bound [OF r] BCJ_X86 show ?thesis by (auto simp: bcj_tail_def)
  next
    case BCJ_IA64
    then have "keep_mask m (bcj_loop 16 (ia64_step pos) (length xs) 0 xs) = Some (n, m1, ys)"
      using assms(1) by (simp add: bcj_filter_def bcj_ia64_def)
    from block_tail_bounds [OF ia64_block this] BCJ_IA64 show ?thesis by (auto simp: bcj_tail_def)
  next
    case BCJ_ARMTHUMB
    then have "n = thumb_done xs" using assms(1) by (simp add: bcj_filter_def keep_mask_def bcj_armthumb_conv)
    with thumb_done_bound [of xs] BCJ_ARMTHUMB show ?thesis by (auto simp: bcj_tail_def)
  next
    case BCJ_POWERPC
    with assms(1) show ?thesis using four [OF be_block] by (simp add: bcj_filter_def filter_loops bcj_tail_def)
  next
    case BCJ_ARM
    with assms(1) show ?thesis using four [OF arm_block] by (simp add: bcj_filter_def bcj_arm_def bcj_tail_def)
  next
    case BCJ_SPARC
    with assms(1) show ?thesis using four [OF be_block] by (simp add: bcj_filter_def filter_loops bcj_tail_def)
  next
    case BCJ_ARM64
    with assms(1) show ?thesis using four [OF le_block] by (simp add: bcj_filter_def filter_loops bcj_tail_def)
  qed
  then show "length xs - n \<le> bcj_tail t" and "16 \<le> length xs \<Longrightarrow> bcj_tail t \<le> n" by simp_all
qed

section \<open>Copying\<close>

definition mem_bytes :: "mem \<Rightarrow> ptr \<Rightarrow> nat \<Rightarrow> u8 list" where
  "mem_bytes m p n = take n (drop (snd p) (m (fst p)))"

lemma length_mem_bytes [simp]: "n \<le> room m p \<Longrightarrow> length (mem_bytes m p n) = n"
  by (simp add: mem_bytes_def room_def)

lemma load_mem_bytes: "n \<le> room m p \<Longrightarrow> load_bytes m p n = Some (mem_bytes m p n)"
  by (auto simp: load_bytes_def mem_bytes_def room_def)

definition mem_put :: "mem \<Rightarrow> ptr \<Rightarrow> u8 list \<Rightarrow> mem" where
  "mem_put m p bs = m(fst p := splice (m (fst p)) (snd p) bs)"

lemma store_mem_put: "length bs \<le> room m p \<Longrightarrow> store_bytes m p bs = Some (mem_put m p bs) \<and> same_shape m (mem_put m p bs)"
  using ok_store_splice [of bs m p] by (simp add: mem_put_def)

lemma memmove_put: "n \<le> room m dst \<Longrightarrow> n \<le> room m src \<Longrightarrow> memmove m dst src n = Some (mem_put m dst (mem_bytes m src n))"
  by (simp add: memmove_def load_mem_bytes store_mem_put)

lemma memcpy_put:
  "n \<le> room m dst \<Longrightarrow> n \<le> room m src \<Longrightarrow> fst dst \<noteq> fst src \<Longrightarrow> memcpy m dst src n = Some (mem_put m dst (mem_bytes m src n))"
  by (simp add: memcpy_def overlap_def memmove_put)

lemma mem_put_other [simp]: "k \<noteq> fst p \<Longrightarrow> mem_put m p bs k = m k"
  by (simp add: mem_put_def)

lemma mem_put_Nil [simp]: "mem_put m p [] = m"
  by (simp add: mem_put_def)

lemma mem_bytes_other: "m' (fst p) = m (fst p) \<Longrightarrow> mem_bytes m' p n = mem_bytes m p n"
  by (simp add: mem_bytes_def)

lemma room_nonempty: "bs \<noteq> [] \<Longrightarrow> length bs \<le> room m p \<Longrightarrow> snd p + length bs \<le> length (m (fst p))"
  by (cases bs) (auto simp: room_def)

lemma mem_bytes_put: "length bs \<le> room m p \<Longrightarrow> n = length bs \<Longrightarrow> mem_bytes (mem_put m p bs) p n = bs"
proof (cases "bs = []")
  case False
  assume "length bs \<le> room m p" "n = length bs"
  with room_nonempty [OF False this(1)] show ?thesis by (simp add: mem_bytes_def mem_put_def take_drop_splice)
qed (simp add: mem_bytes_def)

lemma mem_bytes_add: "mem_bytes m p (i + n) = mem_bytes m p i @ mem_bytes m (ptr_add p i) n"
  by (simp add: mem_bytes_def take_add add.commute)

text \<open>Bytes before the place where something is written.\<close>

lemma mem_bytes_before:
  assumes "length bs \<le> room m p" and "fst q = fst p" and "snd q + n \<le> snd p"
  shows "mem_bytes (mem_put m p bs) q n = mem_bytes m q n"
proof (cases "bs = []")
  case False
  then show ?thesis
    using room_nonempty [OF False assms(1)] assms(2,3) by (intro nth_equalityI) (auto simp: mem_bytes_def mem_put_def nth_splice)
qed simp


section \<open>Applying a filter and flushing\<close>

lemma ok_bcj_filter:
  assumes "length xs < 2 ^ 63"
  shows "ok (bcj_filter t pos m xs (length xs)) (\<lambda>(n, m1, ys). n \<le> length xs \<and> length ys = length xs \<and> drop n ys = drop n xs)"
  using bcj_streams [of t] assms unfolding streams_def by (blast intro: ok_mono)

lemma ok_bcj_apply:
  assumes "bcj_enabled e (bcj_kind s)" and "pos \<le> sz" and "sz < 2 ^ 63" and "sz \<le> room m p"
  shows "ok (bcj_apply e m s p pos sz) (\<lambda>(pos', s', m'). \<exists>n m1 ys.
    bcj_filter (bcj_kind s) (bcj_pos s) (x86_prev_mask s) (mem_bytes m (ptr_add p pos) (sz - pos)) (sz - pos) = Some (n, m1, ys) \<and>
    n \<le> sz - pos \<and> length ys = sz - pos \<and> drop n ys = drop n (mem_bytes m (ptr_add p pos) (sz - pos)) \<and>
    pos' = pos + n \<and> s' = s\<lparr>bcj_pos := bcj_pos s + word_of_nat n, x86_prev_mask := m1\<rparr> \<and>
    m' = mem_put m (ptr_add p pos) ys \<and> same_shape m m')"
proof -
  let ?p = "ptr_add p pos" and ?n = "sz - pos"
  have room: "?n \<le> room m ?p" using assms(2,4) by (auto simp: room_ptr_add)
  have sub: "sz_sub sz pos = ?n" using assms(2,3) by simp
  have "length (mem_bytes m ?p ?n) < 2 ^ 63" using room assms(3) by simp
  from ok_bcj_filter [OF this, of "bcj_kind s" "bcj_pos s" "x86_prev_mask s"] obtain n m1 ys
    where f: "bcj_filter (bcj_kind s) (bcj_pos s) (x86_prev_mask s) (mem_bytes m ?p ?n) ?n = Some (n, m1, ys)"
      and n: "n \<le> ?n" "length ys = ?n" "drop n ys = drop n (mem_bytes m ?p ?n)"
    using room by (auto simp: ok_iff)
  have add: "sz_add pos n = pos + n" using n(1) assms(2,3) by simp
  have st: "store_bytes m ?p ys = Some (mem_put m ?p ys)" "same_shape m (mem_put m ?p ys)"
    using store_mem_put [of ys m ?p] n(2) room by simp_all
  show ?thesis
    using assms(1) n unfolding bcj_apply_def Let_def sub load_mem_bytes [OF room]
    by (simp add: f st add)
qed

definition temp_bytes :: "mem \<Rightarrow> nat \<Rightarrow> u8 list" where
  "temp_bytes m n = mem_bytes m (Bcj_Temp, 0) n"

lemma length_temp_bytes [simp]: "n \<le> length (m Bcj_Temp) \<Longrightarrow> length (temp_bytes m n) = n"
  by (simp add: temp_bytes_def room_def)

definition out_at :: "xz_buf \<Rightarrow> ptr" where
  "out_at b = ptr_add (b_out b) (b_out_pos b)"

lemma fst_out_at [simp]: "fst (out_at b) = fst (b_out b)"
  by (simp add: out_at_def)

lemma room_out_at: "valid_buf m b \<Longrightarrow> n \<le> b_out_size b - b_out_pos b \<Longrightarrow> n \<le> room m (out_at b)"
  by (auto simp: valid_buf_def out_at_def room_ptr_add)

lemma ok_bcj_flush:
  assumes vb: "valid_buf m b" and "fst (b_out b) \<noteq> Bcj_Temp" and "temp_filtered s \<le> bcj_temp_size s"
    and "bcj_temp_size s \<le> 16" and "length (m Bcj_Temp) = 16"
  defines "c \<equiv> min (temp_filtered s) (b_out_size b - b_out_pos b)"
  shows "ok (bcj_flush m s b) (\<lambda>(s', b', m').
    s' = s\<lparr>temp_filtered := temp_filtered s - c, bcj_temp_size := bcj_temp_size s - c\<rparr> \<and>
    b' = b\<lparr>b_out_pos := b_out_pos b + c\<rparr> \<and> valid_buf m' b' \<and> same_shape m m' \<and>
    m' (fst (b_out b)) = mem_put m (out_at b) (temp_bytes m c) (fst (b_out b)) \<and>
    temp_bytes m' (bcj_temp_size s - c) = drop c (temp_bytes m (bcj_temp_size s)) \<and>
    (\<forall>k. k \<noteq> Bcj_Temp \<and> k \<noteq> fst (b_out b) \<longrightarrow> m' k = m k))"
proof -
  have pos: "b_out_pos b \<le> b_out_size b" "b_out_size b < 2 ^ 63" using vb by (auto simp: valid_buf_def)
  have c: "c \<le> temp_filtered s" "c \<le> b_out_size b - b_out_pos b" "c \<le> 16" "c \<le> bcj_temp_size s"
    using assms(3,4) by (auto simp: c_def)
  have arith: "min (temp_filtered s) (sz_sub (b_out_size b) (b_out_pos b)) = c" "sz_add (b_out_pos b) c = b_out_pos b + c"
      "sz_sub (temp_filtered s) c = temp_filtered s - c" "sz_sub (bcj_temp_size s) c = bcj_temp_size s - c"
    using pos c assms(3,4) by (simp_all add: c_def)
  have room: "c \<le> room m (out_at b)" by (rule room_out_at [OF vb c(2)])
  have temp: "c \<le> room m (Bcj_Temp, 0)" using c(3) assms(5) by (simp add: room_def)
  let ?m1 = "mem_put m (out_at b) (temp_bytes m c)"
  have cp: "memcpy m (ptr_add (b_out b) (b_out_pos b)) (Bcj_Temp, 0) c = Some ?m1"
    using memcpy_put [OF room temp] assms(2) by (simp add: out_at_def temp_bytes_def)
  have s1: "same_shape m ?m1" using store_mem_put [of "temp_bytes m c" m "out_at b"] room c(3) assms(5) by simp
  then have len1: "length (?m1 Bcj_Temp) = 16" using assms(5) by (simp add: same_shape_def)
  let ?rest = "mem_bytes ?m1 (Bcj_Temp, c) (bcj_temp_size s - c)"
  let ?m2 = "mem_put ?m1 (Bcj_Temp, 0) ?rest"
  have rest_room: "bcj_temp_size s - c \<le> room ?m1 (Bcj_Temp, c)" "bcj_temp_size s - c \<le> room ?m1 (Bcj_Temp, 0)"
    using len1 assms(4) c by (simp_all add: room_def)
  have mv: "memmove ?m1 (Bcj_Temp, 0) (Bcj_Temp, c) (bcj_temp_size s - c) = Some ?m2"
    by (rule memmove_put [OF rest_room(2,1)])
  have s2: "same_shape ?m1 ?m2" using store_mem_put [of ?rest ?m1 "(Bcj_Temp, 0)"] rest_room by simp
  have "valid_buf ?m2 (b\<lparr>b_out_pos := b_out_pos b + c\<rparr>)"
    using vb pos c valid_buf_shape [OF same_shape_trans [OF s1 s2]] by (auto simp: valid_buf_def)
  moreover have "temp_bytes ?m2 (bcj_temp_size s - c) = ?rest"
    unfolding temp_bytes_def [of ?m2] by (rule mem_bytes_put) (use rest_room in simp_all)
  moreover have "?rest = drop c (temp_bytes m (bcj_temp_size s))"
    using assms(2) by (simp add: mem_bytes_def temp_bytes_def drop_take)
  ultimately show ?thesis
    using assms(2) same_shape_trans [OF s1 s2] unfolding bcj_flush_def Let_def arith
    by (simp add: cp mv arith)
qed


section \<open>The next filter\<close>

text \<open>
  What the stage relies on. \<open>own\<close> are the blocks the next filter keeps its state in. A
  filter in multi-call mode writes to the output buffer only between the old and the new
  position, and can go on with another output buffer; that is how the stage gives it
  \<open>temp.buf\<close>.
\<close>

locale next_filter =
  fixes run :: "'l next_run"
    and ready :: "mem \<Rightarrow> 'l \<Rightarrow> xz_buf \<Rightarrow> bool"
    and multi :: "'l \<Rightarrow> bool"
    and own :: "block set"
  assumes run_ok: "ready m l b \<Longrightarrow> ok (run m l b) (\<lambda>(ret, l', b', m').
      same_shape m m' \<and> buf_frame b b' \<and> valid_buf m' b' \<and> multi l' = multi l \<and>
      (\<forall>k. k \<notin> own \<and> k \<noteq> fst (b_out b) \<longrightarrow> m' k = m k) \<and>
      (multi l \<and> fst (b_in b) \<noteq> fst (b_out b) \<longrightarrow> out_kept m b m' b') \<and>
      ret \<in> {XZ_OK, XZ_STREAM_END, XZ_DATA_ERROR} \<and> (ret \<noteq> XZ_DATA_ERROR \<longrightarrow> ready m' l' b') \<and>
      (ret = XZ_OK \<longrightarrow> b_in_pos b' = b_in_size b' \<or> b_out_pos b' = b_out_size b'))"
    and ready_valid: "ready m l b \<Longrightarrow> valid_buf m b"
    and ready_apart: "ready m l b \<Longrightarrow> multi l \<Longrightarrow> fst (b_in b) \<notin> own \<and> fst (b_out b) \<notin> own"
    and ready_move: "ready m l b \<Longrightarrow> multi l \<Longrightarrow> (\<forall>k\<in>own. m' k = m k) \<Longrightarrow> valid_buf m' b' \<Longrightarrow>
      fst (b_in b') \<notin> own \<Longrightarrow> fst (b_out b') \<notin> own \<Longrightarrow> ready m' l b'"
    and own_temp: "Bcj_Temp \<notin> own"

definition out_bytes :: "mem \<Rightarrow> xz_buf \<Rightarrow> xz_buf \<Rightarrow> u8 list" where
  \<comment> \<open>what was written to the output between two positions\<close>
  "out_bytes m b b' = mem_bytes m (out_at b) (b_out_pos b' - b_out_pos b)"

inductive feeds :: "'l next_run \<Rightarrow> (mem \<Rightarrow> 'l \<Rightarrow> xz_buf \<Rightarrow> bool) \<Rightarrow> 'l \<Rightarrow> u8 list \<Rightarrow> 'l \<Rightarrow> bool" for run ready where
  \<comment> \<open>calls of the next filter that it is ready for, and all they output\<close>
  feeds_none: "feeds run ready l [] l"
| feeds_call: "ready m l b \<Longrightarrow> run m l b = Some (ret, l1, b1, m1) \<Longrightarrow> feeds run ready l1 bs l2 \<Longrightarrow> feeds run ready l (out_bytes m1 b b1 @ bs) l2"

lemma feeds_one: "ready m l b \<Longrightarrow> run m l b = Some (ret, l1, b1, m1) \<Longrightarrow> feeds run ready l (out_bytes m1 b b1) l1"
  using feeds_call [OF _ _ feeds_none, of ready m l b run ret l1 b1 m1] by simp

lemma feeds_trans: "feeds run ready l bs l1 \<Longrightarrow> feeds run ready l1 cs l2 \<Longrightarrow> feeds run ready l (bs @ cs) l2"
  by (induction rule: feeds.induct) (auto intro: feeds_call)

section \<open>State and output of the stage\<close>

definition bcj_ok :: "(mem \<Rightarrow> 'l \<Rightarrow> xz_buf \<Rightarrow> bool) \<Rightarrow> ('l \<Rightarrow> bool) \<Rightarrow> xz_env \<Rightarrow> mem \<Rightarrow> xz_dec_bcj \<Rightarrow> 'l \<Rightarrow> xz_buf \<Rightarrow> bool" where
  "bcj_ok ready multi e m s l b \<longleftrightarrow> ready m l b \<and> length (m Bcj_Temp) = BCJ_TEMP_SIZE \<and>
     fst (b_in b) \<noteq> Bcj_Temp \<and> fst (b_out b) \<noteq> Bcj_Temp \<and>
     temp_filtered s \<le> bcj_temp_size s \<and> bcj_temp_size s \<le> BCJ_TEMP_SIZE \<and>
     bcj_temp_size s - temp_filtered s \<le> bcj_tail (bcj_kind s) \<and>
     bcj_single_call s = (\<not> multi l) \<and> (bcj_single_call s \<longrightarrow> bcj_temp_size s = 0) \<and> bcj_enabled e (bcj_kind s) \<and>
     bcj_ret s \<in> {XZ_OK, XZ_STREAM_END} \<and>
     (bcj_ret s = XZ_STREAM_END \<longrightarrow> 0 < temp_filtered s \<and> temp_filtered s = bcj_temp_size s)"

text \<open>The filter on everything the next filter has put out so far (\<open>raw\<close>), and how it is
  split between what the stage has put out (\<open>em\<close>), \<open>temp.buf\<close>, and what is still
  unfiltered.\<close>

definition bcj_image :: "bcj_type \<Rightarrow> u8 list \<Rightarrow> u8 list" where
  "bcj_image t raw = (case bcj_filter t 0 0 raw (length raw) of Some (n, m, ys) \<Rightarrow> ys | None \<Rightarrow> [])"

definition bcj_stream :: "mem \<Rightarrow> xz_dec_bcj \<Rightarrow> u8 list \<Rightarrow> u8 list \<Rightarrow> bool" where
  "bcj_stream m s raw em \<longleftrightarrow> (\<exists>n m3 us. bcj_filter (bcj_kind s) 0 0 raw (length raw) = Some (n, m3, us) \<and>
     bcj_pos s = word_of_nat n \<and> x86_prev_mask s AND 7 = m3 AND 7 \<and>
     (if bcj_ret s = XZ_STREAM_END then em @ temp_bytes m (temp_filtered s) = us
      else em @ temp_bytes m (temp_filtered s) = take n us \<and>
           drop (temp_filtered s) (temp_bytes m (bcj_temp_size s)) = drop n us))"

text \<open>New bytes \<open>zs\<close> come: filtering them together with the unfiltered rest continues the
  filter.\<close>

lemma stream_extend:
  assumes "bcj_filter t 0 0 raw (length raw) = Some (n, m3, us)" and "m' AND 7 = m3 AND 7" and "length (raw @ zs) < 2 ^ 63"
    and "bcj_filter t (word_of_nat n) m' (drop n us @ zs) (length (drop n us @ zs)) = Some (n2, m2, ws)"
  shows "\<exists>m4. bcj_filter t 0 0 (raw @ zs) (length (raw @ zs)) = Some (n + n2, m4, take n us @ ws) \<and> m2 AND 7 = m4 AND 7
    \<and> n \<le> length us"
proof -
  let ?f = "\<lambda>pos m buf. bcj_filter t pos m buf (length buf)"
  have "length raw < 2 ^ 63" using assms(3) by simp
  with bcj_streams [of t] have b: "ok (?f 0 0 raw) (\<lambda>(n, m1, ys). n \<le> length raw \<and> length raw < n + 16 \<and> length ys = length raw \<and> drop n ys = drop n raw)"
    and g: "ok (?f 0 0 raw) (goes_on ?f 0 0 raw zs)"
    using assms(3) unfolding streams_def by blast+
  from b have n: "n \<le> length us" by (simp add: assms(1))
  from g have "goes_on ?f 0 0 raw zs (n, m3, us)" by (simp only: assms(1) ok_Some)
  then have "ok (?f (word_of_nat n) m' (drop n us @ zs)) (\<lambda>(n2, m2, ws).
      ok (?f 0 0 (raw @ zs)) (\<lambda>(n3, m3, us'). n3 = n + n2 \<and> us' = take n us @ ws \<and> m3 AND 7 = m2 AND 7))"
    using assms(2) by (simp add: goes_on_def)
  then have "ok (?f 0 0 (raw @ zs)) (\<lambda>(n3, m3, us'). n3 = n + n2 \<and> us' = take n us @ ws \<and> m3 AND 7 = m2 AND 7)"
    by (simp only: assms(4) ok_Some prod.case)
  with n show ?thesis by (auto simp: ok_iff)
qed


definition bcj_frame :: "block set \<Rightarrow> ('l \<Rightarrow> bool) \<Rightarrow> mem \<Rightarrow> xz_dec_bcj \<Rightarrow> 'l \<Rightarrow> xz_buf \<Rightarrow> mem \<Rightarrow> xz_dec_bcj \<Rightarrow> 'l \<Rightarrow> xz_buf \<Rightarrow> bool" where
  "bcj_frame own multi m s l b m' s' l' b' \<longleftrightarrow> same_shape m m' \<and> buf_frame b b' \<and> valid_buf m' b' \<and>
     (\<forall>k. k \<notin> own \<and> k \<noteq> Bcj_Temp \<and> k \<noteq> fst (b_out b) \<longrightarrow> m' k = m k) \<and>
     bcj_kind s' = bcj_kind s \<and> bcj_single_call s' = bcj_single_call s \<and> multi l' = multi l \<and>
     (multi l \<and> fst (b_in b) \<noteq> fst (b_out b) \<longrightarrow> mem_bytes m' (b_out b) (b_out_pos b) = mem_bytes m (b_out b) (b_out_pos b))"

lemma bcj_frame_refl: "valid_buf m b \<Longrightarrow> bcj_kind s' = bcj_kind s \<Longrightarrow> bcj_single_call s' = bcj_single_call s \<Longrightarrow> bcj_frame own multi m s l b m s' l b"
  by (simp add: bcj_frame_def)

lemma take_mem_bytes: "i \<le> n \<Longrightarrow> take i (mem_bytes m p n) = mem_bytes m p i"
  by (simp add: mem_bytes_def min_def)

lemma mem_bytes_less: "mem_bytes m' p n = mem_bytes m p n \<Longrightarrow> i \<le> n \<Longrightarrow> mem_bytes m' p i = mem_bytes m p i"
  by (metis take_mem_bytes)

lemma bcj_frame_trans:
  assumes "bcj_frame own multi m s l b m1 s1 l1 b1" and "bcj_frame own multi m1 s1 l1 b1 m2 s2 l2 b2"
  shows "bcj_frame own multi m s l b m2 s2 l2 b2"
proof -
  have b1: "buf_frame b b1" "b_out_pos b \<le> b_out_pos b1" using assms(1) by (simp_all add: bcj_frame_def buf_frame_def)
  note sel = buf_frame_sel [OF b1(1)]
  have "mem_bytes m2 (b_out b) (b_out_pos b) = mem_bytes m (b_out b) (b_out_pos b)"
    if "multi l" "fst (b_in b) \<noteq> fst (b_out b)"
  proof -
    have "mem_bytes m2 (b_out b) (b_out_pos b1) = mem_bytes m1 (b_out b) (b_out_pos b1)"
      using assms that sel by (simp add: bcj_frame_def)
    from mem_bytes_less [OF this b1(2)] show ?thesis using assms(1) that by (simp add: bcj_frame_def)
  qed
  then show ?thesis
    using assms sel buf_frame_trans [of b b1 b2] same_shape_trans [of m m1 m2] unfolding bcj_frame_def by auto
qed

lemma out_at_next: "buf_frame b b1 \<Longrightarrow> out_at b1 = ptr_add (out_at b) (b_out_pos b1 - b_out_pos b)"
  using buf_frame_sel(2) [of b b1] by (simp add: out_at_def ptr_add_def buf_frame_def)

lemma mem_bytes_drop: "mem_bytes m (ptr_add p i) n = drop i (mem_bytes m p (i + n))"
  by (simp add: mem_bytes_def drop_take add.commute)

lemma out_bytes_trans:
  assumes "bcj_frame own multi m s l b m1 s1 l1 b1" and "bcj_frame own multi m1 s1 l1 b1 m2 s2 l2 b2"
    and "multi l" and "fst (b_in b) \<noteq> fst (b_out b)"
  shows "out_bytes m2 b b2 = out_bytes m1 b b1 @ out_bytes m2 b1 b2"
proof -
  have f: "buf_frame b b1" "buf_frame b1 b2" using assms(1,2) by (simp_all add: bcj_frame_def)
  then have p: "b_out_pos b \<le> b_out_pos b1" "b_out_pos b1 \<le> b_out_pos b2" by (simp_all add: buf_frame_def)
  let ?i = "b_out_pos b1 - b_out_pos b" and ?n = "b_out_pos b2 - b_out_pos b1"
  have "mem_bytes m2 (b_out b) (b_out_pos b1) = mem_bytes m1 (b_out b) (b_out_pos b1)"
    using assms buf_frame_sel [OF f(1)] by (simp add: bcj_frame_def)
  then have "mem_bytes m2 (out_at b) ?i = mem_bytes m1 (out_at b) ?i"
    using p unfolding out_at_def mem_bytes_drop by simp
  moreover have "b_out_pos b2 - b_out_pos b = ?i + ?n" using p by simp
  ultimately show ?thesis
    unfolding out_bytes_def out_at_next [OF f(1)] by (simp add: mem_bytes_add)
qed

text \<open>What one stage of \<open>xz_dec_bcj_run\<close> establishes.\<close>

fun bcj_post ::
  "'l next_run \<Rightarrow> (mem \<Rightarrow> 'l \<Rightarrow> xz_buf \<Rightarrow> bool) \<Rightarrow> ('l \<Rightarrow> bool) \<Rightarrow> block set \<Rightarrow> xz_env \<Rightarrow>
   mem \<Rightarrow> xz_dec_bcj \<Rightarrow> 'l \<Rightarrow> xz_buf \<Rightarrow> 'l bcj_result \<Rightarrow> bool" where
  "bcj_post run ready multi own e m s l b (r, s', l', b', m') \<longleftrightarrow>
     bcj_frame own multi m s l b m' s' l' b' \<and>
     (case r of
        None \<Rightarrow> bcj_ok ready multi e m' s' l' b' \<and> temp_filtered s' = 0
      | Some ret \<Rightarrow> ret \<in> {XZ_OK, XZ_STREAM_END, XZ_DATA_ERROR} \<and>
          (ret = XZ_OK \<longrightarrow> bcj_ok ready multi e m' s' l' b' \<and> (b_in_pos b' = b_in_size b' \<or> b_out_pos b' = b_out_size b'))) \<and>
     (\<exists>new. feeds run ready l new l' \<and>
       (\<forall>raw em. bcj_stream m s raw em \<and> length (raw @ new) < 2 ^ 63 \<and> fst (b_in b) \<noteq> fst (b_out b) \<longrightarrow>
          (r = Some XZ_STREAM_END \<longrightarrow> em @ out_bytes m' b b' = bcj_image (bcj_kind s) (raw @ new)) \<and>
          (multi l \<and> (r = None \<or> r = Some XZ_OK) \<longrightarrow> bcj_stream m' s' (raw @ new) (em @ out_bytes m' b b'))))"

lemma bcj_post_after:
  assumes "bcj_post run ready multi own e m s l b (None, s1, l1, b1, m1)"
    and "bcj_post run ready multi own e m1 s1 l1 b1 r" and "multi l"
  shows "bcj_post run ready multi own e m s l b r"
proof -
  obtain x s2 l2 b2 m2 where r: "r = (x, s2, l2, b2, m2)" by (cases r)
  have f: "bcj_frame own multi m s l b m1 s1 l1 b1" "bcj_frame own multi m1 s1 l1 b1 m2 s2 l2 b2"
    using assms(1,2) by (simp_all add: r)
  note out = out_bytes_trans [OF f assms(3)]
  have sel: "b_in b1 = b_in b" "b_out b1 = b_out b" "bcj_kind s1 = bcj_kind s" "multi l1"
    using f(1) buf_frame_sel [of b b1] assms(3) by (simp_all add: bcj_frame_def)
  from assms(1) obtain new1 where n1: "feeds run ready l new1 l1"
      "\<And>raw em. bcj_stream m s raw em \<Longrightarrow> length (raw @ new1) < 2 ^ 63 \<Longrightarrow> fst (b_in b) \<noteq> fst (b_out b) \<Longrightarrow>
         bcj_stream m1 s1 (raw @ new1) (em @ out_bytes m1 b b1)"
    using assms(3) by auto
  from assms(2) obtain new2 where n2: "feeds run ready l1 new2 l2"
      "\<And>raw em. bcj_stream m1 s1 raw em \<Longrightarrow> length (raw @ new2) < 2 ^ 63 \<Longrightarrow> fst (b_in b) \<noteq> fst (b_out b) \<Longrightarrow>
         (x = Some XZ_STREAM_END \<longrightarrow> em @ out_bytes m2 b1 b2 = bcj_image (bcj_kind s) (raw @ new2)) \<and>
         (x = None \<or> x = Some XZ_OK \<longrightarrow> bcj_stream m2 s2 (raw @ new2) (em @ out_bytes m2 b1 b2))"
    using sel by (auto simp: r)
  have "feeds run ready l (new1 @ new2) l2" by (rule feeds_trans [OF n1(1) n2(1)])
  moreover have "(x = Some XZ_STREAM_END \<longrightarrow> em @ out_bytes m2 b b2 = bcj_image (bcj_kind s) (raw @ new1 @ new2)) \<and>
      (x = None \<or> x = Some XZ_OK \<longrightarrow> bcj_stream m2 s2 (raw @ new1 @ new2) (em @ out_bytes m2 b b2))"
    if "bcj_stream m s raw em" "length (raw @ new1 @ new2) < 2 ^ 63" "fst (b_in b) \<noteq> fst (b_out b)" for raw em
    using n2(2) [OF n1(2) [OF that(1) _ that(3)] _ that(3)] that(2) out [OF that(3)] by simp
  ultimately show ?thesis
    using assms(2) bcj_frame_trans [OF f] by (auto simp: r)
qed


section \<open>The stages\<close>

context next_filter
begin

abbreviation frame where
  "frame \<equiv> bcj_frame own multi"

abbreviation stage_ok where
  "stage_ok \<equiv> bcj_ok ready multi"

abbreviation post where
  "post \<equiv> bcj_post run ready multi own"

lemma flush_good:
  assumes rdy: "ready m l b" "multi l" and out: "fst (b_out b) \<noteq> Bcj_Temp" and temp: "length (m Bcj_Temp) = BCJ_TEMP_SIZE"
    and sz: "temp_filtered s \<le> bcj_temp_size s" "bcj_temp_size s \<le> BCJ_TEMP_SIZE"
  defines "c \<equiv> min (temp_filtered s) (b_out_size b - b_out_pos b)"
  shows "ok (bcj_flush m s b) (\<lambda>(s', b', m').
    s' = s\<lparr>temp_filtered := temp_filtered s - c, bcj_temp_size := bcj_temp_size s - c\<rparr> \<and>
    b' = b\<lparr>b_out_pos := b_out_pos b + c\<rparr> \<and> frame m s l b m' s' l b' \<and> ready m' l b' \<and>
    out_bytes m' b b' = take c (temp_bytes m (temp_filtered s)) \<and>
    temp_bytes m' (bcj_temp_size s - c) = drop c (temp_bytes m (bcj_temp_size s)))"
proof -
  have vb: "valid_buf m b" by (rule ready_valid [OF rdy(1)])
  have ap: "fst (b_in b) \<notin> own" "fst (b_out b) \<notin> own" using ready_apart [OF rdy] by simp_all
  have "bcj_temp_size s \<le> 16" "length (m Bcj_Temp) = 16" using sz(2) temp by (simp_all add: BCJ_TEMP_SIZE_def)
  from ok_bcj_flush [OF vb out sz(1) this] show ?thesis
    unfolding c_def [symmetric]
  proof (rule ok_mono, clarify)
    fix m'
    let ?b = "b\<lparr>b_out_pos := b_out_pos b + c\<rparr>"
    let ?s = "s\<lparr>temp_filtered := temp_filtered s - c, bcj_temp_size := bcj_temp_size s - c\<rparr>"
    assume vb': "valid_buf m' ?b" and shape: "same_shape m m'"
      and O: "m' (fst (b_out b)) = mem_put m (out_at b) (temp_bytes m c) (fst (b_out b))"
      and T: "temp_bytes m' (bcj_temp_size s - c) = drop c (temp_bytes m (bcj_temp_size s))"
      and rest: "\<forall>k. k \<noteq> Bcj_Temp \<and> k \<noteq> fst (b_out b) \<longrightarrow> m' k = m k"
    have c: "c \<le> length (m Bcj_Temp)" "c \<le> temp_filtered s" "c \<le> b_out_size b - b_out_pos b"
      using sz temp by (auto simp: c_def)
    have room: "length (temp_bytes m c) \<le> room m (out_at b)" using room_out_at [OF vb c(3)] c(1) by simp
    have "mem_bytes m' (b_out b) (b_out_pos b) = mem_bytes (mem_put m (out_at b) (temp_bytes m c)) (b_out b) (b_out_pos b)"
      using O by (simp add: mem_bytes_def)
    also have "\<dots> = mem_bytes m (b_out b) (b_out_pos b)"
      by (rule mem_bytes_before [OF room]) (simp_all add: out_at_def)
    finally have "frame m s l b m' ?s l ?b"
      using vb' shape rest by (auto simp: bcj_frame_def buf_frame_def)
    moreover have "ready m' l ?b"
    proof (rule ready_move [OF rdy _ vb'])
      show "\<forall>k\<in>own. m' k = m k" using rest ap own_temp by metis
    qed (use ap in simp_all)
    moreover have "out_bytes m' b ?b = mem_bytes (mem_put m (out_at b) (temp_bytes m c)) (out_at b) c"
      using O by (simp add: out_bytes_def mem_bytes_def)
    then have "out_bytes m' b ?b = temp_bytes m c"
      using mem_bytes_put [OF room] c(1) by simp
    then have "out_bytes m' b ?b = take c (temp_bytes m (temp_filtered s))"
      using take_mem_bytes [OF c(2)] by (simp add: temp_bytes_def)
    ultimately show "?s = s\<lparr>temp_filtered := temp_filtered s - c, bcj_temp_size := bcj_temp_size s - c\<rparr> \<and>
        ?b = b\<lparr>b_out_pos := b_out_pos b + c\<rparr> \<and> frame m s l b m' ?s l ?b \<and> ready m' l ?b \<and>
        out_bytes m' b ?b = take c (temp_bytes m (temp_filtered s)) \<and>
        temp_bytes m' (bcj_temp_size s - c) = drop c (temp_bytes m (bcj_temp_size s))"
      using T by simp
  qed
qed

text \<open>Flushing moves bytes from \<open>temp.buf\<close> to the output; the stream stays the same.\<close>

lemma flush_bytes:
  assumes "temp_bytes m' (k - c) = drop c (temp_bytes m k)" and "c \<le> f" and "f \<le> k"
  shows "temp_bytes m' (f - c) = drop c (temp_bytes m f)"
    and "drop (f - c) (temp_bytes m' (k - c)) = drop f (temp_bytes m k)"
proof -
  have "temp_bytes m' (f - c) = take (f - c) (temp_bytes m' (k - c))"
    using take_mem_bytes [of "f - c" "k - c" m'] assms(3) by (simp add: temp_bytes_def)
  also have "\<dots> = drop c (take f (temp_bytes m k))"
    using assms(2) by (simp add: assms(1) drop_take)
  also have "take f (temp_bytes m k) = temp_bytes m f"
    using take_mem_bytes [OF assms(3)] by (simp add: temp_bytes_def)
  finally show "temp_bytes m' (f - c) = drop c (temp_bytes m f)" .
  show "drop (f - c) (temp_bytes m' (k - c)) = drop f (temp_bytes m k)"
    using assms(2) by (simp add: assms(1))
qed

lemma flush_stream:
  assumes "bcj_stream m s raw em" and "out = take c (temp_bytes m (temp_filtered s))"
    and T: "temp_bytes m' (bcj_temp_size s - c) = drop c (temp_bytes m (bcj_temp_size s))"
    and "c \<le> temp_filtered s" and "temp_filtered s \<le> bcj_temp_size s"
  shows "bcj_stream m' (s\<lparr>temp_filtered := temp_filtered s - c, bcj_temp_size := bcj_temp_size s - c\<rparr>) raw (em @ out)"
proof -
  have "(em @ out) @ temp_bytes m' (temp_filtered s - c) = em @ temp_bytes m (temp_filtered s)"
    by (simp add: assms(2) flush_bytes [OF T assms(4,5)])
  moreover let ?s = "s\<lparr>temp_filtered := temp_filtered s - c, bcj_temp_size := bcj_temp_size s - c\<rparr>"
  have "bcj_kind ?s = bcj_kind s" "bcj_pos ?s = bcj_pos s" "x86_prev_mask ?s = x86_prev_mask s" "bcj_ret ?s = bcj_ret s"
      "temp_filtered ?s = temp_filtered s - c" "bcj_temp_size ?s = bcj_temp_size s - c" by simp_all
  ultimately show ?thesis
    using assms(1) unfolding bcj_stream_def by (simp only: flush_bytes(2) [OF T assms(4,5)])
qed

lemma stream_end: "bcj_stream m s raw em \<Longrightarrow> bcj_ret s = XZ_STREAM_END \<Longrightarrow> temp_filtered s = 0 \<Longrightarrow> em = bcj_image (bcj_kind s) raw"
  by (auto simp: bcj_stream_def bcj_image_def temp_bytes_def mem_bytes_def)

lemma ok_pending:
  assumes ok: "stage_ok e m s l b"
  shows "ok (bcj_pending m s l b) (post e m s l b)"
proof (cases "temp_filtered s > 0")
  case False
  have "post e m s l b (None, s, l, b, m)"
    using False ok bcj_frame_refl [of m b s s own multi l] ready_valid [of m l b]
    by (auto simp: bcj_ok_def out_bytes_def mem_bytes_def intro!: exI [of _ "[]"] feeds_none)
  with False show ?thesis by (simp add: bcj_pending_def)
next
  case True
  have multi: "multi l" using ok True by (auto simp: bcj_ok_def)
  have sz: "temp_filtered s \<le> bcj_temp_size s" "bcj_temp_size s \<le> BCJ_TEMP_SIZE" using ok by (simp_all add: bcj_ok_def)
  let ?c = "min (temp_filtered s) (b_out_size b - b_out_pos b)"
  have "ok (bcj_flush m s b) (\<lambda>(s', b', m').
    s' = s\<lparr>temp_filtered := temp_filtered s - ?c, bcj_temp_size := bcj_temp_size s - ?c\<rparr> \<and>
    b' = b\<lparr>b_out_pos := b_out_pos b + ?c\<rparr> \<and> frame m s l b m' s' l b' \<and> ready m' l b' \<and>
    out_bytes m' b b' = take ?c (temp_bytes m (temp_filtered s)) \<and>
    temp_bytes m' (bcj_temp_size s - ?c) = drop ?c (temp_bytes m (bcj_temp_size s)))"
    using ok multi by (intro flush_good) (auto simp: bcj_ok_def)
  then obtain s1 b1 m1 where fl: "bcj_flush m s b = Some (s1, b1, m1)"
    and s1: "s1 = s\<lparr>temp_filtered := temp_filtered s - ?c, bcj_temp_size := bcj_temp_size s - ?c\<rparr>"
    and b1: "b1 = b\<lparr>b_out_pos := b_out_pos b + ?c\<rparr>" and fr: "frame m s l b m1 s1 l b1" and rdy: "ready m1 l b1"
    and out: "out_bytes m1 b b1 = take ?c (temp_bytes m (temp_filtered s))"
    and T: "temp_bytes m1 (bcj_temp_size s - ?c) = drop ?c (temp_bytes m (bcj_temp_size s))"
    by (auto simp: ok_iff)
  have str: "bcj_stream m1 s1 raw (em @ out_bytes m1 b b1)" if "bcj_stream m s raw em" for raw em
    unfolding s1 by (rule flush_stream [OF that out T]) (use sz in simp_all)
  have "length (m1 Bcj_Temp) = BCJ_TEMP_SIZE"
    using fr ok by (simp add: bcj_frame_def bcj_ok_def same_shape_def)
  then have ok1: "stage_ok e m1 s1 l b1" if "bcj_ret s = XZ_STREAM_END \<longrightarrow> 0 < temp_filtered s1"
    using ok rdy that by (auto simp: bcj_ok_def s1 b1)
  let ?r = "if temp_filtered s1 > 0 then Some XZ_OK else if bcj_ret s1 = XZ_STREAM_END then Some XZ_STREAM_END else None"
  have ret: "bcj_ret s1 = bcj_ret s" "bcj_kind s1 = bcj_kind s" by (simp_all add: s1)
  have full: "b_out_pos b1 = b_out_size b1" if "temp_filtered s1 > 0"
    using that ready_valid [of m l b] ok by (auto simp: s1 b1 bcj_ok_def valid_buf_def)
  have "post e m s l b (?r, s1, l, b1, m1)"
    using fr ok1 full str stream_end [of m1 s1] ret
    by (auto simp: split: if_splits intro!: exI [of _ "[]"] feeds_none)
  with fl True show ?thesis by (simp add: bcj_pending_def)
qed

end


text \<open>Filtering new output in place: \<open>tb\<close> is the unfiltered rest and \<open>zs\<close> is new.\<close>

lemma stream_filter:
  assumes "bcj_stream m s raw em" and "bcj_ret s = XZ_OK" and "temp_filtered s = 0"
    and f: "bcj_filter (bcj_kind s) (bcj_pos s) (x86_prev_mask s) bs (length bs) = Some (n, m1, ys)"
    and bs: "bs = temp_bytes m (bcj_temp_size s) @ zs" and small: "length (raw @ zs) < 2 ^ 63"
    and n: "n \<le> length ys"
  shows "\<exists>k m4. bcj_filter (bcj_kind s) 0 0 (raw @ zs) (length (raw @ zs)) = Some (k + n, m4, em @ ys) \<and>
    m1 AND 7 = m4 AND 7 \<and> bcj_pos s = word_of_nat k \<and> length em = k"
proof -
  from assms(1-3) obtain k m3 us where r: "bcj_filter (bcj_kind s) 0 0 raw (length raw) = Some (k, m3, us)"
      "bcj_pos s = word_of_nat k" "x86_prev_mask s AND 7 = m3 AND 7" "em = take k us"
      "temp_bytes m (bcj_temp_size s) = drop k us"
    by (auto simp: bcj_stream_def temp_bytes_def mem_bytes_def)
  from stream_extend [OF r(1,3) small] f r(2,4,5) show ?thesis by (auto simp: bs)
qed

text \<open>The rest in \<open>temp.buf\<close> is put back, and the next filter adds to it.\<close>

definition grown :: "block set \<Rightarrow> ('l \<Rightarrow> bool) \<Rightarrow> mem \<Rightarrow> xz_dec_bcj \<Rightarrow> 'l \<Rightarrow> xz_buf \<Rightarrow> 'l \<Rightarrow> xz_buf \<Rightarrow> mem \<Rightarrow> u8 list \<Rightarrow> bool" where
  "grown own multi m s l b l' b' m' new \<longleftrightarrow> same_shape m m' \<and> buf_frame b b' \<and> valid_buf m' b' \<and> multi l' = multi l \<and>
     (\<forall>k. k \<notin> own \<and> k \<noteq> fst (b_out b) \<longrightarrow> m' k = m k) \<and> b_out_pos b + bcj_temp_size s \<le> b_out_pos b' \<and>
     (multi l \<and> fst (b_in b) \<noteq> fst (b_out b) \<longrightarrow> mem_bytes m' (b_out b) (b_out_pos b) = mem_bytes m (b_out b) (b_out_pos b)) \<and>
     (bcj_temp_size s = 0 \<or> multi l \<and> fst (b_in b) \<noteq> fst (b_out b) \<longrightarrow>
        out_bytes m' b b' = temp_bytes m (bcj_temp_size s) @ new)"

context next_filter
begin

lemma ok_put_back:
  assumes ok: "stage_ok e m s l b" and fits: "bcj_temp_size s \<le> b_out_size b - b_out_pos b"
  shows "ok (do {
      m \<leftarrow> memcpy m (ptr_add (b_out b) (b_out_pos b)) (Bcj_Temp, 0) (bcj_temp_size s);
      run m l (b\<lparr>b_out_pos := sz_add (b_out_pos b) (bcj_temp_size s)\<rparr>) })
    (\<lambda>(ret, l', b', m'). \<exists>new. feeds run ready l new l' \<and> grown own multi m s l b l' b' m' new \<and>
      ret \<in> {XZ_OK, XZ_STREAM_END, XZ_DATA_ERROR} \<and> (ret \<noteq> XZ_DATA_ERROR \<longrightarrow> ready m' l' b') \<and>
      (ret = XZ_OK \<longrightarrow> b_in_pos b' = b_in_size b' \<or> b_out_pos b' = b_out_size b'))"
proof -
  let ?t = "bcj_temp_size s"
  have rdy: "ready m l b" and sep: "fst (b_in b) \<noteq> Bcj_Temp" "fst (b_out b) \<noteq> Bcj_Temp"
    and len: "length (m Bcj_Temp) = BCJ_TEMP_SIZE" and t: "?t \<le> BCJ_TEMP_SIZE" and t0: "\<not> multi l \<Longrightarrow> ?t = 0"
    using ok by (auto simp: bcj_ok_def)
  have vb: "valid_buf m b" by (rule ready_valid [OF rdy])
  then have pos: "b_out_pos b \<le> b_out_size b" "b_out_size b < 2 ^ 63" "b_out_size b \<le> room m (b_out b)"
    by (auto simp: valid_buf_def)
  note t_le = fits
  have t_add: "sz_add (b_out_pos b) ?t = b_out_pos b + ?t" using t_le pos by simp
  let ?m1 = "mem_put m (out_at b) (temp_bytes m ?t)" and ?b1 = "b\<lparr>b_out_pos := b_out_pos b + ?t\<rparr>"
  have rooms: "?t \<le> room m (out_at b)" "?t \<le> room m (Bcj_Temp, 0)"
    using room_out_at [OF vb t_le] t len by (simp_all add: room_def)
  have cp: "memcpy m (ptr_add (b_out b) (b_out_pos b)) (Bcj_Temp, 0) ?t = Some ?m1"
    using memcpy_put [OF rooms] sep by (simp add: out_at_def temp_bytes_def)
  have tlen: "length (temp_bytes m ?t) = ?t" using t len by simp
  have shape1: "same_shape m ?m1" using store_mem_put [of "temp_bytes m ?t" m "out_at b"] rooms tlen by simp
  have vb1: "valid_buf ?m1 ?b1"
    using vb t_le pos valid_buf_shape [OF shape1] by (auto simp: valid_buf_def)
  have rdy1: "ready ?m1 l ?b1"
  proof (cases "multi l")
    case True
    show ?thesis
    proof (rule ready_move [OF rdy True _ vb1])
      show "\<forall>k\<in>own. ?m1 k = m k" using ready_apart [OF rdy True] by (metis fst_out_at mem_put_other)
    qed (use ready_apart [OF rdy True] in simp_all)
  next
    case False
    with t0 rdy show ?thesis by (simp add: temp_bytes_def mem_bytes_def)
  qed
  from run_ok [OF rdy1] obtain ret l1 b2 m2 where run: "run ?m1 l ?b1 = Some (ret, l1, b2, m2)"
    and shape2: "same_shape ?m1 m2" and bf2: "buf_frame ?b1 b2" and vb2: "valid_buf m2 b2" and multi: "multi l1 = multi l"
    and rest2: "\<forall>k. k \<notin> own \<and> k \<noteq> fst (b_out b) \<longrightarrow> m2 k = ?m1 k"
    and kept: "multi l \<and> fst (b_in b) \<noteq> fst (b_out b) \<longrightarrow> out_kept ?m1 ?b1 m2 b2"
    and rv: "ret \<in> {XZ_OK, XZ_STREAM_END, XZ_DATA_ERROR}" and rdy2: "ret \<noteq> XZ_DATA_ERROR \<longrightarrow> ready m2 l1 b2"
    and used: "ret = XZ_OK \<longrightarrow> b_in_pos b2 = b_in_size b2 \<or> b_out_pos b2 = b_out_size b2"
    by (auto simp: ok_iff)
  note sel2 = buf_frame_sel [OF bf2, simplified]
  have bf: "buf_frame b b2" using bf2 by (auto simp: buf_frame_def)
  have p2: "b_out_pos b + ?t \<le> b_out_pos b2" "b_out_pos b2 \<le> b_out_size b" using bf2 vb2 sel2 by (auto simp: buf_frame_def valid_buf_def)
  have shape: "same_shape m m2" by (rule same_shape_trans [OF shape1 shape2])
  let ?new = "out_bytes m2 ?b1 b2"
  have feeds: "feeds run ready l ?new l1" by (rule feeds_one [of ready ?m1 l ?b1 run ret l1 b2 m2, OF rdy1 run])
  have before: "mem_bytes m2 (b_out b) (b_out_pos b + ?t) = mem_bytes ?m1 (b_out b) (b_out_pos b + ?t)"
    if "multi l" "fst (b_in b) \<noteq> fst (b_out b)"
    using kept that same_shape_def [of ?m1 m2] shape2
    by (intro nth_equalityI) (auto simp: mem_bytes_def out_kept_def)
  have prefix: "mem_bytes m2 (b_out b) (b_out_pos b) = mem_bytes m (b_out b) (b_out_pos b)"
    if "multi l" "fst (b_in b) \<noteq> fst (b_out b)"
    using mem_bytes_less [OF before [OF that], of "b_out_pos b"] mem_bytes_before [of "temp_bytes m ?t" m "out_at b" "b_out b" "b_out_pos b"] rooms tlen
    by (simp add: out_at_def)
  have region: "mem_bytes m2 (out_at b) (b_out_pos b2 - b_out_pos b) = temp_bytes m ?t @ ?new"
    if "?t = 0 \<or> multi l \<and> fst (b_in b) \<noteq> fst (b_out b)"
  proof -
    have "b_out_pos b2 - b_out_pos b = ?t + (b_out_pos b2 - (b_out_pos b + ?t))" using p2 by simp
    then have "mem_bytes m2 (out_at b) (b_out_pos b2 - b_out_pos b) = mem_bytes m2 (out_at b) ?t @ ?new"
      by (simp add: mem_bytes_add out_bytes_def out_at_def ptr_add_def add.assoc)
    moreover have "mem_bytes m2 (out_at b) ?t = temp_bytes m ?t"
    proof (cases "?t = 0")
      case True
      then show ?thesis by (simp add: mem_bytes_def temp_bytes_def)
    next
      case False
      then have "mem_bytes m2 (b_out b) (b_out_pos b + ?t) = mem_bytes ?m1 (b_out b) (b_out_pos b + ?t)"
        using that before by auto
      then have "mem_bytes m2 (out_at b) ?t = mem_bytes ?m1 (out_at b) ?t"
        unfolding out_at_def mem_bytes_drop by simp
      then show ?thesis using mem_bytes_put [of "temp_bytes m ?t" m "out_at b" ?t] rooms tlen by simp
    qed
    ultimately show ?thesis by simp
  qed
  have "grown own multi m s l b l1 b2 m2 ?new"
    unfolding grown_def out_bytes_def [of m2 b b2]
    using shape bf vb2 multi rest2 sep p2 prefix region by auto
  then show ?thesis
    using feeds rv rdy2 used unfolding cp Option.bind_lzero Option.bind.bind_lunit t_add by (auto simp: run)
qed

end


text \<open>The filter on the output buffer, in place.\<close>

lemma ok_filter_grown:
  assumes g: "grown own multi m s l b l1 b2 m2 new" and en: "bcj_enabled e (bcj_kind s)"
  shows "ok (bcj_apply e m2 (s\<lparr>bcj_ret := ret\<rparr>) (b_out b2) (b_out_pos b) (b_out_pos b2)) (\<lambda>(pos, s', m'). \<exists>n m1 ys.
    bcj_filter (bcj_kind s) (bcj_pos s) (x86_prev_mask s) (out_bytes m2 b b2) (length (out_bytes m2 b b2)) = Some (n, m1, ys) \<and>
    length ys = b_out_pos b2 - b_out_pos b \<and> n \<le> length ys \<and> length ys - n \<le> bcj_tail (bcj_kind s) \<and>
    pos = b_out_pos b + n \<and> s' = s\<lparr>bcj_ret := ret, bcj_pos := bcj_pos s + word_of_nat n, x86_prev_mask := m1\<rparr> \<and>
    same_shape m2 m' \<and> m' = mem_put m2 (out_at b) ys \<and> out_bytes m' b b2 = ys \<and>
    mem_bytes m' (b_out b) (b_out_pos b) = mem_bytes m2 (b_out b) (b_out_pos b))"
proof -
  have f: "buf_frame b b2" "valid_buf m2 b2" using g by (simp_all add: grown_def)
  note sel = buf_frame_sel [OF f(1)]
  have pos: "b_out_pos b \<le> b_out_pos b2" "b_out_pos b2 < 2 ^ 63" "b_out_pos b2 \<le> room m2 (b_out b)"
    using f sel by (auto simp: buf_frame_def valid_buf_def)
  let ?n = "b_out_pos b2 - b_out_pos b"
  have room: "?n \<le> room m2 (out_at b)" using pos(1,3) by (auto simp: out_at_def room_ptr_add)
  have bytes: "mem_bytes m2 (ptr_add (b_out b2) (b_out_pos b)) ?n = out_bytes m2 b b2" "length (out_bytes m2 b b2) = ?n"
    using room by (simp_all add: out_bytes_def out_at_def sel)
  have at: "ptr_add (b_out b2) (b_out_pos b) = out_at b" by (simp add: out_at_def sel)
  have "ok (bcj_apply e m2 (s\<lparr>bcj_ret := ret\<rparr>) (b_out b2) (b_out_pos b) (b_out_pos b2)) (\<lambda>(pos', s', m'). \<exists>n m1 ys.
    bcj_filter (bcj_kind (s\<lparr>bcj_ret := ret\<rparr>)) (bcj_pos (s\<lparr>bcj_ret := ret\<rparr>)) (x86_prev_mask (s\<lparr>bcj_ret := ret\<rparr>))
      (mem_bytes m2 (ptr_add (b_out b2) (b_out_pos b)) ?n) ?n = Some (n, m1, ys) \<and>
    n \<le> ?n \<and> length ys = ?n \<and> drop n ys = drop n (mem_bytes m2 (ptr_add (b_out b2) (b_out_pos b)) ?n) \<and>
    pos' = b_out_pos b + n \<and>
    s' = s\<lparr>bcj_ret := ret\<rparr>\<lparr>bcj_pos := bcj_pos (s\<lparr>bcj_ret := ret\<rparr>) + word_of_nat n, x86_prev_mask := m1\<rparr> \<and>
    m' = mem_put m2 (ptr_add (b_out b2) (b_out_pos b)) ys \<and> same_shape m2 m')"
    using en pos sel by (intro ok_bcj_apply) simp_all
  from this [unfolded bytes(1) at] obtain n m1 ys where
      eq: "bcj_apply e m2 (s\<lparr>bcj_ret := ret\<rparr>) (b_out b2) (b_out_pos b) (b_out_pos b2) =
        Some (b_out_pos b + n, s\<lparr>bcj_ret := ret, bcj_pos := bcj_pos s + word_of_nat n, x86_prev_mask := m1\<rparr>, mem_put m2 (out_at b) ys)"
    and r: "bcj_filter (bcj_kind s) (bcj_pos s) (x86_prev_mask s) (out_bytes m2 b b2) ?n = Some (n, m1, ys)"
        "n \<le> ?n" "length ys = ?n" "same_shape m2 (mem_put m2 (out_at b) ys)"
    unfolding ok_iff out_bytes_def by auto
  let ?m' = "mem_put m2 (out_at b) ys"
  have "length (out_bytes m2 b b2) < 2 ^ 63" using bytes(2) pos(2) by simp
  then have "?n - n \<le> bcj_tail (bcj_kind s)"
    using bcj_filter_tail(1) [of "bcj_kind s" "bcj_pos s" "x86_prev_mask s" "out_bytes m2 b b2" n m1 ys] r(1) bytes(2) by simp
  moreover have "out_bytes ?m' b b2 = ys"
    unfolding out_bytes_def by (rule mem_bytes_put) (simp_all only: r(3) room)
  moreover have "mem_bytes ?m' (b_out b) (b_out_pos b) = mem_bytes m2 (b_out b) (b_out_pos b)"
    by (rule mem_bytes_before) (simp_all only: r(3) room fst_out_at, simp add: out_at_def)
  ultimately show ?thesis using r bytes(2) by (simp add: eq)
qed

context next_filter
begin

lemma post_none: "stage_ok e m s l b \<Longrightarrow> temp_filtered s = 0 \<Longrightarrow> post e m s l b (None, s, l, b, m)"
  using bcj_frame_refl [of m b s s own multi l] ready_valid [of m l b]
  by (auto simp: bcj_ok_def out_bytes_def mem_bytes_def intro!: exI [of _ "[]"] feeds_none)

text \<open>The output ends here: everything is filtered and in the output buffer.\<close>

lemma grown_frame:
  assumes "grown own multi m s l b l1 b2 m2 new" and "same_shape m2 m3" and "fst (b_out b) \<noteq> Bcj_Temp"
    and "\<forall>k. k \<noteq> fst (b_out b) \<and> k \<noteq> Bcj_Temp \<longrightarrow> m3 k = m2 k"
    and "mem_bytes m3 (b_out b) (b_out_pos b) = mem_bytes m2 (b_out b) (b_out_pos b)"
    and "bcj_kind s' = bcj_kind s" and "bcj_single_call s' = bcj_single_call s"
    and "b3 = b2\<lparr>b_out_pos := p\<rparr>" and "b_out_pos b \<le> p" and "p \<le> b_out_pos b2"
  shows "frame m s l b m3 s' l1 b3"
proof -
  have g: "same_shape m m2" "buf_frame b b2" "valid_buf m2 b2" "multi l1 = multi l" using assms(1) by (simp_all add: grown_def)
  have "valid_buf m3 b3"
    using g(3) valid_buf_shape [OF assms(2)] assms(8-10) by (auto simp: valid_buf_def)
  moreover have "buf_frame b b3" using g(2) assms(8,9) by (cases b; cases b2) (simp add: buf_frame_def)
  ultimately show ?thesis
    using assms g same_shape_trans [OF g(1) assms(2)] by (auto simp: bcj_frame_def grown_def)
qed

text \<open>The filtered bytes, and the rest that waits in \<open>temp.buf\<close>.\<close>

lemma stream_grown:
  assumes str: "bcj_stream m s raw em" and s: "bcj_ret s = XZ_OK" "temp_filtered s = 0"
    and f: "bcj_filter (bcj_kind s) (bcj_pos s) (x86_prev_mask s) (out_bytes m2 b b2) (length (out_bytes m2 b b2)) = Some (n, m1, ys)" "n \<le> length ys"
    and new: "out_bytes m2 b b2 = temp_bytes m (bcj_temp_size s) @ new" and small: "length (raw @ new) < 2 ^ 63"
  shows "em @ ys = bcj_image (bcj_kind s) (raw @ new)"
    and "temp_bytes m3 (bcj_temp_size s') = drop n ys \<Longrightarrow> bcj_kind s' = bcj_kind s \<Longrightarrow> bcj_pos s' = bcj_pos s + word_of_nat n \<Longrightarrow>
      x86_prev_mask s' = m1 \<Longrightarrow> bcj_ret s' \<noteq> XZ_STREAM_END \<Longrightarrow> temp_filtered s' = 0 \<Longrightarrow> bcj_stream m3 s' (raw @ new) (em @ take n ys)"
proof -
  from stream_filter [OF str s f(1) new small f(2)] obtain k m4 where
    k: "bcj_filter (bcj_kind s) 0 0 (raw @ new) (length (raw @ new)) = Some (k + n, m4, em @ ys)"
       "m1 AND 7 = m4 AND 7" "bcj_pos s = word_of_nat k" "length em = k" by blast
  show "em @ ys = bcj_image (bcj_kind s) (raw @ new)" by (simp add: bcj_image_def k(1) [simplified])
  assume "temp_bytes m3 (bcj_temp_size s') = drop n ys" "bcj_kind s' = bcj_kind s" "bcj_pos s' = bcj_pos s + word_of_nat n"
      "x86_prev_mask s' = m1" "bcj_ret s' \<noteq> XZ_STREAM_END" "temp_filtered s' = 0"
  then show "bcj_stream m3 s' (raw @ new) (em @ take n ys)"
    using k f(2) by (auto simp: bcj_stream_def temp_bytes_def [of _ 0] mem_bytes_def)
qed


lemma memcpy_temp:
  assumes "t \<le> room m p" and "t \<le> length (m Bcj_Temp)" and "fst p \<noteq> Bcj_Temp"
  shows "\<exists>m'. memcpy m (Bcj_Temp, 0) p t = Some m' \<and> same_shape m m' \<and> (\<forall>k. k \<noteq> Bcj_Temp \<longrightarrow> m' k = m k) \<and> temp_bytes m' t = mem_bytes m p t"
proof -
  have r: "t \<le> room m (Bcj_Temp, 0)" using assms(2) by (simp add: room_def)
  let ?m = "mem_put m (Bcj_Temp, 0) (mem_bytes m p t)"
  have "memcpy m (Bcj_Temp, 0) p t = Some ?m" using memcpy_put [OF r assms(1)] assms(3) by simp
  moreover have "temp_bytes ?m t = mem_bytes m p t" unfolding temp_bytes_def by (rule mem_bytes_put) (use r assms(1) in simp_all)
  moreover have "same_shape m ?m" using store_mem_put [of "mem_bytes m p t" m "(Bcj_Temp, 0)"] r assms(1) by simp
  ultimately show ?thesis by (intro exI [of _ ?m]) simp
qed

lemma ok_direct:
  assumes ok: "stage_ok e m s l b" and none: "temp_filtered s = 0"
  shows "ok (bcj_direct run e m s l b) (\<lambda>(r, s', l', b', m'). post e m s l b (r, s', l', b', m') \<and>
    (r = None \<longrightarrow> multi l \<and> b_out_size b' - b_out_pos b' \<le> bcj_temp_size s'))"
proof (cases "bcj_temp_size s < sz_sub (b_out_size b) (b_out_pos b) \<or> bcj_temp_size s = 0")
  case False
  have vb: "valid_buf m b" using ok ready_valid [of m l b] unfolding bcj_ok_def by blast
  moreover have "multi l" using False ok by (auto simp: bcj_ok_def)
  moreover have "sz_sub (b_out_size b) (b_out_pos b) = b_out_size b - b_out_pos b" using vb by (auto simp: valid_buf_def)
  ultimately show ?thesis using False post_none [OF ok none] by (simp add: bcj_direct_def del: bcj_post.simps)
next
  case True
  have vb: "valid_buf m b" using ok ready_valid [of m l b] unfolding bcj_ok_def by blast
  then have pos: "b_out_pos b \<le> b_out_size b" "b_out_size b < 2 ^ 63" by (auto simp: valid_buf_def)
  have fits: "bcj_temp_size s \<le> b_out_size b - b_out_pos b" using True pos by auto
  have s: "bcj_ret s = XZ_OK" "bcj_single_call s = (\<not> multi l)" "bcj_enabled e (bcj_kind s)" "fst (b_out b) \<noteq> Bcj_Temp" "fst (b_in b) \<noteq> Bcj_Temp"
    using ok none by (auto simp: bcj_ok_def)
  from ok_put_back [OF ok fits] obtain ret l1 b2 m2 new where
    run: "memcpy m (ptr_add (b_out b) (b_out_pos b)) (Bcj_Temp, 0) (bcj_temp_size s) \<bind>
      (\<lambda>m. run m l (b\<lparr>b_out_pos := sz_add (b_out_pos b) (bcj_temp_size s)\<rparr>)) = Some (ret, l1, b2, m2)"
    and fd: "feeds run ready l new l1" and g: "grown own multi m s l b l1 b2 m2 new"
    and rv: "ret \<in> {XZ_OK, XZ_STREAM_END, XZ_DATA_ERROR}" and rdy: "ret \<noteq> XZ_DATA_ERROR \<longrightarrow> ready m2 l1 b2"
    and used: "ret = XZ_OK \<longrightarrow> b_in_pos b2 = b_in_size b2 \<or> b_out_pos b2 = b_out_size b2"
    by (simp only: ok_iff split_paired_Ex prod.case) blast
  have g': "same_shape m m2" "buf_frame b b2" "valid_buf m2 b2" "multi l1 = multi l" using g by (simp_all add: grown_def)
  have p2: "b_out_pos b \<le> b_out_pos b2" "b_out_pos b2 \<le> b_out_size b2" using g' by (auto simp: buf_frame_def valid_buf_def)
  note sel = buf_frame_sel [OF g'(2)]
  have frame0: "frame m s l b m2 (s\<lparr>bcj_ret := ret\<rparr>) l1 b2"
    by (rule grown_frame [OF g, of m2 _ _ "b_out_pos b2"]) (use s p2 in simp_all)
  have unf: "bcj_direct run e m s l b =
    (if ret \<noteq> XZ_STREAM_END \<and> (ret \<noteq> XZ_OK \<or> bcj_single_call s) then Some (Some ret, s\<lparr>bcj_ret := ret\<rparr>, l1, b2, m2)
     else do {
       (out_start, s, m) \<leftarrow> bcj_apply e m2 (s\<lparr>bcj_ret := ret\<rparr>) (b_out b2) (b_out_pos b) (b_out_pos b2);
       if ret = XZ_STREAM_END then Some (Some XZ_STREAM_END, s, l1, b2, m)
       else do {
         let s = s\<lparr>bcj_temp_size := sz_sub (b_out_pos b2) out_start\<rparr>;
         let b = b2\<lparr>b_out_pos := sz_sub (b_out_pos b2) (bcj_temp_size s)\<rparr>;
         m \<leftarrow> memcpy m (Bcj_Temp, 0) (ptr_add (b_out b) (b_out_pos b)) (bcj_temp_size s);
         if sz_add (b_out_pos b) (bcj_temp_size s) < b_out_size b then Some (Some XZ_OK, s, l1, b, m)
         else Some (None, s, l1, b, m)
       }
     })"
  proof -
    from run obtain mc where mc: "memcpy m (ptr_add (b_out b) (b_out_pos b)) (Bcj_Temp, 0) (bcj_temp_size s) = Some mc"
      "run mc l (b\<lparr>b_out_pos := sz_add (b_out_pos b) (bcj_temp_size s)\<rparr>) = Some (ret, l1, b2, m2)" by (auto simp: bind_eq_Some_conv)
    then show ?thesis using True by (simp only: bcj_direct_def if_True Let_def Option.bind.simps prod.case) simp
  qed
  have region: "out_bytes m2 b b2 = temp_bytes m (bcj_temp_size s) @ new" if "fst (b_in b) \<noteq> fst (b_out b)"
    using g that ok by (auto simp: grown_def bcj_ok_def)
  from ok_filter_grown [OF g s(3), of ret] obtain n m1 ys m3 where
    ap: "bcj_apply e m2 (s\<lparr>bcj_ret := ret\<rparr>) (b_out b2) (b_out_pos b) (b_out_pos b2) =
      Some (b_out_pos b + n, s\<lparr>bcj_ret := ret, bcj_pos := bcj_pos s + word_of_nat n, x86_prev_mask := m1\<rparr>, m3)"
    and f: "bcj_filter (bcj_kind s) (bcj_pos s) (x86_prev_mask s) (out_bytes m2 b b2) (length (out_bytes m2 b b2)) = Some (n, m1, ys)"
    and ys: "length ys = b_out_pos b2 - b_out_pos b" "n \<le> length ys" "length ys - n \<le> bcj_tail (bcj_kind s)"
    and m3p: "same_shape m2 m3" "m3 = mem_put m2 (out_at b) ys" "out_bytes m3 b b2 = ys"
      "mem_bytes m3 (b_out b) (b_out_pos b) = mem_bytes m2 (b_out b) (b_out_pos b)"
    by (simp only: ok_iff split_paired_Ex prod.case) metis
  have m3: "same_shape m2 m3" "\<forall>k. k \<noteq> fst (b_out b) \<longrightarrow> m3 k = m2 k" "out_bytes m3 b b2 = ys"
      "mem_bytes m3 (b_out b) (b_out_pos b) = mem_bytes m2 (b_out b) (b_out_pos b)" using m3p by simp_all
  let ?s3 = "s\<lparr>bcj_ret := ret, bcj_pos := bcj_pos s + word_of_nat n, x86_prev_mask := m1\<rparr>"
  note image = stream_grown [OF _ s(1) none f ys(2) region]
  consider (stop) "ret \<noteq> XZ_STREAM_END" "ret \<noteq> XZ_OK \<or> \<not> multi l" | (fin) "ret = XZ_STREAM_END" | (more) "ret = XZ_OK" "multi l" by blast
  then show ?thesis
  proof cases
    case stop
    have "stage_ok e m2 (s\<lparr>bcj_ret := ret\<rparr>) l1 b2" if "ret = XZ_OK"
      using ok stop rdy that g' none sel by (auto simp: bcj_ok_def same_shape_def)
    then have "post e m s l b (Some ret, s\<lparr>bcj_ret := ret\<rparr>, l1, b2, m2)"
      using stop frame0 rv fd used by (auto intro!: exI [of _ new])
    with stop s(2) show ?thesis unfolding unf by (auto simp del: bcj_post.simps)
  next
    case fin
    have "frame m s l b m3 ?s3 l1 b2" by (rule grown_frame [OF g m3(1), of _ _ "b_out_pos b2"]) (use s p2 m3 in simp_all)
    moreover have "em @ out_bytes m3 b b2 = bcj_image (bcj_kind s) (raw @ new)"
      if "bcj_stream m s raw em" "length (raw @ new) < 2 ^ 63" "fst (b_in b) \<noteq> fst (b_out b)" for raw em
      using image(1) [OF that(1,3,2)] m3(3) by simp
    ultimately have "post e m s l b (Some XZ_STREAM_END, ?s3, l1, b2, m3)"
      using fd by (auto intro!: exI [of _ new])
    with fin show ?thesis unfolding unf ap by (simp del: bcj_post.simps)
  next
    case more
    let ?t = "b_out_pos b2 - (b_out_pos b + n)" and ?p = "b_out_pos b + n"
    have t: "?t = length ys - n" "?t \<le> bcj_tail (bcj_kind s)" "?t \<le> 15" "?p + ?t = b_out_pos b2" "b_out_pos b2 < 2 ^ 63"
      using ys p2 pos sel by (auto simp: bcj_tail_def split: bcj_type.splits)
    let ?s4 = "?s3\<lparr>bcj_temp_size := ?t\<rparr>" and ?b4 = "b2\<lparr>b_out_pos := ?p\<rparr>"
    have arith: "sz_sub (b_out_pos b2) ?p = ?t" "sz_sub (b_out_pos b2) ?t = ?p" "sz_add ?p ?t = b_out_pos b2"
      using t by simp_all
    have vb3: "valid_buf m3 b2" using valid_buf_shape [OF m3(1)] g'(3) by simp
    have rooms: "?t \<le> room m3 (ptr_add (b_out b) ?p)" "length (m3 Bcj_Temp) = 16"
      using vb3 sel t ok g'(1) m3(1) by (auto simp: valid_buf_def room_ptr_add bcj_ok_def same_shape_def BCJ_TEMP_SIZE_def)
    from memcpy_temp [OF rooms(1)] rooms(2) t(3) s(4) obtain m4 where
      cp: "memcpy m3 (Bcj_Temp, 0) (ptr_add (b_out b) ?p) ?t = Some m4"
      and m4: "same_shape m3 m4" "\<forall>k. k \<noteq> Bcj_Temp \<longrightarrow> m4 k = m3 k" "temp_bytes m4 ?t = mem_bytes m3 (ptr_add (b_out b) ?p) ?t" by auto
    have "length ys = n + ?t" using t(1) ys(2) by simp
    moreover define A B where "A = mem_bytes m3 (out_at b) n" and "B = mem_bytes m3 (ptr_add (b_out b) ?p) ?t"
    ultimately have split: "ys = A @ B"
      using m3(3) ys(1) mem_bytes_add [of m3 "out_at b" n ?t] by (simp only: out_bytes_def) (simp add: out_at_def ptr_add_def add.assoc)
    have "length A = n"
      unfolding A_def using vb3 sel t by (intro length_mem_bytes) (auto simp: valid_buf_def out_at_def room_ptr_add)
    moreover have "out_bytes m4 b ?b4 = A" "temp_bytes m4 ?t = B"
      using m4(2,3) s(4) by (simp_all add: A_def B_def out_bytes_def mem_bytes_def)
    moreover have "take (length A) (A @ B) = A" "drop (length A) (A @ B) = B" by simp_all
    ultimately have halves: "temp_bytes m4 ?t = drop n ys" "out_bytes m4 b ?b4 = take n ys" unfolding split by metis+
    have fr: "frame m s l b m4 ?s4 l1 ?b4"
      by (rule grown_frame [OF g same_shape_trans [OF m3(1) m4(1)], of _ _ ?p]) (use s p2 m3 m4 t in \<open>auto simp: mem_bytes_def\<close>)
    have r2: "ready m2 l1 b2" "multi l1" using rdy more g' by simp_all
    note apart = ready_apart [OF r2]
    have "ready m4 l1 ?b4"
    proof (rule ready_move [OF r2])
      show "\<forall>k\<in>own. m4 k = m2 k" using m3(2) m4(2) apart own_temp sel by metis
      show "valid_buf m4 ?b4" using fr by (simp add: bcj_frame_def)
    qed (use apart in simp_all)
    moreover have "length (m4 Bcj_Temp) = BCJ_TEMP_SIZE" using rooms(2) m4(1) by (simp add: same_shape_def BCJ_TEMP_SIZE_def)
    ultimately have sok: "stage_ok e m4 ?s4 l1 ?b4"
      using ok none more t(2,3) s sel r2 by (simp add: bcj_ok_def BCJ_TEMP_SIZE_def)
    have "bcj_stream m4 ?s4 (raw @ new) (em @ out_bytes m4 b ?b4)"
      if "bcj_stream m s raw em" "length (raw @ new) < 2 ^ 63" "fst (b_in b) \<noteq> fst (b_out b)" for raw em
      using image(2) [OF that(1,3,2)] halves more none by simp
    then have post: "post e m s l b (r, ?s4, l1, ?b4, m4)"
      if "r = None \<or> r = Some XZ_OK \<and> b_in_pos b2 = b_in_size b2" for r
      using that fr sok fd none by (auto intro!: exI [of _ new])
    have eq: "bcj_direct run e m s l b = (if b_out_pos b2 < b_out_size b2 then Some (Some XZ_OK, ?s4, l1, ?b4, m4) else Some (None, ?s4, l1, ?b4, m4))"
      unfolding unf ap using more s(2) cp sel by (simp only: prod.case Option.bind.simps Let_def) (simp add: arith)
    show ?thesis
    proof (cases "b_out_pos b2 < b_out_size b2")
      case True
      with used more have "b_in_pos b2 = b_in_size b2" by simp
      with post [of "Some XZ_OK"] True eq show ?thesis by (simp del: bcj_post.simps)
    next
      case False
      with post [of None] more t eq show ?thesis by (auto simp del: bcj_post.simps)
    qed
  qed
qed

end

context next_filter
begin

text \<open>The next filter decodes into \<open>temp.buf\<close>.\<close>

lemma run_temp:
  assumes ok: "stage_ok e m s l b" and multi: "multi l" and b1: "b1 = b\<lparr>b_out := (Bcj_Temp, 0), b_out_pos := bcj_temp_size s, b_out_size := BCJ_TEMP_SIZE\<rparr>"
  shows "ok (run m l b1) (\<lambda>(ret, l1, b2, m2). \<exists>new b3. b3 = b2\<lparr>b_out := b_out b, b_out_pos := b_out_pos b, b_out_size := b_out_size b\<rparr> \<and>
    feeds run ready l new l1 \<and> frame m s l b m2 s l1 b3 \<and> bcj_temp_size s \<le> b_out_pos b2 \<and> b_out_pos b2 \<le> BCJ_TEMP_SIZE \<and>
    temp_bytes m2 (b_out_pos b2) = temp_bytes m (bcj_temp_size s) @ new \<and> m2 (fst (b_out b)) = m (fst (b_out b)) \<and>
    ret \<in> {XZ_OK, XZ_STREAM_END, XZ_DATA_ERROR} \<and> (ret \<noteq> XZ_DATA_ERROR \<longrightarrow> ready m2 l1 b3) \<and>
    (ret = XZ_OK \<longrightarrow> b_in_pos b3 = b_in_size b3 \<or> b_out_pos b2 = BCJ_TEMP_SIZE))"
proof -
  have rdy: "ready m l b" and sep: "fst (b_in b) \<noteq> Bcj_Temp" "fst (b_out b) \<noteq> Bcj_Temp" and len: "length (m Bcj_Temp) = 16" and t: "bcj_temp_size s \<le> 16"
    using ok by (auto simp: bcj_ok_def BCJ_TEMP_SIZE_def)
  have vb: "valid_buf m b" by (rule ready_valid [OF rdy])
  note apart = ready_apart [OF rdy multi]
  have vb1: "valid_buf m b1" using vb t len unfolding b1 by (auto simp: valid_buf_def room_def BCJ_TEMP_SIZE_def)
  have rdy1: "ready m l b1"
    by (rule ready_move [OF rdy multi _ vb1]) (use apart own_temp in \<open>simp_all add: b1\<close>)
  from run_ok [OF rdy1] obtain ret l1 b2 m2 where run: "run m l b1 = Some (ret, l1, b2, m2)"
    and shape: "same_shape m m2" and bf: "buf_frame b1 b2" and vb2: "valid_buf m2 b2" and multi1: "multi l1 = multi l"
    and rest: "\<forall>k. k \<notin> own \<and> k \<noteq> Bcj_Temp \<longrightarrow> m2 k = m k" and kept: "out_kept m b1 m2 b2"
    and rv: "ret \<in> {XZ_OK, XZ_STREAM_END, XZ_DATA_ERROR}" "ret \<noteq> XZ_DATA_ERROR \<longrightarrow> ready m2 l1 b2"
      "ret = XZ_OK \<longrightarrow> b_in_pos b2 = b_in_size b2 \<or> b_out_pos b2 = b_out_size b2"
    using sep multi by (auto simp: ok_iff b1)
  note sel = buf_frame_sel [OF bf]
  let ?b3 = "b2\<lparr>b_out := b_out b, b_out_pos := b_out_pos b, b_out_size := b_out_size b\<rparr>"
  have p: "bcj_temp_size s \<le> b_out_pos b2" "b_out_pos b2 \<le> 16" "b_in_pos b \<le> b_in_pos b2"
    using bf vb2 sel by (auto simp: buf_frame_def valid_buf_def b1 BCJ_TEMP_SIZE_def)
  let ?new = "out_bytes m2 b1 b2"
  have "temp_bytes m2 (bcj_temp_size s) = temp_bytes m (bcj_temp_size s)"
    using kept len shape t by (intro nth_equalityI) (auto simp: temp_bytes_def mem_bytes_def out_kept_def b1 same_shape_def)
  moreover have "temp_bytes m2 (b_out_pos b2) = temp_bytes m2 (bcj_temp_size s) @ ?new"
    using p(1) mem_bytes_add [of m2 "(Bcj_Temp, 0)" "bcj_temp_size s" "b_out_pos b2 - bcj_temp_size s"]
    by (simp add: temp_bytes_def out_bytes_def out_at_def b1)
  ultimately have new: "temp_bytes m2 (b_out_pos b2) = temp_bytes m (bcj_temp_size s) @ ?new" by simp
  have out: "m2 (fst (b_out b)) = m (fst (b_out b))" using rest apart sep by blast
  have vb3: "valid_buf m2 ?b3" using vb vb2 sel valid_buf_shape [OF shape] by (auto simp: valid_buf_def b1)
  have "buf_frame b ?b3" using bf p(3) by (cases b; cases b2) (simp add: buf_frame_def b1)
  then have fr: "frame m s l b m2 s l1 ?b3"
    using shape vb3 rest multi1 out unfolding bcj_frame_def by (auto simp: mem_bytes_def)
  have "ready m2 l1 ?b3" if "ret \<noteq> XZ_DATA_ERROR"
    by (rule ready_move [of m2 l1 b2]) (use rv that multi multi1 vb3 apart sel in \<open>auto simp: b1\<close>)
  moreover have "feeds run ready l ?new l1" by (rule feeds_one [of ready m l b1 run ret l1 b2 m2, OF rdy1 run])
  ultimately show ?thesis
    using fr p new out rv sel unfolding run by (auto simp: b1 BCJ_TEMP_SIZE_def)
qed


text \<open>The filter on \<open>temp.buf\<close>. The bytes that are not filtered stay behind the others.\<close>

lemma filter_temp:
  assumes en: "bcj_enabled e (bcj_kind s)" and len: "length (m Bcj_Temp) = 16" and t: "t \<le> 16"
  shows "ok (bcj_apply e m s (Bcj_Temp, 0) 0 t) (\<lambda>(n, s', m'). \<exists>m1 ys.
    bcj_filter (bcj_kind s) (bcj_pos s) (x86_prev_mask s) (temp_bytes m t) (length (temp_bytes m t)) = Some (n, m1, ys) \<and>
    length ys = t \<and> n \<le> t \<and> t - n \<le> bcj_tail (bcj_kind s) \<and> (t = 16 \<longrightarrow> bcj_tail (bcj_kind s) \<le> n) \<and>
    s' = s\<lparr>bcj_pos := bcj_pos s + word_of_nat n, x86_prev_mask := m1\<rparr> \<and> same_shape m m' \<and> (\<forall>k. k \<noteq> Bcj_Temp \<longrightarrow> m' k = m k) \<and>
    temp_bytes m' t = ys)"
proof -
  have room: "t \<le> room m (Bcj_Temp, 0)" using len t by (simp add: room_def)
  have "t < 2 ^ 63" using t by simp
  from ok_bcj_apply [OF en _ this room, of 0] obtain n m1 ys where
      eq: "bcj_apply e m s (Bcj_Temp, 0) 0 t = Some (n, s\<lparr>bcj_pos := bcj_pos s + word_of_nat n, x86_prev_mask := m1\<rparr>, mem_put m (Bcj_Temp, 0) ys)"
    and f: "bcj_filter (bcj_kind s) (bcj_pos s) (x86_prev_mask s) (temp_bytes m t) t = Some (n, m1, ys)"
    and n: "n \<le> t" "length ys = t" "same_shape m (mem_put m (Bcj_Temp, 0) ys)"
    by (auto simp: ok_iff temp_bytes_def ptr_add_def)
  have lt: "length (temp_bytes m t) = t" using len t by simp
  have "temp_bytes (mem_put m (Bcj_Temp, 0) ys) t = ys"
    unfolding temp_bytes_def by (rule mem_bytes_put) (simp_all only: n(2) room)
  moreover have "t - n \<le> bcj_tail (bcj_kind s)" "t = 16 \<longrightarrow> bcj_tail (bcj_kind s) \<le> n"
    using bcj_filter_tail [of "bcj_kind s" "bcj_pos s" "x86_prev_mask s" "temp_bytes m t" n m1 ys] f lt t by simp_all
  ultimately show ?thesis using f n lt by (simp add: eq)
qed


lemma temp_stream:
  assumes str: "bcj_stream m s raw em" and s: "bcj_ret s = XZ_OK" "temp_filtered s = 0"
    and f: "bcj_filter (bcj_kind s) (bcj_pos s) (x86_prev_mask s) (temp_bytes m2 t) (length (temp_bytes m2 t)) = Some (n, m1, ys)"
    and new: "temp_bytes m2 t = temp_bytes m (bcj_temp_size s) @ new" and small: "length (raw @ new) < 2 ^ 63"
    and n: "n \<le> t" "length ys = t" and ys: "temp_bytes m3 t = ys"
    and s3: "bcj_kind s3 = bcj_kind s" "bcj_pos s3 = bcj_pos s + word_of_nat n" "x86_prev_mask s3 = m1" "bcj_temp_size s3 = t"
      "temp_filtered s3 = (if bcj_ret s3 = XZ_STREAM_END then t else n)"
  shows "bcj_stream m3 s3 (raw @ new) em"
proof -
  from stream_filter [OF str s f new small] n obtain k m4 where
    k: "bcj_filter (bcj_kind s) 0 0 (raw @ new) (length (raw @ new)) = Some (k + n, m4, em @ ys)"
       "m1 AND 7 = m4 AND 7" "bcj_pos s = word_of_nat k" "length em = k" by auto
  have "temp_bytes m3 n = take n ys" unfolding ys [symmetric] temp_bytes_def using take_mem_bytes [OF n(1)] by simp
  with k s3 ys show ?thesis by (auto simp: bcj_stream_def)
qed

lemma bcj_frame_cong:
  "frame m s l b m' s' l' b' \<Longrightarrow> same_shape m' m2 \<Longrightarrow> (\<forall>k. k \<noteq> Bcj_Temp \<longrightarrow> m2 k = m' k) \<Longrightarrow> fst (b_out b) \<noteq> Bcj_Temp \<Longrightarrow>
   bcj_kind s2 = bcj_kind s' \<Longrightarrow> bcj_single_call s2 = bcj_single_call s' \<Longrightarrow> frame m s l b m2 s2 l' b'"
  using same_shape_trans [of m m' m2] valid_buf_shape [of m' m2 b'] by (auto simp: bcj_frame_def mem_bytes_def)

lemma ok_via_temp:
  assumes ok: "stage_ok e m s l b" and none: "temp_filtered s = 0" and multi: "multi l"
    and little: "b_out_size b - b_out_pos b \<le> bcj_temp_size s"
  shows "ok (bcj_via_temp run e m s l b) (\<lambda>(r, s', l', b', m').
    post e m s l b (Some (case r of Some ret \<Rightarrow> ret | None \<Rightarrow> bcj_ret s'), s', l', b', m'))"
proof (cases "b_out_pos b < b_out_size b")
  case False
  have "valid_buf m b" using ok ready_valid [of m l b] unfolding bcj_ok_def by blast
  with False have full: "b_out_pos b = b_out_size b" by (simp add: valid_buf_def)
  have "bcj_ret s = XZ_OK" using ok none by (auto simp: bcj_ok_def)
  then have "post e m s l b (Some (bcj_ret s), s, l, b, m)"
    using post_none [OF ok none] ok full by auto
  with False show ?thesis by (simp add: bcj_via_temp_def del: bcj_post.simps)
next
  case True
  have s: "bcj_ret s = XZ_OK" "bcj_single_call s = (\<not> multi l)" "bcj_enabled e (bcj_kind s)" "fst (b_out b) \<noteq> Bcj_Temp" "fst (b_in b) \<noteq> Bcj_Temp"
      "bcj_temp_size s \<le> bcj_tail (bcj_kind s)" "length (m Bcj_Temp) = 16"
    using ok none by (auto simp: bcj_ok_def BCJ_TEMP_SIZE_def)
  let ?s1 = "s\<lparr>bcj_out := b_out b, bcj_out_pos := b_out_pos b, bcj_out_size := b_out_size b\<rparr>"
  let ?b1 = "b\<lparr>b_out := (Bcj_Temp, 0), b_out_pos := bcj_temp_size s, b_out_size := BCJ_TEMP_SIZE\<rparr>"
  from run_temp [OF ok multi refl]
  obtain ret l1 b2 m2 new b3 where run: "run m l ?b1 = Some (ret, l1, b2, m2)"
    and b3: "b3 = b2\<lparr>b_out := b_out b, b_out_pos := b_out_pos b, b_out_size := b_out_size b\<rparr>"
    and fd: "feeds run ready l new l1" and fr: "frame m s l b m2 s l1 b3" and t: "bcj_temp_size s \<le> b_out_pos b2" "b_out_pos b2 \<le> 16"
    and new: "temp_bytes m2 (b_out_pos b2) = temp_bytes m (bcj_temp_size s) @ new" and out: "m2 (fst (b_out b)) = m (fst (b_out b))"
    and rv: "ret \<in> {XZ_OK, XZ_STREAM_END, XZ_DATA_ERROR}" "ret \<noteq> XZ_DATA_ERROR \<longrightarrow> ready m2 l1 b3"
      "ret = XZ_OK \<longrightarrow> b_in_pos b3 = b_in_size b3 \<or> b_out_pos b2 = 16"
    by (simp only: ok_iff split_paired_Ex prod.case BCJ_TEMP_SIZE_def) metis
  have f3: "multi l1" "b_out b3 = b_out b" "b_out_pos b3 = b_out_pos b" "b_out_size b3 = b_out_size b" "length (m2 Bcj_Temp) = 16" "b_in b3 = b_in b"
    using fr multi s(7) buf_frame_sel [of b b3] by (simp_all add: bcj_frame_def b3 same_shape_def)
  let ?s2 = "?s1\<lparr>bcj_ret := ret, bcj_temp_size := b_out_pos b2\<rparr>"
  have unf: "bcj_via_temp run e m s l b = (if ret \<noteq> XZ_OK \<and> ret \<noteq> XZ_STREAM_END then Some (Some ret, ?s2, l1, b3, m2)
    else do {
      (filtered, s, m) \<leftarrow> bcj_apply e m2 ?s2 (Bcj_Temp, 0) 0 (b_out_pos b2);
      let s = s\<lparr>temp_filtered := (if ret = XZ_STREAM_END then bcj_temp_size s else filtered)\<rparr>;
      (s, b, m) \<leftarrow> bcj_flush m s b3;
      Some (if temp_filtered s > 0 then Some XZ_OK else None, s, l1, b, m)
    })"
    using True none run unfolding bcj_via_temp_def Let_def b3 by simp
  show ?thesis
  proof (cases "ret = XZ_DATA_ERROR")
    case True
    have "frame m s l b m2 ?s2 l1 b3" by (rule bcj_frame_cong [OF fr same_shape_refl]) (use s in simp_all)
    then have "post e m s l b (Some XZ_DATA_ERROR, ?s2, l1, b3, m2)" using fd by auto
    with True show ?thesis unfolding unf by (simp del: bcj_post.simps)
  next
    case False
    have "bcj_enabled e (bcj_kind ?s2)" using s by simp
    from filter_temp [of e ?s2 m2 "b_out_pos b2", OF this f3(5) t(2)] obtain n m1 ys m3 where
      ap: "bcj_apply e m2 ?s2 (Bcj_Temp, 0) 0 (b_out_pos b2) = Some (n, ?s2\<lparr>bcj_pos := bcj_pos s + word_of_nat n, x86_prev_mask := m1\<rparr>, m3)"
      and f: "bcj_filter (bcj_kind s) (bcj_pos s) (x86_prev_mask s) (temp_bytes m2 (b_out_pos b2)) (length (temp_bytes m2 (b_out_pos b2))) = Some (n, m1, ys)"
      and n: "length ys = b_out_pos b2" "n \<le> b_out_pos b2" "b_out_pos b2 - n \<le> bcj_tail (bcj_kind s)" "b_out_pos b2 = 16 \<longrightarrow> bcj_tail (bcj_kind s) \<le> n"
      and m3: "same_shape m2 m3" "\<forall>k. k \<noteq> Bcj_Temp \<longrightarrow> m3 k = m2 k" "temp_bytes m3 (b_out_pos b2) = ys"
      by (auto simp: ok_iff)
    let ?f = "if ret = XZ_STREAM_END then b_out_pos b2 else n"
    define s3 where "s3 = ?s2\<lparr>bcj_pos := bcj_pos s + word_of_nat n, x86_prev_mask := m1, temp_filtered := ?f\<rparr>"
    have s3: "bcj_kind s3 = bcj_kind s" "bcj_pos s3 = bcj_pos s + word_of_nat n" "x86_prev_mask s3 = m1" "bcj_temp_size s3 = b_out_pos b2"
      "temp_filtered s3 = ?f" "bcj_ret s3 = ret" "bcj_single_call s3 = bcj_single_call s" by (simp_all add: s3_def)
    have r2: "ready m2 l1 b3" using rv False by blast
    have sep3: "fst (b_out b3) \<noteq> Bcj_Temp" "length (m3 Bcj_Temp) = BCJ_TEMP_SIZE" "temp_filtered s3 \<le> bcj_temp_size s3" "bcj_temp_size s3 \<le> BCJ_TEMP_SIZE"
      using s f3 m3(1) t n(2) by (simp_all add: s3 BCJ_TEMP_SIZE_def same_shape_def)
    note apart = ready_apart [OF r2 f3(1)]
    have r3: "ready m3 l1 b3"
    proof (rule ready_move [OF r2 f3(1)])
      show "\<forall>k\<in>own. m3 k = m2 k" using m3(2) own_temp by metis
      show "valid_buf m3 b3" using ready_valid [OF r2] valid_buf_shape [OF m3(1)] by blast
    qed (use apart in simp_all)
    let ?c = "min (temp_filtered s3) (b_out_size b3 - b_out_pos b3)"
    from flush_good [OF r3 f3(1) sep3(1,2,3,4)] obtain s4 b4 m4 where
      fl: "bcj_flush m3 s3 b3 = Some (s4, b4, m4)" and s4: "s4 = s3\<lparr>temp_filtered := temp_filtered s3 - ?c, bcj_temp_size := bcj_temp_size s3 - ?c\<rparr>"
      and b4: "b4 = b3\<lparr>b_out_pos := b_out_pos b3 + ?c\<rparr>" and fr4: "frame m3 s3 l1 b3 m4 s4 l1 b4" and r4: "ready m4 l1 b4"
      and o4: "out_bytes m4 b3 b4 = take ?c (temp_bytes m3 (temp_filtered s3))"
      and t4: "temp_bytes m4 (bcj_temp_size s3 - ?c) = drop ?c (temp_bytes m3 (bcj_temp_size s3))"
      by (auto simp: ok_iff)
    have "frame m s l b m3 s3 l1 b3" by (rule bcj_frame_cong [OF fr m3(1,2)]) (use s s3 in simp_all)
    from bcj_frame_trans [OF this fr4] have frame: "frame m s l b m4 s4 l1 b4" .
    have full: "b_out_pos b4 = b_out_size b4" if "0 < temp_filtered s4 \<or> ret = XZ_OK \<and> b_out_pos b2 = 16"
    proof -
      have "b_out_size b3 - b_out_pos b3 \<le> temp_filtered s3"
        using that n(4) little s(6) f3 by (auto simp: s4 s3 split: if_splits)
      then show ?thesis using True f3 by (simp add: b4)
    qed
    have used: "b_in_pos b4 = b_in_size b4 \<or> b_out_pos b4 = b_out_size b4" if "0 < temp_filtered s4 \<or> ret = XZ_OK"
      using that full rv(3) by (auto simp: b4)
    have len4: "length (m4 Bcj_Temp) = BCJ_TEMP_SIZE" using fr4 sep3(2) by (simp add: bcj_frame_def same_shape_def)
    have sok: "stage_ok e m4 s4 l1 b4" if "ret = XZ_STREAM_END \<longrightarrow> 0 < temp_filtered s4"
      using that r4 len4 s f3 t n False rv(1) multi
      by (auto simp: bcj_ok_def s4 s3 b4 BCJ_TEMP_SIZE_def)
    have str: "bcj_stream m4 s4 (raw @ new) (em @ out_bytes m4 b b4)" if "bcj_stream m s raw em" "length (raw @ new) < 2 ^ 63" for raw em
    proof -
      have "bcj_stream m3 s3 (raw @ new) em"
        by (rule temp_stream [OF that(1) s(1) none f new that(2) n(2,1) m3(3)]) (simp_all add: s3)
      moreover have "out_bytes m4 b b4 = out_bytes m4 b3 b4" by (simp add: out_bytes_def out_at_def f3)
      ultimately show ?thesis unfolding s4 using o4 t4 sep3(3) by (simp only: flush_stream)
    qed
    have "post e m s l b (Some (if 0 < temp_filtered s4 then XZ_OK else ret), s4, l1, b4, m4)"
      using frame sok used fd rv(1) False str stream_end [OF str] s4 s3
      by (auto intro!: exI [of _ new])
    moreover have "bcj_ret s4 = ret" by (simp add: s4 s3)
    moreover have "bcj_via_temp run e m s l b = Some (if 0 < temp_filtered s4 then Some XZ_OK else None, s4, l1, b4, m4)"
    proof -
      have go: "\<not> (ret \<noteq> XZ_OK \<and> ret \<noteq> XZ_STREAM_END)" using False rv(1) by auto
      have "?s2\<lparr>bcj_pos := bcj_pos s + word_of_nat n, x86_prev_mask := m1\<rparr>\<lparr>temp_filtered :=
          if ret = XZ_STREAM_END then bcj_temp_size (?s2\<lparr>bcj_pos := bcj_pos s + word_of_nat n, x86_prev_mask := m1\<rparr>) else n\<rparr> = s3"
        by (simp add: s3_def)
      then show ?thesis unfolding unf ap if_not_P [OF go] by (simp only: Option.bind.simps prod.case Let_def fl)
    qed
    ultimately show ?thesis by (simp del: bcj_post.simps split: if_splits)
  qed
qed

end

context next_filter
begin

lemma ok_bcj_run:
  assumes ok: "stage_ok e m s l b"
  shows "ok (bcj_run run e m s l b) (\<lambda>(ret, s', l', b', m'). post e m s l b (Some ret, s', l', b', m'))"
proof -
  from ok_pending [OF ok] obtain r1 s1 l1 b1 m1 where p: "bcj_pending m s l b = Some (r1, s1, l1, b1, m1)"
    and P: "post e m s l b (r1, s1, l1, b1, m1)" by (auto simp: ok_iff simp del: bcj_post.simps)
  show ?thesis
  proof (cases r1)
    case (Some ret)
    with P show ?thesis by (simp add: bcj_run_def p del: bcj_post.simps)
  next
    case None
    then have ok1: "stage_ok e m1 s1 l1 b1" "temp_filtered s1 = 0" using P by simp_all
    have trans: "post e m s l b x" if "post e m1 s1 l1 b1 x" for x
    proof (cases "multi l")
      case True
      show ?thesis using bcj_post_after [OF P [unfolded None] that True] .
    next
      case False
      then have "temp_filtered s = 0" using ok by (auto simp: bcj_ok_def)
      with p that show ?thesis by (simp add: bcj_pending_def del: bcj_post.simps)
    qed
    from ok_direct [OF ok1] obtain r2 s2 l2 b2 m2 where d: "bcj_direct run e m1 s1 l1 b1 = Some (r2, s2, l2, b2, m2)"
      and D: "post e m1 s1 l1 b1 (r2, s2, l2, b2, m2)" "r2 = None \<longrightarrow> multi l1 \<and> b_out_size b2 - b_out_pos b2 \<le> bcj_temp_size s2"
      by (auto simp: ok_iff simp del: bcj_post.simps)
    show ?thesis
    proof (cases r2)
      case (Some ret)
      with trans [OF D(1)] show ?thesis by (simp add: bcj_run_def p None d del: bcj_post.simps)
    next
      case r2: None
      then have ok2: "stage_ok e m2 s2 l2 b2" "temp_filtered s2 = 0" "multi l2" "multi l1" using D by (simp_all add: bcj_frame_def)
      from ok_via_temp [OF ok2(1-3)] D(2) r2 obtain r3 s3 l3 b3 m3 where v: "bcj_via_temp run e m2 s2 l2 b2 = Some (r3, s3, l3, b3, m3)"
        and V: "post e m2 s2 l2 b2 (Some (case r3 of Some ret \<Rightarrow> ret | None \<Rightarrow> bcj_ret s3), s3, l3, b3, m3)"
        by (auto simp: ok_iff simp del: bcj_post.simps)
      from trans [OF bcj_post_after [OF D(1) [unfolded r2] V ok2(4)]] show ?thesis
        by (simp add: bcj_run_def p None d r2 v del: bcj_post.simps split: option.splits)
    qed
  qed
qed

text \<open>Over a sequence of calls, each with input and output buffers of its own.\<close>

end

section \<open>LZMA2 as the next filter\<close>

abbreviation lzma2_multi :: "xz_dec_lzma2 \<Rightarrow> bool" where
  "lzma2_multi l \<equiv> DEC_IS_MULTI (d_mode (s_dict l))"

interpretation lzma2: next_filter "xz_dec_lzma2_run e" lzma2_ok lzma2_multi "{Dict_Block, Lzma_Temp}"
proof
  fix m l b
  assume ok: "lzma2_ok m l b"
  show "ok (xz_dec_lzma2_run e m l b) (\<lambda>(ret, l', b', m').
      same_shape m m' \<and> buf_frame b b' \<and> valid_buf m' b' \<and> lzma2_multi l' = lzma2_multi l \<and>
      (\<forall>k. k \<notin> {Dict_Block, Lzma_Temp} \<and> k \<noteq> fst (b_out b) \<longrightarrow> m' k = m k) \<and>
      (lzma2_multi l \<and> fst (b_in b) \<noteq> fst (b_out b) \<longrightarrow> out_kept m b m' b') \<and>
      ret \<in> {XZ_OK, XZ_STREAM_END, XZ_DATA_ERROR} \<and> (ret \<noteq> XZ_DATA_ERROR \<longrightarrow> lzma2_ok m' l' b') \<and>
      (ret = XZ_OK \<longrightarrow> b_in_pos b' = b_in_size b' \<or> b_out_pos b' = b_out_size b'))"
    using ok_lzma2_run [OF ok] by (rule ok_mono) (auto simp: io_frame_def split: xz_ret.splits)
next
  fix m l b
  assume "lzma2_ok m l b"
  then show "valid_buf m b" by (simp add: lzma2_ok_def)
next
  fix m l b
  assume "lzma2_ok m l b" "lzma2_multi l"
  then show "fst (b_in b) \<notin> {Dict_Block, Lzma_Temp} \<and> fst (b_out b) \<notin> {Dict_Block, Lzma_Temp}"
    by (auto simp: lzma2_ok_def temp_sep_def dict_static_def)
next
  fix m l b m' b'
  assume "lzma2_ok m l b" "lzma2_multi l" "\<forall>k\<in>{Dict_Block, Lzma_Temp}. m' k = m k" "valid_buf m' b'"
    "fst (b_in b') \<notin> {Dict_Block, Lzma_Temp}" "fst (b_out b') \<notin> {Dict_Block, Lzma_Temp}"
  then show "lzma2_ok m' l b'"
    by (auto simp: lzma2_ok_def temp_sep_def dict_static_def dict_ok_def dict_link_def room_def seq_ok_def lzma_ok_def split: lzma2_seq.splits)
qed simp

lemma lzma2_bcj_run: "xz_dec_bcj_run e = bcj_run (xz_dec_lzma2_run e) e"
  by (simp add: xz_dec_bcj_run_def)

section \<open>A stream through the stage\<close>

text \<open>
  Calls of \<open>xz_dec_bcj_run\<close>, each with buffers of its own: \<open>em\<close> is what was put out, the
  return code is that of the last call. Between two calls the caller may do with its memory
  what it likes; the blocks of the decoder stay.
\<close>

inductive bcj_session ::
  "xz_env \<Rightarrow> mem \<times> xz_dec_bcj \<times> xz_dec_lzma2 \<Rightarrow> u8 list \<Rightarrow> xz_ret \<Rightarrow> mem \<times> xz_dec_bcj \<times> xz_dec_lzma2 \<Rightarrow> bool" for e st where
  session_start: "bcj_session e st [] XZ_OK st"
| session_call: "bcj_session e st em XZ_OK (m, s, l) \<Longrightarrow>
    \<forall>k\<in>{Dict_Block, Lzma_Temp, Bcj_Temp}. m1 k = m k \<Longrightarrow> valid_buf m1 b \<Longrightarrow>
    fst (b_in b) \<notin> {Dict_Block, Lzma_Temp, Bcj_Temp} \<Longrightarrow> fst (b_out b) \<notin> {Dict_Block, Lzma_Temp, Bcj_Temp, fst (b_in b)} \<Longrightarrow>
    xz_dec_bcj_run e m1 s l b = Some (ret, s', l', b', m') \<Longrightarrow>
    bcj_session e st (em @ out_bytes m' b b') ret (m', s', l')"

lemma bcj_filter_empty: "\<exists>m1. bcj_filter t 0 0 [] 0 = Some (0, m1, []) \<and> m1 AND 7 = 0"
  using bcj_armthumb_conv [of 0 "[]"]
  by (cases t) (auto simp: bcj_filter_def bcj_x86_def keep_mask_def filter_loops bcj_arm_def bcj_ia64_def bcj_loop.simps)

lemma bcj_stream_start:
  assumes "bcj_ret s = XZ_OK" "bcj_pos s = 0" "x86_prev_mask s = 0" "temp_filtered s = 0" "bcj_temp_size s = 0"
  shows "bcj_stream m s [] []"
  using assms bcj_filter_empty [of "bcj_kind s"] by (auto simp: bcj_stream_def temp_bytes_def mem_bytes_def)

lemma bcj_ok_move:
  assumes "bcj_ok lzma2_ok lzma2_multi e m s l b" and "lzma2_multi l" and "\<forall>k\<in>{Dict_Block, Lzma_Temp, Bcj_Temp}. m1 k = m k"
    and "valid_buf m1 b1" and "fst (b_in b1) \<notin> {Dict_Block, Lzma_Temp, Bcj_Temp}" "fst (b_out b1) \<notin> {Dict_Block, Lzma_Temp, Bcj_Temp}"
  shows "bcj_ok lzma2_ok lzma2_multi e m1 s l b1"
  using assms lzma2.ready_move [of m l b m1 b1] by (auto simp: bcj_ok_def)

lemma bcj_stream_cong: "m1 Bcj_Temp = m Bcj_Temp \<Longrightarrow> bcj_stream m1 s raw em = bcj_stream m s raw em"
  by (simp add: bcj_stream_def temp_bytes_def mem_bytes_def)

lemma bcj_session_inv:
  assumes "bcj_session e (m0, s0, l0) em ret (m, s, l)" and "bcj_ok lzma2_ok lzma2_multi e m0 s0 l0 b0" and "lzma2_multi l0"
    and "bcj_stream m0 s0 [] []"
  shows "ret \<in> {XZ_OK, XZ_STREAM_END, XZ_DATA_ERROR} \<and> (ret = XZ_OK \<longrightarrow> (\<exists>b. bcj_ok lzma2_ok lzma2_multi e m s l b) \<and> lzma2_multi l) \<and> bcj_kind s = bcj_kind s0 \<and>
    (\<exists>raw. feeds (xz_dec_lzma2_run e) lzma2_ok l0 raw l \<and> (length raw < 2 ^ 63 \<longrightarrow>
       (ret = XZ_OK \<longrightarrow> bcj_stream m s raw em) \<and> (ret = XZ_STREAM_END \<longrightarrow> em = bcj_image (bcj_kind s0) raw)))"
  using assms(1)
proof (induction em ret "(m, s, l)" arbitrary: m s l rule: bcj_session.induct)
  case session_start
  with assms show ?case by (auto intro: exI [of _ "[]"] feeds_none)
next
  case (session_call em m s l m1 b ret s' l' b' m')
  then obtain b1 raw where ok: "bcj_ok lzma2_ok lzma2_multi e m s l b1" "lzma2_multi l" "bcj_kind s = bcj_kind s0"
    and raw: "feeds (xz_dec_lzma2_run e) lzma2_ok l0 raw l" "length raw < 2 ^ 63 \<longrightarrow> bcj_stream m s raw em" by auto
  have "bcj_ok lzma2_ok lzma2_multi e m1 s l b"
    by (rule bcj_ok_move [OF ok(1,2)]) (use session_call in auto)
  from lzma2.ok_bcj_run [OF this, of e] have post: "bcj_post (xz_dec_lzma2_run e) lzma2_ok lzma2_multi {Dict_Block, Lzma_Temp} e m1 s l b (Some ret, s', l', b', m')"
    using session_call by (simp add: xz_dec_bcj_run_def del: bcj_post.simps)
  then obtain new where new: "feeds (xz_dec_lzma2_run e) lzma2_ok l new l'"
    "\<And>raw em. bcj_stream m1 s raw em \<Longrightarrow> length (raw @ new) < 2 ^ 63 \<Longrightarrow>
        (ret = XZ_STREAM_END \<longrightarrow> em @ out_bytes m' b b' = bcj_image (bcj_kind s) (raw @ new)) \<and>
        (ret = XZ_OK \<longrightarrow> bcj_stream m' s' (raw @ new) (em @ out_bytes m' b b'))"
    using ok(2) session_call by auto
  have "feeds (xz_dec_lzma2_run e) lzma2_ok l0 (raw @ new) l'" by (rule feeds_trans [OF raw(1) new(1)])
  moreover have "bcj_stream m1 s raw em = bcj_stream m s raw em" by (rule bcj_stream_cong) (use session_call in simp)
  moreover have "bcj_kind s' = bcj_kind s" "lzma2_multi l'" using post ok(2) by (simp_all add: bcj_frame_def)
  ultimately show ?case using new(2) [of raw em] raw(2) post ok(3)
    by (auto intro!: exI [of _ "raw @ new"])
qed

section \<open>Properties\<close>

definition bcj_env :: xz_env where
  "bcj_env = \<lparr>XZ_USE_CRC64 = True, XZ_DEC_ANY_CHECK = True, XZ_DEC_MICROLZMA = True, XZ_DEC_X86 = True, XZ_DEC_POWERPC = True, XZ_DEC_IA64 = True, XZ_DEC_ARM = True,
     XZ_DEC_ARMTHUMB = True, XZ_DEC_SPARC = True, XZ_DEC_ARM64 = True, xz_crc32_table = [], xz_crc64_table = []\<rparr>"

definition bcj_memory :: mem where
  \<comment> \<open>a stored chunk with one ARM instruction, and the end marker\<close>
  "bcj_memory = (\<lambda>k. [])(In_Block := [0x01, 0, 3, 0x02, 0, 0, 0xEB, 0], Out_Block := replicate 4 0, Lzma_Temp := replicate 63 0,
     Dict_Block := replicate 8 0, Bcj_Temp := replicate 16 0)"

definition bcj_buf :: xz_buf where
  "bcj_buf = \<lparr>b_in = (In_Block, 0), b_in_pos = 0, b_in_size = 8, b_out = (Out_Block, 0), b_out_pos = 0, b_out_size = 4\<rparr>"

definition bcj_lzma :: xz_dec_lzma2 where
  "bcj_lzma = lzma2_sample\<lparr>s_dict := ring_sample\<lparr>d_mode := XZ_PREALLOC, d_end := 8\<rparr>,
     s_lzma2 := (s_lzma2 lzma2_sample)\<lparr>sequence := SEQ_CONTROL, need_dict_reset := True\<rparr>, temp_size := 0\<rparr>"

definition bcj_fresh :: xz_dec_bcj where
  "bcj_fresh = \<lparr>bcj_kind = BCJ_ARM, bcj_ret = XZ_OK, bcj_single_call = False, bcj_pos = 0, x86_prev_mask = 0, bcj_out = (Null_Block, 0),
     bcj_out_pos = 0, bcj_out_size = 0, temp_filtered = 0, bcj_temp_size = 0\<rparr>"

text \<open>
  C19: \<open>xz_dec_bcj_run\<close> with LZMA2 behind it returns, for every input and all buffer sizes. It
  stays within the caller's buffers and the decoder's own blocks, moves the positions only
  forwards, and returns \<open>XZ_OK\<close> only with its invariant kept and the input or the output
  used up.
\<close>

theorem xz_dec_bcj_run_safe:
  assumes "bcj_ok lzma2_ok lzma2_multi e m s l b"
  shows "ok (xz_dec_bcj_run e m s l b) (\<lambda>(ret, s', l', b', m').
     (\<forall>k. length (m' k) = length (m k)) \<and>
     (\<forall>k. k \<notin> {Dict_Block, Lzma_Temp, Bcj_Temp, fst (b_out b)} \<longrightarrow> m' k = m k) \<and>
     b' = b\<lparr>b_in_pos := b_in_pos b', b_out_pos := b_out_pos b'\<rparr> \<and>
     b_in_pos b \<le> b_in_pos b' \<and> b_in_pos b' \<le> b_in_size b \<and> b_out_pos b \<le> b_out_pos b' \<and> b_out_pos b' \<le> b_out_size b \<and>
     ret \<in> {XZ_OK, XZ_STREAM_END, XZ_DATA_ERROR} \<and>
     (ret = XZ_OK \<longrightarrow> bcj_ok lzma2_ok lzma2_multi e m' s' l' b' \<and> (b_in_pos b' = b_in_size b' \<or> b_out_pos b' = b_out_size b')))"
  unfolding xz_dec_bcj_run_def
proof (rule ok_mono [OF lzma2.ok_bcj_run [OF assms, of e]], clarify)
  fix ret s' l' b' m'
  assume post: "lzma2.post e e m s l b (Some ret, s', l', b', m')"
  then have f: "same_shape m m'" "buf_frame b b'" "valid_buf m' b'"
    "\<forall>k. k \<notin> {Dict_Block, Lzma_Temp, Bcj_Temp, fst (b_out b)} \<longrightarrow> m' k = m k"
    by (auto simp: bcj_frame_def)
  then have "b_in_size b' = b_in_size b" "b_out_size b' = b_out_size b" using buf_frame_sel [OF f(2)] by simp_all
  with f post show "(\<forall>k. length (m' k) = length (m k)) \<and>
     (\<forall>k. k \<notin> {Dict_Block, Lzma_Temp, Bcj_Temp, fst (b_out b)} \<longrightarrow> m' k = m k) \<and>
     b' = b\<lparr>b_in_pos := b_in_pos b', b_out_pos := b_out_pos b'\<rparr> \<and>
     b_in_pos b \<le> b_in_pos b' \<and> b_in_pos b' \<le> b_in_size b \<and> b_out_pos b \<le> b_out_pos b' \<and> b_out_pos b' \<le> b_out_size b \<and>
     ret \<in> {XZ_OK, XZ_STREAM_END, XZ_DATA_ERROR} \<and>
     (ret = XZ_OK \<longrightarrow> bcj_ok lzma2_ok lzma2_multi e m' s' l' b' \<and> (b_in_pos b' = b_in_size b' \<or> b_out_pos b' = b_out_size b'))"
    by (simp add: buf_frame_def valid_buf_def same_shape_def)
qed

lemma bcj_reset_cases:
  "(\<exists>t. bcj_type_of_id (unat i) = Some t \<and> bcj_enabled e t \<and> xz_dec_bcj_reset e s0 i =
       (XZ_OK, s0\<lparr>bcj_kind := t, bcj_ret := XZ_OK, bcj_pos := 0, x86_prev_mask := 0, temp_filtered := 0, bcj_temp_size := 0\<rparr>)) \<or>
   xz_dec_bcj_reset e s0 i = (XZ_OPTIONS_ERROR, s0) \<and> (\<forall>t. bcj_type_of_id (unat i) = Some t \<longrightarrow> \<not> bcj_enabled e t)"
  by (auto simp: xz_dec_bcj_reset_def split: option.splits)

lemma bcj_reset_ok:
  assumes "xz_dec_bcj_reset e s0 i = (XZ_OK, s)" and "lzma2_ok m l b" and "bcj_single_call s0 = (\<not> lzma2_multi l)"
    and "length (m Bcj_Temp) = BCJ_TEMP_SIZE" and "fst (b_in b) \<noteq> Bcj_Temp" and "fst (b_out b) \<noteq> Bcj_Temp"
  shows "bcj_ok lzma2_ok lzma2_multi e m s l b" and "bcj_stream m s [] []"
proof -
  from bcj_reset_cases [of i e s0] assms(1) obtain t where s: "bcj_enabled e t"
    "s = s0\<lparr>bcj_kind := t, bcj_ret := XZ_OK, bcj_pos := 0, x86_prev_mask := 0, temp_filtered := 0, bcj_temp_size := 0\<rparr>" by auto
  show "bcj_ok lzma2_ok lzma2_multi e m s l b" using s assms(2-6) by (simp add: bcj_ok_def)
  show "bcj_stream m s [] []" by (rule bcj_stream_start) (simp_all add: s)
qed

lemma bcj_stream_rest:
  assumes "bcj_stream m s raw em" and "temp_filtered s \<le> bcj_temp_size s" "bcj_temp_size s \<le> length (m Bcj_Temp)" "bcj_temp_size s \<le> 16"
  shows "\<exists>rest. bcj_image (bcj_kind s) raw = em @ rest \<and> length rest \<le> 16"
proof -
  from assms(1) obtain n m3 us where f: "bcj_filter (bcj_kind s) 0 0 raw (length raw) = Some (n, m3, us)"
    and p: "if bcj_ret s = XZ_STREAM_END then em @ temp_bytes m (temp_filtered s) = us
      else em @ temp_bytes m (temp_filtered s) = take n us \<and> drop (temp_filtered s) (temp_bytes m (bcj_temp_size s)) = drop n us"
    unfolding bcj_stream_def by blast
  have "temp_bytes m (bcj_temp_size s) = temp_bytes m (temp_filtered s) @ drop (temp_filtered s) (temp_bytes m (bcj_temp_size s))"
    using take_mem_bytes [OF assms(2), of m "(Bcj_Temp, 0)"] unfolding temp_bytes_def by (metis append_take_drop_id)
  then have "us = em @ temp_bytes m (bcj_temp_size s) \<or> us = em @ temp_bytes m (temp_filtered s)"
    using p append_take_drop_id [of n us] append_assoc by (metis (full_types))
  with assms(2-4) f show ?thesis by (auto simp: bcj_image_def)
qed


lemma bcj_sample_ok:
  "lzma2_ok bcj_memory bcj_lzma bcj_buf" "DEC_IS_MULTI (d_mode (s_dict bcj_lzma))" "length (bcj_memory Bcj_Temp) = BCJ_TEMP_SIZE"
  "fst (b_in bcj_buf) = In_Block" "fst (b_out bcj_buf) = Out_Block" "b_out_size bcj_buf = 4"
  "xz_dec_bcj_reset bcj_env bcj_fresh 7 = (XZ_OK, bcj_fresh)" "\<not> bcj_single_call bcj_fresh"
proof -
  show "lzma2_ok bcj_memory bcj_lzma bcj_buf"
    by (simp add: lzma2_ok_def valid_buf_def temp_sep_def dict_static_def bcj_memory_def bcj_lzma_def bcj_buf_def room_def
        TEMP_BUF_SIZE_def LZMA_IN_REQUIRED_def mode_defs ring_sample_def lzma2_sample_def)
qed (simp_all add: bcj_lzma_def bcj_memory_def bcj_buf_def bcj_fresh_def bcj_env_def ring_sample_def mode_defs BCJ_TEMP_SIZE_def
      xz_dec_bcj_reset_def bcj_type_of_id_def bcj_enabled_def)

theorem xz_dec_bcj_run_safe_witness:
  "\<exists>ret s' l' b' m'. xz_dec_bcj_run bcj_env bcj_memory bcj_fresh bcj_lzma bcj_buf = Some (ret, s', l', b', m') \<and>
     b_out_pos b' \<le> 4 \<and> (ret = XZ_OK \<longrightarrow> b_in_pos b' = b_in_size b' \<or> b_out_pos b' = b_out_size b')"
proof -
  have "bcj_ok lzma2_ok lzma2_multi bcj_env bcj_memory bcj_fresh bcj_lzma bcj_buf"
    using bcj_reset_ok(1) [OF bcj_sample_ok(7,1)] bcj_sample_ok by simp
  from xz_dec_bcj_run_safe [OF this] show ?thesis by (auto simp: ok_iff bcj_sample_ok)
qed


end
