(* ===== verification/Crc.thy ===== *)
theory Crc
  imports Prelude
begin

unbundle bit_operations_syntax

text \<open>
  The integrity checks of the .xz container: \<open>xz_crc32.c\<close> and \<open>xz_crc64.c\<close>.

  The code fills a table of 256 words and then folds one byte at a time over it. The
  specification is the bit-serial CRC (\<open>crc_bits\<close>): shift right, and subtract the
  polynomial when a one falls out. The locale \<open>crc_engine\<close> states what makes a
  table-driven update routine a CRC for a polynomial, and proves once, for any word
  length, that the routine is the bit-serial CRC, that it can be fed in pieces, and that
  a change confined to one byte always changes the result. Both routines interpret it.
\<close>

section \<open>The code\<close>

definition crc32_poly :: u32 where
  "crc32_poly = 0xEDB88320"

definition crc32_table_step :: "u32 \<Rightarrow> u32" where
  "crc32_table_step r = drop_bit 1 r XOR (crc32_poly AND NOT ((r AND 1) - 1))"

definition xz_crc32_init :: "u32 list" where
  "xz_crc32_init = map (\<lambda>i. (crc32_table_step ^^ 8) (word_of_nat i)) [0..<256]"

fun xz_crc32_loop :: "u32 list \<Rightarrow> u8 list \<Rightarrow> u32 \<Rightarrow> u32" where
  "xz_crc32_loop tbl [] crc = crc"
| "xz_crc32_loop tbl (b # bs) crc =
     xz_crc32_loop tbl bs (tbl ! unat (ucast b XOR (crc AND 0xFF)) XOR drop_bit 8 crc)"

definition xz_crc32 :: "u32 list \<Rightarrow> u8 list \<Rightarrow> u32 \<Rightarrow> u32" where
  "xz_crc32 tbl bs crc = NOT (xz_crc32_loop tbl bs (NOT crc))"

definition crc64_poly :: u64 where
  "crc64_poly = 0xC96C5795D7870F42"

definition crc64_table_step :: "u64 \<Rightarrow> u64" where
  "crc64_table_step r = drop_bit 1 r XOR (crc64_poly AND NOT ((r AND 1) - 1))"

definition xz_crc64_init :: "u64 list" where
  "xz_crc64_init = map (\<lambda>i. (crc64_table_step ^^ 8) (word_of_nat i)) [0..<256]"

fun xz_crc64_loop :: "u64 list \<Rightarrow> u8 list \<Rightarrow> u64 \<Rightarrow> u64" where
  "xz_crc64_loop tbl [] crc = crc"
| "xz_crc64_loop tbl (b # bs) crc =
     xz_crc64_loop tbl bs (tbl ! unat (ucast b XOR (crc AND 0xFF)) XOR drop_bit 8 crc)"

definition xz_crc64 :: "u64 list \<Rightarrow> u8 list \<Rightarrow> u64 \<Rightarrow> u64" where
  "xz_crc64 tbl bs crc = NOT (xz_crc64_loop tbl bs (NOT crc))"

section \<open>The bit-serial specification\<close>

definition crc_shift :: "'a::len word \<Rightarrow> 'a word \<Rightarrow> 'a word" where
  "crc_shift poly r = (if bit r 0 then drop_bit 1 r XOR poly else drop_bit 1 r)"

definition crc_byte :: "'a::len word \<Rightarrow> 'a word \<Rightarrow> u8 \<Rightarrow> 'a word" where
  "crc_byte poly c b = (crc_shift poly ^^ 8) (c XOR ucast b)"

definition crc_bits :: "'a::len word \<Rightarrow> u8 list \<Rightarrow> 'a word \<Rightarrow> 'a word" where
  "crc_bits poly bs c = foldl (crc_byte poly) c bs"

text \<open>The branch-free step of the code is the shift of the specification.\<close>

lemma select_by_low_bit:
  "p AND NOT ((r AND 1) - 1) = (if bit r 0 then p else (0 :: 'a::len word))"
  by (simp add: bit_0 and_one_eq mod2_eq_if)

lemma crc_shift_branchless:
  "drop_bit 1 r XOR (poly AND NOT ((r AND 1) - 1)) = crc_shift poly r"
  by (simp add: select_by_low_bit crc_shift_def)

lemma crc_shift_xor: "crc_shift poly (x XOR y) = crc_shift poly x XOR crc_shift poly y"
  by (rule bit_word_eqI) (auto simp: crc_shift_def bit_simps)

lemma crc_shifts_xor:
  "(crc_shift poly ^^ n) (x XOR y) = (crc_shift poly ^^ n) x XOR (crc_shift poly ^^ n) y"
  by (induction n) (simp_all add: crc_shift_xor)

text \<open>A word whose low bits are zero is only shifted.\<close>

lemma crc_shift_even: "\<not> bit r 0 \<Longrightarrow> crc_shift poly r = drop_bit 1 r"
  by (simp add: crc_shift_def)

lemma crc_shifts_high:
  "(crc_shift poly ^^ n) (push_bit k (drop_bit k x)) = drop_bit n (push_bit k (drop_bit k x))"
  if "n \<le> k"
  using that
proof (induction n)
  case (Suc n)
  let ?y = "push_bit k (drop_bit k x)"
  from Suc have "(crc_shift poly ^^ n) ?y = drop_bit n ?y" by simp
  moreover have "\<not> bit (drop_bit n ?y) 0"
    using Suc.prems by (simp add: bit_simps)
  ultimately show ?case
    by (simp add: crc_shift_even)
qed simp

lemma low_high_split: "x = (x AND mask k) XOR push_bit k (drop_bit k x)"
  for x :: "'a::len word"
  by (rule bit_word_eqI) (auto simp: bit_simps)

text \<open>When the polynomial has its top bit set, the bit that fell out can be read back.\<close>

lemma xor_right_cancel: "x XOR p = y XOR p \<Longrightarrow> x = y" for p :: "'a::len word"
  by (metis xor.assoc xor.right_neutral xor_self_eq)

lemma crc_shift_inj:
  assumes "bit poly (LENGTH('a) - 1)"
  shows "inj (crc_shift (poly :: 'a::len word))"
proof (rule injI)
  fix x y assume eq: "crc_shift poly x = crc_shift poly y"
  have top: "bit (crc_shift poly z) (LENGTH('a) - 1) = bit z 0" for z
    using assms by (auto simp: crc_shift_def bit_simps)
  from eq have low: "bit x 0 = bit y 0" by (metis top)
  with eq have high: "drop_bit 1 x = drop_bit 1 y"
    by (auto simp: crc_shift_def split: if_splits dest: xor_right_cancel)
  show "x = y"
  proof (rule bit_word_eqI)
    fix n show "bit x n = bit y n"
      using low arg_cong [OF high, of "\<lambda>w. bit w (n - 1)"]
      by (cases n) (simp_all add: bit_simps)
  qed
qed

lemma ucast_u8_inj: "(ucast b :: 'a::len word) = ucast b' \<Longrightarrow> 8 < LENGTH('a) \<Longrightarrow> b = b'" for b :: u8
proof (rule bit_word_eqI)
  fix n assume eq: "(ucast b :: 'a word) = ucast b'" and len: "8 < LENGTH('a)" and "n < LENGTH(8)"
  then have "bit (ucast b :: 'a word) n = bit (ucast b' :: 'a word) n" by simp
  then show "bit b n = bit b' n" using len \<open>n < LENGTH(8)\<close> by (simp add: bit_simps)
qed

section \<open>What a table-driven routine promises\<close>

definition crc_table_entry :: "'a::len word \<Rightarrow> nat \<Rightarrow> 'a word" where
  "crc_table_entry poly i = (crc_shift poly ^^ 8) (word_of_nat i)"

locale crc_engine =
  fixes poly :: "'a::len word"
    and tbl :: "'a word list"
    and update :: "u8 list \<Rightarrow> 'a word \<Rightarrow> 'a word"
  assumes width: "8 < LENGTH('a)"
    and poly_top: "bit poly (LENGTH('a) - 1)"
    and table: "tbl = map (crc_table_entry poly) [0..<256]"
    and update_Nil: "update [] c = c"
    and update_Cons:
      "update (b # bs) c = update bs (tbl ! unat (ucast b XOR (c AND 0xFF)) XOR drop_bit 8 c)"
begin

lemma index_take_bit:
  "(ucast b XOR (c AND 0xFF) :: 'a word) = take_bit 8 (ucast b XOR c)" for b :: u8
proof -
  have mask: "(0xFF :: 'a word) = mask 8" by (simp add: mask_eq_exp_minus_1)
  show ?thesis
    unfolding mask by (rule bit_word_eqI) (auto simp: bit_simps dest: bit_imp_le_length)
qed

lemma index_less: "unat (ucast b XOR (c AND 0xFF) :: 'a word) < 256" for b :: u8
proof -
  have "unat (take_bit 8 (ucast b XOR c :: 'a word)) = take_bit 8 (unat (ucast b XOR c :: 'a word))"
    by (rule unsigned_take_bit_eq)
  then show ?thesis
    using take_bit_nat_less_exp [of 8 "unat (ucast b XOR c :: 'a word)"]
    by (simp only: index_take_bit) simp
qed

lemma table_lookup:
  "tbl ! unat (ucast b XOR (c AND 0xFF)) = (crc_shift poly ^^ 8) (take_bit 8 (ucast b XOR c))"
  for b :: u8
proof -
  let ?i = "ucast b XOR (c AND 0xFF) :: 'a word"
  have "tbl ! unat ?i = crc_table_entry poly (unat ?i)"
    using index_less [of b c] by (simp add: table)
  also have "\<dots> = (crc_shift poly ^^ 8) ?i"
    by (simp add: crc_table_entry_def)
  finally show ?thesis by (simp only: index_take_bit)
qed

text \<open>One table step is eight bit-serial steps.\<close>

lemma table_step: "tbl ! unat (ucast b XOR (c AND 0xFF)) XOR drop_bit 8 c = crc_byte poly c b"
proof -
  let ?x = "c XOR ucast b"
  have high: "drop_bit 8 (c XOR ucast b) = drop_bit 8 c"
    by (rule bit_word_eqI) (auto simp: bit_simps dest: bit_imp_le_length)
  have "(crc_shift poly ^^ 8) ?x
      = (crc_shift poly ^^ 8) (?x AND mask 8) XOR (crc_shift poly ^^ 8) (push_bit 8 (drop_bit 8 ?x))"
    by (metis low_high_split crc_shifts_xor)
  also have "(crc_shift poly ^^ 8) (push_bit 8 (drop_bit 8 ?x)) = drop_bit 8 (push_bit 8 (drop_bit 8 ?x))"
    by (rule crc_shifts_high) simp
  also have "\<dots> = drop_bit 8 ?x"
    by (rule bit_word_eqI) (auto simp: bit_simps dest: bit_imp_le_length)
  also have "\<dots> = drop_bit 8 c" by (rule high)
  finally show ?thesis
    by (simp only: table_lookup crc_byte_def take_bit_eq_mask xor.commute [of c])
qed

lemma update_bits: "update bs c = crc_bits poly bs c"
  by (induction bs arbitrary: c) (simp_all add: update_Nil update_Cons table_step crc_bits_def)

lemma update_append: "update (as @ bs) c = update bs (update as c)"
  by (simp add: update_bits crc_bits_def)

text \<open>Neither the running value nor the next byte is ever lost.\<close>

lemma shifts_inj: "inj (crc_shift poly ^^ n)"
  by (intro inj_fn crc_shift_inj poly_top)

lemma crc_byte_inj_state: "crc_byte poly c b = crc_byte poly c' b \<Longrightarrow> c = c'"
  using shifts_inj [of 8] by (auto simp: crc_byte_def dest: injD xor_right_cancel)

lemma crc_byte_inj_byte: "crc_byte poly c b = crc_byte poly c b' \<Longrightarrow> b = b'"
proof -
  assume "crc_byte poly c b = crc_byte poly c b'"
  then have "ucast b XOR c = (ucast b' XOR c :: 'a word)"
    using shifts_inj [of 8] by (auto simp: crc_byte_def xor.commute dest: injD)
  then have "(ucast b :: 'a word) = ucast b'" by (rule xor_right_cancel)
  then show "b = b'"
    using width by (rule ucast_u8_inj)
qed

lemma update_inj_state: "update bs c = update bs c' \<Longrightarrow> c = c'"
  by (induction bs arbitrary: c c')
     (auto simp: update_Nil update_Cons table_step dest: crc_byte_inj_state)

lemma one_byte_detected:
  assumes "b \<noteq> b'"
  shows "update (as @ b # bs) c \<noteq> update (as @ b' # bs) c"
  using assms by (auto simp: update_append update_Cons table_step
      dest!: update_inj_state crc_byte_inj_byte)

end

section \<open>Both routines keep the promise\<close>

lemma crc32_table_step_shift: "crc32_table_step = crc_shift crc32_poly"
  by (rule ext) (simp only: crc32_table_step_def crc_shift_branchless)

lemma crc64_table_step_shift: "crc64_table_step = crc_shift crc64_poly"
  by (rule ext) (simp only: crc64_table_step_def crc_shift_branchless)

interpretation crc32: crc_engine crc32_poly xz_crc32_init "xz_crc32_loop xz_crc32_init"
  by unfold_locales
     (simp_all add: xz_crc32_init_def crc_table_entry_def crc32_table_step_shift crc32_poly_def)

interpretation crc64: crc_engine crc64_poly xz_crc64_init "xz_crc64_loop xz_crc64_init"
  by unfold_locales
     (simp_all add: xz_crc64_init_def crc_table_entry_def crc64_table_step_shift crc64_poly_def)

section \<open>Properties\<close>

text \<open>
  C26: the table-driven \<open>xz_crc32\<close>, over the table \<open>xz_crc32_init\<close> fills, is the
  bit-serial CRC-32 of IEEE 802.3 with inverted initial and final values.
\<close>

theorem xz_crc32_bit_serial:
  "xz_crc32 xz_crc32_init bs crc = NOT (crc_bits crc32_poly bs (NOT crc))"
  by (simp add: xz_crc32_def crc32.update_bits)

text \<open>
  feeding the data to \<open>xz_crc32\<close> in pieces, passing on the value returned, gives the
  value of the whole; the stream decoder relies on this between calls.
\<close>

theorem xz_crc32_pieces:
  "xz_crc32 xz_crc32_init (as @ bs) crc = xz_crc32 xz_crc32_init bs (xz_crc32 xz_crc32_init as crc)"
  by (simp add: xz_crc32_def crc32.update_append)

text \<open>
  two inputs that differ in exactly one byte never have the same CRC-32.
\<close>

theorem xz_crc32_detects_byte:
  "xz_crc32 xz_crc32_init (as @ b # bs) crc = xz_crc32 xz_crc32_init (as @ b' # bs) crc \<longleftrightarrow> b = b'"
  using crc32.one_byte_detected [of b b' as bs "NOT crc"]
  by (auto simp: xz_crc32_def)

text \<open>
  C27: \<open>xz_crc64\<close> is the bit-serial CRC-64 of ECMA-182, can be fed in pieces, and tells
  apart inputs that differ in exactly one byte.
\<close>

theorem xz_crc64_correct:
  "xz_crc64 xz_crc64_init bs crc = NOT (crc_bits crc64_poly bs (NOT crc)) \<and>
   xz_crc64 xz_crc64_init (as @ bs) crc = xz_crc64 xz_crc64_init bs (xz_crc64 xz_crc64_init as crc) \<and>
   (xz_crc64 xz_crc64_init (as @ b # bs) crc = xz_crc64 xz_crc64_init (as @ b' # bs) crc \<longleftrightarrow> b = b')"
  using crc64.one_byte_detected [of b b' as bs "NOT crc"]
  by (auto simp: xz_crc64_def crc64.update_bits crc64.update_append crc_bits_def)

lemma crc_byte_unrolled:
  "crc_byte poly c b = (let f = crc_shift poly in f (f (f (f (f (f (f (f (c XOR ucast b)))))))))"
  by (simp add: crc_byte_def eval_nat_numeral Let_def)

text \<open>The published check values of the two algorithms, for the ASCII digits 1 to 9.\<close>

lemma xz_crc32_check_value:
  "xz_crc32 xz_crc32_init [0x31, 0x32, 0x33, 0x34, 0x35, 0x36, 0x37, 0x38, 0x39] 0 = 0xCBF43926"
  unfolding xz_crc32_def crc32.update_bits crc_bits_def crc_byte_unrolled foldl.simps
  by (simp add: crc_shift_def crc32_poly_def)

lemma xz_crc64_check_value:
  "xz_crc64 xz_crc64_init [0x31, 0x32, 0x33, 0x34, 0x35, 0x36, 0x37, 0x38, 0x39] 0 = 0x995DC9BBDF1939FA"
  unfolding xz_crc64_def crc64.update_bits crc_bits_def crc_byte_unrolled foldl.simps
  by (simp add: crc_shift_def crc64_poly_def)

end
