(* ===== verification/Xz_Stream.thy ===== *)
theory Xz_Stream
  imports Bcj Crc
begin

unbundle bit_operations_syntax

text \<open>
  The .xz container decoder (\<open>xz_dec_stream.c\<close>, \<open>xz_stream.h\<close>). \<open>dec_main\<close> is a
  resumable state machine: headers are collected in \<open>temp.buf\<close> (the block
  \<open>Stream_Temp\<close>) until complete, blocks are handed to the filter chain, the sizes of the
  blocks are folded into a hash which the Index must reproduce, and integrity values are
  compared byte by byte.

  A shift by 64 or more has no defined result (\<open>None\<close>). \<open>struct xz_dec_hash\<close> is hashed as it
  lies in memory: 24 bytes, the last four of them padding which \<open>memzero\<close> has cleared; the
  order of bytes is that of a little-endian target. \<open>vli_type\<close> is \<open>uint64_t\<close>. Where
  \<open>XZ_USE_CRC64\<close> is off, \<open>crc\<close> has 32 bits; only 32-bit values are stored then, so the model
  keeps 64.
\<close>

section \<open>xz_stream.h\<close>

definition STREAM_HEADER_SIZE :: nat where
  "STREAM_HEADER_SIZE = 12"

definition HEADER_MAGIC :: "u8 list" where
  "HEADER_MAGIC = [0xFD, 0x37, 0x7A, 0x58, 0x5A, 0x00]"

definition FOOTER_MAGIC :: "u8 list" where
  "FOOTER_MAGIC = [0x59, 0x5A]"

definition VLI_UNKNOWN :: u64 where
  "VLI_UNKNOWN = -1"

definition VLI_BYTES_MAX :: nat where
  "VLI_BYTES_MAX = 8 * 8 div 7"

definition XZ_CHECK_CRC32 :: u8 where "XZ_CHECK_CRC32 = 1"
definition XZ_CHECK_CRC64 :: u8 where "XZ_CHECK_CRC64 = 4"
definition XZ_CHECK_MAX :: u8 where "XZ_CHECK_MAX = 15"

definition IS_CRC64 :: "xz_env \<Rightarrow> u8 \<Rightarrow> bool" where
  "IS_CRC64 e check_type \<longleftrightarrow> XZ_USE_CRC64 e \<and> check_type = XZ_CHECK_CRC64"

section \<open>State\<close>

record xz_dec_hash =
  h_unpadded :: u64
  h_uncompressed :: u64
  h_crc32 :: u32

datatype dec_seq =
    SEQ_STREAM_HEADER
  | SEQ_BLOCK_START
  | SEQ_BLOCK_HEADER
  | SEQ_BLOCK_UNCOMPRESS
  | SEQ_BLOCK_PADDING
  | SEQ_BLOCK_CHECK
  | SEQ_INDEX
  | SEQ_INDEX_PADDING
  | SEQ_INDEX_CRC32
  | SEQ_STREAM_FOOTER
  | SEQ_STREAM_PADDING

datatype index_seq = SEQ_INDEX_COUNT | SEQ_INDEX_UNPADDED | SEQ_INDEX_UNCOMPRESSED

record xz_dec =
  xd_seq :: dec_seq
  xd_pos :: nat
  xd_vli :: u64
  xd_in_start :: nat
  xd_out_start :: nat
  xd_crc :: u64
  check_type :: u8
  xd_mode :: xz_mode
  allow_buf_error :: bool
  bh_compressed :: u64 \<comment> \<open>\<open>block_header\<close>\<close>
  bh_uncompressed :: u64
  bh_size :: nat
  blk_compressed :: u64 \<comment> \<open>\<open>block\<close>\<close>
  blk_uncompressed :: u64
  blk_count :: u64
  blk_hash :: xz_dec_hash
  idx_seq :: index_seq \<comment> \<open>\<open>index\<close>\<close>
  idx_size :: u64
  idx_count :: u64
  idx_hash :: xz_dec_hash
  tmp_pos :: nat \<comment> \<open>\<open>temp\<close>\<close>
  tmp_size :: nat
  xd_lzma2 :: xz_dec_lzma2
  xd_bcj :: xz_dec_bcj
  bcj_active :: bool

definition hash_bytes :: "xz_dec_hash \<Rightarrow> u8 list" where
  \<comment> \<open>\<open>(const uint8_t *)&hash\<close>, \<open>sizeof(hash)\<close> bytes\<close>
  "hash_bytes h = le_bytes 8 (h_unpadded h) @ le_bytes 8 (h_uncompressed h) @ le_bytes 4 (h_crc32 h) @ replicate 4 0"

definition check_sizes :: "nat list" where
  "check_sizes = [0, 4, 4, 4, 8, 8, 8, 16, 16, 16, 32, 32, 32, 64, 64, 64]"

definition check_size :: "u8 \<Rightarrow> nat option" where
  \<comment> \<open>\<open>check_sizes[check_type]\<close>\<close>
  "check_size t = (if unat t < 16 then Some (check_sizes ! unat t) else None)"

definition get_le32 :: "mem \<Rightarrow> nat \<Rightarrow> u32 option" where
  \<comment> \<open>from \<open>temp.buf\<close>\<close>
  "get_le32 m i = do { bs \<leftarrow> load_bytes m (Stream_Temp, i) 4; Some (get_unaligned_le32 bs 0) }"

section \<open>Input\<close>

definition fill_temp :: "mem \<Rightarrow> xz_dec \<Rightarrow> xz_buf \<Rightarrow> (bool \<times> xz_dec \<times> xz_buf \<times> mem) option" where
  "fill_temp m s b = do {
     let copy_size = min (sz_sub (b_in_size b) (b_in_pos b)) (sz_sub (tmp_size s) (tmp_pos s));
     m \<leftarrow> memcpy m (Stream_Temp, tmp_pos s) (ptr_add (b_in b) (b_in_pos b)) copy_size;
     let b = b\<lparr>b_in_pos := sz_add (b_in_pos b) copy_size\<rparr>;
     let s = s\<lparr>tmp_pos := sz_add (tmp_pos s) copy_size\<rparr>;
     if tmp_pos s = tmp_size s then Some (True, s\<lparr>tmp_pos := 0\<rparr>, b, m) else Some (False, s, b, m)
   }"

partial_function (option) dec_vli_loop :: "mem \<Rightarrow> xz_dec \<Rightarrow> ptr \<Rightarrow> nat \<Rightarrow> nat \<Rightarrow> (xz_ret \<times> xz_dec \<times> nat) option" where
  "dec_vli_loop m s inp in_pos in_size =
     (if in_pos < in_size then do {
        byte \<leftarrow> load m inp in_pos;
        let in_pos = sz_add in_pos 1;
        if xd_pos s \<ge> 64 then None
        else do {
          let s = s\<lparr>xd_vli := xd_vli s OR push_bit (xd_pos s) (ucast (byte AND 0x7F))\<rparr>;
          if byte AND 0x80 = 0 then
            if byte = 0 \<and> xd_pos s \<noteq> 0 then Some (XZ_DATA_ERROR, s, in_pos)
            else Some (XZ_STREAM_END, s\<lparr>xd_pos := 0\<rparr>, in_pos)
          else do {
            let s = s\<lparr>xd_pos := u32_add (xd_pos s) 7\<rparr>;
            if xd_pos s = 7 * VLI_BYTES_MAX then Some (XZ_DATA_ERROR, s, in_pos)
            else dec_vli_loop m s inp in_pos in_size
          }
        }
      }
      else Some (XZ_OK, s, in_pos))"

definition dec_vli :: "mem \<Rightarrow> xz_dec \<Rightarrow> ptr \<Rightarrow> nat \<Rightarrow> nat \<Rightarrow> (xz_ret \<times> xz_dec \<times> nat) option" where
  "dec_vli m s inp in_pos in_size = dec_vli_loop m (if xd_pos s = 0 then s\<lparr>xd_vli := 0\<rparr> else s) inp in_pos in_size"

section \<open>Blocks\<close>

type_synonym dec_result = "xz_ret \<times> xz_dec \<times> xz_buf \<times> mem"

definition run_filters :: "xz_env \<Rightarrow> mem \<Rightarrow> xz_dec \<Rightarrow> xz_buf \<Rightarrow> dec_result option" where
  "run_filters e m s b =
     (if XZ_DEC_BCJ e \<and> bcj_active s then do {
        (ret, c, l, b, m) \<leftarrow> xz_dec_bcj_run e m (xd_bcj s) (xd_lzma2 s) b;
        Some (ret, s\<lparr>xd_bcj := c, xd_lzma2 := l\<rparr>, b, m)
      }
      else do {
        (ret, l, b, m) \<leftarrow> xz_dec_lzma2_run e m (xd_lzma2 s) b;
        Some (ret, s\<lparr>xd_lzma2 := l\<rparr>, b, m)
      })"

definition block_crc :: "xz_env \<Rightarrow> mem \<Rightarrow> xz_dec \<Rightarrow> xz_buf \<Rightarrow> xz_dec option" where
  \<comment> \<open>the check over what this call has put out\<close>
  "block_crc e m s b =
     (if check_type s = XZ_CHECK_CRC32 then do {
        bs \<leftarrow> load_bytes m (ptr_add (b_out b) (xd_out_start s)) (sz_sub (b_out_pos b) (xd_out_start s));
        Some (s\<lparr>xd_crc := ucast (xz_crc32 (xz_crc32_table e) bs (ucast (xd_crc s)))\<rparr>)
      }
      else if XZ_USE_CRC64 e \<and> check_type s = XZ_CHECK_CRC64 then do {
        bs \<leftarrow> load_bytes m (ptr_add (b_out b) (xd_out_start s)) (sz_sub (b_out_pos b) (xd_out_start s));
        Some (s\<lparr>xd_crc := xz_crc64 (xz_crc64_table e) bs (xd_crc s)\<rparr>)
      }
      else Some s)"

definition stored_check_size :: "xz_env \<Rightarrow> u8 \<Rightarrow> nat option" where
  "stored_check_size e t =
     (if XZ_DEC_ANY_CHECK e then check_size t
      else Some (if t = XZ_CHECK_CRC32 then 4 else if IS_CRC64 e t then 8 else 0))"

definition hash_update :: "xz_env \<Rightarrow> xz_dec_hash \<Rightarrow> xz_dec_hash" where
  "hash_update e h = h\<lparr>h_crc32 := xz_crc32 (xz_crc32_table e) (hash_bytes h) (h_crc32 h)\<rparr>"

definition block_end :: "xz_env \<Rightarrow> xz_dec \<Rightarrow> (xz_ret \<times> xz_dec) option" where
  \<comment> \<open>the filter chain has returned \<open>XZ_STREAM_END\<close>\<close>
  "block_end e s =
     (if bh_compressed s \<noteq> VLI_UNKNOWN \<and> bh_compressed s \<noteq> blk_compressed s then Some (XZ_DATA_ERROR, s)
      else if bh_uncompressed s \<noteq> VLI_UNKNOWN \<and> bh_uncompressed s \<noteq> blk_uncompressed s then Some (XZ_DATA_ERROR, s)
      else do {
        n \<leftarrow> stored_check_size e (check_type s);
        let h = blk_hash s;
        let h = h\<lparr>h_unpadded := h_unpadded h + (word_of_nat (bh_size s) + blk_compressed s) + word_of_nat n,
                   h_uncompressed := h_uncompressed h + blk_uncompressed s\<rparr>;
        Some (XZ_STREAM_END, s\<lparr>blk_hash := hash_update e h, blk_count := blk_count s + 1\<rparr>)
      })"

definition dec_block :: "xz_env \<Rightarrow> mem \<Rightarrow> xz_dec \<Rightarrow> xz_buf \<Rightarrow> dec_result option" where
  "dec_block e m s b = do {
     let s = s\<lparr>xd_in_start := b_in_pos b, xd_out_start := b_out_pos b\<rparr>;
     (ret, s, b, m) \<leftarrow> run_filters e m s b;
     let s = s\<lparr>blk_compressed := blk_compressed s + word_of_nat (sz_sub (b_in_pos b) (xd_in_start s)),
               blk_uncompressed := blk_uncompressed s + word_of_nat (sz_sub (b_out_pos b) (xd_out_start s))\<rparr>;
     if blk_compressed s > bh_compressed s \<or> blk_uncompressed s > bh_uncompressed s then Some (XZ_DATA_ERROR, s, b, m)
     else do {
       s \<leftarrow> block_crc e m s b;
       if ret = XZ_STREAM_END then do {
         (ret, s) \<leftarrow> block_end e s;
         Some (ret, s, b, m)
       }
       else Some (ret, s, b, m)
     }
   }"

section \<open>Index and integrity values\<close>

definition index_update :: "xz_env \<Rightarrow> mem \<Rightarrow> xz_dec \<Rightarrow> xz_buf \<Rightarrow> xz_dec option" where
  "index_update e m s b = do {
     let in_used = sz_sub (b_in_pos b) (xd_in_start s);
     let s = s\<lparr>idx_size := idx_size s + word_of_nat in_used\<rparr>;
     bs \<leftarrow> load_bytes m (ptr_add (b_in b) (xd_in_start s)) in_used;
     Some (s\<lparr>xd_crc := ucast (xz_crc32 (xz_crc32_table e) bs (ucast (xd_crc s)))\<rparr>)
   }"

definition index_field :: "xz_env \<Rightarrow> xz_dec \<Rightarrow> bool \<times> xz_dec" where
  \<comment> \<open>the \<open>switch\<close> of \<open>dec_index\<close>; false if the number of records is wrong\<close>
  "index_field e s =
     (case idx_seq s of
        SEQ_INDEX_COUNT \<Rightarrow>
          let s = s\<lparr>idx_count := xd_vli s\<rparr>
          in if idx_count s \<noteq> blk_count s then (False, s) else (True, s\<lparr>idx_seq := SEQ_INDEX_UNPADDED\<rparr>)
      | SEQ_INDEX_UNPADDED \<Rightarrow>
          (True, s\<lparr>idx_hash := (idx_hash s)\<lparr>h_unpadded := h_unpadded (idx_hash s) + xd_vli s\<rparr>, idx_seq := SEQ_INDEX_UNCOMPRESSED\<rparr>)
      | SEQ_INDEX_UNCOMPRESSED \<Rightarrow>
          (True, s\<lparr>idx_hash := hash_update e ((idx_hash s)\<lparr>h_uncompressed := h_uncompressed (idx_hash s) + xd_vli s\<rparr>),
                   idx_count := idx_count s - 1, idx_seq := SEQ_INDEX_UNPADDED\<rparr>))"

partial_function (option) dec_index :: "xz_env \<Rightarrow> mem \<Rightarrow> xz_dec \<Rightarrow> xz_buf \<Rightarrow> (xz_ret \<times> xz_dec \<times> xz_buf) option" where
  "dec_index e m s b = do {
     (ret, s, pos) \<leftarrow> dec_vli m s (b_in b) (b_in_pos b) (b_in_size b);
     let b = b\<lparr>b_in_pos := pos\<rparr>;
     if ret \<noteq> XZ_STREAM_END then do {
       s \<leftarrow> index_update e m s b;
       Some (ret, s, b)
     }
     else do {
       let (fine, s) = index_field e s;
       if \<not> fine then Some (XZ_DATA_ERROR, s, b)
       else if idx_count s > 0 then dec_index e m s b
       else Some (XZ_STREAM_END, s, b)
     }
   }"

partial_function (option) crc_validate :: "mem \<Rightarrow> xz_dec \<Rightarrow> xz_buf \<Rightarrow> nat \<Rightarrow> (xz_ret \<times> xz_dec \<times> xz_buf) option" where
  "crc_validate m s b bits =
     (if b_in_pos b = b_in_size b then Some (XZ_OK, s, b)
      else do {
        byte \<leftarrow> in_byte m b;
        let b = b\<lparr>b_in_pos := sz_add (b_in_pos b) 1\<rparr>;
        if xd_pos s \<ge> 64 then None
        else if drop_bit (xd_pos s) (xd_crc s) AND 0xFF \<noteq> ucast byte then Some (XZ_DATA_ERROR, s, b)
        else do {
          let s = s\<lparr>xd_pos := u32_add (xd_pos s) 8\<rparr>;
          if xd_pos s < bits then crc_validate m s b bits
          else Some (XZ_STREAM_END, s\<lparr>xd_crc := 0, xd_pos := 0\<rparr>, b)
        }
      })"

partial_function (option) check_skip :: "xz_dec \<Rightarrow> xz_buf \<Rightarrow> (bool \<times> xz_dec \<times> xz_buf) option" where
  "check_skip s b = do {
     n \<leftarrow> check_size (check_type s);
     if xd_pos s < n then
       if b_in_pos b = b_in_size b then Some (False, s, b)
       else check_skip (s\<lparr>xd_pos := u32_add (xd_pos s) 1\<rparr>) (b\<lparr>b_in_pos := sz_add (b_in_pos b) 1\<rparr>)
     else Some (True, s\<lparr>xd_pos := 0\<rparr>, b)
   }"

section \<open>Headers and footer\<close>

definition dec_stream_header :: "xz_env \<Rightarrow> mem \<Rightarrow> xz_dec \<Rightarrow> (xz_ret \<times> xz_dec) option" where
  "dec_stream_header e m s = do {
     magic \<leftarrow> load_bytes m (Stream_Temp, 0) 6;
     flags \<leftarrow> load_bytes m (Stream_Temp, 6) 2;
     crc \<leftarrow> get_le32 m 8;
     if magic \<noteq> HEADER_MAGIC then Some (XZ_FORMAT_ERROR, s)
     else if xz_crc32 (xz_crc32_table e) flags 0 \<noteq> crc then Some (XZ_DATA_ERROR, s)
     else if flags ! 0 \<noteq> 0 then Some (XZ_OPTIONS_ERROR, s)
     else if flags ! 1 > XZ_CHECK_MAX then Some (XZ_OPTIONS_ERROR, s)
     else do {
       let s = s\<lparr>check_type := flags ! 1\<rparr>;
       if check_type s > XZ_CHECK_CRC32 \<and> \<not> IS_CRC64 e (check_type s)
       then Some (if XZ_DEC_ANY_CHECK e then XZ_UNSUPPORTED_CHECK else XZ_OPTIONS_ERROR, s)
       else Some (XZ_OK, s)
     }
   }"

definition dec_stream_footer :: "xz_env \<Rightarrow> mem \<Rightarrow> xz_dec \<Rightarrow> xz_ret option" where
  "dec_stream_footer e m s = do {
     magic \<leftarrow> load_bytes m (Stream_Temp, 10) 2;
     body \<leftarrow> load_bytes m (Stream_Temp, 4) 6;
     crc \<leftarrow> get_le32 m 0;
     backward \<leftarrow> get_le32 m 4;
     if magic \<noteq> FOOTER_MAGIC then Some XZ_DATA_ERROR
     else if xz_crc32 (xz_crc32_table e) body 0 \<noteq> crc then Some XZ_DATA_ERROR
     else if drop_bit 2 (idx_size s) \<noteq> ucast backward then Some XZ_DATA_ERROR
     else if body ! 4 \<noteq> 0 \<or> body ! 5 \<noteq> check_type s then Some XZ_DATA_ERROR
     else Some XZ_STREAM_END
   }"

text \<open>The parts of \<open>dec_block_header\<close>: \<open>Some r\<close> when the function returned \<open>r\<close>.\<close>

type_synonym part_result = "xz_ret option \<times> xz_dec \<times> mem"

definition part_then :: "part_result option \<Rightarrow> (xz_dec \<Rightarrow> mem \<Rightarrow> part_result option) \<Rightarrow> part_result option" where
  "part_then p f = do { (r, s, m) \<leftarrow> p; case r of Some ret \<Rightarrow> Some (Some ret, s, m) | None \<Rightarrow> f s m }"

definition temp_byte :: "mem \<Rightarrow> xz_dec \<Rightarrow> (u8 \<times> xz_dec) option" where
  \<comment> \<open>\<open>s->temp.buf[s->temp.pos++]\<close>\<close>
  "temp_byte m s = do { c \<leftarrow> load m (Stream_Temp, 0) (tmp_pos s); Some (c, s\<lparr>tmp_pos := sz_add (tmp_pos s) 1\<rparr>) }"

definition header_vli :: "bool \<Rightarrow> (u64 \<Rightarrow> xz_dec \<Rightarrow> xz_dec) \<Rightarrow> xz_dec \<Rightarrow> mem \<Rightarrow> part_result option" where
  \<comment> \<open>a size that may be absent\<close>
  "header_vli present put s m =
     (if present then do {
        (ret, s, pos) \<leftarrow> dec_vli m s (Stream_Temp, 0) (tmp_pos s) (tmp_size s);
        let s = s\<lparr>tmp_pos := pos\<rparr>;
        if ret \<noteq> XZ_STREAM_END then Some (Some XZ_DATA_ERROR, s, m) else Some (None, put (xd_vli s) s, m)
      }
      else Some (None, put VLI_UNKNOWN s, m))"

definition header_bcj :: "xz_env \<Rightarrow> u8 \<Rightarrow> xz_dec \<Rightarrow> mem \<Rightarrow> part_result option" where
  "header_bcj e flags s m =
     (if \<not> XZ_DEC_BCJ e then Some (None, s, m)
      else do {
        let s = s\<lparr>bcj_active := (flags AND 0x01 \<noteq> 0)\<rparr>;
        if \<not> bcj_active s then Some (None, s, m)
        else if sz_sub (tmp_size s) (tmp_pos s) < 2 then Some (Some XZ_OPTIONS_ERROR, s, m)
        else do {
          (i, s) \<leftarrow> temp_byte m s;
          let (ret, c) = xz_dec_bcj_reset e (xd_bcj s) i;
          let s = s\<lparr>xd_bcj := c\<rparr>;
          if ret \<noteq> XZ_OK then Some (Some ret, s, m)
          else do {
            (n, s) \<leftarrow> temp_byte m s;
            if n \<noteq> 0 then Some (Some XZ_OPTIONS_ERROR, s, m) else Some (None, s, m)
          }
        }
      })"

definition header_lzma2 :: "(nat \<Rightarrow> u8 list option) \<Rightarrow> xz_dec \<Rightarrow> mem \<Rightarrow> part_result option" where
  "header_lzma2 vmalloc s m =
     (if sz_sub (tmp_size s) (tmp_pos s) < 2 then Some (Some XZ_DATA_ERROR, s, m)
      else do {
        (i, s) \<leftarrow> temp_byte m s;
        if i \<noteq> 0x21 then Some (Some XZ_OPTIONS_ERROR, s, m)
        else do {
          (n, s) \<leftarrow> temp_byte m s;
          if n \<noteq> 0x01 then Some (Some XZ_OPTIONS_ERROR, s, m)
          else if sz_sub (tmp_size s) (tmp_pos s) < 1 then Some (Some XZ_DATA_ERROR, s, m)
          else do {
            (props, s) \<leftarrow> temp_byte m s;
            let (ret, l, m) = xz_dec_lzma2_reset vmalloc m (xd_lzma2 s) props;
            let s = s\<lparr>xd_lzma2 := l\<rparr>;
            if ret \<noteq> XZ_OK then Some (Some ret, s, m) else Some (None, s, m)
          }
        }
      })"

partial_function (option) header_padding :: "xz_dec \<Rightarrow> mem \<Rightarrow> part_result option" where
  "header_padding s m =
     (if tmp_pos s < tmp_size s then do {
        (c, s) \<leftarrow> temp_byte m s;
        if c \<noteq> 0 then Some (Some XZ_OPTIONS_ERROR, s, m) else header_padding s m
      }
      else Some (None, s, m))"

definition dec_block_header :: "xz_env \<Rightarrow> (nat \<Rightarrow> u8 list option) \<Rightarrow> mem \<Rightarrow> xz_dec \<Rightarrow> (xz_ret \<times> xz_dec \<times> mem) option" where
  "dec_block_header e vmalloc m s = do {
     let s = s\<lparr>tmp_size := sz_sub (tmp_size s) 4\<rparr>;
     header \<leftarrow> load_bytes m (Stream_Temp, 0) (tmp_size s);
     crc \<leftarrow> get_le32 m (tmp_size s);
     if xz_crc32 (xz_crc32_table e) header 0 \<noteq> crc then Some (XZ_DATA_ERROR, s, m)
     else do {
       let s = s\<lparr>tmp_pos := 2\<rparr>;
       flags \<leftarrow> load m (Stream_Temp, 0) 1;
       if flags AND (if XZ_DEC_BCJ e then 0x3E else 0x3F) \<noteq> 0 then Some (XZ_OPTIONS_ERROR, s, m)
       else do {
         (r, s, m) \<leftarrow>
           part_then (part_then (part_then (part_then
             (header_vli (flags AND 0x40 \<noteq> 0) (\<lambda>v s. s\<lparr>bh_compressed := v\<rparr>) s m)
             (header_vli (flags AND 0x80 \<noteq> 0) (\<lambda>v s. s\<lparr>bh_uncompressed := v\<rparr>)))
             (header_bcj e flags))
             (header_lzma2 vmalloc))
             header_padding;
         case r of Some ret \<Rightarrow> Some (ret, s, m)
         | None \<Rightarrow> Some (XZ_OK, s\<lparr>tmp_pos := 0, blk_compressed := 0, blk_uncompressed := 0\<rparr>, m)
       }
     }
   }"

section \<open>The state machine\<close>

text \<open>One case of the \<open>switch\<close> in \<open>dec_main\<close>. Where the code falls through it has set
  \<open>sequence\<close> to the next case before, so the model goes around the loop: \<open>Some r\<close> is a
  return, \<open>None\<close> goes on.\<close>

type_synonym main_result = "xz_ret option \<times> xz_dec \<times> xz_buf \<times> mem"

partial_function (option) block_padding :: "mem \<Rightarrow> xz_dec \<Rightarrow> xz_buf \<Rightarrow> (xz_ret option \<times> xz_dec \<times> xz_buf) option" where
  "block_padding m s b =
     (if blk_compressed s AND 3 \<noteq> 0 then
        if b_in_pos b = b_in_size b then Some (Some XZ_OK, s, b)
        else do {
          c \<leftarrow> in_byte m b;
          let b = b\<lparr>b_in_pos := sz_add (b_in_pos b) 1\<rparr>;
          if c \<noteq> 0 then Some (Some XZ_DATA_ERROR, s, b)
          else block_padding m (s\<lparr>blk_compressed := blk_compressed s + 1\<rparr>) b
        }
      else Some (None, s, b))"

partial_function (option) index_padding :: "xz_env \<Rightarrow> mem \<Rightarrow> xz_dec \<Rightarrow> xz_buf \<Rightarrow> (xz_ret option \<times> xz_dec \<times> xz_buf) option" where
  "index_padding e m s b =
     (if (idx_size s + word_of_nat (sz_sub (b_in_pos b) (xd_in_start s))) AND 3 \<noteq> 0 then
        if b_in_pos b = b_in_size b then do {
          s \<leftarrow> index_update e m s b;
          Some (Some XZ_OK, s, b)
        }
        else do {
          c \<leftarrow> in_byte m b;
          let b = b\<lparr>b_in_pos := sz_add (b_in_pos b) 1\<rparr>;
          if c \<noteq> 0 then Some (Some XZ_DATA_ERROR, s, b) else index_padding e m s b
        }
      else Some (None, s, b))"

definition block_start :: "mem \<Rightarrow> xz_dec \<Rightarrow> xz_buf \<Rightarrow> main_result option" where
  "block_start m s b =
     (if b_in_pos b = b_in_size b then Some (Some XZ_OK, s, b, m)
      else do {
        c \<leftarrow> in_byte m b;
        if c = 0 then Some (None, s\<lparr>xd_in_start := b_in_pos b, xd_seq := SEQ_INDEX\<rparr>, b\<lparr>b_in_pos := sz_add (b_in_pos b) 1\<rparr>, m)
        else do {
          let s = s\<lparr>bh_size := (unat c + 1) * 4\<rparr>;
          Some (None, s\<lparr>tmp_size := bh_size s, tmp_pos := 0, xd_seq := SEQ_BLOCK_HEADER\<rparr>, b, m)
        }
      })"

definition block_check :: "xz_env \<Rightarrow> mem \<Rightarrow> xz_dec \<Rightarrow> xz_buf \<Rightarrow> (xz_ret \<times> xz_dec \<times> xz_buf) option" where
  "block_check e m s b =
     (if check_type s = XZ_CHECK_CRC32 then crc_validate m s b 32
      else if IS_CRC64 e (check_type s) then crc_validate m s b 64
      else if XZ_DEC_ANY_CHECK e then do {
        (skipped, s, b) \<leftarrow> check_skip s b;
        Some (if skipped then XZ_STREAM_END else XZ_OK, s, b)
      }
      else Some (XZ_STREAM_END, s, b))"

definition dec_step :: "xz_env \<Rightarrow> (nat \<Rightarrow> u8 list option) \<Rightarrow> mem \<Rightarrow> xz_dec \<Rightarrow> xz_buf \<Rightarrow> main_result option" where
  "dec_step e vmalloc m s b =
     (case xd_seq s of
        SEQ_STREAM_HEADER \<Rightarrow> do {
          (filled, s, b, m) \<leftarrow> fill_temp m s b;
          if \<not> filled then Some (Some XZ_OK, s, b, m)
          else do {
            (ret, s) \<leftarrow> dec_stream_header e m (s\<lparr>xd_seq := SEQ_BLOCK_START\<rparr>);
            Some (if ret \<noteq> XZ_OK then Some ret else None, s, b, m)
          }
        }
      | SEQ_BLOCK_START \<Rightarrow> block_start m s b
      | SEQ_BLOCK_HEADER \<Rightarrow> do {
          (filled, s, b, m) \<leftarrow> fill_temp m s b;
          if \<not> filled then Some (Some XZ_OK, s, b, m)
          else do {
            (ret, s, m) \<leftarrow> dec_block_header e vmalloc m s;
            if ret \<noteq> XZ_OK then Some (Some ret, s, b, m) else Some (None, s\<lparr>xd_seq := SEQ_BLOCK_UNCOMPRESS\<rparr>, b, m)
          }
        }
      | SEQ_BLOCK_UNCOMPRESS \<Rightarrow> do {
          (ret, s, b, m) \<leftarrow> dec_block e m s b;
          if ret \<noteq> XZ_STREAM_END then Some (Some ret, s, b, m) else Some (None, s\<lparr>xd_seq := SEQ_BLOCK_PADDING\<rparr>, b, m)
        }
      | SEQ_BLOCK_PADDING \<Rightarrow> do {
          (r, s, b) \<leftarrow> block_padding m s b;
          Some (r, (if r = None then s\<lparr>xd_seq := SEQ_BLOCK_CHECK\<rparr> else s), b, m)
        }
      | SEQ_BLOCK_CHECK \<Rightarrow> do {
          (ret, s, b) \<leftarrow> block_check e m s b;
          if ret \<noteq> XZ_STREAM_END then Some (Some ret, s, b, m) else Some (None, s\<lparr>xd_seq := SEQ_BLOCK_START\<rparr>, b, m)
        }
      | SEQ_INDEX \<Rightarrow> do {
          (ret, s, b) \<leftarrow> dec_index e m s b;
          if ret \<noteq> XZ_STREAM_END then Some (Some ret, s, b, m) else Some (None, s\<lparr>xd_seq := SEQ_INDEX_PADDING\<rparr>, b, m)
        }
      | SEQ_INDEX_PADDING \<Rightarrow> do {
          (r, s, b) \<leftarrow> index_padding e m s b;
          if r \<noteq> None then Some (r, s, b, m)
          else do {
            s \<leftarrow> index_update e m s b;
            if hash_bytes (blk_hash s) \<noteq> hash_bytes (idx_hash s) then Some (Some XZ_DATA_ERROR, s, b, m)
            else Some (None, s\<lparr>xd_seq := SEQ_INDEX_CRC32\<rparr>, b, m)
          }
        }
      | SEQ_INDEX_CRC32 \<Rightarrow> do {
          (ret, s, b) \<leftarrow> crc_validate m s b 32;
          if ret \<noteq> XZ_STREAM_END then Some (Some ret, s, b, m)
          else Some (None, s\<lparr>tmp_size := STREAM_HEADER_SIZE, xd_seq := SEQ_STREAM_FOOTER\<rparr>, b, m)
        }
      | SEQ_STREAM_FOOTER \<Rightarrow> do {
          (filled, s, b, m) \<leftarrow> fill_temp m s b;
          if \<not> filled then Some (Some XZ_OK, s, b, m)
          else do {
            ret \<leftarrow> dec_stream_footer e m s;
            Some (Some ret, s, b, m)
          }
        }
      | SEQ_STREAM_PADDING \<Rightarrow> Some (None, s, b, m))"

partial_function (option) dec_loop :: "xz_env \<Rightarrow> (nat \<Rightarrow> u8 list option) \<Rightarrow> mem \<Rightarrow> xz_dec \<Rightarrow> xz_buf \<Rightarrow> dec_result option" where
  "dec_loop e vmalloc m s b = do {
     (r, s, b, m) \<leftarrow> dec_step e vmalloc m s b;
     case r of Some ret \<Rightarrow> Some (ret, s, b, m) | None \<Rightarrow> dec_loop e vmalloc m s b
   }"

definition dec_main :: "xz_env \<Rightarrow> (nat \<Rightarrow> u8 list option) \<Rightarrow> mem \<Rightarrow> xz_dec \<Rightarrow> xz_buf \<Rightarrow> dec_result option" where
  "dec_main e vmalloc m s b = dec_loop e vmalloc m (s\<lparr>xd_in_start := b_in_pos b\<rparr>) b"

section \<open>The interface\<close>

definition zero_hash :: xz_dec_hash where
  "zero_hash = \<lparr>h_unpadded = 0, h_uncompressed = 0, h_crc32 = 0\<rparr>"

definition xz_dec_reset :: "xz_dec \<Rightarrow> xz_dec" where
  \<comment> \<open>\<open>memzero\<close> also sets \<open>index.sequence\<close> to its first value\<close>
  "xz_dec_reset s = s\<lparr>xd_seq := SEQ_STREAM_HEADER, allow_buf_error := False, xd_pos := 0, xd_crc := 0,
     blk_compressed := 0, blk_uncompressed := 0, blk_count := 0, blk_hash := zero_hash,
     idx_seq := SEQ_INDEX_COUNT, idx_size := 0, idx_count := 0, idx_hash := zero_hash,
     tmp_pos := 0, tmp_size := STREAM_HEADER_SIZE\<rparr>"

definition xz_dec_run :: "xz_env \<Rightarrow> (nat \<Rightarrow> u8 list option) \<Rightarrow> mem \<Rightarrow> xz_dec \<Rightarrow> xz_buf \<Rightarrow> dec_result option" where
  "xz_dec_run e vmalloc m s b0 = do {
     let s = (if DEC_IS_SINGLE (xd_mode s) then xz_dec_reset s else s);
     (ret, s, b, m) \<leftarrow> dec_main e vmalloc m s b0;
     if DEC_IS_SINGLE (xd_mode s) then do {
       let ret = (if ret = XZ_OK then if b_in_pos b = b_in_size b then XZ_DATA_ERROR else XZ_BUF_ERROR else ret);
       Some (ret, s, (if ret \<noteq> XZ_STREAM_END then b\<lparr>b_in_pos := b_in_pos b0, b_out_pos := b_out_pos b0\<rparr> else b), m)
     }
     else if ret = XZ_OK \<and> b_in_pos b0 = b_in_pos b \<and> b_out_pos b0 = b_out_pos b
     then Some (if allow_buf_error s then XZ_BUF_ERROR else ret, s\<lparr>allow_buf_error := True\<rparr>, b, m)
     else Some (ret, s\<lparr>allow_buf_error := False\<rparr>, b, m)
   }"

partial_function (option) stream_padding :: "mem \<Rightarrow> xz_dec \<Rightarrow> xz_buf \<Rightarrow> bool \<Rightarrow> (xz_ret option \<times> xz_dec \<times> xz_buf) option" where
  "stream_padding m s b finish =
     (if b_in_pos b = b_in_size b then
        Some (Some (if \<not> finish then XZ_OK else if xd_pos s \<noteq> 0 then XZ_DATA_ERROR else XZ_STREAM_END), s, b)
      else do {
        c \<leftarrow> in_byte m b;
        if c \<noteq> 0 then Some (if xd_pos s \<noteq> 0 then Some XZ_DATA_ERROR else None, s, b)
        else stream_padding m (s\<lparr>xd_pos := u32_add (xd_pos s) 1 mod 4\<rparr>) (b\<lparr>b_in_pos := sz_add (b_in_pos b) 1\<rparr>) finish
      })"

partial_function (option) catrun_loop ::
  "xz_env \<Rightarrow> (nat \<Rightarrow> u8 list option) \<Rightarrow> mem \<Rightarrow> xz_dec \<Rightarrow> xz_buf \<Rightarrow> bool \<Rightarrow> dec_result option" where
  "catrun_loop e vmalloc m s b finish = do {
     (r, s, b) \<leftarrow> (if xd_seq s = SEQ_STREAM_PADDING then do {
         (r, s, b) \<leftarrow> stream_padding m s b finish;
         Some (r, (if r = None \<and> DEC_IS_MULTI (xd_mode s) then xz_dec_reset s else s), b)
       }
       else Some (None, s, b));
     case r of Some ret \<Rightarrow> Some (ret, s, b, m)
     | None \<Rightarrow> do {
         (ret, s, b, m) \<leftarrow> xz_dec_run e vmalloc m s b;
         if ret \<noteq> XZ_STREAM_END then Some (ret, s, b, m)
         else catrun_loop e vmalloc m (s\<lparr>xd_seq := SEQ_STREAM_PADDING\<rparr>) b finish
       }
   }"

definition xz_dec_catrun :: "xz_env \<Rightarrow> (nat \<Rightarrow> u8 list option) \<Rightarrow> mem \<Rightarrow> xz_dec \<Rightarrow> xz_buf \<Rightarrow> bool \<Rightarrow> dec_result option" where
  "xz_dec_catrun e vmalloc m s b finish =
     (if DEC_IS_SINGLE (xd_mode s) then catrun_loop e vmalloc m (xz_dec_reset s) b True
      else catrun_loop e vmalloc m s b finish)"

definition xz_dec_init ::
  "xz_env \<Rightarrow> xz_dec option \<Rightarrow> xz_dec_bcj option \<Rightarrow> xz_dec_lzma2 option \<Rightarrow> (nat \<Rightarrow> u8 list option) \<Rightarrow> mem \<Rightarrow> xz_mode \<Rightarrow> nat \<Rightarrow> xz_dec option \<times> mem" where
  \<comment> \<open>the second to fourth arguments: the memory the three calls of \<open>kmalloc\<close> return\<close>
  "xz_dec_init e kmalloc kmalloc_bcj kmalloc_lzma2 vmalloc m mode dict_max =
     (case kmalloc of None \<Rightarrow> (None, m)
      | Some s \<Rightarrow>
          let s = s\<lparr>xd_mode := mode\<rparr>;
              (c, m) = (if XZ_DEC_BCJ e then xz_dec_bcj_create kmalloc_bcj m (DEC_IS_SINGLE mode) else (Some (xd_bcj s), m))
          in case c of None \<Rightarrow> (None, m)
             | Some c \<Rightarrow>
                 (case xz_dec_lzma2_create kmalloc_lzma2 vmalloc m mode dict_max of (None, m) \<Rightarrow> (None, m)
                  | (Some l, m) \<Rightarrow> (Some (xz_dec_reset (s\<lparr>xd_bcj := c, xd_lzma2 := l\<rparr>)), m)))"

definition xz_dec_end :: "mem \<Rightarrow> xz_dec option \<Rightarrow> mem" where
  \<comment> \<open>what is left of memory\<close>
  "xz_dec_end m s = (case s of None \<Rightarrow> m | Some s \<Rightarrow> xz_dec_lzma2_end m (xd_lzma2 s))"

end
