(* ===== verification/Stream_Fields.thy ===== *)
theory Stream_Fields
  imports Xz_Stream
begin

unbundle bit_operations_syntax

text \<open>
  The fields of the .xz container that are read byte by byte and may be cut anywhere by the
  end of the input: variable-length integers (\<open>dec_vli\<close>), integrity values
  (\<open>crc_validate\<close>), the records of the Index (\<open>dec_index\<close>) and padding. For each field a
  reference description of its bytes is given, and the function is shown to accept exactly
  those bytes and to go on where it stopped.
\<close>

section \<open>Variable-length integers\<close>

text \<open>The format: groups of seven bits, least significant first, all but the last with the
  high bit set.\<close>

fun vli_encode :: "nat \<Rightarrow> u8 list" where
  "vli_encode v = (if v < 128 then [word_of_nat v] else word_of_nat (128 + v mod 128) # vli_encode (v div 128))"

declare vli_encode.simps [simp del]

fun vli_value :: "u8 list \<Rightarrow> nat" where
  "vli_value [] = 0"
| "vli_value (b # bs) = unat b mod 128 + 128 * vli_value bs"

definition vli_more :: "u8 list \<Rightarrow> bool" where
  \<comment> \<open>a number that goes on\<close>
  "vli_more bs \<longleftrightarrow> (\<forall>b\<in>set bs. 128 \<le> unat b)"

lemma vli_value_append: "vli_value (as @ bs) = vli_value as + 128 ^ length as * vli_value bs"
  by (induction as) (simp_all add: algebra_simps)

lemma vli_value_less: "vli_value bs < 128 ^ length bs"
proof (induction bs)
  case (Cons b bs)
  have "unat b mod 128 + 128 * vli_value bs < 128 * (vli_value bs + 1)" by simp
  also have "\<dots> \<le> 128 * 128 ^ length bs" using Cons by (intro mult_le_mono) simp_all
  finally show ?case by simp
qed simp

text \<open>The encodings are the minimal sequences.\<close>

definition vli_code :: "u8 list \<Rightarrow> u8 \<Rightarrow> bool" where
  "vli_code bs b \<longleftrightarrow> vli_more bs \<and> unat b < 128 \<and> (b = 0 \<longrightarrow> bs = [])"

lemma vli_more_simps [simp]: "vli_more []" "vli_more (b # bs) \<longleftrightarrow> 128 \<le> unat b \<and> vli_more bs" "vli_more (as @ bs) \<longleftrightarrow> vli_more as \<and> vli_more bs"
  by (auto simp: vli_more_def)

lemma vli_encode_code: "\<exists>bs b. vli_encode v = bs @ [b] \<and> vli_code bs b \<and> vli_value (bs @ [b]) = v \<and> (v \<noteq> 0 \<longrightarrow> b \<noteq> 0)"
proof (induction v rule: vli_encode.induct)
  case (1 v)
  show ?case
  proof (cases "v < 128")
    case True
    then have "unat (word_of_nat v :: u8) = v" by (simp add: unat_of_nat)
    moreover have "v \<noteq> 0 \<Longrightarrow> (word_of_nat v :: u8) \<noteq> 0" using True calculation by auto
    ultimately show ?thesis
      using True by (intro exI [of _ "[]"] exI [of _ "word_of_nat v"]) (simp add: vli_encode.simps [of v] vli_code_def)
  next
    case False
    then obtain bs b where ih: "vli_encode (v div 128) = bs @ [b]" "vli_code bs b" "vli_value (bs @ [b]) = v div 128" "v div 128 \<noteq> 0 \<longrightarrow> b \<noteq> 0"
      using 1 by blast
    define w :: u8 where "w = word_of_nat (128 + v mod 128)"
    have u: "unat w = 128 + v mod 128" by (simp only: w_def unat_of_nat) simp
    have "vli_encode v = w # vli_encode (v div 128)" using False by (subst vli_encode.simps) (simp only: w_def if_False)
    moreover have "v div 128 \<noteq> 0" using False by simp
    ultimately show ?thesis
      using ih by (intro exI [of _ "w # bs"] exI [of _ b]) (simp add: vli_code_def u)
  qed
qed

lemma vli_code_encode: "vli_code bs b \<Longrightarrow> vli_encode (vli_value (bs @ [b])) = bs @ [b]"
proof (induction bs)
  case Nil
  then show ?case by (simp add: vli_code_def vli_encode.simps [of "unat b"] )
next
  case (Cons a bs)
  have c: "vli_code bs b" "128 \<le> unat a" "b \<noteq> 0" using Cons.prems by (auto simp: vli_code_def)
  have pos: "0 < vli_value (bs @ [b])"
  proof -
    have "unat b \<noteq> 0" using c(3) by (simp add: unat_eq_zero)
    moreover have "unat b < 128" using c(1) by (simp add: vli_code_def)
    ultimately show ?thesis by (simp add: vli_value_append)
  qed
  have d: "vli_value (a # bs @ [b]) div 128 = vli_value (bs @ [b])" by simp
  have m: "vli_value (a # bs @ [b]) mod 128 = unat a mod 128" by simp
  have a: "word_of_nat (128 + unat a mod 128) = a"
  proof -
    have "unat a < 256" by simp
    then have "unat a - 128 < 128" by linarith
    then have "128 + unat a mod 128 = unat a" using c(2) by (simp only: le_mod_geq mod_less)
    then show ?thesis by simp
  qed
  have "\<not> vli_value (a # bs @ [b]) < 128" using pos by simp
  then show ?case
    by (subst vli_encode.simps) (simp only: d m a if_False Cons.IH [OF c(1)] append_Cons)
qed

lemma vli_code_iff: "(\<exists>v. vli_encode v = bs @ [b]) \<longleftrightarrow> vli_code bs b"
  using vli_encode_code vli_code_encode by (metis append1_eq_conv)

lemma vli_encode_value [simp]: "vli_value (vli_encode v) = v"
  using vli_encode_code [of v] by auto

lemma vli_code_length: "vli_code bs b \<Longrightarrow> vli_value (bs @ [b]) < 2 ^ 63 \<longleftrightarrow> length bs < 9"
proof
  assume c: "vli_code bs b" and "length bs < 9"
  have "vli_value (bs @ [b]) < 128 ^ length (bs @ [b])" by (rule vli_value_less)
  also have "\<dots> \<le> 128 ^ 9" using \<open>length bs < 9\<close> by (intro power_increasing) simp_all
  finally show "vli_value (bs @ [b]) < 2 ^ 63" by simp
next
  assume c: "vli_code bs b" and less: "vli_value (bs @ [b]) < 2 ^ 63"
  show "length bs < 9"
  proof (rule ccontr)
    assume n: "\<not> length bs < 9"
    then have "unat b \<noteq> 0" "unat b < 128" using c by (auto simp: vli_code_def unat_eq_zero)
    then have "128 ^ length bs * 1 \<le> 128 ^ length bs * unat b" by (intro mult_le_mono) simp_all
    moreover have "vli_value (bs @ [b]) = vli_value bs + 128 ^ length bs * unat b" using \<open>unat b < 128\<close> by (simp add: vli_value_append)
    ultimately have "128 ^ length bs \<le> vli_value (bs @ [b])" by linarith
    moreover have "(128 :: nat) ^ 9 \<le> 128 ^ length bs" using n by (intro power_increasing) simp_all
    ultimately show False using less by simp
  qed
qed
text \<open>The bytes \<open>bs\<close> of a number have been read.\<close>

definition vli_partial :: "u8 list \<Rightarrow> xz_dec \<Rightarrow> bool" where
  "vli_partial bs s \<longleftrightarrow> length bs \<le> 8 \<and> vli_more bs \<and> xd_pos s = 7 * length bs \<and> (bs \<noteq> [] \<longrightarrow> xd_vli s = word_of_nat (vli_value bs))"

lemma vli_or:
  "length bs \<le> 8 \<Longrightarrow> (word_of_nat (vli_value bs) :: u64) OR push_bit (7 * length bs) (ucast (b AND 0x7F)) = word_of_nat (vli_value (bs @ [b]))"
proof -
  define k where "k = 7 * length bs"
  have p: "(128 :: nat) ^ length bs = 2 ^ k" by (simp add: k_def power_mult)
  have lt: "vli_value bs < 2 ^ k" using vli_value_less [of bs] by (simp add: p)
  have seven: "(ucast (b AND 0x7F) :: u64) = word_of_nat (unat b mod 128)"
  proof -
    have "b AND 0x7F = take_bit 7 b" by (simp add: take_bit_eq_mask mask_eq_exp_minus_1)
    then have "unat (b AND 0x7F) = take_bit 7 (unat b)" by (simp only: unsigned_take_bit_eq)
    then have "unat (b AND 0x7F) = unat b mod 128" by (simp add: take_bit_eq_mod)
    then show ?thesis by (metis of_nat_unat)
  qed
  have disj: "(word_of_nat (vli_value bs) :: u64) AND push_bit k (word_of_nat (unat b mod 128)) = 0"
  proof (rule bit_eqI)
    fix n
    have "\<not> bit (vli_value bs) n" if "k \<le> n"
      using lt that by (metis bit_take_bit_iff leD take_bit_nat_eq_self)
    then show "bit ((word_of_nat (vli_value bs) :: u64) AND push_bit k (word_of_nat (unat b mod 128))) n = bit (0 :: u64) n"
      by (auto simp: bit_simps)
  qed
  have "(word_of_nat (vli_value (bs @ [b])) :: u64) = word_of_nat (vli_value bs) + push_bit k (word_of_nat (unat b mod 128))"
    by (simp add: vli_value_append p push_bit_eq_mult mult.commute)
  then show ?thesis unfolding k_def [symmetric] seven by (simp only: disjunctive_add_eq_or [OF disj])
qed

lemma high_bit_clear: "(b :: u8) AND 0x80 = 0 \<longleftrightarrow> unat b < 128"
proof -
  have "b AND 0x80 = 0 \<longleftrightarrow> \<not> bit b 7"
    using and_exp_eq_0_iff_not_bit [of b 7] by simp
  also have "\<dots> \<longleftrightarrow> unat b < 128"
  proof -
    have "bit b 7 \<longleftrightarrow> bit (unat b) 7" by (simp add: bit_unsigned_iff)
    then have "bit b 7 \<longleftrightarrow> odd (unat b div 128)" by (simp add: bit_iff_odd [of "unat b"])
    moreover have "unat b div 128 = (if unat b < 128 then 0 else 1)"
      by (auto intro!: div_nat_eqI)
    ultimately show ?thesis by simp
  qed
  finally show ?thesis .
qed
text \<open>How reading bytes \<open>bs\<close> may end.\<close>

definition vli_result :: "u8 list \<Rightarrow> u8 list \<Rightarrow> xz_dec \<Rightarrow> xz_ret \<Rightarrow> xz_dec \<Rightarrow> nat \<Rightarrow> bool" where
  "vli_result ds bs s ret s' k \<longleftrightarrow> s' = s\<lparr>xd_vli := xd_vli s', xd_pos := xd_pos s'\<rparr> \<and> k \<le> length bs \<and>
     (ret = XZ_STREAM_END \<and> xd_pos s' = 0 \<and> 0 < k \<and> (\<exists>v<2 ^ 63. vli_encode v = ds @ take k bs \<and> xd_vli s' = word_of_nat v) \<or>
      ret = XZ_OK \<and> k = length bs \<and> length ds + k \<le> 8 \<and> vli_more (ds @ bs) \<and> xd_pos s' = 7 * (length ds + k) \<and> xd_vli s' = word_of_nat (vli_value (ds @ bs)) \<or>
      ret = XZ_DATA_ERROR \<and> (\<forall>v<2 ^ 63. \<forall>rest more. vli_encode v @ more \<noteq> ds @ bs @ rest))"

lemma vli_encode_split:
  assumes "vli_encode v @ xs = ds @ b # ys" and "vli_more ds"
  shows "unat b < 128 \<Longrightarrow> vli_encode v = ds @ [b]" and "128 \<le> unat b \<Longrightarrow> length ds < length (vli_encode v) - 1"
proof -
  obtain cs c where v: "vli_encode v = cs @ [c]" "vli_more cs" "unat c < 128" using vli_encode_code [of v] by (auto simp: vli_code_def)
  have long: "length ds \<le> length cs"
  proof (rule ccontr)
    assume "\<not> length ds \<le> length cs"
    then have "c \<in> set ds" using assms(1) by (simp add: v append_eq_append_conv2 Cons_eq_append_conv append_eq_Cons_conv) (auto simp: append_eq_Cons_conv)
    then show False using assms(2) v(3) by (auto simp: vli_more_def)
  qed
  have b: "(cs @ [c]) ! length ds = b"
  proof -
    have "(cs @ [c]) ! length ds = ((cs @ [c]) @ xs) ! length ds" using long by (simp only: nth_append [of "cs @ [c]" xs]) simp
    also have "\<dots> = (ds @ b # ys) ! length ds" using assms(1) by (simp only: v(1))
    also have "\<dots> = b" by (rule nth_append_length)
    finally show ?thesis .
  qed
  have t: "take (length ds) cs = ds"
    using arg_cong [OF assms(1), of "take (length ds)"] long by (simp add: v)
  show "vli_encode v = ds @ [b]" if "unat b < 128"
  proof -
    have "\<not> length ds < length cs"
    proof
      assume "length ds < length cs"
      then have "b \<in> set cs" using b by (auto simp: nth_append)
      then show False using v(2) that by (auto simp: vli_more_def)
    qed
    then have "length ds = length cs" using long by simp
    moreover then have "cs = ds" using t by simp
    ultimately show ?thesis using b v(1) by (simp only: nth_append_length)
  qed
  show "length ds < length (vli_encode v) - 1" if "128 \<le> unat b"
    using b long v that by (cases "length ds = length cs") auto
qed

lemma vli_encode_long: "v < 2 ^ 63 \<Longrightarrow> length (vli_encode v) \<le> 9"
proof -
  assume less: "v < 2 ^ 63"
  obtain bs b where v: "vli_encode v = bs @ [b]" "vli_code bs b" "vli_value (bs @ [b]) = v" using vli_encode_code [of v] by blast
  then show ?thesis using vli_code_length [OF v(2)] less by simp
qed

lemma vli_result_Cons:
  "vli_result (ds @ [b]) bs (s\<lparr>xd_vli := v, xd_pos := p\<rparr>) ret s' k \<Longrightarrow> vli_result ds (b # bs) s ret s' (Suc k)"
  unfolding vli_result_def by (simp only: append.simps append_assoc length_append take_Suc_Cons list.size xz_dec.simps) auto

lemma vli_loop:
  assumes "length ds \<le> 8" "vli_more ds" "xd_pos s = 7 * length ds" "xd_vli s = word_of_nat (vli_value ds)"
    and "i \<le> n" "n \<le> room m inp" "n < 2 ^ 63"
  shows "ok (dec_vli_loop m s inp i n) (\<lambda>(ret, s', j). i \<le> j \<and> vli_result ds (mem_bytes m (ptr_add inp i) (n - i)) s ret s' (j - i))"
  using assms
proof (induction "n - i" arbitrary: ds s i rule: less_induct)
  case less
  show ?case
  proof (cases "i < n")
    case False
    then have "mem_bytes m (ptr_add inp i) (n - i) = []" by (simp add: mem_bytes_def)
    then show ?thesis using less.prems False by (subst dec_vli_loop.simps) (simp add: vli_result_def)
  next
    case True
    define b where "b = m (fst inp) ! (snd inp + i)"
    define bs where "bs = mem_bytes m (ptr_add inp (i + 1)) (n - (i + 1))"
    have load: "load m inp i = Some b" using True less.prems by (simp add: load_def b_def room_def)
    have split: "mem_bytes m (ptr_add inp i) (n - i) = b # bs"
    proof -
      have "snd inp + i < length (m (fst inp))" using True less.prems by (simp add: room_def)
      then have "drop (snd inp + i) (m (fst inp)) = b # drop (snd inp + (i + 1)) (m (fst inp))" by (simp add: b_def Cons_nth_drop_Suc)
      then show ?thesis using True by (simp add: mem_bytes_def bs_def Suc_diff_Suc take_Cons')
    qed
    have lb: "length bs = n - (i + 1)" using True less.prems by (simp add: bs_def mem_bytes_def room_def)
    define v1 where "v1 = (word_of_nat (vli_value (ds @ [b])) :: u64)"
    have v1: "xd_vli s OR push_bit (7 * length ds) (ucast (b AND 0x7F)) = v1"
      using vli_or [OF less.prems(1), of b] less.prems(4) by (simp only: v1_def)
    define w where "w = (push_bit (xd_pos s) (ucast (b AND 0x7F)) :: u64)"
    have vw: "xd_vli s OR w = v1" using v1 less.prems(3) by (simp add: w_def)
    have pos: "\<not> 64 \<le> 7 * length ds" using less.prems(1) by simp
    have at: "sz_add i 1 = i + 1" "u32_add (7 * length ds) 7 = 7 * (length ds + 1)" using True less.prems(1,7) by simp_all
    have un: "dec_vli_loop m s inp i n =
      (if b AND 0x80 = 0 then
         if b = 0 \<and> ds \<noteq> [] then Some (XZ_DATA_ERROR, s\<lparr>xd_vli := v1\<rparr>, i + 1)
         else Some (XZ_STREAM_END, s\<lparr>xd_vli := v1, xd_pos := 0\<rparr>, i + 1)
       else if length ds = 8 then Some (XZ_DATA_ERROR, s\<lparr>xd_vli := v1, xd_pos := 63\<rparr>, i + 1)
       else dec_vli_loop m (s\<lparr>xd_vli := v1, xd_pos := 7 * (length ds + 1)\<rparr>) inp (i + 1) n)"
      by (subst dec_vli_loop.simps, unfold w_def [symmetric] load Let_def Option.bind.simps at vw)
        (simp add: True less.prems(3) pos at VLI_BYTES_MAX_def vw)
    show ?thesis
    proof (cases "unat b < 128")
      case low: True
      show ?thesis
      proof (cases "b = 0 \<and> ds \<noteq> []")
        case True
        have "vli_encode v @ more \<noteq> ds @ b # bs @ rest" for v rest more
        proof
          assume "vli_encode v @ more = ds @ b # bs @ rest"
          then have "vli_encode v = ds @ [b]" using vli_encode_split(1) less.prems(2) low by blast
          then have "vli_code ds b" using vli_code_iff by blast
          then show False using True by (simp add: vli_code_def)
        qed
        then show ?thesis unfolding un split using True by (simp add: high_bit_clear vli_result_def)
      next
        case False
        then have c: "vli_code ds b" using low less.prems(2) by (auto simp: vli_code_def)
        have "vli_value (ds @ [b]) < 2 ^ 63" using vli_code_length [OF c] less.prems(1) by simp
        then show ?thesis
          unfolding un split using low False vli_code_encode [OF c] by (auto simp: high_bit_clear vli_result_def v1_def)
      qed
    next
      case high: False
      show ?thesis
      proof (cases "length ds = 8")
        case True
        have "vli_encode v @ more \<noteq> ds @ b # bs @ rest" if "v < 2 ^ 63" for v rest more
        proof
          assume "vli_encode v @ more = ds @ b # bs @ rest"
          then have "length ds < length (vli_encode v) - 1" using vli_encode_split(2) less.prems(2) high by (metis not_less)
          then show False using vli_encode_long [OF that] True by simp
        qed
        then show ?thesis unfolding un split using high True by (simp add: high_bit_clear vli_result_def)
      next
        case False
        let ?s = "s\<lparr>xd_vli := v1, xd_pos := 7 * (length ds + 1)\<rparr>"
        have ih: "ok (dec_vli_loop m ?s inp (i + 1) n) (\<lambda>(ret, s', j). i + 1 \<le> j \<and> vli_result (ds @ [b]) bs ?s ret s' (j - (i + 1)))"
          unfolding bs_def using less.prems True False high by (intro less.hyps) (simp_all add: v1_def)
        show ?thesis
        proof (unfold un split, simp only: high_bit_clear high False if_False, rule ok_mono [OF ih], unfold split_paired_all prod.case)
          fix ret s' j assume r: "i + 1 \<le> j \<and> vli_result (ds @ [b]) bs ?s ret s' (j - (i + 1))"
          then have "i + 1 \<le> j" by blast
          then have k: "j - i = Suc (j - (i + 1))" by linarith
          from r show "i \<le> j \<and> vli_result ds (b # bs) s ret s' (j - i)"
            unfolding k by (intro conjI vli_result_Cons) auto
        qed
      qed
    qed
  qed
qed
lemma vli_prefix_free: "vli_encode v @ xs = vli_encode w @ ys \<Longrightarrow> v = w"
proof -
  assume eq: "vli_encode v @ xs = vli_encode w @ ys"
  obtain cs c where w: "vli_encode w = cs @ [c]" "vli_more cs" "unat c < 128" using vli_encode_code [of w] by (auto simp: vli_code_def)
  then have "vli_encode v = vli_encode w" using vli_encode_split(1) [of v xs cs c ys] eq by simp
  then show "v = w" using vli_encode_value by metis
qed

lemma vli_encode_not_more: "vli_more ds \<Longrightarrow> ds \<noteq> vli_encode v @ rest"
  using vli_encode_code [of v] by (auto simp: vli_code_def)

lemma vli_result_code:
  assumes "vli_result ds bs s ret s' k" and "v < 2 ^ 63" and "ds @ bs = vli_encode v @ rest"
  shows "ret = XZ_STREAM_END \<and> xd_vli s' = word_of_nat v \<and> length (vli_encode v) = length ds + k"
proof -
  have "ret \<noteq> XZ_DATA_ERROR \<or> (\<forall>v<2 ^ 63. \<forall>rest more. vli_encode v @ more \<noteq> ds @ bs @ rest)"
    and nm: "ret = XZ_OK \<longrightarrow> vli_more (ds @ bs)" and k: "k \<le> length bs"
    using assms(1) by (auto simp: vli_result_def)
  moreover have "\<not> (\<forall>v<2 ^ 63. \<forall>rest more. vli_encode v @ more \<noteq> ds @ bs @ rest)"
    using assms(2,3) by (metis append_Nil2)
  ultimately have "ret \<noteq> XZ_DATA_ERROR" "ret \<noteq> XZ_OK" using vli_encode_not_more assms(3) by blast+
  then obtain w where w: "ret = XZ_STREAM_END" "vli_encode w = ds @ take k bs" "xd_vli s' = word_of_nat w"
    using assms(1) by (auto simp: vli_result_def)
  have "vli_encode v @ rest = vli_encode w @ drop k bs" using assms(3) by (simp add: w(2))
  then have "v = w" by (rule vli_prefix_free)
  then show ?thesis using w k by simp
qed

lemma ok_dec_vli:
  assumes "vli_partial ds s" and "i \<le> n" "n \<le> room m inp" "n < 2 ^ 63"
  shows "ok (dec_vli m s inp i n) (\<lambda>(ret, s', j). i \<le> j \<and> vli_result ds (mem_bytes m (ptr_add inp i) (n - i)) s ret s' (j - i))"
proof (cases "ds = []")
  case True
  have "ok (dec_vli_loop m (s\<lparr>xd_vli := 0\<rparr>) inp i n) (\<lambda>(ret, s', j). i \<le> j \<and> vli_result ds (mem_bytes m (ptr_add inp i) (n - i)) (s\<lparr>xd_vli := 0\<rparr>) ret s' (j - i))"
    using assms True by (intro vli_loop) (simp_all add: vli_partial_def)
  then show ?thesis using assms(1) True by (simp add: dec_vli_def vli_partial_def vli_result_def)
next
  case False
  then show ?thesis using vli_loop [of ds s i n m inp] assms by (simp add: dec_vli_def vli_partial_def)
qed

section \<open>Properties of the integers\<close>

text \<open>
  C7: \<open>dec_vli\<close> reads exactly the minimal encodings of the numbers below 2^63, wherever
  the input is cut into calls. \<open>ds\<close> are the bytes of the number that earlier calls have
  read. It ends with the number whose encoding is \<open>ds\<close> and the bytes read now; or it has
  used up the input and remembers where it is; or no continuation of the input starts with
  an encoding.
\<close>

theorem dec_vli_round_trip:
  assumes "vli_partial ds s" and "i \<le> n" and "n \<le> room m inp" and "n < 2 ^ 63"
  shows "ok (dec_vli m s inp i n) (\<lambda>(ret, s', j). s' = s\<lparr>xd_vli := xd_vli s', xd_pos := xd_pos s'\<rparr> \<and> i \<le> j \<and> j \<le> n \<and>
     (ret = XZ_STREAM_END \<and> xd_pos s' = 0 \<and> i < j \<and> unat (xd_vli s') < 2 ^ 63 \<and> vli_encode (unat (xd_vli s')) = ds @ mem_bytes m (ptr_add inp i) (j - i) \<or>
      ret = XZ_OK \<and> j = n \<and> vli_partial (ds @ mem_bytes m (ptr_add inp i) (n - i)) s' \<or>
      ret = XZ_DATA_ERROR \<and> (\<forall>v<2 ^ 63. \<forall>rest more. vli_encode v @ more \<noteq> ds @ mem_bytes m (ptr_add inp i) (n - i) @ rest)) \<and>
     (\<forall>v<2 ^ 63. \<forall>rest. ds @ mem_bytes m (ptr_add inp i) (n - i) = vli_encode v @ rest \<longrightarrow>
        ret = XZ_STREAM_END \<and> unat (xd_vli s') = v \<and> length ds + (j - i) = length (vli_encode v)))"
proof (rule ok_mono [OF ok_dec_vli [OF assms]], unfold split_paired_all prod.case, elim conjE)
  fix ret s' j
  let ?bs = "mem_bytes m (ptr_add inp i) (n - i)"
  assume ij: "i \<le> j" and res: "vli_result ds ?bs s ret s' (j - i)"
  have len: "length ?bs = n - i" using assms by (simp add: room_ptr_add)
  have u: "unat (word_of_nat v :: u64) = v" if "v < 2 ^ 63" for v using that by (simp add: unat_of_nat)
  have "j - i \<le> n - i" using res by (simp add: vli_result_def len)
  then have jn: "j \<le> n" using ij assms(2) by linarith
  then have tk: "take (j - i) ?bs = mem_bytes m (ptr_add inp i) (j - i)" by (simp add: take_mem_bytes)
  have "\<forall>v<2 ^ 63. \<forall>rest. ds @ ?bs = vli_encode v @ rest \<longrightarrow>
        ret = XZ_STREAM_END \<and> unat (xd_vli s') = v \<and> length ds + (j - i) = length (vli_encode v)"
  proof (intro allI impI)
    fix v :: nat and rest assume v: "v < 2 ^ 63" and eq: "ds @ ?bs = vli_encode v @ rest"
    from vli_result_code [OF res v eq] u [OF v]
    show "ret = XZ_STREAM_END \<and> unat (xd_vli s') = v \<and> length ds + (j - i) = length (vli_encode v)" by simp
  qed
  moreover have "ret = XZ_STREAM_END \<and> xd_pos s' = 0 \<and> i < j \<and> unat (xd_vli s') < 2 ^ 63 \<and> vli_encode (unat (xd_vli s')) = ds @ mem_bytes m (ptr_add inp i) (j - i) \<or>
      ret = XZ_OK \<and> j = n \<and> vli_partial (ds @ ?bs) s' \<or>
      ret = XZ_DATA_ERROR \<and> (\<forall>v<2 ^ 63. \<forall>rest more. vli_encode v @ more \<noteq> ds @ ?bs @ rest)"
    using res unfolding vli_result_def
  proof (elim conjE disjE exE, goal_cases)
    case (1 v)
    then show ?thesis using u [of v] ij tk by simp
  next
    case 2
    then have "j = n" using len ij assms(2) by linarith
    then show ?thesis using 2 len by (simp add: vli_partial_def)
  next
    case 3
    then show ?thesis by blast
  qed
  moreover have "s' = s\<lparr>xd_vli := xd_vli s', xd_pos := xd_pos s'\<rparr>" using res by (simp only: vli_result_def)
  ultimately show "s' = s\<lparr>xd_vli := xd_vli s', xd_pos := xd_pos s'\<rparr> \<and> i \<le> j \<and> j \<le> n \<and>
     (ret = XZ_STREAM_END \<and> xd_pos s' = 0 \<and> i < j \<and> unat (xd_vli s') < 2 ^ 63 \<and> vli_encode (unat (xd_vli s')) = ds @ mem_bytes m (ptr_add inp i) (j - i) \<or>
      ret = XZ_OK \<and> j = n \<and> vli_partial (ds @ ?bs) s' \<or>
      ret = XZ_DATA_ERROR \<and> (\<forall>v<2 ^ 63. \<forall>rest more. vli_encode v @ more \<noteq> ds @ ?bs @ rest)) \<and>
     (\<forall>v<2 ^ 63. \<forall>rest. ds @ ?bs = vli_encode v @ rest \<longrightarrow>
        ret = XZ_STREAM_END \<and> unat (xd_vli s') = v \<and> length ds + (j - i) = length (vli_encode v))"
    using ij jn by blast
qed

definition vli_memory :: mem where
  \<comment> \<open>300 after one byte that the last call has read\<close>
  "vli_memory = (\<lambda>k. [])(In_Block := [0xAC, 0x02, 0x07])"

definition vli_dec :: "xz_dec \<Rightarrow> xz_dec" where
  "vli_dec s = s\<lparr>xd_pos := 7, xd_vli := 0x2C\<rparr>"

theorem dec_vli_round_trip_witness:
  "\<forall>s. \<exists>s'. dec_vli vli_memory (vli_dec s) (In_Block, 0) 1 3 = Some (XZ_STREAM_END, s', 2) \<and> unat (xd_vli s') = 300"
proof
  fix s
  have p: "vli_partial [0xAC] (vli_dec s)" by (simp add: vli_partial_def vli_dec_def)
  have b: "[0xAC] @ mem_bytes vli_memory (ptr_add (In_Block, 0) 1) (3 - 1) = vli_encode 300 @ [7]"
    by (simp add: vli_memory_def mem_bytes_def ptr_add_def vli_encode.simps)
  have one: "1 \<le> (3 :: nat)" and less: "(3 :: nat) < 2 ^ 63" by simp_all
  have rm: "3 \<le> room vli_memory (In_Block, 0)" by (simp add: room_def vli_memory_def)
  have l: "length (vli_encode 300) = 2" by (simp add: vli_encode.simps)
  obtain ret s' j where r: "dec_vli vli_memory (vli_dec s) (In_Block, 0) 1 3 = Some (ret, s', j)"
    and all: "\<forall>v<2 ^ 63. \<forall>rest. [0xAC] @ mem_bytes vli_memory (ptr_add (In_Block, 0) 1) (3 - 1) = vli_encode v @ rest \<longrightarrow>
        ret = XZ_STREAM_END \<and> unat (xd_vli s') = v \<and> length [0xAC :: u8] + (j - 1) = length (vli_encode v)" and j: "1 \<le> j"
    using dec_vli_round_trip [OF p, of 1 3 vli_memory "(In_Block, 0)", OF one rm less] unfolding ok_iff split_paired_Ex prod.case
    by blast
  have "(300 :: nat) < 2 ^ 63" by simp
  then have "ret = XZ_STREAM_END \<and> unat (xd_vli s') = 300 \<and> length [0xAC :: u8] + (j - 1) = length (vli_encode 300)"
    using all b by blast
  then show "\<exists>s'. dec_vli vli_memory (vli_dec s) (In_Block, 0) 1 3 = Some (XZ_STREAM_END, s', 2) \<and> unat (xd_vli s') = 300"
    using r l j by auto
qed

section \<open>Integrity values\<close>

definition input_left :: "mem \<Rightarrow> xz_buf \<Rightarrow> u8 list" where
  \<comment> \<open>the input this call has not read\<close>
  "input_left m b = mem_bytes m (ptr_add (b_in b) (b_in_pos b)) (b_in_size b - b_in_pos b)"

lemma length_input_left [simp]: "valid_buf m b \<Longrightarrow> length (input_left m b) = b_in_size b - b_in_pos b"
  unfolding input_left_def by (rule length_mem_bytes) (auto simp: valid_buf_def room_ptr_add intro: diff_le_mono)

lemma input_left_empty [simp]: "b_in_pos b = b_in_size b \<Longrightarrow> input_left m b = []"
  by (simp add: input_left_def mem_bytes_def)

lemma input_next:
  assumes "valid_buf m b" and "b_in_pos b \<noteq> b_in_size b"
  obtains c where "in_byte m b = Some c" and "input_left m b = c # input_left m (b\<lparr>b_in_pos := Suc (b_in_pos b)\<rparr>)"
    and "valid_buf m (b\<lparr>b_in_pos := Suc (b_in_pos b)\<rparr>)" and "sz_add (b_in_pos b) (Suc 0) = Suc (b_in_pos b)" and "b_in_pos b < b_in_size b"
proof
  let ?c = "m (fst (b_in b)) ! (snd (b_in b) + b_in_pos b)"
  have lt: "b_in_pos b < b_in_size b" and rm: "snd (b_in b) + b_in_pos b < length (m (fst (b_in b)))"
    using assms by (auto simp: valid_buf_def room_def)
  show "in_byte m b = Some ?c" using rm by (simp add: in_byte_def load_def)
  have "drop (snd (b_in b) + b_in_pos b) (m (fst (b_in b))) = ?c # drop (Suc (snd (b_in b) + b_in_pos b)) (m (fst (b_in b)))"
    using rm by (simp add: Cons_nth_drop_Suc)
  then show "input_left m b = ?c # input_left m (b\<lparr>b_in_pos := Suc (b_in_pos b)\<rparr>)"
    using lt by (simp add: input_left_def mem_bytes_def take_Cons' Suc_diff_Suc)
  show "valid_buf m (b\<lparr>b_in_pos := Suc (b_in_pos b)\<rparr>)" "sz_add (b_in_pos b) (Suc 0) = Suc (b_in_pos b)" "b_in_pos b < b_in_size b"
    using assms lt by (auto simp: valid_buf_def)
qed

lemma low_byte: "(w :: u64) AND 0xFF \<noteq> ucast (c :: u8) \<longleftrightarrow> ucast w \<noteq> c"
proof -
  have "w AND 0xFF = ucast (ucast w :: u8)"
  proof (rule bit_word_eqI)
    fix n assume "n < LENGTH(64)"
    have "bit (0xFF :: u64) n \<longleftrightarrow> n < 8"
      using bit_mask_iff [where 'a = u64, of 8 n] by (simp add: mask_eq_exp_minus_1) auto
    then show "bit (w AND 0xFF) n = bit (ucast (ucast w :: u8) :: u64) n" by (auto simp: bit_simps)
  qed
  moreover have "(ucast (ucast w :: u8) :: u64) = ucast c \<longleftrightarrow> ucast w = c" using ucast_u8_inj [where ?'a = 64] by auto
  ultimately show ?thesis by simp
qed

lemma drop_le_bytes: "k < n \<Longrightarrow> drop k (le_bytes n w) = ucast (drop_bit (8 * k) w) # drop (Suc k) (le_bytes n w)"
  by (simp add: le_bytes_def Cons_nth_drop_Suc [symmetric])

text \<open>What comparing the input with the bytes \<open>want\<close> leads to.\<close>

fun compare_bytes :: "u8 list \<Rightarrow> u8 list \<Rightarrow> xz_ret \<times> nat" where
  \<comment> \<open>the return value, and how many bytes are read\<close>
  "compare_bytes [] input = (XZ_STREAM_END, 0)"
| "compare_bytes (w # want) [] = (XZ_OK, 0)"
| "compare_bytes (w # want) (c # input) =
     (if w = c then (case compare_bytes want input of (ret, n) \<Rightarrow> (ret, Suc n)) else (XZ_DATA_ERROR, 1))"

lemma compare_bytes_result:
  "compare_bytes want input = (ret, n) \<Longrightarrow> n \<le> length input \<and>
     (ret = XZ_STREAM_END \<longleftrightarrow> take (length want) input = want) \<and>
     (ret = XZ_STREAM_END \<longrightarrow> n = length want) \<and>
     (ret = XZ_OK \<longleftrightarrow> length input < length want \<and> input = take (length input) want) \<and>
     (ret = XZ_OK \<longrightarrow> n = length input) \<and> ret \<in> {XZ_OK, XZ_STREAM_END, XZ_DATA_ERROR}"
  by (induction want input arbitrary: ret n rule: compare_bytes.induct) (auto split: if_splits prod.splits)

lemma crc_validate_unfold:
  assumes "valid_buf m b" and "bits \<in> {32, 64}" and "xd_pos s = 8 * k" and "8 * k < bits"
  shows "\<exists>s'. crc_validate m s b bits = Some (fst (compare_bytes (drop k (le_bytes (bits div 8) (xd_crc s))) (input_left m b)), s',
      b\<lparr>b_in_pos := b_in_pos b + snd (compare_bytes (drop k (le_bytes (bits div 8) (xd_crc s))) (input_left m b))\<rparr>) \<and>
    (case compare_bytes (drop k (le_bytes (bits div 8) (xd_crc s))) (input_left m b) of (ret, n) \<Rightarrow>
       (ret = XZ_STREAM_END \<longrightarrow> s' = s\<lparr>xd_crc := 0, xd_pos := 0\<rparr>) \<and>
       (ret \<noteq> XZ_STREAM_END \<longrightarrow> s' = s\<lparr>xd_pos := xd_pos s'\<rparr>) \<and> (ret = XZ_OK \<longrightarrow> xd_pos s' = 8 * (k + n)))"
  using assms
proof (induction "b_in_size b - b_in_pos b" arbitrary: b k s rule: less_induct)
  case less
  have kb: "k < bits div 8" using less.prems(2,4) by auto
  show ?case
  proof (cases "b_in_pos b = b_in_size b")
    case True
    then show ?thesis
      using kb less.prems(3) by (intro exI [of _ s], subst crc_validate.simps) (simp add: drop_le_bytes)
  next
    case False
    obtain c where c: "in_byte m b = Some c" "input_left m b = c # input_left m (b\<lparr>b_in_pos := Suc (b_in_pos b)\<rparr>)"
      "valid_buf m (b\<lparr>b_in_pos := Suc (b_in_pos b)\<rparr>)" "sz_add (b_in_pos b) (Suc 0) = Suc (b_in_pos b)" "b_in_pos b < b_in_size b"
      using input_next [OF less.prems(1) False] .
    have le: "\<not> 64 \<le> 8 * k" "u32_add (8 * k) 8 = 8 * k + 8" using less.prems(2,4) by auto
    have un: "crc_validate m s b bits = (if ucast (drop_bit (8 * k) (xd_crc s)) \<noteq> c then Some (XZ_DATA_ERROR, s, b\<lparr>b_in_pos := Suc (b_in_pos b)\<rparr>)
        else if 8 * k + 8 < bits then crc_validate m (s\<lparr>xd_pos := 8 * k + 8\<rparr>) (b\<lparr>b_in_pos := Suc (b_in_pos b)\<rparr>) bits
        else Some (XZ_STREAM_END, s\<lparr>xd_crc := 0, xd_pos := 0\<rparr>, b\<lparr>b_in_pos := Suc (b_in_pos b)\<rparr>))"
      using False le by (subst crc_validate.simps) (simp add: c less.prems(3) low_byte)
    show ?thesis
    proof (cases "ucast (drop_bit (8 * k) (xd_crc s)) = c \<and> 8 * k + 8 < bits")
      case True
      let ?s = "s\<lparr>xd_pos := 8 * k + 8\<rparr>" and ?b = "b\<lparr>b_in_pos := Suc (b_in_pos b)\<rparr>"
      have "b_in_size ?b - b_in_pos ?b < b_in_size b - b_in_pos b" using c(5) by simp
      from less.hyps [OF this c(3) less.prems(2), of ?s "Suc k"] True
      show ?thesis
        unfolding un by (auto simp: c(2) drop_le_bytes [OF kb] split: prod.splits)
    next
      case F: False
      then have "ucast (drop_bit (8 * k) (xd_crc s)) = c \<Longrightarrow> drop (Suc k) (le_bytes (bits div 8) (xd_crc s)) = []"
        using less.prems(2) by auto
      then show ?thesis unfolding un using F by (auto simp: c(2) drop_le_bytes [OF kb])
    qed
  qed
qed
text \<open>
  C9: \<open>crc_validate\<close> compares the input with the bytes of \<open>s->crc\<close>, least significant
  first, of which \<open>k\<close> have been compared by earlier calls. It ends exactly if the rest is
  there, asks for more exactly if the input is a proper beginning of it and then remembers
  how far it is; anything else is \<open>XZ_DATA_ERROR\<close>. Afterwards \<open>crc\<close> and \<open>pos\<close> are zero,
  as the next user of them expects.
\<close>

theorem crc_validate_compares:
  assumes "valid_buf m b" and "bits \<in> {32, 64}" and "xd_pos s = 8 * k" and "8 * k < bits"
  shows "ok (crc_validate m s b bits) (\<lambda>(ret, s', b').
     (ret = XZ_STREAM_END \<longleftrightarrow> take (bits div 8 - k) (input_left m b) = drop k (le_bytes (bits div 8) (xd_crc s))) \<and>
     (ret = XZ_STREAM_END \<longrightarrow> s' = s\<lparr>xd_crc := 0, xd_pos := 0\<rparr> \<and> b' = b\<lparr>b_in_pos := b_in_pos b + (bits div 8 - k)\<rparr>) \<and>
     (ret = XZ_OK \<longleftrightarrow> b_in_size b - b_in_pos b < bits div 8 - k \<and>
        input_left m b = take (b_in_size b - b_in_pos b) (drop k (le_bytes (bits div 8) (xd_crc s)))) \<and>
     (ret = XZ_OK \<longrightarrow> s' = s\<lparr>xd_pos := 8 * (k + (b_in_size b - b_in_pos b))\<rparr> \<and> b' = b\<lparr>b_in_pos := b_in_size b\<rparr>) \<and>
     (ret \<noteq> XZ_OK \<and> ret \<noteq> XZ_STREAM_END \<longrightarrow> ret = XZ_DATA_ERROR \<and> b_in_pos b' \<le> b_in_size b \<and> b' = b\<lparr>b_in_pos := b_in_pos b'\<rparr>))"
proof -
  let ?w = "drop k (le_bytes (bits div 8) (xd_crc s))"
  obtain ret n where c: "compare_bytes ?w (input_left m b) = (ret, n)" by (cases "compare_bytes ?w (input_left m b)")
  from crc_validate_unfold [OF assms] c obtain s' where r: "crc_validate m s b bits = Some (ret, s', b\<lparr>b_in_pos := b_in_pos b + n\<rparr>)"
    "ret = XZ_STREAM_END \<longrightarrow> s' = s\<lparr>xd_crc := 0, xd_pos := 0\<rparr>" "ret \<noteq> XZ_STREAM_END \<longrightarrow> s' = s\<lparr>xd_pos := xd_pos s'\<rparr>"
    "ret = XZ_OK \<longrightarrow> xd_pos s' = 8 * (k + n)" by auto
  have w: "length ?w = bits div 8 - k" by simp
  have l: "length (input_left m b) = b_in_size b - b_in_pos b" "b_in_pos b \<le> b_in_size b" using assms(1) by (auto simp: valid_buf_def)
  have s': "ret = XZ_OK \<longrightarrow> s' = s\<lparr>xd_pos := 8 * (k + n)\<rparr>" using r(3,4) by auto
  have cb: "ret = XZ_STREAM_END \<longleftrightarrow> take (bits div 8 - k) (input_left m b) = ?w" "ret = XZ_STREAM_END \<longrightarrow> n = bits div 8 - k"
    "ret = XZ_OK \<longleftrightarrow> b_in_size b - b_in_pos b < bits div 8 - k \<and> input_left m b = take (b_in_size b - b_in_pos b) ?w"
    "ret = XZ_OK \<longrightarrow> n = b_in_size b - b_in_pos b" "n \<le> b_in_size b - b_in_pos b" "ret \<in> {XZ_OK, XZ_STREAM_END, XZ_DATA_ERROR}"
    using compare_bytes_result [OF c] unfolding w l(1) by blast+
  have st: "ret = XZ_STREAM_END \<longrightarrow> s' = s\<lparr>xd_crc := 0, xd_pos := 0\<rparr> \<and> b\<lparr>b_in_pos := b_in_pos b + n\<rparr> = b\<lparr>b_in_pos := b_in_pos b + (bits div 8 - k)\<rparr>"
    using r(2) cb(2) by blast
  have go: "ret = XZ_OK \<longrightarrow> s' = s\<lparr>xd_pos := 8 * (k + (b_in_size b - b_in_pos b))\<rparr> \<and> b\<lparr>b_in_pos := b_in_pos b + n\<rparr> = b\<lparr>b_in_pos := b_in_size b\<rparr>"
    using s' cb(4) l(2) le_add_diff_inverse [OF l(2)] by metis
  have bad: "ret \<noteq> XZ_OK \<and> ret \<noteq> XZ_STREAM_END \<longrightarrow> ret = XZ_DATA_ERROR \<and> b_in_pos b + n \<le> b_in_size b"
    using cb(5,6) l(2) by auto
  show ?thesis unfolding r(1) ok_Some prod.case using cb(1,3) st go bad by simp
qed

definition crc_dec :: "xz_dec \<Rightarrow> xz_dec" where
  \<comment> \<open>one byte of \<open>0x04030201\<close> has been compared\<close>
  "crc_dec s = s\<lparr>xd_crc := 0x04030201, xd_pos := 8\<rparr>"

definition crc_memory :: mem where
  "crc_memory = (\<lambda>k. [])(In_Block := [0x01, 0x02, 0x03, 0x04, 0x05])"

definition crc_buf :: xz_buf where
  "crc_buf = \<lparr>b_in = (In_Block, 0), b_in_pos = 1, b_in_size = 5, b_out = (Out_Block, 0), b_out_pos = 0, b_out_size = 0\<rparr>"

theorem crc_validate_compares_witness:
  "\<forall>s. \<exists>s'. crc_validate crc_memory (crc_dec s) crc_buf 32 = Some (XZ_STREAM_END, s', crc_buf\<lparr>b_in_pos := 4\<rparr>) \<and> xd_pos s' = 0"
proof
  fix s
  have v: "valid_buf crc_memory crc_buf" by (simp add: valid_buf_def crc_memory_def crc_buf_def room_def)
  have p: "xd_pos (crc_dec s) = 8 * 1" and n: "(32 :: nat) \<in> {32, 64}" "(8 :: nat) * 1 < 32" by (simp_all add: crc_dec_def)
  have "take (32 div 8 - 1) (input_left crc_memory crc_buf) = [0x02, 0x03, 0x04]"
    by (simp add: input_left_def mem_bytes_def crc_memory_def crc_buf_def ptr_add_def)
  moreover have "drop 1 (le_bytes (32 div 8) (xd_crc (crc_dec s))) = [0x02, 0x03, 0x04]"
    by (simp add: le_bytes_def crc_dec_def upt_rec drop_bit_eq_div) 
  ultimately have "take (32 div 8 - 1) (input_left crc_memory crc_buf) = drop 1 (le_bytes (32 div 8) (xd_crc (crc_dec s)))" by simp
  with crc_validate_compares [OF v n(1) p n(2)]
  obtain s' b' where "crc_validate crc_memory (crc_dec s) crc_buf 32 = Some (XZ_STREAM_END, s', b')"
    "s' = (crc_dec s)\<lparr>xd_crc := 0, xd_pos := 0\<rparr>" "b' = crc_buf\<lparr>b_in_pos := b_in_pos crc_buf + (32 div 8 - 1)\<rparr>"
    unfolding ok_iff split_paired_Ex prod.case by blast
  then show "\<exists>s'. crc_validate crc_memory (crc_dec s) crc_buf 32 = Some (XZ_STREAM_END, s', crc_buf\<lparr>b_in_pos := 4\<rparr>) \<and> xd_pos s' = 0"
    by (simp add: crc_buf_def)
qed

section \<open>The Index\<close>

text \<open>The record of one block, the hash over records, and the bytes of the Index up to its
  padding.\<close>

type_synonym index_rec = "u64 \<times> u64"

definition index_record :: "xz_env \<Rightarrow> xz_dec_hash \<Rightarrow> index_rec \<Rightarrow> xz_dec_hash" where
  "index_record e h r = hash_update e (h\<lparr>h_unpadded := h_unpadded h + fst r, h_uncompressed := h_uncompressed h + snd r\<rparr>)"

definition index_fields :: "index_rec list \<Rightarrow> nat list" where
  "index_fields rs = concat (map (\<lambda>r. [unat (fst r), unat (snd r)]) rs)"

definition vli_codes :: "nat list \<Rightarrow> u8 list" where
  "vli_codes vs = concat (map vli_encode vs)"

lemma index_fields_simps [simp]: "index_fields [] = []" "index_fields (r # rs) = unat (fst r) # unat (snd r) # index_fields rs"
  by (simp_all add: index_fields_def)

lemma index_fields_Nil: "index_fields rs = [] \<longleftrightarrow> rs = []"
  by (cases rs) simp_all

lemma vli_codes_simps [simp]: "vli_codes [] = []" "vli_codes (v # vs) = vli_encode v @ vli_codes vs"
  by (simp_all add: vli_codes_def)

text \<open>In state \<open>s\<close> the numbers \<open>vs\<close> are still to come, and the hash will then be \<open>h\<close>.\<close>

definition index_expects :: "xz_env \<Rightarrow> xz_dec \<Rightarrow> nat list \<Rightarrow> xz_dec_hash \<Rightarrow> bool" where
  "index_expects e s vs h \<longleftrightarrow> (\<forall>v\<in>set vs. v < 2 ^ 63) \<and>
     (case idx_seq s of
        SEQ_INDEX_COUNT \<Rightarrow> \<exists>rs. vs = length rs # index_fields rs \<and> blk_count s = word_of_nat (length rs) \<and> h = foldl (index_record e) (idx_hash s) rs
      | SEQ_INDEX_UNPADDED \<Rightarrow> \<exists>rs. rs \<noteq> [] \<and> length rs < 2 ^ 63 \<and> vs = index_fields rs \<and> idx_count s = word_of_nat (length rs) \<and> h = foldl (index_record e) (idx_hash s) rs
      | SEQ_INDEX_UNCOMPRESSED \<Rightarrow> \<exists>c rs. length rs < 2 ^ 63 \<and> vs = unat c # index_fields rs \<and> idx_count s = word_of_nat (length rs) + 1 \<and>
          h = foldl (index_record e) (hash_update e ((idx_hash s)\<lparr>h_uncompressed := h_uncompressed (idx_hash s) + c\<rparr>)) rs)"

lemma word_of_nat_0_iff: "n < 2 ^ 64 \<Longrightarrow> (word_of_nat n :: u64) = 0 \<longleftrightarrow> n = 0"
  by (auto simp: word_of_nat_eq_0_iff dest: dvd_imp_le)

lemma index_field_step:
  assumes "index_expects e s (v # vs) h" and "s' = s\<lparr>xd_vli := word_of_nat v, xd_pos := p\<rparr>"
  obtains s2 where "index_field e s' = (True, s2)" and "vs = [] \<Longrightarrow> idx_count s2 = 0 \<and> idx_hash s2 = h"
    and "vs \<noteq> [] \<Longrightarrow> idx_count s2 > 0 \<and> index_expects e s2 vs h"
    and "s2 = s'\<lparr>idx_seq := idx_seq s2, idx_count := idx_count s2, idx_hash := idx_hash s2\<rparr>"
proof -
  have small: "\<forall>x\<in>set (v # vs). x < 2 ^ 63" using assms(1) by (simp add: index_expects_def)
  show thesis
  proof (cases "idx_seq s")
    case SEQ_INDEX_COUNT
    then obtain rs where rs: "v = length rs" "vs = index_fields rs" "blk_count s = word_of_nat (length rs)" "h = foldl (index_record e) (idx_hash s) rs"
      using assms(1) by (auto simp: index_expects_def)
    have f: "index_field e s' = (True, s'\<lparr>idx_count := word_of_nat v, idx_seq := SEQ_INDEX_UNPADDED\<rparr>)"
      using SEQ_INDEX_COUNT rs by (simp add: index_field_def assms(2))
    have v: "v < 2 ^ 64" using small by auto
    show thesis
    proof (cases "rs = []")
      case True
      then show ?thesis by (intro that [OF f]) (simp_all add: rs assms(2))
    next
      case False
      then have n: "(word_of_nat v :: u64) > 0" using v by (simp add: rs(1) word_of_nat_0_iff word_neq_0_conv [symmetric])
      show ?thesis
        by (rule that [OF f]) (use False rs n small in \<open>auto simp: index_expects_def assms(2) index_fields_Nil\<close>)
    qed
  next
    case SEQ_INDEX_UNPADDED
    then obtain rs where rs: "rs \<noteq> []" "length rs < 2 ^ 63" "v # vs = index_fields rs" "idx_count s = word_of_nat (length rs)" "h = foldl (index_record e) (idx_hash s) rs"
      using assms(1) by (auto simp: index_expects_def)
    then obtain r rs' where r: "rs = r # rs'" by (cases rs) auto
    have f: "index_field e s' = (True, s'\<lparr>idx_hash := (idx_hash s)\<lparr>h_unpadded := h_unpadded (idx_hash s) + fst r\<rparr>, idx_seq := SEQ_INDEX_UNCOMPRESSED\<rparr>)"
      using SEQ_INDEX_UNPADDED rs r by (simp add: index_field_def assms(2))
    have n: "length rs < 2 ^ 64" using rs(2) by simp
    have c: "0 < idx_count s" using rs(1) n by (simp add: rs(4) word_of_nat_0_iff word_neq_0_conv [symmetric])
    show thesis
      by (rule that [OF f]) (use rs r c small in \<open>auto simp: index_expects_def index_record_def assms(2) intro!: exI [of _ "snd r"] exI [of _ rs']\<close>)
  next
    case SEQ_INDEX_UNCOMPRESSED
    then obtain c rs where rs: "length rs < 2 ^ 63" "v = unat c" "vs = index_fields rs" "idx_count s = word_of_nat (length rs) + 1"
      "h = foldl (index_record e) (hash_update e ((idx_hash s)\<lparr>h_uncompressed := h_uncompressed (idx_hash s) + c\<rparr>)) rs"
      using assms(1) by (auto simp: index_expects_def)
    have f: "index_field e s' = (True, s'\<lparr>idx_hash := hash_update e ((idx_hash s)\<lparr>h_uncompressed := h_uncompressed (idx_hash s) + c\<rparr>),
        idx_count := word_of_nat (length rs), idx_seq := SEQ_INDEX_UNPADDED\<rparr>)"
      using SEQ_INDEX_UNCOMPRESSED rs by (simp add: index_field_def assms(2))
    have n: "length rs < 2 ^ 64" using rs(1) by simp
    show thesis
    proof (cases "rs = []")
      case True
      then show ?thesis by (intro that [OF f]) (simp_all add: rs assms(2))
    next
      case False
      then have m: "(word_of_nat (length rs) :: u64) > 0" using n by (simp add: word_of_nat_0_iff word_neq_0_conv [symmetric])
      show ?thesis
        by (rule that [OF f]) (use False rs m small in \<open>auto simp: index_expects_def assms(2) index_fields_Nil\<close>)
    qed
  qed
qed

lemma vli_result_cut:
  assumes "vli_result ds bs s ret s' k" and "v < 2 ^ 63" and "ds @ bs @ later = vli_encode v @ rest" and "length ds + length bs < length (vli_encode v)"
  shows "ret = XZ_OK \<and> k = length bs \<and> vli_partial (ds @ bs) s'"
proof -
  have "ret \<noteq> XZ_DATA_ERROR" using assms(1,2) assms(3) [symmetric] by (auto simp: vli_result_def)
  moreover have "ret \<noteq> XZ_STREAM_END"
  proof
    assume "ret = XZ_STREAM_END"
    then obtain w where w: "vli_encode w = ds @ take k bs" using assms(1) by (auto simp: vli_result_def)
    have "vli_encode v @ rest = vli_encode w @ drop k bs @ later"
      using assms(3) by (simp add: w) (metis append_assoc append_take_drop_id)
    then have "v = w" by (rule vli_prefix_free)
    then show False using w assms(4) by simp
  qed
  ultimately show ?thesis using assms(1) by (auto simp: vli_result_def vli_partial_def)
qed

lemma ok_index_update:
  assumes "valid_buf m b" and "xd_in_start s \<le> b_in_pos b"
  shows "ok (index_update e m s b) (\<lambda>s'. s' = s\<lparr>idx_size := idx_size s', xd_crc := xd_crc s'\<rparr>)"
proof -
  have "b_in_pos b - xd_in_start s \<le> room m (ptr_add (b_in b) (xd_in_start s))"
    using assms by (auto simp: valid_buf_def room_ptr_add)
  then show ?thesis
    unfolding index_update_def using ok_load_bytes [of "b_in_pos b - xd_in_start s" m "ptr_add (b_in b) (xd_in_start s)"] assms(2)
    by (auto simp: ok_simps elim!: ok_mono)
qed

lemma input_left_take:
  assumes "b_in_pos b \<le> j" and "j \<le> b_in_size b"
  shows "input_left m (b\<lparr>b_in_pos := j\<rparr>) = drop (j - b_in_pos b) (input_left m b)"
proof -
  have "ptr_add (b_in b) j = ptr_add (ptr_add (b_in b) (b_in_pos b)) (j - b_in_pos b)" using assms by (simp add: ptr_add_def)
  moreover have "b_in_size b - b_in_pos b = (j - b_in_pos b) + (b_in_size b - j)" using assms by simp
  ultimately show ?thesis
    using mem_bytes_drop [of m "ptr_add (b_in b) (b_in_pos b)" "j - b_in_pos b" "b_in_size b - j"] by (simp add: input_left_def)
qed

text \<open>One number of the Index.\<close>

lemma dec_vli_number:
  assumes vb: "valid_buf m b" and part: "vli_partial ds s" and v: "v < 2 ^ 63" and eq: "ds @ input_left m b @ later = vli_encode v @ rest"
  shows "\<exists>s'. s' = s\<lparr>xd_vli := xd_vli s', xd_pos := xd_pos s'\<rparr> \<and>
    (if length ds + length (input_left m b) < length (vli_encode v)
     then dec_vli m s (b_in b) (b_in_pos b) (b_in_size b) = Some (XZ_OK, s', b_in_size b) \<and> vli_partial (ds @ input_left m b) s'
     else dec_vli m s (b_in b) (b_in_pos b) (b_in_size b) = Some (XZ_STREAM_END, s', b_in_pos b + (length (vli_encode v) - length ds)) \<and>
       xd_vli s' = word_of_nat v \<and> xd_pos s' = 0 \<and> length ds < length (vli_encode v))"
proof -
  have le: "b_in_pos b \<le> b_in_size b" "b_in_size b \<le> room m (b_in b)" "b_in_size b < 2 ^ 63" using vb by (simp_all add: valid_buf_def)
  obtain ret s' j where d: "dec_vli m s (b_in b) (b_in_pos b) (b_in_size b) = Some (ret, s', j)" and j: "b_in_pos b \<le> j"
    and res: "vli_result ds (input_left m b) s ret s' (j - b_in_pos b)"
    using ok_dec_vli [OF part le(1) le(2) le(3)] by (auto simp: ok_iff input_left_def)
  have fr: "s' = s\<lparr>xd_vli := xd_vli s', xd_pos := xd_pos s'\<rparr>" using res by (simp only: vli_result_def)
  show ?thesis
  proof (cases "length ds + length (input_left m b) < length (vli_encode v)")
    case True
    from vli_result_cut [OF res v eq True] vb j le have "ret = XZ_OK \<and> j = b_in_size b \<and> vli_partial (ds @ input_left m b) s'" by auto
    with True fr d show ?thesis by (intro exI [of _ s']) simp
  next
    case False
    then have "ds @ input_left m b = vli_encode v @ drop (length (vli_encode v)) (ds @ input_left m b)"
    proof -
      have "take (length (vli_encode v)) (ds @ input_left m b) = vli_encode v"
        using arg_cong [OF eq, of "take (length (vli_encode v))"] False by simp
      then show ?thesis by (metis append_take_drop_id)
    qed
    from vli_result_code [OF res v this] have r: "ret = XZ_STREAM_END" "xd_vli s' = word_of_nat v" "length (vli_encode v) = length ds + (j - b_in_pos b)" by simp_all
    moreover have "xd_pos s' = 0 \<and> 0 < j - b_in_pos b" using res r(1) by (simp add: vli_result_def)
    moreover have "j = b_in_pos b + (length (vli_encode v) - length ds)" using r(3) j by simp
    ultimately show ?thesis using False fr d by (intro exI [of _ s']) auto
  qed
qed

lemma index_expects_cong:
  "idx_seq s' = idx_seq s \<Longrightarrow> blk_count s' = blk_count s \<Longrightarrow> idx_count s' = idx_count s \<Longrightarrow> idx_hash s' = idx_hash s \<Longrightarrow>
   index_expects e s' vs h = index_expects e s vs h"
  by (simp only: index_expects_def)

lemma dec_index_pieces:
  assumes "valid_buf m b" and "xd_in_start s \<le> b_in_pos b" and "vli_partial ds s" and "index_expects e s vs h" and "vs \<noteq> []"
    and "ds @ input_left m b @ later = vli_codes vs @ rest"
  shows "ok (dec_index e m s b) (\<lambda>(ret, s', b'). if length (vli_codes vs) \<le> length ds + (b_in_size b - b_in_pos b)
     then ret = XZ_STREAM_END \<and> xd_pos s' = 0 \<and> idx_hash s' = h \<and> b' = b\<lparr>b_in_pos := b_in_pos b + (length (vli_codes vs) - length ds)\<rparr>
     else ret = XZ_OK \<and> b' = b\<lparr>b_in_pos := b_in_size b\<rparr> \<and>
       (\<exists>ds' vs'. vli_partial ds' s' \<and> index_expects e s' vs' h \<and> vs' \<noteq> [] \<and> ds' @ later = vli_codes vs' @ rest))"
  using assms
proof (induction "length vs" arbitrary: s b ds vs rule: less_induct)
  case less
  obtain v ws where vs: "vs = v # ws" using less.prems(5) by (cases vs) auto
  have v: "v < 2 ^ 63" using less.prems(4) by (simp add: vs index_expects_def)
  have eq: "ds @ input_left m b @ later = vli_encode v @ vli_codes ws @ rest" using less.prems(6) by (simp add: vs)
  have len: "length (input_left m b) = b_in_size b - b_in_pos b" and pos: "b_in_pos b \<le> b_in_size b"
    using less.prems(1) by (simp_all add: valid_buf_def)
  from dec_vli_number [OF less.prems(1,3) v eq] obtain s1 where s1: "s1 = s\<lparr>xd_vli := xd_vli s1, xd_pos := xd_pos s1\<rparr>"
    and d: "if length ds + length (input_left m b) < length (vli_encode v)
     then dec_vli m s (b_in b) (b_in_pos b) (b_in_size b) = Some (XZ_OK, s1, b_in_size b) \<and> vli_partial (ds @ input_left m b) s1
     else dec_vli m s (b_in b) (b_in_pos b) (b_in_size b) = Some (XZ_STREAM_END, s1, b_in_pos b + (length (vli_encode v) - length ds)) \<and>
       xd_vli s1 = word_of_nat v \<and> xd_pos s1 = 0 \<and> length ds < length (vli_encode v)" by blast
  show ?case
  proof (cases "length ds + length (input_left m b) < length (vli_encode v)")
    case True
    let ?b = "b\<lparr>b_in_pos := b_in_size b\<rparr>"
    have "valid_buf m ?b" "xd_in_start s1 \<le> b_in_pos ?b" using less.prems(1,2) by (simp add: valid_buf_def, subst s1) (auto simp: valid_buf_def)
    from ok_index_update [OF this, of e] obtain s2 where u: "index_update e m s1 ?b = Some s2" and s2: "s2 = s1\<lparr>idx_size := idx_size s2, xd_crc := xd_crc s2\<rparr>"
      by (auto simp: ok_iff)
    have p2: "vli_partial (ds @ input_left m b) s2" using d True by (subst s2) (simp add: vli_partial_def)
    have "idx_seq s2 = idx_seq s1" "blk_count s2 = blk_count s1" "idx_count s2 = idx_count s1" "idx_hash s2 = idx_hash s1"
      by (subst s2, simp)+
    moreover have "idx_seq s1 = idx_seq s" "blk_count s1 = blk_count s" "idx_count s1 = idx_count s" "idx_hash s1 = idx_hash s"
      by (subst s1, simp)+
    ultimately have e2: "index_expects e s2 vs h" using less.prems(4) index_expects_cong [of s2 s] by simp
    have "length (vli_encode v) \<le> length (vli_codes vs)" by (simp add: vs)
    then show ?thesis
      using True d u p2 e2 less.prems(5,6) len
      by (subst dec_index.simps) (auto intro!: exI [of _ "ds @ input_left m b"] exI [of _ vs])
  next
    case False
    define k where "k = length (vli_encode v) - length ds"
    let ?b = "b\<lparr>b_in_pos := b_in_pos b + k\<rparr>"
    have k: "length ds < length (vli_encode v)" "b_in_pos b + k \<le> b_in_size b" using False d len pos by (auto simp: k_def)
    have s1': "s1 = s\<lparr>xd_vli := word_of_nat v, xd_pos := xd_pos s1\<rparr>" using s1 False d by simp
    obtain s2 where f: "index_field e s1 = (True, s2)" and fin: "ws = [] \<Longrightarrow> idx_count s2 = 0 \<and> idx_hash s2 = h"
      and goes: "ws \<noteq> [] \<Longrightarrow> idx_count s2 > 0 \<and> index_expects e s2 ws h"
      and s2: "s2 = s1\<lparr>idx_seq := idx_seq s2, idx_count := idx_count s2, idx_hash := idx_hash s2\<rparr>"
      using index_field_step [OF less.prems(4) [unfolded vs] s1'] by blast
    have q: "xd_pos s2 = 0" "xd_in_start s2 = xd_in_start s"
      using False d by (subst s2, simp) (subst s2, subst s1, simp)
    have un: "dec_index e m s b = (if idx_count s2 > 0 then dec_index e m s2 ?b else Some (XZ_STREAM_END, s2, ?b))"
      using False d f by (subst dec_index.simps) (simp add: k_def)
    have le: "length (vli_codes vs) = length ds + k + length (vli_codes ws)" using k by (simp add: vs k_def)
    show ?thesis
    proof (cases "ws = []")
      case True
      then show ?thesis using fin k q len le un by (auto simp: vs k_def)
    next
      case more: False
      have dr: "vli_codes ws @ rest = [] @ input_left m ?b @ later"
      proof -
        have "drop (length (vli_encode v)) (ds @ input_left m b @ later) = vli_codes ws @ rest" by (simp add: eq)
        then show ?thesis using k len by (simp add: input_left_take k_def)
      qed
      have vb: "valid_buf m ?b" and st: "xd_in_start s2 \<le> b_in_pos ?b" and part: "vli_partial [] s2"
        using less.prems(1,2) k q by (auto simp: valid_buf_def vli_partial_def)
      have "length ws < length vs" by (simp add: vs)
      note ih = less.hyps [OF this vb st part _ more dr [symmetric]]
      have iff: "length (vli_codes vs) \<le> length ds + (b_in_size b - b_in_pos b) \<longleftrightarrow> length (vli_codes ws) \<le> b_in_size b - (b_in_pos b + k)"
        using le k(2) by linarith
      have add: "b_in_pos b + (length (vli_codes vs) - length ds) = b_in_pos b + k + length (vli_codes ws)" using le by simp
      have rec: "dec_index e m s b = dec_index e m s2 ?b" and ex: "index_expects e s2 ws h" using un goes [OF more] by simp_all
      show ?thesis unfolding iff add rec by (rule ok_mono [OF ih [OF ex]]) (auto split: if_splits)
    qed
  qed
qed
text \<open>\<open>block_end\<close> adds the record of the block to the hash the Index has to reproduce.\<close>

lemma block_end_record:
  assumes "block_end e s = Some (XZ_STREAM_END, s')"
  obtains n where "stored_check_size e (check_type s) = Some n" and "blk_count s' = blk_count s + 1"
    and "blk_hash s' = index_record e (blk_hash s) (word_of_nat (bh_size s) + blk_compressed s + word_of_nat n, blk_uncompressed s)"
  using assms by (auto simp: block_end_def index_record_def Let_def add.assoc split: if_splits bind_splits)

text \<open>
  C8: \<open>dec_index\<close>, called with the input cut anywhere, reads the numbers of an Index. If
  \<open>vs\<close> are the numbers still to come (\<open>ds\<close> the bytes of the first that earlier calls have
  read) and their encodings lie in the input and what follows it, it stops right behind the
  last one with the hash over exactly these records in \<open>index.hash\<close>, or, when the input
  ends before, asks for more and stands where the rest of the numbers is to come. No number
  of records and no size below 2^63 is refused.
\<close>

theorem dec_index_reads_records:
  assumes "valid_buf m b" and "xd_in_start s \<le> b_in_pos b"
    and "vli_partial ds s" and "index_expects e s vs h" and "vs \<noteq> []"
    and "ds @ input_left m b @ later = vli_codes vs @ rest"
  shows "ok (dec_index e m s b) (\<lambda>(ret, s', b').
     if length (vli_codes vs) \<le> length ds + (b_in_size b - b_in_pos b)
     then ret = XZ_STREAM_END \<and> xd_pos s' = 0 \<and> idx_hash s' = h \<and> b' = b\<lparr>b_in_pos := b_in_pos b + (length (vli_codes vs) - length ds)\<rparr>
     else ret = XZ_OK \<and> b' = b\<lparr>b_in_pos := b_in_size b\<rparr> \<and>
       (\<exists>ds' vs'. vli_partial ds' s' \<and> index_expects e s' vs' h \<and> vs' \<noteq> [] \<and> ds' @ later = vli_codes vs' @ rest))"
  using dec_index_pieces [OF assms] .

definition index_dec :: "xz_dec \<Rightarrow> xz_dec" where
  \<comment> \<open>at the start of the Index, after one block\<close>
  "index_dec s = s\<lparr>xd_pos := 0, xd_in_start := 0, blk_count := 1, idx_seq := SEQ_INDEX_COUNT, idx_hash := zero_hash\<rparr>"

definition index_memory :: mem where
  "index_memory = (\<lambda>k. [])(In_Block := [0x01, 0xAC, 0x02, 0x03, 0x00])"

definition index_buf :: xz_buf where
  "index_buf = \<lparr>b_in = (In_Block, 0), b_in_pos = 0, b_in_size = 5, b_out = (Out_Block, 0), b_out_pos = 0, b_out_size = 0\<rparr>"

theorem dec_index_reads_records_witness:
  "\<forall>e s. \<exists>s'. dec_index e index_memory (index_dec s) index_buf = Some (XZ_STREAM_END, s', index_buf\<lparr>b_in_pos := 4\<rparr>) \<and>
     idx_hash s' = index_record e zero_hash (300, 3)"
proof (intro allI)
  fix e s
  let ?vs = "[1, 300, 3]"
  have vb: "valid_buf index_memory index_buf" by (simp add: valid_buf_def index_memory_def index_buf_def room_def)
  have st: "xd_in_start (index_dec s) \<le> b_in_pos index_buf" and part: "vli_partial [] (index_dec s)"
    by (simp_all add: index_dec_def vli_partial_def)
  have ex: "index_expects e (index_dec s) ?vs (index_record e zero_hash (300, 3))"
    by (simp add: index_expects_def index_dec_def) (intro exI [of _ "[(300, 3)]"], simp)
  have codes: "vli_codes ?vs = [0x01, 0xAC, 0x02, 0x03]" by (simp add: vli_encode.simps)
  then have inp: "[] @ input_left index_memory index_buf @ [] = vli_codes ?vs @ [0x00]"
    by (simp add: input_left_def mem_bytes_def index_memory_def index_buf_def ptr_add_def)
  have n: "length (vli_codes ?vs) \<le> length ([] :: u8 list) + (b_in_size index_buf - b_in_pos index_buf)" unfolding codes by (simp add: index_buf_def)
  have ne: "?vs \<noteq> []" by simp
  show "\<exists>s'. dec_index e index_memory (index_dec s) index_buf = Some (XZ_STREAM_END, s', index_buf\<lparr>b_in_pos := 4\<rparr>) \<and>
     idx_hash s' = index_record e zero_hash (300, 3)"
    using dec_index_reads_records [OF vb st part ex ne inp] unfolding if_P [OF n] codes ok_iff split_paired_Ex prod.case
    by (auto simp: index_buf_def)
qed

end
