(* ===== verification/Stream_Run.thy ===== *)
theory Stream_Run
  imports Stream_Fields
begin

unbundle bit_operations_syntax

text \<open>
  The .xz decoder as a whole (\<open>dec_main\<close>, \<open>xz_dec_run\<close>): its invariant, state by state,
  and what every call does for every input: it returns, it touches only the caller's
  buffers and its own blocks, and a caller that goes on calling it as long as it returns
  \<open>XZ_OK\<close> comes to an end. \<open>keeps\<close>, \<open>advances\<close> and \<open>head_keeps\<close> say what the parts leave
  alone; the invariant of the filter chain is that of the LZMA2 decoder or, if a BCJ filter
  is in front of it, that of the interpreted locale \<open>next_filter\<close>.
\<close>

section \<open>The fields, for any input\<close>

text \<open>What the functions for one field leave alone.\<close>

definition keeps :: "xz_dec \<Rightarrow> xz_dec \<Rightarrow> bool" where
  "keeps s s' \<longleftrightarrow> xd_seq s' = xd_seq s \<and> xd_in_start s' = xd_in_start s \<and> check_type s' = check_type s \<and> xd_mode s' = xd_mode s \<and>
     allow_buf_error s' = allow_buf_error s \<and> tmp_pos s' = tmp_pos s \<and> tmp_size s' = tmp_size s \<and> xd_lzma2 s' = xd_lzma2 s \<and> xd_bcj s' = xd_bcj s"

lemma keeps_trans: "keeps s s1 \<Longrightarrow> keeps s1 s2 \<Longrightarrow> keeps s s2"
  by (simp add: keeps_def)

lemma keeps_update [simp]:
  "keeps s s"
  "keeps s (s'\<lparr>xd_vli := v_xd_vli\<rparr>) = keeps s s'" "keeps (s\<lparr>xd_vli := v_xd_vli\<rparr>) s' = keeps s s'"
  "keeps s (s'\<lparr>xd_pos := v_xd_pos\<rparr>) = keeps s s'" "keeps (s\<lparr>xd_pos := v_xd_pos\<rparr>) s' = keeps s s'"
  "keeps s (s'\<lparr>xd_crc := v_xd_crc\<rparr>) = keeps s s'" "keeps (s\<lparr>xd_crc := v_xd_crc\<rparr>) s' = keeps s s'"
  "keeps s (s'\<lparr>idx_seq := v_idx_seq\<rparr>) = keeps s s'" "keeps (s\<lparr>idx_seq := v_idx_seq\<rparr>) s' = keeps s s'"
  "keeps s (s'\<lparr>idx_count := v_idx_count\<rparr>) = keeps s s'" "keeps (s\<lparr>idx_count := v_idx_count\<rparr>) s' = keeps s s'"
  "keeps s (s'\<lparr>idx_hash := v_idx_hash\<rparr>) = keeps s s'" "keeps (s\<lparr>idx_hash := v_idx_hash\<rparr>) s' = keeps s s'"
  "keeps s (s'\<lparr>idx_size := v_idx_size\<rparr>) = keeps s s'" "keeps (s\<lparr>idx_size := v_idx_size\<rparr>) s' = keeps s s'"
  "keeps s (s'\<lparr>blk_compressed := v_blk_compressed\<rparr>) = keeps s s'" "keeps (s\<lparr>blk_compressed := v_blk_compressed\<rparr>) s' = keeps s s'"
  by (simp_all add: keeps_def)

text \<open>And the buffer: only input is read.\<close>

definition advances :: "xz_buf \<Rightarrow> xz_buf \<Rightarrow> bool" where
  \<comment> \<open>only input has been read\<close>
  "advances b b' \<longleftrightarrow> b' = b\<lparr>b_in_pos := b_in_pos b'\<rparr> \<and> b_in_pos b \<le> b_in_pos b' \<and> b_in_pos b' \<le> b_in_size b"

lemma advances_refl [simp]: "valid_buf m b \<Longrightarrow> advances b b"
  by (simp add: advances_def valid_buf_def)

lemma advances_trans: "advances b b1 \<Longrightarrow> advances b1 b2 \<Longrightarrow> advances b b2"
  by (cases b; cases b1; cases b2) (simp add: advances_def)

lemma advances_to [simp]: "advances b (b\<lparr>b_in_pos := j\<rparr>) \<longleftrightarrow> b_in_pos b \<le> j \<and> j \<le> b_in_size b"
  by (simp add: advances_def)

lemma advances_next:
  assumes "advances (b\<lparr>b_in_pos := Suc (b_in_pos b)\<rparr>) b'"
  shows "advances b b'"
proof -
  have eq: "b' = b\<lparr>b_in_pos := b_in_pos b'\<rparr>" using assms by (simp add: advances_def)
  show ?thesis unfolding advances_def using assms eq by (auto simp: advances_def)
qed

lemma advances_set: "valid_buf m b \<Longrightarrow> b_in_pos b \<noteq> b_in_size b \<Longrightarrow> advances b (b\<lparr>b_in_pos := Suc (b_in_pos b)\<rparr>)"
  by (auto simp: advances_def valid_buf_def)

lemma advances_valid: "valid_buf m b \<Longrightarrow> advances b b' \<Longrightarrow> valid_buf m b'"
  by (cases b; cases b') (auto simp: advances_def valid_buf_def)

lemma ok_crc_validate:
  assumes "valid_buf m b" and "bits \<in> {32, 64}" and "xd_pos s = 8 * k" and "8 * k < bits"
  shows "ok (crc_validate m s b bits) (\<lambda>(ret, s', b'). keeps s s' \<and>
     advances b b' \<and>
     ret \<in> {XZ_OK, XZ_STREAM_END, XZ_DATA_ERROR} \<and> (ret = XZ_STREAM_END \<longrightarrow> xd_pos s' = 0) \<and>
     (ret = XZ_OK \<longrightarrow> b_in_pos b' = b_in_size b \<and> (\<exists>k'. xd_pos s' = 8 * k' \<and> 8 * k' < bits)))"
proof -
  let ?w = "drop k (le_bytes (bits div 8) (xd_crc s))"
  obtain ret n where c: "compare_bytes ?w (input_left m b) = (ret, n)" by (cases "compare_bytes ?w (input_left m b)")
  from crc_validate_unfold [OF assms] c obtain s' where r: "crc_validate m s b bits = Some (ret, s', b\<lparr>b_in_pos := b_in_pos b + n\<rparr>)"
    "ret = XZ_STREAM_END \<longrightarrow> s' = s\<lparr>xd_crc := 0, xd_pos := 0\<rparr>" "ret \<noteq> XZ_STREAM_END \<longrightarrow> s' = s\<lparr>xd_pos := xd_pos s'\<rparr>"
    "ret = XZ_OK \<longrightarrow> xd_pos s' = 8 * (k + n)" by auto
  have l: "length (input_left m b) = b_in_size b - b_in_pos b" "b_in_pos b \<le> b_in_size b" using assms(1) by (simp_all add: valid_buf_def)
  have cb: "n \<le> b_in_size b - b_in_pos b" "ret \<in> {XZ_OK, XZ_STREAM_END, XZ_DATA_ERROR}"
    "ret = XZ_OK \<longrightarrow> n = b_in_size b - b_in_pos b \<and> k + n < bits div 8"
    using compare_bytes_result [OF c] l by auto
  have fr: "keeps s s'"
  proof (cases "ret = XZ_STREAM_END")
    case False
    then have eq: "s' = s\<lparr>xd_pos := xd_pos s'\<rparr>" using r(3) by blast
    show ?thesis by (subst eq) simp
  qed (simp add: r(2))
  have go: "ret = XZ_OK \<longrightarrow> b_in_pos b + n = b_in_size b \<and> (\<exists>k'. xd_pos s' = 8 * k' \<and> 8 * k' < bits)"
    using cb(3) r(4) l(2) by auto
  show ?thesis
    unfolding r(1) ok_Some prod.case using fr cb(1,2) l(2) r(2) go by (intro conjI) simp_all
qed

lemma ok_check_skip:
  assumes "valid_buf m b" and "unat (check_type s) < 16" and "xd_pos s \<le> 64"
  shows "ok (check_skip s b) (\<lambda>(skipped, s', b'). keeps s s' \<and>
     advances b b' \<and>
     (skipped \<longrightarrow> xd_pos s' = 0) \<and> (\<not> skipped \<longrightarrow> b_in_pos b' = b_in_size b \<and> xd_pos s' \<le> 64))"
  using assms
proof (induction "b_in_size b - b_in_pos b" arbitrary: b s rule: less_induct)
  case less
  obtain n where n: "check_size (check_type s) = Some n" "n \<le> 64"
  proof -
    have "\<forall>x\<in>set check_sizes. x \<le> 64" and "length check_sizes = 16" by (simp_all add: check_sizes_def)
    then have "check_sizes ! unat (check_type s) \<le> 64" using less.prems(2) by simp
    then show thesis using that less.prems(2) by (simp add: check_size_def)
  qed
  have le: "b_in_pos b \<le> b_in_size b" "b_in_size b < 2 ^ 63" using less.prems(1) by (simp_all add: valid_buf_def)
  show ?case
  proof (cases "xd_pos s < n \<and> b_in_pos b \<noteq> b_in_size b")
    case True
    let ?s = "s\<lparr>xd_pos := xd_pos s + 1\<rparr>" and ?b = "b\<lparr>b_in_pos := b_in_pos b + 1\<rparr>"
    have "check_skip s b = check_skip ?s ?b" using True n le by (subst check_skip.simps) simp
    moreover have "ok (check_skip ?s ?b) (\<lambda>(skipped, s', b'). keeps ?s s' \<and>
     advances ?b b' \<and>
     (skipped \<longrightarrow> xd_pos s' = 0) \<and> (\<not> skipped \<longrightarrow> b_in_pos b' = b_in_size ?b \<and> xd_pos s' \<le> 64))"
      using True less.prems n le by (intro less.hyps) (auto simp: valid_buf_def)
    ultimately show ?thesis by (auto intro: advances_next elim!: ok_mono)
  next
    case False
    then show ?thesis using n le less.prems by (subst check_skip.simps) auto
  qed
qed

lemma ok_dec_index:
  assumes "valid_buf m b" and "xd_in_start s \<le> b_in_pos b" and "vli_partial ds s"
  shows "ok (dec_index e m s b) (\<lambda>(ret, s', b').
     keeps s s' \<and>
     advances b b' \<and>
     ret \<in> {XZ_OK, XZ_STREAM_END, XZ_DATA_ERROR} \<and> (ret = XZ_STREAM_END \<longrightarrow> xd_pos s' = 0) \<and>
     (ret = XZ_OK \<longrightarrow> b_in_pos b' = b_in_size b \<and> (\<exists>ds'. vli_partial ds' s')))"
  using assms
proof (induction "b_in_size b - b_in_pos b" arbitrary: b s ds rule: less_induct)
  case less
  have le: "b_in_pos b \<le> b_in_size b" "b_in_size b \<le> room m (b_in b)" "b_in_size b < 2 ^ 63" using less.prems(1) by (simp_all add: valid_buf_def)
  obtain ret s1 j where d: "dec_vli m s (b_in b) (b_in_pos b) (b_in_size b) = Some (ret, s1, j)" and j: "b_in_pos b \<le> j"
    and res: "vli_result ds (input_left m b) s ret s1 (j - b_in_pos b)"
    using ok_dec_vli [OF less.prems(3) le] by (auto simp: ok_iff input_left_def)
  have fr: "s1 = s\<lparr>xd_vli := xd_vli s1, xd_pos := xd_pos s1\<rparr>" using res by (simp only: vli_result_def)
  have "j - b_in_pos b \<le> b_in_size b - b_in_pos b" using res less.prems(1) by (simp add: vli_result_def)
  then have jn: "j \<le> b_in_size b" using le(1) j by linarith
  let ?b = "b\<lparr>b_in_pos := j\<rparr>"
  have vb: "valid_buf m ?b" and st: "xd_in_start s1 \<le> b_in_pos ?b"
    using less.prems(1,2) j jn by (simp add: valid_buf_def, subst fr) auto
  show ?case
  proof (cases "ret = XZ_STREAM_END")
    case False
    from ok_index_update [OF vb st, of e] obtain s2 where u: "index_update e m s1 ?b = Some s2" and s2: "s2 = s1\<lparr>idx_size := idx_size s2, xd_crc := xd_crc s2\<rparr>"
      by (auto simp: ok_iff)
    have r: "ret \<in> {XZ_OK, XZ_DATA_ERROR}" using res False by (auto simp: vli_result_def)
    have go: "j = b_in_size b \<and> vli_partial (ds @ input_left m b) s2" if "ret = XZ_OK"
    proof -
      have "j - b_in_pos b = b_in_size b - b_in_pos b" and p: "vli_partial (ds @ input_left m b) s1"
        using res that less.prems(1) by (auto simp: vli_result_def vli_partial_def)
      then show ?thesis using j le by (subst s2) (simp add: vli_partial_def)
    qed
    have "keeps s s1" and "keeps s1 s2" by (subst fr, simp) (subst s2, simp)
    then have "keeps s s2" by (rule keeps_trans)
    then show ?thesis using False d u r go j jn by (subst dec_index.simps) auto
  next
    case True
    then have k: "b_in_pos b < j" and z: "xd_pos s1 = 0" using res by (auto simp: vli_result_def)
    obtain fine s2 where f: "index_field e s1 = (fine, s2)" by (cases "index_field e s1")
    have s2: "s2 = s1\<lparr>idx_seq := idx_seq s2, idx_count := idx_count s2, idx_hash := idx_hash s2\<rparr>"
      using f by (auto simp: index_field_def Let_def split: index_seq.splits if_splits)
    have "keeps s s1" and "keeps s1 s2" by (subst fr, simp) (subst s2, simp)
    then have fr2: "keeps s s2" by (rule keeps_trans)
    have z2: "xd_pos s2 = 0" and st2: "xd_in_start s2 = xd_in_start s1" by (subst s2, simp add: z)+
    have un: "dec_index e m s b = (if \<not> fine then Some (XZ_DATA_ERROR, s2, ?b) else if idx_count s2 > 0 then dec_index e m s2 ?b else Some (XZ_STREAM_END, s2, ?b))"
      using d f True by (subst dec_index.simps) simp
    show ?thesis
    proof (cases "fine \<and> idx_count s2 > 0")
      case False
      then show ?thesis using un fr2 z2 k jn j by auto
    next
      case more: True
      have "b_in_size ?b - b_in_pos ?b < b_in_size b - b_in_pos b" using k jn by simp
      from less.hyps [OF this vb _ , of s2 "[]"] st st2 z2
      have ih: "ok (dec_index e m s2 ?b) (\<lambda>(ret, s', b').
         keeps s2 s' \<and>
         advances ?b b' \<and>
         ret \<in> {XZ_OK, XZ_STREAM_END, XZ_DATA_ERROR} \<and> (ret = XZ_STREAM_END \<longrightarrow> xd_pos s' = 0) \<and>
         (ret = XZ_OK \<longrightarrow> b_in_pos b' = b_in_size ?b \<and> (\<exists>ds'. vli_partial ds' s')))" by (simp add: vli_partial_def)
      have un2: "dec_index e m s b = dec_index e m s2 ?b" using un more by simp
      have ab: "advances b ?b" using j jn by simp
      show ?thesis unfolding un2
        by (rule ok_mono [OF ih]) (use keeps_trans [OF fr2] advances_trans [OF ab] in auto)
    qed
  qed
qed
text \<open>Padding ends, at the latest, with the input.\<close>

lemma ok_block_padding:
  assumes "valid_buf m b"
  shows "ok (block_padding m s b) (\<lambda>(r, s', b'). keeps s s' \<and> xd_pos s' = xd_pos s \<and> advances b b' \<and> r \<in> {None, Some XZ_OK, Some XZ_DATA_ERROR} \<and>
     (r = Some XZ_OK \<longrightarrow> b_in_pos b' = b_in_size b))"
  using assms
proof (induction "b_in_size b - b_in_pos b" arbitrary: b s rule: less_induct)
  case less
  show ?case
  proof (cases "blk_compressed s AND 3 \<noteq> 0 \<and> b_in_pos b \<noteq> b_in_size b")
    case False
    then show ?thesis using less.prems by (subst block_padding.simps) auto
  next
    case True
    obtain c where c: "in_byte m b = Some c" "valid_buf m (b\<lparr>b_in_pos := Suc (b_in_pos b)\<rparr>)" "sz_add (b_in_pos b) (Suc 0) = Suc (b_in_pos b)" "b_in_pos b < b_in_size b"
      using input_next [OF less.prems] True by metis
    let ?s = "s\<lparr>blk_compressed := blk_compressed s + 1\<rparr>" and ?b = "b\<lparr>b_in_pos := Suc (b_in_pos b)\<rparr>"
    have un: "block_padding m s b = (if c \<noteq> 0 then Some (Some XZ_DATA_ERROR, s, ?b) else block_padding m ?s ?b)"
      using True c by (subst block_padding.simps) simp
    have "b_in_size ?b - b_in_pos ?b < b_in_size b - b_in_pos b" using c(4) by simp
    note ih = less.hyps [OF this c(2), of ?s]
    show ?thesis
    proof (cases "c = 0")
      case True
      then show ?thesis unfolding un using ih by (auto intro: advances_next elim!: ok_mono)
    next
      case F: False
      then show ?thesis unfolding un using advances_set [OF less.prems] True by simp
    qed
  qed
qed

lemma ok_index_padding:
  assumes "valid_buf m b" and "xd_in_start s \<le> b_in_pos b"
  shows "ok (index_padding e m s b) (\<lambda>(r, s', b'). keeps s s' \<and> xd_pos s' = xd_pos s \<and> advances b b' \<and> r \<in> {None, Some XZ_OK, Some XZ_DATA_ERROR} \<and>
     (r = Some XZ_OK \<longrightarrow> b_in_pos b' = b_in_size b))"
  using assms
proof (induction "b_in_size b - b_in_pos b" arbitrary: b rule: less_induct)
  case less
  have upd: "ok (index_update e m s b) (\<lambda>s'. keeps s s' \<and> xd_pos s' = xd_pos s)"
    using ok_index_update [OF less.prems, of e]
  proof (rule ok_mono)
    fix s' assume eq: "s' = s\<lparr>idx_size := idx_size s', xd_crc := xd_crc s'\<rparr>"
    show "keeps s s' \<and> xd_pos s' = xd_pos s" by (subst eq, simp) (subst eq, simp)
  qed
  show ?case
  proof (cases "(idx_size s + word_of_nat (sz_sub (b_in_pos b) (xd_in_start s))) AND 3 \<noteq> 0 \<and> b_in_pos b \<noteq> b_in_size b")
    case False
    then show ?thesis using less.prems upd by (subst index_padding.simps) (auto simp: ok_simps elim!: ok_mono)
  next
    case True
    obtain c where c: "in_byte m b = Some c" "valid_buf m (b\<lparr>b_in_pos := Suc (b_in_pos b)\<rparr>)" "sz_add (b_in_pos b) (Suc 0) = Suc (b_in_pos b)" "b_in_pos b < b_in_size b"
      using input_next [OF less.prems(1)] True by metis
    let ?b = "b\<lparr>b_in_pos := Suc (b_in_pos b)\<rparr>"
    have un: "index_padding e m s b = (if c \<noteq> 0 then Some (Some XZ_DATA_ERROR, s, ?b) else index_padding e m s ?b)"
      using True c by (subst index_padding.simps) simp
    have "b_in_size ?b - b_in_pos ?b < b_in_size b - b_in_pos b" and "xd_in_start s \<le> b_in_pos ?b" using c(4) less.prems(2) by simp_all
    note ih = less.hyps [OF this(1) c(2) this(2)]
    show ?thesis
    proof (cases "c = 0")
      case True
      then show ?thesis unfolding un using ih by (auto intro: advances_next elim!: ok_mono)
    next
      case F: False
      then show ?thesis unfolding un using advances_set [OF less.prems(1)] True by simp
    qed
  qed
qed

text \<open>Collecting a header.\<close>

lemma ok_fill_temp:
  assumes vb: "valid_buf m b" and sep: "fst (b_in b) \<noteq> Stream_Temp" "fst (b_out b) \<noteq> Stream_Temp" and len: "length (m Stream_Temp) = 1024"
    and tp: "tmp_pos s < tmp_size s" "tmp_size s \<le> 1024"
  shows "ok (fill_temp m s b) (\<lambda>(filled, s', b', m'). advances b b' \<and> same_shape m m' \<and> (\<forall>k. k \<noteq> Stream_Temp \<longrightarrow> m' k = m k) \<and>
     (if filled then s' = s\<lparr>tmp_pos := 0\<rparr> \<and> b_in_pos b < b_in_pos b'
      else s' = s\<lparr>tmp_pos := tmp_pos s'\<rparr> \<and> tmp_pos s' < tmp_size s \<and> b_in_pos b' = b_in_size b))"
proof -
  define c where "c = min (b_in_size b - b_in_pos b) (tmp_size s - tmp_pos s)"
  have le: "b_in_pos b \<le> b_in_size b" "b_in_size b \<le> room m (b_in b)" "b_in_size b < 2 ^ 63" using vb by (simp_all add: valid_buf_def)
  have "c \<le> room m (Stream_Temp, tmp_pos s)" "c \<le> room m (ptr_add (b_in b) (b_in_pos b))"
    using len tp le by (auto simp: c_def room_def ptr_add_def)
  moreover have "\<not> overlap (Stream_Temp, tmp_pos s) (ptr_add (b_in b) (b_in_pos b)) c" using sep by (simp add: overlap_def)
  ultimately obtain m' where m': "memcpy m (Stream_Temp, tmp_pos s) (ptr_add (b_in b) (b_in_pos b)) c = Some m'"
    "same_shape m m'" "\<forall>k. k \<noteq> Stream_Temp \<longrightarrow> m' k = m k"
    using ok_memcpy by (fastforce simp: ok_iff)
  have un: "fill_temp m s b = (if tmp_pos s + c = tmp_size s then Some (True, s\<lparr>tmp_pos := 0\<rparr>, b\<lparr>b_in_pos := b_in_pos b + c\<rparr>, m')
      else Some (False, s\<lparr>tmp_pos := tmp_pos s + c\<rparr>, b\<lparr>b_in_pos := b_in_pos b + c\<rparr>, m'))"
  proof -
    have "sz_add (b_in_pos b) c = b_in_pos b + c" "sz_add (tmp_pos s) c = tmp_pos s + c" using le tp by (auto simp: c_def)
    then show ?thesis using m'(1) le(1) tp(1) unfolding c_def by (simp add: fill_temp_def Let_def)
  qed
  have "c \<le> b_in_size b - b_in_pos b" "c \<le> tmp_size s - tmp_pos s" by (simp_all add: c_def)
  moreover have "c = b_in_size b - b_in_pos b" if "tmp_pos s + c \<noteq> tmp_size s" using that tp by (auto simp: c_def)
  ultimately show ?thesis unfolding un using m' le tp by (auto simp: advances_def)
qed
section \<open>The invariant\<close>

text \<open>The blocks of the decoder, and a caller's buffer apart from them.\<close>

abbreviation stream_own :: "block set" where
  "stream_own \<equiv> {Dict_Block, Lzma_Temp, Bcj_Temp, Stream_Temp}"

definition buf_apart :: "mem \<Rightarrow> xz_buf \<Rightarrow> bool" where
  "buf_apart m b \<longleftrightarrow> valid_buf m b \<and> fst (b_in b) \<notin> stream_own \<and> fst (b_out b) \<notin> stream_own"

text \<open>What holds from the creation of the decoder on, in whatever state it is.\<close>

definition stream_static :: "xz_env \<Rightarrow> mem \<Rightarrow> xz_dec \<Rightarrow> bool" where
  "stream_static e m s \<longleftrightarrow> length (m Stream_Temp) = 1024 \<and> length (m Lzma_Temp) = TEMP_BUF_SIZE \<and> length (m Bcj_Temp) = BCJ_TEMP_SIZE \<and>
     alloc_ok m (s_dict (xd_lzma2 s)) \<and> d_mode (s_dict (xd_lzma2 s)) = xd_mode s \<and>
     (XZ_DEC_BCJ e \<longrightarrow> bcj_single_call (xd_bcj s) = DEC_IS_SINGLE (xd_mode s))"

definition filter_ready :: "xz_env \<Rightarrow> mem \<Rightarrow> xz_dec \<Rightarrow> xz_buf \<Rightarrow> bool" where
  "filter_ready e m s b \<longleftrightarrow>
     (if XZ_DEC_BCJ e \<and> bcj_active s then bcj_ok lzma2_ok lzma2_multi e m (xd_bcj s) (xd_lzma2 s) b else lzma2_ok m (xd_lzma2 s) b)"

definition check_pos :: "xz_env \<Rightarrow> xz_dec \<Rightarrow> bool" where
  "check_pos e s \<longleftrightarrow>
     (if check_type s = XZ_CHECK_CRC32 then \<exists>k. xd_pos s = 8 * k \<and> 8 * k < 32
      else if IS_CRC64 e (check_type s) then \<exists>k. xd_pos s = 8 * k \<and> 8 * k < 64
      else if XZ_DEC_ANY_CHECK e then xd_pos s \<le> 64
      else xd_pos s = 0)"

text \<open>What holds in each state of the machine.\<close>

definition seq_state :: "xz_env \<Rightarrow> mem \<Rightarrow> xz_dec \<Rightarrow> xz_buf \<Rightarrow> bool" where
  "seq_state e m s b \<longleftrightarrow>
     (case xd_seq s of
        SEQ_STREAM_HEADER \<Rightarrow> tmp_size s = 12 \<and> tmp_pos s < 12 \<and> xd_pos s = 0
      | SEQ_BLOCK_HEADER \<Rightarrow> 8 \<le> tmp_size s \<and> tmp_size s \<le> 1024 \<and> tmp_pos s < tmp_size s \<and> xd_pos s = 0
      | SEQ_BLOCK_UNCOMPRESS \<Rightarrow> tmp_pos s = 0 \<and> xd_pos s = 0 \<and> filter_ready e m s b
      | SEQ_BLOCK_CHECK \<Rightarrow> tmp_pos s = 0 \<and> check_pos e s
      | SEQ_INDEX \<Rightarrow> tmp_pos s = 0 \<and> (\<exists>ds. vli_partial ds s)
      | SEQ_INDEX_CRC32 \<Rightarrow> tmp_pos s = 0 \<and> (\<exists>k. xd_pos s = 8 * k \<and> 8 * k < 32)
      | SEQ_STREAM_FOOTER \<Rightarrow> tmp_size s = 12 \<and> tmp_pos s < 12 \<and> xd_pos s = 0
      | SEQ_STREAM_PADDING \<Rightarrow> False
      | _ \<Rightarrow> tmp_pos s = 0 \<and> xd_pos s = 0)"

definition stream_ok :: "xz_env \<Rightarrow> mem \<Rightarrow> xz_dec \<Rightarrow> xz_buf \<Rightarrow> bool" where
  "stream_ok e m s b \<longleftrightarrow> buf_apart m b \<and> stream_static e m s \<and> seq_state e m s b \<and> (xd_seq s \<noteq> SEQ_STREAM_HEADER \<longrightarrow> unat (check_type s) < 16)"

lemma stream_static_cong:
  "stream_static e m s \<Longrightarrow> \<forall>k\<in>stream_own. m' k = m k \<or> k = Stream_Temp \<and> length (m' k) = length (m k) \<Longrightarrow>
   xd_lzma2 s' = xd_lzma2 s \<Longrightarrow> xd_bcj s' = xd_bcj s \<Longrightarrow> xd_mode s' = xd_mode s \<Longrightarrow> stream_static e m' s'"
  by (auto simp: stream_static_def alloc_ok_def)

section \<open>Headers\<close>

lemma get_le32_ok: "length (m Stream_Temp) = 1024 \<Longrightarrow> i \<le> 1020 \<Longrightarrow> \<exists>v. get_le32 m i = Some v"
  by (simp add: get_le32_def load_bytes_def)

lemma load_temp: "length (m Stream_Temp) = 1024 \<Longrightarrow> i + n \<le> 1024 \<Longrightarrow> \<exists>bs. load_bytes m (Stream_Temp, i) n = Some bs \<and> length bs = n"
  by (simp add: load_bytes_def)

lemma temp_byte_ok:
  "length (m Stream_Temp) = 1024 \<Longrightarrow> tmp_pos s < 1024 \<Longrightarrow> \<exists>c. temp_byte m s = Some (c, s\<lparr>tmp_pos := tmp_pos s + 1\<rparr>)"
  by (simp add: temp_byte_def load_def)

lemma ok_stream_header:
  assumes "length (m Stream_Temp) = 1024"
  shows "ok (dec_stream_header e m s) (\<lambda>(ret, s'). s' = s\<lparr>check_type := check_type s'\<rparr> \<and>
     ret \<in> {XZ_OK, XZ_FORMAT_ERROR, XZ_DATA_ERROR, XZ_OPTIONS_ERROR, XZ_UNSUPPORTED_CHECK} \<and>
     (ret \<in> {XZ_OK, XZ_UNSUPPORTED_CHECK} \<longrightarrow> unat (check_type s') < 16))"
proof -
  obtain magic flags crc where "load_bytes m (Stream_Temp, 0) 6 = Some magic" "load_bytes m (Stream_Temp, 6) 2 = Some flags" "get_le32 m 8 = Some crc"
    using load_temp [of m 0 6] load_temp [of m 6 2] get_le32_ok [of m 8] assms by auto
  moreover have "unat w < 16" if "\<not> w > XZ_CHECK_MAX" for w
    using that by (simp add: XZ_CHECK_MAX_def word_less_nat_alt)
  ultimately show ?thesis by (simp add: dec_stream_header_def Let_def)
qed

lemma ok_stream_footer:
  assumes "length (m Stream_Temp) = 1024"
  shows "ok (dec_stream_footer e m s) (\<lambda>ret. ret \<in> {XZ_STREAM_END, XZ_DATA_ERROR})"
proof -
  obtain magic body crc backward where "load_bytes m (Stream_Temp, 10) 2 = Some magic" "load_bytes m (Stream_Temp, 4) 6 = Some body"
    "get_le32 m 0 = Some crc" "get_le32 m 4 = Some backward"
    using load_temp [of m 10 2] load_temp [of m 4 6] get_le32_ok [of m 0] get_le32_ok [of m 4] assms by auto
  then show ?thesis by (simp add: dec_stream_footer_def)
qed
text \<open>The parts of the block header.\<close>

definition head_keeps :: "xz_dec \<Rightarrow> xz_dec \<Rightarrow> bool" where
  "head_keeps s s' \<longleftrightarrow> xd_seq s' = xd_seq s \<and> xd_in_start s' = xd_in_start s \<and> check_type s' = check_type s \<and> xd_mode s' = xd_mode s \<and>
     allow_buf_error s' = allow_buf_error s \<and> tmp_size s' = tmp_size s"

lemma head_keeps_trans: "head_keeps s s1 \<Longrightarrow> head_keeps s1 s2 \<Longrightarrow> head_keeps s s2"
  by (simp add: head_keeps_def)

definition head_ok :: "xz_env \<Rightarrow> mem \<Rightarrow> xz_dec \<Rightarrow> mem \<Rightarrow> xz_dec \<Rightarrow> bool" where
  "head_ok e m s m' s' \<longleftrightarrow> head_keeps s s' \<and> stream_static e m' s' \<and> (\<forall>k. k \<noteq> Dict_Block \<longrightarrow> m' k = m k) \<and>
     tmp_pos s' \<le> tmp_size s' \<and> tmp_size s' \<le> 1020"

text \<open>An early return is an error.\<close>

definition head_error :: "xz_ret option \<Rightarrow> bool" where
  "head_error r \<longleftrightarrow> r \<notin> {Some XZ_OK, Some XZ_STREAM_END, Some XZ_UNSUPPORTED_CHECK, Some XZ_BUF_ERROR}"

lemma head_error_simps [simp]: "head_error None" "head_error (Some XZ_DATA_ERROR)" "head_error (Some XZ_OPTIONS_ERROR)"
  by (simp_all add: head_error_def)

lemma head_ok_trans: "head_ok e m s m1 s1 \<Longrightarrow> head_ok e m1 s1 m2 s2 \<Longrightarrow> head_ok e m s m2 s2"
  by (auto simp: head_ok_def intro: head_keeps_trans)

lemma ok_part_then:
  assumes "ok p (\<lambda>(r, s', m'). head_error r \<and> head_ok e m s m' s' \<and> (r = None \<longrightarrow> P s' m'))"
    and "\<And>s' m'. head_ok e m s m' s' \<Longrightarrow> P s' m' \<Longrightarrow> ok (f s' m') (\<lambda>(r, s2, m2). head_error r \<and> head_ok e m' s' m2 s2 \<and> (r = None \<longrightarrow> Q s2 m2))"
  shows "ok (part_then p f) (\<lambda>(r, s', m'). head_error r \<and> head_ok e m s m' s' \<and> (r = None \<longrightarrow> Q s' m'))"
  unfolding part_then_def
proof (rule ok_bindI [OF assms(1)], unfold split_paired_all prod.case, elim conjE)
  fix r s1 m1 assume a: "head_error r" "head_ok e m s m1 s1" "r = None \<longrightarrow> P s1 m1"
  show "ok (case r of None \<Rightarrow> f s1 m1 | Some ret \<Rightarrow> Some (Some ret, s1, m1)) (\<lambda>(r, s', m'). head_error r \<and> head_ok e m s m' s' \<and> (r = None \<longrightarrow> Q s' m'))"
  proof (cases r)
    case None
    then have "ok (f s1 m1) (\<lambda>(r, s', m'). head_error r \<and> head_ok e m s m' s' \<and> (r = None \<longrightarrow> Q s' m'))"
      using assms(2) [of m1 s1] a head_ok_trans [OF a(2)] by (auto elim!: ok_mono)
    then show ?thesis by (simp add: None)
  next
    case (Some ret)
    then show ?thesis using a by simp
  qed
qed

lemma ok_header_vli:
  assumes h: "stream_static e m s" "tmp_pos s \<le> tmp_size s" "tmp_size s \<le> 1020" and z: "xd_pos s = 0"
    and put: "\<And>v s. keeps s (put v s) \<and> xd_pos (put v s) = xd_pos s"
  shows "ok (header_vli present put s m) (\<lambda>(r, s', m'). head_error r \<and> head_ok e m s m' s' \<and> (r = None \<longrightarrow> xd_pos s' = 0))"
proof (cases present)
  case False
  then show ?thesis using h z put [of s VLI_UNKNOWN] by (simp add: header_vli_def head_ok_def head_keeps_def keeps_def stream_static_def)
next
  case True
  from h have rm: "tmp_size s \<le> room m (Stream_Temp, 0)" by (simp add: room_def stream_static_def)
  have "vli_partial [] s" using z by (simp add: vli_partial_def)
  from ok_dec_vli [OF this h(2) rm] h(3) obtain ret s1 j where d: "dec_vli m s (Stream_Temp, 0) (tmp_pos s) (tmp_size s) = Some (ret, s1, j)"
    and j: "tmp_pos s \<le> j" and res: "vli_result [] (mem_bytes m (ptr_add (Stream_Temp, 0) (tmp_pos s)) (tmp_size s - tmp_pos s)) s ret s1 (j - tmp_pos s)"
    by (auto simp: ok_iff)
  have fr: "s1 = s\<lparr>xd_vli := xd_vli s1, xd_pos := xd_pos s1\<rparr>" using res by (simp only: vli_result_def)
  have k: "keeps s s1" by (subst fr) simp
  have "j - tmp_pos s \<le> tmp_size s - tmp_pos s" using res h(2,3) rm by (simp add: vli_result_def room_ptr_add)
  then have j2: "j \<le> tmp_size s" using j h(2) by linarith
  have p: "ret = XZ_STREAM_END \<Longrightarrow> xd_pos s1 = 0" using res by (auto simp: vli_result_def)
  have "head_ok e m s m (s1\<lparr>tmp_pos := j\<rparr>)"
    using k h j2 by (simp add: head_ok_def head_keeps_def keeps_def stream_static_def)
  moreover have "head_ok e m s m (put (xd_vli s1) (s1\<lparr>tmp_pos := j\<rparr>))"
    using put [of "s1\<lparr>tmp_pos := j\<rparr>" "xd_vli s1"] k h j2 by (simp add: head_ok_def head_keeps_def keeps_def stream_static_def)
  ultimately show ?thesis using True d p put [of "s1\<lparr>tmp_pos := j\<rparr>" "xd_vli s1"] by (simp add: header_vli_def Let_def)
qed
definition bcj_set :: "xz_env \<Rightarrow> xz_dec \<Rightarrow> bool" where
  \<comment> \<open>the BCJ filter, if there is one, has been reset\<close>
  "bcj_set e s \<longleftrightarrow> xd_pos s = 0 \<and>
     (XZ_DEC_BCJ e \<and> bcj_active s \<longrightarrow> (\<exists>c i. xz_dec_bcj_reset e c i = (XZ_OK, xd_bcj s) \<and> bcj_single_call c = DEC_IS_SINGLE (xd_mode s)))"

lemma bcj_reset_single: "xz_dec_bcj_reset e c i = (ret, c') \<Longrightarrow> bcj_single_call c' = bcj_single_call c \<and> (ret = XZ_OK \<or> ret = XZ_OPTIONS_ERROR)"
  by (auto simp: xz_dec_bcj_reset_def split: option.splits if_splits)

lemma ok_header_bcj:
  assumes h: "stream_static e m s" "tmp_pos s \<le> tmp_size s" "tmp_size s \<le> 1020" and z: "xd_pos s = 0"
  shows "ok (header_bcj e flags s m) (\<lambda>(r, s', m'). head_error r \<and> head_ok e m s m' s' \<and> (r = None \<longrightarrow> bcj_set e s'))"
proof (cases "XZ_DEC_BCJ e \<and> flags AND 0x01 \<noteq> 0 \<and> 2 \<le> tmp_size s - tmp_pos s")
  case False
  then show ?thesis using h z by (auto simp: header_bcj_def Let_def head_ok_def head_keeps_def stream_static_def bcj_set_def)
next
  case True
  let ?s1 = "s\<lparr>bcj_active := True\<rparr>"
  have len: "length (m Stream_Temp) = 1024" using h(1) by (simp add: stream_static_def)
  have "2 \<le> tmp_size s - tmp_pos s" using True by blast
  then have p: "tmp_pos s + 2 \<le> tmp_size s" by linarith
  obtain i where i: "temp_byte m ?s1 = Some (i, ?s1\<lparr>tmp_pos := tmp_pos s + 1\<rparr>)" using temp_byte_ok [of m ?s1] len p h(3) by auto
  obtain ret c where c: "xz_dec_bcj_reset e (xd_bcj s) i = (ret, c)" by (cases "xz_dec_bcj_reset e (xd_bcj s) i")
  let ?s2 = "?s1\<lparr>tmp_pos := tmp_pos s + 1, xd_bcj := c\<rparr>"
  obtain n where n: "temp_byte m ?s2 = Some (n, ?s2\<lparr>tmp_pos := tmp_pos s + 1 + 1\<rparr>)" using temp_byte_ok [of m ?s2] len p h(3) by auto
  have single: "bcj_single_call c = DEC_IS_SINGLE (xd_mode s)" and r: "ret = XZ_OK \<or> ret = XZ_OPTIONS_ERROR"
    using bcj_reset_single [OF c] h(1) True by (auto simp: stream_static_def)
  have ok1: "head_ok e m s m (?s2\<lparr>tmp_pos := q\<rparr>)" if "q \<le> tmp_size s" for q
    using h that single by (simp add: head_ok_def head_keeps_def stream_static_def)
  have ok2: "head_ok e m s m ?s2" using h p single by (simp add: head_ok_def head_keeps_def stream_static_def)
  have set: "ret = XZ_OK \<Longrightarrow> bcj_set e (?s2\<lparr>tmp_pos := q\<rparr>)" for q
    using c z h(1) True by (auto simp: bcj_set_def stream_static_def)
  have act: "(flags AND 0x01 \<noteq> 0) = True" using True by blast
  have rm: "\<not> sz_sub (tmp_size s) (tmp_pos s) < 2" using p by simp
  have "header_bcj e flags s m = (if ret \<noteq> XZ_OK then Some (Some ret, ?s2, m)
      else if n \<noteq> 0 then Some (Some XZ_OPTIONS_ERROR, ?s2\<lparr>tmp_pos := tmp_pos s + 1 + 1\<rparr>, m) else Some (None, ?s2\<lparr>tmp_pos := tmp_pos s + 1 + 1\<rparr>, m))"
    using True rm i n by (simp add: header_bcj_def Let_def act c del: One_nat_def)
  then show ?thesis using r ok2 ok1 [of "tmp_pos s + 1 + 1"] set p by auto
qed

text \<open>The whole chain is ready.\<close>

definition chain_set :: "xz_env \<Rightarrow> mem \<Rightarrow> xz_dec \<Rightarrow> bool" where
  "chain_set e m s \<longleftrightarrow> bcj_set e s \<and> (\<forall>b. valid_buf m b \<and> temp_sep m b \<and> fst (b_in b) \<noteq> Dict_Block \<and> fst (b_out b) \<noteq> Dict_Block \<longrightarrow>
     lzma2_ok m (xd_lzma2 s) b)"

lemma lzma2_reset_ret: "xz_dec_lzma2_reset vmalloc m l props = (ret, l', m') \<Longrightarrow> ret = XZ_OK \<or> head_error (Some ret)"
  by (auto simp: xz_dec_lzma2_reset_def Let_def head_error_def split: if_splits option.splits)

lemma ok_header_lzma2:
  assumes h: "stream_static e m s" "tmp_pos s \<le> tmp_size s" "tmp_size s \<le> 1020" and bs: "bcj_set e s" and vm: "vmalloc_ok vmalloc"
  shows "ok (header_lzma2 vmalloc s m) (\<lambda>(r, s', m'). head_error r \<and> head_ok e m s m' s' \<and> (r = None \<longrightarrow> chain_set e m' s'))"
proof (cases "2 \<le> tmp_size s - tmp_pos s")
  case False
  then show ?thesis using h by (simp add: header_lzma2_def head_ok_def head_keeps_def)
next
  case two: True
  have len: "length (m Stream_Temp) = 1024" using h(1) by (simp add: stream_static_def)
  have p: "tmp_pos s + 2 \<le> tmp_size s" using two by simp
  let ?s = "\<lambda>q. s\<lparr>tmp_pos := q\<rparr>"
  obtain i where i: "temp_byte m s = Some (i, ?s (tmp_pos s + 1))" using temp_byte_ok [of m s] len p h(3) by auto
  obtain n where n: "temp_byte m (?s (tmp_pos s + 1)) = Some (n, ?s (tmp_pos s + 2))" using temp_byte_ok [of m "?s (tmp_pos s + 1)"] len p h(3) by auto
  obtain props where props: "temp_byte m (?s (tmp_pos s + 2)) = Some (props, ?s (tmp_pos s + 3))" using temp_byte_ok [of m "?s (tmp_pos s + 2)"] len p h(3) by auto
  obtain ret l m' where l: "xz_dec_lzma2_reset vmalloc m (xd_lzma2 s) props = (ret, l, m')" by (cases "xz_dec_lzma2_reset vmalloc m (xd_lzma2 s) props")
  have ok1: "head_ok e m s m (?s q)" if "q \<le> tmp_size s" for q
    using h that by (simp add: head_ok_def head_keeps_def stream_static_def)
  have rm: "\<not> sz_sub (tmp_size s) (tmp_pos s) < 2" using p by simp
  have un: "header_lzma2 vmalloc s m = (if i \<noteq> 0x21 then Some (Some XZ_OPTIONS_ERROR, ?s (tmp_pos s + 1), m)
      else if n \<noteq> 0x01 then Some (Some XZ_OPTIONS_ERROR, ?s (tmp_pos s + 2), m)
      else if sz_sub (tmp_size s) (tmp_pos s + 2) < 1 then Some (Some XZ_DATA_ERROR, ?s (tmp_pos s + 2), m)
      else Some ((if ret \<noteq> XZ_OK then Some ret else None), (?s (tmp_pos s + 3))\<lparr>xd_lzma2 := l\<rparr>, m'))"
    using rm i n props l by (simp add: header_lzma2_def Let_def del: One_nat_def)
  from reset_good [OF _ vm l] h(1) have R: "alloc_ok m' (s_dict l)" "d_mode (s_dict l) = d_mode (s_dict (xd_lzma2 s))" "\<forall>k. k \<noteq> Dict_Block \<longrightarrow> m' k = m k"
    "ret = XZ_OK \<Longrightarrow> \<forall>b. valid_buf m b \<and> temp_sep m b \<and> fst (b_in b) \<noteq> Dict_Block \<and> fst (b_out b) \<noteq> Dict_Block \<longrightarrow> lzma2_ok m' l b"
    by (auto simp: stream_static_def)
  show ?thesis
  proof (cases "i = 0x21 \<and> n = 0x01 \<and> \<not> sz_sub (tmp_size s) (tmp_pos s + 2) < 1")
    case False
    then show ?thesis unfolding un using ok1 [of "tmp_pos s + 1"] ok1 [of "tmp_pos s + 2"] p by auto
  next
    case True
    then have p3: "tmp_pos s + 3 \<le> tmp_size s" using p by simp
    let ?s3 = "(?s (tmp_pos s + 3))\<lparr>xd_lzma2 := l\<rparr>"
    have ho: "head_ok e m s m' ?s3" using h p3 R(1-3) by (simp add: head_ok_def head_keeps_def stream_static_def)
    have "chain_set e m' ?s3" if ret: "ret = XZ_OK"
    proof -
      have "valid_buf m b" "temp_sep m b" if "valid_buf m' b" "temp_sep m' b" "fst (b_in b) \<noteq> Dict_Block" "fst (b_out b) \<noteq> Dict_Block" for b
        using that R(3) by (auto simp: valid_buf_def temp_sep_def room_def)
      then show ?thesis using R(4) [OF ret] bs by (auto simp: chain_set_def bcj_set_def)
    qed
    then show ?thesis unfolding un using True ho lzma2_reset_ret [OF l] by auto
  qed
qed

lemma ok_header_padding:
  assumes "stream_static e m s" "tmp_pos s \<le> tmp_size s" "tmp_size s \<le> 1020" and "chain_set e m s"
  shows "ok (header_padding s m) (\<lambda>(r, s', m'). head_error r \<and> head_ok e m s m' s' \<and> (r = None \<longrightarrow> chain_set e m' s'))"
  using assms
proof (induction "tmp_size s - tmp_pos s" arbitrary: s rule: less_induct)
  case less
  show ?case
  proof (cases "tmp_pos s < tmp_size s")
    case False
    then show ?thesis using less.prems by (subst header_padding.simps) (simp add: head_ok_def head_keeps_def)
  next
    case True
    let ?s = "s\<lparr>tmp_pos := tmp_pos s + 1\<rparr>"
    obtain c where c: "temp_byte m s = Some (c, ?s)" using temp_byte_ok [of m s] True less.prems by (auto simp: stream_static_def)
    have ho: "head_ok e m s m ?s" using less.prems True by (simp add: head_ok_def head_keeps_def stream_static_def)
    have "ok (header_padding ?s m) (\<lambda>(r, s', m'). head_error r \<and> head_ok e m ?s m' s' \<and> (r = None \<longrightarrow> chain_set e m' s'))"
      using less.prems True by (intro less.hyps) (simp_all add: stream_static_def chain_set_def bcj_set_def)
    then have ih: "ok (header_padding ?s m) (\<lambda>(r, s', m'). head_error r \<and> head_ok e m s m' s' \<and> (r = None \<longrightarrow> chain_set e m' s'))"
      using head_ok_trans [OF ho] by (auto elim!: ok_mono)
    have "header_padding s m = (if c \<noteq> 0 then Some (Some XZ_OPTIONS_ERROR, ?s, m) else header_padding ?s m)"
      using True c by (subst header_padding.simps) simp
    then show ?thesis using ho ih by simp
  qed
qed

lemma ok_block_header:
  assumes st: "stream_static e m s" and sz: "8 \<le> tmp_size s" "tmp_size s \<le> 1024" and z: "xd_pos s = 0" and vm: "vmalloc_ok vmalloc"
  shows "ok (dec_block_header e vmalloc m s) (\<lambda>(ret, s', m'). (ret \<noteq> XZ_OK \<longrightarrow> head_error (Some ret)) \<and>
     xd_seq s' = xd_seq s \<and> xd_in_start s' = xd_in_start s \<and> check_type s' = check_type s \<and> xd_mode s' = xd_mode s \<and> allow_buf_error s' = allow_buf_error s \<and>
     stream_static e m' s' \<and> (\<forall>k. k \<noteq> Dict_Block \<longrightarrow> m' k = m k) \<and>
     (ret = XZ_OK \<longrightarrow> tmp_pos s' = 0 \<and> chain_set e m' s'))"
proof -
  let ?s0 = "s\<lparr>tmp_size := tmp_size s - 4\<rparr>"
  let ?s1 = "?s0\<lparr>tmp_pos := 2\<rparr>"
  have len: "length (m Stream_Temp) = 1024" using st by (simp add: stream_static_def)
  obtain header crc where l: "load_bytes m (Stream_Temp, 0) (tmp_size s - 4) = Some header" "get_le32 m (tmp_size s - 4) = Some crc"
  proof -
    have "tmp_size s - 4 \<le> 1020" "0 + (tmp_size s - 4) \<le> 1024" using sz by linarith+
    then show thesis using that load_temp [of m 0 "tmp_size s - 4"] get_le32_ok [of m "tmp_size s - 4"] len by blast
  qed
  obtain flags where flags: "load m (Stream_Temp, 0) 1 = Some flags" using len by (simp add: load_def)
  have st1: "stream_static e m ?s0" "stream_static e m ?s1" using st by (simp_all add: stream_static_def)
  define parts where "parts = part_then (part_then (part_then (part_then
      (header_vli (flags AND 0x40 \<noteq> 0) (\<lambda>v s. s\<lparr>bh_compressed := v\<rparr>) ?s1 m)
      (header_vli (flags AND 0x80 \<noteq> 0) (\<lambda>v s. s\<lparr>bh_uncompressed := v\<rparr>)))
      (header_bcj e flags)) (header_lzma2 vmalloc)) header_padding"
  have P: "ok parts (\<lambda>(r, s', m'). head_error r \<and> head_ok e m ?s1 m' s' \<and> (r = None \<longrightarrow> chain_set e m' s'))"
    unfolding parts_def
  proof (rule ok_part_then [where P = "\<lambda>s' m'. chain_set e m' s'"], rule ok_part_then [where P = "\<lambda>s' m'. bcj_set e s'"],
      rule ok_part_then [where P = "\<lambda>s' m'. xd_pos s' = 0"], rule ok_part_then [where P = "\<lambda>s' m'. xd_pos s' = 0"])
    show "ok (header_vli (flags AND 0x40 \<noteq> 0) (\<lambda>v s. s\<lparr>bh_compressed := v\<rparr>) ?s1 m)
      (\<lambda>(r, s', m'). head_error r \<and> head_ok e m ?s1 m' s' \<and> (r = None \<longrightarrow> xd_pos s' = 0))"
      using st1 sz z by (intro ok_header_vli) (simp_all add: keeps_def)
  next
    fix s' m' assume "head_ok e m ?s1 m' s'" "xd_pos s' = 0"
    then show "ok (header_vli (flags AND 0x80 \<noteq> 0) (\<lambda>v s. s\<lparr>bh_uncompressed := v\<rparr>) s' m')
      (\<lambda>(r, s2, m2). head_error r \<and> head_ok e m' s' m2 s2 \<and> (r = None \<longrightarrow> xd_pos s2 = 0))"
      by (intro ok_header_vli) (simp_all add: keeps_def head_ok_def)
  next
    fix s' m' assume "head_ok e m ?s1 m' s'" "xd_pos s' = 0"
    then show "ok (header_bcj e flags s' m') (\<lambda>(r, s2, m2). head_error r \<and> head_ok e m' s' m2 s2 \<and> (r = None \<longrightarrow> bcj_set e s2))"
      by (intro ok_header_bcj) (simp_all add: head_ok_def)
  next
    fix s' m' assume "head_ok e m ?s1 m' s'" "bcj_set e s'"
    then show "ok (header_lzma2 vmalloc s' m') (\<lambda>(r, s2, m2). head_error r \<and> head_ok e m' s' m2 s2 \<and> (r = None \<longrightarrow> chain_set e m2 s2))"
      using vm by (intro ok_header_lzma2) (simp_all add: head_ok_def)
  next
    fix s' m' assume "head_ok e m ?s1 m' s'" "chain_set e m' s'"
    then show "ok (header_padding s' m') (\<lambda>(r, s2, m2). head_error r \<and> head_ok e m' s' m2 s2 \<and> (r = None \<longrightarrow> chain_set e m2 s2))"
      by (intro ok_header_padding) (simp_all add: head_ok_def)
  qed
  then obtain r s2 m2 where p: "parts = Some (r, s2, m2)" and h: "head_error r" "head_ok e m ?s1 m2 s2" "r = None \<longrightarrow> chain_set e m2 s2"
    by (auto simp: ok_iff)
  have un: "dec_block_header e vmalloc m s =
    (if xz_crc32 (xz_crc32_table e) header 0 \<noteq> crc then Some (XZ_DATA_ERROR, ?s0, m)
     else if flags AND (if XZ_DEC_BCJ e then 0x3E else 0x3F) \<noteq> 0 then Some (XZ_OPTIONS_ERROR, ?s1, m)
     else (case r of Some ret \<Rightarrow> Some (ret, s2, m2) | None \<Rightarrow> Some (XZ_OK, s2\<lparr>tmp_pos := 0, blk_compressed := 0, blk_uncompressed := 0\<rparr>, m2)))"
    using l flags p sz by (simp add: dec_block_header_def Let_def flip: parts_def)
  have fin: "r = None \<Longrightarrow> chain_set e m2 (s2\<lparr>tmp_pos := 0, blk_compressed := 0, blk_uncompressed := 0\<rparr>)"
    using h(3) by (simp add: chain_set_def bcj_set_def)
  show ?thesis
    unfolding un using h(1,2) st1 fin by (auto simp: head_ok_def head_keeps_def stream_static_def head_error_def split: option.splits)
qed
section \<open>Blocks\<close>

lemma alloc_ok_same:
  assumes "alloc_ok m d" and "same_shape m m'" and "d_mode d' = d_mode d" and "d_size_max d' = d_size_max d" and "d_allocated d' = d_allocated d"
    and "DEC_IS_MULTI (d_mode d) \<longrightarrow> d_buf d' = d_buf d"
  shows "alloc_ok m' d'"
  using assms by (auto simp: alloc_ok_def same_shape_def mode_defs)

definition dict_same :: "dictionary \<Rightarrow> dictionary \<Rightarrow> bool" where
  "dict_same d d' \<longleftrightarrow> d_mode d' = d_mode d \<and> d_size_max d' = d_size_max d \<and> d_allocated d' = d_allocated d \<and> (DEC_IS_MULTI (d_mode d) \<longrightarrow> d_buf d' = d_buf d)"

lemma feeds_dict: "feeds (xz_dec_lzma2_run e) lzma2_ok l raw l' \<Longrightarrow> dict_same (s_dict l) (s_dict l')"
proof (induction rule: feeds.induct)
  case (feeds_call m l b ret l1 b1 m1 bs l2)
  then have "io_frame m l b m1 l1 b1" using ok_lzma2_run [of m l b e] by (auto simp: ok_iff)
  then show ?case using feeds_call.IH by (simp add: io_frame_def dict_same_def)
qed (simp add: dict_same_def)

lemma ok_run_filters:
  assumes st: "stream_static e m s" and rdy: "filter_ready e m s b"
  shows "ok (run_filters e m s b) (\<lambda>(ret, s', b', m'). (\<exists>c l. s' = s\<lparr>xd_bcj := c, xd_lzma2 := l\<rparr>) \<and> stream_static e m' s' \<and>
     same_shape m m' \<and> buf_frame b b' \<and> valid_buf m' b' \<and> (\<forall>k. k \<notin> stream_own \<and> k \<noteq> fst (b_out b) \<longrightarrow> m' k = m k) \<and>
     ret \<in> {XZ_OK, XZ_STREAM_END, XZ_DATA_ERROR} \<and>
     (ret = XZ_OK \<longrightarrow> filter_ready e m' s' b' \<and> (b_in_pos b' = b_in_size b' \<or> b_out_pos b' = b_out_size b')))"
proof (cases "XZ_DEC_BCJ e \<and> bcj_active s")
  case True
  have bok: "bcj_ok lzma2_ok lzma2_multi e m (xd_bcj s) (xd_lzma2 s) b" using rdy True by (simp add: filter_ready_def)
  obtain ret c l b' m' where r: "xz_dec_bcj_run e m (xd_bcj s) (xd_lzma2 s) b = Some (ret, c, l, b', m')"
    and post: "bcj_post (xz_dec_lzma2_run e) lzma2_ok lzma2_multi {Dict_Block, Lzma_Temp} e m (xd_bcj s) (xd_lzma2 s) b (Some ret, c, l, b', m')"
    using lzma2.ok_bcj_run [OF bok] unfolding lzma2_bcj_run ok_iff split_paired_Ex prod.case by blast
  have fr: "same_shape m m'" "buf_frame b b'" "valid_buf m' b'" "\<forall>k. k \<notin> {Dict_Block, Lzma_Temp} \<and> k \<noteq> Bcj_Temp \<and> k \<noteq> fst (b_out b) \<longrightarrow> m' k = m k"
    "bcj_single_call c = bcj_single_call (xd_bcj s)" "ret \<in> {XZ_OK, XZ_STREAM_END, XZ_DATA_ERROR}"
    "ret = XZ_OK \<longrightarrow> bcj_ok lzma2_ok lzma2_multi e m' c l b' \<and> (b_in_pos b' = b_in_size b' \<or> b_out_pos b' = b_out_size b')"
    using post by (auto simp: bcj_frame_def)
  obtain new where "feeds (xz_dec_lzma2_run e) lzma2_ok (xd_lzma2 s) new l" using post by auto
  then have d: "dict_same (s_dict (xd_lzma2 s)) (s_dict l)" by (rule feeds_dict)
  have "stream_static e m' (s\<lparr>xd_bcj := c, xd_lzma2 := l\<rparr>)"
    using st d fr(1,5) alloc_ok_same [of m "s_dict (xd_lzma2 s)" m' "s_dict l"] by (simp add: stream_static_def dict_same_def same_shape_def)
  moreover have rf: "run_filters e m s b = Some (ret, s\<lparr>xd_bcj := c, xd_lzma2 := l\<rparr>, b', m')" using True r by (simp add: run_filters_def)
  moreover have "ret = XZ_OK \<longrightarrow> filter_ready e m' (s\<lparr>xd_bcj := c, xd_lzma2 := l\<rparr>) b' \<and> (b_in_pos b' = b_in_size b' \<or> b_out_pos b' = b_out_size b')"
    using fr(7) True by (auto simp: filter_ready_def)
  moreover have "\<forall>k. k \<notin> stream_own \<and> k \<noteq> fst (b_out b) \<longrightarrow> m' k = m k" using fr(4) by blast
  ultimately show ?thesis unfolding rf ok_Some prod.case using fr(1-3,6) by blast
next
  case False
  have lok: "lzma2_ok m (xd_lzma2 s) b" using rdy False by (auto simp: filter_ready_def)
  obtain ret l b' m' where r: "xz_dec_lzma2_run e m (xd_lzma2 s) b = Some (ret, l, b', m')" and post: "run_post m (xd_lzma2 s) b (ret, l, b', m')"
    using ok_lzma2_run [OF lok] unfolding ok_iff split_paired_Ex prod.case by blast
  have fr: "same_shape m m'" "buf_frame b b'" "valid_buf m' b'" "\<forall>k. k \<noteq> Dict_Block \<and> k \<noteq> Lzma_Temp \<and> k \<noteq> fst (b_out b) \<longrightarrow> m' k = m k"
    "dict_same (s_dict (xd_lzma2 s)) (s_dict l)" "ret \<in> {XZ_OK, XZ_STREAM_END, XZ_DATA_ERROR}"
    "ret = XZ_OK \<longrightarrow> lzma2_ok m' l b' \<and> (b_in_pos b' = b_in_size b' \<or> b_out_pos b' = b_out_size b')"
    using post by (auto simp: io_frame_def dict_same_def)
  have "stream_static e m' (s\<lparr>xd_lzma2 := l\<rparr>)"
    using st fr(1,5) alloc_ok_same [of m "s_dict (xd_lzma2 s)" m' "s_dict l"] by (simp add: stream_static_def dict_same_def same_shape_def)
  moreover have "\<exists>c la. s\<lparr>xd_lzma2 := l\<rparr> = s\<lparr>xd_bcj := c, xd_lzma2 := la\<rparr>" by (intro exI [of _ "xd_bcj s"] exI [of _ l]) simp
  moreover have rf: "run_filters e m s b = Some (ret, s\<lparr>xd_lzma2 := l\<rparr>, b', m')" using False r by (simp only: run_filters_def if_False) simp
  moreover have "ret = XZ_OK \<longrightarrow> filter_ready e m' (s\<lparr>xd_lzma2 := l\<rparr>) b' \<and> (b_in_pos b' = b_in_size b' \<or> b_out_pos b' = b_out_size b')"
    using fr(7) False by (auto simp: filter_ready_def)
  moreover have "\<forall>k. k \<notin> stream_own \<and> k \<noteq> fst (b_out b) \<longrightarrow> m' k = m k" using fr(4) by blast
  ultimately show ?thesis unfolding rf ok_Some prod.case using fr(1-3,6) by blast
qed

lemma ok_block_crc:
  assumes "valid_buf m b" and "xd_out_start s \<le> b_out_pos b"
  shows "\<exists>v. block_crc e m s b = Some (s\<lparr>xd_crc := v\<rparr>)"
proof -
  have "b_out_pos b - xd_out_start s \<le> room m (ptr_add (b_out b) (xd_out_start s))" using assms by (auto simp: valid_buf_def room_ptr_add)
  then obtain bs where "load_bytes m (ptr_add (b_out b) (xd_out_start s)) (b_out_pos b - xd_out_start s) = Some bs"
    using load_mem_bytes by blast
  moreover have "s = s\<lparr>xd_crc := xd_crc s\<rparr>" by simp
  ultimately show ?thesis using assms(2) unfolding block_crc_def by (auto intro: exI [of _ "xd_crc s"])
qed

lemma ok_block_end:
  assumes "unat (check_type s) < 16"
  shows "\<exists>h n ret. block_end e s = Some (ret, s\<lparr>blk_hash := h, blk_count := n\<rparr>) \<and> ret \<in> {XZ_STREAM_END, XZ_DATA_ERROR}"
proof -
  have "\<exists>n. stored_check_size e (check_type s) = Some n" using assms by (simp add: stored_check_size_def check_size_def)
  then obtain n where "stored_check_size e (check_type s) = Some n" ..
  then have "block_end e s = Some (XZ_DATA_ERROR, s) \<or> (\<exists>h n. block_end e s = Some (XZ_STREAM_END, s\<lparr>blk_hash := h, blk_count := n\<rparr>))"
    by (simp add: block_end_def Let_def) blast
  then show ?thesis
  proof (elim disjE exE)
    assume "block_end e s = Some (XZ_DATA_ERROR, s)"
    then show ?thesis by (intro exI [of _ "blk_hash s"] exI [of _ "blk_count s"] exI [of _ XZ_DATA_ERROR]) simp
  qed auto
qed

text \<open>Everything but the filters, the counters and the hash is left alone.\<close>

lemma ok_dec_block:
  assumes st: "stream_static e m s" and rdy: "filter_ready e m s b" and ct: "unat (check_type s) < 16" and vb: "valid_buf m b"
  shows "ok (dec_block e m s b) (\<lambda>(ret, s', b', m').
     xd_seq s' = xd_seq s \<and> check_type s' = check_type s \<and> xd_mode s' = xd_mode s \<and> allow_buf_error s' = allow_buf_error s \<and>
     tmp_pos s' = tmp_pos s \<and> xd_pos s' = xd_pos s \<and> xd_in_start s' \<le> b_in_pos b' \<and> stream_static e m' s' \<and>
     same_shape m m' \<and> buf_frame b b' \<and> valid_buf m' b' \<and> (\<forall>k. k \<notin> stream_own \<and> k \<noteq> fst (b_out b) \<longrightarrow> m' k = m k) \<and>
     ret \<in> {XZ_OK, XZ_STREAM_END, XZ_DATA_ERROR} \<and>
     (ret = XZ_OK \<longrightarrow> filter_ready e m' s' b' \<and> (b_in_pos b' = b_in_size b' \<or> b_out_pos b' = b_out_size b')))"
proof -
  let ?s0 = "s\<lparr>xd_in_start := b_in_pos b, xd_out_start := b_out_pos b\<rparr>"
  have "stream_static e m ?s0" "filter_ready e m ?s0 b" using st rdy by (simp_all add: stream_static_def filter_ready_def)
  from ok_run_filters [OF this] obtain ret c l b' m' where r: "run_filters e m ?s0 b = Some (ret, ?s0\<lparr>xd_bcj := c, xd_lzma2 := l\<rparr>, b', m')"
    and R: "stream_static e m' (?s0\<lparr>xd_bcj := c, xd_lzma2 := l\<rparr>)" "same_shape m m'" "buf_frame b b'" "valid_buf m' b'"
     "\<forall>k. k \<notin> stream_own \<and> k \<noteq> fst (b_out b) \<longrightarrow> m' k = m k" "ret \<in> {XZ_OK, XZ_STREAM_END, XZ_DATA_ERROR}"
     "ret = XZ_OK \<longrightarrow> filter_ready e m' (?s0\<lparr>xd_bcj := c, xd_lzma2 := l\<rparr>) b' \<and> (b_in_pos b' = b_in_size b' \<or> b_out_pos b' = b_out_size b')"
    unfolding ok_iff split_paired_Ex prod.case by blast
  have mono: "b_in_pos b \<le> b_in_pos b'" "b_out_pos b \<le> b_out_pos b'" using R(3) by (simp_all add: buf_frame_def)
  define s2 where "s2 = (?s0\<lparr>xd_bcj := c, xd_lzma2 := l\<rparr>)\<lparr>blk_compressed := blk_compressed s + word_of_nat (sz_sub (b_in_pos b') (b_in_pos b)),
     blk_uncompressed := blk_uncompressed s + word_of_nat (sz_sub (b_out_pos b') (b_out_pos b))\<rparr>"
  have "xd_out_start s2 \<le> b_out_pos b'" using mono by (simp add: s2_def)
  from ok_block_crc [OF R(4) this, of e] obtain v where crc: "block_crc e m' s2 b' = Some (s2\<lparr>xd_crc := v\<rparr>)" ..
  have "unat (check_type (s2\<lparr>xd_crc := v\<rparr>)) < 16" using ct by (simp add: s2_def)
  from ok_block_end [OF this, of e] obtain h n ret2 where be: "block_end e (s2\<lparr>xd_crc := v\<rparr>) = Some (ret2, s2\<lparr>xd_crc := v, blk_hash := h, blk_count := n\<rparr>)"
    and ret2: "ret2 \<in> {XZ_STREAM_END, XZ_DATA_ERROR}" by auto
  have un: "dec_block e m s b = Some
     (if blk_compressed s2 > bh_compressed s2 \<or> blk_uncompressed s2 > bh_uncompressed s2 then (XZ_DATA_ERROR, s2, b', m')
      else if ret = XZ_STREAM_END then (ret2, s2\<lparr>xd_crc := v, blk_hash := h, blk_count := n\<rparr>, b', m') else (ret, s2\<lparr>xd_crc := v\<rparr>, b', m'))"
  proof -
    have "bh_compressed s2 = bh_compressed s" "bh_uncompressed s2 = bh_uncompressed s"
      "blk_compressed s2 = blk_compressed s + word_of_nat (sz_sub (b_in_pos b') (b_in_pos b))"
      "blk_uncompressed s2 = blk_uncompressed s + word_of_nat (sz_sub (b_out_pos b') (b_out_pos b))" by (simp_all add: s2_def)
    then show ?thesis using r crc be by (simp add: dec_block_def Let_def flip: s2_def)
  qed
  have s2: "xd_seq s2 = xd_seq s" "check_type s2 = check_type s" "xd_mode s2 = xd_mode s" "allow_buf_error s2 = allow_buf_error s"
    "tmp_pos s2 = tmp_pos s" "xd_pos s2 = xd_pos s" "xd_in_start s2 = b_in_pos b" "stream_static e m' s2"
    using R(1) by (simp_all add: s2_def stream_static_def)
  have rdy2: "ret = XZ_OK \<longrightarrow> filter_ready e m' s2 b'"
    using R(7) by (cases "XZ_DEC_BCJ e \<and> bcj_active s") (auto simp: s2_def filter_ready_def)
  have upd: "stream_static e m' (s2\<lparr>xd_crc := v\<rparr>)" "stream_static e m' (s2\<lparr>xd_crc := v, blk_hash := h, blk_count := n\<rparr>)"
    "ret = XZ_OK \<longrightarrow> filter_ready e m' (s2\<lparr>xd_crc := v\<rparr>) b'"
    using s2(8) rdy2 by (simp_all add: stream_static_def filter_ready_def)
  show ?thesis
    unfolding un using R(2-6) R(7) s2 mono(1) ret2 upd
    by (cases "blk_compressed s2 > bh_compressed s2 \<or> blk_uncompressed s2 > bh_uncompressed s2"; cases "ret = XZ_STREAM_END") auto
qed

section \<open>The state machine\<close>

definition main_frame :: "xz_env \<Rightarrow> mem \<Rightarrow> xz_dec \<Rightarrow> xz_buf \<Rightarrow> mem \<Rightarrow> xz_dec \<Rightarrow> xz_buf \<Rightarrow> bool" where
  "main_frame e m s b m' s' b' \<longleftrightarrow> (\<forall>k. k \<notin> stream_own \<and> k \<noteq> fst (b_out b) \<longrightarrow> m' k = m k) \<and>
     (\<forall>k. k \<noteq> Dict_Block \<longrightarrow> length (m' k) = length (m k)) \<and> buf_frame b b' \<and> valid_buf m' b' \<and> stream_static e m' s' \<and>
     xd_mode s' = xd_mode s \<and> allow_buf_error s' = allow_buf_error s"

lemma main_frame_trans:
  "main_frame e m s b m1 s1 b1 \<Longrightarrow> main_frame e m1 s1 b1 m2 s2 b2 \<Longrightarrow> main_frame e m s b m2 s2 b2"
  by (cases b; cases b1; cases b2) (auto simp: main_frame_def buf_frame_def)

lemma main_frame_apart: "main_frame e m s b m' s' b' \<Longrightarrow> buf_apart m b \<Longrightarrow> buf_apart m' b'"
  by (cases b; cases b') (simp add: main_frame_def buf_frame_def buf_apart_def)

lemma buf_frame_advances: "advances b b' \<Longrightarrow> buf_frame b b'"
  by (cases b; cases b') (simp add: advances_def buf_frame_def)

lemma main_frame_read:
  assumes "buf_apart m b" and "stream_static e m s" and "advances b b'" and "xd_lzma2 s' = xd_lzma2 s" "xd_bcj s' = xd_bcj s"
    "xd_mode s' = xd_mode s" "allow_buf_error s' = allow_buf_error s"
  shows "main_frame e m s b m s' b'"
  using assms advances_valid [of m b b'] buf_frame_advances [of b b']
  by (simp add: main_frame_def buf_apart_def stream_static_def)

text \<open>Every round of the loop reads input or comes nearer to a state that does.\<close>

definition seq_rank :: "dec_seq \<Rightarrow> nat" where
  "seq_rank q = (case q of SEQ_STREAM_HEADER \<Rightarrow> 6 | SEQ_BLOCK_START \<Rightarrow> 5 | SEQ_BLOCK_HEADER \<Rightarrow> 4 | SEQ_BLOCK_UNCOMPRESS \<Rightarrow> 8 | SEQ_BLOCK_PADDING \<Rightarrow> 7
     | SEQ_BLOCK_CHECK \<Rightarrow> 6 | SEQ_INDEX \<Rightarrow> 4 | SEQ_INDEX_PADDING \<Rightarrow> 3 | SEQ_INDEX_CRC32 \<Rightarrow> 2 | SEQ_STREAM_FOOTER \<Rightarrow> 1 | SEQ_STREAM_PADDING \<Rightarrow> 0)"

definition left :: "xz_dec \<Rightarrow> xz_buf \<Rightarrow> nat" where
  "left s b = (b_in_size b - b_in_pos b) * 10 + seq_rank (xd_seq s)"

fun step_good :: "xz_env \<Rightarrow> mem \<Rightarrow> xz_dec \<Rightarrow> xz_buf \<Rightarrow> main_result \<Rightarrow> bool" where
  "step_good e m s b (r, s', b', m') \<longleftrightarrow> main_frame e m s b m' s' b' \<and>
     (case r of
        None \<Rightarrow> stream_ok e m' s' b' \<and> xd_in_start s' \<le> b_in_pos b' \<and> left s' b' < left s b
      | Some ret \<Rightarrow> ret \<noteq> XZ_BUF_ERROR \<and> (ret \<in> {XZ_OK, XZ_STREAM_END, XZ_UNSUPPORTED_CHECK} \<longrightarrow> stream_ok e m' s' b') \<and>
          (ret = XZ_OK \<longrightarrow> b_in_pos b' = b_in_size b' \<or> b_out_pos b' = b_out_size b') \<and>
          (ret = XZ_STREAM_END \<longrightarrow> b_in_pos b < b_in_pos b' \<and> xd_pos s' = 0))"

lemma left_less:
  assumes "advances b b'" and "seq_rank (xd_seq s') < seq_rank (xd_seq s) \<or> b_in_pos b < b_in_pos b'"
  shows "left s' b' < left s b"
proof -
  have "b_in_size b' = b_in_size b" "b_in_pos b \<le> b_in_pos b'" "b_in_pos b' \<le> b_in_size b"
    using assms(1) by (cases b; cases b'; simp add: advances_def)+
  moreover have "seq_rank q < 10" for q by (simp add: seq_rank_def split: dec_seq.splits)
  ultimately have sz: "b_in_size b' = b_in_size b" "b_in_pos b \<le> b_in_pos b'" "b_in_pos b' \<le> b_in_size b" and r: "seq_rank (xd_seq s') < 10" by blast+
  have le: "b_in_size b' - b_in_pos b' \<le> b_in_size b - b_in_pos b" using sz by linarith
  from assms(2) show ?thesis
  proof
    assume "seq_rank (xd_seq s') < seq_rank (xd_seq s)"
    then show ?thesis using le unfolding left_def by linarith
  next
    assume "b_in_pos b < b_in_pos b'"
    then have "b_in_size b' - b_in_pos b' + 1 \<le> b_in_size b - b_in_pos b" using sz by linarith
    then show ?thesis using r unfolding left_def by linarith
  qed
qed

lemma step_read:
  \<comment> \<open>a step that only reads input\<close>
  assumes ok: "stream_ok e m s b" and adv: "advances b b'" and k: "keeps (s\<lparr>xd_seq := q, xd_in_start := i, tmp_pos := p, tmp_size := n\<rparr>) s'"
    and st: "seq_state e m s' b'" and seq: "xd_seq s \<noteq> SEQ_STREAM_HEADER"
    and r: "case r of None \<Rightarrow> i \<le> b_in_pos b' \<and> (seq_rank q < seq_rank (xd_seq s) \<or> b_in_pos b < b_in_pos b')
        | Some ret \<Rightarrow> ret = XZ_OK \<and> b_in_pos b' = b_in_size b"
  shows "step_good e m s b (r, s', b', m)"
proof -
  have fr: "main_frame e m s b m s' b'" using ok adv k by (intro main_frame_read) (simp_all add: stream_ok_def keeps_def)
  have ok': "stream_ok e m s' b'"
    using ok st fr main_frame_apart [OF fr] k seq by (simp add: stream_ok_def main_frame_def keeps_def)
  have sz: "b_in_size b' = b_in_size b" using adv by (cases b; cases b') (simp add: advances_def)
  show ?thesis
    using fr ok' r k left_less [OF adv, of s' s] sz by (auto simp: keeps_def split: option.splits)
qed

lemma step_error:
  assumes "stream_ok e m s b" and "advances b b'" and "keeps (s\<lparr>xd_seq := q, xd_in_start := i, tmp_pos := p, tmp_size := n\<rparr>) s'"
  shows "step_good e m s b (Some XZ_DATA_ERROR, s', b', m)"
proof -
  have "main_frame e m s b m s' b'" using assms by (intro main_frame_read) (simp_all add: stream_ok_def keeps_def)
  then show ?thesis by simp
qed

lemma fill_step:
  assumes ok: "stream_ok e m s b" and tp: "tmp_pos s < tmp_size s" "tmp_size s \<le> 1024"
  shows "\<exists>filled s1 b1 m1. fill_temp m s b = Some (filled, s1, b1, m1) \<and> main_frame e m s b m1 s1 b1 \<and> buf_apart m1 b1 \<and> advances b b1 \<and>
     length (m1 Stream_Temp) = 1024 \<and>
     (if filled then s1 = s\<lparr>tmp_pos := 0\<rparr> \<and> b_in_pos b < b_in_pos b1
      else s1 = s\<lparr>tmp_pos := tmp_pos s1\<rparr> \<and> tmp_pos s1 < tmp_size s \<and> b_in_pos b1 = b_in_size b \<and> b_in_size b1 = b_in_size b)"
proof -
  have a: "buf_apart m b" "stream_static e m s" using ok by (simp_all add: stream_ok_def)
  then have vb: "valid_buf m b" and sep: "fst (b_in b) \<noteq> Stream_Temp" "fst (b_out b) \<noteq> Stream_Temp" and len: "length (m Stream_Temp) = 1024"
    by (auto simp: buf_apart_def stream_static_def)
  from ok_fill_temp [OF vb sep len tp] obtain filled s1 b1 m1 where f: "fill_temp m s b = Some (filled, s1, b1, m1)"
    and F: "advances b b1" "same_shape m m1" "\<forall>k. k \<noteq> Stream_Temp \<longrightarrow> m1 k = m k"
      "if filled then s1 = s\<lparr>tmp_pos := 0\<rparr> \<and> b_in_pos b < b_in_pos b1
       else s1 = s\<lparr>tmp_pos := tmp_pos s1\<rparr> \<and> tmp_pos s1 < tmp_size s \<and> b_in_pos b1 = b_in_size b"
    unfolding ok_iff split_paired_Ex prod.case by blast
  have s1: "\<exists>p. s1 = s\<lparr>tmp_pos := p\<rparr>" using F(4) by (cases filled) auto
  then have same: "xd_lzma2 s1 = xd_lzma2 s" "xd_bcj s1 = xd_bcj s" "xd_mode s1 = xd_mode s" "allow_buf_error s1 = allow_buf_error s" by auto
  have st: "stream_static e m1 s1" using a(2) F(2,3) same by (simp add: stream_static_def alloc_ok_def same_shape_def)
  have vb1: "valid_buf m1 b1" using advances_valid [OF vb F(1)] F(2) by (simp add: valid_buf_def room_def same_shape_def)
  have fr: "main_frame e m s b m1 s1 b1"
    using F(2,3) buf_frame_advances [OF F(1)] vb1 st same by (auto simp: main_frame_def same_shape_def)
  have "b_in_size b1 = b_in_size b" using F(1) by (cases b; cases b1) (simp add: advances_def)
  then show ?thesis using f fr main_frame_apart [OF fr a(1)] F(1,4) st by (auto simp: stream_static_def)
qed

lemma stream_okI:
  "main_frame e m s b m' s' b' \<Longrightarrow> buf_apart m b \<Longrightarrow> seq_state e m' s' b' \<Longrightarrow> unat (check_type s') < 16 \<or> xd_seq s' = SEQ_STREAM_HEADER \<Longrightarrow> stream_ok e m' s' b'"
  using main_frame_apart [of e m s b m' s' b'] by (simp add: stream_ok_def) (auto simp: main_frame_def)

lemma main_frame_set:
  "main_frame e m s b m' s1 b' \<Longrightarrow> xd_lzma2 s2 = xd_lzma2 s1 \<Longrightarrow> xd_bcj s2 = xd_bcj s1 \<Longrightarrow> xd_mode s2 = xd_mode s1 \<Longrightarrow>
   allow_buf_error s2 = allow_buf_error s1 \<Longrightarrow> main_frame e m s b m' s2 b'"
  by (simp add: main_frame_def stream_static_def)

text \<open>The header is not complete.\<close>

lemma step_wait:
  assumes "main_frame e m s b m1 s1 b1" and ok: "stream_ok e m s b" and s1: "s1 = s\<lparr>tmp_pos := tmp_pos s1\<rparr>" and tp: "tmp_pos s1 < tmp_size s"
    and seq: "xd_seq s \<in> {SEQ_STREAM_HEADER, SEQ_BLOCK_HEADER, SEQ_STREAM_FOOTER}" and used: "b_in_pos b1 = b_in_size b1"
  shows "step_good e m s b (Some XZ_OK, s1, b1, m1)"
proof -
  have f: "xd_seq s1 = xd_seq s" "tmp_size s1 = tmp_size s" "xd_pos s1 = xd_pos s" "check_type s1 = check_type s" by (subst s1, simp)+
  have "seq_state e m1 s1 b1" using ok seq tp f by (auto simp: stream_ok_def seq_state_def)
  then have "stream_ok e m1 s1 b1" using assms(1) ok f by (intro stream_okI [OF assms(1)]) (auto simp: stream_ok_def)
  then show ?thesis using assms(1) used by simp
qed

lemma ok_step_stream_header:
  assumes ok: "stream_ok e m s b" and seq: "xd_seq s = SEQ_STREAM_HEADER" and st: "xd_in_start s \<le> b_in_pos b"
  shows "ok (dec_step e vmalloc m s b) (step_good e m s b)"
proof -
  have tp: "tmp_pos s < tmp_size s" "tmp_size s \<le> 1024" "xd_pos s = 0" using ok seq by (simp_all add: stream_ok_def seq_state_def)
  have ap: "buf_apart m b" using ok by (simp add: stream_ok_def)
  from fill_step [OF ok tp(1,2)] obtain filled s1 b1 m1 where f: "fill_temp m s b = Some (filled, s1, b1, m1)"
    and fr: "main_frame e m s b m1 s1 b1" and adv: "advances b b1" and len: "length (m1 Stream_Temp) = 1024"
    and F: "if filled then s1 = s\<lparr>tmp_pos := 0\<rparr> \<and> b_in_pos b < b_in_pos b1
      else s1 = s\<lparr>tmp_pos := tmp_pos s1\<rparr> \<and> tmp_pos s1 < tmp_size s \<and> b_in_pos b1 = b_in_size b \<and> b_in_size b1 = b_in_size b" by blast
  show ?thesis
  proof (cases filled)
    case False
    then have "step_good e m s b (Some XZ_OK, s1, b1, m1)" using F seq by (intro step_wait [OF fr ok]) auto
    then show ?thesis using f seq False by (simp add: dec_step_def)
  next
    case True
    let ?s2 = "s1\<lparr>xd_seq := SEQ_BLOCK_START\<rparr>"
    from ok_stream_header [of m1 e ?s2, OF len] obtain ret s3 where h: "dec_stream_header e m1 ?s2 = Some (ret, s3)"
      and s3: "s3 = ?s2\<lparr>check_type := check_type s3\<rparr>" and ret: "ret \<in> {XZ_OK, XZ_FORMAT_ERROR, XZ_DATA_ERROR, XZ_OPTIONS_ERROR, XZ_UNSUPPORTED_CHECK}"
      and ct: "ret \<in> {XZ_OK, XZ_UNSUPPORTED_CHECK} \<longrightarrow> unat (check_type s3) < 16"
      unfolding ok_iff split_paired_Ex prod.case by blast
    have s1: "s1 = s\<lparr>tmp_pos := 0\<rparr>" "b_in_pos b < b_in_pos b1" using F True by simp_all
    have f3: "xd_lzma2 s3 = xd_lzma2 s1" "xd_bcj s3 = xd_bcj s1" "xd_mode s3 = xd_mode s1" "allow_buf_error s3 = allow_buf_error s1"
      "xd_seq s3 = SEQ_BLOCK_START" "tmp_pos s3 = 0" "xd_pos s3 = 0" "xd_in_start s3 = xd_in_start s"
      by (subst s3, simp add: s1 tp)+
    have fr3: "main_frame e m s b m1 s3 b1" by (rule main_frame_set [OF fr f3(1-4)])
    have ok3: "ret \<in> {XZ_OK, XZ_UNSUPPORTED_CHECK} \<Longrightarrow> stream_ok e m1 s3 b1"
      using ct f3 by (intro stream_okI [OF fr3 ap]) (simp_all add: seq_state_def)
    have "left s3 b1 < left s b" using s1(2) by (intro left_less [OF adv]) simp
    then have "step_good e m s b (if ret \<noteq> XZ_OK then Some ret else None, s3, b1, m1)"
      using fr3 ok3 ret st s1(2) f3(8) by auto
    then show ?thesis using f h seq True by (simp add: dec_step_def)
  qed
qed

lemma ok_step_footer:
  assumes ok: "stream_ok e m s b" and seq: "xd_seq s = SEQ_STREAM_FOOTER"
  shows "ok (dec_step e vmalloc m s b) (step_good e m s b)"
proof -
  have tp: "tmp_pos s < tmp_size s" "tmp_size s \<le> 1024" "xd_pos s = 0" using ok seq by (simp_all add: stream_ok_def seq_state_def)
  have ap: "buf_apart m b" using ok by (simp add: stream_ok_def)
  from fill_step [OF ok tp(1,2)] obtain filled s1 b1 m1 where f: "fill_temp m s b = Some (filled, s1, b1, m1)"
    and fr: "main_frame e m s b m1 s1 b1" and adv: "advances b b1" and len: "length (m1 Stream_Temp) = 1024"
    and F: "if filled then s1 = s\<lparr>tmp_pos := 0\<rparr> \<and> b_in_pos b < b_in_pos b1
      else s1 = s\<lparr>tmp_pos := tmp_pos s1\<rparr> \<and> tmp_pos s1 < tmp_size s \<and> b_in_pos b1 = b_in_size b \<and> b_in_size b1 = b_in_size b" by blast
  show ?thesis
  proof (cases filled)
    case False
    then have "step_good e m s b (Some XZ_OK, s1, b1, m1)" using F seq by (intro step_wait [OF fr ok]) auto
    then show ?thesis using f seq False by (simp add: dec_step_def)
  next
    case True
    from ok_stream_footer [of m1 e s1, OF len] obtain ret where h: "dec_stream_footer e m1 s1 = Some ret" "ret \<in> {XZ_STREAM_END, XZ_DATA_ERROR}"
      by (auto simp: ok_iff)
    have s1: "s1 = s\<lparr>tmp_pos := 0\<rparr>" "b_in_pos b < b_in_pos b1" using F True by simp_all
    have "stream_ok e m1 s1 b1" using ok seq s1 by (intro stream_okI [OF fr ap]) (auto simp: stream_ok_def seq_state_def)
    then have "step_good e m s b (Some ret, s1, b1, m1)" using fr h(2) s1 tp(3) by auto
    then show ?thesis using f h seq True by (simp add: dec_step_def)
  qed
qed

lemma ok_step_block_header:
  assumes ok: "stream_ok e m s b" and seq: "xd_seq s = SEQ_BLOCK_HEADER" and st: "xd_in_start s \<le> b_in_pos b" and vm: "vmalloc_ok vmalloc"
  shows "ok (dec_step e vmalloc m s b) (step_good e m s b)"
proof -
  have tp: "tmp_pos s < tmp_size s" "tmp_size s \<le> 1024" "8 \<le> tmp_size s" "xd_pos s = 0" "unat (check_type s) < 16"
    using ok seq by (simp_all add: stream_ok_def seq_state_def)
  have ap: "buf_apart m b" using ok by (simp add: stream_ok_def)
  from fill_step [OF ok tp(1,2)] obtain filled s1 b1 m1 where f: "fill_temp m s b = Some (filled, s1, b1, m1)"
    and fr: "main_frame e m s b m1 s1 b1" and ap1: "buf_apart m1 b1" and adv: "advances b b1"
    and F: "if filled then s1 = s\<lparr>tmp_pos := 0\<rparr> \<and> b_in_pos b < b_in_pos b1
      else s1 = s\<lparr>tmp_pos := tmp_pos s1\<rparr> \<and> tmp_pos s1 < tmp_size s \<and> b_in_pos b1 = b_in_size b \<and> b_in_size b1 = b_in_size b" by blast
  show ?thesis
  proof (cases filled)
    case False
    then have "step_good e m s b (Some XZ_OK, s1, b1, m1)" using F seq by (intro step_wait [OF fr ok]) auto
    then show ?thesis using f seq False by (simp add: dec_step_def)
  next
    case True
    have s1: "s1 = s\<lparr>tmp_pos := 0\<rparr>" "b_in_pos b < b_in_pos b1" using F True by simp_all
    have st1: "stream_static e m1 s1" using fr by (simp add: main_frame_def)
    obtain ret s2 m2 where h: "dec_block_header e vmalloc m1 s1 = Some (ret, s2, m2)"
      and H: "ret \<noteq> XZ_OK \<longrightarrow> head_error (Some ret)" "xd_in_start s2 = xd_in_start s1" "check_type s2 = check_type s1"
        "xd_mode s2 = xd_mode s1" "allow_buf_error s2 = allow_buf_error s1" "stream_static e m2 s2" "\<forall>k. k \<noteq> Dict_Block \<longrightarrow> m2 k = m1 k"
        "ret = XZ_OK \<longrightarrow> tmp_pos s2 = 0 \<and> chain_set e m2 s2"
      using ok_block_header [OF st1 _ _ _ vm] tp s1(1) unfolding ok_iff split_paired_Ex prod.case by auto
    have vb2: "valid_buf m2 b1" using ap1 H(7) by (auto simp: buf_apart_def valid_buf_def room_def)
    have fr2: "main_frame e m s b m2 s2 b1" using fr H vb2 by (auto simp: main_frame_def)
    let ?s3 = "s2\<lparr>xd_seq := SEQ_BLOCK_UNCOMPRESS\<rparr>"
    have fr3: "main_frame e m s b m2 ?s3 b1" by (rule main_frame_set [OF fr2]) simp_all
    have ok3: "stream_ok e m2 ?s3 b1" if ret: "ret = XZ_OK"
    proof (rule stream_okI [OF fr3 ap])
      have c: "chain_set e m2 s2" "tmp_pos s2 = 0" using H(8) ret by simp_all
      have "temp_sep m2 b1" using H(6) ap1 by (auto simp: temp_sep_def stream_static_def buf_apart_def)
      then have l: "lzma2_ok m2 (xd_lzma2 s2) b1" using c(1) vb2 ap1 by (auto simp: chain_set_def buf_apart_def)
      have "filter_ready e m2 s2 b1"
      proof (cases "XZ_DEC_BCJ e \<and> bcj_active s2")
        case True
        then obtain c i where "xz_dec_bcj_reset e c i = (XZ_OK, xd_bcj s2)" "bcj_single_call c = DEC_IS_SINGLE (xd_mode s2)"
          using c(1) by (auto simp: chain_set_def bcj_set_def)
        then have "bcj_ok lzma2_ok lzma2_multi e m2 (xd_bcj s2) (xd_lzma2 s2) b1"
          using H(6) ap1 l by (intro bcj_reset_ok(1)) (auto simp: stream_static_def buf_apart_def mode_defs)
        then show ?thesis using True by (simp add: filter_ready_def)
      qed (auto simp: filter_ready_def l)
      then show "seq_state e m2 ?s3 b1" using c by (simp add: seq_state_def filter_ready_def chain_set_def bcj_set_def)
      show "unat (check_type ?s3) < 16 \<or> xd_seq ?s3 = SEQ_STREAM_HEADER" using H(3) s1(1) tp(5) by simp
    qed
    have "left ?s3 b1 < left s b" using s1(2) by (intro left_less [OF adv]) simp
    then have "step_good e m s b (if ret \<noteq> XZ_OK then (Some ret, s2, b1, m2) else (None, ?s3, b1, m2))"
      using fr2 fr3 ok3 H(1,2) st s1 by (auto simp: head_error_def)
    then show ?thesis using f h seq True by (cases "ret = XZ_OK") (simp_all add: dec_step_def)
  qed
qed

lemma keeps_step [simp]:
  "keeps s s' \<Longrightarrow> keeps (s\<lparr>xd_seq := q, xd_in_start := xd_in_start s, tmp_pos := tmp_pos s, tmp_size := tmp_size s\<rparr>) (s'\<lparr>xd_seq := q\<rparr>)"
  "keeps s s' \<Longrightarrow> keeps (s\<lparr>xd_seq := xd_seq s, xd_in_start := xd_in_start s, tmp_pos := tmp_pos s, tmp_size := tmp_size s\<rparr>) s'"
  by (simp_all add: keeps_def)

lemma ok_step_block_start:
  assumes ok: "stream_ok e m s b" and seq: "xd_seq s = SEQ_BLOCK_START" and st: "xd_in_start s \<le> b_in_pos b"
  shows "ok (dec_step e vmalloc m s b) (step_good e m s b)"
proof -
  have vb: "valid_buf m b" and z: "tmp_pos s = 0" "xd_pos s = 0" using ok seq by (simp_all add: stream_ok_def buf_apart_def seq_state_def)
  show ?thesis
  proof (cases "b_in_pos b = b_in_size b")
    case True
    then show ?thesis
      using step_read [OF ok, where b' = b and q = "xd_seq s" and i = "xd_in_start s" and p = "tmp_pos s" and n = "tmp_size s" and s' = s and r = "Some XZ_OK"] ok seq vb
      by (simp add: dec_step_def block_start_def stream_ok_def keeps_def del: step_good.simps)
  next
    case False
    obtain c where c: "in_byte m b = Some c" "valid_buf m (b\<lparr>b_in_pos := Suc (b_in_pos b)\<rparr>)" "sz_add (b_in_pos b) (Suc 0) = Suc (b_in_pos b)" "b_in_pos b < b_in_size b"
      using input_next [OF vb False] by metis
    show ?thesis
    proof (cases "c = 0")
      case True
      let ?s = "s\<lparr>xd_in_start := b_in_pos b, xd_seq := SEQ_INDEX\<rparr>" and ?b = "b\<lparr>b_in_pos := Suc (b_in_pos b)\<rparr>"
      have "vli_partial [] ?s" using z by (simp add: vli_partial_def)
      then have "seq_state e m ?s ?b" using z by (auto simp: seq_state_def)
      then have "step_good e m s b (None, ?s, ?b, m)"
        using c(4) seq by (intro step_read [OF ok, where q = SEQ_INDEX and i = "b_in_pos b" and p = "tmp_pos s" and n = "tmp_size s"]) (auto simp: keeps_def)
      then show ?thesis using False c True seq by (simp add: dec_step_def block_start_def del: step_good.simps)
    next
      case ne: False
      let ?n = "(unat c + 1) * 4"
      let ?s = "s\<lparr>bh_size := ?n, tmp_size := ?n, tmp_pos := 0, xd_seq := SEQ_BLOCK_HEADER\<rparr>"
      have "unat c \<noteq> 0" "unat c < 256" using ne by (simp_all add: unat_eq_zero)
      then have "seq_state e m ?s b" using z by (simp add: seq_state_def)
      then have "step_good e m s b (None, ?s, b, m)"
        using st seq vb by (intro step_read [OF ok, where q = SEQ_BLOCK_HEADER and i = "xd_in_start s" and p = 0 and n = ?n]) (auto simp: keeps_def seq_rank_def)
      then show ?thesis using False c ne seq by (simp add: dec_step_def block_start_def Let_def del: step_good.simps)
    qed
  qed
qed

lemma ok_step_uncompress:
  assumes ok: "stream_ok e m s b" and seq: "xd_seq s = SEQ_BLOCK_UNCOMPRESS"
  shows "ok (dec_step e vmalloc m s b) (step_good e m s b)"
proof -
  have a: "stream_static e m s" "filter_ready e m s b" "unat (check_type s) < 16" "valid_buf m b" "buf_apart m b" "tmp_pos s = 0" "xd_pos s = 0"
    using ok seq by (simp_all add: stream_ok_def seq_state_def buf_apart_def)
  from ok_dec_block [OF a(1-4)] obtain ret s1 b1 m1 where d: "dec_block e m s b = Some (ret, s1, b1, m1)"
    and D: "xd_seq s1 = xd_seq s" "check_type s1 = check_type s" "xd_mode s1 = xd_mode s" "allow_buf_error s1 = allow_buf_error s"
      "tmp_pos s1 = tmp_pos s" "xd_pos s1 = xd_pos s" "xd_in_start s1 \<le> b_in_pos b1" "stream_static e m1 s1"
      "same_shape m m1" "buf_frame b b1" "valid_buf m1 b1" "\<forall>k. k \<notin> stream_own \<and> k \<noteq> fst (b_out b) \<longrightarrow> m1 k = m k"
      "ret \<in> {XZ_OK, XZ_STREAM_END, XZ_DATA_ERROR}"
      "ret = XZ_OK \<longrightarrow> filter_ready e m1 s1 b1 \<and> (b_in_pos b1 = b_in_size b1 \<or> b_out_pos b1 = b_out_size b1)"
    unfolding ok_iff split_paired_Ex prod.case by blast
  have fr: "main_frame e m s b m1 s1 b1" using D by (simp add: main_frame_def same_shape_def)
  let ?s2 = "s1\<lparr>xd_seq := SEQ_BLOCK_PADDING\<rparr>"
  have fr2: "main_frame e m s b m1 ?s2 b1" by (rule main_frame_set [OF fr]) simp_all
  have ok2: "stream_ok e m1 ?s2 b1" using D a by (intro stream_okI [OF fr2 a(5)]) (simp_all add: seq_state_def)
  have "b_in_size b1 - b_in_pos b1 \<le> b_in_size b - b_in_pos b" using D(10) by (cases b; cases b1) (auto simp: buf_frame_def)
  then have less: "left ?s2 b1 < left s b" using seq by (simp add: left_def seq_rank_def)
  show ?thesis
  proof (cases "ret = XZ_STREAM_END")
    case True
    then have "step_good e m s b (None, ?s2, b1, m1)" using fr2 ok2 less D(7) by simp
    then show ?thesis using d seq True by (simp add: dec_step_def del: step_good.simps)
  next
    case False
    have "ret = XZ_OK \<Longrightarrow> stream_ok e m1 s1 b1" using D seq a by (intro stream_okI [OF fr a(5)]) (simp_all add: seq_state_def)
    then have "step_good e m s b (Some ret, s1, b1, m1)" using fr D(13,14) False by auto
    then show ?thesis using d seq False by (simp add: dec_step_def del: step_good.simps)
  qed
qed

text \<open>The other states only read input. Their steps have the same shape: a function for the
  field, and on its end the next state.\<close>

lemma field_step:
  assumes ok: "stream_ok e m s b" and seq: "xd_seq s \<noteq> SEQ_STREAM_HEADER" and st: "xd_in_start s \<le> b_in_pos b"
    and k: "keeps s s1" and adv: "advances b b1"
    and go: "r = Some XZ_OK \<Longrightarrow> b_in_pos b1 = b_in_size b \<and> seq_state e m s1 b1"
    and fin: "r = None \<Longrightarrow> seq_state e m s2 b1 \<and> keeps (s1\<lparr>xd_seq := q, tmp_size := n\<rparr>) s2 \<and> (seq_rank q < seq_rank (xd_seq s) \<or> b_in_pos b < b_in_pos b1)"
    and r: "r \<in> {None, Some XZ_OK, Some XZ_DATA_ERROR}"
  shows "step_good e m s b (r, if r = None then s2 else s1, b1, m)"
proof (cases "r = None")
  case True
  have "b_in_pos b \<le> b_in_pos b1" using adv by (simp add: advances_def)
  then have "step_good e m s b (None, s2, b1, m)"
    using fin [OF True] k seq st
    by (intro step_read [OF ok adv, where q = q and i = "xd_in_start s" and p = "tmp_pos s" and n = n]) (auto simp: keeps_def)
  then show ?thesis by (simp add: True del: step_good.simps)
next
  case False
  show ?thesis
  proof (cases "r = Some XZ_OK")
    case True
    then have "step_good e m s b (Some XZ_OK, s1, b1, m)"
      using go k seq by (intro step_read [OF ok adv, where q = "xd_seq s" and i = "xd_in_start s" and p = "tmp_pos s" and n = "tmp_size s"]) auto
    then show ?thesis by (simp add: True del: step_good.simps)
  next
    case F: False
    then have e: "r = Some XZ_DATA_ERROR" using r False by blast
    have "step_good e m s b (Some XZ_DATA_ERROR, s1, b1, m)" by (rule step_error [OF ok adv keeps_step(2) [OF k]])
    then show ?thesis by (simp add: e del: step_good.simps)
  qed
qed

lemma ok_step_padding:
  assumes ok: "stream_ok e m s b" and seq: "xd_seq s = SEQ_BLOCK_PADDING" and st: "xd_in_start s \<le> b_in_pos b"
  shows "ok (dec_step e vmalloc m s b) (step_good e m s b)"
proof -
  have vb: "valid_buf m b" and z: "tmp_pos s = 0" "xd_pos s = 0" using ok seq by (simp_all add: stream_ok_def buf_apart_def seq_state_def)
  from ok_block_padding [OF vb, of s] obtain r s1 b1 where p: "block_padding m s b = Some (r, s1, b1)" and P: "keeps s s1" "xd_pos s1 = xd_pos s" "advances b b1"
    "r \<in> {None, Some XZ_OK, Some XZ_DATA_ERROR}" "r = Some XZ_OK \<longrightarrow> b_in_pos b1 = b_in_size b" unfolding ok_iff split_paired_Ex prod.case by blast
  let ?s2 = "s1\<lparr>xd_seq := SEQ_BLOCK_CHECK\<rparr>"
  have "check_pos e ?s2" using P(2) z by (simp add: check_pos_def)
  then have "step_good e m s b (r, if r = None then ?s2 else s1, b1, m)"
    using P z seq st by (intro field_step [OF ok, where q = SEQ_BLOCK_CHECK and n = "tmp_size s"]) (auto simp: seq_state_def keeps_def seq_rank_def)
  then show ?thesis using p seq by (simp add: dec_step_def del: step_good.simps)
qed

lemma ok_block_check:
  assumes vb: "valid_buf m b" and cp: "check_pos e s" and ct: "unat (check_type s) < 16"
  shows "ok (block_check e m s b) (\<lambda>(ret, s', b'). keeps s s' \<and> advances b b' \<and> ret \<in> {XZ_OK, XZ_STREAM_END, XZ_DATA_ERROR} \<and>
     (ret = XZ_STREAM_END \<longrightarrow> xd_pos s' = 0) \<and>
     (ret = XZ_OK \<longrightarrow> b_in_pos b' = b_in_size b \<and> check_pos e s'))"
proof (cases "check_type s = XZ_CHECK_CRC32")
  case True
  then obtain k where k: "xd_pos s = 8 * k" "8 * k < 32" using cp by (auto simp: check_pos_def)
  show ?thesis
    unfolding block_check_def if_P [OF True] by (rule ok_mono [OF ok_crc_validate [OF vb _ k]]) (use True in \<open>auto simp: check_pos_def keeps_def\<close>)
next
  case no32: False
  show ?thesis
  proof (cases "IS_CRC64 e (check_type s)")
    case True
    then obtain k where k: "xd_pos s = 8 * k" "8 * k < 64" using cp no32 by (auto simp: check_pos_def)
    show ?thesis
      unfolding block_check_def if_not_P [OF no32] if_P [OF True]
      by (rule ok_mono [OF ok_crc_validate [OF vb _ k]]) (use True no32 in \<open>auto simp: check_pos_def keeps_def\<close>)
  next
    case no64: False
    then have "xd_pos s \<le> 64" using cp no32 by (auto simp: check_pos_def split: if_splits)
    note sk = ok_check_skip [OF vb ct this]
    show ?thesis
    proof (cases "XZ_DEC_ANY_CHECK e")
      case True
      obtain skipped s1 b1 where "check_skip s b = Some (skipped, s1, b1)" "keeps s s1" "advances b b1" "skipped \<longrightarrow> xd_pos s1 = 0"
        "\<not> skipped \<longrightarrow> b_in_pos b1 = b_in_size b \<and> xd_pos s1 \<le> 64" using sk unfolding ok_iff split_paired_Ex prod.case by blast
      then show ?thesis using no32 no64 True by (auto simp: block_check_def check_pos_def keeps_def)
    next
      case False
      then show ?thesis using no32 no64 vb cp by (simp add: block_check_def check_pos_def)
    qed
  qed
qed

lemma ok_step_check:
  assumes ok: "stream_ok e m s b" and seq: "xd_seq s = SEQ_BLOCK_CHECK" and st: "xd_in_start s \<le> b_in_pos b"
  shows "ok (dec_step e vmalloc m s b) (step_good e m s b)"
proof -
  have vb: "valid_buf m b" and z: "tmp_pos s = 0" and cp: "check_pos e s" and ct: "unat (check_type s) < 16"
    using ok seq by (simp_all add: stream_ok_def buf_apart_def seq_state_def)
  from ok_block_check [OF vb cp ct] obtain ret s1 b1 where p: "block_check e m s b = Some (ret, s1, b1)" and P: "keeps s s1" "advances b b1"
    "ret \<in> {XZ_OK, XZ_STREAM_END, XZ_DATA_ERROR}" "ret = XZ_STREAM_END \<longrightarrow> xd_pos s1 = 0" "ret = XZ_OK \<longrightarrow> b_in_pos b1 = b_in_size b \<and> check_pos e s1"
    unfolding ok_iff split_paired_Ex prod.case by blast
  let ?s2 = "s1\<lparr>xd_seq := SEQ_BLOCK_START\<rparr>" and ?r = "if ret = XZ_STREAM_END then None else Some ret"
  have "step_good e m s b (?r, if ?r = None then ?s2 else s1, b1, m)"
    using P z seq st by (intro field_step [OF ok, where q = SEQ_BLOCK_START and n = "tmp_size s"]) (auto simp: seq_state_def keeps_def seq_rank_def split: if_splits)
  then show ?thesis using p seq by (cases "ret = XZ_STREAM_END") (simp_all add: dec_step_def del: step_good.simps)
qed

lemma ok_step_index:
  assumes ok: "stream_ok e m s b" and seq: "xd_seq s = SEQ_INDEX" and st: "xd_in_start s \<le> b_in_pos b"
  shows "ok (dec_step e vmalloc m s b) (step_good e m s b)"
proof -
  obtain ds where vb: "valid_buf m b" and z: "tmp_pos s = 0" and ds: "vli_partial ds s"
    using ok seq by (auto simp: stream_ok_def buf_apart_def seq_state_def)
  from ok_dec_index [OF vb st ds, of e] obtain ret s1 b1 where p: "dec_index e m s b = Some (ret, s1, b1)" and P: "keeps s s1" "advances b b1"
    "ret \<in> {XZ_OK, XZ_STREAM_END, XZ_DATA_ERROR}" "ret = XZ_STREAM_END \<longrightarrow> xd_pos s1 = 0" "ret = XZ_OK \<longrightarrow> b_in_pos b1 = b_in_size b \<and> (\<exists>ds'. vli_partial ds' s1)"
    unfolding ok_iff split_paired_Ex prod.case by blast
  let ?s2 = "s1\<lparr>xd_seq := SEQ_INDEX_PADDING\<rparr>" and ?r = "if ret = XZ_STREAM_END then None else Some ret"
  have "step_good e m s b (?r, if ?r = None then ?s2 else s1, b1, m)"
    using P z seq st by (intro field_step [OF ok, where q = SEQ_INDEX_PADDING and n = "tmp_size s"]) (auto simp: seq_state_def keeps_def seq_rank_def split: if_splits)
  then show ?thesis using p seq by (cases "ret = XZ_STREAM_END") (simp_all add: dec_step_def del: step_good.simps)
qed

lemma ok_step_index_padding:
  assumes ok: "stream_ok e m s b" and seq: "xd_seq s = SEQ_INDEX_PADDING" and st: "xd_in_start s \<le> b_in_pos b"
  shows "ok (dec_step e vmalloc m s b) (step_good e m s b)"
proof -
  have vb: "valid_buf m b" and z: "tmp_pos s = 0" "xd_pos s = 0" using ok seq by (simp_all add: stream_ok_def buf_apart_def seq_state_def)
  from ok_index_padding [OF vb st, of e] obtain r s1 b1 where p: "index_padding e m s b = Some (r, s1, b1)" and P: "keeps s s1" "xd_pos s1 = xd_pos s" "advances b b1"
    "r \<in> {None, Some XZ_OK, Some XZ_DATA_ERROR}" "r = Some XZ_OK \<longrightarrow> b_in_pos b1 = b_in_size b" unfolding ok_iff split_paired_Ex prod.case by blast
  have vb1: "valid_buf m b1" and st1: "xd_in_start s1 \<le> b_in_pos b1" using advances_valid [OF vb P(3)] st P(1,3) by (auto simp: keeps_def advances_def)
  from ok_index_update [OF vb1 st1, of e] obtain s2 where u: "index_update e m s1 b1 = Some s2" and s2: "s2 = s1\<lparr>idx_size := idx_size s2, xd_crc := xd_crc s2\<rparr>"
    by (auto simp: ok_iff)
  have k2: "keeps s1 s2" "xd_pos s2 = xd_pos s1" by (subst s2, simp)+
  have k: "keeps s s2" by (rule keeps_trans [OF P(1) k2(1)])
  let ?bad = "hash_bytes (blk_hash s2) \<noteq> hash_bytes (idx_hash s2)" and ?s3 = "s2\<lparr>xd_seq := SEQ_INDEX_CRC32\<rparr>"
  show ?thesis
  proof (cases "r = None")
    case False
    have "step_good e m s b (r, if r = None then s2 else s1, b1, m)"
      using P z seq st False by (intro field_step [OF ok]) (auto simp: seq_state_def keeps_def)
    then show ?thesis using p seq False by (simp add: dec_step_def del: step_good.simps)
  next
    case True
    let ?r = "if ?bad then Some XZ_DATA_ERROR else None"
    have "step_good e m s b (?r, if ?r = None then ?s3 else s2, b1, m)"
      using P(3) k k2(2) P(2) z seq st
      by (intro field_step [OF ok, where q = SEQ_INDEX_CRC32 and n = "tmp_size s"]) (auto simp: seq_state_def keeps_def seq_rank_def split: if_splits intro: exI [of _ 0])
    then show ?thesis using p u seq True by (cases ?bad) (simp_all add: dec_step_def del: step_good.simps)
  qed
qed

lemma ok_step_index_crc:
  assumes ok: "stream_ok e m s b" and seq: "xd_seq s = SEQ_INDEX_CRC32" and st: "xd_in_start s \<le> b_in_pos b"
  shows "ok (dec_step e vmalloc m s b) (step_good e m s b)"
proof -
  obtain k where vb: "valid_buf m b" and z: "tmp_pos s = 0" and k: "xd_pos s = 8 * k" "8 * k < 32"
    using ok seq by (auto simp: stream_ok_def buf_apart_def seq_state_def)
  from ok_crc_validate [OF vb _ k] obtain ret s1 b1 where p: "crc_validate m s b 32 = Some (ret, s1, b1)" and P: "keeps s s1" "advances b b1"
    "ret \<in> {XZ_OK, XZ_STREAM_END, XZ_DATA_ERROR}" "ret = XZ_STREAM_END \<longrightarrow> xd_pos s1 = 0"
    "ret = XZ_OK \<longrightarrow> b_in_pos b1 = b_in_size b \<and> (\<exists>k'. xd_pos s1 = 8 * k' \<and> 8 * k' < 32)" by (auto simp: ok_iff)
  let ?s2 = "s1\<lparr>tmp_size := STREAM_HEADER_SIZE, xd_seq := SEQ_STREAM_FOOTER\<rparr>" and ?r = "if ret = XZ_STREAM_END then None else Some ret"
  have "step_good e m s b (?r, if ?r = None then ?s2 else s1, b1, m)"
    using P z seq st by (intro field_step [OF ok, where q = SEQ_STREAM_FOOTER and n = STREAM_HEADER_SIZE])
      (auto simp: seq_state_def keeps_def seq_rank_def STREAM_HEADER_SIZE_def split: if_splits)
  then show ?thesis using p seq by (cases "ret = XZ_STREAM_END") (simp_all add: dec_step_def del: step_good.simps)
qed

lemma ok_dec_step:
  assumes "stream_ok e m s b" and "xd_in_start s \<le> b_in_pos b" and "vmalloc_ok vmalloc"
  shows "ok (dec_step e vmalloc m s b) (step_good e m s b)"
proof (cases "xd_seq s")
  case SEQ_STREAM_PADDING
  then show ?thesis using assms(1) by (simp add: stream_ok_def seq_state_def)
qed (use assms in \<open>blast intro: ok_step_stream_header ok_step_block_start ok_step_block_header ok_step_uncompress ok_step_padding
    ok_step_check ok_step_index ok_step_index_padding ok_step_index_crc ok_step_footer\<close>)+

fun main_good :: "xz_env \<Rightarrow> mem \<Rightarrow> xz_dec \<Rightarrow> xz_buf \<Rightarrow> dec_result \<Rightarrow> bool" where
  "main_good e m s b (ret, s', b', m') \<longleftrightarrow> step_good e m s b (Some ret, s', b', m')"

lemma ok_dec_loop:
  assumes "stream_ok e m s b" and "xd_in_start s \<le> b_in_pos b" and "vmalloc_ok vmalloc"
  shows "ok (dec_loop e vmalloc m s b) (main_good e m s b)"
  using assms
proof (induction "left s b" arbitrary: m s b rule: less_induct)
  case less
  from ok_dec_step [OF less.prems] obtain r s1 b1 m1 where d: "dec_step e vmalloc m s b = Some (r, s1, b1, m1)" and D: "step_good e m s b (r, s1, b1, m1)"
    unfolding ok_iff split_paired_Ex by blast
  show ?case
  proof (cases r)
    case (Some ret)
    then show ?thesis using d D by (subst dec_loop.simps) simp
  next
    case None
    have fr: "main_frame e m s b m1 s1 b1" and l: "left s1 b1 < left s b" and ok1: "stream_ok e m1 s1 b1" "xd_in_start s1 \<le> b_in_pos b1"
      using D None by simp_all
    from less.hyps [OF l ok1 less.prems(3)] obtain ret s2 b2 m2 where r: "dec_loop e vmalloc m1 s1 b1 = Some (ret, s2, b2, m2)"
      and R: "main_good e m1 s1 b1 (ret, s2, b2, m2)" unfolding ok_iff split_paired_Ex by blast
    have "b_in_pos b \<le> b_in_pos b1" using fr by (simp add: main_frame_def buf_frame_def)
    then have "main_good e m s b (ret, s2, b2, m2)" using R main_frame_trans [OF fr, of m2 s2 b2] by auto
    then show ?thesis using d r None by (subst dec_loop.simps) (simp del: main_good.simps)
  qed
qed

lemma stream_ok_in_start: "stream_ok e m (s\<lparr>xd_in_start := i\<rparr>) b = stream_ok e m s b"
proof -
  have "vli_partial ds (s\<lparr>xd_in_start := i\<rparr>) = vli_partial ds s" for ds by (simp add: vli_partial_def)
  then show ?thesis
    by (cases "xd_seq s") (simp_all add: stream_ok_def seq_state_def stream_static_def filter_ready_def check_pos_def)
qed

lemma ok_dec_main:
  assumes "stream_ok e m s b" and "vmalloc_ok vmalloc"
  shows "ok (dec_main e vmalloc m s b) (main_good e m s b)"
proof -
  have "ok (dec_main e vmalloc m s b) (main_good e m (s\<lparr>xd_in_start := b_in_pos b\<rparr>) b)"
    unfolding dec_main_def using assms stream_ok_in_start by (intro ok_dec_loop) auto
  then show ?thesis by (auto simp: main_frame_def elim!: ok_mono)
qed

section \<open>The calls\<close>

lemma ok_reset: "stream_static e m s \<Longrightarrow> buf_apart m b \<Longrightarrow> stream_ok e m (xz_dec_reset s) b"
  by (simp add: stream_ok_def xz_dec_reset_def seq_state_def stream_static_def STREAM_HEADER_SIZE_def)

lemma reset_fields [simp]: "xd_mode (xz_dec_reset s) = xd_mode s" "xd_lzma2 (xz_dec_reset s) = xd_lzma2 s" "xd_bcj (xz_dec_reset s) = xd_bcj s"
  by (simp_all add: xz_dec_reset_def)

lemma stream_ok_buf_error: "stream_ok e m (s\<lparr>allow_buf_error := a\<rparr>) b = stream_ok e m s b"
proof -
  have "vli_partial ds (s\<lparr>allow_buf_error := a\<rparr>) = vli_partial ds s" for ds by (simp add: vli_partial_def)
  then show ?thesis
    by (cases "xd_seq s") (simp_all add: stream_ok_def seq_state_def stream_static_def filter_ready_def check_pos_def)
qed

text \<open>Before a call: in single-call mode the state does not matter.\<close>

definition run_ready :: "xz_env \<Rightarrow> mem \<Rightarrow> xz_dec \<Rightarrow> xz_buf \<Rightarrow> bool" where
  "run_ready e m s b \<longleftrightarrow> (if DEC_IS_SINGLE (xd_mode s) then buf_apart m b \<and> stream_static e m s else stream_ok e m s b)"

text \<open>What every call keeps, whatever it returns.\<close>

definition call_frame :: "xz_env \<Rightarrow> mem \<Rightarrow> xz_dec \<Rightarrow> xz_buf \<Rightarrow> mem \<Rightarrow> xz_dec \<Rightarrow> xz_buf \<Rightarrow> bool" where
  "call_frame e m s b m' s' b' \<longleftrightarrow> (\<forall>k. k \<notin> stream_own \<and> k \<noteq> fst (b_out b) \<longrightarrow> m' k = m k) \<and>
     (\<forall>k. k \<noteq> Dict_Block \<longrightarrow> length (m' k) = length (m k)) \<and> b' = b\<lparr>b_in_pos := b_in_pos b', b_out_pos := b_out_pos b'\<rparr> \<and>
     b_in_pos b \<le> b_in_pos b' \<and> b_in_pos b' \<le> b_in_size b \<and> b_out_pos b \<le> b_out_pos b' \<and> b_out_pos b' \<le> b_out_size b \<and>
     stream_static e m' s' \<and> xd_mode s' = xd_mode s"

lemma main_call_frame: "main_frame e m s b m' s' b' \<Longrightarrow> call_frame e m s b m' s' b'"
  by (cases b; cases b') (auto simp: main_frame_def call_frame_def buf_frame_def valid_buf_def)

lemma call_frame_trans: "call_frame e m s b m1 s1 b1 \<Longrightarrow> call_frame e m1 s1 b1 m2 s2 b2 \<Longrightarrow> call_frame e m s b m2 s2 b2"
  by (cases b; cases b1; cases b2) (auto simp: call_frame_def)

lemma call_frame_apart: "call_frame e m s b m' s' b' \<Longrightarrow> buf_apart m b \<Longrightarrow> buf_apart m' b'"
  by (cases b; cases b') (auto simp: call_frame_def buf_apart_def valid_buf_def room_def)

text \<open>And what follows from the value it returns.\<close>

fun run_good :: "xz_env \<Rightarrow> mem \<Rightarrow> xz_dec \<Rightarrow> xz_buf \<Rightarrow> dec_result \<Rightarrow> bool" where
  "run_good e m s b (ret, s', b', m') \<longleftrightarrow> call_frame e m s b m' s' b' \<and>
     (if DEC_IS_SINGLE (xd_mode s)
      then ret \<noteq> XZ_OK \<and> (ret = XZ_STREAM_END \<longrightarrow> b_in_pos b < b_in_pos b' \<and> xd_pos s' = 0) \<and> (ret \<noteq> XZ_STREAM_END \<longrightarrow> b' = b)
      else (ret \<in> {XZ_OK, XZ_STREAM_END, XZ_UNSUPPORTED_CHECK, XZ_BUF_ERROR} \<longrightarrow> stream_ok e m' s' b') \<and>
        (ret = XZ_OK \<longrightarrow> b_in_pos b' = b_in_size b' \<or> b_out_pos b' = b_out_size b') \<and>
        (ret = XZ_STREAM_END \<longrightarrow> b_in_pos b < b_in_pos b' \<and> xd_pos s' = 0) \<and>
        (ret = XZ_BUF_ERROR \<longrightarrow> allow_buf_error s) \<and>
        (ret \<in> {XZ_OK, XZ_BUF_ERROR} \<longrightarrow> allow_buf_error s' = (b_in_pos b' = b_in_pos b \<and> b_out_pos b' = b_out_pos b)) \<and>
        (ret = XZ_OK \<and> allow_buf_error s' \<longrightarrow> \<not> allow_buf_error s))"

lemma ok_xz_dec_run:
  assumes rdy: "run_ready e m s b" and vm: "vmalloc_ok vmalloc"
  shows "ok (xz_dec_run e vmalloc m s b) (run_good e m s b)"
proof (cases "DEC_IS_SINGLE (xd_mode s)")
  case True
  have a: "buf_apart m b" "stream_static e m s" using rdy True by (simp_all add: run_ready_def)
  from ok_dec_main [OF ok_reset [OF a(2,1)] vm] obtain ret s1 b1 m1 where d: "dec_main e vmalloc m (xz_dec_reset s) b = Some (ret, s1, b1, m1)"
    and D: "main_good e m (xz_dec_reset s) b (ret, s1, b1, m1)" unfolding ok_iff split_paired_Ex by blast
  have fr: "main_frame e m (xz_dec_reset s) b m1 s1 b1" using D by simp
  then have cf: "call_frame e m s b m1 s1 b1" using main_call_frame [OF fr] by (simp add: call_frame_def)
  have mode: "xd_mode s1 = xd_mode s" using cf by (simp add: call_frame_def)
  have eq: "b1\<lparr>b_in_pos := b_in_pos b, b_out_pos := b_out_pos b\<rparr> = b" using cf by (cases b; cases b1) (simp add: call_frame_def)
  have "valid_buf m b" using a(1) by (simp add: buf_apart_def)
  then have cf0: "call_frame e m s b m1 s1 b" using cf by (simp add: call_frame_def valid_buf_def)
  show ?thesis
    using d D True mode cf cf0 eq by (simp add: xz_dec_run_def Let_def)
next
  case False
  have ok: "stream_ok e m s b" using rdy False by (simp add: run_ready_def)
  from ok_dec_main [OF ok vm] obtain ret s1 b1 m1 where d: "dec_main e vmalloc m s b = Some (ret, s1, b1, m1)"
    and D: "main_good e m s b (ret, s1, b1, m1)" unfolding ok_iff split_paired_Ex by blast
  have fr: "main_frame e m s b m1 s1 b1" using D by simp
  then have cf: "call_frame e m s b m1 s1 b1" by (rule main_call_frame)
  have mode: "xd_mode s1 = xd_mode s" "allow_buf_error s1 = allow_buf_error s" using fr by (simp_all add: main_frame_def)
  have cfa: "call_frame e m s b m1 (s1\<lparr>allow_buf_error := x\<rparr>) b1" for x using cf by (simp add: call_frame_def stream_static_def)
  have D': "ret \<noteq> XZ_BUF_ERROR" "ret \<in> {XZ_OK, XZ_STREAM_END, XZ_UNSUPPORTED_CHECK} \<Longrightarrow> stream_ok e m1 s1 b1"
    "ret = XZ_OK \<Longrightarrow> b_in_pos b1 = b_in_size b1 \<or> b_out_pos b1 = b_out_size b1" "ret = XZ_STREAM_END \<Longrightarrow> b_in_pos b < b_in_pos b1 \<and> xd_pos s1 = 0"
    using D by simp_all
  show ?thesis
  proof (cases "ret = XZ_OK \<and> b_in_pos b = b_in_pos b1 \<and> b_out_pos b = b_out_pos b1")
    case True
    then show ?thesis using d False mode cfa D' by (auto simp: xz_dec_run_def Let_def stream_ok_buf_error)
  next
    case F: False
    then show ?thesis using d False mode cfa D' by (auto simp: xz_dec_run_def Let_def stream_ok_buf_error)
  qed
qed
text \<open>Between two calls in multi-call mode the caller may change its own memory and pass other
  buffers.\<close>

lemma stream_ok_move:
  assumes ok: "stream_ok e m s b" and multi: "DEC_IS_MULTI (xd_mode s)" and own: "\<forall>k\<in>stream_own. m1 k = m k" and ap: "buf_apart m1 b1"
  shows "stream_ok e m1 s b1"
proof -
  have st: "stream_static e m s" using ok by (simp add: stream_ok_def)
  then have lm: "lzma2_multi (xd_lzma2 s)" using multi by (simp add: stream_static_def)
  have st1: "stream_static e m1 s" using st own by (simp add: stream_static_def alloc_ok_def)
  have "filter_ready e m1 s b1" if "filter_ready e m s b"
  proof (cases "XZ_DEC_BCJ e \<and> bcj_active s")
    case True
    then have "bcj_ok lzma2_ok lzma2_multi e m (xd_bcj s) (xd_lzma2 s) b" using that by (simp add: filter_ready_def)
    then have "bcj_ok lzma2_ok lzma2_multi e m1 (xd_bcj s) (xd_lzma2 s) b1"
      by (rule bcj_ok_move) (use lm own ap in \<open>auto simp: buf_apart_def\<close>)
    then show ?thesis using True by (simp add: filter_ready_def)
  next
    case False
    then have "lzma2_ok m (xd_lzma2 s) b" using that by (auto simp: filter_ready_def)
    then have "lzma2_ok m1 (xd_lzma2 s) b1"
      by (rule lzma2.ready_move) (use lm own ap in \<open>auto simp: buf_apart_def\<close>)
    then show ?thesis using False by (auto simp: filter_ready_def)
  qed
  then show ?thesis using ok st1 ap by (cases "xd_seq s") (simp_all add: stream_ok_def seq_state_def)
qed

text \<open>Calls in multi-call mode that all return \<open>XZ_OK\<close>, with any buffers: how many, and how
  many bytes they have read and written together.\<close>

inductive ok_calls ::
  "xz_env \<Rightarrow> (nat \<Rightarrow> u8 list option) \<Rightarrow> mem \<times> xz_dec \<Rightarrow> nat \<Rightarrow> nat \<Rightarrow> mem \<times> xz_dec \<Rightarrow> bool" for e vmalloc st where
  calls_none: "ok_calls e vmalloc st 0 0 st"
| calls_more: "ok_calls e vmalloc st n p (m, s) \<Longrightarrow> \<forall>k\<in>stream_own. m1 k = m k \<Longrightarrow> buf_apart m1 b \<Longrightarrow>
    xz_dec_run e vmalloc m1 s b = Some (XZ_OK, s', b', m') \<Longrightarrow>
    ok_calls e vmalloc st (Suc n) (p + (b_in_pos b' - b_in_pos b) + (b_out_pos b' - b_out_pos b)) (m', s')"

lemma ok_calls_bound:
  assumes "ok_calls e vmalloc st n p st'" and "vmalloc_ok vmalloc" and "st = (m0, s0)" and "stream_ok e m0 s0 b0" and "DEC_IS_MULTI (xd_mode s0)"
  shows "n \<le> 2 * p + (if allow_buf_error (snd st') then 1 else 0) \<and> (\<exists>b. stream_ok e (fst st') (snd st') b) \<and> xd_mode (snd st') = xd_mode s0"
  using assms
proof (induction rule: ok_calls.induct)
  case calls_none
  then show ?case by auto
next
  case (calls_more n p m s m1 b s' b' m')
  then have ih: "n \<le> 2 * p + (if allow_buf_error s then 1 else 0)" "xd_mode s = xd_mode s0" and "\<exists>b. stream_ok e m s b" by auto
  then obtain bb where "stream_ok e m s bb" by blast
  then have ok: "stream_ok e m1 s b" by (rule stream_ok_move) (use calls_more ih(2) in auto)
  have multi: "\<not> DEC_IS_SINGLE (xd_mode s)" using ih(2) calls_more by (simp add: mode_defs)
  then have "run_ready e m1 s b" using ok by (simp add: run_ready_def)
  from ok_xz_dec_run [OF this \<open>vmalloc_ok vmalloc\<close>] have "run_good e m1 s b (XZ_OK, s', b', m')"
    using calls_more.hyps(4) by (simp add: ok_iff del: run_good.simps)
  then have g: "call_frame e m1 s b m' s' b'" "stream_ok e m' s' b'"
    "allow_buf_error s' = (b_in_pos b' = b_in_pos b \<and> b_out_pos b' = b_out_pos b)" "allow_buf_error s' \<longrightarrow> \<not> allow_buf_error s"
    using multi by auto
  have mono: "b_in_pos b \<le> b_in_pos b'" "b_out_pos b \<le> b_out_pos b'" using g(1) by (simp_all add: call_frame_def)
  have "Suc n \<le> 2 * (p + (b_in_pos b' - b_in_pos b) + (b_out_pos b' - b_out_pos b)) + (if allow_buf_error s' then 1 else 0)"
  proof (cases "allow_buf_error s'")
    case True
    then show ?thesis using ih(1) g(3,4) by simp
  next
    case False
    then have pos: "0 < (b_in_pos b' - b_in_pos b) + (b_out_pos b' - b_out_pos b)" using g(3) mono by auto
    have le: "n \<le> 2 * p + 1" using ih(1) by (simp split: if_splits)
    have "Suc n \<le> 2 * (p + i + j)" if "0 < i + j" and "n \<le> 2 * p + 1" for i j :: nat using that by presburger
    from this [OF pos le] have "Suc n \<le> 2 * (p + (b_in_pos b' - b_in_pos b) + (b_out_pos b' - b_out_pos b))" .
    then show ?thesis by (rule trans_le_add1)
  qed
  then show ?case using g(1,2) ih(2) by (auto simp: call_frame_def)
qed

section \<open>Creation\<close>

lemma init_static:
  assumes "xz_dec_init e kmalloc kmalloc_bcj kmalloc_lzma2 vmalloc m mode dict_max = (Some s, m')" and "vmalloc_ok vmalloc" and "dict_max < 2 ^ 32"
    and "length (m Stream_Temp) = 1024" "length (m Lzma_Temp) = TEMP_BUF_SIZE" "length (m Bcj_Temp) = BCJ_TEMP_SIZE"
  shows "stream_static e m' s \<and> xd_mode s = mode \<and> (\<forall>k. k \<noteq> Dict_Block \<longrightarrow> m' k = m k) \<and> (\<exists>s0. s = xz_dec_reset s0)"
proof -
  obtain s0 where k: "kmalloc = Some s0" using assms(1) by (cases kmalloc) (simp_all add: xz_dec_init_def)
  let ?s1 = "s0\<lparr>xd_mode := mode\<rparr>"
  obtain c m1 where c: "(if XZ_DEC_BCJ e then xz_dec_bcj_create kmalloc_bcj m (DEC_IS_SINGLE mode) else (Some (xd_bcj ?s1), m)) = (Some c, m1)"
    using assms(1) k by (auto simp: xz_dec_init_def Let_def split: prod.splits option.splits)
  have c2: "m1 = m" "XZ_DEC_BCJ e \<longrightarrow> bcj_single_call c = DEC_IS_SINGLE mode"
    using c by (auto simp: xz_dec_bcj_create_def split: if_splits option.splits)
  obtain l where l: "xz_dec_lzma2_create kmalloc_lzma2 vmalloc m mode dict_max = (Some l, m')" and s: "s = xz_dec_reset (?s1\<lparr>xd_bcj := c, xd_lzma2 := l\<rparr>)"
    using assms(1) unfolding xz_dec_init_def k option.case Let_def c prod.case c2(1) by (auto split: prod.splits option.splits)
  from create_good [OF assms(2,3) l] show ?thesis
    using assms(4-6) c2(2) by (auto simp: s stream_static_def)
qed

section \<open>Concatenated streams\<close>

lemma ok_stream_padding:
  assumes "valid_buf m b" and "xd_pos s < 4"
  shows "ok (stream_padding m s b finish) (\<lambda>(r, s', b'). s' = s\<lparr>xd_pos := xd_pos s'\<rparr> \<and> advances b b' \<and> xd_pos s' < 4 \<and>
     (case r of None \<Rightarrow> xd_pos s' = 0
      | Some ret \<Rightarrow> ret = XZ_OK \<and> \<not> finish \<and> b_in_pos b' = b_in_size b \<or> ret = XZ_DATA_ERROR \<or>
          ret = XZ_STREAM_END \<and> finish \<and> b_in_pos b' = b_in_size b \<and> xd_pos s' = 0))"
  using assms
proof (induction "b_in_size b - b_in_pos b" arbitrary: b s rule: less_induct)
  case less
  show ?case
  proof (cases "b_in_pos b = b_in_size b")
    case True
    then show ?thesis using less.prems by (subst stream_padding.simps) simp
  next
    case False
    obtain c where c: "in_byte m b = Some c" "valid_buf m (b\<lparr>b_in_pos := Suc (b_in_pos b)\<rparr>)" "sz_add (b_in_pos b) (Suc 0) = Suc (b_in_pos b)" "b_in_pos b < b_in_size b"
      using input_next [OF less.prems(1) False] by metis
    let ?s = "s\<lparr>xd_pos := Suc (xd_pos s) mod 4\<rparr>" and ?b = "b\<lparr>b_in_pos := Suc (b_in_pos b)\<rparr>"
    have un: "stream_padding m s b finish =
       (if c \<noteq> 0 then Some (if xd_pos s \<noteq> 0 then Some XZ_DATA_ERROR else None, s, b) else stream_padding m ?s ?b finish)"
      using False c less.prems(2) by (subst stream_padding.simps) simp
    show ?thesis
    proof (cases "c = 0")
      case F: False
      then show ?thesis unfolding un using less.prems by simp
    next
      case True
      have d: "b_in_size ?b - b_in_pos ?b < b_in_size b - b_in_pos b" and p: "xd_pos ?s < 4" using c(4) by simp_all
      have un2: "stream_padding m s b finish = stream_padding m ?s ?b finish" using un True by simp
      show ?thesis
        unfolding un2 by (rule ok_mono [OF less.hyps [OF d c(2) p]]) (auto dest: advances_next split: option.splits)
    qed
  qed
qed

definition catrun_ready :: "xz_env \<Rightarrow> mem \<Rightarrow> xz_dec \<Rightarrow> xz_buf \<Rightarrow> bool" where
  "catrun_ready e m s b \<longleftrightarrow>
     (if xd_seq s = SEQ_STREAM_PADDING then buf_apart m b \<and> stream_static e m s \<and> xd_pos s < 4 else run_ready e m s b)"

fun cat_good :: "xz_env \<Rightarrow> bool \<Rightarrow> mem \<Rightarrow> xz_dec \<Rightarrow> xz_buf \<Rightarrow> dec_result \<Rightarrow> bool" where
  "cat_good e finish m s b (ret, s', b', m') \<longleftrightarrow> call_frame e m s b m' s' b' \<and>
     (ret = XZ_STREAM_END \<longrightarrow> finish \<and> b_in_pos b' = b_in_size b) \<and>
     (ret = XZ_OK \<longrightarrow> b_in_pos b' = b_in_size b \<or> b_out_pos b' = b_out_size b) \<and>
     (ret = XZ_OK \<and> DEC_IS_SINGLE (xd_mode s) \<longrightarrow> \<not> finish) \<and>
     (ret \<in> {XZ_OK, XZ_UNSUPPORTED_CHECK, XZ_BUF_ERROR} \<and> DEC_IS_MULTI (xd_mode s) \<longrightarrow> catrun_ready e m' s' b')"

lemma call_frame_read:
  assumes "buf_apart m b" and "stream_static e m s" and "advances b b'" and "xd_lzma2 s' = xd_lzma2 s" "xd_bcj s' = xd_bcj s" "xd_mode s' = xd_mode s"
  shows "call_frame e m s b m s' b'"
  using assms by (cases b; cases b') (auto simp: call_frame_def advances_def buf_apart_def valid_buf_def stream_static_def)

text \<open>The padding before the next stream.\<close>

lemma catrun_start:
  fixes finish :: bool
  assumes rdy: "catrun_ready e m s b"
  defines "start \<equiv> (if xd_seq s = SEQ_STREAM_PADDING then do {
         (r, s, b) \<leftarrow> stream_padding m s b finish;
         Some (r, (if r = None \<and> DEC_IS_MULTI (xd_mode s) then xz_dec_reset s else s), b)
       }
       else Some (None, s, b))"
  shows "\<exists>r s1 b1. start = Some (r, s1, b1) \<and> call_frame e m s b m s1 b1 \<and>
    (case r of None \<Rightarrow> run_ready e m s1 b1 | Some ret \<Rightarrow> cat_good e finish m s b (ret, s1, b1, m))"
proof (cases "xd_seq s = SEQ_STREAM_PADDING")
  case False
  have "buf_apart m b" "stream_static e m s" using rdy False by (auto simp: catrun_ready_def run_ready_def stream_ok_def split: if_splits)
  then have "call_frame e m s b m s b" by (intro call_frame_read) (auto simp: buf_apart_def intro: advances_refl)
  then show ?thesis using rdy False by (simp add: start_def catrun_ready_def)
next
  case True
  then have a: "buf_apart m b" "stream_static e m s" "xd_pos s < 4" "valid_buf m b" using rdy by (simp_all add: catrun_ready_def buf_apart_def)
  from ok_stream_padding [OF a(4,3), of finish] obtain r s1 b1 where p: "stream_padding m s b finish = Some (r, s1, b1)"
    and s1: "s1 = s\<lparr>xd_pos := xd_pos s1\<rparr>" and P: "advances b b1" "xd_pos s1 < 4"
     "case r of None \<Rightarrow> xd_pos s1 = 0
      | Some ret \<Rightarrow> ret = XZ_OK \<and> \<not> finish \<and> b_in_pos b1 = b_in_size b \<or> ret = XZ_DATA_ERROR \<or>
          ret = XZ_STREAM_END \<and> finish \<and> b_in_pos b1 = b_in_size b \<and> xd_pos s1 = 0" unfolding ok_iff split_paired_Ex prod.case by blast
  have f: "xd_lzma2 s1 = xd_lzma2 s" "xd_bcj s1 = xd_bcj s" "xd_mode s1 = xd_mode s" "xd_seq s1 = xd_seq s" by (subst s1, simp)+
  have cf: "call_frame e m s b m s1 b1" by (rule call_frame_read [OF a(1,2) P(1) f(1-3)])
  have ap: "buf_apart m b1" by (rule call_frame_apart [OF cf a(1)])
  have st: "stream_static e m s1" using cf by (simp add: call_frame_def)
  show ?thesis
  proof (cases r)
    case (Some ret)
    then have "cat_good e finish m s b (ret, s1, b1, m)" using P(2,3) cf ap st f True by (auto simp: catrun_ready_def)
    then show ?thesis using p Some cf True by (simp add: start_def del: cat_good.simps)
  next
    case None
    let ?s2 = "if DEC_IS_MULTI (xd_mode s1) then xz_dec_reset s1 else s1"
    have "call_frame e m s b m ?s2 b1" using cf by (simp add: call_frame_def stream_static_def)
    moreover have "run_ready e m ?s2 b1"
      using ap st ok_reset [OF st ap] by (auto simp: run_ready_def mode_defs)
    ultimately show ?thesis using p None True by (simp add: start_def)
  qed
qed

lemma ok_catrun_loop:
  assumes "catrun_ready e m s b" and "vmalloc_ok vmalloc"
  shows "ok (catrun_loop e vmalloc m s b finish) (cat_good e finish m s b)"
  using assms
proof (induction "b_in_size b - b_in_pos b" arbitrary: m s b rule: less_induct)
  case less
  from catrun_start [OF less.prems(1), of finish] obtain r s1 b1 where
    p: "(if xd_seq s = SEQ_STREAM_PADDING then do {
         (r, s, b) \<leftarrow> stream_padding m s b finish;
         Some (r, (if r = None \<and> DEC_IS_MULTI (xd_mode s) then xz_dec_reset s else s), b)
       }
       else Some (None, s, b)) = Some (r, s1, b1)"
    and cf: "call_frame e m s b m s1 b1" and P: "case r of None \<Rightarrow> run_ready e m s1 b1 | Some ret \<Rightarrow> cat_good e finish m s b (ret, s1, b1, m)" by blast
  have mode: "xd_mode s1 = xd_mode s" using cf by (simp add: call_frame_def)
  have sz: "b_in_size b1 = b_in_size b" "b_out_size b1 = b_out_size b" "b_in_pos b \<le> b_in_pos b1" using cf by (cases b; cases b1; simp add: call_frame_def)+
  show ?case
  proof (cases r)
    case (Some ret)
    then show ?thesis using p P by (subst catrun_loop.simps) (simp del: cat_good.simps)
  next
    case None
    then have rdy: "run_ready e m s1 b1" using P by simp
    from ok_xz_dec_run [OF rdy less.prems(2)] obtain ret s2 b2 m2 where d: "xz_dec_run e vmalloc m s1 b1 = Some (ret, s2, b2, m2)"
      and D: "run_good e m s1 b1 (ret, s2, b2, m2)" unfolding ok_iff split_paired_Ex by blast
    have cf1: "call_frame e m s1 b1 m2 s2 b2" using D by simp
    have cf2: "call_frame e m s b m2 s2 b2" by (rule call_frame_trans [OF cf cf1])
    have sz2: "b_in_size b2 = b_in_size b1" "b_out_size b2 = b_out_size b1" "b_in_pos b2 \<le> b_in_size b1" "xd_mode s2 = xd_mode s1"
      using cf1 by (cases b1; cases b2; simp add: call_frame_def)+
    show ?thesis
    proof (cases "ret = XZ_STREAM_END")
      case False
      have ready: "stream_ok e m2 s2 b2 \<Longrightarrow> DEC_IS_MULTI (xd_mode s2) \<Longrightarrow> catrun_ready e m2 s2 b2"
        by (auto simp: catrun_ready_def run_ready_def stream_ok_def seq_state_def mode_defs)
      have "cat_good e finish m s b (ret, s2, b2, m2)"
        using D cf2 False mode sz sz2 ready by (auto simp: mode_defs split: if_splits)
      then show ?thesis using p None d False by (subst catrun_loop.simps) (simp del: cat_good.simps)
    next
      case True
      let ?s3 = "s2\<lparr>xd_seq := SEQ_STREAM_PADDING\<rparr>"
      have e: "b_in_pos b1 < b_in_pos b2" "xd_pos s2 = 0" using D True by (auto split: if_splits)
      have "buf_apart m b1" using rdy by (auto simp: run_ready_def stream_ok_def split: if_splits)
      then have ap: "buf_apart m2 b2" by (rule call_frame_apart [OF cf1])
      have cf3: "call_frame e m s b m2 ?s3 b2" using cf2 by (simp add: call_frame_def stream_static_def)
      have rdy3: "catrun_ready e m2 ?s3 b2" using ap e(2) cf3 by (simp add: catrun_ready_def call_frame_def)
      have "b_in_size b2 - b_in_pos b2 < b_in_size b - b_in_pos b" using e(1) sz sz2 by linarith
      from less.hyps [OF this rdy3 less.prems(2)] obtain ret3 s4 b4 m4 where l: "catrun_loop e vmalloc m2 ?s3 b2 finish = Some (ret3, s4, b4, m4)"
        and L: "cat_good e finish m2 ?s3 b2 (ret3, s4, b4, m4)" unfolding ok_iff split_paired_Ex by blast
      have "cat_good e finish m s b (ret3, s4, b4, m4)"
        using L call_frame_trans [OF cf3, of m4 s4 b4] sz sz2 mode by simp
      then show ?thesis using p None d True l by (subst catrun_loop.simps) (simp del: cat_good.simps)
    qed
  qed
qed

section \<open>Properties\<close>

text \<open>
  C1: \<open>xz_dec_run\<close> is total and memory safe for every input, every build configuration and
  both kinds of calls. It returns; it writes only the output and the blocks of the decoder
  (only the dictionary may be reallocated); positions move forward and stay within their
  sizes. In single-call mode it never returns \<open>XZ_OK\<close>, and on failure the caller's
  positions are what they were. In multi-call mode it returns \<open>XZ_OK\<close> only with the input
  used up or the output full, and after \<open>XZ_OK\<close>, \<open>XZ_UNSUPPORTED_CHECK\<close> and
  \<open>XZ_BUF_ERROR\<close> the decoder can go on. After any result \<open>xz_dec_reset\<close> makes the decoder
  usable again.
\<close>

theorem xz_dec_run_safe:
  assumes "run_ready e m s b" and "vmalloc_ok vmalloc"
  shows "ok (xz_dec_run e vmalloc m s b) (\<lambda>(ret, s', b', m').
     (\<forall>k. k \<notin> {Dict_Block, Lzma_Temp, Bcj_Temp, Stream_Temp, fst (b_out b)} \<longrightarrow> m' k = m k) \<and>
     (\<forall>k. k \<noteq> Dict_Block \<longrightarrow> length (m' k) = length (m k)) \<and>
     b' = b\<lparr>b_in_pos := b_in_pos b', b_out_pos := b_out_pos b'\<rparr> \<and>
     b_in_pos b \<le> b_in_pos b' \<and> b_in_pos b' \<le> b_in_size b \<and> b_out_pos b \<le> b_out_pos b' \<and> b_out_pos b' \<le> b_out_size b \<and>
     (DEC_IS_SINGLE (xd_mode s) \<longrightarrow> ret \<noteq> XZ_OK \<and> (ret \<noteq> XZ_STREAM_END \<longrightarrow> b' = b)) \<and>
     (DEC_IS_MULTI (xd_mode s) \<longrightarrow>
        (ret \<in> {XZ_OK, XZ_STREAM_END, XZ_UNSUPPORTED_CHECK, XZ_BUF_ERROR} \<longrightarrow> stream_ok e m' s' b') \<and>
        (ret = XZ_OK \<longrightarrow> b_in_pos b' = b_in_size b' \<or> b_out_pos b' = b_out_size b')) \<and>
     (\<forall>b2. buf_apart m' b2 \<longrightarrow> stream_ok e m' (xz_dec_reset s') b2))"
proof (rule ok_mono [OF ok_xz_dec_run [OF assms]], unfold split_paired_all prod.case)
  fix ret s' b' m' assume g: "run_good e m s b (ret, s', b', m')"
  then have cf: "call_frame e m s b m' s' b'" by simp
  then have "\<forall>b2. buf_apart m' b2 \<longrightarrow> stream_ok e m' (xz_dec_reset s') b2" by (simp add: call_frame_def ok_reset)
  moreover have "DEC_IS_SINGLE (xd_mode s) \<longrightarrow> ret \<noteq> XZ_OK \<and> (ret \<noteq> XZ_STREAM_END \<longrightarrow> b' = b)" using g by simp
  moreover have "DEC_IS_MULTI (xd_mode s) \<longrightarrow>
        (ret \<in> {XZ_OK, XZ_STREAM_END, XZ_UNSUPPORTED_CHECK, XZ_BUF_ERROR} \<longrightarrow> stream_ok e m' s' b') \<and>
        (ret = XZ_OK \<longrightarrow> b_in_pos b' = b_in_size b' \<or> b_out_pos b' = b_out_size b')"
    using g by (simp add: mode_defs split: if_splits)
  moreover have "\<forall>k. k \<notin> {Dict_Block, Lzma_Temp, Bcj_Temp, Stream_Temp, fst (b_out b)} \<longrightarrow> m' k = m k"
    using cf by (auto simp: call_frame_def)
  ultimately show "(\<forall>k. k \<notin> {Dict_Block, Lzma_Temp, Bcj_Temp, Stream_Temp, fst (b_out b)} \<longrightarrow> m' k = m k) \<and>
     (\<forall>k. k \<noteq> Dict_Block \<longrightarrow> length (m' k) = length (m k)) \<and>
     b' = b\<lparr>b_in_pos := b_in_pos b', b_out_pos := b_out_pos b'\<rparr> \<and>
     b_in_pos b \<le> b_in_pos b' \<and> b_in_pos b' \<le> b_in_size b \<and> b_out_pos b \<le> b_out_pos b' \<and> b_out_pos b' \<le> b_out_size b \<and>
     (DEC_IS_SINGLE (xd_mode s) \<longrightarrow> ret \<noteq> XZ_OK \<and> (ret \<noteq> XZ_STREAM_END \<longrightarrow> b' = b)) \<and>
     (DEC_IS_MULTI (xd_mode s) \<longrightarrow>
        (ret \<in> {XZ_OK, XZ_STREAM_END, XZ_UNSUPPORTED_CHECK, XZ_BUF_ERROR} \<longrightarrow> stream_ok e m' s' b') \<and>
        (ret = XZ_OK \<longrightarrow> b_in_pos b' = b_in_size b' \<or> b_out_pos b' = b_out_size b')) \<and>
     (\<forall>b2. buf_apart m' b2 \<longrightarrow> stream_ok e m' (xz_dec_reset s') b2)"
    using cf unfolding call_frame_def by blast
qed

definition stream_memory :: mem where
  \<comment> \<open>an empty stream with a CRC32 check, cut after its header\<close>
  "stream_memory = (\<lambda>k. [])(In_Block := [0xFD, 0x37, 0x7A, 0x58, 0x5A, 0, 0, 1, 0x69, 0x22, 0xDE, 0x36], Out_Block := replicate 4 0,
     Lzma_Temp := replicate 63 0, Dict_Block := replicate 8 0, Bcj_Temp := replicate 16 0, Stream_Temp := replicate 1024 0)"

definition stream_buf :: xz_buf where
  "stream_buf = \<lparr>b_in = (In_Block, 0), b_in_pos = 0, b_in_size = 12, b_out = (Out_Block, 0), b_out_pos = 0, b_out_size = 4\<rparr>"

definition stream_sample :: "xz_mode \<Rightarrow> xz_dec \<Rightarrow> xz_dec" where
  \<comment> \<open>a decoder after its reset; the second argument is what the memory contained\<close>
  "stream_sample mode s = xz_dec_reset (s\<lparr>xd_mode := mode, xd_bcj := bcj_fresh\<lparr>bcj_single_call := DEC_IS_SINGLE mode\<rparr>,
     xd_lzma2 := bcj_lzma\<lparr>s_dict := (s_dict bcj_lzma)\<lparr>d_mode := mode, d_size_max := 8, d_allocated := 0\<rparr>\<rparr>\<rparr>)"

lemma stream_sample_ok: "stream_ok e stream_memory (stream_sample mode s) stream_buf" "xd_mode (stream_sample mode s) = mode"
proof -
  have "buf_apart stream_memory stream_buf" by (simp add: buf_apart_def valid_buf_def stream_memory_def stream_buf_def room_def)
  then show "stream_ok e stream_memory (stream_sample mode s) stream_buf"
    unfolding stream_sample_def
    by (intro ok_reset) (auto simp: stream_static_def stream_memory_def TEMP_BUF_SIZE_def BCJ_TEMP_SIZE_def alloc_ok_def bcj_lzma_def bcj_fresh_def
        lzma2_sample_defs LZMA_IN_REQUIRED_def)
  show "xd_mode (stream_sample mode s) = mode" by (simp add: stream_sample_def)
qed

lemma no_vmalloc: "vmalloc_ok (\<lambda>n. None)"
  by (simp add: vmalloc_ok_def)

lemma sample_ready: "run_ready e stream_memory (stream_sample mode s) stream_buf"
  using stream_sample_ok(1) [of e mode s] by (auto simp: run_ready_def stream_ok_def)

theorem xz_dec_run_safe_witness:
  "\<forall>e s mode. \<exists>ret s' b' m'. xz_dec_run e (\<lambda>n. None) stream_memory (stream_sample mode s) stream_buf = Some (ret, s', b', m') \<and>
     b_in_pos b' \<le> 12 \<and> m' In_Block = stream_memory In_Block \<and> (mode = XZ_SINGLE \<longrightarrow> ret \<noteq> XZ_OK)"
proof (intro allI)
  fix e s mode
  have i: "In_Block \<notin> {Dict_Block, Lzma_Temp, Bcj_Temp, Stream_Temp, fst (b_out stream_buf)}" "b_in_size stream_buf = 12" by (simp_all add: stream_buf_def)
  have single: "mode = XZ_SINGLE \<longrightarrow> DEC_IS_SINGLE (xd_mode (stream_sample mode s))" by (simp add: stream_sample_ok(2) mode_defs)
  from xz_dec_run_safe [OF sample_ready [of e mode s] no_vmalloc]
  obtain ret s' b' m' where r: "xz_dec_run e (\<lambda>n. None) stream_memory (stream_sample mode s) stream_buf = Some (ret, s', b', m')"
    and "\<forall>k. k \<notin> {Dict_Block, Lzma_Temp, Bcj_Temp, Stream_Temp, fst (b_out stream_buf)} \<longrightarrow> m' k = stream_memory k"
    and "b_in_pos b' \<le> b_in_size stream_buf" and "DEC_IS_SINGLE (xd_mode (stream_sample mode s)) \<longrightarrow> ret \<noteq> XZ_OK"
    unfolding ok_iff split_paired_Ex prod.case by blast
  then show "\<exists>ret s' b' m'. xz_dec_run e (\<lambda>n. None) stream_memory (stream_sample mode s) stream_buf = Some (ret, s', b', m') \<and>
     b_in_pos b' \<le> 12 \<and> m' In_Block = stream_memory In_Block \<and> (mode = XZ_SINGLE \<longrightarrow> ret \<noteq> XZ_OK)"
    using i single by metis
qed

text \<open>
  C6: no endless \<open>XZ_OK\<close>. In multi-call mode, a caller that has called \<open>xz_dec_run\<close> \<open>n\<close>
  times and always got \<open>XZ_OK\<close>, whatever buffers it passed, has got through at least
  (n - 1) / 2 bytes of input and output: it can never be kept busy without progress. The
  decoder is always ready for another call, which returns.
\<close>

theorem xz_dec_run_progress:
  assumes "ok_calls e vmalloc (m, s) n p (m', s')" and "stream_ok e m s b" and "DEC_IS_MULTI (xd_mode s)" and "vmalloc_ok vmalloc"
  shows "n \<le> 2 * p + 1 \<and>
    (\<forall>m1 b1. (\<forall>k\<in>{Dict_Block, Lzma_Temp, Bcj_Temp, Stream_Temp}. m1 k = m' k) \<and> buf_apart m1 b1 \<longrightarrow>
       (\<exists>ret s2 b2 m2. xz_dec_run e vmalloc m1 s' b1 = Some (ret, s2, b2, m2)))"
proof -
  from ok_calls_bound [OF assms(1,4) refl assms(2,3)]
  have n: "n \<le> 2 * p + (if allow_buf_error s' then 1 else 0)" and mode: "DEC_IS_MULTI (xd_mode s')" and "\<exists>b. stream_ok e m' s' b"
    using assms(3) by simp_all
  then obtain b2 where b2: "stream_ok e m' s' b2" by blast
  have "\<exists>ret s2 b2 m2. xz_dec_run e vmalloc m1 s' b1 = Some (ret, s2, b2, m2)"
    if "\<forall>k\<in>{Dict_Block, Lzma_Temp, Bcj_Temp, Stream_Temp}. m1 k = m' k" "buf_apart m1 b1" for m1 b1
  proof -
    have "run_ready e m1 s' b1" using stream_ok_move [OF b2 mode that] mode by (simp add: run_ready_def mode_defs)
    from ok_xz_dec_run [OF this assms(4)] show ?thesis unfolding ok_iff split_paired_Ex by blast
  qed
  moreover have "n \<le> 2 * p + 1" using n by (simp split: if_splits)
  ultimately show ?thesis by blast
qed

definition no_input :: xz_buf where
  "no_input = stream_buf\<lparr>b_in_size := 0\<rparr>"

lemma sample_idle:
  "xz_dec_run e vmalloc stream_memory (stream_sample XZ_PREALLOC s) no_input
    = Some (XZ_OK, (stream_sample XZ_PREALLOC s)\<lparr>xd_in_start := 0, allow_buf_error := True\<rparr>, no_input, stream_memory)"
proof -
  let ?s = "stream_sample XZ_PREALLOC s"
  have f: "xd_seq ?s = SEQ_STREAM_HEADER" "tmp_pos ?s = 0" "tmp_size ?s = 12" "xd_mode ?s = XZ_PREALLOC" "allow_buf_error ?s = False"
    by (simp_all add: stream_sample_def xz_dec_reset_def STREAM_HEADER_SIZE_def)
  have b: "b_in_pos no_input = 0" "b_in_size no_input = 0" "b_out_pos no_input = 0" "no_input\<lparr>b_in_pos := 0\<rparr> = no_input"
    by (simp_all add: no_input_def stream_buf_def)
  have "memcpy stream_memory p q 0 = Some stream_memory" for p q
    by (simp add: memcpy_def memmove_def overlap_def load_bytes_def store_bytes_def)
  moreover have "?s\<lparr>xd_in_start := 0, tmp_pos := 0\<rparr> = ?s\<lparr>xd_in_start := 0\<rparr>" using f(2) by (cases ?s) simp
  ultimately have "fill_temp stream_memory (?s\<lparr>xd_in_start := 0\<rparr>) no_input = Some (False, ?s\<lparr>xd_in_start := 0\<rparr>, no_input, stream_memory)"
    by (simp add: fill_temp_def f b Let_def)
  then have "dec_main e vmalloc stream_memory ?s no_input = Some (XZ_OK, ?s\<lparr>xd_in_start := 0\<rparr>, no_input, stream_memory)"
    by (simp add: dec_main_def dec_loop.simps [of e vmalloc stream_memory "?s\<lparr>xd_in_start := 0\<rparr>"] dec_step_def f b)
  then show ?thesis by (simp add: xz_dec_run_def f b mode_defs)
qed

theorem xz_dec_run_progress_witness:
  "\<forall>e s. \<exists>s1. ok_calls e (\<lambda>n. None) (stream_memory, stream_sample XZ_PREALLOC s) 1 0 (stream_memory, s1) \<and> (1 :: nat) \<le> 2 * 0 + 1 \<and>
     (\<exists>r. xz_dec_run e (\<lambda>n. None) stream_memory s1 stream_buf = Some r)"
proof (intro allI)
  fix e s
  let ?s = "stream_sample XZ_PREALLOC s"
  let ?s1 = "?s\<lparr>xd_in_start := 0, allow_buf_error := True\<rparr>"
  have multi: "DEC_IS_MULTI (xd_mode ?s)" by (simp add: stream_sample_ok(2) mode_defs)
  have ap: "buf_apart stream_memory stream_buf" using stream_sample_ok(1) by (simp add: stream_ok_def)
  then have "buf_apart stream_memory no_input" by (simp add: no_input_def buf_apart_def valid_buf_def stream_buf_def)
  from calls_more [OF calls_none _ this sample_idle] have calls: "ok_calls e (\<lambda>n. None) (stream_memory, ?s) 1 0 (stream_memory, ?s1)" by simp
  from xz_dec_run_progress [OF calls stream_sample_ok(1) multi no_vmalloc] ap
  have "\<exists>r. xz_dec_run e (\<lambda>n. None) stream_memory ?s1 stream_buf = Some r" "(1 :: nat) \<le> 2 * 0 + 1" by blast+
  with calls show "\<exists>s1. ok_calls e (\<lambda>n. None) (stream_memory, ?s) 1 0 (stream_memory, s1) \<and> (1 :: nat) \<le> 2 * 0 + 1 \<and>
     (\<exists>r. xz_dec_run e (\<lambda>n. None) stream_memory s1 stream_buf = Some r)" by blast
qed

text \<open>
  C10: \<open>xz_dec_catrun\<close> returns for every input, however many streams follow one another.
  It returns \<open>XZ_STREAM_END\<close> only if \<open>finish\<close> is set (as it always is in single-call mode)
  and all input has been read; \<open>XZ_OK\<close> never in single-call mode; and in multi-call mode it
  can go on after \<open>XZ_OK\<close>, inside a stream or in the padding between two.
\<close>

theorem xz_dec_catrun_safe:
  assumes "catrun_ready e m s b" and "vmalloc_ok vmalloc"
  shows "ok (xz_dec_catrun e vmalloc m s b finish) (\<lambda>(ret, s', b', m').
     (\<forall>k. k \<notin> {Dict_Block, Lzma_Temp, Bcj_Temp, Stream_Temp, fst (b_out b)} \<longrightarrow> m' k = m k) \<and>
     b_in_pos b \<le> b_in_pos b' \<and> b_in_pos b' \<le> b_in_size b \<and> b_out_pos b \<le> b_out_pos b' \<and> b_out_pos b' \<le> b_out_size b \<and>
     (ret = XZ_STREAM_END \<longrightarrow> (finish \<or> DEC_IS_SINGLE (xd_mode s)) \<and> b_in_pos b' = b_in_size b) \<and>
     (ret = XZ_OK \<longrightarrow> DEC_IS_MULTI (xd_mode s) \<and> (b_in_pos b' = b_in_size b \<or> b_out_pos b' = b_out_size b)) \<and>
     (ret \<in> {XZ_OK, XZ_UNSUPPORTED_CHECK, XZ_BUF_ERROR} \<and> DEC_IS_MULTI (xd_mode s) \<longrightarrow> catrun_ready e m' s' b'))"
proof (cases "DEC_IS_SINGLE (xd_mode s)")
  case True
  have a: "buf_apart m b" "stream_static e m s" using assms(1) True by (auto simp: catrun_ready_def run_ready_def split: if_splits)
  have "catrun_ready e m (xz_dec_reset s) b"
    using a True by (simp add: catrun_ready_def run_ready_def xz_dec_reset_def stream_static_def)
  from ok_catrun_loop [OF this assms(2), of True] show ?thesis
    using True by (auto simp: xz_dec_catrun_def call_frame_def mode_defs elim!: ok_mono)
next
  case False
  from ok_catrun_loop [OF assms, of finish] show ?thesis
    using False by (auto simp: xz_dec_catrun_def call_frame_def mode_defs elim!: ok_mono)
qed

theorem xz_dec_catrun_safe_witness:
  "\<forall>e s mode. \<exists>ret s' b' m'. xz_dec_catrun e (\<lambda>n. None) stream_memory (stream_sample mode s) stream_buf True = Some (ret, s', b', m') \<and>
     (ret = XZ_STREAM_END \<longrightarrow> b_in_pos b' = 12)"
proof (intro allI)
  fix e s mode
  have rdy: "catrun_ready e stream_memory (stream_sample mode s) stream_buf"
    using sample_ready [of e mode s] by (simp add: catrun_ready_def stream_sample_def xz_dec_reset_def)
  have "b_in_size stream_buf = 12" by (simp add: stream_buf_def)
  then show "\<exists>ret s' b' m'. xz_dec_catrun e (\<lambda>n. None) stream_memory (stream_sample mode s) stream_buf True = Some (ret, s', b', m') \<and>
     (ret = XZ_STREAM_END \<longrightarrow> b_in_pos b' = 12)"
    using xz_dec_catrun_safe [OF rdy no_vmalloc, of True] unfolding ok_iff split_paired_Ex prod.case by metis
qed
text \<open>
  C11: \<open>xz_dec_init\<close> fails exactly if one of its allocations fails, and otherwise returns a
  decoder in the requested mode that is ready for its first call with any buffers, whatever
  the fresh memory contained. It changes no memory but the dictionary.
\<close>

theorem xz_dec_init_ready:
  assumes "vmalloc_ok vmalloc" and "dict_max < 2 ^ 32"
    and "length (m Stream_Temp) = 1024" and "length (m Lzma_Temp) = TEMP_BUF_SIZE" and "length (m Bcj_Temp) = BCJ_TEMP_SIZE"
  shows "case xz_dec_init e kmalloc kmalloc_bcj kmalloc_lzma2 vmalloc m mode dict_max of (r, m') \<Rightarrow>
     (r = None \<longleftrightarrow> kmalloc = None \<or> XZ_DEC_BCJ e \<and> kmalloc_bcj = None \<or> kmalloc_lzma2 = None \<or> mode = XZ_PREALLOC \<and> vmalloc dict_max = None) \<and>
     (\<forall>s. r = Some s \<longrightarrow> xd_mode s = mode \<and> (\<forall>b. buf_apart m' b \<longrightarrow> run_ready e m' s b) \<and> (\<forall>k. k \<noteq> Dict_Block \<longrightarrow> m' k = m k))"
proof -
  obtain r m' where i: "xz_dec_init e kmalloc kmalloc_bcj kmalloc_lzma2 vmalloc m mode dict_max = (r, m')"
    by (cases "xz_dec_init e kmalloc kmalloc_bcj kmalloc_lzma2 vmalloc m mode dict_max")
  have "r = None \<longleftrightarrow> kmalloc = None \<or> XZ_DEC_BCJ e \<and> kmalloc_bcj = None \<or> kmalloc_lzma2 = None \<or> mode = XZ_PREALLOC \<and> vmalloc dict_max = None"
    using i by (cases mode; auto simp: xz_dec_init_def xz_dec_bcj_create_def xz_dec_lzma2_create_def mode_defs Let_def split: option.splits if_splits)
  moreover have "xd_mode s = mode \<and> (\<forall>b. buf_apart m' b \<longrightarrow> run_ready e m' s b) \<and> (\<forall>k. k \<noteq> Dict_Block \<longrightarrow> m' k = m k)" if "r = Some s" for s
  proof -
    from init_static [OF i [unfolded that] assms] obtain s0 where st: "stream_static e m' s" "xd_mode s = mode" "\<forall>k. k \<noteq> Dict_Block \<longrightarrow> m' k = m k" and s: "s = xz_dec_reset s0"
      by blast
    have "stream_static e m' s0" using st(1) by (simp add: s stream_static_def)
    then have "stream_ok e m' s b" if "buf_apart m' b" for b using ok_reset that by (simp add: s)
    then show ?thesis using st by (auto simp: run_ready_def)
  qed
  ultimately show ?thesis by (simp add: i)
qed

theorem xz_dec_init_ready_witness:
  "\<forall>e s. \<exists>s' m'. xz_dec_init e (Some s) (Some bcj_fresh) (Some bcj_lzma) (\<lambda>n. None) stream_memory XZ_SINGLE 0 = (Some s', m') \<and>
     run_ready e m' s' stream_buf"
proof (intro allI)
  fix e s
  have len: "length (stream_memory Stream_Temp) = 1024" "length (stream_memory Lzma_Temp) = TEMP_BUF_SIZE" "length (stream_memory Bcj_Temp) = BCJ_TEMP_SIZE"
    by (simp_all add: stream_memory_def TEMP_BUF_SIZE_def BCJ_TEMP_SIZE_def LZMA_IN_REQUIRED_def)
  have ap: "buf_apart stream_memory stream_buf" using stream_sample_ok(1) by (simp add: stream_ok_def)
  obtain r m' where i: "xz_dec_init e (Some s) (Some bcj_fresh) (Some bcj_lzma) (\<lambda>n. None) stream_memory XZ_SINGLE 0 = (r, m')"
    by (cases "xz_dec_init e (Some s) (Some bcj_fresh) (Some bcj_lzma) (\<lambda>n. None) stream_memory XZ_SINGLE 0")
  have "r \<noteq> None" "\<forall>s'. r = Some s' \<longrightarrow> (\<forall>b. buf_apart m' b \<longrightarrow> run_ready e m' s' b) \<and> (\<forall>k. k \<noteq> Dict_Block \<longrightarrow> m' k = stream_memory k)"
    using xz_dec_init_ready [OF no_vmalloc _ len, where dict_max = 0 and e = e and kmalloc = "Some s" and kmalloc_bcj = "Some bcj_fresh" and ?kmalloc_lzma2.0 = "Some bcj_lzma" and mode = XZ_SINGLE] by (simp_all add: i)
  moreover then have "buf_apart m' stream_buf" using ap by (auto simp: buf_apart_def valid_buf_def room_def stream_buf_def)
  ultimately show "\<exists>s' m'. xz_dec_init e (Some s) (Some bcj_fresh) (Some bcj_lzma) (\<lambda>n. None) stream_memory XZ_SINGLE 0 = (Some s', m') \<and>
     run_ready e m' s' stream_buf" using i by auto
qed

end
