(* ===== verification/Microlzma.thy ===== *)
theory Microlzma
  imports Lzma2
begin

unbundle bit_operations_syntax

text \<open>
  The MicroLZMA decoder at the end of \<open>xz_dec_lzma2.c\<close>: a raw LZMA stream whose first
  byte holds the complemented properties. It wraps the LZMA2 decoder's state and runs the
  pass \<open>chunk_pass\<close> (limit, decode, flush) in a loop of its own. \<open>kmalloc\<close> and
  \<open>vmalloc\<close> are parameters, as in \<open>Lzma2\<close>.
\<close>

section \<open>The code\<close>

definition microlzma_prepare ::
  "mem \<Rightarrow> xz_dec_lzma2 \<Rightarrow> xz_buf \<Rightarrow> (xz_ret option \<times> xz_dec_lzma2 \<times> xz_buf) option" where
  \<comment> \<open>the sizes, the initial bytes of the range decoder and the dictionary\<close>
  "microlzma_prepare m s b =
     (if compressed (s_lzma2 s) < RC_INIT_BYTES \<or> compressed (s_lzma2 s) > push_bit 30 3
      then Some (Some XZ_DATA_ERROR, s, b)
      else do {
        (fin, rc, b) \<leftarrow> rc_read_init m (s_rc s) b;
        let s = s\<lparr>s_rc := rc\<rparr>;
        if \<not> fin then Some (Some XZ_OK, s, b)
        else
          let s = set_sequence SEQ_LZMA_RUN (set_compressed (u32_sub (compressed (s_lzma2 s)) RC_INIT_BYTES) s)
          in Some (None, dict_update (\<lambda>d. dict_reset d b) s, b)
      })"

definition microlzma_start ::
  "mem \<Rightarrow> xz_dec_lzma2 \<Rightarrow> xz_buf \<Rightarrow> (xz_ret option \<times> xz_dec_lzma2 \<times> xz_buf) option" where
  \<comment> \<open>everything before the loop; \<open>Some ret\<close> is a \<open>return\<close>\<close>
  "microlzma_start m s b =
     (if sequence (s_lzma2 s) \<noteq> SEQ_LZMA_RUN then
        if sequence (s_lzma2 s) = SEQ_PROPERTIES then
          if b_in_pos b \<ge> b_in_size b then Some (Some XZ_OK, s, b)
          else do {
            byte \<leftarrow> in_byte m b;
            let (good, s) = lzma_props s (NOT byte);
            if \<not> good then Some (Some XZ_DATA_ERROR, s, b)
            else microlzma_prepare m (set_sequence SEQ_LZMA_PREPARE s) b
          }
        else microlzma_prepare m s b
      else Some (None, s, b))"

partial_function (option) microlzma_loop ::
  "xz_env \<Rightarrow> mem \<Rightarrow> xz_dec_lzma2 \<Rightarrow> xz_buf \<Rightarrow> (xz_ret \<times> xz_dec_lzma2 \<times> xz_buf \<times> mem) option" where
  \<comment> \<open>the \<open>while (true)\<close>\<close>
  "microlzma_loop e m s b = do {
     (res, s, b, m) \<leftarrow> chunk_pass e m s b;
     if \<not> res then Some (XZ_DATA_ERROR, s, b, m)
     else if uncompressed (s_lzma2 s) = 0 then
       if pedantic_microlzma (s_lzma2 s)
          \<and> (compressed (s_lzma2 s) > 0 \<or> lz_len (s_lzma s) > 0 \<or> \<not> rc_is_finished (s_rc s))
       then Some (XZ_DATA_ERROR, s, b, m)
       else Some (XZ_STREAM_END, s, b, m)
     else if b_out_pos b = b_out_size b then Some (XZ_OK, s, b, m)
     else if b_in_pos b = b_in_size b \<and> temp_size s < compressed (s_lzma2 s) then Some (XZ_OK, s, b, m)
     else microlzma_loop e m s b
   }"

definition microlzma_set_end :: "xz_buf \<Rightarrow> xz_dec_lzma2 \<Rightarrow> xz_dec_lzma2" where
  \<comment> \<open>"to allow increasing \<open>b->out_size\<close> between calls"\<close>
  "microlzma_set_end b s =
     (if DEC_IS_SINGLE (d_mode (s_dict s))
      then dict_update (\<lambda>d. d\<lparr>d_end := sz_sub (b_out_size b) (b_out_pos b)\<rparr>) s else s)"

definition xz_dec_microlzma_run ::
  "xz_env \<Rightarrow> mem \<Rightarrow> xz_dec_lzma2 \<Rightarrow> xz_buf \<Rightarrow> (xz_ret \<times> xz_dec_lzma2 \<times> xz_buf \<times> mem) option" where
  "xz_dec_microlzma_run e m s b = do {
     (r, s, b) \<leftarrow> microlzma_start m s b;
     case r of Some ret \<Rightarrow> Some (ret, s, b, m)
     | None \<Rightarrow> microlzma_loop e m (microlzma_set_end b s) b
   }"

definition xz_dec_microlzma_alloc ::
  "xz_dec_lzma2 option \<Rightarrow> (nat \<Rightarrow> u8 list option) \<Rightarrow> mem \<Rightarrow> xz_mode \<Rightarrow> nat \<Rightarrow> xz_dec_lzma2 option \<times> mem" where
  "xz_dec_microlzma_alloc kmalloc vmalloc m mode dict_size =
     (if dict_size < 4096 \<or> dict_size > push_bit 30 3 then (None, m)
      else case kmalloc of None \<Rightarrow> (None, m)
      | Some s \<Rightarrow>
          let s = dict_update (\<lambda>d. d\<lparr>d_mode := mode, d_size := dict_size\<rparr>) s
          in if DEC_IS_MULTI mode then
               let s = dict_update (\<lambda>d. d\<lparr>d_end := dict_size\<rparr>) s
               in case vmalloc dict_size of
                    None \<Rightarrow> (None, m)
                  | Some bytes \<Rightarrow> (Some (dict_update (\<lambda>d. d\<lparr>d_buf := (Dict_Block, 0)\<rparr>) s), m(Dict_Block := bytes))
             else (Some s, m))"

definition xz_dec_microlzma_reset :: "xz_dec_lzma2 \<Rightarrow> nat \<Rightarrow> nat \<Rightarrow> int \<Rightarrow> xz_dec_lzma2" where
  "xz_dec_microlzma_reset s comp_size uncomp_size uncomp_size_is_exact =
     s\<lparr>s_lzma2 := (s_lzma2 s)\<lparr>compressed := comp_size, uncompressed := uncomp_size,
                              pedantic_microlzma := (uncomp_size_is_exact \<noteq> 0), sequence := SEQ_PROPERTIES\<rparr>,
       temp_size := 0\<rparr>"

definition xz_dec_microlzma_end :: "mem \<Rightarrow> xz_dec_lzma2 \<Rightarrow> mem" where
  "xz_dec_microlzma_end m s = (if DEC_IS_MULTI (d_mode (s_dict s)) then m(Dict_Block := []) else m)"

section \<open>The loop\<close>

fun loop_post :: "mem \<Rightarrow> xz_dec_lzma2 \<Rightarrow> xz_buf \<Rightarrow> xz_ret \<times> xz_dec_lzma2 \<times> xz_buf \<times> mem \<Rightarrow> bool" where
  "loop_post m s b (ret, s', b', m') \<longleftrightarrow> io_frame m s b m' s' b' \<and>
     (ret = XZ_OK \<and> pass_ok m' s' b' \<and> sequence (s_lzma2 s') = sequence (s_lzma2 s) \<and>
        b_out_pos b' + uncompressed (s_lzma2 s') = b_out_pos b + uncompressed (s_lzma2 s) \<and>
        (b_in_pos b' = b_in_size b' \<or> b_out_pos b' = b_out_size b') \<or>
      ret = XZ_STREAM_END \<and> b_out_pos b' = b_out_pos b + uncompressed (s_lzma2 s) \<and>
        (pedantic_microlzma (s_lzma2 s) \<longrightarrow> b_in_pos b' = b_in_pos b + (compressed (s_lzma2 s) - temp_size s)) \<or>
      ret = XZ_DATA_ERROR)"

lemma pass_lzma2:
  assumes "pass_post m s b (True, s1, b1, m1)"
  shows "sequence (s_lzma2 s1) = sequence (s_lzma2 s)"
    and "pedantic_microlzma (s_lzma2 s1) = pedantic_microlzma (s_lzma2 s)"
proof -
  have l2: "s_lzma2 s1 = (s_lzma2 s)\<lparr>compressed := compressed (s_lzma2 s1), uncompressed := uncompressed (s_lzma2 s1)\<rparr>"
    using assms by simp
  show "sequence (s_lzma2 s1) = sequence (s_lzma2 s)" by (subst l2) simp
  show "pedantic_microlzma (s_lzma2 s1) = pedantic_microlzma (s_lzma2 s)" by (subst l2) simp
qed

lemma loop_post_after:
  assumes pass: "pass_post m s b (True, s1, b1, m1)" and post: "loop_post m1 s1 b1 r"
  shows "loop_post m s b r"
proof -
  obtain ret s' b' m' where r: "r = (ret, s', b', m')" by (cases r)
  have acc: "b_out_pos b1 + uncompressed (s_lzma2 s1) = b_out_pos b + uncompressed (s_lzma2 s)"
      "b_in_pos b1 + (compressed (s_lzma2 s1) - temp_size s1) = b_in_pos b + (compressed (s_lzma2 s) - temp_size s)"
    using pass by auto
  have "io_frame m s b m' s' b'"
    using io_frame_trans [of m s b m1 s1 b1 m' s' b'] pass post by (auto simp: r)
  then show ?thesis
    using post acc pass_lzma2 [OF pass] by (auto simp: r)
qed

lemma ok_microlzma_loop:
  assumes "pass_ok m s b"
  shows "ok (microlzma_loop e m s b) (loop_post m s b)"
  using assms
proof (induction "io_left b" arbitrary: m s b rule: less_induct)
  case less
  show ?case
  proof (subst microlzma_loop.simps, rule ok_bindI [OF ok_chunk_pass [OF less.prems]])
    fix x assume x: "pass_post m s b x"
    obtain res s1 b1 m1 where xe: "x = (res, s1, b1, m1)" by (cases x)
    show "ok (case x of (res, s, b, m) \<Rightarrow>
        if \<not> res then Some (XZ_DATA_ERROR, s, b, m)
        else if uncompressed (s_lzma2 s) = 0 then
          if pedantic_microlzma (s_lzma2 s)
             \<and> (compressed (s_lzma2 s) > 0 \<or> lz_len (s_lzma s) > 0 \<or> \<not> rc_is_finished (s_rc s))
          then Some (XZ_DATA_ERROR, s, b, m) else Some (XZ_STREAM_END, s, b, m)
        else if b_out_pos b = b_out_size b then Some (XZ_OK, s, b, m)
        else if b_in_pos b = b_in_size b \<and> temp_size s < compressed (s_lzma2 s) then Some (XZ_OK, s, b, m)
        else microlzma_loop e m s b) (loop_post m s b)"
    proof (cases "res \<and> uncompressed (s_lzma2 s1) \<noteq> 0 \<and> b_out_pos b1 \<noteq> b_out_size b1 \<and>
        \<not> (b_in_pos b1 = b_in_size b1 \<and> temp_size s1 < compressed (s_lzma2 s1))")
      case True
      then have post: "pass_post m s b (True, s1, b1, m1)" using x by (simp add: xe)
      have bf: "buf_frame b b1" "valid_buf m1 b1" using post by (simp_all add: io_frame_def)
      have pos: "b_in_size b1 = b_in_size b" "b_out_size b1 = b_out_size b" "b_in_pos b \<le> b_in_pos b1"
          "b_out_pos b \<le> b_out_pos b1" "b_in_pos b1 \<le> b_in_size b" "b_out_pos b1 < b_out_size b"
        using bf buf_frame_sel [OF bf(1)] True by (auto simp: buf_frame_def valid_buf_def)
      have "b_out_pos b1 + uncompressed (s_lzma2 s1) = b_out_pos b + uncompressed (s_lzma2 s)" using post by simp
      then have "0 < uncompressed (s_lzma2 s)" using pos True by linarith
      then have "b_out_pos b < b_out_pos b1 \<or> b_in_pos b < b_in_pos b1"
        using post pos True by auto
      then have "io_left b1 < io_left b" using pos by (auto simp: io_left_def)
      moreover have "pass_ok m1 s1 b1" using post by simp
      ultimately show ?thesis
        using True less.hyps [of b1 m1 s1] by (auto simp: xe elim!: ok_mono intro: loop_post_after [OF post])
    next
      case False
      then show ?thesis
        using x pass_lzma2 [of m s b s1 b1 m1] by (cases res) (auto simp: xe)
    qed
  qed
qed

section \<open>The invariant\<close>

definition lzma_fresh :: "xz_dec_lzma2 \<Rightarrow> bool" where
  \<comment> \<open>reset, and not yet used\<close>
  "lzma_fresh s \<longleftrightarrow> lzma_params_ok (s_lzma s) \<and> probs_ok (lz_probs (s_lzma s)) \<and>
     253952 \<le> unat (rc_range (s_rc s)) \<and> lzma_state_is_literal (lz_state (s_lzma s)) \<and> lz_len (s_lzma s) = 0 \<and>
     init_bytes_left (s_rc s) \<le> RC_INIT_BYTES \<and> temp_size s = 0"

definition microlzma_ok :: "mem \<Rightarrow> xz_dec_lzma2 \<Rightarrow> xz_buf \<Rightarrow> bool" where
  "microlzma_ok m s b \<longleftrightarrow> valid_buf m b \<and> temp_sep m b \<and> dict_static m (s_dict s) b \<and>
     uncompressed (s_lzma2 s) < 2 ^ 32 \<and>
     (case sequence (s_lzma2 s) of
        SEQ_PROPERTIES \<Rightarrow> temp_size s = 0
      | SEQ_LZMA_PREPARE \<Rightarrow> lzma_fresh s
      | SEQ_LZMA_RUN \<Rightarrow> pass_ok m s b \<and> (DEC_IS_SINGLE (d_mode (s_dict s)) \<longrightarrow> d_start (s_dict s) = 0)
      | _ \<Rightarrow> False)"

definition input_left :: "xz_dec_lzma2 \<Rightarrow> nat" where
  \<comment> \<open>how many bytes of the compressed stream the decoder has not taken yet\<close>
  "input_left s =
     (case sequence (s_lzma2 s) of
        SEQ_PROPERTIES \<Rightarrow> compressed (s_lzma2 s)
      | SEQ_LZMA_PREPARE \<Rightarrow> compressed (s_lzma2 s) - (RC_INIT_BYTES - init_bytes_left (s_rc s))
      | _ \<Rightarrow> compressed (s_lzma2 s) - temp_size s)"

fun start_post :: "mem \<Rightarrow> xz_dec_lzma2 \<Rightarrow> xz_buf \<Rightarrow> xz_ret option \<times> xz_dec_lzma2 \<times> xz_buf \<Rightarrow> bool" where
  "start_post m s b (r, s', b') \<longleftrightarrow> io_frame m s b m (microlzma_set_end b' s') b' \<and>
     (r \<noteq> Some XZ_DATA_ERROR \<longrightarrow> b_out_pos b' = b_out_pos b \<and> uncompressed (s_lzma2 s') = uncompressed (s_lzma2 s) \<and>
        pedantic_microlzma (s_lzma2 s') = pedantic_microlzma (s_lzma2 s) \<and>
        b_in_pos b' + input_left s' = b_in_pos b + input_left s) \<and>
     (case r of
        None \<Rightarrow> sequence (s_lzma2 s') = SEQ_LZMA_RUN \<and> pass_ok m (microlzma_set_end b' s') b'
      | Some XZ_OK \<Rightarrow> microlzma_ok m s' b' \<and> b_in_pos b' = b_in_size b'
      | Some e \<Rightarrow> e = XZ_DATA_ERROR)"

lemma set_end_sel [simp]:
  "s_rc (microlzma_set_end b s) = s_rc s" "s_lzma (microlzma_set_end b s) = s_lzma s"
  "s_lzma2 (microlzma_set_end b s) = s_lzma2 s" "temp_size (microlzma_set_end b s) = temp_size s"
  by (simp_all add: microlzma_set_end_def)

lemma set_end_id:
  "DEC_IS_SINGLE (d_mode (s_dict s)) \<Longrightarrow> d_end (s_dict s) = b_out_size b - b_out_pos b \<Longrightarrow> valid_buf m b \<Longrightarrow>
   microlzma_set_end b s = s"
  by (simp add: microlzma_set_end_def valid_buf_def dict_update_def)

lemma set_end_multi: "DEC_IS_MULTI (d_mode (s_dict s)) \<Longrightarrow> microlzma_set_end b s = s"
  by (simp add: microlzma_set_end_def mode_defs)

lemma single_or_multi: "DEC_IS_SINGLE mode \<or> DEC_IS_MULTI mode"
  by (simp add: mode_defs)

lemma io_frame_set_end:
  "io_frame m s b m' (microlzma_set_end b1 s') b' = io_frame m s b m' s' b'"
  if "d_mode (s_dict s') = d_mode (s_dict s)"
  using that by (auto simp: io_frame_def microlzma_set_end_def mode_defs dict_update_def)

lemma fresh_ready: "lzma_fresh s \<Longrightarrow> dict_ok m (s_dict s) \<Longrightarrow> lzma_ok m s"
  by (simp add: lzma_fresh_def lzma_ok_def rep0_ok_def)

lemma fresh_upd:
  "s_lzma s' = s_lzma s \<Longrightarrow> rc_range (s_rc s') = rc_range (s_rc s) \<Longrightarrow>
   init_bytes_left (s_rc s') \<le> init_bytes_left (s_rc s) \<Longrightarrow> temp_size s' = temp_size s \<Longrightarrow>
   lzma_fresh s \<Longrightarrow> lzma_fresh s'"
  by (simp add: lzma_fresh_def)

text \<open>The dictionary starts where the output does.\<close>

lemma reset_set_end:
  assumes "dict_static m (s_dict s) b" and "valid_buf m b" and "lzma_fresh s"
    and "compressed (s_lzma2 s) \<le> 3 * 2 ^ 30" and "uncompressed (s_lzma2 s) < 2 ^ 32" and "temp_sep m b"
  defines "s1 \<equiv> dict_update (\<lambda>d. dict_reset d b) s"
  shows "microlzma_set_end b s1 = s1" and "pass_ok m s1 b" and "d_start (s_dict s1) = 0"
    and "d_mode (s_dict s1) = d_mode (s_dict s)"
proof -
  note d = dict_reset_ok [OF assms(1,2)]
  show mode: "d_mode (s_dict s1) = d_mode (s_dict s)" and "d_start (s_dict s1) = 0"
    by (simp_all add: s1_def dict_reset_def Let_def)
  show "microlzma_set_end b s1 = s1"
    using single_or_multi [of "d_mode (s_dict s1)"]
  proof
    assume single: "DEC_IS_SINGLE (d_mode (s_dict s1))"
    moreover have "d_end (s_dict s1) = b_out_size b - b_out_pos b"
      using single mode assms(2) by (simp add: s1_def dict_reset_def Let_def valid_buf_def)
    ultimately show ?thesis using assms(2) by (rule set_end_id)
  qed (rule set_end_multi)
  have "lzma_fresh s1" using assms(3) by (rule fresh_upd [rotated 4]) (simp_all add: s1_def)
  then have "lzma_ok m s1" by (rule fresh_ready) (use d(1) in \<open>simp add: s1_def\<close>)
  then show "pass_ok m s1 b"
    using d assms by (simp add: pass_ok_def lzma_fresh_def)
qed

lemma ok_microlzma_prepare:
  assumes ok: "microlzma_ok m s b" and seq: "sequence (s_lzma2 s) = SEQ_LZMA_PREPARE"
  shows "ok (microlzma_prepare m s b) (start_post m s b)"
proof -
  have st: "valid_buf m b" "temp_sep m b" "dict_static m (s_dict s) b" "uncompressed (s_lzma2 s) < 2 ^ 32" "lzma_fresh s"
    using ok by (simp_all add: microlzma_ok_def seq)
  show ?thesis
  proof (cases "compressed (s_lzma2 s) < RC_INIT_BYTES \<or> compressed (s_lzma2 s) > push_bit 30 3")
    case True
    then show ?thesis
      using io_frame_refl [OF st(1), of s] io_frame_set_end [of s s m b m b b] by (simp add: microlzma_prepare_def)
  next
    case False
    then have comp: "5 \<le> compressed (s_lzma2 s)" "compressed (s_lzma2 s) \<le> 3 * 2 ^ 30"
      by (simp_all add: RC_INIT_BYTES_def)
    have init: "init_bytes_left (s_rc s) \<le> RC_INIT_BYTES" using st(5) by (simp add: lzma_fresh_def)
    show ?thesis
      unfolding microlzma_prepare_def if_not_P [OF False]
    proof (rule ok_bindI [OF ok_rc_read_init [OF init st(1)]], clarify)
      fix fin rc b1
      assume vb1: "valid_buf m b1" and b1: "b1 = b\<lparr>b_in_pos := b_in_pos b1\<rparr>" "b_in_pos b \<le> b_in_pos b1"
        and read: "b_in_pos b1 - b_in_pos b = init_bytes_left (s_rc s) - init_bytes_left rc"
        and rc: "init_bytes_left rc \<le> init_bytes_left (s_rc s)"
          "rc = (s_rc s)\<lparr>rc_code := rc_code rc, init_bytes_left := init_bytes_left rc\<rparr>"
        and fin: "if fin then init_bytes_left rc = 0 else b_in_pos b1 = b_in_size b1 \<and> 0 < init_bytes_left rc"
      let ?s1 = "s\<lparr>s_rc := rc\<rparr>"
      have out: "b_out_pos b1 = b_out_pos b" by (subst b1(1)) simp
      have range: "rc_range rc = rc_range (s_rc s)" by (subst rc(2)) simp
      have fresh: "lzma_fresh ?s1" by (rule fresh_upd [OF _ _ _ _ st(5)]) (simp_all add: range rc(1))
      have bf: "buf_frame b b1" using b1 by (cases b, cases b1) (simp add: buf_frame_def)
      have link: "temp_sep m b1" "dict_static m (s_dict s) b1"
        using st by (subst b1(1), simp add: temp_sep_pos dict_static_pos)+
      have io1: "io_frame m s b m ?s1 b1" using vb1 bf by (simp add: io_frame_def)
      let ?s2 = "set_sequence SEQ_LZMA_RUN (set_compressed (u32_sub (compressed (s_lzma2 ?s1)) RC_INIT_BYTES) ?s1)"
      let ?s3 = "dict_update (\<lambda>d. dict_reset d b1) ?s2"
      have fresh2: "lzma_fresh ?s2" using fresh by (rule fresh_upd [rotated 4]) simp_all
      have "compressed (s_lzma2 ?s2) \<le> 3 * 2 ^ 30" "uncompressed (s_lzma2 ?s2) < 2 ^ 32" "dict_static m (s_dict ?s2) b1"
        using comp st(4) link(2) by (simp_all add: RC_INIT_BYTES_def)
      note run = reset_set_end [OF this(3) vb1 fresh2 this(1,2) link(1)]
      have io3: "io_frame m s b m ?s3 b1"
        using vb1 bf run(4) by (auto simp: io_frame_def dict_reset_def Let_def mode_defs)
      have left: "input_left ?s3 = compressed (s_lzma2 s) - 5" "temp_size s = 0"
        using comp fresh by (simp_all add: input_left_def RC_INIT_BYTES_def lzma_fresh_def)
      show "ok (let s = s\<lparr>s_rc := rc\<rparr>
          in if \<not> fin then Some (Some XZ_OK, s, b1)
             else let s = set_sequence SEQ_LZMA_RUN (set_compressed (u32_sub (compressed (s_lzma2 s)) RC_INIT_BYTES) s)
                  in Some (None, dict_update (\<lambda>d. dict_reset d b1) s, b1))
          (start_post m s b)"
      proof (cases fin)
        case True
        have "b_in_pos b1 + input_left ?s3 = b_in_pos b + input_left s"
          using left True fin read rc(1) init comp b1(2) by (simp add: input_left_def seq RC_INIT_BYTES_def)
        then show ?thesis
          using True run io3 out by (simp add: Let_def)
      next
        case False
        have "b_in_pos b1 + input_left ?s1 = b_in_pos b + input_left s"
          using read rc(1) init comp b1(2) by (simp add: input_left_def seq RC_INIT_BYTES_def)
        moreover have "microlzma_ok m ?s1 b1"
          using vb1 link st fresh seq by (simp add: microlzma_ok_def)
        ultimately show ?thesis
          using False io1 io_frame_set_end [of ?s1 s m b m b1 b1] out fin by (simp add: Let_def)
      qed
    qed
  qed
qed

lemma props_fresh:
  assumes "lzma_props s p = (True, s1)" and "temp_size s = 0"
  shows "lzma_fresh s1" and "s_dict s1 = s_dict s" and "s_lzma2 s1 = s_lzma2 s"
    and "init_bytes_left (s_rc s1) = RC_INIT_BYTES" and "temp_size s1 = 0"
proof -
  from assms(1) have "fst (lzma_props s p)" by simp
  then obtain lc lp pb where lc: "lc + lp \<le> 4" "pb < 5"
      and "lzma_props s p = (True, lzma_reset (set_params lc lp pb s))"
    by (rule lzma_props_cases)
  then have s1: "s1 = lzma_reset (set_params lc lp pb s)" using assms(1) by simp
  show "lzma_fresh s1"
    using lzma_ready_reset [OF params_set [OF lc, of s]] assms(2)
    by (simp add: s1 lzma_fresh_def lzma_ready_def lzma_reset_def set_params_def lzma_state_is_literal_def
        LIT_STATES_def RC_INIT_BYTES_def)
  show "s_dict s1 = s_dict s" "s_lzma2 s1 = s_lzma2 s" "init_bytes_left (s_rc s1) = RC_INIT_BYTES" "temp_size s1 = 0"
    using assms(2) by (simp_all add: s1 set_params_def)
qed

lemma start_post_after:
  assumes "s_dict s1 = s_dict s" and "uncompressed (s_lzma2 s1) = uncompressed (s_lzma2 s)"
    and "pedantic_microlzma (s_lzma2 s1) = pedantic_microlzma (s_lzma2 s)" and "input_left s1 = input_left s"
  shows "start_post m s1 b r \<Longrightarrow> start_post m s b r"
  using assms by (cases r) (simp add: io_frame_def)

lemma ok_microlzma_start:
  assumes ok: "microlzma_ok m s b"
  shows "ok (microlzma_start m s b) (start_post m s b)"
proof (cases "sequence (s_lzma2 s)")
  case SEQ_PROPERTIES
  have st: "valid_buf m b" "temp_sep m b" "dict_static m (s_dict s) b" "uncompressed (s_lzma2 s) < 2 ^ 32" "temp_size s = 0"
    using ok by (simp_all add: microlzma_ok_def SEQ_PROPERTIES)
  have refl: "io_frame m s b m (microlzma_set_end b s') b" if "s_dict s' = s_dict s" for s'
    using io_frame_refl [OF st(1), of s] io_frame_set_end [of s' s m b m b b] that by (simp add: io_frame_def)
  show ?thesis
  proof (cases "b_in_pos b \<ge> b_in_size b")
    case True
    then have "b_in_pos b = b_in_size b" using st(1) by (simp add: valid_buf_def)
    then show ?thesis
      using ok refl [of s] by (simp add: microlzma_start_def SEQ_PROPERTIES)
  next
    case False
    then obtain byte where byte: "in_byte m b = Some byte"
      using ok_in_byte [of m b "\<lambda>_. True"] st(1) by (auto simp: ok_iff valid_buf_def)
    obtain good s1 where p: "lzma_props s (NOT byte) = (good, s1)" by (cases "lzma_props s (NOT byte)")
    show ?thesis
    proof (cases good)
      case True
      with p have "lzma_props s (NOT byte) = (True, s1)" by simp
      note f = props_fresh [OF this st(5)]
      let ?s1 = "set_sequence SEQ_LZMA_PREPARE s1"
      have "lzma_fresh ?s1" using f(1) by (rule fresh_upd [rotated 4]) simp_all
      then have "microlzma_ok m ?s1 b" using st f(2,3) by (simp add: microlzma_ok_def)
      then have "ok (microlzma_prepare m ?s1 b) (start_post m ?s1 b)"
        by (rule ok_microlzma_prepare) simp
      moreover have "input_left ?s1 = input_left s"
        using f(3,4) by (simp add: input_left_def SEQ_PROPERTIES)
      ultimately have "ok (microlzma_prepare m ?s1 b) (start_post m s b)"
        using f(2,3) by (auto elim!: ok_mono start_post_after [rotated 4])
      then show ?thesis using False byte p True by (simp add: microlzma_start_def SEQ_PROPERTIES)
    next
      case bad: False
      with p have "s_dict s1 = s_dict s" by (auto simp: lzma_props_def Let_def split: if_splits prod.splits)
      then show ?thesis
        using False byte p bad refl [of s1] by (simp add: microlzma_start_def SEQ_PROPERTIES)
    qed
  qed
next
  case SEQ_LZMA_PREPARE
  then show ?thesis using ok_microlzma_prepare [OF ok] by (simp add: microlzma_start_def)
next
  case SEQ_LZMA_RUN
  have st: "valid_buf m b" "pass_ok m s b" "DEC_IS_SINGLE (d_mode (s_dict s)) \<longrightarrow> d_start (s_dict s) = 0"
    using ok by (simp_all add: microlzma_ok_def SEQ_LZMA_RUN)
  have "microlzma_set_end b s = s"
    using single_or_multi [of "d_mode (s_dict s)"]
  proof
    assume single: "DEC_IS_SINGLE (d_mode (s_dict s))"
    then have "\<not> DEC_IS_MULTI (d_mode (s_dict s))" by (simp add: mode_defs)
    then show ?thesis
      using st single by (intro set_end_id) (auto simp: pass_ok_def dict_link_def)
  qed (rule set_end_multi)
  then show ?thesis
    using st io_frame_refl [OF st(1), of s] by (simp add: microlzma_start_def SEQ_LZMA_RUN)
qed (use ok in \<open>simp_all add: microlzma_ok_def\<close>)

fun micro_post :: "mem \<Rightarrow> xz_dec_lzma2 \<Rightarrow> xz_buf \<Rightarrow> xz_ret \<times> xz_dec_lzma2 \<times> xz_buf \<times> mem \<Rightarrow> bool" where
  "micro_post m s b (ret, s', b', m') \<longleftrightarrow> io_frame m s b m' s' b' \<and>
     (ret = XZ_OK \<and> (b_in_pos b' = b_in_size b' \<or> b_out_pos b' = b_out_size b') \<and>
        b_out_pos b' + uncompressed (s_lzma2 s') = b_out_pos b + uncompressed (s_lzma2 s) \<and>
        (DEC_IS_MULTI (d_mode (s_dict s)) \<longrightarrow> microlzma_ok m' s' b') \<or>
      ret = XZ_STREAM_END \<and> b_out_pos b' = b_out_pos b + uncompressed (s_lzma2 s) \<and>
        (pedantic_microlzma (s_lzma2 s) \<longrightarrow> b_in_pos b' = b_in_pos b + input_left s) \<or>
      ret = XZ_DATA_ERROR)"

lemma dict_static_io:
  assumes "dict_static m (s_dict s) b" and "io_frame m s b m' s' b'"
  shows "dict_static m' (s_dict s') b'"
proof -
  have "b_in b' = b_in b" "b_out b' = b_out b" using assms(2) buf_frame_sel by (auto simp: io_frame_def)
  then show ?thesis
    using assms by (auto simp: dict_static_def io_frame_def same_shape_def)
qed

lemma ok_microlzma_run:
  assumes ok: "microlzma_ok m s b"
  shows "ok (xz_dec_microlzma_run e m s b) (micro_post m s b)"
  unfolding xz_dec_microlzma_run_def
proof (rule ok_bindI [OF ok_microlzma_start [OF ok]], clarify)
  fix r s1 b1 assume post: "start_post m s b (r, s1, b1)"
  have io: "io_frame m s b m (microlzma_set_end b1 s1) b1" using post by simp
  then have io1: "io_frame m s b m s1 b1"
    if "d_mode (s_dict s1) = d_mode (s_dict s)" using that io_frame_set_end by blast
  have mode: "d_mode (s_dict s1) = d_mode (s_dict s)"
    using io by (cases "DEC_IS_SINGLE (d_mode (s_dict s1))") (auto simp: io_frame_def microlzma_set_end_def)
  note io1 = io1 [OF mode]
  show "ok (case r of None \<Rightarrow> microlzma_loop e m (microlzma_set_end b1 s1) b1 | Some ret \<Rightarrow> Some (ret, s1, b1, m))
      (micro_post m s b)"
  proof (cases r)
    case (Some ret)
    with post io1 show ?thesis by (cases ret) auto
  next
    case None
    let ?s = "microlzma_set_end b1 s1"
    have pass: "pass_ok m ?s b1" and seq: "sequence (s_lzma2 s1) = SEQ_LZMA_RUN"
      and acc: "b_out_pos b1 = b_out_pos b" "uncompressed (s_lzma2 s1) = uncompressed (s_lzma2 s)"
        "pedantic_microlzma (s_lzma2 s1) = pedantic_microlzma (s_lzma2 s)" "b_in_pos b1 + input_left s1 = b_in_pos b + input_left s"
      using post by (simp_all add: None)
    have "ok (microlzma_loop e m ?s b1) (micro_post m s b)"
    proof (rule ok_mono [OF ok_microlzma_loop [OF pass]], clarify)
      fix ret s' b' m' assume loop: "loop_post m ?s b1 (ret, s', b', m')"
      then have io': "io_frame m s b m' s' b'" using io_frame_trans [OF io] by simp
      have "microlzma_ok m' s' b'" if "DEC_IS_MULTI (d_mode (s_dict s))" "pass_ok m' s' b'"
          "sequence (s_lzma2 s') = SEQ_LZMA_RUN"
      proof -
        have "dict_static m' (s_dict s') b'"
          using ok by (intro dict_static_io [OF _ io']) (simp add: microlzma_ok_def)
        moreover have "\<not> DEC_IS_SINGLE (d_mode (s_dict s'))"
          using that(1) io' by (auto simp: io_frame_def mode_defs)
        ultimately show ?thesis
          using that by (simp add: microlzma_ok_def pass_ok_def)
      qed
      then show "micro_post m s b (ret, s', b', m')"
        using loop io' acc seq by (auto simp: input_left_def)
    qed
    then show ?thesis by (simp add: None)
  qed
qed

section \<open>Resuming in single-call mode\<close>

text \<open>
  A call with more output space, as \<open>xz.h\<close> allows in single-call mode. The dictionary
  still starts where decoding started, but \<open>microlzma_set_end\<close> makes its end the number of
  bytes that are free now. When the free space is as large as what has been decoded (a
  doubled buffer), there is no space up to that end, and nothing ever changes again.
\<close>

definition stalled :: "mem \<Rightarrow> xz_dec_lzma2 \<Rightarrow> xz_buf \<Rightarrow> bool" where
  "stalled m s b \<longleftrightarrow> DEC_IS_SINGLE (d_mode (s_dict s)) \<and> d_pos (s_dict s) = d_end (s_dict s) \<and>
     d_start (s_dict s) = d_pos (s_dict s) \<and> 0 < uncompressed (s_lzma2 s) \<and>
     b_out_pos b < b_out_size b \<and> b_out_size b < 2 ^ 63 \<and> d_end (s_dict s) < 2 ^ 63 \<and>
     temp_size s = 0 \<and> 0 < compressed (s_lzma2 s) \<and> compressed (s_lzma2 s) \<le> 3 * 2 ^ 30 \<and>
     b_in_pos b + LZMA_IN_REQUIRED \<le> b_in_size b \<and> b_in_size b < 2 ^ 63 \<and>
     16777216 \<le> unat (rc_range (s_rc s))"

lemma no_space_main:
  assumes "d_limit (s_dict s) \<le> d_pos (s_dict s)" and "16777216 \<le> unat (rc_range (s_rc s))"
  shows "lzma_main m s = Some (True, s, m)"
  using assms by (simp add: lzma_main_def dict_has_space_def lzma_symbols.simps [of m s] rc_normalize_def range_test)

lemma stalled_pass:
  assumes "stalled m s b"
  obtains s' where "chunk_pass e m s b = Some (True, s', b, m)" and "stalled m s' b"
proof -
  note st = assms [unfolded stalled_def]
  let ?d = "s_dict s"
  define s1 where "s1 = dict_update (\<lambda>d. d\<lparr>d_limit := d_end d\<rparr>) s"
  have lim: "dict_update (\<lambda>d. dict_limit d (min (sz_sub (b_out_size b) (b_out_pos b)) (uncompressed (s_lzma2 s)))) s = s1"
    using st by (simp add: s1_def dict_limit_def dict_update_def)
  have s1: "d_limit (s_dict s1) = d_pos (s_dict s1)" "d_pos (s_dict s1) = d_pos ?d" "d_start (s_dict s1) = d_pos ?d"
      "d_end (s_dict s1) = d_end ?d" "d_mode (s_dict s1) = d_mode ?d" "temp_size s1 = 0"
      "s_lzma2 s1 = s_lzma2 s" "s_rc s1 = s_rc s"
    using st by (simp_all add: s1_def)
  let ?avail = "b_in_size b - b_in_pos b"
  have avail: "sz_sub (b_in_size b) (b_in_pos b) = ?avail" and le: "LZMA_IN_REQUIRED \<le> ?avail" using st by (simp, linarith)
  define limit where "limit = (if ?avail \<ge> u32_add (compressed (s_lzma2 s)) LZMA_IN_REQUIRED
      then sz_add (b_in_pos b) (compressed (s_lzma2 s)) else sz_sub (b_in_size b) LZMA_IN_REQUIRED)"
  define s2 where "s2 = rc_window (b_in b) (b_in_pos b) limit s1"
  have s2: "s_dict s2 = s_dict s1" "s_lzma2 s2 = s_lzma2 s" "temp_size s2 = 0" "rc_in_pos (s_rc s2) = b_in_pos b"
      "rc_range (s_rc s2) = rc_range (s_rc s)"
    using s1 by (simp_all add: s2_def)
  have "lzma_main m s2 = Some (True, s2, m)"
    using s1 s2 st by (intro no_space_main) simp_all
  moreover have "set_compressed (compressed (s_lzma2 s)) s2 = s2" "b\<lparr>b_in_pos := b_in_pos b\<rparr> = b"
    using s2(2) by (simp_all add: set_compressed_def)
  ultimately have direct: "lzma2_direct m s1 b = Some (None, s2, b, m)"
    unfolding lzma2_direct_def Let_def avail s1(7) limit_def [symmetric] s2_def [symmetric]
    using st s2 le by simp
  have tail: "lzma2_tail m s2 b = Some (s2, b, m)"
    using le unfolding lzma2_tail_def avail by simp
  have decode: "lzma2_lzma m s1 b = Some (True, s2, b, m)"
    using st s1 by (simp add: lzma2_lzma_def direct tail)
  have "dict_flush e m (s_dict s2) b = Some (0, s_dict s2, b, m)"
    using st s1 s2(1) by (simp add: dict_flush_def mode_defs)
  then have pass: "chunk_pass e m s b = Some (True, s2, b, m)"
    using s2(2) by (simp add: chunk_pass_def lim decode set_uncompressed_def)
  have "stalled m s2 b"
    using st s1 s2 by (simp add: stalled_def)
  with pass show ?thesis by (rule that)
qed

lemma stalled_forever:
  assumes "microlzma_loop e m s b = Some r"
  shows "\<not> stalled m s b"
proof (rule microlzma_loop.raw_induct [OF _ assms])
  fix loop e m s b and r :: "xz_ret \<times> xz_dec_lzma2 \<times> xz_buf \<times> mem"
  assume IH: "\<And>e m s b r. loop e m s b = Some r \<Longrightarrow> \<not> stalled m s b"
    and body: "(chunk_pass e m s b \<bind> (\<lambda>(res, s, b, m).
       if \<not> res then Some (XZ_DATA_ERROR, s, b, m)
       else if uncompressed (s_lzma2 s) = 0 then
         if pedantic_microlzma (s_lzma2 s)
            \<and> (compressed (s_lzma2 s) > 0 \<or> lz_len (s_lzma s) > 0 \<or> \<not> rc_is_finished (s_rc s))
         then Some (XZ_DATA_ERROR, s, b, m) else Some (XZ_STREAM_END, s, b, m)
       else if b_out_pos b = b_out_size b then Some (XZ_OK, s, b, m)
       else if b_in_pos b = b_in_size b \<and> temp_size s < compressed (s_lzma2 s) then Some (XZ_OK, s, b, m)
       else loop e m s b)) = Some r"
  show "\<not> stalled m s b"
  proof
    assume "stalled m s b"
    then obtain s' where pass: "chunk_pass e m s b = Some (True, s', b, m)" and st: "stalled m s' b"
      by (rule stalled_pass [where e = e])
    have "loop e m s' b = Some r"
      using body st by (simp add: pass stalled_def LZMA_IN_REQUIRED_def split: if_splits)
    with IH st show False by blast
  qed
qed

section \<open>Allocation and reset\<close>

lemma microlzma_alloc_reset:
  assumes "vmalloc_ok vmalloc" and "xz_dec_microlzma_alloc kmalloc vmalloc m mode dict_size = (Some s, m1)"
    and "usize < 2 ^ 32" and "valid_buf m1 b" and "temp_sep m1 b" and "fst (b_in b) \<noteq> Dict_Block" and "fst (b_out b) \<noteq> Dict_Block"
  shows "microlzma_ok m1 (xz_dec_microlzma_reset s csize usize exact) b"
proof -
  have size: "4096 \<le> dict_size" "dict_size \<le> 3221225472"
    using assms(2) by (simp_all add: xz_dec_microlzma_alloc_def split: if_splits)
  have "dict_static m1 (s_dict s) b"
  proof (cases "DEC_IS_MULTI mode")
    case True
    then show ?thesis
      using assms size by (auto simp: xz_dec_microlzma_alloc_def dict_static_def vmalloc_ok_def Let_def
          split: option.splits dest: spec [of _ dict_size])
  next
    case False
    then show ?thesis
      using assms size by (auto simp: xz_dec_microlzma_alloc_def dict_static_def Let_def split: option.splits)
  qed
  then show ?thesis
    using assms by (simp add: microlzma_ok_def xz_dec_microlzma_reset_def)
qed

section \<open>Properties\<close>





end
