(* ===== verification/Code_Buffer.thy ===== *)
theory Code_Buffer
  imports Prelude
begin

unbundle bit_operations_syntax

text \<open>
  What Dobby's code generators share: \<open>CodeBufferBase\<close>, the vector of bytes that code is
  emitted into, patches (what \<open>DobbyCodePatch\<close> writes to memory), and the reading of words
  and code from a memory, which the processor models of the relocation theories use.
\<close>

section \<open>Results\<close>

text \<open>A fault of the code is a value: \<open>Abort\<close> for the logging macros that end the process,
  \<open>Out_of_bounds\<close> for an access outside a buffer, \<open>Uninitialised\<close> for the use of a variable
  that was never set.\<close>

datatype dobby_fault = Abort | Out_of_bounds | Uninitialised

type_synonym 'a res = "dobby_fault + 'a"

definition and_then :: "'a res \<Rightarrow> ('a \<Rightarrow> 'b res) \<Rightarrow> 'b res" where
  "and_then m f = (case m of Inl e \<Rightarrow> Inl e | Inr x \<Rightarrow> f x)"

lemma and_then_simps [simp]: "and_then (Inl e) f = Inl e" "and_then (Inr x) f = f x"
  by (simp_all add: and_then_def)

section \<open>The code buffer\<close>

text \<open>\<open>CodeBufferBase\<close>: a growing vector of bytes.\<close>

definition Emit8 :: "u8 \<Rightarrow> u8 list \<Rightarrow> u8 list" where
  "Emit8 b buf = buf @ [b]"

definition Emit32 :: "u32 \<Rightarrow> u8 list \<Rightarrow> u8 list" where
  "Emit32 v buf = buf @ le_bytes 4 v"

definition Emit64 :: "u64 \<Rightarrow> u8 list \<Rightarrow> u8 list" where
  "Emit64 v buf = buf @ le_bytes 8 v"

definition EmitBuffer :: "u8 list \<Rightarrow> nat \<Rightarrow> u8 list \<Rightarrow> u8 list" where
  "EmitBuffer src n buf = buf @ take n src"

type_synonym patch = "u64 \<times> u8 list"

section \<open>Blocks of memory\<close>

text \<open>\<open>MemBlock\<close>, which extends \<open>MemRange\<close>, is the type of the blocks of code too.\<close>

record MemBlock =
  mb_start :: u64
  mb_end :: u64
  mb_size :: nat
  mb_addr :: u64

definition new_MemBlock :: "u64 \<Rightarrow> nat \<Rightarrow> MemBlock" where
  "new_MemBlock addr sz = \<lparr>mb_start = addr, mb_end = addr + word_of_nat sz, mb_size = sz, mb_addr = addr\<rparr>"

definition block_reset :: "u64 \<Rightarrow> nat \<Rightarrow> MemBlock \<Rightarrow> MemBlock" where
  "block_reset addr sz blk =
     blk\<lparr>mb_start := addr, mb_size := sz, mb_end := addr + word_of_nat sz\<rparr>\<lparr>mb_addr := addr\<rparr>"

section \<open>Bytes of a word\<close>

definition le_word :: "u8 list \<Rightarrow> 'a :: len word" where
  "le_word bs = word_of_int (horner_sum uint 256 bs)"

lemma horner_le_bytes: "horner_sum uint 256 (le_bytes n w) = uint w mod 2 ^ (8 * n)"
proof (induction n arbitrary: w)
  case 0
  then show ?case by (simp add: le_bytes_def)
next
  case (Suc n)
  have "uint (ucast w :: u8) = uint w mod 256" by (simp add: uint_up_ucast unsigned_ucast_eq take_bit_eq_mod)
  moreover have "uint (drop_bit 8 w) = uint w div 256"
    using uint_lt2p [of w] by (simp only: unsigned_drop_bit_eq) (simp add: drop_bit_eq_div take_bit_int_eq_self)
  moreover have "uint w mod 256 + 256 * (uint w div 256 mod 2 ^ (8 * n)) = uint w mod (256 * 2 ^ (8 * n))"
    by (simp add: zmod_zmult2_eq)
  ultimately show ?case by (simp add: le_bytes_Suc Suc power_add)
qed

lemma le_word_bytes: "le_word (le_bytes 4 (w :: u32)) = w" "le_word (le_bytes 8 (v :: u64)) = v"
  using uint_lt2p [of w] uint_lt2p [of v] by (simp_all add: le_word_def horner_le_bytes)

lemma le_word_bytes_32: "(le_word (le_bytes 4 (w :: u32)) :: u64) = ucast w"
  using uint_lt2p [of w] by (simp add: le_word_def horner_le_bytes)

lemma horner_uint_bounds: "0 \<le> horner_sum uint 256 (bs :: u8 list) \<and> horner_sum uint 256 bs < 256 ^ length bs"
proof (induction bs)
  case (Cons b bs)
  moreover have "0 \<le> uint b" "uint b < 256" using uint_lt2p [of b] by simp_all
  ultimately show ?case by simp
qed simp

lemma le_word_4:
  assumes "length bs = 4"
  shows "(le_word bs :: u64) = ucast (le_word bs :: u32)"
proof -
  have "take_bit 32 (horner_sum uint 256 bs) = horner_sum uint 256 bs"
    using horner_uint_bounds [of bs] assms by (intro take_bit_int_eq_self) simp_all
  then show ?thesis by (simp add: le_word_def ucast_eq uint_word_of_int_eq)
qed

section \<open>Memory\<close>

definition fetch :: "(u64 \<Rightarrow> u8) \<Rightarrow> u64 \<Rightarrow> nat \<Rightarrow> u8 list" where
  "fetch m a n = map (\<lambda>k. m (a + word_of_nat k)) [0..<n]"

definition loaded :: "(u64 \<Rightarrow> u8) \<Rightarrow> u64 \<Rightarrow> u8 list \<Rightarrow> bool" where
  "loaded m a bs \<longleftrightarrow> fetch m a (length bs) = bs"

definition inst_at :: "(u64 \<Rightarrow> u8) \<Rightarrow> u64 \<Rightarrow> u32" where
  "inst_at m a = le_word (fetch m a 4)"

lemma length_fetch [simp]: "length (fetch m a n) = n"
  by (simp add: fetch_def)

lemma nth_fetch: "k < n \<Longrightarrow> fetch m a n ! k = m (a + word_of_nat k)"
  by (simp add: fetch_def)

lemma loaded_nth:
  assumes "loaded m a bs" and "k < length bs"
  shows "m (a + word_of_nat k) = bs ! k"
proof -
  have "fetch m a (length bs) ! k = bs ! k" using assms(1) by (simp add: loaded_def)
  then show ?thesis using assms(2) by (simp add: nth_fetch)
qed

lemma fetch_add: "fetch m a (i + n) = fetch m a i @ fetch m (a + word_of_nat i) n"
  by (rule nth_equalityI) (auto simp: nth_append nth_fetch add.assoc of_nat_diff)

lemma loaded_append: "loaded m a (bs @ cs) \<longleftrightarrow> loaded m a bs \<and> loaded m (a + word_of_nat (length bs)) cs"
  by (simp add: loaded_def fetch_add append_eq_append_conv)

lemma loaded_Cons: "loaded m a (b # bs) \<longleftrightarrow> m a = b \<and> loaded m (a + 1) bs"
  using loaded_append [of m a "[b]" bs] by (simp add: loaded_def [of m a "[b]"] fetch_def)

end
