(* ===== verification/X86_Decode.thy ===== *)
theory X86_Decode
  imports X86_Tables Code_Buffer
begin

unbundle bit_operations_syntax

text \<open>
  Dobby's x86 instruction decoder (\<open>x86_insn_decode.c\<close>, \<open>x86_insn_reader.c\<close>). The hooking
  code uses it to split the first instructions of a function, so what matters most is the
  length it computes.

  A fault is a value (theory \<open>Code_Buffer\<close>): here \<open>Abort\<close> comes from the logging macros,
  \<open>Out_of_bounds\<close> is a read outside the reader's buffer or an operand array.
\<close>

section \<open>The decoded instruction\<close>

definition X86_INSN_DECODE_FLAG_HAS_BASE :: u32 where "X86_INSN_DECODE_FLAG_HAS_BASE = 1"
definition X86_INSN_DECODE_FLAG_HAS_INDEX :: u32 where "X86_INSN_DECODE_FLAG_HAS_INDEX = 2"
definition X86_INSN_DECODE_FLAG_IS_ADDRESS :: u32 where "X86_INSN_DECODE_FLAG_IS_ADDRESS = 4"
definition X86_INSN_DECODE_FLAG_IP_RELATIVE :: u32 where "X86_INSN_DECODE_FLAG_IP_RELATIVE = 8"
definition X86_INSN_DECODE_FLAG_OPERAND_SIZE_64 :: u32 where "X86_INSN_DECODE_FLAG_OPERAND_SIZE_64 = 16"

definition INSN_PREFIX_LOCK :: u32 where "INSN_PREFIX_LOCK = 0x01"
definition INSN_PREFIX_REPNE :: u32 where "INSN_PREFIX_REPNE = 0x02"
definition INSN_PREFIX_REPE :: u32 where "INSN_PREFIX_REPE = 0x04"
definition INSN_PREFIX_ES :: u32 where "INSN_PREFIX_ES = 0x0008"
definition INSN_PREFIX_CS :: u32 where "INSN_PREFIX_CS = 0x0010"
definition INSN_PREFIX_SS :: u32 where "INSN_PREFIX_SS = 0x0020"
definition INSN_PREFIX_DS :: u32 where "INSN_PREFIX_DS = 0x0040"
definition INSN_PREFIX_FS :: u32 where "INSN_PREFIX_FS = 0x0080"
definition INSN_PREFIX_GS :: u32 where "INSN_PREFIX_GS = 0x0100"
definition INSN_PREFIX_OPERAND_SIZE :: u32 where "INSN_PREFIX_OPERAND_SIZE = 0x0200"
definition INSN_PREFIX_ADDRESS_SIZE :: u32 where "INSN_PREFIX_ADDRESS_SIZE = 0x0400"

text \<open>\<open>foreach_x86_gp_register\<close> and \<open>x86_ia32e_register_t\<close>; only the values the decoder names.\<close>

definition X86_INSN_GP_REG_BX :: u8 where "X86_INSN_GP_REG_BX = 3"
definition X86_INSN_GP_REG_SP :: u8 where "X86_INSN_GP_REG_SP = 4"
definition X86_INSN_GP_REG_BP :: u8 where "X86_INSN_GP_REG_BP = 5"
definition X86_INSN_GP_REG_SI :: u8 where "X86_INSN_GP_REG_SI = 6"
definition RNone :: u8 where "RNone = 0"
definition RBP :: u8 where "RBP = 7"
definition R13 :: u8 where "R13 = 14"
definition RIP :: u8 where "RIP = 17"

record x86_insn_operand =
  o_reg :: u8
  m_base :: u8
  m_index :: u8
  m_scale :: u8
  m_disp :: u32

record x86_insn =
  i_flags :: u32
  i_length :: u32
  displacement_offset :: u8
  immediate_offset :: u8
  operands :: "x86_insn_operand list"
  i_prefix :: u32
  i_rex :: u8
  primary_opcode :: u8
  i_modrm :: u8
  i_sib :: u8
  immediate :: u64
  insn_spec :: x86_insn_spec

definition zero_insn :: x86_insn where
  \<comment> \<open>what the callers pass: \<open>memset(&insn, 0, sizeof(insn))\<close>\<close>
  "zero_insn = \<lparr>i_flags = 0, i_length = 0, displacement_offset = 0, immediate_offset = 0,
     operands = replicate 3 \<lparr>o_reg = 0, m_base = 0, m_index = 0, m_scale = 0, m_disp = 0\<rparr>,
     i_prefix = 0, i_rex = 0, primary_opcode = 0, i_modrm = 0, i_sib = 0, immediate = 0, insn_spec = zero_spec\<rparr>"

definition upd_operand :: "nat \<Rightarrow> (x86_insn_operand \<Rightarrow> x86_insn_operand) \<Rightarrow> x86_insn \<Rightarrow> x86_insn" where
  "upd_operand k f i = i\<lparr>operands := (operands i)[k := f (operands i ! k)]\<rparr>"

definition add_flags :: "u32 \<Rightarrow> x86_insn \<Rightarrow> x86_insn" where
  "add_flags f i = i\<lparr>i_flags := i_flags i OR f\<rparr>"

definition modrm_rm :: "u8 \<Rightarrow> u8" where "modrm_rm b = b AND 7"
definition modrm_reg :: "u8 \<Rightarrow> u8" where "modrm_reg b = drop_bit 3 b AND 7"
definition modrm_mode :: "u8 \<Rightarrow> u8" where "modrm_mode b = drop_bit 6 b"
definition sib_base :: "u8 \<Rightarrow> u8" where "sib_base b = b AND 7"
definition sib_index :: "u8 \<Rightarrow> u8" where "sib_index b = drop_bit 3 b AND 7"
definition sib_log2_scale :: "u8 \<Rightarrow> u8" where "sib_log2_scale b = drop_bit 6 b"

definition REX_W :: "u8 \<Rightarrow> u8" where "REX_W b = drop_bit 3 (b AND 0x08)"
definition REX_R :: "u8 \<Rightarrow> u8" where "REX_R b = drop_bit 2 (b AND 0x04)"
definition REX_X :: "u8 \<Rightarrow> u8" where "REX_X b = drop_bit 1 (b AND 0x02)"
definition REX_B :: "u8 \<Rightarrow> u8" where "REX_B b = b AND 0x01"

section \<open>The reader\<close>

record x86_insn_reader =
  rd_prefix :: nat
  rd_opcode :: nat
  rd_modrm :: nat
  rd_cursor :: nat
  rd_bytes :: "u8 list"
  rd_local :: bool
  \<comment> \<open>the pointers are offsets into \<open>rd_bytes\<close>: \<open>rd->buffer\<close>, or (not \<open>rd_local\<close>) the caller's memory\<close>

definition init_reader :: "u8 list \<Rightarrow> x86_insn_reader" where
  \<comment> \<open>the argument is the memory from \<open>begin\<close> to the end pointer\<close>
  "init_reader m =
     \<lparr>rd_prefix = 0, rd_opcode = 0, rd_modrm = 0, rd_cursor = 0,
      rd_bytes = (if length m < 20 then m @ replicate (20 - length m) 0xcc else m), rd_local = (length m < 20)\<rparr>"

definition reader_offset :: "x86_insn_reader \<Rightarrow> nat res" where
  \<comment> \<open>the distance from \<open>rd->buffer\<close>\<close>
  "reader_offset rd = (if rd_local rd then Inr (rd_cursor rd) else Inl Uninitialised)"

definition peek_byte :: "x86_insn_reader \<Rightarrow> u8 res" where
  "peek_byte rd = (if rd_cursor rd < length (rd_bytes rd) then Inr (rd_bytes rd ! rd_cursor rd) else Inl Out_of_bounds)"

definition read_le :: "nat \<Rightarrow> nat \<Rightarrow> x86_insn_reader \<Rightarrow> ('a :: len word \<times> x86_insn_reader) res" where
  \<comment> \<open>\<open>n\<close> bytes, least significant first; the cursor advances by \<open>k\<close>\<close>
  "read_le n k rd =
     (if rd_cursor rd + n \<le> length (rd_bytes rd)
      then Inr (word_of_int (horner_sum uint 256 (take n (drop (rd_cursor rd) (rd_bytes rd)))), rd\<lparr>rd_cursor := rd_cursor rd + k\<rparr>)
      else Inl Out_of_bounds)"

definition read_byte :: "x86_insn_reader \<Rightarrow> (u8 \<times> x86_insn_reader) res" where
  "read_byte rd = read_le 1 1 rd"

definition read_word :: "x86_insn_reader \<Rightarrow> (u16 \<times> x86_insn_reader) res" where
  "read_word rd = read_le 2 2 rd"

definition read_dword :: "x86_insn_reader \<Rightarrow> (u32 \<times> x86_insn_reader) res" where
  "read_dword rd = read_le 4 4 rd"

definition read_qword :: "x86_insn_reader \<Rightarrow> (u64 \<times> x86_insn_reader) res" where
  \<comment> \<open>the cursor advances by four\<close>
  "read_qword rd = read_le 8 4 rd"

definition read_imm :: "x86_insn_reader \<Rightarrow> int \<Rightarrow> (u32 \<times> x86_insn_reader) res" where
  "read_imm rd sz =
     (if sz = 8 then and_then (read_byte rd) (\<lambda>(v, rd). Inr (ucast v, rd))
      else if sz = 16 then and_then (read_word rd) (\<lambda>(v, rd). Inr (ucast v, rd))
      else if sz = 32 then read_dword rd else Inr (0, rd))"

definition read_modrm :: "x86_insn_reader \<Rightarrow> (u8 \<times> x86_insn_reader) res" where
  "read_modrm rd =
     (let rd = (if rd_cursor rd = rd_modrm rd then rd\<lparr>rd_cursor := rd_cursor rd + 1\<rparr> else rd) in
      if rd_modrm rd < length (rd_bytes rd) then Inr (rd_bytes rd ! rd_modrm rd, rd) else Inl Out_of_bounds)"

definition continue_modrm :: "x86_insn_reader \<Rightarrow> x86_insn_reader" where
  "continue_modrm rd = rd\<lparr>rd_modrm := rd_cursor rd\<rparr>"

definition continue_opcode :: "x86_insn_reader \<Rightarrow> x86_insn_reader" where
  "continue_opcode rd = rd\<lparr>rd_modrm := rd_cursor rd, rd_opcode := rd_cursor rd\<rparr>"

section \<open>Prefixes and opcode\<close>

definition legacy_prefix :: "u8 \<Rightarrow> u32" where
  "legacy_prefix c =
     (if c = 0xF0 then INSN_PREFIX_LOCK
      else if c = 0xF2 then INSN_PREFIX_REPNE
      else if c = 0xF3 then INSN_PREFIX_REPE
      else if c = 0x2E then INSN_PREFIX_CS
      else if c = 0x36 then INSN_PREFIX_SS
      else if c = 0x3E then INSN_PREFIX_DS
      else if c = 0x26 then INSN_PREFIX_ES
      else if c = 0x64 then INSN_PREFIX_FS
      else if c = 0x65 then INSN_PREFIX_GS
      else if c = 0x66 then INSN_PREFIX_OPERAND_SIZE
      else if c = 0x67 then INSN_PREFIX_ADDRESS_SIZE
      else 0)"

function x86_insn_decode_prefix :: "x86_insn_reader \<Rightarrow> x86_insn \<Rightarrow> int \<Rightarrow> u32 \<Rightarrow> (u32 \<times> x86_insn_reader \<times> x86_insn) res" where
  \<comment> \<open>\<open>p\<close> is \<open>insn_prefix\<close>, zero at first\<close>
  "x86_insn_decode_prefix rd i mode p =
     (case peek_byte rd of Inl e \<Rightarrow> Inl e
      | Inr c \<Rightarrow>
          if mode = 64 \<and> c \<ge> 0x40 \<and> c \<le> 0x4f then
            and_then (read_byte rd) (\<lambda>(rex, rd).
              Inr (p, rd, (if REX_W rex \<noteq> 0 then add_flags X86_INSN_DECODE_FLAG_OPERAND_SIZE_64 i else i)\<lparr>i_rex := rex\<rparr>))
          else if legacy_prefix c = 0 then Inr (p, rd, i)
          else (case read_byte rd of Inl e \<Rightarrow> Inl e
                | Inr (_, rd) \<Rightarrow> x86_insn_decode_prefix rd i mode (p OR legacy_prefix c)))"
  by pat_completeness auto
termination
  by (relation "measure (\<lambda>(rd, _). length (rd_bytes rd) - rd_cursor rd)")
     (auto simp: peek_byte_def read_byte_def read_le_def split: if_splits)

declare x86_insn_decode_prefix.simps [simp del]

definition x86_insn_has_modrm_byte :: "x86_insn_spec \<Rightarrow> bool" where
  "x86_insn_has_modrm_byte s = list_ex (\<lambda>(code, ty). code = CHR ''G'' \<or> code = CHR ''E'' \<or> code = CHR ''M'' \<or> code = CHR ''R'') (spec_operands s)"

definition is_imm_code :: "char \<Rightarrow> bool" where
  "is_imm_code c \<longleftrightarrow> c = CHR ''J'' \<or> c = CHR ''I'' \<or> c = CHR ''O''"

definition x86_insn_immediate_type :: "x86_insn_spec \<Rightarrow> char res" where
  \<comment> \<open>the loop runs to \<open>sizeof(insn->operands)\<close>, six, in an array of three\<close>
  "x86_insn_immediate_type s =
     (case find (\<lambda>(code, ty). is_imm_code code) (spec_operands s) of
        Some (code, ty) \<Rightarrow> Inr ty | None \<Rightarrow> Inl Out_of_bounds)"

definition x86_insn_has_immediate :: "x86_insn_spec \<Rightarrow> bool" where
  "x86_insn_has_immediate s = list_ex (\<lambda>(code, ty). is_imm_code code) (spec_operands s)"

definition x86_insn_decode_number :: "x86_insn_reader \<Rightarrow> u8 \<Rightarrow> (u64 \<times> x86_insn_reader) res" where
  "x86_insn_decode_number rd number_bits =
     (if number_bits = 64 then read_qword rd
      else if number_bits = 32 then and_then (read_dword rd) (\<lambda>(v, rd). Inr (ucast v, rd))
      else if number_bits = 16 then and_then (read_word rd) (\<lambda>(v, rd). Inr (ucast v, rd))
      else if number_bits = 8 then and_then (read_byte rd) (\<lambda>(v, rd). Inr (ucast v, rd))
      else Inl Abort)"

definition group_spec :: "x86_insn_reader \<Rightarrow> x86_insn_spec \<Rightarrow> x86_insn_spec res" where
  \<comment> \<open>an SSE group is not implemented; in another group the reg field of the next byte gives name and flags\<close>
  "group_spec rd spec =
     (let group = X86_INSN_FLAG_GET_GROUP (spec_flags spec) in
      if group > X86_INSN_SSE_GROUP_START then Inl Abort
      else if group > X86_INSN_GROUP_START \<and> group < X86_INSN_SSE_GROUP_START
      then and_then (peek_byte rd) (\<lambda>modrm.
        let group_insn = x86_insn_modrm_reg_groups ! group ! unat (modrm_reg modrm) in
        Inr (spec\<lparr>spec_name := spec_name group_insn, spec_flags := spec_flags group_insn\<rparr>))
      else Inr spec)"

definition x86_insn_decode_opcode :: "x86_insn_reader \<Rightarrow> x86_insn \<Rightarrow> (x86_insn_reader \<times> x86_insn) res" where
  "x86_insn_decode_opcode rd i =
     and_then (read_byte rd) (\<lambda>(opcode, rd).
     and_then (if opcode = 0x0f
               then and_then (read_byte rd) (\<lambda>(opcode, rd). Inr (opcode, x86_opcode_map_two_byte ! unat opcode, rd))
               else Inr (opcode, x86_opcode_map_one_byte ! unat opcode, rd)) (\<lambda>(opcode, spec, rd).
     and_then (group_spec rd spec) (\<lambda>spec.
     Inr (rd, i\<lparr>primary_opcode := opcode, insn_spec := spec\<rparr>))))"

section \<open>ModR/M, SIB and displacement\<close>

definition effective_address_bits :: "int \<Rightarrow> u32 \<Rightarrow> u8 res" where
  \<comment> \<open>in 16-bit mode the variable stays uninitialised\<close>
  "effective_address_bits mode prefix =
     (if mode = 64 then Inr (if prefix AND INSN_PREFIX_ADDRESS_SIZE \<noteq> 0 then 32 else 64)
      else if mode = 32 then Inr (if prefix AND INSN_PREFIX_ADDRESS_SIZE \<noteq> 0 then 16 else 32)
      else Inl Uninitialised)"

definition modrm_base :: "u8 \<Rightarrow> u8 \<Rightarrow> x86_insn \<Rightarrow> u8 \<times> x86_insn" where
  \<comment> \<open>the base register named by the ModR/M byte; also returns \<open>disp_bits\<close>\<close>
  "modrm_base md rm i =
     (let i = add_flags X86_INSN_DECODE_FLAG_HAS_BASE (upd_operand 1 (\<lambda>x. x\<lparr>m_base := rm\<rparr>) i) in
      if md = 0 \<and> rm AND 7 = 5
      then (32, upd_operand 1 (\<lambda>x. x\<lparr>m_base := RIP\<rparr>) (i\<lparr>i_flags := X86_INSN_DECODE_FLAG_IP_RELATIVE\<rparr>))
      else (if md = 1 then 8 else if md = 2 then 32 else 0, i))"

definition sib_fields :: "u8 \<Rightarrow> x86_insn \<Rightarrow> x86_insn" where
  "sib_fields sib i =
     (let i = i\<lparr>i_sib := sib\<rparr>;
          base = sib_base sib OR push_bit 3 (REX_B (i_rex i));
          index = sib_index sib OR push_bit 3 (REX_X (i_rex i));
          scale = push_bit (unat (sib_log2_scale sib)) 1;
          i = add_flags X86_INSN_DECODE_FLAG_HAS_BASE i;
          i = (if sib_index sib \<noteq> X86_INSN_GP_REG_SP then add_flags X86_INSN_DECODE_FLAG_HAS_INDEX i else i);
          i = upd_operand 1 (\<lambda>x. x\<lparr>m_base := base, m_index := index, m_scale := scale\<rparr>) i
      in if sib_index sib = X86_INSN_GP_REG_SP
         then upd_operand 1 (\<lambda>x. x\<lparr>m_index := RNone, m_scale := 0\<rparr>) i else i)"

definition sib_no_base :: "u8 \<Rightarrow> u8 \<Rightarrow> u8 \<Rightarrow> x86_insn \<Rightarrow> u8 \<times> x86_insn" where
  \<comment> \<open>the two blocks for 64 and 32 bit addresses\<close>
  "sib_no_base eab md disp_bits i =
     (let base = m_base (operands i ! 1) in
      if eab = 64 \<and> (base = RBP \<or> base = R13) \<or> eab = 32 \<and> base = RBP
      then (if md = 1 then 8 else 32, if md = 0 then upd_operand 1 (\<lambda>x. x\<lparr>m_base := RNone\<rparr>) i else i)
      else (disp_bits, i))"

definition decode_sib :: "u8 \<Rightarrow> u8 \<Rightarrow> u8 \<Rightarrow> x86_insn_reader \<Rightarrow> x86_insn \<Rightarrow> (u8 \<times> x86_insn_reader \<times> x86_insn) res" where
  "decode_sib eab md disp_bits rd i =
     and_then (read_byte rd) (\<lambda>(sib, rd).
       let (disp_bits, i) = sib_no_base eab md disp_bits (sib_fields sib i);
           i = (if eab = 64 \<and> sib_index sib \<noteq> X86_INSN_GP_REG_SP then add_flags X86_INSN_DECODE_FLAG_HAS_INDEX i else i)
       in Inr (disp_bits, rd, i))"

definition modrm_16 :: "u8 \<Rightarrow> x86_insn \<Rightarrow> u8 \<times> x86_insn" where
  \<comment> \<open>16-bit addresses; \<open>disp_bits\<close> is 255 (\<open>-1\<close>) before\<close>
  "modrm_16 modrm i =
     (let md = modrm_mode modrm; rm = modrm_rm modrm;
          both = X86_INSN_DECODE_FLAG_HAS_BASE OR X86_INSN_DECODE_FLAG_HAS_INDEX
      in if md = 0 \<and> rm = 6 then (16, i)
         else if md = 3 then (255, i)
         else
          (if md \<noteq> 0 then (if md = 1 then 8 else 16) else 255,
           if rm = 0 \<or> rm = 1 then
             add_flags both (upd_operand 1 (\<lambda>x. x\<lparr>m_base := X86_INSN_GP_REG_BX, m_index := X86_INSN_GP_REG_SI + (rm AND 1)\<rparr>) i)
           else if rm = 2 \<or> rm = 3 then
             add_flags both (upd_operand 1 (\<lambda>x. x\<lparr>m_base := X86_INSN_GP_REG_BP, m_index := X86_INSN_GP_REG_SI + (rm AND 1)\<rparr>) i)
           else if rm = 4 \<or> rm = 5 then
             add_flags X86_INSN_DECODE_FLAG_HAS_BASE (upd_operand 1 (\<lambda>x. x\<lparr>m_base := X86_INSN_GP_REG_SI + (rm AND 1)\<rparr>) i)
           else if rm = 6 then
             add_flags X86_INSN_DECODE_FLAG_HAS_BASE (upd_operand 1 (\<lambda>x. x\<lparr>m_base := X86_INSN_GP_REG_BP\<rparr>) i)
           else
             add_flags X86_INSN_DECODE_FLAG_HAS_BASE (upd_operand 1 (\<lambda>x. x\<lparr>m_base := X86_INSN_GP_REG_BX\<rparr>) i)))"

definition decode_displacement :: "u8 \<Rightarrow> x86_insn_reader \<Rightarrow> x86_insn \<Rightarrow> (x86_insn_reader \<times> x86_insn) res" where
  "decode_displacement disp_bits rd i =
     (if disp_bits \<noteq> 0 then
        and_then (reader_offset rd) (\<lambda>off.
        and_then (x86_insn_decode_number rd disp_bits) (\<lambda>(disp, rd).
          Inr (rd, upd_operand 1 (\<lambda>x. x\<lparr>m_disp := ucast disp\<rparr>) (i\<lparr>displacement_offset := word_of_nat off\<rparr>))))
      else Inr (rd, i))"

definition x86_insn_decode_modrm_sib :: "x86_insn_reader \<Rightarrow> x86_insn \<Rightarrow> int \<Rightarrow> (x86_insn_reader \<times> x86_insn) res" where
  "x86_insn_decode_modrm_sib rd i mode =
     and_then (read_byte rd) (\<lambda>(modrm, rd).
     let i = i\<lparr>i_modrm := modrm\<rparr>;
         md = modrm_mode modrm;
         rm = push_bit 3 (REX_B (i_rex i)) OR modrm_rm modrm;
         reg = push_bit 3 (REX_R (i_rex i)) OR modrm_reg modrm;
         i = upd_operand 0 (\<lambda>x. x\<lparr>o_reg := reg\<rparr>) i
     in if md = 3 then Inr (rd, upd_operand 1 (\<lambda>x. x\<lparr>o_reg := rm\<rparr>) i)
     else
       let i = add_flags X86_INSN_DECODE_FLAG_IS_ADDRESS i in
       and_then (effective_address_bits mode (i_prefix i)) (\<lambda>eab.
       and_then
         (if eab = 32 \<or> eab = 64 then
            let (disp_bits, i) = modrm_base md rm i in
            if rm AND 7 = 4 then decode_sib eab md disp_bits rd i else Inr (disp_bits, rd, i)
          else let (disp_bits, i) = modrm_16 modrm i in Inr (disp_bits, rd, i)) (\<lambda>(disp_bits, rd, i).
       decode_displacement disp_bits rd i)))"

section \<open>Immediates, and the whole\<close>

definition x86_insn_imm_bits :: "x86_insn_spec \<Rightarrow> u8 \<Rightarrow> u8 res" where
  "x86_insn_imm_bits s operand_bits =
     and_then (x86_insn_immediate_type s) (\<lambda>t. Inr
       (if t = CHR ''b'' then 8 else if t = CHR ''w'' then 16 else if t = CHR ''d'' then 32 else if t = CHR ''q'' then 64
        else if t = CHR ''z'' then (if operand_bits = 64 then 32 else operand_bits)
        else if t = CHR ''v'' then operand_bits else 0))"

definition effective_operand_bits :: "int \<Rightarrow> x86_insn \<Rightarrow> u8" where
  "effective_operand_bits mode i =
     (let bits = (if i_prefix i AND INSN_PREFIX_OPERAND_SIZE \<noteq> 0 then 16 else 32);
          bits = (if i_flags i AND X86_INSN_DECODE_FLAG_OPERAND_SIZE_64 \<noteq> 0 then 64 else bits)
      in if mode = 64 \<and> spec_flags (insn_spec i) AND X86_INSN_SPEC_DEFAULT_64_BIT \<noteq> 0 then 64 else bits)"

definition x86_insn_decode_immediate :: "x86_insn_reader \<Rightarrow> x86_insn \<Rightarrow> int \<Rightarrow> (x86_insn_reader \<times> x86_insn) res" where
  "x86_insn_decode_immediate rd i mode =
     and_then (x86_insn_imm_bits (insn_spec i) (effective_operand_bits mode i)) (\<lambda>imm_bits.
     if imm_bits = 0 then Inr (rd, i)
     else and_then (reader_offset rd) (\<lambda>off.
          and_then (x86_insn_decode_number rd imm_bits) (\<lambda>(v, rd).
            Inr (rd, i\<lparr>immediate_offset := word_of_nat off, immediate := v\<rparr>))))"

definition x86_insn_decode :: "x86_insn \<Rightarrow> u8 list \<Rightarrow> int \<Rightarrow> x86_insn res" where
  \<comment> \<open>the second argument is the memory at \<open>buffer\<close>, of which 15 bytes are read\<close>
  "x86_insn_decode i buffer mode =
     (if length buffer < 15 then Inl Out_of_bounds
      else let rd = init_reader (take 15 buffer) in
        and_then (x86_insn_decode_prefix rd i mode 0) (\<lambda>(p, rd, i).
        and_then (x86_insn_decode_opcode rd (i\<lparr>i_prefix := p\<rparr>)) (\<lambda>(rd, i).
        and_then (if x86_insn_has_modrm_byte (insn_spec i) then x86_insn_decode_modrm_sib rd i mode else Inr (rd, i)) (\<lambda>(rd, i).
        and_then (if x86_insn_has_immediate (insn_spec i) then x86_insn_decode_immediate rd i mode else Inr (rd, i)) (\<lambda>(rd, i).
        and_then (reader_offset rd) (\<lambda>len. Inr (i\<lparr>i_length := word_of_nat len\<rparr>)))))))"

end
