(* ===== verification/X86_Length.thy ===== *)
theory X86_Length
  imports X86_Decode
begin

unbundle bit_operations_syntax

text \<open>
  The lengths the decoder computes, against the lengths the processor manual gives (64-bit
  mode, one-byte opcodes). The manual's opcode map is \<open>manual_one_byte\<close>, its addressing forms
  are \<open>manual_modrm_length\<close>. The comparison of the two opcode maps is a computation over all
  256 entries; the theorem says that the decoder is right on every instruction outside a list
  of misread forms, and the concrete lengths below say that it is wrong on forms that real
  function prologues contain.
\<close>

section \<open>The manual\<close>

text \<open>What follows the opcode. \<open>Imm_Z\<close>: 16 or 32 bits by operand size; \<open>Imm_V\<close>: also 64;
  \<open>Imm_Enter\<close>: 16 and 8 bits; \<open>Imm_Moffs\<close>: an address; \<open>Imm_Test\<close>: only if the reg field is 0 or 1.\<close>

datatype imm_kind = No_Imm | Imm8 | Imm16 | Imm_Z | Imm_V | Imm_Enter | Imm_Moffs | Imm_Test8 | Imm_TestZ

type_synonym format = "(bool \<times> imm_kind) option"

abbreviation (input) "NN \<equiv> Some (False, No_Imm)"
abbreviation (input) "XX \<equiv> None"
abbreviation (input) "MM \<equiv> Some (True, No_Imm)"
abbreviation (input) "I8 \<equiv> Some (False, Imm8)"
abbreviation (input) "IZ \<equiv> Some (False, Imm_Z)"
abbreviation (input) "MI8 \<equiv> Some (True, Imm8)"
abbreviation (input) "MIZ \<equiv> Some (True, Imm_Z)"

text \<open>Is there a ModR/M byte, and what immediate follows? \<open>None\<close>: a prefix, an escape, or no
  instruction in 64-bit mode.\<close>

definition manual_one_byte :: "format list" where
  "manual_one_byte =
     concat (replicate 8 [MM, MM, MM, MM, I8, IZ, XX, XX]) @
     replicate 16 XX @
     replicate 16 NN @
     [XX, XX, XX, MM, XX, XX, XX, XX, IZ, MIZ, I8, MI8, NN, NN, NN, NN] @
     replicate 16 I8 @
     [MI8, MIZ, XX, MI8] @ replicate 12 MM @
     replicate 10 NN @ [XX] @ replicate 5 NN @
     replicate 4 (Some (False, Imm_Moffs)) @ replicate 4 NN @ [I8, IZ] @ replicate 6 NN @
     replicate 8 I8 @ replicate 8 (Some (False, Imm_V)) @
     [MI8, MI8, Some (False, Imm16), NN, XX, XX, MI8, MIZ, Some (False, Imm_Enter), NN, Some (False, Imm16), NN, NN, I8, XX, NN] @
     replicate 4 MM @ replicate 3 XX @ [NN] @ replicate 8 MM @
     replicate 8 I8 @ [IZ, IZ, XX, I8] @ replicate 4 NN @
     [XX, NN, XX, XX, NN, NN, Some (True, Imm_Test8), Some (True, Imm_TestZ)] @ replicate 6 NN @ [MM, MM]"

definition manual_modrm_length :: "u8 \<Rightarrow> u8 \<Rightarrow> nat" where
  \<comment> \<open>ModR/M byte, SIB byte and displacement; \<open>sib\<close> is the byte after the ModR/M byte\<close>
  "manual_modrm_length modrm sib =
     (let md = modrm_mode modrm; rm = modrm_rm modrm in
      1 + (if md \<noteq> 3 \<and> rm = 4 then 1 else 0) +
      (if md = 1 then 1 else if md = 2 then 4
       else if md = 0 \<and> (rm = 5 \<or> rm = 4 \<and> sib_base sib = 5) then 4 else 0))"

definition manual_imm_length :: "u8 \<Rightarrow> imm_kind \<Rightarrow> bool \<Rightarrow> bool \<Rightarrow> bool \<Rightarrow> u8 \<Rightarrow> nat" where
  \<comment> \<open>\<open>w\<close>: REX.W, \<open>p66\<close>, \<open>p67\<close>: operand and address size prefixes; near branches always have 32 bits\<close>
  "manual_imm_length op k w p66 p67 modrm =
     (let z = (if \<not> w \<and> p66 \<and> op \<noteq> 0xe8 \<and> op \<noteq> 0xe9 then 2 else 4) in
      case k of No_Imm \<Rightarrow> 0 | Imm8 \<Rightarrow> 1 | Imm16 \<Rightarrow> 2 | Imm_Z \<Rightarrow> z
      | Imm_V \<Rightarrow> (if w then 8 else if p66 then 2 else 4)
      | Imm_Enter \<Rightarrow> 3 | Imm_Moffs \<Rightarrow> (if p67 then 4 else 8)
      | Imm_Test8 \<Rightarrow> (if modrm_reg modrm < 2 then 1 else 0)
      | Imm_TestZ \<Rightarrow> (if modrm_reg modrm < 2 then z else 0))"

definition manual_length :: "u8 list \<Rightarrow> u8 list \<Rightarrow> u8 \<Rightarrow> u8 list \<Rightarrow> nat option" where
  \<comment> \<open>legacy prefixes, REX prefix (or none), opcode, and the bytes after it\<close>
  "manual_length ps rex op rest =
     map_option (\<lambda>(md, k). length ps + length rex + 1 +
       (if md then manual_modrm_length (rest ! 0) (rest ! 1) else 0) +
       manual_imm_length op k (\<exists>r\<in>set rex. REX_W r \<noteq> 0) (0x66 \<in> set ps) (0x67 \<in> set ps) (rest ! 0))
     (manual_one_byte ! unat op)"

section \<open>The decoder's opcode map\<close>

definition imm_type :: "imm_kind \<Rightarrow> char option option" where
  "imm_type k = (case k of No_Imm \<Rightarrow> Some None | Imm8 \<Rightarrow> Some (Some (CHR ''b'')) | Imm16 \<Rightarrow> Some (Some (CHR ''w'')) | Imm_Z \<Rightarrow> Some (Some (CHR ''z''))
     | Imm_V \<Rightarrow> Some (Some (CHR ''v'')) | _ \<Rightarrow> None)"

definition table_imm :: "x86_insn_spec \<Rightarrow> char option" where
  "table_imm s = map_option snd (find (\<lambda>(code, ty). is_imm_code code) (spec_operands s))"

definition right_entry :: "format \<Rightarrow> x86_insn_spec \<Rightarrow> bool" where
  "right_entry f s = (case f of None \<Rightarrow> True
     | Some (md, k) \<Rightarrow> x86_insn_has_modrm_byte s = md \<and> imm_type k = Some (table_imm s))"


definition misread_opcodes :: "u8 list" where
  "misread_opcodes = [0xa0, 0xa1, 0xa2, 0xa3, 0xc8, 0xd8, 0xd9, 0xda, 0xdb, 0xdc, 0xdd, 0xde, 0xdf, 0xf6, 0xf7, 0xff]"

definition opcodes :: "u8 list" where
  "opcodes = concat (map (\<lambda>h. map (\<lambda>l. push_bit 4 h OR l) [0,1,2,3,4,5,6,7,8,9,10,11,12,13,14,15]) [0,1,2,3,4,5,6,7,8,9,10,11,12,13,14,15])"

lemma opcodes_all: "opcodes = map word_of_nat [0..<256]"
  by code_simp

text \<open>The map is right exactly outside these.\<close>

lemma one_byte_checked:
  "map2 right_entry manual_one_byte x86_opcode_map_one_byte = map (\<lambda>op. op \<notin> set misread_opcodes) opcodes"
  by code_simp

definition default_64 :: "x86_insn_spec \<Rightarrow> bool" where
  "default_64 s \<longleftrightarrow> spec_flags s AND X86_INSN_SPEC_DEFAULT_64_BIT \<noteq> 0"

definition sound_group :: "x86_insn_spec \<Rightarrow> bool" where
  \<comment> \<open>no SSE group, and the members of a group do not change the size of an immediate\<close>
  "sound_group s \<longleftrightarrow> (let g = X86_INSN_FLAG_GET_GROUP (spec_flags s) in
     g < X86_INSN_SSE_GROUP_START \<and>
     (g \<noteq> 0 \<longrightarrow> \<not> default_64 s) \<and>
     (g \<noteq> 0 \<longrightarrow> table_imm s \<in> {None, Some (CHR ''b'')} \<or> list_all (\<lambda>x. \<not> default_64 x) (x86_insn_modrm_reg_groups ! g)))"

lemma one_byte_groups: "list_all sound_group x86_opcode_map_one_byte"
  by code_simp

lemma one_byte_default_64:
  "map2 (\<lambda>f s. (case f of None \<Rightarrow> False | Some (md, k) \<Rightarrow> k = Imm_Z \<or> k = Imm_V) \<and> default_64 s)
     manual_one_byte x86_opcode_map_one_byte = map (\<lambda>op. op = 0x68 \<or> op = 0xe8 \<or> op = 0xe9) opcodes"
  by code_simp

lemma one_byte_starts:
  "list_all2 (\<lambda>f op. f \<noteq> None \<longrightarrow> legacy_prefix op = 0 \<and> \<not> (0x40 \<le> op \<and> op \<le> 0x4f) \<and> op \<noteq> 0x0f)
     manual_one_byte opcodes"
  by code_simp

lemma one_byte_length: "length x86_opcode_map_one_byte = 256" "length manual_one_byte = 256"
  by code_simp+

lemma one_byte_imm_v_checked:
  "map (\<lambda>f. case f of None \<Rightarrow> False | Some (md, k) \<Rightarrow> k = Imm_V) manual_one_byte = map (\<lambda>op. 0xb8 \<le> op \<and> op \<le> 0xbf) opcodes"
  by code_simp

lemma group_sizes: "map length x86_insn_modrm_reg_groups = replicate 19 8"
  by code_simp

section \<open>Reading ahead\<close>

definition ahead :: "x86_insn_reader \<Rightarrow> u8 list" where
  "ahead rd = drop (rd_cursor rd) (rd_bytes rd)"

definition advance :: "nat \<Rightarrow> x86_insn_reader \<Rightarrow> x86_insn_reader" where
  "advance n rd = rd\<lparr>rd_cursor := rd_cursor rd + n\<rparr>"

lemma advance_0 [simp]: "advance 0 rd = rd"
  by (simp add: advance_def)

lemma advance_advance [simp]: "advance a (advance b rd) = advance (b + a) rd"
  by (simp add: advance_def add.assoc)

lemma rd_local_advance [simp]: "rd_local (advance n rd) = rd_local rd" "rd_cursor (advance n rd) = rd_cursor rd + n"
  by (simp_all add: advance_def)

lemma ahead_advance [simp]: "ahead (advance n rd) = drop n (ahead rd)"
  by (simp add: ahead_def advance_def add.commute)

lemma read_le_ahead:
  "n \<le> length (ahead rd) \<Longrightarrow> 0 < n \<Longrightarrow> read_le n k rd = Inr (word_of_int (horner_sum uint 256 (take n (ahead rd))), advance k rd)"
  by (auto simp: read_le_def ahead_def advance_def)

lemma peek_ahead:
  assumes "ahead rd = c # cs"
  shows "peek_byte rd = Inr c"
proof -
  have "rd_cursor rd < length (rd_bytes rd)" using assms by (cases "rd_cursor rd < length (rd_bytes rd)") (simp_all add: ahead_def)
  moreover have "rd_bytes rd ! rd_cursor rd = c" using assms nth_via_drop unfolding ahead_def by metis
  ultimately show ?thesis by (simp add: peek_byte_def)
qed

lemma read_byte_ahead: "ahead rd = c # cs \<Longrightarrow> read_byte rd = Inr (c, advance 1 rd)"
  by (simp add: read_byte_def read_le_ahead)

lemma x86_insn_decode_number_ahead:
  assumes "n \<in> {8, 16, 32}" and "4 \<le> length (ahead rd)"
  shows "\<exists>v. x86_insn_decode_number rd n = Inr (v, advance (unat n div 8) rd)"
  using assms by (auto simp: x86_insn_decode_number_def read_byte_def read_word_def read_dword_def read_le_ahead)

section \<open>Prefixes\<close>

definition rexed :: "u8 list \<Rightarrow> x86_insn \<Rightarrow> x86_insn" where
  "rexed rex i = (case rex of [] \<Rightarrow> i
     | r # _ \<Rightarrow> (if REX_W r \<noteq> 0 then add_flags X86_INSN_DECODE_FLAG_OPERAND_SIZE_64 i else i)\<lparr>i_rex := r\<rparr>)"

definition is_rex :: "u8 \<Rightarrow> bool" where
  "is_rex r \<longleftrightarrow> 0x40 \<le> r \<and> r \<le> 0x4f"

lemma legacy_not_rex: "legacy_prefix c \<noteq> 0 \<Longrightarrow> \<not> is_rex c"
  by (auto simp: legacy_prefix_def is_rex_def split: if_splits)

lemma decode_prefix_run:
  assumes "list_all (\<lambda>c. legacy_prefix c \<noteq> 0) ps" and "rex = [] \<or> (\<exists>r. rex = [r] \<and> is_rex r)"
    and "ahead rd = ps @ rex @ op # tail" and "legacy_prefix op = 0" and "\<not> is_rex op"
  shows "x86_insn_decode_prefix rd i 64 p =
    Inr (foldl (\<lambda>p c. p OR legacy_prefix c) p ps, advance (length ps + length rex) rd, rexed rex i)"
  using assms(1,3)
proof (induction ps arbitrary: rd p)
  case Nil
  show ?case
  proof (cases rex)
    case Nil
    with Nil.prems assms(4,5) show ?thesis
      by (subst x86_insn_decode_prefix.simps) (auto simp: peek_ahead [of rd op tail] rexed_def is_rex_def)
  next
    case (Cons r rs)
    with assms(2) have r: "rex = [r]" "is_rex r" by auto
    with Nil.prems show ?thesis
      by (subst x86_insn_decode_prefix.simps) (auto simp: peek_ahead [of rd r] read_byte_ahead [of rd r] rexed_def is_rex_def)
  qed
next
  case (Cons c ps)
  from Cons.prems(1) have c: "legacy_prefix c \<noteq> 0" "\<not> (0x40 \<le> c \<and> c \<le> 0x4f)" using legacy_not_rex [of c] by (auto simp: is_rex_def)
  have "x86_insn_decode_prefix rd i 64 p = x86_insn_decode_prefix (advance 1 rd) i 64 (p OR legacy_prefix c)"
    using Cons.prems(2) c by (subst x86_insn_decode_prefix.simps) (auto simp: peek_ahead [of rd c] read_byte_ahead [of rd c])
  also have "\<dots> = Inr (foldl (\<lambda>p c. p OR legacy_prefix c) (p OR legacy_prefix c) ps, advance (length ps + length rex) (advance 1 rd), rexed rex i)"
    using Cons.prems by (intro Cons.IH) simp_all
  finally show ?case by simp
qed

text \<open>The collected prefix bits.\<close>

definition prefix_bits :: "u8 list \<Rightarrow> u32" where
  "prefix_bits ps = foldl (\<lambda>p c. p OR legacy_prefix c) 0 ps"

lemma or_and_zero: "((x :: u32) OR y) AND b = 0 \<longleftrightarrow> x AND b = 0 \<and> y AND b = 0"
  by (auto simp: bit_eq_iff bit_simps)

lemma legacy_prefix_bits:
  "legacy_prefix c AND INSN_PREFIX_OPERAND_SIZE \<noteq> 0 \<longleftrightarrow> c = 0x66"
  "legacy_prefix c AND INSN_PREFIX_ADDRESS_SIZE \<noteq> 0 \<longleftrightarrow> c = 0x67"
  by (auto simp: legacy_prefix_def INSN_PREFIX_LOCK_def INSN_PREFIX_REPNE_def INSN_PREFIX_REPE_def INSN_PREFIX_ES_def
    INSN_PREFIX_CS_def INSN_PREFIX_SS_def INSN_PREFIX_DS_def INSN_PREFIX_FS_def INSN_PREFIX_GS_def
    INSN_PREFIX_OPERAND_SIZE_def INSN_PREFIX_ADDRESS_SIZE_def)

lemma foldl_prefix_bits:
  "foldl (\<lambda>p c. p OR legacy_prefix c) q ps AND b = 0 \<longleftrightarrow> q AND b = 0 \<and> (\<forall>c\<in>set ps. legacy_prefix c AND b = 0)"
  by (induction ps arbitrary: q) (auto simp: or_and_zero)

lemma prefix_bits_sizes:
  "prefix_bits ps AND INSN_PREFIX_OPERAND_SIZE \<noteq> 0 \<longleftrightarrow> 0x66 \<in> set ps"
  "prefix_bits ps AND INSN_PREFIX_ADDRESS_SIZE \<noteq> 0 \<longleftrightarrow> 0x67 \<in> set ps"
  using legacy_prefix_bits by (auto simp: prefix_bits_def foldl_prefix_bits)

section \<open>The opcode\<close>

lemma opcode_nth: "opcodes ! unat op = op"
  by (simp add: opcodes_all)

lemma one_byte_entry:
  assumes "manual_one_byte ! unat op = Some (md, k)"
  defines "s \<equiv> x86_opcode_map_one_byte ! unat op"
  shows "right_entry (Some (md, k)) s \<longleftrightarrow> op \<notin> set misread_opcodes"
    and "sound_group s"
    and "k = Imm_Z \<or> k = Imm_V \<Longrightarrow> default_64 s \<longleftrightarrow> op = 0x68 \<or> op = 0xe8 \<or> op = 0xe9"
    and "legacy_prefix op = 0" and "\<not> is_rex op" and "op \<noteq> 0x0f"
proof -
  have n: "unat op < 256" by simp
  have len: "length opcodes = 256" by (simp add: opcodes_all)
  show "right_entry (Some (md, k)) s \<longleftrightarrow> op \<notin> set misread_opcodes"
    using arg_cong [OF one_byte_checked, of "\<lambda>xs. xs ! unat op"] n assms one_byte_length len by (simp add: opcode_nth)
  show "sound_group s" using one_byte_groups n one_byte_length by (simp add: list_all_length s_def)
  show "default_64 s \<longleftrightarrow> op = 0x68 \<or> op = 0xe8 \<or> op = 0xe9" if "k = Imm_Z \<or> k = Imm_V"
    using arg_cong [OF one_byte_default_64, of "\<lambda>xs. xs ! unat op"] n assms one_byte_length len that by (auto simp: opcode_nth)
  show "legacy_prefix op = 0" "\<not> is_rex op" "op \<noteq> 0x0f"
    using list_all2_nthD [OF one_byte_starts, of "unat op"] n assms(1) one_byte_length by (simp_all add: opcode_nth is_rex_def)
qed

lemma one_byte_imm_v: "manual_one_byte ! unat (op :: u8) = Some (md, Imm_V) \<Longrightarrow> 0xb8 \<le> op \<and> op \<le> 0xbf"
  using arg_cong [OF one_byte_imm_v_checked, of "\<lambda>xs. xs ! unat op"] one_byte_length opcode_nth [of op]
  by (simp add: opcodes_all)

lemma decode_opcode_one_byte:
  assumes "ahead rd = op # x # tail" and f: "manual_one_byte ! unat op = Some (md, k)" and "op \<notin> set misread_opcodes"
  shows "\<exists>s. x86_insn_decode_opcode rd i = Inr (advance 1 rd, i\<lparr>primary_opcode := op, insn_spec := s\<rparr>) \<and>
    x86_insn_has_modrm_byte s = md \<and> imm_type k = Some (table_imm s) \<and>
    (k = Imm_Z \<or> k = Imm_V \<longrightarrow> (default_64 s \<longleftrightarrow> op = 0x68 \<or> op = 0xe8 \<or> op = 0xe9))"
proof -
  let ?s = "x86_opcode_map_one_byte ! unat op"
  note e = one_byte_entry [OF f]
  from e(1) assms(3) have r: "x86_insn_has_modrm_byte ?s = md" "imm_type k = Some (table_imm ?s)" by (simp_all add: right_entry_def)
  let ?g = "X86_INSN_FLAG_GET_GROUP (spec_flags ?s)"
  have g: "?g < X86_INSN_SSE_GROUP_START" using e(2) by (simp add: sound_group_def Let_def)
  have rb: "read_byte rd = Inr (op, advance 1 rd)" by (rule read_byte_ahead [OF assms(1)])
  show ?thesis
  proof (cases "?g = 0")
    case True
    with rb e(3,6) g r show ?thesis
      by (intro exI [of _ ?s]) (simp add: x86_insn_decode_opcode_def group_spec_def Let_def X86_INSN_GROUP_START_def)
  next
    case False
    let ?x = "x86_insn_modrm_reg_groups ! ?g ! unat (modrm_reg x)"
    let ?t = "?s\<lparr>spec_name := spec_name ?x, spec_flags := spec_flags ?x\<rparr>"
    have pb: "peek_byte (advance 1 rd) = Inr x" using assms(1) by (intro peek_ahead) simp
    have ops: "x86_insn_has_modrm_byte ?t = md" "table_imm ?t = table_imm ?s" using r
      by (simp_all add: x86_insn_has_modrm_byte_def table_imm_def)
    have "unat (modrm_reg x) < 8"
      using word_and_le1 [of "drop_bit 3 x" 7] by (simp add: modrm_reg_def word_le_nat_alt)
    moreover have "length (x86_insn_modrm_reg_groups ! ?g) = 8"
      using arg_cong [OF group_sizes, of "\<lambda>xs. xs ! ?g"] arg_cong [OF group_sizes, of length] g
      by (simp add: X86_INSN_SSE_GROUP_START_def)
    ultimately have "\<not> default_64 ?x" if "k = Imm_Z \<or> k = Imm_V"
      using e(2) False r(2) that by (auto simp: sound_group_def Let_def imm_type_def list_all_length)
    then have "\<not> default_64 ?t" if "k = Imm_Z \<or> k = Imm_V" using that by (simp add: default_64_def)
    moreover have "\<not> default_64 ?s" using e(2) False by (simp add: sound_group_def Let_def)
    ultimately show ?thesis using rb pb e(3,6) g r ops False
      by (intro exI [of _ ?t]) (auto simp: x86_insn_decode_opcode_def group_spec_def Let_def X86_INSN_GROUP_START_def)
  qed
qed

section \<open>ModR/M, SIB and displacement\<close>

text \<open>What the rest of the decoder still needs of an instruction.\<close>

definition core :: "x86_insn \<Rightarrow> x86_insn_spec \<times> u32 \<times> u8" where
  "core i = (insn_spec i, i_prefix i, i_rex i)"

definition wide :: "x86_insn \<Rightarrow> bool" where
  "wide i \<longleftrightarrow> i_flags i AND X86_INSN_DECODE_FLAG_OPERAND_SIZE_64 \<noteq> 0"

named_theorems insn_simps

lemma core_simps [insn_simps]:
  "core (upd_operand k f i) = core i" "core (add_flags g i) = core i" "core (i\<lparr>i_modrm := m\<rparr>) = core i" "core (i\<lparr>i_sib := m\<rparr>) = core i"
  "core (i\<lparr>i_flags := g\<rparr>) = core i" "core (i\<lparr>displacement_offset := d\<rparr>) = core i"
  by (simp_all add: core_def upd_operand_def add_flags_def)

lemma wide_simps [insn_simps]:
  "wide (upd_operand k f i) = wide i" "wide (i\<lparr>i_modrm := m\<rparr>) = wide i" "wide (i\<lparr>i_sib := m\<rparr>) = wide i"
  "wide (i\<lparr>displacement_offset := d\<rparr>) = wide i" "wide (i\<lparr>i_rex := r\<rparr>) = wide i" "wide (i\<lparr>i_prefix := p\<rparr>) = wide i"
  "wide (i\<lparr>primary_opcode := opc, insn_spec := s\<rparr>) = wide i"
  "wide (add_flags X86_INSN_DECODE_FLAG_HAS_BASE i) = wide i" "wide (add_flags X86_INSN_DECODE_FLAG_HAS_INDEX i) = wide i"
  "wide (add_flags X86_INSN_DECODE_FLAG_IS_ADDRESS i) = wide i" "wide (add_flags X86_INSN_DECODE_FLAG_OPERAND_SIZE_64 i)"
  "\<not> wide (i\<lparr>i_flags := X86_INSN_DECODE_FLAG_IP_RELATIVE\<rparr>)"
  by (simp_all add: wide_def upd_operand_def add_flags_def or_and_zero X86_INSN_DECODE_FLAG_HAS_BASE_def X86_INSN_DECODE_FLAG_HAS_INDEX_def
    X86_INSN_DECODE_FLAG_IS_ADDRESS_def X86_INSN_DECODE_FLAG_OPERAND_SIZE_64_def X86_INSN_DECODE_FLAG_IP_RELATIVE_def)

lemma i_rex_upd [insn_simps]: "i_rex (upd_operand k f i) = i_rex i" "i_rex (add_flags g i) = i_rex i"
    "i_prefix (upd_operand k f i) = i_prefix i" "i_prefix (add_flags g i) = i_prefix i"
  by (simp_all add: upd_operand_def add_flags_def)

lemma low_three: "(push_bit 3 (REX_B r) OR modrm_rm m) AND 7 = modrm_rm m"
  by (simp add: bits8 bit_simps modrm_rm_def REX_B_def)

lemma decode_displacement_ahead:
  assumes "n \<in> {0, 8, 32}" and "4 \<le> length (ahead rd)" and "rd_local rd"
  shows "\<exists>i'. decode_displacement n rd i = Inr (advance (unat n div 8) rd, i') \<and> core i' = core i \<and> wide i' = wide i"
proof (cases "n = 0")
  case False
  with assms(1) have "n \<in> {8, 16, 32}" by auto
  then obtain v where "x86_insn_decode_number rd n = Inr (v, advance (unat n div 8) rd)"
    using x86_insn_decode_number_ahead assms(2) by blast
  with False assms(3) show ?thesis by (simp add: decode_displacement_def reader_offset_def insn_simps)
qed (simp add: decode_displacement_def)

text \<open>A SIB byte without displacement (mode 0): base 5 should mean a displacement and no base
  register; the decoder compares the register number with the enumeration values of \<open>RBP\<close> and
  \<open>R13\<close>, 7 and 14.\<close>

definition sib_confused :: "bool \<Rightarrow> u8 \<Rightarrow> u8 \<Rightarrow> u8 \<Rightarrow> bool" where
  "sib_confused p67 rex modrm sib \<longleftrightarrow> modrm_mode modrm = 0 \<and> modrm_rm modrm = 4 \<and>
     (let base = sib_base sib OR push_bit 3 (REX_B rex) in sib_base sib = 5 \<or> base = RBP \<or> \<not> p67 \<and> base = R13)"

definition decoded_disp :: "bool \<Rightarrow> u8 \<Rightarrow> u8 \<Rightarrow> u8 \<Rightarrow> u8" where
  "decoded_disp p67 rex modrm sib =
     (let md = modrm_mode modrm; rm = modrm_rm modrm; base = sib_base sib OR push_bit 3 (REX_B rex) in
      if md = 1 then 8
      else if md = 2 then 32
      else if rm = 5 \<or> rm = 4 \<and> (base = RBP \<or> \<not> p67 \<and> base = R13) then 32 else 0)"

lemma sib_low: "(sib_base s OR push_bit 3 (REX_B r)) AND 7 = sib_base s"
  by (simp add: bits8 bit_simps sib_base_def REX_B_def)

lemma sib_named: "sib_base s OR push_bit 3 (REX_B r) = RBP \<Longrightarrow> sib_base s = 7"
  "sib_base s OR push_bit 3 (REX_B r) = R13 \<Longrightarrow> sib_base s = 6"
  using sib_low [of s r] by (simp_all add: RBP_def R13_def)

lemma bit_u8_8: "8 \<le> n \<Longrightarrow> bit (b :: u8) n = False"
  by (auto dest: bit_imp_le_length)

lemma modrm_mode_cases: "modrm_mode m = 0 \<or> modrm_mode m = 1 \<or> modrm_mode m = 2 \<or> modrm_mode m = 3"
  by (simp add: modrm_mode_def bits8 bit_simps bit_u8_8) blast

lemma decoded_disp_right:
  assumes "modrm_mode modrm \<noteq> 3"
  shows "1 + (if modrm_rm modrm = 4 then 1 else 0) + unat (decoded_disp p67 rex modrm sib) div 8 = manual_modrm_length modrm sib
    \<longleftrightarrow> \<not> sib_confused p67 rex modrm sib"
  using assms modrm_mode_cases [of modrm] sib_named [of sib rex]
  by (auto simp: decoded_disp_def manual_modrm_length_def sib_confused_def Let_def)

definition rip_relative :: "u8 \<Rightarrow> bool" where
  "rip_relative modrm \<longleftrightarrow> modrm_mode modrm = 0 \<and> modrm_rm modrm = 5"

lemma modrm_base_spec:
  "modrm_rm m = rm AND 7 \<Longrightarrow> \<exists>i'. modrm_base (modrm_mode m) rm i =
     (if rip_relative m then 32 else if modrm_mode m = 1 then 8 else if modrm_mode m = 2 then 32 else 0, i') \<and>
   core i' = core i \<and> wide i' = (wide i \<and> \<not> rip_relative m)"
  by (auto simp: modrm_base_def Let_def rip_relative_def insn_simps)

lemma sib_fields_spec:
  "core (sib_fields sib i) = core i \<and> wide (sib_fields sib i) = wide i \<and>
   (1 < length (operands i) \<longrightarrow> m_base (operands (sib_fields sib i) ! 1) = sib_base sib OR push_bit 3 (REX_B (i_rex i)))"
  by (auto simp: sib_fields_def Let_def insn_simps) (simp_all add: upd_operand_def add_flags_def)

lemma operands_upd: "length (operands (upd_operand k f i)) = length (operands i)" "operands (add_flags g i) = operands i"
  by (simp_all add: upd_operand_def add_flags_def)

lemma decode_sib_ahead:
  assumes "ahead rd = sib # tail" and "1 < length (operands i)" and "eab = (if p67 then 32 else 64)"
    and "modrm_rm modrm = 4" and "modrm_mode modrm \<noteq> 3"
    and "d = (if modrm_mode modrm = 1 then 8 else if modrm_mode modrm = 2 then 32 else 0)"
  shows "\<exists>i'. decode_sib eab (modrm_mode modrm) d rd i = Inr (decoded_disp p67 (i_rex i) modrm sib, advance 1 rd, i') \<and>
    core i' = core i \<and> wide i' = wide i"
  using assms(2-) sib_fields_spec [of sib i]
  by (auto simp: decode_sib_def read_byte_ahead [OF assms(1)] sib_no_base_def Let_def decoded_disp_def insn_simps)

lemma modrm_sib_length:
  assumes a: "ahead rd = modrm # sib # tail" "4 \<le> length tail" and l: "rd_local rd" and ops: "length (operands i) = 3"
    and p67: "p67 \<longleftrightarrow> i_prefix i AND INSN_PREFIX_ADDRESS_SIZE \<noteq> 0"
  shows "\<exists>i' n. x86_insn_decode_modrm_sib rd i 64 = Inr (advance n rd, i') \<and> core i' = core i \<and>
    wide i' = (wide i \<and> \<not> rip_relative modrm) \<and> n \<le> 6 \<and>
    (n = manual_modrm_length modrm sib \<longleftrightarrow> \<not> sib_confused p67 (i_rex i) modrm sib)"
proof -
  have rb: "read_byte rd = Inr (modrm, advance 1 rd)" by (rule read_byte_ahead [OF a(1)])
  define rm where "rm = push_bit 3 (REX_B (i_rex i)) OR modrm_rm modrm"
  have low: "rm AND 7 = modrm_rm modrm" by (simp add: rm_def low_three)
  let ?i = "upd_operand 0 (\<lambda>x. x\<lparr>o_reg := push_bit 3 (REX_R (i_rex i)) OR modrm_reg modrm\<rparr>) (i\<lparr>i_modrm := modrm\<rparr>)"
  show ?thesis
  proof (cases "modrm_mode modrm = 3")
    case True
    then have "x86_insn_decode_modrm_sib rd i 64 = Inr (advance 1 rd, upd_operand 1 (\<lambda>x. x\<lparr>o_reg := rm\<rparr>) ?i)"
      by (simp add: x86_insn_decode_modrm_sib_def rb Let_def rm_def)
    moreover have "manual_modrm_length modrm sib = 1" "\<not> sib_confused p67 (i_rex i) modrm sib" "\<not> rip_relative modrm"
      using True by (simp_all add: manual_modrm_length_def sib_confused_def rip_relative_def Let_def)
    ultimately show ?thesis
      by (intro exI [of _ "upd_operand 1 (\<lambda>x. x\<lparr>o_reg := rm\<rparr>) ?i"] exI [of _ 1]) (simp add: insn_simps)
  next
    case False
    let ?j = "add_flags X86_INSN_DECODE_FLAG_IS_ADDRESS ?i"
    let ?eab = "if p67 then 32 else 64 :: u8"
    have eab: "effective_address_bits 64 (i_prefix ?j) = Inr ?eab"
      using p67 by (simp add: effective_address_bits_def insn_simps)
    define dm :: u8 where "dm = (if rip_relative modrm then 32 else if modrm_mode modrm = 1 then 8 else if modrm_mode modrm = 2 then 32 else 0)"
    obtain i1 where b: "modrm_base (modrm_mode modrm) rm ?j = (dm, i1)" "core i1 = core ?j"
        "wide i1 = (wide ?j \<and> \<not> rip_relative modrm)"
      using modrm_base_spec [of modrm rm ?j] low unfolding dm_def by auto
    have ops1: "1 < length (operands i1)"
    proof -
      have "i1 = snd (modrm_base (modrm_mode modrm) rm ?j)" using b(1) by simp
      then show ?thesis using ops by (simp add: modrm_base_def Let_def operands_upd)
    qed
    have rex1: "i_rex i1 = i_rex i" "i_prefix i1 = i_prefix i" using b(2) by (simp_all add: core_def insn_simps)
    let ?n = "if modrm_rm modrm = 4 then 1 else 0"
    let ?d = "decoded_disp p67 (i_rex i) modrm sib"
    have "\<exists>i2. (if rm AND 7 = 4 then decode_sib ?eab (modrm_mode modrm) dm (advance 1 rd) i1 else Inr (dm, advance 1 rd, i1)) =
        Inr (?d, advance (1 + ?n) rd, i2) \<and> core i2 = core i1 \<and> wide i2 = wide i1"
    proof (cases "modrm_rm modrm = 4")
      case True
      have "\<not> rip_relative modrm" using True by (simp add: rip_relative_def)
      then have d0: "dm = (if modrm_mode modrm = 1 then 8 else if modrm_mode modrm = 2 then 32 else 0)" by (simp add: dm_def)
      have "\<exists>i'. decode_sib ?eab (modrm_mode modrm) dm (advance 1 rd) i1 =
          Inr (decoded_disp p67 (i_rex i1) modrm sib, advance 1 (advance 1 rd), i') \<and> core i' = core i1 \<and> wide i' = wide i1"
        using a(1) by (intro decode_sib_ahead [OF _ ops1 refl True False d0]) simp
      then show ?thesis unfolding low rex1 using True by simp
    next
      case not_sib: False
      have e: "dm = ?d" using not_sib False modrm_mode_cases [of modrm] by (auto simp: dm_def decoded_disp_def rip_relative_def Let_def)
      show ?thesis unfolding low e using not_sib by simp
    qed
    then obtain i2 where s: "(if rm AND 7 = 4 then decode_sib ?eab (modrm_mode modrm) dm (advance 1 rd) i1 else Inr (dm, advance 1 rd, i1)) =
        Inr (?d, advance (1 + ?n) rd, i2)" "core i2 = core i1" "wide i2 = wide i1" by blast
    have "?d \<in> {0, 8, 32}" by (simp add: decoded_disp_def Let_def)
    moreover have "4 \<le> length (ahead (advance (1 + ?n) rd))" "rd_local (advance (1 + ?n) rd)" using a l by simp_all
    ultimately obtain i3 where d: "decode_displacement ?d (advance (1 + ?n) rd) i2 = Inr (advance (unat ?d div 8) (advance (1 + ?n) rd), i3)"
        "core i3 = core i2" "wide i3 = wide i2"
      using decode_displacement_ahead by blast
    have "x86_insn_decode_modrm_sib rd i 64 = Inr (advance (1 + ?n + unat ?d div 8) rd, i3)"
      using False s(1) d(1) eab b(1)
      unfolding low by (simp add: x86_insn_decode_modrm_sib_def rb Let_def rm_def [symmetric] low insn_simps split: if_splits)
    moreover have "core i3 = core i" "wide i3 = (wide i \<and> \<not> rip_relative modrm)"
      using d(2,3) s(2,3) b(2,3) by (simp_all add: insn_simps)
    moreover have "1 + ?n + unat ?d div 8 \<le> 6" by (simp add: decoded_disp_def Let_def)
    ultimately show ?thesis using decoded_disp_right [OF False, of p67 "i_rex i" sib] by blast
  qed
qed

section \<open>The immediate\<close>

lemma has_immediate_table: "x86_insn_has_immediate s \<longleftrightarrow> table_imm s \<noteq> None"
  by (auto simp: x86_insn_has_immediate_def table_imm_def find_None_iff list_ex_iff)

lemma immediate_type_table: "table_imm s = Some t \<Longrightarrow> x86_insn_immediate_type s = Inr t"
  by (auto simp: x86_insn_immediate_type_def table_imm_def split: option.splits)

definition decoded_imm_bytes :: "imm_kind \<Rightarrow> bool \<Rightarrow> bool \<Rightarrow> bool \<Rightarrow> nat" where
  "decoded_imm_bytes k d64 w p66 =
     (case k of Imm8 \<Rightarrow> 1 | Imm16 \<Rightarrow> 2 | Imm_Z \<Rightarrow> (if d64 \<or> w \<or> \<not> p66 then 4 else 2)
      | Imm_V \<Rightarrow> (if p66 then 2 else 4) | _ \<Rightarrow> 0)"

lemma immediate_length:
  assumes k: "imm_type k = Some (table_imm (insn_spec i))" and "4 \<le> length (ahead rd)" and "rd_local rd"
    and v: "k = Imm_V \<Longrightarrow> \<not> wide i \<and> \<not> default_64 (insn_spec i)"
  defines "n \<equiv> decoded_imm_bytes k (default_64 (insn_spec i)) (wide i) (i_prefix i AND INSN_PREFIX_OPERAND_SIZE \<noteq> 0)"
  shows "\<exists>i'. (if x86_insn_has_immediate (insn_spec i) then x86_insn_decode_immediate rd i 64 else Inr (rd, i)) = Inr (advance n rd, i')"
proof (cases "table_imm (insn_spec i)")
  case None
  with k have "k = No_Imm" by (cases k) (simp_all add: imm_type_def)
  with None show ?thesis by (simp add: has_immediate_table n_def decoded_imm_bytes_def)
next
  case (Some t)
  note ty = immediate_type_table [OF Some]
  let ?b = "effective_operand_bits 64 i"
  have b: "?b = (if default_64 (insn_spec i) \<or> wide i then 64 else if i_prefix i AND INSN_PREFIX_OPERAND_SIZE \<noteq> 0 then 16 else 32)"
    by (auto simp: effective_operand_bits_def default_64_def wide_def Let_def)
  have "\<exists>bits. x86_insn_imm_bits (insn_spec i) ?b = Inr bits \<and> bits \<in> {8, 16, 32} \<and> unat bits div 8 = n"
    using k Some v by (cases k) (auto simp: x86_insn_imm_bits_def ty imm_type_def n_def decoded_imm_bytes_def b)
  then obtain bits where bits: "x86_insn_imm_bits (insn_spec i) ?b = Inr bits" "bits \<in> {8, 16, 32}" "unat bits div 8 = n" by blast
  from x86_insn_decode_number_ahead [OF bits(2) assms(2)]
  obtain x where "x86_insn_decode_number rd bits = Inr (x, advance n rd)" using bits(3) by auto
  then show ?thesis using Some bits assms(3)
    by (auto simp: has_immediate_table x86_insn_decode_immediate_def reader_offset_def)
qed

section \<open>The length\<close>

text \<open>The forms the decoder misreads: the opcodes above; a SIB byte it confuses; a 64-bit
  immediate (\<open>read_qword\<close> advances by four); \<open>push imm16\<close>; and a RIP-relative operand together
  with REX.W and an operand-size prefix, where the assignment to \<open>flags\<close> forgets REX.W.\<close>

definition misread :: "u8 list \<Rightarrow> u8 list \<Rightarrow> u8 \<Rightarrow> u8 list \<Rightarrow> bool" where
  "misread ps rex op rest \<longleftrightarrow>
     (let w = (\<exists>r\<in>set rex. REX_W r \<noteq> 0); p66 = (0x66 \<in> set ps);
          r = (case rex of [] \<Rightarrow> 0 | x # _ \<Rightarrow> x) in
      op \<in> set misread_opcodes \<or>
      (case manual_one_byte ! unat op of None \<Rightarrow> False
       | Some (md, k) \<Rightarrow> md \<and> sib_confused (0x67 \<in> set ps) r (rest ! 0) (rest ! 1) \<or> k = Imm_V \<and> w \<or>
           k = Imm_Z \<and> p66 \<and> (op = 0x68 \<and> \<not> w \<or> md \<and> w \<and> rip_relative (rest ! 0))))"

lemma imm_bytes_right:
  assumes "manual_one_byte ! unat op = Some (md, k)" and "op \<notin> set misread_opcodes"
    and "k = Imm_Z \<or> k = Imm_V \<longrightarrow> (d64 \<longleftrightarrow> op = 0x68 \<or> op = 0xe8 \<or> op = 0xe9)"
    and "k = Imm_V \<Longrightarrow> \<not> w" and "k = Imm_Z \<Longrightarrow> p66 \<Longrightarrow> op = 0x68 \<Longrightarrow> w"
    and "k = Imm_Z \<Longrightarrow> p66 \<Longrightarrow> w' = w" and "imm_type k \<noteq> None"
  shows "decoded_imm_bytes k d64 w' p66 = manual_imm_length op k w p66 p67 m"
  using assms(3-) by (cases k) (auto simp: decoded_imm_bytes_def manual_imm_length_def Let_def imm_type_def)

lemma rexed_core: "rex = [] \<or> (\<exists>r. rex = [r] \<and> is_rex r) \<Longrightarrow>
    wide (rexed rex zero_insn) = (\<exists>r\<in>set rex. REX_W r \<noteq> 0) \<and> i_rex (rexed rex zero_insn) = (case rex of [] \<Rightarrow> 0 | r # _ \<Rightarrow> r)
    \<and> length (operands (rexed rex zero_insn)) = 3"
  by (auto simp: rexed_def insn_simps operands_upd) (simp_all add: zero_insn_def wide_def)

lemma decode_stages:
  assumes "15 \<le> length buffer" and "x86_insn_decode_prefix (init_reader (take 15 buffer)) i mode 0 = Inr (p, rd1, i0)"
    and "x86_insn_decode_opcode rd1 (i0\<lparr>i_prefix := p\<rparr>) = Inr (rd2, i2)"
    and "(if x86_insn_has_modrm_byte (insn_spec i2) then x86_insn_decode_modrm_sib rd2 i2 mode else Inr (rd2, i2)) = Inr (rd3, i3)"
    and "(if x86_insn_has_immediate (insn_spec i3) then x86_insn_decode_immediate rd3 i3 mode else Inr (rd3, i3)) = Inr (rd4, i4)"
    and "reader_offset rd4 = Inr n"
  shows "x86_insn_decode i buffer mode = Inr (i4\<lparr>i_length := word_of_nat n\<rparr>)"
proof -
  have "\<not> length buffer < 15" using assms(1) by simp
  then show ?thesis by (simp only: x86_insn_decode_def Let_def assms(2-) and_then_simps prod.case if_False)
qed



section \<open>Safety\<close>

text \<open>Entries with a ModR/M byte never have an immediate of 64 bits.\<close>

definition short_imm :: "x86_insn_spec \<Rightarrow> bool" where
  "short_imm s \<longleftrightarrow> (x86_insn_has_modrm_byte s \<longrightarrow> table_imm s \<notin> {Some (CHR ''v''), Some (CHR ''q'')})"

lemma short_imm_checked: "list_all short_imm x86_opcode_map_one_byte" "list_all short_imm x86_opcode_map_two_byte"
  by code_simp+

lemma two_byte_length: "length x86_opcode_map_two_byte = 256"
  by code_simp

lemma short_imm_upd: "short_imm (s\<lparr>spec_name := a, spec_flags := b\<rparr>) = short_imm s"
  by (simp add: short_imm_def x86_insn_has_modrm_byte_def table_imm_def)

definition sse_opcode :: "u8 \<Rightarrow> bool" where
  "sse_opcode op \<longleftrightarrow> X86_INSN_FLAG_GET_GROUP (spec_flags (x86_opcode_map_two_byte ! unat op)) > X86_INSN_SSE_GROUP_START"

lemma group_spec_total:
  assumes "ahead rd = x # xs" and "short_imm s" and "\<not> X86_INSN_FLAG_GET_GROUP (spec_flags s) > X86_INSN_SSE_GROUP_START"
  shows "\<exists>s'. group_spec rd s = Inr s' \<and> short_imm s'"
  using assms by (auto simp: group_spec_def peek_ahead Let_def short_imm_upd)

lemma decode_opcode_total:
  assumes "ahead rd = a # b # c # tail"
  shows "if a = 0x0f \<and> sse_opcode b then x86_insn_decode_opcode rd i = Inl Abort
    else (\<exists>n opc s. x86_insn_decode_opcode rd i = Inr (advance n rd, i\<lparr>primary_opcode := opc, insn_spec := s\<rparr>) \<and> 1 \<le> n \<and> n \<le> 2 \<and> short_imm s)"
proof (cases "a = 0x0f")
  case True
  have rb: "read_byte rd = Inr (0x0f, advance 1 rd)" "read_byte (advance 1 rd) = Inr (b, advance 2 rd)"
    using read_byte_ahead [of rd a] read_byte_ahead [of "advance 1 rd" b] assms True by (simp_all add: numeral_2_eq_2)
  let ?s = "x86_opcode_map_two_byte ! unat b"
  show ?thesis
  proof (cases "sse_opcode b")
    case sse: True
    with True rb show ?thesis by (simp add: x86_insn_decode_opcode_def group_spec_def sse_opcode_def Let_def)
  next
    case False
    have "short_imm ?s" using short_imm_checked(2) two_byte_length by (simp add: list_all_length)
    moreover have "ahead (advance 2 rd) = c # tail" using assms by simp
    ultimately obtain s' where "group_spec (advance 2 rd) ?s = Inr s'" "short_imm s'"
      using group_spec_total False unfolding sse_opcode_def by blast
    with rb have "x86_insn_decode_opcode rd i = Inr (advance 2 rd, i\<lparr>primary_opcode := b, insn_spec := s'\<rparr>) \<and> 1 \<le> (2 :: nat) \<and> (2 :: nat) \<le> 2 \<and> short_imm s'"
      by (simp add: x86_insn_decode_opcode_def)
    with False show ?thesis by metis
  qed
next
  case False
  have rb: "read_byte rd = Inr (a, advance 1 rd)" by (rule read_byte_ahead [OF assms])
  let ?s = "x86_opcode_map_one_byte ! unat a"
  have "short_imm ?s" using short_imm_checked(1) one_byte_length by (simp add: list_all_length)
  moreover have "ahead (advance 1 rd) = b # c # tail" using assms by simp
  moreover have "sound_group ?s" using one_byte_groups one_byte_length by (simp add: list_all_length)
  then have "\<not> X86_INSN_FLAG_GET_GROUP (spec_flags ?s) > X86_INSN_SSE_GROUP_START" by (simp add: sound_group_def Let_def)
  ultimately obtain s' where "group_spec (advance 1 rd) ?s = Inr s'" "short_imm s'"
    using group_spec_total by blast
  with rb False have "x86_insn_decode_opcode rd i = Inr (advance 1 rd, i\<lparr>primary_opcode := a, insn_spec := s'\<rparr>) \<and> 1 \<le> (1 :: nat) \<and> (1 :: nat) \<le> 2 \<and> short_imm s'"
    by (simp add: x86_insn_decode_opcode_def)
  with False show ?thesis by metis
qed

lemma x86_insn_decode_number_total:
  assumes "n \<in> {8, 16, 32, 64}" and "8 \<le> length (ahead rd) \<or> n \<noteq> 64 \<and> 4 \<le> length (ahead rd)"
  shows "\<exists>v k. x86_insn_decode_number rd n = Inr (v, advance k rd) \<and> k \<le> 4"
proof (cases "n = 64")
  case True
  with assms(2) show ?thesis by (simp add: x86_insn_decode_number_def read_qword_def read_le_ahead) blast
next
  case False
  with assms have "n \<in> {8, 16, 32}" "4 \<le> length (ahead rd)" by auto
  then obtain v where "x86_insn_decode_number rd n = Inr (v, advance (unat n div 8) rd)"
    using x86_insn_decode_number_ahead by blast
  moreover have "unat n div 8 \<le> 4" using \<open>n \<in> {8, 16, 32}\<close> by auto
  ultimately show ?thesis by blast
qed

lemma immediate_total:
  assumes s: "short_imm (insn_spec i)" and a: "8 \<le> length (ahead rd) \<or> x86_insn_has_modrm_byte (insn_spec i) \<and> 4 \<le> length (ahead rd)"
    and l: "rd_local rd"
  shows "\<exists>i' n. (if x86_insn_has_immediate (insn_spec i) then x86_insn_decode_immediate rd i 64 else Inr (rd, i)) = Inr (advance n rd, i') \<and> n \<le> 4"
proof (cases "table_imm (insn_spec i)")
  case None
  then show ?thesis by (intro exI [of _ i] exI [of _ 0]) (simp add: has_immediate_table)
next
  case (Some t)
  have "\<exists>b. x86_insn_imm_bits (insn_spec i) (effective_operand_bits 64 i) = Inr b \<and> b \<in> {0, 8, 16, 32, 64} \<and>
      (x86_insn_has_modrm_byte (insn_spec i) \<longrightarrow> b \<noteq> 64)"
    using Some s by (auto simp: x86_insn_imm_bits_def immediate_type_table effective_operand_bits_def Let_def short_imm_def)
  then obtain b where b: "x86_insn_imm_bits (insn_spec i) (effective_operand_bits 64 i) = Inr b" "b \<in> {0, 8, 16, 32, 64}"
      "x86_insn_has_modrm_byte (insn_spec i) \<longrightarrow> b \<noteq> 64" by blast
  show ?thesis
  proof (cases "b = 0")
    case True
    then show ?thesis using Some b(1) by (intro exI [of _ i] exI [of _ 0]) (simp add: has_immediate_table x86_insn_decode_immediate_def)
  next
    case False
    have "b \<in> {8, 16, 32, 64}" using False b(2) by blast
    moreover have "8 \<le> length (ahead rd) \<or> b \<noteq> 64 \<and> 4 \<le> length (ahead rd)" using a b(3) by blast
    ultimately obtain v k where "x86_insn_decode_number rd b = Inr (v, advance k rd)" "k \<le> 4"
      using x86_insn_decode_number_total by blast
    then show ?thesis using Some b(1) False l
      by (auto simp: has_immediate_table x86_insn_decode_immediate_def reader_offset_def)
  qed
qed

lemma decode_prefix_total:
  assumes "ahead rd = ps @ c # d # tail" and "list_all (\<lambda>c. legacy_prefix c \<noteq> 0) ps" and "legacy_prefix c = 0"
  shows "\<exists>p i'. x86_insn_decode_prefix rd i 64 q = Inr (p, advance (length ps + (if is_rex c then 1 else 0)) rd, i') \<and>
    operands i' = operands i"
  using assms(1,2)
proof (induction ps arbitrary: rd q)
  case Nil
  with assms(3) show ?case
    by (subst x86_insn_decode_prefix.simps) (auto simp: is_rex_def peek_ahead [of rd c] read_byte_ahead [of rd c] add_flags_def)
next
  case (Cons b ps)
  from Cons.prems(2) have b: "legacy_prefix b \<noteq> 0" "\<not> (0x40 \<le> b \<and> b \<le> 0x4f)" using legacy_not_rex [of b] by (auto simp: is_rex_def)
  have "x86_insn_decode_prefix rd i 64 q = x86_insn_decode_prefix (advance 1 rd) i 64 (q OR legacy_prefix b)"
    using Cons.prems(1) b by (subst x86_insn_decode_prefix.simps) (auto simp: peek_ahead [of rd b] read_byte_ahead [of rd b])
  then show ?case using Cons.IH [of "advance 1 rd" "q OR legacy_prefix b"] Cons.prems by simp
qed

definition legacy_run :: "u8 list \<Rightarrow> u8 list" where
  "legacy_run buffer = takeWhile (\<lambda>c. legacy_prefix c \<noteq> 0) buffer"

definition starts_sse :: "u8 list \<Rightarrow> bool" where
  \<comment> \<open>after the prefixes: the escape byte and an opcode of an SSE group\<close>
  "starts_sse buffer = (let r = drop (length (legacy_run buffer)) buffer;
     r = (if is_rex (r ! 0) then drop 1 r else r) in r ! 0 = 0x0f \<and> sse_opcode (r ! 1))"

lemma three_ahead: "3 \<le> length xs \<Longrightarrow> \<exists>a b c ys. xs = a # b # c # ys"
  by (auto simp: Suc_le_length_iff eval_nat_numeral)



section \<open>Forms that are misread\<close>

definition decoded_length :: "u8 list \<Rightarrow> nat option" where
  "decoded_length buffer = (case x86_insn_decode zero_insn buffer 64 of Inr i \<Rightarrow> Some (unat (i_length i)) | Inl e \<Rightarrow> None)"

definition nops :: "u8 list" where
  "nops = replicate 12 0x90"


text \<open>
  With thirteen prefixes in front, the read of a 64-bit immediate runs past the reader's
  buffer of twenty bytes.
\<close>

theorem x86_reader_overrun:
  "x86_insn_decode zero_insn (replicate 13 0x2e @ [0x48, 0xb8] @ nops) 64 = Inl Out_of_bounds"
  by code_simp

section \<open>Two-byte opcodes and the SSE tables\<close>

definition manual_two_byte :: "format list" where
  \<comment> \<open>the opcodes after 0x0f; the three-byte escapes and 3DNow are left out\<close>
  "manual_two_byte =
     [MM, MM, MM, MM, XX, NN, NN, NN, NN, NN, XX, NN, XX, MM, NN, XX] @
     replicate 16 MM @
     replicate 4 MM @ replicate 4 XX @ replicate 8 MM @
     replicate 6 NN @ [XX, NN] @ replicate 8 XX @
     replicate 48 MM @
     replicate 4 MI8 @ [MM, MM, MM, NN, MM, MM, XX, XX, MM, MM, MM, MM] @
     replicate 16 IZ @
     replicate 16 MM @
     [NN, NN, NN, MM, MI8, MM, XX, XX, NN, NN, NN, MM, MI8, MM, MM, MM] @
     replicate 10 MM @ [MI8] @ replicate 5 MM @
     [MM, MM, MI8, MM, MI8, MI8, MI8, MM] @ replicate 8 NN @
     replicate 48 MM"

definition misread_two_byte :: "u8 list" where
  "misread_two_byte = [0x00, 0x01, 0x0d, 0x18, 0x19, 0x1a, 0x1b, 0x1c, 0x1d, 0x1e, 0x1f, 0x6c, 0x6d, 0x71, 0x72, 0x73,
     0x78, 0x79, 0x7c, 0x7d, 0xae, 0xb8, 0xb9, 0xd0, 0xd6, 0xf0, 0xff]"

fun eights :: "'a list \<Rightarrow> 'a list list" where
  "eights (a # b # c # d # e # f # g # h # xs) = [a, b, c, d, e, f, g, h] # eights xs"
| "eights _ = []"

definition sse_rows :: "x86_insn_spec list list" where
  \<comment> \<open>the rows of the SSE groups: 0x10, 0x28, 0x50, ..., 0x78, 0xc0, 0xd0, ..., 0xf8, in units of eight opcodes\<close>
  "sse_rows = (let rows = eights x86_opcode_map_two_byte in map ((!) rows) [2, 5, 10, 11, 12, 13, 14, 15, 24, 26, 27, 28, 29, 30, 31])"

definition keeps_format :: "x86_insn_spec \<Rightarrow> x86_insn_spec \<Rightarrow> bool" where
  "keeps_format s t \<longleftrightarrow> spec_name s = ''bad'' \<or> spec_name t = ''bad'' \<or>
     x86_insn_has_modrm_byte s = x86_insn_has_modrm_byte t \<and> table_imm s = table_imm t"

lemma two_byte_checked:
  "map2 right_entry manual_two_byte x86_opcode_map_two_byte = map (\<lambda>op. op \<notin> set misread_two_byte) opcodes"
  by code_simp


lemma sse_rows_names: "map (\<lambda>s. X86_INSN_FLAG_GET_GROUP (spec_flags (hd s))) sse_rows =
    [20, 21, 22, 23, 24, 25, 26, 27, 0, 29, 30, 31, 32, 33, 34]"
  by code_simp

text \<open>
  The three tables of SSE instructions, which the decoder does not look up, fit the
  two-byte table: where both name an instruction they have the same ModR/M byte and immediate,
  so that looking them up would not change a length.
\<close>

theorem x86_sse_tables_fit:
  "list_all (\<lambda>t. list_all2 (list_all2 keeps_format) (drop 20 t) sse_rows)
     [x86_insn_sse_groups_repz, x86_insn_sse_groups_operand_size, x86_insn_sse_groups_repnz]"
  by code_simp

end
