(* ===== verification/X86_Relocate.thy ===== *)
theory X86_Relocate
  imports X86_Length
begin

unbundle bit_operations_syntax

text \<open>
  Dobby's relocation of x86 instructions (\<open>InstructionRelocationX86Shared.cc\<close>,
  \<open>InstructionRelocationX64.cc\<close>, the build for x86-64). The first instructions of a hooked
  function are decoded one by one and rewritten so that they can run at another address;
  branches become jumps through a 64-bit literal.

  Parameters: the allocator of memory near an address (\<open>near\<close>), and whether \<open>assert\<close> is
  compiled in. \<open>DobbyCodePatch\<close> writes code to memory; the model returns the patches.

  The theorems run the emitted bytes on a small model of the x86 control flow
  (\<open>x86_goes\<close>) and show that they reach the addresses the original instructions reach.
\<close>

section \<open>The code\<close>

definition codegen_x64_jmp_absolute_addr :: "u64 \<Rightarrow> u8 list \<Rightarrow> u8 list" where
  "codegen_x64_jmp_absolute_addr target buf = Emit64 target (Emit32 0 (Emit8 0x25 (Emit8 0xFF buf)))"

text \<open>Sign extensions: \<open>int8_t offset = insn.immediate\<close> and so on, added to an address.\<close>

definition sx8 :: "u64 \<Rightarrow> u64" where
  "sx8 v = signed_take_bit 7 v"

definition sx32 :: "u64 \<Rightarrow> u64" where
  "sx32 v = signed_take_bit 31 v"

record relo_env =
  ndebug :: bool
  near :: "nat \<Rightarrow> u64 \<Rightarrow> u64 \<Rightarrow> u64"
  \<comment> \<open>\<open>allocateNearExecMemory(size, pos, search_range)\<close>\<close>

definition rip_sequence :: "x86_insn \<Rightarrow> u8 list \<Rightarrow> u64 \<Rightarrow> u64 \<Rightarrow> u64 \<Rightarrow> u8 list" where
  \<comment> \<open>the instruction with a new displacement, then a jump back\<close>
  "rip_sequence i code seq_addr orig_dst_ip relo_next_ip =
     (let req_ip = seq_addr + ucast (i_length i);
          new_disp = ucast (orig_dst_ip - req_ip) :: u32;
          buf = Emit32 new_disp (EmitBuffer code (unat (displacement_offset i)) []);
          buf = (if immediate_offset i \<noteq> 0
                 then EmitBuffer (drop (unat (immediate_offset i)) code) (unat (i_length i) - unat (immediate_offset i)) buf
                 else buf)
      in codegen_x64_jmp_absolute_addr relo_next_ip buf)"

definition GenRelocateSingleX86Insn ::
  "relo_env \<Rightarrow> u64 \<Rightarrow> u64 \<Rightarrow> u8 list \<Rightarrow> u8 list \<Rightarrow> (x86_insn \<times> u8 list \<times> patch list) res" where
  \<comment> \<open>\<open>code\<close>: the memory at \<open>buffer_cursor\<close>; \<open>buf\<close>: the code buffer. Mode is 64.\<close>
  "GenRelocateSingleX86Insn e curr_orig_ip curr_relo_ip code buf =
     and_then (x86_insn_decode zero_insn code 64) (\<lambda>i.
     let curr_orig_ip = curr_orig_ip + ucast (i_length i); op = primary_opcode i in
     if 0x70 \<le> op \<and> op \<le> 0x7F then
       let orig_dst_ip = curr_orig_ip + sx8 (immediate i);
           buf = Emit8 2 (Emit8 op buf);
           buf = Emit8 (6 + 8) (Emit8 0xEB buf)
       in Inr (i, codegen_x64_jmp_absolute_addr orig_dst_ip buf, [])
     else if i_flags i AND X86_INSN_DECODE_FLAG_IP_RELATIVE \<noteq> 0 \<and> m_base (operands i ! 1) = RIP then
       let orig_dst_ip = curr_orig_ip + sx32 (ucast (m_disp (operands i ! 1)));
           seq_addr = near e (unat (i_length i) + 6 + 8) orig_dst_ip (2 * 1024 * 1024 * 1024);
           buf' = codegen_x64_jmp_absolute_addr seq_addr buf;
           relo_next_ip = curr_relo_ip + word_of_nat (length buf' - length buf)
       in Inr (i, buf', [(seq_addr, rip_sequence i code seq_addr orig_dst_ip relo_next_ip)])
     else if op = 0xEB then
       Inr (i, codegen_x64_jmp_absolute_addr (curr_orig_ip + sx8 (immediate i)) buf, [])
     else if op = 0xE8 \<or> op = 0xE9 then
       let orig_dst_ip = curr_orig_ip + sx32 (immediate i) in
       if \<not> ndebug e \<and> immediate_offset i \<noteq> 1 then Inl Abort
       else if op = 0xE8 then
         Inr (i, Emit64 orig_dst_ip (Emit8 0x08 (Emit8 0xEB (Emit32 2 (Emit8 0x15 (Emit8 0xFF buf))))), [])
       else Inr (i, Emit64 orig_dst_ip (Emit32 0 (Emit8 0x25 (Emit8 0xFF buf))), [])
     else if 0xE0 \<le> op \<and> op \<le> 0xE2 then Inl Abort
     else if op = 0xE3 then Inl Abort
     else Inr (i, EmitBuffer code (unat (i_length i)) buf, []))"

text \<open>\<open>GenRelocateCodeFixed\<close> for x86-64. \<open>code\<close> is the memory at the function; the block of
  the relocated code is an address and a size. The result has the value returned, the length
  of the original code covered, the code buffer and the patches.\<close>

partial_function (option) relocate_loop ::
  "relo_env \<Rightarrow> u64 \<Rightarrow> u64 \<Rightarrow> nat \<Rightarrow> u8 list \<Rightarrow> nat \<Rightarrow> u8 list \<Rightarrow> patch list \<Rightarrow> (nat \<times> u8 list \<times> patch list) res option" where
  "relocate_loop e orig relo sz code cursor buf ps =
     (if cursor < sz then
        (case GenRelocateSingleX86Insn e (orig + word_of_nat cursor) (relo + word_of_nat (length buf)) (drop cursor code) buf of
           Inl f \<Rightarrow> Some (Inl f)
         | Inr (i, buf, qs) \<Rightarrow> relocate_loop e orig relo sz code (cursor + unat (i_length i)) buf (ps @ qs))
      else Some (Inr (cursor, buf, ps)))"

definition JmpNearIndirect :: "u64 \<Rightarrow> u64 \<Rightarrow> u8 list \<Rightarrow> u8 list" where
  \<comment> \<open>the second argument is \<open>CurrentIP()\<close>\<close>
  "JmpNearIndirect forward_stub_addr current_ip buf =
     Emit32 (ucast (forward_stub_addr - (current_ip + 6))) (Emit8 0x25 (Emit8 0xFF buf))"

definition GenRelocateCodeFixed ::
  "relo_env \<Rightarrow> u64 \<Rightarrow> nat \<Rightarrow> u64 \<Rightarrow> nat \<Rightarrow> u8 list \<Rightarrow> bool \<Rightarrow> (int \<times> nat \<times> u8 list \<times> patch list) res option" where
  "GenRelocateCodeFixed e orig orig_size relo relo_size code branch =
     map_option (\<lambda>r. and_then r (\<lambda>(cursor, buf, ps).
       let curr_relo_ip = relo + word_of_nat (length buf);
           buf = (if branch
                  then Emit64 (orig + word_of_nat cursor) (JmpNearIndirect (curr_relo_ip + 6) curr_relo_ip buf)
                  else buf)
       in if length buf > relo_size then Inr (-1, cursor, buf, ps)
          else Inr (0, cursor, buf, ps @ [(relo, buf)])))
     (relocate_loop e orig relo orig_size code 0 [] [])"

text \<open>\<open>GenRelocateCodeX86Shared\<close>: tries again with sixteen bytes more. The origin block has been
  given its new length by the failed attempt, and the patches of that attempt were written
  (\<open>old\<close>). The relocated block is empty at first, as its only caller makes it; a null pointer
  from the allocator ends the function.\<close>

partial_function (option) GenRelocateCodeX86Shared ::
  "relo_env \<Rightarrow> (nat \<Rightarrow> u64) \<Rightarrow> u64 \<Rightarrow> nat \<Rightarrow> u8 list \<Rightarrow> bool \<Rightarrow> nat \<Rightarrow> patch list \<Rightarrow> (u64 \<times> nat \<times> u8 list \<times> patch list) option res option" where
  "GenRelocateCodeX86Shared e alloc orig orig_size code branch expected old =
     (let relo = alloc expected in
      if relo = 0 then Some (Inr None)
      else (case GenRelocateCodeFixed e orig orig_size relo expected code branch of
          None \<Rightarrow> None
        | Some (Inl f) \<Rightarrow> Some (Inl f)
        | Some (Inr (r, cursor, buf, ps)) \<Rightarrow>
            if r = 0 then Some (Inr (Some (relo, cursor, buf, old @ ps)))
            else GenRelocateCodeX86Shared e alloc orig cursor code branch (expected + 16) (old @ ps)))"

section \<open>Control flow\<close>

text \<open>The instructions that change the control flow, on a memory \<open>m\<close>; \<open>cond\<close> says which
  conditional jumps are taken.\<close>

definition x86_next :: "(u8 \<Rightarrow> bool) \<Rightarrow> (u64 \<Rightarrow> u8) \<Rightarrow> u64 \<Rightarrow> u64 option" where
  "x86_next cond m ip =
     (let b = m ip in
      if 0x70 \<le> b \<and> b \<le> 0x7F then Some (if cond b then ip + 2 + sx8 (ucast (m (ip + 1))) else ip + 2)
      else if b = 0xEB then Some (ip + 2 + sx8 (ucast (m (ip + 1))))
      else if b = 0xE9 then Some (ip + 5 + sx32 (le_word (fetch m (ip + 1) 4)))
      else if b = 0xFF \<and> m (ip + 1) = 0x25 then Some (le_word (fetch m (ip + 6 + sx32 (le_word (fetch m (ip + 2) 4))) 8))
      else None)"

definition x86_call :: "(u64 \<Rightarrow> u8) \<Rightarrow> u64 \<Rightarrow> (u64 \<times> u64) option" where
  \<comment> \<open>target and return address\<close>
  "x86_call m ip =
     (if m ip = 0xE8 then Some (ip + 5 + sx32 (le_word (fetch m (ip + 1) 4)), ip + 5)
      else if m ip = 0xFF \<and> m (ip + 1) = 0x15 then
        Some (le_word (fetch m (ip + 6 + sx32 (le_word (fetch m (ip + 2) 4))) 8), ip + 6)
      else None)"

inductive x86_goes :: "(u8 \<Rightarrow> bool) \<Rightarrow> (u64 \<Rightarrow> u8) \<Rightarrow> u64 \<Rightarrow> u64 \<Rightarrow> bool" for cond m where
  goes_here: "x86_goes cond m a a"
| goes_on: "x86_next cond m a = Some b \<Longrightarrow> x86_goes cond m b c \<Longrightarrow> x86_goes cond m a c"

section \<open>Decoding a branch\<close>

lemma decode_immediate_only:
  assumes f: "manual_one_byte ! unat op = Some (False, k)" and k: "k = Imm8 \<or> k = Imm_Z" and mis: "op \<notin> set misread_opcodes"
    and len: "14 \<le> length rest"
  shows "\<exists>i. x86_insn_decode zero_insn (op # rest) 64 = Inr i \<and> primary_opcode i = op \<and> immediate_offset i = 1 \<and> i_flags i = 0 \<and>
    i_length i = (if k = Imm8 then 2 else 5) \<and>
    immediate i = (if k = Imm8 then ucast (rest ! 0) else ucast (le_word (take 4 rest) :: u32))"
proof -
  let ?rd = "init_reader (take 15 (op # rest))"
  have a: "ahead ?rd = op # take 14 rest @ replicate 5 0xcc" and loc: "rd_local ?rd" "rd_cursor ?rd = 0"
    using len by (simp_all add: ahead_def init_reader_def)
  obtain d r where dr: "rest = d # r" using len by (cases rest) auto
  have a1: "ahead (advance 1 ?rd) = d # take 13 r @ replicate 5 0xcc" using a by (simp add: dr)
  note e = one_byte_entry [OF f]
  have pre: "x86_insn_decode_prefix ?rd zero_insn 64 0 = Inr (0, ?rd, zero_insn)"
    using decode_prefix_run [of "[]" "[]" ?rd op "take 14 rest @ replicate 5 0xcc" zero_insn 0] e(4,5) a by (simp add: rexed_def)
  obtain x y where "take 14 rest @ replicate 5 0xcc = x # y" by (simp add: dr)
  with a decode_opcode_one_byte [OF _ f mis, of ?rd x y "zero_insn\<lparr>i_prefix := 0\<rparr>"] obtain s where
    opc: "x86_insn_decode_opcode ?rd (zero_insn\<lparr>i_prefix := 0\<rparr>) = Inr (advance 1 ?rd, zero_insn\<lparr>i_prefix := 0\<rparr>\<lparr>primary_opcode := op, insn_spec := s\<rparr>)"
    and s: "\<not> x86_insn_has_modrm_byte s" "imm_type k = Some (table_imm s)" by auto
  let ?i = "zero_insn\<lparr>i_prefix := 0\<rparr>\<lparr>primary_opcode := op, insn_spec := s\<rparr>"
  let ?n = "if k = Imm8 then 1 else 4 :: nat"
  let ?v = "if k = Imm8 then ucast (rest ! 0) else ucast (le_word (take 4 rest) :: u32)"
  obtain t where t: "table_imm s = Some t" "t = (if k = Imm8 then CHR ''b'' else CHR ''z'')" using s(2) k by (auto simp: imm_type_def)
  have bits: "x86_insn_imm_bits s (effective_operand_bits 64 ?i) = Inr (if k = Imm8 then 8 else 32)"
    using t k by (auto simp: x86_insn_imm_bits_def immediate_type_table effective_operand_bits_def Let_def zero_insn_def)
  have num: "x86_insn_decode_number (advance 1 ?rd) (if k = Imm8 then 8 else 32) = Inr (?v, advance ?n (advance 1 ?rd))"
    using a1 len by (auto simp: dr x86_insn_decode_number_def read_byte_def read_dword_def read_le_ahead le_word_def)
  let ?j = "?i\<lparr>immediate_offset := 1, immediate := ?v\<rparr>"
  have im: "(if x86_insn_has_immediate (insn_spec ?i) then x86_insn_decode_immediate (advance 1 ?rd) ?i 64 else Inr (advance 1 ?rd, ?i)) =
      Inr (advance ?n (advance 1 ?rd), ?j)"
    using t(1) bits num loc by (simp add: has_immediate_table x86_insn_decode_immediate_def reader_offset_def del: advance_advance)
  have "x86_insn_decode zero_insn (op # rest) 64 = Inr (?j\<lparr>i_length := word_of_nat (1 + ?n)\<rparr>)"
  proof (rule decode_stages [OF _ pre opc _ im])
    show "15 \<le> length (op # rest)" using len by simp
    show "(if x86_insn_has_modrm_byte (insn_spec ?i) then x86_insn_decode_modrm_sib (advance 1 ?rd) ?i 64 else Inr (advance 1 ?rd, ?i)) =
      Inr (advance 1 ?rd, ?i)" using s(1) by simp
    show "reader_offset (advance ?n (advance 1 ?rd)) = Inr (1 + ?n)" using loc by (simp add: reader_offset_def)
  qed
  then show ?thesis by (simp add: zero_insn_def)
qed

section \<open>The emitted jumps\<close>

lemma jcc_format_checked:
  "list_all2 (\<lambda>f op. 0x70 \<le> op \<and> op \<le> 0x7F \<longrightarrow> f = Some (False, Imm8) \<and> op \<notin> set misread_opcodes) manual_one_byte opcodes"
  by code_simp

lemma jcc_format: "0x70 \<le> op \<Longrightarrow> op \<le> 0x7F \<Longrightarrow> manual_one_byte ! unat op = Some (False, Imm8) \<and> op \<notin> set misread_opcodes"
  using list_all2_nthD [OF jcc_format_checked, of "unat op"] one_byte_length by (simp add: opcode_nth)

definition jmp_abs :: "u64 \<Rightarrow> u8 list" where
  "jmp_abs t = [0xFF, 0x25] @ le_bytes 4 (0 :: u32) @ le_bytes 8 t"

lemma codegen_jmp_abs: "codegen_x64_jmp_absolute_addr t buf = buf @ jmp_abs t"
  by (simp add: codegen_x64_jmp_absolute_addr_def Emit64_def Emit32_def Emit8_def jmp_abs_def)

lemma length_jmp_abs [simp]: "length (jmp_abs t) = 14"
  by (simp add: jmp_abs_def)

lemma sx32_0 [simp]: "sx32 0 = 0"
  by (simp add: sx32_def)

lemma jmp_abs_next: "loaded m a (jmp_abs t) \<Longrightarrow> x86_next cond m a = Some t"
  unfolding jmp_abs_def
  by (simp add: loaded_append loaded_Cons x86_next_def Let_def loaded_def [of m _ "le_bytes _ _"] le_word_bytes le_word_bytes_32 add.assoc)

lemma jmp_abs_goes: "loaded m a (jmp_abs t) \<Longrightarrow> x86_goes cond m a t"
  by (rule goes_on [OF jmp_abs_next goes_here])

text \<open>A conditional jump over a jump over an absolute jump.\<close>

definition jcc_code :: "u8 \<Rightarrow> u64 \<Rightarrow> u8 list" where
  "jcc_code op t = [op, 2, 0xEB, 14] @ jmp_abs t"

lemma jcc_goes:
  assumes "loaded m a (jcc_code op t)" and op: "0x70 \<le> op" "op \<le> 0x7F"
  shows "x86_goes cond m a (if cond op then t else a + 18)"
proof -
  from assms(1) have l: "m a = op" "m (a + 1) = 2" "m (a + 2) = 0xEB" "m (a + 3) = 14" "loaded m (a + 4) (jmp_abs t)"
    by (simp_all add: jcc_code_def loaded_Cons add.assoc)
  have "x86_next cond m a = Some (if cond op then a + 4 else a + 2)"
    using l op by (simp add: x86_next_def Let_def sx8_def)
  moreover have "x86_next cond m (a + 2) = Some (a + 18)"
    using l by (simp add: x86_next_def Let_def sx8_def add.assoc)
  moreover note jmp_abs_goes [OF l(5), of cond]
  ultimately show ?thesis
    by (cases "cond op") (auto intro: goes_on goes_on [OF _ goes_on [OF _ goes_here]])
qed

lemma rel32_at:
  assumes "loaded m ip (op # rest)" and "4 \<le> length rest"
  shows "(le_word (fetch m (ip + 1) 4) :: u64) = ucast (le_word (take 4 rest) :: u32)"
proof -
  have "loaded m (ip + 1) (take 4 rest @ drop 4 rest)" using assms(1) by (simp add: loaded_Cons)
  then have "loaded m (ip + 1) (take 4 rest)" unfolding loaded_append by blast
  then have "fetch m (ip + 1) 4 = take 4 rest" using assms(2) by (simp add: loaded_def)
  then show ?thesis using assms(2) by (simp add: le_word_4)
qed

section \<open>Relocated branches\<close>

text \<open>
  C36: A short jump, conditional or not, and a near jump, relocated: the code emitted,
  wherever it is loaded, goes to the target the original instruction has at its old address; a
  conditional jump that is not taken goes to the end of the emitted code.
\<close>

theorem x86_jumps_relocated:
  assumes op: "0x70 \<le> op \<and> op \<le> 0x7F \<or> op = 0xEB \<or> op = 0xE9" and len: "14 \<le> length rest" and m0: "loaded m0 ip (op # rest)"
  shows "\<exists>i code. GenRelocateSingleX86Insn e ip relo (op # rest) buf = Inr (i, buf @ code, []) \<and>
    (\<forall>m cond. loaded m relo code \<longrightarrow>
       (\<exists>t. x86_next cond m0 ip = Some t \<and>
         x86_goes cond m relo (if op \<le> 0x7F \<and> \<not> cond op then relo + word_of_nat (length code) else t)))"
proof -
  obtain d r where dr: "rest = d # r" using len by (cases rest) auto
  have m1: "m0 ip = op" "m0 (ip + 1) = d" using m0 by (simp_all add: dr loaded_Cons)
  have m8: "(le_word (fetch m0 (ip + 1) 4) :: u64) = ucast (le_word (take 4 rest) :: u32)"
    using rel32_at [OF m0] len by simp
  let ?fmt = "manual_one_byte ! unat op"
  consider (jcc) "0x70 \<le> op" "op \<le> 0x7F" | (short) "op = 0xEB" | (near) "op = 0xE9" using op by blast
  then show ?thesis
  proof cases
    case jcc
    have f: "?fmt = Some (False, Imm8)" "op \<notin> set misread_opcodes" using jcc_format jcc by blast+
    from decode_immediate_only [OF f(1) _ f(2) len] obtain i where i: "x86_insn_decode zero_insn (op # rest) 64 = Inr i"
      "primary_opcode i = op" "i_flags i = 0" "i_length i = 2" "immediate i = ucast d" by (auto simp: dr)
    let ?t = "ip + 2 + sx8 (ucast d)"
    have "GenRelocateSingleX86Insn e ip relo (op # rest) buf = Inr (i, buf @ jcc_code op ?t, [])"
      using i jcc by (simp add: GenRelocateSingleX86Insn_def Let_def codegen_jmp_abs Emit8_def jcc_code_def)
    moreover have "\<exists>t. x86_next cond m0 ip = Some t \<and>
        x86_goes cond m relo (if op \<le> 0x7F \<and> \<not> cond op then relo + word_of_nat (length (jcc_code op ?t)) else t)"
      if "loaded m relo (jcc_code op ?t)" for m cond
      using jcc_goes [OF that jcc, of cond] m1 jcc by (auto simp: x86_next_def Let_def jcc_code_def split: if_splits)
    ultimately show ?thesis by blast
  next
    case short
    have f: "?fmt = Some (False, Imm8)" "op \<notin> set misread_opcodes" unfolding short by code_simp+
    from decode_immediate_only [OF f(1) _ f(2) len] obtain i where i: "x86_insn_decode zero_insn (op # rest) 64 = Inr i"
      "primary_opcode i = op" "i_flags i = 0" "i_length i = 2" "immediate i = ucast d" by (auto simp: dr)
    have "GenRelocateSingleX86Insn e ip relo (op # rest) buf = Inr (i, buf @ jmp_abs (ip + 2 + sx8 (ucast d)), [])"
      using i short by (simp add: GenRelocateSingleX86Insn_def Let_def codegen_jmp_abs)
    moreover have "x86_next cond m0 ip = Some (ip + 2 + sx8 (ucast d))" for cond using m1 short by (simp add: x86_next_def)
    ultimately show ?thesis using short jmp_abs_goes by auto
  next
    case near
    have f: "?fmt = Some (False, Imm_Z)" "op \<notin> set misread_opcodes" unfolding near by code_simp+
    from decode_immediate_only [OF f(1) _ f(2) len] obtain i where i: "x86_insn_decode zero_insn (op # rest) 64 = Inr i"
      "primary_opcode i = op" "i_flags i = 0" "i_length i = 5" "immediate_offset i = 1"
      "immediate i = ucast (le_word (take 4 rest) :: u32)" by auto
    let ?t = "ip + 5 + sx32 (le_word (fetch m0 (ip + 1) 4))"
    have "GenRelocateSingleX86Insn e ip relo (op # rest) buf = Inr (i, buf @ jmp_abs ?t, [])"
      using i near by (simp add: GenRelocateSingleX86Insn_def Let_def Emit64_def Emit32_def Emit8_def jmp_abs_def m8)
    moreover have "x86_next cond m0 ip = Some ?t" for cond using m1 near by (simp add: x86_next_def)
    ultimately show ?thesis using near jmp_abs_goes by auto
  qed
qed

text \<open>The call that is emitted returns before a short jump over the literal.\<close>

definition call_code :: "u64 \<Rightarrow> u8 list" where
  "call_code t = [0xFF, 0x15] @ le_bytes 4 (2 :: u32) @ [0xEB, 8] @ le_bytes 8 t"

lemma sx32_2 [simp]: "sx32 2 = 2"
  by (simp add: sx32_def)

lemma call_code_calls:
  assumes "loaded m a (call_code t)"
  shows "x86_call m a = Some (t, a + 6) \<and> x86_goes cond m (a + 6) (a + 16)"
proof -
  from assms have l: "m a = 0xFF" "m (a + 1) = 0x15" "fetch m (a + 2) 4 = le_bytes 4 (2 :: u32)" "m (a + 6) = 0xEB" "m (a + 7) = 8"
      "fetch m (a + 8) 8 = le_bytes 8 t"
    unfolding call_code_def by (simp_all add: loaded_append loaded_Cons loaded_def [of m _ "le_bytes _ _"] add.assoc)
  have "x86_next cond m (a + 6) = Some (a + 16)" using l by (simp add: x86_next_def Let_def sx8_def add.assoc)
  then show ?thesis using l
    by (auto simp: x86_call_def le_word_bytes le_word_bytes_32 add.assoc intro: goes_on [OF _ goes_here])
qed

text \<open>
  C37: A near call, relocated: the emitted code calls the same target and control comes back
  to the end of the emitted code.
\<close>

theorem x86_call_relocated:
  assumes len: "14 \<le> length rest" and m0: "loaded m0 ip (0xE8 # rest)"
  shows "\<exists>i code. GenRelocateSingleX86Insn e ip relo (0xE8 # rest) buf = Inr (i, buf @ code, []) \<and>
    (\<forall>m cond. loaded m relo code \<longrightarrow>
       (\<exists>t back. x86_call m0 ip = Some (t, ip + 5) \<and> x86_call m relo = Some (t, back) \<and>
         x86_goes cond m back (relo + word_of_nat (length code))))"
proof -
  have m8: "(le_word (fetch m0 (ip + 1) 4) :: u64) = ucast (le_word (take 4 rest) :: u32)"
    using rel32_at [OF m0] len by simp
  have f: "manual_one_byte ! unat (0xE8 :: u8) = Some (False, Imm_Z)" "(0xE8 :: u8) \<notin> set misread_opcodes" by code_simp+
  from decode_immediate_only [OF f(1) _ f(2) len] obtain i where i: "x86_insn_decode zero_insn (0xE8 # rest) 64 = Inr i"
    "primary_opcode i = 0xE8" "i_flags i = 0" "i_length i = 5" "immediate_offset i = 1"
    "immediate i = ucast (le_word (take 4 rest) :: u32)" by auto
  let ?t = "ip + 5 + sx32 (le_word (fetch m0 (ip + 1) 4))"
  have "GenRelocateSingleX86Insn e ip relo (0xE8 # rest) buf = Inr (i, buf @ call_code ?t, [])"
    using i by (simp add: GenRelocateSingleX86Insn_def Let_def Emit64_def Emit32_def Emit8_def call_code_def m8)
  moreover have "x86_call m0 ip = Some (?t, ip + 5)" using m0 by (simp add: x86_call_def loaded_Cons)
  moreover have "length (call_code ?t) = 16" by (simp add: call_code_def)
  ultimately show ?thesis using call_code_calls [of _ relo ?t] by fastforce
qed

definition sample_memory :: "u8 list \<Rightarrow> u64 \<Rightarrow> u8" where
  "sample_memory bs a = (if unat a < length bs then bs ! unat a else 0x90)"

theorem x86_jumps_relocated_witness:
  "\<exists>i code. GenRelocateSingleX86Insn \<lparr>ndebug = False, near = \<lambda>_ _ _. 0\<rparr> 0 0x1000 (0x74 # 5 # replicate 13 0x90) [] = Inr (i, [] @ code, []) \<and>
    (\<forall>m cond. loaded m 0x1000 code \<longrightarrow>
       (\<exists>t. x86_next cond (sample_memory [0x74, 5]) 0 = Some t \<and>
         x86_goes cond m 0x1000 (if (0x74 :: u8) \<le> 0x7F \<and> \<not> cond 0x74 then 0x1000 + word_of_nat (length code) else t)))"
  by (rule x86_jumps_relocated) code_simp+

theorem x86_call_relocated_witness:
  "\<exists>i code. GenRelocateSingleX86Insn \<lparr>ndebug = False, near = \<lambda>_ _ _. 0\<rparr> 0 0x1000 (0xE8 # [1, 2, 0, 0] @ replicate 10 0x90) [] = Inr (i, [] @ code, []) \<and>
    (\<forall>m cond. loaded m 0x1000 code \<longrightarrow>
       (\<exists>t back. x86_call (sample_memory [0xE8, 1, 2, 0, 0]) 0 = Some (t, 0 + 5) \<and> x86_call m 0x1000 = Some (t, back) \<and>
         x86_goes cond m back (0x1000 + word_of_nat (length code))))"
  by (rule x86_call_relocated) code_simp+

section \<open>RIP-relative operands\<close>

definition ip_rel :: "x86_insn \<Rightarrow> bool" where
  "ip_rel i \<longleftrightarrow> i_flags i AND X86_INSN_DECODE_FLAG_IP_RELATIVE \<noteq> 0"

lemma ip_rel_simps [insn_simps]:
  "ip_rel (upd_operand k f i) = ip_rel i" "ip_rel (i\<lparr>i_modrm := m\<rparr>) = ip_rel i" "ip_rel (i\<lparr>i_sib := m\<rparr>) = ip_rel i"
  "ip_rel (i\<lparr>displacement_offset := d\<rparr>) = ip_rel i" "ip_rel (i\<lparr>i_rex := r\<rparr>) = ip_rel i" "ip_rel (i\<lparr>i_prefix := p\<rparr>) = ip_rel i"
  "ip_rel (i\<lparr>primary_opcode := opc, insn_spec := s\<rparr>) = ip_rel i" "ip_rel (i\<lparr>i_length := n\<rparr>) = ip_rel i"
  "ip_rel (i\<lparr>immediate_offset := k8, immediate := v\<rparr>) = ip_rel i"
  "ip_rel (add_flags X86_INSN_DECODE_FLAG_HAS_BASE i) = ip_rel i" "ip_rel (add_flags X86_INSN_DECODE_FLAG_HAS_INDEX i) = ip_rel i"
  "ip_rel (add_flags X86_INSN_DECODE_FLAG_IS_ADDRESS i) = ip_rel i" "ip_rel (add_flags X86_INSN_DECODE_FLAG_OPERAND_SIZE_64 i) = ip_rel i"
  "ip_rel (i\<lparr>i_flags := X86_INSN_DECODE_FLAG_IP_RELATIVE\<rparr>)"
  by (simp_all add: ip_rel_def upd_operand_def add_flags_def or_and_zero X86_INSN_DECODE_FLAG_HAS_BASE_def X86_INSN_DECODE_FLAG_HAS_INDEX_def
    X86_INSN_DECODE_FLAG_IS_ADDRESS_def X86_INSN_DECODE_FLAG_OPERAND_SIZE_64_def X86_INSN_DECODE_FLAG_IP_RELATIVE_def)

lemma and_then_Inr: "and_then m f = Inr y \<longleftrightarrow> (\<exists>x. m = Inr x \<and> f x = Inr y)"
  by (cases m) auto

lemma read_le_Inr: "read_le n k rd = Inr (w, rd') \<Longrightarrow> rd' = advance k rd"
  by (auto simp: read_le_def advance_def split: if_splits)

lemma immediate_offset_simps [insn_simps]:
  "immediate_offset (upd_operand k f i) = immediate_offset i" "immediate_offset (add_flags g i) = immediate_offset i"
  by (simp_all add: upd_operand_def add_flags_def)

lemma decode_prefix_frame:
  "x86_insn_decode_prefix rd i mode p = Inr (q, rd', i') \<Longrightarrow>
     \<exists>n. rd' = advance n rd \<and> ip_rel i' = ip_rel i \<and> immediate_offset i' = immediate_offset i \<and> length (operands i') = length (operands i)"
proof (induction rd i mode p rule: x86_insn_decode_prefix.induct)
  case (1 rd i mode p)
  from 1(2) obtain c where c: "peek_byte rd = Inr c" by (subst (asm) x86_insn_decode_prefix.simps) (auto split: sum.splits)
  show ?case
  proof (cases "mode = 64 \<and> c \<ge> 0x40 \<and> c \<le> 0x4f")
    case True
    with 1(2) c show ?thesis
      by (subst (asm) x86_insn_decode_prefix.simps)
        (auto simp: and_then_Inr read_byte_def insn_simps operands_upd dest: read_le_Inr split: if_splits)
  next
    case False
    show ?thesis
    proof (cases "legacy_prefix c = 0")
      case True
      with 1(2) c False have "rd' = advance 0 rd" "i' = i" by (subst (asm) x86_insn_decode_prefix.simps, auto)+
      then show ?thesis by blast
    next
      case prefix: False
      with 1(2) c False obtain b rd1 where rd1: "read_byte rd = Inr (b, rd1)"
        and rest: "x86_insn_decode_prefix rd1 i mode (p OR legacy_prefix c) = Inr (q, rd', i')"
        by (subst (asm) x86_insn_decode_prefix.simps) (auto split: sum.splits)
      have "rd1 = advance 1 rd" using rd1 read_le_Inr by (simp add: read_byte_def)
      with 1(1) [OF c False prefix rd1 refl rest] show ?thesis by auto
    qed
  qed
qed

lemma decode_opcode_frame:
  "x86_insn_decode_opcode rd i = Inr (rd', i') \<Longrightarrow> \<exists>n opc s. rd' = advance n rd \<and> i' = i\<lparr>primary_opcode := opc, insn_spec := s\<rparr>"
  by (auto simp: x86_insn_decode_opcode_def and_then_Inr read_byte_def dest!: read_le_Inr split: if_splits)

lemma rd_bytes_advance [simp]: "rd_bytes (advance n rd) = rd_bytes rd"
  by (simp add: advance_def)

lemma read_le_bound: "read_le n k rd = Inr (w, rd') \<Longrightarrow> rd' = advance k rd \<and> rd_cursor rd + n \<le> length (rd_bytes rd)"
  by (auto simp: read_le_def advance_def split: if_splits)

lemma decode_number_Inr:
  assumes "x86_insn_decode_number rd n = Inr (v, rd')"
  shows "\<exists>k. rd' = advance k rd \<and> rd_cursor rd + k \<le> length (rd_bytes rd) \<and> (n = 32 \<longrightarrow> k = 4)"
proof -
  consider w where "n = 64" "read_le 8 4 rd = Inr (w :: u64, rd')" | w where "n = 32" "read_le 4 4 rd = Inr (w :: u32, rd')"
    | w where "n = 16" "read_le 2 2 rd = Inr (w :: u16, rd')" | w where "n = 8" "read_le 1 1 rd = Inr (w :: u8, rd')"
    using assms by (auto simp: x86_insn_decode_number_def and_then_Inr read_byte_def read_word_def read_dword_def read_qword_def split: if_splits)
  then show ?thesis
  proof cases
    case 1
    from read_le_bound [OF 1(2)] 1(1) show ?thesis by (intro exI [of _ 4]) simp
  next
    case 2
    from read_le_bound [OF 2(2)] 2(1) show ?thesis by (intro exI [of _ 4]) simp
  next
    case 3
    from read_le_bound [OF 3(2)] 3(1) show ?thesis by (intro exI [of _ 2]) simp
  next
    case 4
    from read_le_bound [OF 4(2)] 4(1) show ?thesis by (intro exI [of _ 1]) simp
  qed
qed

lemma decode_displacement_Inr:
  assumes "decode_displacement d rd i = Inr (rd', i')"
  shows "\<exists>k. rd' = advance k rd" "ip_rel i' = ip_rel i" "immediate_offset i' = immediate_offset i"
    and "d = 32 \<Longrightarrow> rd' = advance 4 rd \<and> displacement_offset i' = word_of_nat (rd_cursor rd) \<and> rd_cursor rd + 4 \<le> length (rd_bytes rd)"
  using assms
  by (auto simp: decode_displacement_def and_then_Inr reader_offset_def insn_simps split: if_splits dest!: decode_number_Inr
      intro: advance_0 [symmetric]) (simp_all add: upd_operand_def)

lemma ucast_u32_u64_u32: "(ucast (ucast (w :: u32) :: u64) :: u32) = w"
  by (rule bit_word_eqI) (auto simp: bit_simps dest: bit_imp_le_length)

lemma decode_displacement_value:
  assumes "decode_displacement 32 rd i = Inr (rd', i')" and "1 < length (operands i)"
  shows "m_disp (operands i' ! 1) = le_word (take 4 (ahead rd))"
  using assms
  by (auto simp: decode_displacement_def and_then_Inr x86_insn_decode_number_def read_dword_def read_le_def le_word_def ahead_def
      upd_operand_def ucast_u32_u64_u32 split: if_splits)

lemma decode_sib_Inr:
  assumes "decode_sib eab md d rd i = Inr (d', rd', i')"
  shows "rd' = advance 1 rd" "ip_rel i' = ip_rel i" "immediate_offset i' = immediate_offset i"
  using assms
  by (auto simp: decode_sib_def and_then_Inr read_byte_def sib_no_base_def sib_fields_def Let_def insn_simps split: if_splits dest!: read_le_Inr)

lemma modrm_ip_rel:
  assumes d: "x86_insn_decode_modrm_sib rd i 64 = Inr (rd', i')" and i: "\<not> ip_rel i" and ops: "1 < length (operands i)"
  shows "\<exists>k. rd' = advance k rd" and "immediate_offset i' = immediate_offset i"
    and "ip_rel i' \<Longrightarrow> rd' = advance 5 rd \<and> displacement_offset i' = word_of_nat (rd_cursor rd + 1) \<and> rd_cursor rd + 5 \<le> length (rd_bytes rd) \<and>
      m_disp (operands i' ! 1) = le_word (take 4 (drop 1 (ahead rd)))"
proof -
  from d obtain modrm where rb: "read_byte rd = Inr (modrm, advance 1 rd)"
    by (auto simp: x86_insn_decode_modrm_sib_def and_then_Inr read_byte_def dest: read_le_Inr)
  define rm where "rm = push_bit 3 (REX_B (i_rex i)) OR modrm_rm modrm"
  have low: "rm AND 7 = modrm_rm modrm" by (simp add: rm_def low_three)
  define j where "j = upd_operand 0 (\<lambda>x. x\<lparr>o_reg := push_bit 3 (REX_R (i_rex i)) OR modrm_reg modrm\<rparr>) (i\<lparr>i_modrm := modrm\<rparr>)"
  have j: "ip_rel j = ip_rel i" "immediate_offset j = immediate_offset i" by (simp_all add: j_def insn_simps)
  have "(\<exists>k. rd' = advance k rd) \<and> immediate_offset i' = immediate_offset i \<and>
    (ip_rel i' \<longrightarrow> rd' = advance 5 rd \<and> displacement_offset i' = word_of_nat (rd_cursor rd + 1) \<and> rd_cursor rd + 5 \<le> length (rd_bytes rd) \<and>
      m_disp (operands i' ! 1) = le_word (take 4 (drop 1 (ahead rd))))"
  proof (cases "modrm_mode modrm = 3")
    case True
    with d rb have "rd' = advance 1 rd" "i' = upd_operand 1 (\<lambda>x. x\<lparr>o_reg := rm\<rparr>) j"
      by (simp_all add: x86_insn_decode_modrm_sib_def Let_def rm_def j_def)
    with i j show ?thesis by (auto simp: insn_simps)
  next
    case False
    let ?j = "add_flags X86_INSN_DECODE_FLAG_IS_ADDRESS j"
    obtain eab where eab: "effective_address_bits 64 (i_prefix ?j) = Inr eab" "eab = 32 \<or> eab = 64"
      by (auto simp: effective_address_bits_def)
    obtain d1 i1 where b: "modrm_base (modrm_mode modrm) rm ?j = (d1, i1)" by fastforce
    have "i1 = snd (modrm_base (modrm_mode modrm) rm ?j)" using b by simp
    then have ops1: "1 < length (operands i1)" using ops by (simp add: modrm_base_def Let_def operands_upd j_def)
    from b have i1: "ip_rel i1 \<Longrightarrow> d1 = 32 \<and> rm AND 7 = 5" "immediate_offset i1 = immediate_offset i"
      using i j by (auto simp: modrm_base_def Let_def insn_simps split: if_splits)
    have "\<exists>d2 rd2 i2. (if rm AND 7 = 4 then decode_sib eab (modrm_mode modrm) d1 (advance 1 rd) i1 else Inr (d1, advance 1 rd, i1)) = Inr (d2, rd2, i2) \<and>
       decode_displacement d2 rd2 i2 = Inr (rd', i')"
      using d rb False eab b
      by (simp add: x86_insn_decode_modrm_sib_def Let_def rm_def [symmetric] j_def [symmetric] and_then_Inr) auto
    then obtain d2 rd2 i2 where s: "(if rm AND 7 = 4 then decode_sib eab (modrm_mode modrm) d1 (advance 1 rd) i1 else Inr (d1, advance 1 rd, i1)) = Inr (d2, rd2, i2)"
      and dd: "decode_displacement d2 rd2 i2 = Inr (rd', i')" by blast
    note dd' = decode_displacement_Inr [OF dd]
    show ?thesis
    proof (cases "rm AND 7 = 4")
      case True
      with s decode_sib_Inr [of eab "modrm_mode modrm" d1 "advance 1 rd" i1 d2 rd2 i2] have
        "rd2 = advance 2 rd" "ip_rel i2 = ip_rel i1" "immediate_offset i2 = immediate_offset i1" by (simp_all add: numeral_2_eq_2)
      with dd' i1 True show ?thesis by auto
    next
      case not_sib: False
      with s have e: "d2 = d1" "rd2 = advance 1 rd" "i2 = i1" by auto
      have "m_disp (operands i' ! 1) = le_word (take 4 (drop 1 (ahead rd)))" if "ip_rel i'"
        using decode_displacement_value [of "advance 1 rd" i1 rd' i'] dd dd'(2) i1(1) that ops1 unfolding e by simp
      with dd' i1 e show ?thesis by auto
    qed
  qed
  then show "\<exists>k. rd' = advance k rd" "immediate_offset i' = immediate_offset i"
    "ip_rel i' \<Longrightarrow> rd' = advance 5 rd \<and> displacement_offset i' = word_of_nat (rd_cursor rd + 1) \<and> rd_cursor rd + 5 \<le> length (rd_bytes rd) \<and>
      m_disp (operands i' ! 1) = le_word (take 4 (drop 1 (ahead rd)))"
    by blast+
qed

lemma decode_immediate_Inr:
  assumes "(if x86_insn_has_immediate (insn_spec i) then x86_insn_decode_immediate rd i mode else Inr (rd, i)) = Inr (rd', i')"
    and "rd_local rd" and "0 < rd_cursor rd" and "length (rd_bytes rd) = 20" and "rd_cursor rd \<le> 20"
  shows "ip_rel i' = ip_rel i" and "displacement_offset i' = displacement_offset i" and "operands i' = operands i"
    and "\<exists>k. rd' = advance k rd \<and> rd_cursor rd + k \<le> 20 \<and>
    (k = 0 \<and> immediate_offset i' = immediate_offset i \<or> immediate_offset i' = word_of_nat (rd_cursor rd))"
proof -
  consider (none) "rd' = rd" "i' = i"
    | (imm) b v where "x86_insn_decode_number rd b = Inr (v, rd')" "i' = i\<lparr>immediate_offset := word_of_nat (rd_cursor rd), immediate := v\<rparr>"
    using assms(1,2) by (auto simp: x86_insn_decode_immediate_def and_then_Inr reader_offset_def split: if_splits)
  then have "ip_rel i' = ip_rel i \<and> displacement_offset i' = displacement_offset i \<and> operands i' = operands i \<and> (\<exists>k. rd' = advance k rd \<and> rd_cursor rd + k \<le> 20 \<and>
    (k = 0 \<and> immediate_offset i' = immediate_offset i \<or> immediate_offset i' = word_of_nat (rd_cursor rd)))"
  proof cases
    case none
    with assms(5) show ?thesis by (intro conjI exI [of _ 0]) simp_all
  next
    case imm
    from decode_number_Inr [OF imm(1)] imm(2) assms(4) show ?thesis by (auto simp: insn_simps)
  qed
  then show "ip_rel i' = ip_rel i" "displacement_offset i' = displacement_offset i" "operands i' = operands i" "\<exists>k. rd' = advance k rd \<and> rd_cursor rd + k \<le> 20 \<and>
    (k = 0 \<and> immediate_offset i' = immediate_offset i \<or> immediate_offset i' = word_of_nat (rd_cursor rd))" by blast+
qed

lemma decode_stages_Inr:
  assumes "x86_insn_decode i buffer mode = Inr i'"
  shows "\<exists>p rd1 i0 rd2 i2 rd3 i3 rd4 i4 n. x86_insn_decode_prefix (init_reader (take 15 buffer)) i mode 0 = Inr (p, rd1, i0) \<and>
    x86_insn_decode_opcode rd1 (i0\<lparr>i_prefix := p\<rparr>) = Inr (rd2, i2) \<and>
    (if x86_insn_has_modrm_byte (insn_spec i2) then x86_insn_decode_modrm_sib rd2 i2 mode else Inr (rd2, i2)) = Inr (rd3, i3) \<and>
    (if x86_insn_has_immediate (insn_spec i3) then x86_insn_decode_immediate rd3 i3 mode else Inr (rd3, i3)) = Inr (rd4, i4) \<and>
    reader_offset rd4 = Inr n \<and> i' = i4\<lparr>i_length := word_of_nat n\<rparr> \<and> 15 \<le> length buffer"
proof -
  have "15 \<le> length buffer" using assms by (auto simp: x86_insn_decode_def split: if_splits)
  then have "\<not> length buffer < 15" by simp
  with assms \<open>15 \<le> length buffer\<close> show ?thesis
    by (simp only: x86_insn_decode_def Let_def if_False and_then_Inr split_paired_Ex prod.case sum.inject)
      (elim exE conjE, intro exI conjI, assumption+, simp_all)
qed

text \<open>Where the four displacement bytes of a RIP-relative operand are.\<close>

lemma decode_rip_layout:
  assumes "x86_insn_decode zero_insn code 64 = Inr i" and rel: "ip_rel i"
  shows "\<exists>c n. displacement_offset i = word_of_nat c \<and> c + 4 \<le> n \<and> n \<le> 20 \<and> i_length i = word_of_nat n \<and> 0 < c \<and>
    (n = c + 4 \<and> immediate_offset i = 0 \<or> immediate_offset i = word_of_nat (c + 4)) \<and>
    m_disp (operands i ! 1) = le_word (take 4 (drop c (take 15 code @ replicate 5 0xcc)))"
proof -
  from decode_stages_Inr [OF assms(1)] obtain p rd1 i0 rd2 i2 rd3 i3 rd4 i4 n where
    pre: "x86_insn_decode_prefix (init_reader (take 15 code)) zero_insn 64 0 = Inr (p, rd1, i0)"
    and op: "x86_insn_decode_opcode rd1 (i0\<lparr>i_prefix := p\<rparr>) = Inr (rd2, i2)"
    and mr: "(if x86_insn_has_modrm_byte (insn_spec i2) then x86_insn_decode_modrm_sib rd2 i2 64 else Inr (rd2, i2)) = Inr (rd3, i3)"
    and im: "(if x86_insn_has_immediate (insn_spec i3) then x86_insn_decode_immediate rd3 i3 64 else Inr (rd3, i3)) = Inr (rd4, i4)"
    and n: "reader_offset rd4 = Inr n" "i = i4\<lparr>i_length := word_of_nat n\<rparr>" and len: "15 \<le> length code" by blast
  let ?rd = "init_reader (take 15 code)"
  have rd: "rd_local ?rd" "length (rd_bytes ?rd) = 20" "rd_cursor ?rd = 0" "ahead ?rd = take 15 code @ replicate 5 0xcc"
    using len by (simp_all add: init_reader_def ahead_def)
  from decode_prefix_frame [OF pre] obtain k1 where f1: "rd1 = advance k1 ?rd" "ip_rel i0 = ip_rel zero_insn" "immediate_offset i0 = immediate_offset zero_insn"
    "length (operands i0) = length (operands zero_insn)" by blast
  from decode_opcode_frame [OF op] obtain k2 opc s where f2: "rd2 = advance k2 rd1" "i2 = i0\<lparr>i_prefix := p\<rparr>\<lparr>primary_opcode := opc, insn_spec := s\<rparr>" by blast
  have i2: "\<not> ip_rel i2" "immediate_offset i2 = 0" "1 < length (operands i2)"
    using f1 f2 by (simp_all add: insn_simps) (simp_all add: zero_insn_def ip_rel_def)
  have "ip_rel i4" using rel n(2) by (simp add: insn_simps)
  define c where "c = rd_cursor rd2 + 1"
  have m: "rd3 = advance 5 rd2" "displacement_offset i3 = word_of_nat c" "c + 4 \<le> 20" "immediate_offset i3 = 0"
    "m_disp (operands i3 ! 1) = le_word (take 4 (drop c (take 15 code @ replicate 5 0xcc)))"
  proof -
    have "ip_rel i3"
    proof (cases "x86_insn_has_immediate (insn_spec i3)")
      case True
      with im \<open>ip_rel i4\<close> show ?thesis by (auto simp: x86_insn_decode_immediate_def and_then_Inr insn_simps split: if_splits)
    qed (use im \<open>ip_rel i4\<close> in auto)
    then have "x86_insn_decode_modrm_sib rd2 i2 64 = Inr (rd3, i3)" using mr i2(1) by (auto split: if_splits)
    note q = modrm_ip_rel [OF this i2(1,3)]
    show "rd3 = advance 5 rd2" "displacement_offset i3 = word_of_nat c" "c + 4 \<le> 20" "immediate_offset i3 = 0"
      using q \<open>ip_rel i3\<close> i2(2) rd f1 f2 by (simp_all add: c_def)
    have "drop 1 (ahead rd2) = drop c (ahead ?rd)" using f1 f2 rd(3) by (simp add: c_def)
    with q(3) [OF \<open>ip_rel i3\<close>] show "m_disp (operands i3 ! 1) = le_word (take 4 (drop c (take 15 code @ replicate 5 0xcc)))"
      unfolding rd(4) by simp
  qed
  have c3: "rd_cursor rd3 = c + 4" "rd_local rd3" "length (rd_bytes rd3) = 20" using m(1) rd f1 f2 by (simp_all add: c_def)
  have pos: "0 < rd_cursor rd3" "rd_cursor rd3 \<le> 20" using c3 m(3) by simp_all
  note di = decode_immediate_Inr [OF im c3(2) pos(1) c3(3) pos(2)]
  from di(4) obtain k where k: "rd4 = advance k rd3" "c + 4 + k \<le> 20" "k = 0 \<and> immediate_offset i4 = 0 \<or> immediate_offset i4 = word_of_nat (c + 4)"
    unfolding c3(1) m(4) by blast
  have disp: "displacement_offset i4 = word_of_nat c" using di(2) m(2) by simp
  have "n = c + 4 + k" using n(1) k(1) c3 by (simp add: reader_offset_def)
  then show ?thesis using k n(2) disp di(3) m(5) by (intro exI [of _ c] exI [of _ n]) (auto simp: c_def)
qed

lemma length_rip_sequence:
  assumes "displacement_offset i = word_of_nat c" "c + 4 \<le> n" "n \<le> 20" "i_length i = word_of_nat n"
    "n = c + 4 \<and> immediate_offset i = 0 \<or> immediate_offset i = word_of_nat (c + 4)" "n \<le> length code"
  shows "rip_sequence i code a t r = take c code @ le_bytes 4 (ucast (t - (a + word_of_nat n)) :: u32) @ drop (c + 4) (take n code) @ jmp_abs r"
proof -
  have u: "unat (word_of_nat c :: u8) = c" "unat (word_of_nat (c + 4) :: u8) = c + 4" "unat (word_of_nat n :: u32) = n"
    using assms by (simp_all only: unsigned_of_nat) (simp_all add: take_bit_nat_eq_self)
  have "(word_of_nat (c + 4) :: u8) \<noteq> 0" using u(2) by auto
  moreover have "(ucast (word_of_nat n :: u32) :: u64) = word_of_nat n" using assms(3) by (simp only: unsigned_of_nat) (simp add: take_bit_nat_eq_self)
  ultimately show ?thesis using assms u
    by (auto simp: rip_sequence_def Let_def codegen_jmp_abs Emit32_def EmitBuffer_def take_drop)
qed



lemma sx32_low: "sx32 (ucast (ucast (x :: u64) :: u32)) = sx32 x"
  by (rule bit_word_eqI) (auto simp: sx32_def bit_simps min_def dest: bit_imp_le_length)

text \<open>
  C38: An instruction with a RIP-relative operand, relocated: the code emitted jumps to a
  sequence near the operand. There the instruction is the original one except for its
  displacement, which makes it address the same memory; after it control goes to the end of
  the emitted code. (Provided the allocator's address is within 2 GB of the operand.)
\<close>

theorem x86_rip_relocated:
  assumes dec: "x86_insn_decode zero_insn code 64 = Inr i"
    and rel: "i_flags i AND X86_INSN_DECODE_FLAG_IP_RELATIVE \<noteq> 0" "m_base (operands i ! 1) = RIP"
    and op: "\<not> (0x70 \<le> primary_opcode i \<and> primary_opcode i \<le> 0x7F)"
    and n: "n = unat (i_length i)" "n \<le> 15" and c: "c = unat (displacement_offset i)"
    and target: "target = ip + word_of_nat n + sx32 (le_word (take 4 (drop c code)))"
    and a: "a = near e (n + 14) target (2 * 1024 * 1024 * 1024)"
    and fits: "sx32 (target - (a + word_of_nat n)) = target - (a + word_of_nat n)"
  shows "\<exists>seq bs. GenRelocateSingleX86Insn e ip relo code buf = Inr (i, buf @ jmp_abs a, [(a, seq)]) \<and> length bs = 4 \<and>
    (\<forall>m cond. loaded m relo (jmp_abs a) \<longrightarrow> x86_goes cond m relo a) \<and>
    (\<forall>m cond. loaded m a seq \<longrightarrow> fetch m a n = take c code @ bs @ drop (c + 4) (take n code) \<and>
       a + word_of_nat n + sx32 (le_word bs) = target \<and> x86_goes cond m (a + word_of_nat n) (relo + 14))"
proof -
  have len: "15 \<le> length code" using decode_stages_Inr [OF dec] by blast
  from decode_rip_layout [OF dec] rel(1) obtain c' n' where r: "displacement_offset i = word_of_nat c'" "c' + 4 \<le> n'" "n' \<le> 20"
    "i_length i = word_of_nat n'" "n' = c' + 4 \<and> immediate_offset i = 0 \<or> immediate_offset i = word_of_nat (c' + 4)"
    and disp: "m_disp (operands i ! 1) = le_word (take 4 (drop c' (take 15 code @ replicate 5 0xcc)))"
    by (auto simp: ip_rel_def)
  have "unat (word_of_nat c' :: u8) = c'" "unat (word_of_nat n' :: u32) = n'"
    using r(2,3) by (simp_all only: unsigned_of_nat) (simp_all add: take_bit_nat_eq_self)
  then have cn: "c' = c" "n' = n" using n c r(1,4) by simp_all
  have len_n: "(ucast (i_length i) :: u64) = word_of_nat n"
    using r(3) unfolding r(4) cn by (simp only: unsigned_of_nat) (simp add: take_bit_nat_eq_self)
  have "take 4 (drop c (take 15 code @ replicate 5 0xcc)) = take 4 (drop c code)"
    using len r(2) n(2) cn by (simp add: take_drop min_def)
  then have disp': "sx32 (ucast (m_disp (operands i ! 1))) = sx32 (le_word (take 4 (drop c code)))"
    using len r(2) n(2) cn disp by (simp add: le_word_4)
  have target': "ip + ucast (i_length i) + sx32 (ucast (m_disp (operands i ! 1))) = target"
    unfolding target disp' len_n by simp
  define req where "req = a + word_of_nat n"
  define bs where "bs = le_bytes 4 (ucast (target - req) :: u32)"
  define seq where "seq = rip_sequence i code a target (relo + 14)"
  have seq: "seq = take c code @ bs @ drop (c + 4) (take n code) @ jmp_abs (relo + 14)"
    using length_rip_sequence [of i c n code a target "relo + 14"] r len n(2) unfolding cn seq_def bs_def req_def by simp
  have gen: "GenRelocateSingleX86Insn e ip relo code buf = Inr (i, buf @ jmp_abs a, [(a, seq)])"
    using dec op rel n(1)
    by (simp add: GenRelocateSingleX86Insn_def Let_def target' codegen_jmp_abs a seq_def add.commute [of 14] del: One_nat_def)
  have size: "length (take c code @ bs @ drop (c + 4) (take n code)) = n"
    using len n(2) r(2) cn by (simp add: bs_def)
  have "a + word_of_nat n + sx32 (le_word bs) = target"
    unfolding bs_def le_word_bytes_32 sx32_low using fits by (simp add: req_def)
  moreover have "fetch m a n = take c code @ bs @ drop (c + 4) (take n code) \<and> x86_goes cond m (a + word_of_nat n) (relo + 14)"
    if "loaded m a seq" for m cond
  proof -
    have "loaded m a ((take c code @ bs @ drop (c + 4) (take n code)) @ jmp_abs (relo + 14))" using that seq by simp
    then have "loaded m a (take c code @ bs @ drop (c + 4) (take n code))" "loaded m (a + word_of_nat n) (jmp_abs (relo + 14))"
      using size loaded_append by metis+
    then show ?thesis using size jmp_abs_goes by (auto simp: loaded_def)
  qed
  moreover have "length bs = 4" by (simp add: bs_def)
  ultimately show ?thesis using gen jmp_abs_goes by blast
qed

text \<open>\<open>mov rax, [rip + 0x10]\<close>, with an allocator that returns the operand's address.\<close>

definition rip_sample :: "u8 list" where
  "rip_sample = [0x48, 0x8b, 0x05, 0x10, 0, 0, 0] @ replicate 13 0x90"

theorem x86_rip_relocated_witness:
  "\<exists>i seq bs. GenRelocateSingleX86Insn \<lparr>ndebug = False, near = \<lambda>_ t _. t\<rparr> 0x400 0x1000 rip_sample [] = Inr (i, [] @ jmp_abs 0x417, [(0x417, seq)]) \<and>
    length bs = 4 \<and> (\<forall>m cond. loaded m 0x417 seq \<longrightarrow> 0x417 + word_of_nat 7 + sx32 (le_word bs) = (0x417 :: u64))"
proof -
  let ?i = "projr (x86_insn_decode zero_insn rip_sample 64)"
  have d: "x86_insn_decode zero_insn rip_sample 64 = Inr ?i" by code_simp
  have "i_flags ?i AND X86_INSN_DECODE_FLAG_IP_RELATIVE \<noteq> 0" "m_base (operands ?i ! 1) = RIP"
    "\<not> (0x70 \<le> primary_opcode ?i \<and> primary_opcode ?i \<le> 0x7F)" "7 = unat (i_length ?i)" "7 \<le> (15 :: nat)" "3 = unat (displacement_offset ?i)"
    "0x417 = (0x400 :: u64) + word_of_nat 7 + sx32 (le_word (take 4 (drop 3 rip_sample)))"
    "0x417 = near \<lparr>ndebug = False, near = \<lambda>_ t _. t\<rparr> (7 + 14) 0x417 (2 * 1024 * 1024 * 1024)"
    "sx32 (0x417 - (0x417 + word_of_nat 7)) = (0x417 - (0x417 + word_of_nat 7) :: u64)"
    by code_simp+
  from x86_rip_relocated [where relo = "0x1000" and buf = "[]", OF d this] show ?thesis by blast
qed

section \<open>Other instructions\<close>

definition near_jcc :: "u8 list" where
  "near_jcc = [0x0f, 0x84, 0x10, 0, 0, 0] @ replicate 10 0x90"



section \<open>Whole functions\<close>

text \<open>Every stage of the decoder moves the cursor onward and keeps it inside the buffer.\<close>

definition onward :: "x86_insn_reader \<Rightarrow> x86_insn_reader \<Rightarrow> bool" where
  "onward rd rd' \<longleftrightarrow> rd_bytes rd' = rd_bytes rd \<and> rd_cursor rd \<le> rd_cursor rd' \<and>
     (rd_cursor rd \<le> length (rd_bytes rd) \<longrightarrow> rd_cursor rd' \<le> length (rd_bytes rd))"

lemma onward_refl [simp, intro]: "onward rd rd"
  by (simp add: onward_def)

lemma onward_trans [trans]: "onward a b \<Longrightarrow> onward b c \<Longrightarrow> onward a c"
  by (auto simp: onward_def)

lemma onward_advance: "rd_cursor rd + k \<le> length (rd_bytes rd) \<Longrightarrow> onward rd (advance k rd)"
  by (simp add: onward_def)

lemma read_byte_onward: "read_byte rd = Inr (b, rd') \<Longrightarrow> onward rd rd' \<and> rd_cursor rd < rd_cursor rd'"
  by (auto simp: read_byte_def dest!: read_le_bound intro: onward_advance)

lemma prefix_onward: "x86_insn_decode_prefix rd i mode p = Inr (q, rd', i') \<Longrightarrow> onward rd rd'"
proof (induction rd i mode p rule: x86_insn_decode_prefix.induct)
  case (1 rd i mode p)
  from 1(2) obtain c where c: "peek_byte rd = Inr c" by (subst (asm) x86_insn_decode_prefix.simps) (auto split: sum.splits)
  show ?case
  proof (cases "mode = 64 \<and> c \<ge> 0x40 \<and> c \<le> 0x4f \<or> legacy_prefix c = 0")
    case True
    with 1(2) c show ?thesis
      by (subst (asm) x86_insn_decode_prefix.simps) (auto simp: and_then_Inr dest: read_byte_onward split: if_splits)
  next
    case False
    with 1(2) c obtain b rd1 where rb: "read_byte rd = Inr (b, rd1)"
      and rest: "x86_insn_decode_prefix rd1 i mode (p OR legacy_prefix c) = Inr (q, rd', i')"
      by (subst (asm) x86_insn_decode_prefix.simps) (auto split: sum.splits)
    have "onward rd1 rd'" using 1(1) [OF c _ _ rb refl rest] False by simp
    with read_byte_onward [OF rb] show ?thesis by (blast intro: onward_trans)
  qed
qed

lemma opcode_onward:
  assumes "x86_insn_decode_opcode rd i = Inr (rd', i')"
  shows "onward rd rd' \<and> rd_cursor rd < rd_cursor rd' \<and> rd_cursor rd' \<le> length (rd_bytes rd')"
proof -
  from assms obtain opc rd1 where 1: "read_byte rd = Inr (opc, rd1)" and 2: "rd' = rd1 \<or> (\<exists>c. read_byte rd1 = Inr (c, rd'))"
    unfolding x86_insn_decode_opcode_def and_then_Inr by (auto split: if_splits simp: and_then_Inr)
  have step: "rd_cursor r2 \<le> length (rd_bytes r1) \<and> onward r1 r2 \<and> rd_cursor r1 < rd_cursor r2"
    if "read_byte r1 = Inr (c, r2)" for c r1 r2 using that by (auto simp: read_byte_def onward_def dest!: read_le_bound)
  from 2 show ?thesis
  proof
    assume "rd' = rd1"
    with step [OF 1] show ?thesis by (simp add: onward_def)
  next
    assume "\<exists>c. read_byte rd1 = Inr (c, rd')"
    then obtain c where "read_byte rd1 = Inr (c, rd')" by blast
    from step [OF this] step [OF 1] show ?thesis by (simp add: onward_def)
  qed
qed

lemma number_onward: "x86_insn_decode_number rd d = Inr (v, rd') \<Longrightarrow> onward rd rd'"
  by (auto dest!: decode_number_Inr intro: onward_advance)

lemma displacement_onward: "decode_displacement d rd i = Inr (rd', i') \<Longrightarrow> onward rd rd'"
  by (auto simp: decode_displacement_def and_then_Inr dest: number_onward split: if_splits)

lemma sib_onward: "decode_sib eab md d rd i = Inr (d', rd', i') \<Longrightarrow> onward rd rd'"
  by (auto simp: decode_sib_def and_then_Inr Let_def split_beta dest: read_byte_onward)

lemma modrm_onward:
  assumes d: "x86_insn_decode_modrm_sib rd i mode = Inr (rd', i')"
  shows "onward rd rd'"
proof -
  from d obtain modrm rd1 where rb: "read_byte rd = Inr (modrm, rd1)" and "onward rd1 rd'"
    unfolding x86_insn_decode_modrm_sib_def Let_def and_then_Inr split_beta
    by (elim exE conjE) (fastforce split: if_splits simp: and_then_Inr dest: sib_onward displacement_onward intro: onward_trans)
  with read_byte_onward [OF rb] show ?thesis by (blast intro: onward_trans)
qed

lemma immediate_onward: "x86_insn_decode_immediate rd i mode = Inr (rd', i') \<Longrightarrow> onward rd rd'"
  by (auto simp: x86_insn_decode_immediate_def and_then_Inr dest: number_onward split: if_splits)

lemma decode_length:
  assumes "x86_insn_decode zero_insn code 64 = Inr i"
  shows "1 \<le> unat (i_length i)"
proof -
  from decode_stages_Inr [OF assms] obtain p rd1 i0 rd2 i2 rd3 i3 rd4 i4 n where
    pre: "x86_insn_decode_prefix (init_reader (take 15 code)) zero_insn 64 0 = Inr (p, rd1, i0)"
    and op: "x86_insn_decode_opcode rd1 (i0\<lparr>i_prefix := p\<rparr>) = Inr (rd2, i2)"
    and mr: "(if x86_insn_has_modrm_byte (insn_spec i2) then x86_insn_decode_modrm_sib rd2 i2 64 else Inr (rd2, i2)) = Inr (rd3, i3)"
    and im: "(if x86_insn_has_immediate (insn_spec i3) then x86_insn_decode_immediate rd3 i3 64 else Inr (rd3, i3)) = Inr (rd4, i4)"
    and n: "reader_offset rd4 = Inr n" "i = i4\<lparr>i_length := word_of_nat n\<rparr>" and len: "15 \<le> length code" by blast
  note o = opcode_onward [OF op]
  have "onward rd2 rd3" using mr modrm_onward by (auto split: if_splits)
  also have "onward rd3 rd4" using im immediate_onward by (auto split: if_splits)
  finally have "1 \<le> n" "n \<le> length (rd_bytes rd4)" "rd_bytes rd4 = rd_bytes rd2"
    using n(1) o by (auto simp: reader_offset_def onward_def split: if_splits)
  moreover have "length (rd_bytes rd2) = 20"
    using prefix_onward [OF pre] o len by (simp add: onward_def init_reader_def)
  ultimately show ?thesis unfolding n(2) by (simp add: unsigned_of_nat take_bit_nat_eq_self)
qed


text \<open>What a relocation covers and how long it is does not depend on the addresses.\<close>

definition single_size :: "bool \<Rightarrow> u8 list \<Rightarrow> (x86_insn \<times> nat) res" where
  "single_size nd code = map_sum id (\<lambda>(i, buf, ps). (i, length buf)) (GenRelocateSingleX86Insn \<lparr>ndebug = nd, near = \<lambda>_ _ _. 0\<rparr> 0 0 code [])"

lemma single_uniform:
  "map_sum id (\<lambda>(i, buf, ps). (i, length buf)) (GenRelocateSingleX86Insn e ip relo code buf) =
   map_sum id (\<lambda>(i, n). (i, length buf + n)) (single_size (ndebug e) code)"
proof (cases "x86_insn_decode zero_insn code 64")
  case (Inl f)
  then show ?thesis by (simp add: single_size_def GenRelocateSingleX86Insn_def)
next
  case (Inr i)
  then show ?thesis
    by (simp add: single_size_def GenRelocateSingleX86Insn_def Let_def codegen_jmp_abs Emit8_def Emit32_def Emit64_def EmitBuffer_def)
qed

lemma single_length:
  assumes "GenRelocateSingleX86Insn e ip relo code buf = Inr (i, buf', ps)"
  shows "1 \<le> unat (i_length i)"
proof -
  from assms have "x86_insn_decode zero_insn code 64 = Inr i"
    by (cases "x86_insn_decode zero_insn code 64") (auto simp: GenRelocateSingleX86Insn_def Let_def split: if_splits)
  then show ?thesis by (rule decode_length)
qed

function cover :: "bool \<Rightarrow> nat \<Rightarrow> u8 list \<Rightarrow> nat \<Rightarrow> nat \<Rightarrow> (nat \<times> nat) res" where
  \<comment> \<open>the bytes covered and the bytes emitted\<close>
  "cover nd sz code cursor n =
     (if cursor < sz then
        (case single_size nd (drop cursor code) of Inl f \<Rightarrow> Inl f
         | Inr (i, k) \<Rightarrow> cover nd sz code (cursor + max 1 (unat (i_length i))) (n + k))
      else Inr (cursor, n))"
  by pat_completeness auto
termination by (relation "measure (\<lambda>(nd, sz, code, cursor, n). sz - cursor)") auto

declare cover.simps [simp del]

lemma relocate_loop_covers:
  "\<exists>r. relocate_loop e orig relo sz code cursor buf ps = Some r \<and>
     map_sum id (\<lambda>(c, buf, ps). (c, length buf)) r = cover (ndebug e) sz code cursor (length buf)"
proof (induction "sz - cursor" arbitrary: cursor buf ps rule: less_induct)
  case less
  let ?g = "GenRelocateSingleX86Insn e (orig + word_of_nat cursor) (relo + word_of_nat (length buf)) (drop cursor code) buf"
  show ?case
  proof (cases "cursor < sz")
    case False
    then show ?thesis by (simp add: relocate_loop.simps cover.simps)
  next
    case True
    note u = single_uniform [of e "orig + word_of_nat cursor" "relo + word_of_nat (length buf)" "drop cursor code" buf]
    show ?thesis
    proof (cases ?g)
      case (Inl f)
      with u have "single_size (ndebug e) (drop cursor code) = Inl f" by (cases "single_size (ndebug e) (drop cursor code)") auto
      with Inl True show ?thesis by (simp add: relocate_loop.simps [of e orig relo sz code cursor] cover.simps [of _ sz code cursor])
    next
      case (Inr r)
      obtain i buf' qs where r: "r = (i, buf', qs)" by (cases r)
      have pos: "1 \<le> unat (i_length i)" using single_length Inr r by blast
      from u Inr r obtain k where k: "single_size (ndebug e) (drop cursor code) = Inr (i, k)" "length buf' = length buf + k"
        by (cases "single_size (ndebug e) (drop cursor code)") auto
      have "sz - (cursor + unat (i_length i)) < sz - cursor" using True pos by simp
      from less [OF this, of buf' "ps @ qs"] show ?thesis
        using True Inr r k pos
        by (simp add: relocate_loop.simps [of e orig relo sz code cursor] cover.simps [of _ sz code cursor] max_def)
    qed
  qed
qed

lemma cover_again: "cover nd sz code cursor n = Inr (c, m) \<Longrightarrow> sz \<le> c \<and> (cursor \<le> c) \<and> cover nd c code cursor n = Inr (c, m)"
proof (induction nd sz code cursor n rule: cover.induct)
  case (1 nd sz code cursor n)
  show ?case
  proof (cases "cursor < sz")
    case False
    with 1(2) show ?thesis by (auto simp: cover.simps)
  next
    case True
    with 1(2) obtain i k where s: "single_size nd (drop cursor code) = Inr (i, k)"
      and rest: "cover nd sz code (cursor + max 1 (unat (i_length i))) (n + k) = Inr (c, m)"
      by (subst (asm) cover.simps) (auto split: sum.splits)
    from 1(1) [OF True s refl rest] s show ?thesis by (subst cover.simps) auto
  qed
qed

lemma relocate_fixed:
  "\<exists>x. GenRelocateCodeFixed e orig sz relo rsz code branch = Some x \<and>
     (case cover (ndebug e) sz code 0 0 of Inl f \<Rightarrow> x = Inl f
      | Inr (c, n) \<Rightarrow> \<exists>buf ps. length buf = n + (if branch then 14 else 0) \<and>
          x = Inr (if length buf > rsz then (-1, c, buf, ps) else (0, c, buf, ps @ [(relo, buf)])))"
proof -
  from relocate_loop_covers [of e orig relo sz code 0 "[]" "[]"] obtain r where r: "relocate_loop e orig relo sz code 0 [] [] = Some r"
    "cover (ndebug e) sz code 0 0 = map_sum id (\<lambda>(c, buf, ps). (c, length buf)) r" by auto
  show ?thesis
  proof (cases r)
    case (Inl f)
    with r show ?thesis by (simp add: GenRelocateCodeFixed_def)
  next
    case (Inr y)
    obtain c buf ps where y: "y = (c, buf, ps)" by (cases y)
    define buf' where "buf' = (if branch then Emit64 (orig + word_of_nat c)
      (JmpNearIndirect (relo + word_of_nat (length buf) + 6) (relo + word_of_nat (length buf)) buf) else buf)"
    have len: "length buf' = length buf + (if branch then 14 else 0)"
      by (simp add: buf'_def JmpNearIndirect_def Emit8_def Emit32_def Emit64_def)
    have eq: "GenRelocateCodeFixed e orig sz relo rsz code branch =
        Some (Inr (if length buf' > rsz then (-1, c, buf', ps) else (0, c, buf', ps @ [(relo, buf')])))"
      unfolding GenRelocateCodeFixed_def r(1) Inr y Let_def by (simp flip: buf'_def)
    have "cover (ndebug e) sz code 0 0 = Inr (c, length buf)" using r(2) Inr y by simp
    then show ?thesis by (simp only: sum.case prod.case) (intro exI conjI, rule eq, rule len, rule refl)
  qed
qed


end
