(* ===== verification/Arm64_Assembler.thy ===== *)
theory Arm64_Assembler
  imports Code_Buffer
begin

unbundle bit_operations_syntax

text \<open>
  Dobby's assembler for AArch64 (\<open>assembler-arm64.h\<close>, \<open>assembler.cc\<close>,
  \<open>AssemblerPseudoLabel.h\<close>, \<open>codegen-arm64.cc\<close>) and the coding of instruction fields
  (\<open>utility_macro.h\<close>, \<open>inst_decode_encode_kit.h\<close>), as far as the relocation of
  instructions and the trampolines use them.

  An instruction is a \<open>u32\<close>; \<open>int64_t\<close> offsets and addresses are \<open>u64\<close> in two's
  complement, an arithmetic shift to the right is \<open>signed_drop_bit\<close>. A label is known by
  its index in the assembler's list of data labels. The \<open>DCHECK\<close>s are compiled out, as in
  the build of the library.
\<close>

section \<open>Fields of an instruction\<close>

definition LeftShift :: "'a :: len word \<Rightarrow> nat \<Rightarrow> nat \<Rightarrow> 'a word" where
  "LeftShift a b c = push_bit c (a AND (push_bit b 1 - 1))"

definition ALIGN_FLOOR :: "u64 \<Rightarrow> u64 \<Rightarrow> u64" where
  "ALIGN_FLOOR address rng = address AND NOT (rng - 1)"

definition ALIGN_CEIL :: "u64 \<Rightarrow> u64 \<Rightarrow> u64" where
  "ALIGN_CEIL address rng = (address + rng - 1) AND NOT (rng - 1)"

definition submask :: "nat \<Rightarrow> u64" where
  "submask x = push_bit (x + 1) 1 - 1"

definition bits :: "u64 \<Rightarrow> nat \<Rightarrow> nat \<Rightarrow> u64" where
  \<comment> \<open>the object is widened to \<open>long\<close>: with \<open>scast\<close> when it is signed, \<open>ucast\<close> when not\<close>
  "bits obj st fn = signed_drop_bit st obj AND submask (fn - st)"

definition bit_at :: "u64 \<Rightarrow> nat \<Rightarrow> u64" where
  "bit_at obj st = signed_drop_bit st obj AND 1"

definition set_bit_at :: "u32 \<Rightarrow> nat \<Rightarrow> u32 \<Rightarrow> u32" where
  "set_bit_at obj st b = (NOT (push_bit st 1) AND obj) OR push_bit st b"

definition set_bits :: "u32 \<Rightarrow> nat \<Rightarrow> nat \<Rightarrow> u32 \<Rightarrow> u32" where
  "set_bits obj st fn bs = ucast (NOT (push_bit st (submask (fn - st))) AND ucast obj) OR push_bit st bs"

definition SignExtend :: "u64 \<Rightarrow> nat \<Rightarrow> nat \<Rightarrow> u64" where
  "SignExtend x M N =
     (let sign_bit = bit_at x (M - 1);
          sign_mask = 0 - sign_bit
      in x OR push_bit M (drop_bit M sign_mask))"

definition decode_imm14_offset :: "u32 \<Rightarrow> u64" where
  "decode_imm14_offset instr = SignExtend (push_bit 2 (bits (ucast instr) 5 18)) (2 + 14) 64"

definition encode_imm14_offset :: "u32 \<Rightarrow> u64 \<Rightarrow> u32" where
  "encode_imm14_offset instr offset = set_bits instr 5 18 (ucast (bits (signed_drop_bit 2 offset) 0 13))"

definition decode_imm19_offset :: "u32 \<Rightarrow> u64" where
  "decode_imm19_offset instr = SignExtend (push_bit 2 (bits (ucast instr) 5 23)) (2 + 19) 64"

definition encode_imm19_offset :: "u32 \<Rightarrow> u64 \<Rightarrow> u32" where
  "encode_imm19_offset instr offset = set_bits instr 5 23 (ucast (bits (signed_drop_bit 2 offset) 0 18))"

definition decode_imm26_offset :: "u32 \<Rightarrow> u64" where
  "decode_imm26_offset instr = SignExtend (push_bit 2 (bits (ucast instr) 0 25)) (2 + 26) 64"

definition encode_imm26_offset :: "u32 \<Rightarrow> u64 \<Rightarrow> u32" where
  "encode_imm26_offset instr offset = set_bits instr 0 25 (ucast (bits (signed_drop_bit 2 offset) 0 25))"

text \<open>The structure with bit fields in \<open>decode_immhi_immlo_offset\<close>: \<open>immhi\<close> is bits 5 to 23,
  \<open>immlo\<close> bits 29 and 30; an assignment to a field keeps the low bits.\<close>

definition immhi :: "u32 \<Rightarrow> u32" where
  "immhi instr = take_bit 19 (drop_bit 5 instr)"

definition immlo :: "u32 \<Rightarrow> u32" where
  "immlo instr = take_bit 2 (drop_bit 29 instr)"

definition set_field :: "u32 \<Rightarrow> nat \<Rightarrow> nat \<Rightarrow> u32 \<Rightarrow> u32" where
  "set_field instr pos width v = (instr AND NOT (push_bit pos (mask width))) OR push_bit pos (take_bit width v)"

definition decode_immhi_immlo_offset :: "u32 \<Rightarrow> u64" where
  "decode_immhi_immlo_offset instr = SignExtend (ucast (immlo instr + push_bit 2 (immhi instr))) (2 + 19) 64"

definition encode_immhi_immlo_offset :: "u32 \<Rightarrow> u64 \<Rightarrow> u32" where
  "encode_immhi_immlo_offset instr offset =
     set_field (set_field instr 29 2 (ucast (bits offset 0 2))) 5 19 (ucast (bits offset 2 (2 + 19)))"

definition decode_immhi_immlo_zero12_offset :: "u32 \<Rightarrow> u64" where
  "decode_immhi_immlo_zero12_offset instr = push_bit 12 (decode_immhi_immlo_offset instr)"

definition encode_immhi_immlo_zero12_offset :: "u32 \<Rightarrow> u64 \<Rightarrow> u32" where
  "encode_immhi_immlo_zero12_offset instr offset = encode_immhi_immlo_offset instr (signed_drop_bit 12 offset)"

definition decode_rt :: "u32 \<Rightarrow> u32" where
  "decode_rt instr = ucast (bits (ucast instr) 0 4)"

definition decode_rd :: "u32 \<Rightarrow> u32" where
  "decode_rd instr = ucast (bits (ucast instr) 0 4)"

section \<open>Constants and registers\<close>

definition UnconditionalBranchFixed :: u32 where "UnconditionalBranchFixed = 0x14000000"
definition UnconditionalBranchFixedMask :: u32 where "UnconditionalBranchFixedMask = 0x7C000000"
definition UnconditionalBranchMask :: u32 where "UnconditionalBranchMask = 0xFC000000"
definition B_op :: u32 where "B_op = UnconditionalBranchFixed OR 0x00000000"
definition BL_op :: u32 where "BL_op = UnconditionalBranchFixed OR 0x80000000"
definition BR_op :: u32 where "BR_op = 0xD6000000 OR 0x001F0000"
definition BLR_op :: u32 where "BLR_op = 0xD6000000 OR 0x003F0000"
definition LoadRegLiteralFixed :: u32 where "LoadRegLiteralFixed = 0x18000000"
definition LoadRegLiteralFixedMask :: u32 where "LoadRegLiteralFixedMask = 0x3B000000"
definition LoadRegLiteralSub :: "u32 \<Rightarrow> u32 \<Rightarrow> u32" where
  "LoadRegLiteralSub opc v = LoadRegLiteralFixed OR LeftShift opc 2 30 OR LeftShift v 1 26"
definition LoadStoreOpSub :: "u32 \<Rightarrow> u32 \<Rightarrow> u32 \<Rightarrow> u32" where
  "LoadStoreOpSub sz v opc = LeftShift sz 2 30 OR LeftShift v 1 26 OR LeftShift opc 2 22"
definition LDR_x :: u32 where "LDR_x = LoadStoreOpSub 3 0 1"
definition LoadStoreUnsignedOffsetFixed :: u32 where "LoadStoreUnsignedOffsetFixed = 0x39000000"
definition MoveWideImmediateFixed :: u32 where "MoveWideImmediateFixed = 0x12800000"
definition MOVZ :: u32 where "MOVZ = 0x40000000"
definition MOVK :: u32 where "MOVK = 0x60000000"
definition AddSubImmediateOpSub :: "u32 \<Rightarrow> u32 \<Rightarrow> u32 \<Rightarrow> u32" where
  "AddSubImmediateOpSub w op s = 0x11000000 OR LeftShift w 1 31 OR LeftShift op 1 30 OR LeftShift s 1 29"
definition PCRelAddressingFixed :: u32 where "PCRelAddressingFixed = 0x10000000"
definition PCRelAddressingFixedMask :: u32 where "PCRelAddressingFixedMask = 0x1F000000"
definition PCRelAddressingMask :: u32 where "PCRelAddressingMask = 0x9F000000"
definition ADR :: u32 where "ADR = PCRelAddressingFixed OR 0x00000000"
definition ADRP :: u32 where "ADRP = PCRelAddressingFixed OR 0x80000000"
definition CompareBranchFixed :: u32 where "CompareBranchFixed = 0x34000000"
definition CompareBranchFixedMask :: u32 where "CompareBranchFixedMask = 0x7E000000"
definition ConditionalBranchFixed :: u32 where "ConditionalBranchFixed = 0x54000000"
definition ConditionalBranchFixedMask :: u32 where "ConditionalBranchFixedMask = 0xFE000000"
definition TestBranchFixed :: u32 where "TestBranchFixed = 0x36000000"
definition TestBranchFixedMask :: u32 where "TestBranchFixedMask = 0x7E000000"

datatype RegisterType =
    kRegister_32 | kRegister_64 | kRegister
  | kVRegister | kSIMD_FP_Register_8 | kSIMD_FP_Register_16 | kSIMD_FP_Register_32
  | kSIMD_FP_Register_64 | kSIMD_FP_Register_128 | kInvalid

record CPURegister =
  reg_code :: u32
  reg_size :: nat
  reg_type :: RegisterType

definition Xr :: "u32 \<Rightarrow> CPURegister" where
  "Xr c = \<lparr>reg_code = c, reg_size = 64, reg_type = kRegister_64\<rparr>"

definition Wr :: "u32 \<Rightarrow> CPURegister" where
  "Wr c = \<lparr>reg_code = c, reg_size = 32, reg_type = kRegister_32\<rparr>"

definition Is64Bits :: "CPURegister \<Rightarrow> bool" where
  "Is64Bits r \<longleftrightarrow> reg_size r = 64"

definition TMP_REG_0 :: CPURegister where
  "TMP_REG_0 = Xr 17"

definition Rd :: "CPURegister \<Rightarrow> u32" where "Rd r = push_bit 0 (reg_code r)"
definition Rt :: "CPURegister \<Rightarrow> u32" where "Rt r = push_bit 0 (reg_code r)"
definition Rn :: "CPURegister \<Rightarrow> u32" where "Rn r = push_bit 5 (reg_code r)"

datatype AddrMode = Offset | PreIndex | PostIndex

record MemOperand =
  mo_base :: CPURegister
  mo_offset :: u64
  mo_addrmode :: AddrMode

definition op_sf :: "CPURegister \<Rightarrow> u32" where
  "op_sf r = (if Is64Bits r then LeftShift 1 1 31 else 0)"

definition op_scale :: "u32 \<Rightarrow> nat" where
  "op_scale op = (if op AND LoadStoreUnsignedOffsetFixed = LoadStoreUnsignedOffsetFixed then unat (bits (scast op) 30 31) else 0)"

section \<open>The assembler\<close>

definition kLabelImm19 :: nat where
  "kLabelImm19 = 0"

record RelocLabel =
  label_pos :: u64
  ref_label_insns :: "(nat \<times> nat) list"  \<comment> \<open>\<open>link_type\<close> and \<open>pc_offset\<close>\<close>
  label_data :: "u8 list"                       \<comment> \<open>the first \<open>data_size_\<close> bytes of \<open>data_\<close>\<close>

definition withData :: "u64 \<Rightarrow> RelocLabel" where
  "withData v = \<lparr>label_pos = 0, ref_label_insns = [], label_data = le_bytes 8 v\<rparr>"

definition link_to :: "nat \<Rightarrow> nat \<Rightarrow> RelocLabel \<Rightarrow> RelocLabel" where
  "link_to link_type pc_offset l = l\<lparr>ref_label_insns := ref_label_insns l @ [(link_type, pc_offset)]\<rparr>"

definition bind_to :: "u64 \<Rightarrow> RelocLabel \<Rightarrow> RelocLabel" where
  "bind_to addr l = l\<lparr>label_pos := addr\<rparr>"

record TurboAssembler =
  code_buffer :: "u8 list"
  data_labels :: "RelocLabel list"
  realized_addr :: u64

definition turbo_assembler :: "u64 \<Rightarrow> TurboAssembler" where
  "turbo_assembler address = \<lparr>code_buffer = [], data_labels = [], realized_addr = address\<rparr>"

definition GetBufferSize :: "TurboAssembler \<Rightarrow> nat" where
  "GetBufferSize ta = length (code_buffer ta)"

definition AppendRelocLabel :: "RelocLabel \<Rightarrow> TurboAssembler \<Rightarrow> nat \<times> TurboAssembler" where
  \<comment> \<open>with the index of the label\<close>
  "AppendRelocLabel l ta = (length (data_labels ta), ta\<lparr>data_labels := data_labels ta @ [l]\<rparr>)"

definition Emit :: "u32 \<Rightarrow> TurboAssembler \<Rightarrow> TurboAssembler" where
  "Emit value ta = ta\<lparr>code_buffer := Emit32 value (code_buffer ta)\<rparr>"

definition adrp :: "CPURegister \<Rightarrow> u64 \<Rightarrow> TurboAssembler \<Rightarrow> TurboAssembler" where
  "adrp rd imm ta =
     (let lo = ucast (LeftShift (bits (signed_drop_bit 12 imm) 0 1) 2 29);
          hi = ucast (LeftShift (bits (signed_drop_bit 12 imm) 2 20) 19 5)
      in Emit (ADRP OR Rd rd OR lo OR hi) ta)"

definition AddSubImmediate :: "CPURegister \<Rightarrow> CPURegister \<Rightarrow> u64 \<Rightarrow> u32 \<Rightarrow> TurboAssembler \<Rightarrow> TurboAssembler" where
  \<comment> \<open>with an immediate operand\<close>
  "AddSubImmediate rd rn immediate op ta =
     (let imm12 = ucast (LeftShift immediate 12 10) in Emit (op OR Rd rd OR Rn rn OR imm12) ta)"

definition add_imm :: "CPURegister \<Rightarrow> CPURegister \<Rightarrow> u64 \<Rightarrow> TurboAssembler \<Rightarrow> TurboAssembler" where
  "add_imm rd rn imm ta =
     (if Is64Bits rd \<and> Is64Bits rn then AddSubImmediate rd rn imm (AddSubImmediateOpSub 1 0 0) ta
      else AddSubImmediate rd rn imm (AddSubImmediateOpSub 0 0 0) ta)"

definition b_imm :: "u64 \<Rightarrow> TurboAssembler \<Rightarrow> TurboAssembler" where
  "b_imm imm ta = (let imm26 = ucast (bits (signed_drop_bit 2 imm) 0 25) in Emit (B_op OR imm26) ta)"

definition br :: "CPURegister \<Rightarrow> TurboAssembler \<Rightarrow> TurboAssembler" where
  "br rn ta = Emit (BR_op OR Rn rn) ta"

definition blr :: "CPURegister \<Rightarrow> TurboAssembler \<Rightarrow> TurboAssembler" where
  "blr rn ta = Emit (BLR_op OR Rn rn) ta"

definition EmitLoadRegLiteral :: "u32 \<Rightarrow> CPURegister \<Rightarrow> u64 \<Rightarrow> TurboAssembler \<Rightarrow> TurboAssembler" where
  "EmitLoadRegLiteral op rt imm ta = Emit (ucast (ucast op OR LeftShift imm 26 5 OR ucast (Rt rt))) ta"

definition ldr_literal :: "CPURegister \<Rightarrow> u64 \<Rightarrow> TurboAssembler \<Rightarrow> TurboAssembler res" where
  "ldr_literal rt imm ta =
     (case reg_type rt of
        kRegister_32 \<Rightarrow> Inr (EmitLoadRegLiteral (LoadRegLiteralSub 0 0) rt imm ta)
      | kRegister_64 \<Rightarrow> Inr (EmitLoadRegLiteral (LoadRegLiteralSub 1 0) rt imm ta)
      | kSIMD_FP_Register_32 \<Rightarrow> Inr (EmitLoadRegLiteral (LoadRegLiteralSub 0 1) rt imm ta)
      | kSIMD_FP_Register_64 \<Rightarrow> Inr (EmitLoadRegLiteral (LoadRegLiteralSub 1 1) rt imm ta)
      | kSIMD_FP_Register_128 \<Rightarrow> Inr (EmitLoadRegLiteral (LoadRegLiteralSub 2 1) rt imm ta)
      | _ \<Rightarrow> Inl Abort)"

definition LoadStore :: "u32 \<Rightarrow> CPURegister \<Rightarrow> MemOperand \<Rightarrow> TurboAssembler \<Rightarrow> TurboAssembler res" where
  "LoadStore op rt addr ta =
     (if mo_addrmode addr = Offset then
        let imm12 = signed_drop_bit (op_scale (LoadStoreUnsignedOffsetFixed OR op)) (mo_offset addr)
        in Inr (Emit (ucast (ucast (LoadStoreUnsignedOffsetFixed OR op) OR LeftShift imm12 12 10 OR
                             ucast (Rn (mo_base addr)) OR ucast (Rt rt))) ta)
      else Inl Abort)"

definition ldr :: "CPURegister \<Rightarrow> MemOperand \<Rightarrow> TurboAssembler \<Rightarrow> TurboAssembler res" where
  "ldr rt src ta = LoadStore LDR_x rt src ta"

definition MoveWide :: "CPURegister \<Rightarrow> u64 \<Rightarrow> nat \<Rightarrow> u32 \<Rightarrow> TurboAssembler \<Rightarrow> TurboAssembler" where
  \<comment> \<open>a shift of at least zero\<close>
  "MoveWide rd imm shift op ta =
     (let shift = (if shift > 0 then shift div 16 else 0);
          imm16 = ucast (LeftShift imm 16 5)
      in Emit (MoveWideImmediateFixed OR op OR op_sf rd OR LeftShift (word_of_nat shift) 2 21 OR imm16 OR Rd rd) ta)"

definition movz :: "CPURegister \<Rightarrow> u64 \<Rightarrow> nat \<Rightarrow> TurboAssembler \<Rightarrow> TurboAssembler" where
  "movz rd imm shift ta = MoveWide rd imm shift MOVZ ta"

definition movk :: "CPURegister \<Rightarrow> u64 \<Rightarrow> nat \<Rightarrow> TurboAssembler \<Rightarrow> TurboAssembler" where
  "movk rd imm shift ta = MoveWide rd imm shift MOVK ta"

definition Ldr :: "CPURegister \<Rightarrow> nat \<Rightarrow> TurboAssembler \<Rightarrow> TurboAssembler res" where
  "Ldr rt label ta =
     (let l = data_labels ta ! label in
      if label_pos l \<noteq> 0 then
        let offset = scast (ucast (label_pos l - word_of_nat (GetBufferSize ta)) :: u32) in ldr_literal rt offset ta
      else
        let ta = ta\<lparr>data_labels := (data_labels ta)[label := link_to kLabelImm19 (GetBufferSize ta) l]\<rparr>
        in ldr_literal rt 0 ta)"

definition Low16Bits :: "u32 \<Rightarrow> u16" where "Low16Bits value = ucast (value AND 0xffff)"
definition High16Bits :: "u32 \<Rightarrow> u16" where "High16Bits value = ucast (drop_bit 16 value)"
definition Low32Bits :: "u64 \<Rightarrow> u32" where "Low32Bits value = ucast value"
definition High32Bits :: "u64 \<Rightarrow> u32" where "High32Bits value = ucast (drop_bit 32 value)"

definition Mov :: "CPURegister \<Rightarrow> u64 \<Rightarrow> TurboAssembler \<Rightarrow> TurboAssembler" where
  "Mov rd imm ta =
     (let w0 = Low32Bits imm; w1 = High32Bits imm;
          h0 = Low16Bits w0; h1 = High16Bits w0; h2 = Low16Bits w1; h3 = High16Bits w1
      in movk rd (ucast h3) 48 (movk rd (ucast h2) 32 (movk rd (ucast h1) 16 (movz rd (ucast h0) 0 ta))))"

definition AdrpAdd :: "CPURegister \<Rightarrow> u64 \<Rightarrow> u64 \<Rightarrow> TurboAssembler \<Rightarrow> TurboAssembler" where
  "AdrpAdd rd from to ta =
     (let from_PAGE = ALIGN_FLOOR from 0x1000;
          to_PAGE = ALIGN_FLOOR to 0x1000;
          to_PAGEOFF = to mod 0x1000
      in add_imm rd rd to_PAGEOFF (adrp rd (to_PAGE - from_PAGE) ta))"

definition LoadInst :: "nat \<Rightarrow> u8 list \<Rightarrow> u32 res" where
  "LoadInst offset buf = (if offset + 4 \<le> length buf then Inr (le_word (take 4 (drop offset buf))) else Inl Out_of_bounds)"

definition RewriteInst :: "nat \<Rightarrow> u32 \<Rightarrow> u8 list \<Rightarrow> u8 list res" where
  "RewriteInst offset instr buf =
     (if offset + 4 \<le> length buf then Inr (splice buf offset (le_bytes 4 instr)) else Inl Out_of_bounds)"

text \<open>\<open>link_confused_instructions\<close>: the references of one label, the label being bound to
  \<open>p\<close>.\<close>

primrec link_confused_instructions :: "u64 \<Rightarrow> (nat \<times> nat) list \<Rightarrow> u8 list \<Rightarrow> u8 list res" where
  "link_confused_instructions p [] buf = Inr buf"
| "link_confused_instructions p (r # rs) buf =
     (let fixup_offset = p - word_of_nat (snd r) in
      and_then (LoadInst (snd r) buf) (\<lambda>inst.
      let new_inst = (if fst r = kLabelImm19 then encode_imm19_offset inst fixup_offset else 0) in
      and_then (RewriteInst (snd r) new_inst buf) (link_confused_instructions p rs)))"

definition PseudoBind :: "nat \<Rightarrow> TurboAssembler \<Rightarrow> TurboAssembler res" where
  "PseudoBind label ta =
     (let l = bind_to (word_of_nat (GetBufferSize ta)) (data_labels ta ! label);
          ta = ta\<lparr>data_labels := (data_labels ta)[label := l]\<rparr>
      in if ref_label_insns l \<noteq> [] then
           and_then (link_confused_instructions (label_pos l) (ref_label_insns l) (code_buffer ta)) (\<lambda>buf. Inr (ta\<lparr>code_buffer := buf\<rparr>))
         else Inr ta)"

primrec reloc_bind_from :: "nat list \<Rightarrow> TurboAssembler \<Rightarrow> TurboAssembler res" where
  "reloc_bind_from [] ta = Inr ta"
| "reloc_bind_from (label # ls) ta =
     and_then (PseudoBind label ta) (\<lambda>ta.
     let l = data_labels ta ! label in
     reloc_bind_from ls (ta\<lparr>code_buffer := EmitBuffer (label_data l) (length (label_data l)) (code_buffer ta)\<rparr>))"

definition RelocBind :: "TurboAssembler \<Rightarrow> TurboAssembler res" where
  "RelocBind ta = reloc_bind_from [0..<length (data_labels ta)] ta"

definition LiteralLdrBranch :: "u64 \<Rightarrow> TurboAssembler \<Rightarrow> TurboAssembler res" where
  "LiteralLdrBranch address ta =
     (let (label, ta) = AppendRelocLabel (withData address) ta in
      and_then (Ldr TMP_REG_0 label ta) (\<lambda>ta. Inr (br TMP_REG_0 ta)))"

end
