(* ===== verification/Arm64_Machine.thy ===== *)
theory Arm64_Machine
  imports Code_Buffer
begin

unbundle bit_operations_syntax

text \<open>
  A small model of an AArch64 processor, from the encodings and the pseudocode of the
  architecture manual and independent of Dobby's code: the instructions that use the program
  counter, and the ones Dobby emits in their place. All other instructions are a parameter
  \<open>other\<close> of the model. Execution of one instruction gives the new state and where to go on.
\<close>

record a64 =
  reg :: "nat \<Rightarrow> u64"          \<comment> \<open>x0 to x30\<close>
  stack_pointer :: u64
  vreg :: "nat \<Rightarrow> 128 word"
  flag_n :: bool
  flag_z :: bool
  flag_c :: bool
  flag_v :: bool
  memory :: "u64 \<Rightarrow> u8"
  pc :: u64

datatype flow = Next | Goto u64 | Call u64

text \<open>Register number 31 is the zero register, or the stack pointer where the instruction
  says so.\<close>

definition xreg :: "a64 \<Rightarrow> nat \<Rightarrow> u64" where
  "xreg s n = (if n = 31 then 0 else reg s n)"

definition set_xreg :: "nat \<Rightarrow> u64 \<Rightarrow> a64 \<Rightarrow> a64" where
  "set_xreg n v s = (if n = 31 then s else s\<lparr>reg := (reg s)(n := v)\<rparr>)"

definition xreg_sp :: "a64 \<Rightarrow> nat \<Rightarrow> u64" where
  "xreg_sp s n = (if n = 31 then stack_pointer s else reg s n)"

definition set_xreg_sp :: "nat \<Rightarrow> u64 \<Rightarrow> a64 \<Rightarrow> a64" where
  "set_xreg_sp n v s = (if n = 31 then s\<lparr>stack_pointer := v\<rparr> else s\<lparr>reg := (reg s)(n := v)\<rparr>)"

definition field :: "u32 \<Rightarrow> nat \<Rightarrow> nat \<Rightarrow> u32" where
  "field w lo n = take_bit n (drop_bit lo w)"

definition rfield :: "u32 \<Rightarrow> nat \<Rightarrow> nat" where
  "rfield w lo = unat (field w lo 5)"

definition words_off :: "u32 \<Rightarrow> nat \<Rightarrow> nat \<Rightarrow> u64" where
  \<comment> \<open>a signed number of words in \<open>n\<close> bits from bit \<open>lo\<close> on\<close>
  "words_off w lo n = push_bit 2 (signed_take_bit (n - 1) (drop_bit lo (ucast w)))"

definition adr_imm :: "u32 \<Rightarrow> u64" where
  "adr_imm w = signed_take_bit 20 (push_bit 2 (ucast (field w 5 19)) OR ucast (field w 29 2))"

definition cond_holds :: "u32 \<Rightarrow> a64 \<Rightarrow> bool" where
  "cond_holds c s =
     (let k = unat (drop_bit 1 c);
          r = (if k = 0 then flag_z s else if k = 1 then flag_c s else if k = 2 then flag_n s
               else if k = 3 then flag_v s else if k = 4 then flag_c s \<and> \<not> flag_z s
               else if k = 5 then flag_n s = flag_v s
               else if k = 6 then flag_n s = flag_v s \<and> \<not> flag_z s else True)
      in if bit c 0 \<and> c \<noteq> 15 then \<not> r else r)"

definition a64_exec :: "(u32 \<Rightarrow> a64 \<Rightarrow> (a64 \<times> flow) option) \<Rightarrow> u32 \<Rightarrow> a64 \<Rightarrow> (a64 \<times> flow) option" where
  "a64_exec other w s =
     (let rt = rfield w 0; m = memory s in
      if w AND 0x7C000000 = 0x14000000 then \<comment> \<open>B, BL\<close>
        let t = pc s + words_off w 0 26 in Some (s, if bit w 31 then Call t else Goto t)
      else if w AND 0xFF000000 = 0x54000000 then \<comment> \<open>B.cond\<close>
        Some (s, if cond_holds (field w 0 4) s then Goto (pc s + words_off w 5 19) else Next)
      else if w AND 0x7E000000 = 0x34000000 then \<comment> \<open>CBZ, CBNZ\<close>
        let v = (if bit w 31 then xreg s rt else take_bit 32 (xreg s rt))
        in Some (s, if (v = 0) \<noteq> bit w 24 then Goto (pc s + words_off w 5 19) else Next)
      else if w AND 0x7E000000 = 0x36000000 then \<comment> \<open>TBZ, TBNZ\<close>
        let n = (if bit w 31 then 32 else 0) + unat (field w 19 5)
        in Some (s, if bit (xreg s rt) n = bit w 24 then Goto (pc s + words_off w 5 14) else Next)
      else if w AND 0x3F000000 = 0x18000000 then \<comment> \<open>LDR literal: W, X, LDRSW, PRFM\<close>
        let a = pc s + words_off w 5 19; opc = field w 30 2
        in if opc = 0 then Some (set_xreg rt (ucast (inst_at m a)) s, Next)
           else if opc = 1 then Some (set_xreg rt (le_word (fetch m a 8)) s, Next)
           else if opc = 2 then Some (set_xreg rt (scast (inst_at m a)) s, Next)
           else Some (s, Next)
      else if w AND 0x3F000000 = 0x1C000000 \<and> field w 30 2 \<noteq> 3 then \<comment> \<open>LDR literal: S, D, Q\<close>
        let a = pc s + words_off w 5 19; n = 4 * 2 ^ unat (field w 30 2)
        in Some (s\<lparr>vreg := (vreg s)(rt := le_word (fetch m a n))\<rparr>, Next)
      else if w AND 0x9F000000 = 0x10000000 then \<comment> \<open>ADR\<close>
        Some (set_xreg rt (pc s + adr_imm w) s, Next)
      else if w AND 0x9F000000 = 0x90000000 then \<comment> \<open>ADRP\<close>
        Some (set_xreg rt (push_bit 12 (drop_bit 12 (pc s)) + push_bit 12 (adr_imm w)) s, Next)
      else if w AND 0xFF800000 = 0xD2800000 then \<comment> \<open>MOVZ\<close>
        Some (set_xreg rt (push_bit (16 * unat (field w 21 2)) (ucast (field w 5 16))) s, Next)
      else if w AND 0xFF800000 = 0xF2800000 then \<comment> \<open>MOVK\<close>
        let sh = 16 * unat (field w 21 2)
        in Some (set_xreg rt (xreg s rt AND NOT (push_bit sh (mask 16)) OR push_bit sh (ucast (field w 5 16))) s, Next)
      else if w AND 0xFFC00000 = 0x91000000 then \<comment> \<open>ADD immediate\<close>
        Some (set_xreg_sp rt (xreg_sp s (rfield w 5) + ucast (field w 10 12)) s, Next)
      else if w AND 0xFFC00000 = 0xF9400000 then \<comment> \<open>LDR unsigned offset\<close>
        Some (set_xreg rt (le_word (fetch m (xreg_sp s (rfield w 5) + push_bit 3 (ucast (field w 10 12))) 8)) s, Next)
      else if w AND 0xFFFFFC1F = 0xD61F0000 then \<comment> \<open>BR\<close>
        Some (s, Goto (xreg s (rfield w 5)))
      else if w AND 0xFFFFFC1F = 0xD63F0000 then \<comment> \<open>BLR\<close>
        Some (s, Call (xreg s (rfield w 5)))
      else other w s)"

text \<open>The state after the instruction; a call puts the address of the next instruction into
  the link register x30.\<close>

fun a64_after :: "flow \<Rightarrow> u64 \<Rightarrow> a64 \<Rightarrow> a64" where
  "a64_after Next n s = s\<lparr>pc := n\<rparr>"
| "a64_after (Goto a) n s = s\<lparr>pc := a\<rparr>"
| "a64_after (Call a) n s = s\<lparr>reg := (reg s)(30 := n), pc := a\<rparr>"

definition a64_step :: "(u32 \<Rightarrow> a64 \<Rightarrow> (a64 \<times> flow) option) \<Rightarrow> a64 \<Rightarrow> a64 option" where
  "a64_step other s =
     map_option (\<lambda>(t, fl). a64_after fl (pc s + 4) t) (a64_exec other (inst_at (memory s) (pc s)) s)"

primrec a64_run :: "(u32 \<Rightarrow> a64 \<Rightarrow> (a64 \<times> flow) option) \<Rightarrow> nat \<Rightarrow> a64 \<Rightarrow> a64 option" where
  "a64_run other 0 s = Some s"
| "a64_run other (Suc n) s = Option.bind (a64_step other s) (a64_run other n)"

lemma a64_run_add: "a64_run other (i + j) s = Option.bind (a64_run other i s) (a64_run other j)"
  by (induction i arbitrary: s) (simp_all split: Option.bind_splits)

section \<open>The classes of instructions, bit by bit\<close>

text \<open>Every test of an opcode as the bits it fixes; with these facts the simplifier decides
  which instruction a word with symbolic fields is.\<close>

named_theorems a64_classes

lemma a64_class_bits [a64_classes]:
  "w AND 0x7C000000 = (0x14000000 :: u32) \<longleftrightarrow> \<not> bit w 30 \<and> \<not> bit w 29 \<and> bit w 28 \<and> \<not> bit w 27 \<and> bit w 26"
  "w AND 0xFF000000 = (0x54000000 :: u32) \<longleftrightarrow> \<not> bit w 31 \<and> bit w 30 \<and> \<not> bit w 29 \<and> bit w 28 \<and> \<not> bit w 27 \<and> bit w 26 \<and> \<not> bit w 25 \<and> \<not> bit w 24"
  "w AND 0x7E000000 = (0x34000000 :: u32) \<longleftrightarrow> \<not> bit w 30 \<and> bit w 29 \<and> bit w 28 \<and> \<not> bit w 27 \<and> bit w 26 \<and> \<not> bit w 25"
  "w AND 0x7E000000 = (0x36000000 :: u32) \<longleftrightarrow> \<not> bit w 30 \<and> bit w 29 \<and> bit w 28 \<and> \<not> bit w 27 \<and> bit w 26 \<and> bit w 25"
  "w AND 0x3F000000 = (0x18000000 :: u32) \<longleftrightarrow> \<not> bit w 29 \<and> bit w 28 \<and> bit w 27 \<and> \<not> bit w 26 \<and> \<not> bit w 25 \<and> \<not> bit w 24"
  "w AND 0x3F000000 = (0x1C000000 :: u32) \<longleftrightarrow> \<not> bit w 29 \<and> bit w 28 \<and> bit w 27 \<and> bit w 26 \<and> \<not> bit w 25 \<and> \<not> bit w 24"
  "w AND 0x9F000000 = (0x10000000 :: u32) \<longleftrightarrow> \<not> bit w 31 \<and> bit w 28 \<and> \<not> bit w 27 \<and> \<not> bit w 26 \<and> \<not> bit w 25 \<and> \<not> bit w 24"
  "w AND 0x9F000000 = (0x90000000 :: u32) \<longleftrightarrow> bit w 31 \<and> bit w 28 \<and> \<not> bit w 27 \<and> \<not> bit w 26 \<and> \<not> bit w 25 \<and> \<not> bit w 24"
  "w AND 0xFF800000 = (0xD2800000 :: u32) \<longleftrightarrow> bit w 31 \<and> bit w 30 \<and> \<not> bit w 29 \<and> bit w 28 \<and> \<not> bit w 27 \<and> \<not> bit w 26 \<and> bit w 25 \<and> \<not> bit w 24 \<and> bit w 23"
  "w AND 0xFF800000 = (0xF2800000 :: u32) \<longleftrightarrow> bit w 31 \<and> bit w 30 \<and> bit w 29 \<and> bit w 28 \<and> \<not> bit w 27 \<and> \<not> bit w 26 \<and> bit w 25 \<and> \<not> bit w 24 \<and> bit w 23"
  "w AND 0xFFC00000 = (0x91000000 :: u32) \<longleftrightarrow> bit w 31 \<and> \<not> bit w 30 \<and> \<not> bit w 29 \<and> bit w 28 \<and> \<not> bit w 27 \<and> \<not> bit w 26 \<and> \<not> bit w 25 \<and> bit w 24 \<and> \<not> bit w 23 \<and> \<not> bit w 22"
  "w AND 0xFFC00000 = (0xF9400000 :: u32) \<longleftrightarrow> bit w 31 \<and> bit w 30 \<and> bit w 29 \<and> bit w 28 \<and> bit w 27 \<and> \<not> bit w 26 \<and> \<not> bit w 25 \<and> bit w 24 \<and> \<not> bit w 23 \<and> bit w 22"
  "w AND 0xFFFFFC1F = (0xD61F0000 :: u32) \<longleftrightarrow> bit w 31 \<and> bit w 30 \<and> \<not> bit w 29 \<and> bit w 28 \<and> \<not> bit w 27 \<and> bit w 26 \<and> bit w 25 \<and> \<not> bit w 24 \<and> \<not> bit w 23 \<and> \<not> bit w 22 \<and> \<not> bit w 21 \<and> bit w 20 \<and> bit w 19 \<and> bit w 18 \<and> bit w 17 \<and> bit w 16 \<and> \<not> bit w 15 \<and> \<not> bit w 14 \<and> \<not> bit w 13 \<and> \<not> bit w 12 \<and> \<not> bit w 11 \<and> \<not> bit w 10 \<and> \<not> bit w 4 \<and> \<not> bit w 3 \<and> \<not> bit w 2 \<and> \<not> bit w 1 \<and> \<not> bit w 0"
  "w AND 0xFFFFFC1F = (0xD63F0000 :: u32) \<longleftrightarrow> bit w 31 \<and> bit w 30 \<and> \<not> bit w 29 \<and> bit w 28 \<and> \<not> bit w 27 \<and> bit w 26 \<and> bit w 25 \<and> \<not> bit w 24 \<and> \<not> bit w 23 \<and> \<not> bit w 22 \<and> bit w 21 \<and> bit w 20 \<and> bit w 19 \<and> bit w 18 \<and> bit w 17 \<and> bit w 16 \<and> \<not> bit w 15 \<and> \<not> bit w 14 \<and> \<not> bit w 13 \<and> \<not> bit w 12 \<and> \<not> bit w 11 \<and> \<not> bit w 10 \<and> \<not> bit w 4 \<and> \<not> bit w 3 \<and> \<not> bit w 2 \<and> \<not> bit w 1 \<and> \<not> bit w 0"
  by (auto simp: bits32 bit_simps)

end
