(* ===== verification/Arm64_Relocate.thy ===== *)
theory Arm64_Relocate
  imports Arm64_Assembler Arm64_Machine
begin

unbundle bit_operations_syntax

text \<open>
  Dobby's relocation of AArch64 instructions (\<open>InstructionRelocationARM64.cc\<close>). The first
  instructions of a hooked function are copied to another address; those that use the program
  counter are replaced by sequences that load an absolute address into x17.

  Parameters: the memory \<open>m\<close> the original code is read from, and the allocator of
  executable memory (\<open>alloc\<close>, with \<open>None\<close> for a null pointer). The result has the two
  blocks of code, the map from original to relocated offsets and the patches that
  \<open>DobbyCodePatch\<close> writes.
\<close>

section \<open>The code\<close>

definition arm64_trunc_page :: "u64 \<Rightarrow> u64" where
  "arm64_trunc_page x = x AND NOT (0x1000 - 1)"

record relo_ctx =
  buffer_addr :: u64
  buffer_cursor :: nat       \<comment> \<open>relative to the start of the buffer\<close>
  buffer_size :: nat
  src_vmaddr :: u64
  dst_vmaddr :: u64
  origin :: MemBlock
  relocated_offset_map :: "nat \<rightharpoonup> nat"

definition relo_cur_src_vmaddr :: "relo_ctx \<Rightarrow> u64" where
  "relo_cur_src_vmaddr ctx = src_vmaddr ctx + word_of_nat (buffer_cursor ctx)"

definition inst_is_b_bl :: "u32 \<Rightarrow> bool" where
  "inst_is_b_bl instr \<longleftrightarrow> instr AND UnconditionalBranchFixedMask = UnconditionalBranchFixed"

definition inst_is_ldr_literal :: "u32 \<Rightarrow> bool" where
  "inst_is_ldr_literal instr \<longleftrightarrow> instr AND LoadRegLiteralFixedMask = LoadRegLiteralFixed"

definition inst_is_adr :: "u32 \<Rightarrow> bool" where
  "inst_is_adr instr \<longleftrightarrow> instr AND PCRelAddressingFixedMask = PCRelAddressingFixed \<and> instr AND PCRelAddressingMask = ADR"

definition inst_is_adrp :: "u32 \<Rightarrow> bool" where
  "inst_is_adrp instr \<longleftrightarrow> instr AND PCRelAddressingFixedMask = PCRelAddressingFixed \<and> instr AND PCRelAddressingMask = ADRP"

definition inst_is_b_cond :: "u32 \<Rightarrow> bool" where
  "inst_is_b_cond instr \<longleftrightarrow> instr AND ConditionalBranchFixedMask = ConditionalBranchFixed"

definition inst_is_compare_b :: "u32 \<Rightarrow> bool" where
  "inst_is_compare_b instr \<longleftrightarrow> instr AND CompareBranchFixedMask = CompareBranchFixed"

definition inst_is_test_b :: "u32 \<Rightarrow> bool" where
  "inst_is_test_b instr \<longleftrightarrow> instr AND TestBranchFixedMask = TestBranchFixed"

text \<open>The inverted branches over the absolute branch, in the blocks that build \<open>branch_instr\<close>.\<close>

definition inverted_b_cond :: "u32 \<Rightarrow> u32" where
  "inverted_b_cond inst =
     (let cond = ucast (bits (scast inst) 0 3) XOR 1;
          branch_instr = set_bits inst 0 3 cond;
          offset = 4 * 3;
          imm19 = drop_bit 2 offset
      in set_bits branch_instr 5 23 imm19)"

definition inverted_compare_b :: "u32 \<Rightarrow> u32" where
  "inverted_compare_b inst =
     (let op = ucast (bit_at (scast inst) 24) XOR 1;
          branch_instr = set_bit_at inst 24 op;
          offset = 4 * 3;
          imm19 = drop_bit 2 offset
      in set_bits branch_instr 5 23 imm19)"

definition inverted_test_b :: "u32 \<Rightarrow> u32" where
  "inverted_test_b inst =
     (let op = ucast (bit_at (scast inst) 24) XOR 1;
          branch_instr = set_bit_at inst 24 op;
          offset = 4 * 3;
          imm14 = drop_bit 2 offset
      in set_bits branch_instr 5 18 imm14)"

definition branch_over :: "u32 \<Rightarrow> u64 \<Rightarrow> TurboAssembler \<Rightarrow> TurboAssembler res" where
  \<comment> \<open>the inverted branch, then the branch to \<open>dst_vmaddr\<close> through a data label\<close>
  "branch_over branch_instr dst ta =
     (let (dst_label, ta) = AppendRelocLabel (withData dst) ta;
          ta = Emit branch_instr ta
      in and_then (Ldr TMP_REG_0 dst_label ta) (\<lambda>ta. Inr (br TMP_REG_0 ta)))"

text \<open>The body of the loop in \<open>relo_relocate\<close>: one instruction at address \<open>cur\<close>.\<close>

definition relo_inst :: "u32 \<Rightarrow> u64 \<Rightarrow> TurboAssembler \<Rightarrow> TurboAssembler res" where
  "relo_inst inst cur ta =
     (if inst_is_b_bl inst then
        let dst = cur + decode_imm26_offset inst;
            (dst_label, ta) = AppendRelocLabel (withData dst) ta
        in and_then (Ldr TMP_REG_0 dst_label ta) (\<lambda>ta.
           if inst AND UnconditionalBranchMask = BL_op then Inr (blr TMP_REG_0 ta) else Inr (br TMP_REG_0 ta))
      else if inst_is_ldr_literal inst then
        let dst = cur + decode_imm19_offset inst;
            rt = decode_rt inst;
            opc = bits (scast inst) 30 31;
            ta = Mov TMP_REG_0 dst ta
        in if opc = 0 then ldr (Wr rt) \<lparr>mo_base = TMP_REG_0, mo_offset = 0, mo_addrmode = Offset\<rparr> ta
           else if opc = 1 then ldr (Xr rt) \<lparr>mo_base = TMP_REG_0, mo_offset = 0, mo_addrmode = Offset\<rparr> ta
           else Inl Abort
      else if inst_is_adr inst then
        Inr (Mov (Xr (decode_rd inst)) (cur + decode_immhi_immlo_offset inst) ta)
      else if inst_is_adrp inst then
        Inr (Mov (Xr (decode_rd inst)) (arm64_trunc_page (cur + decode_immhi_immlo_zero12_offset inst)) ta)
      else if inst_is_b_cond inst then
        branch_over (inverted_b_cond inst) (cur + decode_imm19_offset inst) ta
      else if inst_is_compare_b inst then
        branch_over (inverted_compare_b inst) (cur + decode_imm19_offset inst) ta
      else if inst_is_test_b inst then
        branch_over (inverted_test_b inst) (cur + decode_imm14_offset inst) ta
      else Inr (Emit inst ta))"

function relo_loop :: "(u64 \<Rightarrow> u8) \<Rightarrow> relo_ctx \<Rightarrow> TurboAssembler \<Rightarrow> (relo_ctx \<times> TurboAssembler) res" where
  "relo_loop m ctx ta =
     (if buffer_cursor ctx < buffer_size ctx then
        let orig_off = u32_of (buffer_cursor ctx);
            relocated_off = u32_of (GetBufferSize ta);
            ctx = ctx\<lparr>relocated_offset_map := (relocated_offset_map ctx)(orig_off \<mapsto> relocated_off)\<rparr>;
            inst = inst_at m (buffer_addr ctx + word_of_nat (buffer_cursor ctx))
        in case relo_inst inst (relo_cur_src_vmaddr ctx) ta of
             Inl f \<Rightarrow> Inl f
           | Inr ta \<Rightarrow> relo_loop m (ctx\<lparr>buffer_cursor := buffer_cursor ctx + 4\<rparr>) ta
      else Inr (ctx, ta))"
  by pat_completeness auto
termination by (relation "measure (\<lambda>(m, ctx, ta). buffer_size ctx - buffer_cursor ctx)") auto

declare relo_loop.simps [simp del]

definition FinalizeFromTurboAssembler :: "(nat \<Rightarrow> u64 option) \<Rightarrow> TurboAssembler \<Rightarrow> (MemBlock \<times> patch list) option" where
  "FinalizeFromTurboAssembler alloc ta =
     (let finish = (\<lambda>a. Some (new_MemBlock a (GetBufferSize ta), [(a, code_buffer ta)])) in
      if realized_addr ta = 0 then (case alloc (GetBufferSize ta) of None \<Rightarrow> None | Some a \<Rightarrow> finish a)
      else finish (realized_addr ta))"

definition relo_relocate ::
  "(u64 \<Rightarrow> u8) \<Rightarrow> (nat \<Rightarrow> u64 option) \<Rightarrow> relo_ctx \<Rightarrow> bool \<Rightarrow> (relo_ctx \<times> (MemBlock \<times> patch list) option) res" where
  "relo_relocate m alloc ctx branch =
     and_then (relo_loop m ctx (turbo_assembler 0)) (\<lambda>(ctx, ta).
     let new_origin_len = buffer_cursor ctx;
         ctx = ctx\<lparr>origin := block_reset (mb_addr (origin ctx)) new_origin_len (origin ctx)\<rparr>
     in and_then (if branch then LiteralLdrBranch (mb_addr (origin ctx) + word_of_nat (mb_size (origin ctx))) ta else Inr ta) (\<lambda>ta.
        and_then (RelocBind ta) (\<lambda>ta. Inr (ctx, FinalizeFromTurboAssembler alloc ta))))"

record relo_result =
  rr_origin :: MemBlock
  rr_relocated :: MemBlock
  rr_offset_map :: "nat \<rightharpoonup> nat"
  rr_patches :: "patch list"

definition GenRelocateCode ::
  "(u64 \<Rightarrow> u8) \<Rightarrow> (nat \<Rightarrow> u64 option) \<Rightarrow> u64 \<Rightarrow> MemBlock \<Rightarrow> MemBlock \<Rightarrow> bool \<Rightarrow> relo_result res" where
  \<comment> \<open>a null pointer from the allocator is dereferenced\<close>
  "GenRelocateCode m alloc buffer orig relocated branch =
     (let ctx = \<lparr>buffer_addr = buffer, buffer_cursor = 0, buffer_size = mb_size orig, src_vmaddr = mb_addr orig,
                 dst_vmaddr = mb_addr relocated, origin = orig, relocated_offset_map = Map.empty\<rparr>
      in and_then (relo_relocate m alloc ctx branch) (\<lambda>(ctx, code).
         case code of
           None \<Rightarrow> Inl Out_of_bounds
         | Some (blk, ps) \<Rightarrow>
             Inr \<lparr>rr_origin = origin ctx, rr_relocated = block_reset (mb_addr blk) (mb_size blk) relocated,
                  rr_offset_map = relocated_offset_map ctx, rr_patches = ps\<rparr>))"

definition GenRelocateCodeAndBranch ::
  "(u64 \<Rightarrow> u8) \<Rightarrow> (nat \<Rightarrow> u64 option) \<Rightarrow> u64 \<Rightarrow> MemBlock \<Rightarrow> MemBlock \<Rightarrow> relo_result res" where
  "GenRelocateCodeAndBranch m alloc buffer orig relocated = GenRelocateCode m alloc buffer orig relocated True"

end
