(* ===== verification/Arm64_Exec.thy ===== *)
theory Arm64_Exec
  imports Arm64_Relocate
begin

unbundle bit_operations_syntax

text \<open>
  The instruction words that the assembler emits, and what the processor does with them: the
  decoding of offsets agrees with the manual, each emitted word executes as intended, and the
  inverted branches branch exactly when the original does not.
\<close>

section \<open>Fields\<close>

lemma bit_at_alt: "k < 64 \<Longrightarrow> bit_at x k = of_bool (bit x k)"
  by (rule bit_word_eqI) (auto simp: bit_at_def bit_simps min_def)

lemma bits_alt: "st \<le> fn \<Longrightarrow> bits obj st fn = take_bit (fn - st + 1) (signed_drop_bit st obj)"
  by (simp add: bits_def submask_def take_bit_eq_mask mask_eq_exp_minus_1 push_bit_eq_mult)

lemma bits_field:
  assumes "fn < 32" and "st \<le> fn"
  shows "bits (ucast w) st fn = ucast (field w st (fn - st + 1))" "bits (scast w) st fn = ucast (field w st (fn - st + 1))"
  by (rule bit_word_eqI; use assms in \<open>auto simp: bits_alt field_def bit_simps\<close>)+

lemma SignExtend_take:
  "M < 64 \<Longrightarrow> SignExtend (take_bit (Suc M) x) (Suc M) N = signed_take_bit M x"
proof (rule bit_word_eqI)
  fix n assume M: "M < 64" and n: "n < LENGTH(64)"
  have "bit (push_bit (Suc M) (drop_bit (Suc M) (0 - of_bool (bit x M) :: u64))) n \<longleftrightarrow> Suc M \<le> n \<and> bit x M"
    unfolding bit_push_bit_iff bit_drop_bit_eq using n by (cases "bit x M") auto
  moreover have "bit_at (take_bit (Suc M) x) (Suc M - 1) = of_bool (bit x M)"
    using M by (simp add: bit_at_alt bit_take_bit_iff)
  ultimately show "bit (SignExtend (take_bit (Suc M) x) (Suc M) N) n = bit (signed_take_bit M x) n"
    using M n unfolding SignExtend_def Let_def bit_or_iff
    by (cases "n = M") (auto simp: bit_take_bit_iff bit_signed_take_bit_iff min_def less_Suc_eq not_less)
qed

lemma words_off_take:
  assumes "0 < n" and "lo + n \<le> 32"
  shows "SignExtend (push_bit 2 (ucast (field w lo n))) (2 + n) N = words_off w lo n"
proof -
  have "push_bit 2 (ucast (field w lo n)) = (take_bit (Suc (n + 1)) (push_bit 2 (drop_bit lo (ucast w))) :: u64)"
    using assms by (intro bit_word_eqI) (auto simp: field_def bit_simps)
  moreover have "signed_take_bit (n + 1) (push_bit 2 (drop_bit lo (ucast w))) = words_off w lo n"
    unfolding words_off_def using assms by (intro bit_word_eqI) (auto simp: bit_simps min_def)
  ultimately show ?thesis
    using SignExtend_take [of "n + 1" "push_bit 2 (drop_bit lo (ucast w))" N] assms by simp
qed

lemma decode_offsets:
  "decode_imm14_offset w = words_off w 5 14" "decode_imm19_offset w = words_off w 5 19" "decode_imm26_offset w = words_off w 0 26"
  using words_off_take [of 14 5 w 64] words_off_take [of 19 5 w 64] words_off_take [of 26 0 w 64]
  by (simp_all add: decode_imm14_offset_def decode_imm19_offset_def decode_imm26_offset_def bits_field)

lemma decode_adr: "decode_immhi_immlo_offset w = adr_imm w"
proof -
  have "immlo w + push_bit 2 (immhi w) = push_bit 2 (field w 5 19) OR field w 29 2"
    unfolding immlo_def immhi_def field_def [symmetric]
    by (subst add.commute, rule disjunctive_add_eq_or) (rule bit_word_eqI, auto simp: field_def bit_simps)
  then have "ucast (immlo w + push_bit 2 (immhi w)) = (take_bit (Suc 20) (push_bit 2 (ucast (field w 5 19)) OR ucast (field w 29 2)) :: u64)"
    by (intro bit_word_eqI) (auto simp: field_def bit_simps)
  then show ?thesis
    using SignExtend_take [of 20 "push_bit 2 (ucast (field w 5 19)) OR ucast (field w 29 2)" 64]
    by (simp add: decode_immhi_immlo_offset_def adr_imm_def)
qed

lemma decode_reg: "unat (decode_rt w) = rfield w 0" "decode_rd w = decode_rt w" "decode_rt w < 32"
proof -
  have t: "decode_rt w = field w 0 5"
    by (rule bit_word_eqI) (auto simp: decode_rt_def bits_field field_def bit_simps)
  then show "unat (decode_rt w) = rfield w 0" by (simp add: rfield_def)
  show "decode_rd w = decode_rt w" by (simp add: decode_rd_def decode_rt_def)
  show "decode_rt w < 32"
    unfolding t field_def word_less_nat_alt unsigned_take_bit_eq by (simp add: take_bit_nat_def)
qed

section \<open>Round trips of the field coders\<close>

lemma submask_mask: "submask x = mask (x + 1)"
  by (simp add: submask_def mask_eq_exp_minus_1 push_bit_eq_mult)

lemma bit_set_bits:
  assumes "lo \<le> fn" and "fn < 32" and "n < 32"
  shows "bit (set_bits w lo fn v) n \<longleftrightarrow> bit w n \<and> \<not> (lo \<le> n \<and> n \<le> fn) \<or> lo \<le> n \<and> bit v (n - lo)"
  using assms unfolding set_bits_def submask_mask by (auto simp: bit_simps)

lemma bit_set_bit_at:
  assumes "n < 32" and "k < 32"
  shows "bit (set_bit_at w k v) n \<longleftrightarrow> bit w n \<and> n \<noteq> k \<or> k \<le> n \<and> bit v (n - k)"
  using assms unfolding set_bit_at_def by (auto simp: bit_simps simp del: push_bit_of_1)

text \<open>The offset that comes back from an instruction: the encoder drops the low bits and what
  does not fit into the field.\<close>

lemma kept_bits:
  assumes "m + j < 63"
  shows "push_bit j (signed_take_bit m (signed_drop_bit j offset)) = (offset :: u64) \<longleftrightarrow>
    signed_take_bit (m + j) offset = offset \<and> take_bit j offset = 0"
    (is "?l = offset \<longleftrightarrow> ?m = offset \<and> ?r = 0")
proof -
  have l: "bit ?l k \<longleftrightarrow> j \<le> k \<and> bit ?m k" if "k < 64" for k
    using assms that by (auto simp: bit_simps min_def add.commute)
  show ?thesis
  proof (intro iffI conjI; (elim conjE)?)
    assume e: "?l = offset"
    then have o: "bit offset k \<longleftrightarrow> j \<le> k \<and> bit ?m k" if "k < 64" for k using l [OF that] by simp
    show "?r = 0" by (rule bit_word_eqI) (use o in \<open>auto simp: bit_take_bit_iff\<close>)
    show "?m = offset"
    proof (rule bit_word_eqI)
      fix k assume "k < LENGTH(64)"
      then show "bit ?m k = bit offset k" using o [of k] assms
        by (cases "j \<le> k") (auto simp: bit_signed_take_bit_iff min_def)
    qed
  next
    assume e: "?m = offset" and r: "?r = 0"
    have "\<not> bit offset k" if "k < j" for k
    proof -
      have "\<not> bit ?r k" unfolding r by simp
      then show ?thesis using that by (simp add: bit_take_bit_iff)
    qed
    then show "?l = offset" using l e by (intro bit_word_eqI) (auto simp: not_le [symmetric])
  qed
qed

lemma offset_fits:
  assumes "m + j < 63"
  shows "push_bit j (signed_take_bit m (signed_drop_bit j offset)) = (offset :: u64) \<longleftrightarrow>
    2 ^ j dvd sint offset \<and> - (2 ^ (m + j)) \<le> sint offset \<and> sint offset < 2 ^ (m + j)"
proof -
  have "sint (signed_take_bit (m + j) offset) = signed_take_bit (m + j) (sint offset)"
    using assms by (intro bit_eqI) (auto simp: bit_simps min_def)
  then have "signed_take_bit (m + j) offset = offset \<longleftrightarrow> - (2 ^ (m + j)) \<le> sint offset \<and> sint offset < 2 ^ (m + j)"
    unfolding signed_take_bit_int_eq_self_iff [symmetric] by (metis signed_word_eqI)
  moreover have "sint (take_bit j offset) = sint offset mod 2 ^ j"
    using assms by (simp add: signed_take_bit_eq take_bit_eq_mod [of j "sint offset"])
  then have "take_bit j offset = 0 \<longleftrightarrow> 2 ^ j dvd sint offset"
    by (metis dvd_eq_mod_eq_0 signed_word_eqI signed_0)
  ultimately show ?thesis unfolding kept_bits [OF assms] by auto
qed

lemma words_off_encoded:
  assumes "0 < n" and "lo + n \<le> 32" and "fn = lo + n - 1"
  shows "words_off (set_bits w lo fn (ucast (bits (signed_drop_bit 2 offset) 0 (n - 1)))) lo n =
    push_bit 2 (signed_take_bit (n - 1) (signed_drop_bit 2 offset))"
  unfolding words_off_def
  by (intro arg_cong [of _ _ "push_bit 2"] bit_word_eqI) (use assms in \<open>auto simp: bits_alt bit_simps bit_set_bits min_def\<close>)

lemma bit_set_field:
  assumes "n < 32" and "lo + k \<le> 32"
  shows "bit (set_field w lo k v) n \<longleftrightarrow> (if lo \<le> n \<and> n < lo + k then bit v (n - lo) else bit w n)"
  using assms unfolding set_field_def by (auto simp: bit_or_iff bit_and_iff bit_not_iff bit_push_bit_iff bit_mask_iff bit_take_bit_iff)

lemma field_set_field:
  "lo + k \<le> 32 \<Longrightarrow> field (set_field w lo k v) lo k = take_bit k v"
  "lo + k \<le> 32 \<Longrightarrow> hi + j \<le> 32 \<Longrightarrow> hi + j \<le> lo \<or> lo + k \<le> hi \<Longrightarrow> field (set_field w lo k v) hi j = field w hi j"
  by (rule bit_word_eqI; auto simp: field_def bit_set_field bit_take_bit_iff bit_drop_bit_eq)+

lemma adr_imm_encoded: "adr_imm (encode_immhi_immlo_offset w offset) = signed_take_bit 20 offset"
proof -
  have f: "field (encode_immhi_immlo_offset w offset) 5 19 = take_bit 19 (ucast (bits offset 2 (2 + 19)))"
    "field (encode_immhi_immlo_offset w offset) 29 2 = take_bit 2 (ucast (bits offset 0 2))"
    unfolding encode_immhi_immlo_offset_def by (simp_all add: field_set_field)
  have x: "push_bit 2 (ucast (field (encode_immhi_immlo_offset w offset) 5 19)) OR ucast (field (encode_immhi_immlo_offset w offset) 29 2) =
      take_bit 21 offset"
  proof (unfold f, rule bit_word_eqI)
    fix n assume "n < LENGTH(64)"
    moreover have "2 \<le> n \<Longrightarrow> Suc (Suc (n - 2)) = n" by simp
    ultimately show "bit (push_bit 2 (ucast (take_bit 19 (ucast (bits offset 2 (2 + 19)) :: u32))) OR
        ucast (take_bit 2 (ucast (bits offset 0 2)) :: u32) :: u64) n = bit (take_bit 21 offset) n"
      by (auto simp: bits_alt bit_simps not_less)
  qed
  show ?thesis unfolding adr_imm_def x by (simp add: signed_take_bit_take_bit)
qed

lemma adr_encode_decode: "encode_immhi_immlo_offset w (adr_imm w) = w"
  unfolding bits32 by (simp add: encode_immhi_immlo_offset_def bit_set_field bits_alt adr_imm_def field_def bit_simps)

text \<open>
  C31: The offset that an encoder of Dobby puts into a branch, a literal load, ADR or ADRP is
  the one its decoder reads back exactly when it is a multiple of the unit of the field (4, 1
  or 4096) within the signed range of the field. Encoding the decoded offset of an
  instruction gives the instruction back.
\<close>

theorem arm64_offset_round_trip:
  "(decode_imm14_offset (encode_imm14_offset w offset) = offset \<longleftrightarrow> 4 dvd sint offset \<and> - (2 ^ 15) \<le> sint offset \<and> sint offset < 2 ^ 15) \<and>
   (decode_imm19_offset (encode_imm19_offset w offset) = offset \<longleftrightarrow> 4 dvd sint offset \<and> - (2 ^ 20) \<le> sint offset \<and> sint offset < 2 ^ 20) \<and>
   (decode_imm26_offset (encode_imm26_offset w offset) = offset \<longleftrightarrow> 4 dvd sint offset \<and> - (2 ^ 27) \<le> sint offset \<and> sint offset < 2 ^ 27) \<and>
   (decode_immhi_immlo_offset (encode_immhi_immlo_offset w offset) = offset \<longleftrightarrow> - (2 ^ 20) \<le> sint offset \<and> sint offset < 2 ^ 20) \<and>
   (decode_immhi_immlo_zero12_offset (encode_immhi_immlo_zero12_offset w offset) = offset \<longleftrightarrow>
      4096 dvd sint offset \<and> - (2 ^ 32) \<le> sint offset \<and> sint offset < 2 ^ 32) \<and>
   encode_imm14_offset w (decode_imm14_offset w) = w \<and> encode_imm19_offset w (decode_imm19_offset w) = w \<and>
   encode_imm26_offset w (decode_imm26_offset w) = w \<and> encode_immhi_immlo_offset w (decode_immhi_immlo_offset w) = w"
proof (intro conjI)
  show "encode_imm14_offset w (decode_imm14_offset w) = w" "encode_imm19_offset w (decode_imm19_offset w) = w"
    "encode_imm26_offset w (decode_imm26_offset w) = w"
    unfolding decode_offsets encode_imm14_offset_def encode_imm19_offset_def encode_imm26_offset_def words_off_def
    by (rule bit_word_eqI; auto simp: bit_set_bits bits_alt bit_simps min_absorb1)+
qed (use offset_fits [of 13 2 offset] offset_fits [of 18 2 offset] offset_fits [of 25 2 offset] offset_fits [of 20 0 offset] offset_fits [of 20 12 offset]
  words_off_encoded [of 14 5 18 w offset] words_off_encoded [of 19 5 23 w offset] words_off_encoded [of 26 0 25 w offset]
  decode_immhi_immlo_zero12_offset_def [of "encode_immhi_immlo_zero12_offset w offset"] adr_imm_encoded [of w] adr_encode_decode [of w] in
  \<open>simp_all add: decode_offsets decode_adr encode_imm14_offset_def encode_imm19_offset_def encode_imm26_offset_def encode_immhi_immlo_zero12_offset_def\<close>)

section \<open>The words that are emitted\<close>

definition ldr17 :: u32 where "ldr17 = 0x58000011"   \<comment> \<open>\<open>ldr x17, #0\<close>\<close>
definition br17 :: u32 where "br17 = 0xD61F0220"
definition blr17 :: u32 where "blr17 = 0xD63F0220"

definition ldr_x17 :: "u32 \<Rightarrow> u32" where
  \<comment> \<open>\<open>ldr xt, [x17]\<close>\<close>
  "ldr_x17 rt = 0xF9400220 OR rt"

definition mov_word :: "u32 \<Rightarrow> nat \<Rightarrow> u16 \<Rightarrow> u32 \<Rightarrow> u32" where
  "mov_word op hw h rd = op OR push_bit 21 (word_of_nat hw) OR push_bit 5 (ucast h) OR rd"

definition half :: "nat \<Rightarrow> u64 \<Rightarrow> u16" where
  "half k v = ucast (drop_bit (16 * k) v)"

definition mov_words :: "u32 \<Rightarrow> u64 \<Rightarrow> u32 list" where
  "mov_words rd v =
     [mov_word 0xD2800000 0 (half 0 v) rd, mov_word 0xF2800000 1 (half 1 v) rd,
      mov_word 0xF2800000 2 (half 2 v) rd, mov_word 0xF2800000 3 (half 3 v) rd]"

definition code_bytes :: "u32 list \<Rightarrow> u8 list" where
  "code_bytes ws = concat (map (le_bytes 4) ws)"

lemma code_bytes_append [simp]: "code_bytes (ws @ vs) = code_bytes ws @ code_bytes vs"
  by (simp add: code_bytes_def)

lemma length_code_bytes [simp]: "length (code_bytes ws) = 4 * length ws"
  by (induction ws) (simp_all add: code_bytes_def)

text \<open>An assembler that has emitted the words \<open>ws\<close> and whose data labels are referenced once
  each: label \<open>k\<close> by the instruction number \<open>fst (rs ! k)\<close>, with the data \<open>snd (rs ! k)\<close>.\<close>

definition asm :: "u32 list \<Rightarrow> (nat \<times> u64) list \<Rightarrow> TurboAssembler" where
  "asm ws rs =
     \<lparr>code_buffer = code_bytes ws,
      data_labels = map (\<lambda>(i, t). \<lparr>label_pos = 0, ref_label_insns = [(kLabelImm19, 4 * i)], label_data = le_bytes 8 t\<rparr>) rs,
      realized_addr = 0\<rparr>"

named_theorems asm_simps

lemma asm_start [asm_simps]: "turbo_assembler 0 = asm [] []"
  by (simp add: turbo_assembler_def asm_def code_bytes_def)

lemma asm_size [asm_simps]: "GetBufferSize (asm ws rs) = 4 * length ws"
  by (simp add: GetBufferSize_def asm_def)

lemma asm_Emit [asm_simps]: "Emit w (asm ws rs) = asm (ws @ [w]) rs"
  by (simp add: Emit_def asm_def Emit32_def code_bytes_def)

lemma asm_br [asm_simps]: "br TMP_REG_0 (asm ws rs) = asm (ws @ [br17]) rs" "blr TMP_REG_0 (asm ws rs) = asm (ws @ [blr17]) rs"
  by (simp_all add: br_def blr_def asm_Emit br17_def blr17_def BR_op_def BLR_op_def Rn_def TMP_REG_0_def Xr_def)

text \<open>A new label, possibly one instruction, and the load through the label.\<close>

lemma ldr17_word: "ldr_literal TMP_REG_0 0 ta = Inr (Emit ldr17 ta)"
  by (simp add: ldr_literal_def EmitLoadRegLiteral_def TMP_REG_0_def Xr_def Rt_def ldr17_def LoadRegLiteralSub_def LoadRegLiteralFixed_def LeftShift_def)

lemma asm_Ldr_label:
  "(case AppendRelocLabel (withData t) (asm ws rs) of (l, ta) \<Rightarrow> Ldr TMP_REG_0 l ta) = Inr (asm (ws @ [ldr17]) (rs @ [(length ws, t)]))"
  "(case AppendRelocLabel (withData t) (asm ws rs) of (l, ta) \<Rightarrow> Ldr TMP_REG_0 l (Emit w ta)) =
     Inr (asm (ws @ [w, ldr17]) (rs @ [(Suc (length ws), t)]))"
  by (simp_all add: AppendRelocLabel_def Ldr_def withData_def link_to_def ldr17_word asm_def GetBufferSize_def Emit_def Emit32_def
      code_bytes_def list_update_append kLabelImm19_def Let_def nth_append length_code_bytes [unfolded code_bytes_def])

lemma asm_Mov [asm_simps]: "Mov (Xr r) v (asm ws rs) = asm (ws @ mov_words r v) rs"
proof -
  have ff: "(0xffff :: u32) = mask 16" by (simp add: mask_eq_exp_minus_1)
  have imm_mask: "(push_bit 16 1 - 1 :: u64) = mask 16" by (simp add: mask_eq_exp_minus_1)
  have h: "Low16Bits (Low32Bits v) = half 0 v" "High16Bits (Low32Bits v) = half 1 v" "Low16Bits (High32Bits v) = half 2 v"
    "High16Bits (High32Bits v) = half 3 v"
    by (rule bit_word_eqI; auto simp: Low16Bits_def ff High16Bits_def Low32Bits_def High32Bits_def half_def bit_simps)+
  have m: "ucast (LeftShift (ucast (h :: u16)) 16 5 :: u64) = (push_bit 5 (ucast h) :: u32)" for h
    by (rule bit_word_eqI) (auto simp: LeftShift_def imm_mask bit_simps simp del: push_bit_of_1 dest: bit_imp_le_length)
  have ls: "LeftShift 1 (Suc 0) 31 = (0x80000000 :: u32)" "LeftShift 0 2 21 = (0 :: u32)" "LeftShift 1 2 21 = (0x200000 :: u32)"
    "LeftShift 2 2 21 = (0x400000 :: u32)" "LeftShift 3 2 21 = (0x600000 :: u32)"
    by (simp_all add: LeftShift_def)
  show ?thesis
    by (simp add: Mov_def h movz_def movk_def MoveWide_def m asm_Emit mov_words_def mov_word_def MoveWideImmediateFixed_def MOVZ_def MOVK_def
        op_sf_def Is64Bits_def Xr_def Rd_def ls or.assoc [symmetric])
qed

lemma ucast_32_64_32 [simp]: "(ucast (ucast (w :: u32) :: u64) :: u32) = w"
  by (rule bit_word_eqI) (auto simp: bit_simps)

lemma asm_ldr [asm_simps]:
  "ldr (Wr rt) \<lparr>mo_base = TMP_REG_0, mo_offset = 0, mo_addrmode = Offset\<rparr> (asm ws rs) = Inr (asm (ws @ [ldr_x17 rt]) rs)"
  "ldr (Xr rt) \<lparr>mo_base = TMP_REG_0, mo_offset = 0, mo_addrmode = Offset\<rparr> (asm ws rs) = Inr (asm (ws @ [ldr_x17 rt]) rs)"
  by (simp_all add: ldr_def LoadStore_def LDR_x_def LoadStoreOpSub_def LeftShift_def op_scale_def LoadStoreUnsignedOffsetFixed_def TMP_REG_0_def
      Xr_def Wr_def Rn_def Rt_def asm_Emit ldr_x17_def unsigned_or_eq or.assoc [symmetric])

section \<open>What is emitted for one instruction\<close>

definition unimplemented :: "u32 \<Rightarrow> bool" where
  "unimplemented w \<longleftrightarrow> inst_is_ldr_literal w \<and> \<not> inst_is_b_bl w \<and> bit w 31"

definition emitted :: "u32 \<Rightarrow> u64 \<Rightarrow> u32 list" where
  "emitted w a =
     (if inst_is_b_bl w then [ldr17, if bit w 31 then blr17 else br17]
      else if inst_is_ldr_literal w then mov_words 17 (a + words_off w 5 19) @ [ldr_x17 (decode_rt w)]
      else if inst_is_adr w then mov_words (decode_rt w) (a + adr_imm w)
      else if inst_is_adrp w then mov_words (decode_rt w) (arm64_trunc_page (a + push_bit 12 (adr_imm w)))
      else if inst_is_b_cond w then [inverted_b_cond w, ldr17, br17]
      else if inst_is_compare_b w then [inverted_compare_b w, ldr17, br17]
      else if inst_is_test_b w then [inverted_test_b w, ldr17, br17]
      else [w])"

definition refs :: "u32 \<Rightarrow> u64 \<Rightarrow> (nat \<times> u64) list" where
  \<comment> \<open>the loads through data labels: position in the sequence, and data\<close>
  "refs w a =
     (if inst_is_b_bl w then [(0, a + words_off w 0 26)]
      else if inst_is_ldr_literal w \<or> inst_is_adr w \<or> inst_is_adrp w then []
      else if inst_is_b_cond w \<or> inst_is_compare_b w then [(1, a + words_off w 5 19)]
      else if inst_is_test_b w then [(1, a + words_off w 5 14)]
      else [])"

definition shift_refs :: "nat \<Rightarrow> (nat \<times> u64) list \<Rightarrow> (nat \<times> u64) list" where
  "shift_refs n rs = map (\<lambda>(i, t). (n + i, t)) rs"

lemma asm_branch_over:
  "branch_over w t (asm ws rs) = Inr (asm (ws @ [w, ldr17, br17]) (rs @ [(Suc (length ws), t)]))"
proof -
  have "branch_over w t ta = and_then (case AppendRelocLabel (withData t) ta of (l, ta) \<Rightarrow> Ldr TMP_REG_0 l (Emit w ta)) (\<lambda>ta. Inr (br TMP_REG_0 ta))" for ta
    by (simp add: branch_over_def Let_def split: prod.split)
  then show ?thesis by (simp add: asm_Ldr_label asm_simps)
qed

lemma b_bl_link: "inst_is_b_bl w \<Longrightarrow> w AND UnconditionalBranchMask = BL_op \<longleftrightarrow> bit w 31"
  unfolding inst_is_b_bl_def UnconditionalBranchFixedMask_def UnconditionalBranchFixed_def UnconditionalBranchMask_def BL_op_def
  by (auto simp: bits32 bit_simps)

lemma literal_opc:
  "bits (scast (w :: u32)) 30 31 = 0 \<longleftrightarrow> \<not> bit w 31 \<and> \<not> bit w 30" "bits (scast (w :: u32)) 30 31 = 1 \<longleftrightarrow> \<not> bit w 31 \<and> bit w 30"
  unfolding bits_field [of 31 30 w, simplified] by (auto simp: field_def bits64 bit_simps)

lemma relo_inst_words:
  "relo_inst w a (asm ws rs) =
     (if unimplemented w then Inl Abort else Inr (asm (ws @ emitted w a) (rs @ shift_refs (length ws) (refs w a))))"
proof (cases "inst_is_b_bl w")
  case True
  have "relo_inst w a ta = and_then (case AppendRelocLabel (withData (a + words_off w 0 26)) ta of (l, ta) \<Rightarrow> Ldr TMP_REG_0 l ta)
      (\<lambda>ta. if bit w 31 then Inr (blr TMP_REG_0 ta) else Inr (br TMP_REG_0 ta))" for ta
    using True by (simp add: relo_inst_def b_bl_link decode_offsets Let_def split: prod.split)
  with True show ?thesis
    by (simp add: asm_Ldr_label unimplemented_def emitted_def refs_def shift_refs_def asm_simps)
next
  case False
  show ?thesis
  proof (cases "inst_is_ldr_literal w")
    case True
    with False show ?thesis
      by (simp add: relo_inst_def unimplemented_def emitted_def refs_def shift_refs_def decode_offsets literal_opc asm_Mov
          TMP_REG_0_def asm_ldr [unfolded TMP_REG_0_def] Let_def)
  next
    case l: False
    with False show ?thesis
      by (simp add: relo_inst_def unimplemented_def emitted_def refs_def shift_refs_def decode_offsets decode_adr decode_reg(2)
          decode_immhi_immlo_zero12_offset_def asm_branch_over asm_simps)
  qed
qed

section \<open>The whole loop\<close>

primrec code_of :: "u64 \<Rightarrow> u32 list \<Rightarrow> u32 list" where
  "code_of a [] = []"
| "code_of a (w # ws) = emitted w a @ code_of (a + 4) ws"

primrec refs_of :: "nat \<Rightarrow> u64 \<Rightarrow> u32 list \<Rightarrow> (nat \<times> u64) list" where
  "refs_of n a [] = []"
| "refs_of n a (w # ws) = shift_refs n (refs w a) @ refs_of (n + length (emitted w a)) (a + 4) ws"

primrec offsets_of :: "nat \<Rightarrow> nat \<Rightarrow> u64 \<Rightarrow> u32 list \<Rightarrow> (nat \<rightharpoonup> nat) \<Rightarrow> nat \<rightharpoonup> nat" where
  "offsets_of c n a [] M = M"
| "offsets_of c n a (w # ws) M = offsets_of (c + 4) (n + length (emitted w a)) (a + 4) ws (M(c \<mapsto> 4 * n))"

lemma emitted_length: "1 \<le> length (emitted w a)" "length (emitted w a) \<le> 5"
  by (simp_all add: emitted_def mov_words_def)

lemma code_of_length: "length (code_of a ws) \<le> 5 * length ws"
proof (induction ws arbitrary: a)
  case (Cons w ws)
  then show ?case using emitted_length(2) [of w a] by (simp add: add_mono)
qed simp

lemma code_of_append: "code_of a (ws @ vs) = code_of a ws @ code_of (a + word_of_nat (4 * length ws)) vs"
  by (induction ws arbitrary: a) (simp_all add: algebra_simps)

lemma offsets_of_before: "x < c \<Longrightarrow> offsets_of c n a ws M x = M x"
  by (induction ws arbitrary: c n a M) simp_all

lemma offsets_of_nth:
  "j < length ws \<Longrightarrow> offsets_of c n a ws M (c + 4 * j) = Some (4 * (n + length (code_of a (take j ws))))"
proof (induction ws arbitrary: c n a M j)
  case (Cons w ws)
  show ?case
  proof (cases j)
    case 0
    then show ?thesis by (simp add: offsets_of_before)
  next
    case (Suc i)
    then show ?thesis using Cons.IH [of i "c + 4"] Cons.prems by (simp add: add.assoc)
  qed
qed simp

definition code_insts :: "(u64 \<Rightarrow> u8) \<Rightarrow> u64 \<Rightarrow> nat \<Rightarrow> u32 list" where
  "code_insts m a n = map (\<lambda>i. inst_at m (a + word_of_nat (4 * i))) [0..<n]"

lemma length_code_insts [simp]: "length (code_insts m a n) = n"
  by (simp add: code_insts_def)

lemma code_insts_Suc: "code_insts m a (Suc n) = inst_at m a # code_insts m (a + 4) n"
  unfolding code_insts_def upt_conv_Cons [OF zero_less_Suc] map_Suc_upt [symmetric]
  by (simp add: comp_def algebra_simps del: upt_Suc)

lemma relo_loop_words:
  assumes "n = (buffer_size ctx - buffer_cursor ctx + 3) div 4" and "buffer_cursor ctx + 4 * n < 2 ^ 16"
    and "length ws + 5 * n < 2 ^ 20"
    and "iss = code_insts m (buffer_addr ctx + word_of_nat (buffer_cursor ctx)) n" and "a = relo_cur_src_vmaddr ctx"
  shows "relo_loop m ctx (asm ws rs) =
    (if \<exists>w \<in> set iss. unimplemented w then Inl Abort
     else Inr (ctx\<lparr>buffer_cursor := buffer_cursor ctx + 4 * n,
                   relocated_offset_map := offsets_of (buffer_cursor ctx) (length ws) a iss (relocated_offset_map ctx)\<rparr>,
               asm (ws @ code_of a iss) (rs @ refs_of (length ws) a iss)))"
  using assms
proof (induction n arbitrary: ctx ws rs iss a)
  case 0
  then have "\<not> buffer_cursor ctx < buffer_size ctx" by simp
  with 0 show ?case by (subst relo_loop.simps) (simp add: code_insts_def)
next
  case (Suc n)
  let ?c = "buffer_cursor ctx"
  have lt: "?c < buffer_size ctx" using Suc.prems(1) by (cases "?c < buffer_size ctx") auto
  let ?w = "inst_at m (buffer_addr ctx + word_of_nat ?c)" and ?ctx = "ctx\<lparr>relocated_offset_map := (relocated_offset_map ctx)(?c \<mapsto> 4 * length ws)\<rparr>"
  let ?is = "code_insts m (buffer_addr ctx + word_of_nat ?c + 4) n"
  have iss: "iss = ?w # ?is" using Suc.prems(4) by (simp add: code_insts_Suc)
  have mods: "u32_of ?c = ?c" "u32_of (GetBufferSize (asm ws rs)) = 4 * length ws"
    using Suc.prems(2,3) by (simp_all add: asm_size)
  have step: "relo_loop m ctx (asm ws rs) =
      (if unimplemented ?w then Inl Abort
       else relo_loop m (?ctx\<lparr>buffer_cursor := ?c + 4\<rparr>) (asm (ws @ emitted ?w a) (rs @ shift_refs (length ws) (refs ?w a))))"
    using lt Suc.prems(5) unfolding relo_loop.simps [of m ctx] Let_def mods
    by (simp add: relo_inst_words relo_cur_src_vmaddr_def)
  have ih: "relo_loop m (?ctx\<lparr>buffer_cursor := ?c + 4\<rparr>) (asm (ws @ emitted ?w a) (rs @ shift_refs (length ws) (refs ?w a))) =
    (if \<exists>w \<in> set ?is. unimplemented w then Inl Abort
     else Inr (?ctx\<lparr>buffer_cursor := ?c + 4 + 4 * n,
                   relocated_offset_map := offsets_of (?c + 4) (length (ws @ emitted ?w a)) (a + 4) ?is ((relocated_offset_map ctx)(?c \<mapsto> 4 * length ws))\<rparr>,
               asm ((ws @ emitted ?w a) @ code_of (a + 4) ?is) ((rs @ shift_refs (length ws) (refs ?w a)) @ refs_of (length (ws @ emitted ?w a)) (a + 4) ?is)))"
    by (subst Suc.IH [where iss = ?is and a = "a + 4"])
      (use Suc.prems lt emitted_length [of ?w a] in \<open>auto simp: relo_cur_src_vmaddr_def algebra_simps\<close>)
  show ?case unfolding step ih iss by auto
qed

section \<open>Binding the labels\<close>

lemma code_bytes_nth:
  assumes "i < length ws"
  shows "take 4 (drop (4 * i) (code_bytes ws)) = le_bytes 4 (ws ! i)"
proof -
  have "ws = take i ws @ ws ! i # drop (Suc i) ws" using assms by (rule id_take_nth_drop)
  then have "code_bytes ws = code_bytes (take i ws) @ le_bytes 4 (ws ! i) @ code_bytes (drop (Suc i) ws)"
    by (metis code_bytes_append code_bytes_def concat.simps(2) list.simps(9))
  then show ?thesis using assms by simp
qed

lemma LoadInst_words: "i < length ws \<Longrightarrow> LoadInst (4 * i) (code_bytes ws) = Inr (ws ! i)"
  by (simp add: LoadInst_def code_bytes_nth le_word_bytes)

lemma RewriteInst_words:
  assumes "i < length ws"
  shows "RewriteInst (4 * i) w (code_bytes ws) = Inr (code_bytes (ws[i := w]))"
proof -
  have "code_bytes (ws[i := w]) = code_bytes (take i ws) @ le_bytes 4 w @ code_bytes (drop (Suc i) ws)"
    unfolding upd_conv_take_nth_drop [OF assms] by (simp add: code_bytes_def)
  moreover have "code_bytes ws = code_bytes (take i ws) @ le_bytes 4 (ws ! i) @ code_bytes (drop (Suc i) ws)"
    using id_take_nth_drop [OF assms] by (metis code_bytes_append code_bytes_def concat.simps(2) list.simps(9))
  ultimately show ?thesis using assms by (simp add: RewriteInst_def splice_def)
qed

definition data_words :: "u64 \<Rightarrow> u32 list" where
  "data_words t = [ucast t, ucast (drop_bit 32 t)]"

lemma le_bytes_data: "le_bytes 8 t = code_bytes (data_words t)"
proof -
  have "le_bytes 8 t = le_bytes 4 t @ le_bytes 4 (drop_bit 32 t)"
    by (rule nth_equalityI) (auto simp: le_bytes_def nth_append diff_mult_distrib2)
  moreover have "le_bytes 4 x = le_bytes 4 (ucast x :: u32)" for x :: u64
    by (rule nth_equalityI) (auto simp: le_bytes_def bit_simps intro!: bit_word_eqI)
  ultimately have "le_bytes 8 t = le_bytes 4 (ucast t :: u32) @ le_bytes 4 (ucast (drop_bit 32 t) :: u32)" by simp
  then show ?thesis by (simp add: data_words_def code_bytes_def)
qed

primrec bind_words :: "u32 list \<Rightarrow> (nat \<times> u64) list \<Rightarrow> u32 list" where
  "bind_words ws [] = ws"
| "bind_words ws (r # rs) =
     bind_words (ws[fst r := encode_imm19_offset (ws ! fst r) (word_of_nat (4 * length ws) - word_of_nat (4 * fst r))] @ data_words (snd r)) rs"

definition linked :: "nat \<times> u64 \<Rightarrow> RelocLabel" where
  "linked r = \<lparr>label_pos = 0, ref_label_insns = [(kLabelImm19, 4 * fst r)], label_data = le_bytes 8 (snd r)\<rparr>"

lemma reloc_bind_words:
  assumes "distinct ks" and "\<forall>k \<in> set ks. k < length (data_labels ta) \<and> data_labels ta ! k = linked (r k) \<and> fst (r k) < length ws"
    and "code_buffer ta = code_bytes ws"
  shows "\<exists>L. reloc_bind_from ks ta = Inr (ta\<lparr>code_buffer := code_bytes (bind_words ws (map r ks)), data_labels := L\<rparr>)"
  using assms
proof (induction ks arbitrary: ta ws)
  case Nil
  then show ?case by (intro exI [of _ "data_labels ta"]) simp
next
  case (Cons k ks)
  let ?l = "bind_to (word_of_nat (4 * length ws)) (linked (r k))"
  let ?ws = "ws[fst (r k) := encode_imm19_offset (ws ! fst (r k)) (word_of_nat (4 * length ws) - word_of_nat (4 * fst (r k)))]"
  let ?ta = "ta\<lparr>data_labels := (data_labels ta)[k := ?l], code_buffer := code_bytes ?ws\<rparr>"
  have p: "PseudoBind k ta = Inr ?ta"
    using Cons.prems
    by (simp add: PseudoBind_def GetBufferSize_def bind_to_def linked_def LoadInst_words RewriteInst_words Let_def)
  have d: "EmitBuffer (label_data (data_labels ?ta ! k)) (length (label_data (data_labels ?ta ! k))) (code_buffer ?ta) =
      code_bytes (?ws @ data_words (snd (r k)))"
    using Cons.prems by (simp add: EmitBuffer_def bind_to_def linked_def le_bytes_data)
  let ?ta' = "?ta\<lparr>code_buffer := code_bytes (?ws @ data_words (snd (r k)))\<rparr>"
  have "\<exists>L. reloc_bind_from ks ?ta' = Inr (?ta'\<lparr>code_buffer := code_bytes (bind_words (?ws @ data_words (snd (r k))) (map r ks)), data_labels := L\<rparr>)"
    by (rule Cons.IH) (use Cons.prems in \<open>auto simp: nth_list_update\<close>)
  then show ?case using p d by (auto simp: Let_def)
qed

lemma RelocBind_words:
  assumes "\<forall>r \<in> set rs. fst r < length ws"
  shows "\<exists>L. RelocBind (asm ws rs) = Inr \<lparr>code_buffer = code_bytes (bind_words ws rs), data_labels = L, realized_addr = 0\<rparr>"
proof -
  have l: "data_labels (asm ws rs) = map linked rs" "code_buffer (asm ws rs) = code_bytes ws"
    by (auto simp: asm_def linked_def)
  have "\<exists>L. reloc_bind_from [0..<length rs] (asm ws rs) =
      Inr (asm ws rs\<lparr>code_buffer := code_bytes (bind_words ws (map ((!) rs) [0..<length rs])), data_labels := L\<rparr>)"
    by (rule reloc_bind_words) (use assms in \<open>auto simp: l\<close>)
  then show ?thesis by (simp add: RelocBind_def l map_nth asm_def)
qed

lemma bind_words_length [simp]: "length (bind_words ws rs) = length ws + 2 * length rs"
  by (induction rs arbitrary: ws) (simp_all add: data_words_def)

lemma bind_words_other: "p < length ws \<Longrightarrow> p \<notin> fst ` set rs \<Longrightarrow> bind_words ws rs ! p = ws ! p"
  by (induction rs arbitrary: ws) (auto simp: nth_append)

lemma bind_words_ref:
  "j < length rs \<Longrightarrow> distinct (map fst rs) \<Longrightarrow> \<forall>r \<in> set rs. fst r < length ws \<Longrightarrow>
    bind_words ws rs ! fst (rs ! j) =
      encode_imm19_offset (ws ! fst (rs ! j)) (word_of_nat (4 * (length ws + 2 * j)) - word_of_nat (4 * fst (rs ! j))) \<and>
    bind_words ws rs ! (length ws + 2 * j) = ucast (snd (rs ! j)) \<and>
    bind_words ws rs ! (length ws + 2 * j + 1) = ucast (drop_bit 32 (snd (rs ! j)))"
proof (induction rs arbitrary: ws j)
  case (Cons r rs)
  let ?ws = "ws[fst r := encode_imm19_offset (ws ! fst r) (word_of_nat (4 * length ws) - word_of_nat (4 * fst r))] @ data_words (snd r)"
  have other: "bind_words ?ws rs ! p = ?ws ! p" if "p < length ws + 2" "p \<notin> fst ` set rs" for p
    using that by (intro bind_words_other) (simp_all add: data_words_def)
  have len: "length ?ws = length ws + 2" by (simp add: data_words_def)
  show ?case
  proof (cases j)
    case 0
    have n: "length ws \<notin> fst ` set rs" "length ws + 1 \<notin> fst ` set rs" using Cons.prems by fastforce+
    have "fst r \<notin> fst ` set rs" using Cons.prems by simp
    with n have "bind_words ?ws rs ! fst r = ?ws ! fst r" "bind_words ?ws rs ! length ws = ?ws ! length ws"
      "bind_words ?ws rs ! (length ws + 1) = ?ws ! (length ws + 1)"
      using Cons.prems by (subst other; simp)+
    then show ?thesis using Cons.prems 0 by (simp add: nth_append data_words_def)
  next
    case (Suc i)
    then have "i < length rs" and ne: "fst (rs ! i) \<noteq> fst r" and lt: "fst (rs ! i) < length ws"
      using Cons.prems by (auto simp: image_iff) (metis nth_mem)
    moreover from this Cons.prems have "\<forall>r \<in> set rs. fst r < length ?ws" by (auto simp: data_words_def)
    ultimately show ?thesis
      using Cons.IH [of i ?ws] Cons.prems Suc unfolding len by (simp add: nth_append)
  qed
qed simp

section \<open>Running the emitted words\<close>

lemma rfield_alt: "rfield w lo = unat (field w lo 5)"
  by (rule rfield_def)

lemma small_bits: "r < 32 \<Longrightarrow> 5 \<le> n \<Longrightarrow> \<not> bit (r :: u32) n"
proof -
  assume "r < 32" and n: "5 \<le> n"
  then have "take_bit 5 r = r"
    by (intro word_unat_eq_iff [THEN iffD2]) (simp add: unsigned_take_bit_eq take_bit_nat_eq_self_iff word_less_nat_alt)
  then show ?thesis using bit_take_bit_iff [of 5 r n] n by simp
qed

lemma half_bits: "16 \<le> n \<Longrightarrow> \<not> bit (h :: u16) n"
  using bit_imp_le_length [of h n] by auto

lemma exec_br17: "a64_exec other br17 s = Some (s, Goto (xreg s 17))" "a64_exec other blr17 s = Some (s, Call (xreg s 17))"
  by (simp_all add: a64_exec_def br17_def blr17_def rfield_def field_def)

lemma exec_ldr_x17:
  assumes "r < 32"
  shows "a64_exec other (ldr_x17 r) s = Some (set_xreg (unat r) (le_word (fetch (memory s) (reg s 17) 8)) s, Next)"
proof -
  have f: "field (ldr_x17 r) 10 12 = 0" "field (ldr_x17 r) 5 5 = 17" "field (ldr_x17 r) 0 5 = r"
    using assms by (simp_all add: ldr_x17_def field_def bits32 bit_simps small_bits)
  have c: "bit (ldr_x17 r) k = bit (0xF9400220 :: u32) k" if "5 \<le> k" for k
    using that assms by (simp add: ldr_x17_def bit_simps small_bits)
  show ?thesis
    unfolding a64_exec_def Let_def a64_classes rfield_def f by (simp add: c xreg_sp_def)
qed

lemma mov_word_fields:
  assumes "r < 32"
  shows "field (mov_word 0xD2800000 0 h r) 5 16 = ucast h" "field (mov_word 0xD2800000 0 h r) 21 2 = 0" "field (mov_word 0xD2800000 0 h r) 0 5 = r"
    "field (mov_word 0xF2800000 1 h r) 5 16 = ucast h" "field (mov_word 0xF2800000 1 h r) 21 2 = 1" "field (mov_word 0xF2800000 1 h r) 0 5 = r"
    "field (mov_word 0xF2800000 2 h r) 5 16 = ucast h" "field (mov_word 0xF2800000 2 h r) 21 2 = 2" "field (mov_word 0xF2800000 2 h r) 0 5 = r"
    "field (mov_word 0xF2800000 3 h r) 5 16 = ucast h" "field (mov_word 0xF2800000 3 h r) 21 2 = 3" "field (mov_word 0xF2800000 3 h r) 0 5 = r"
  using assms by (simp_all add: mov_word_def field_def bits32 bit_simps small_bits half_bits)

lemma mov_word_bits:
  "r < 32 \<Longrightarrow> k < 4 \<Longrightarrow> 23 \<le> n \<Longrightarrow> bit (mov_word op k h r) n = bit op n"
proof -
  assume "r < 32" and k: "k < 4" and "23 \<le> n"
  moreover have "\<not> bit (word_of_nat k :: u32) (n - 21)" 
  proof -
    have "k = 0 \<or> k = 1 \<or> k = 2 \<or> k = 3" using k by auto
    then have "take_bit 2 (word_of_nat k :: u32) = word_of_nat k" by auto
    moreover have "\<not> n - 21 < 2" using \<open>23 \<le> n\<close> by simp
    ultimately show ?thesis using bit_take_bit_iff [of 2 "word_of_nat k :: u32" "n - 21"] by metis
  qed
  ultimately show ?thesis by (auto simp: mov_word_def bit_simps small_bits half_bits)
qed

lemma exec_movz:
  "r < 32 \<Longrightarrow> a64_exec other (mov_word 0xD2800000 0 h r) s = Some (set_xreg (unat r) (ucast (ucast h :: u32)) s, Next)"
  unfolding a64_exec_def Let_def a64_classes rfield_def by (simp add: mov_word_fields mov_word_bits)

lemma exec_movk:
  assumes "r < 32" and "k = 1 \<or> k = 2 \<or> k = 3"
  shows "a64_exec other (mov_word 0xF2800000 k h r) s =
    Some (set_xreg (unat r) (xreg s (unat r) AND NOT (push_bit (16 * k) (mask 16)) OR push_bit (16 * k) (ucast (ucast h :: u32))) s, Next)"
  using assms(2) unfolding a64_exec_def Let_def a64_classes rfield_def
  by (elim disjE) (use assms(1) in \<open>simp_all add: mov_word_fields mov_word_bits mov_word_fields [simplified]\<close>)


section \<open>The inverted branches\<close>

lemma words_off_field: "0 < n \<Longrightarrow> lo + n \<le> 32 \<Longrightarrow> words_off w lo n = push_bit 2 (signed_take_bit (n - 1) (ucast (field w lo n)))"
  unfolding words_off_def by (intro arg_cong [of _ _ "push_bit 2"] bit_word_eqI) (auto simp: field_def bit_simps min_def)

lemma field_set_bits:
  "lo \<le> fn \<Longrightarrow> fn < 32 \<Longrightarrow> k = fn - lo + 1 \<Longrightarrow> field (set_bits w lo fn v) lo k = take_bit k v"
  by (intro bit_word_eqI) (auto simp: field_def bit_simps bit_set_bits)

lemma twelve:
  "words_off (set_bits w 5 23 3) 5 19 = 12" "words_off (set_bits w 5 18 3) 5 14 = 12"
  unfolding words_off_field [of 19 5, simplified] words_off_field [of 14 5, simplified]
    field_set_bits [of 5 23 19, simplified] field_set_bits [of 5 18 14, simplified]
  by code_simp+

lemma three_bits: "2 \<le> k \<Longrightarrow> \<not> bit (3 :: nat) k" "2 \<le> k \<Longrightarrow> \<not> bit (3 :: int) k"
  using power_increasing [of 2 k "2 :: nat"] power_increasing [of 2 k "2 :: int"] by (simp_all add: bit_iff_odd div_pos_pos_trivial)

lemma flipped_op: "ucast (bit_at (scast w) 24) XOR 1 = (if bit w 24 then 0 else 1 :: u32)" for w :: u32
  by (simp add: bit_at_alt bit_simps)

lemma inverted_b_cond_fields:
  "24 \<le> n \<Longrightarrow> n < 32 \<Longrightarrow> bit (inverted_b_cond w) n = bit w n"
  "field (inverted_b_cond w) 0 4 = field w 0 4 XOR 1" "words_off (inverted_b_cond w) 5 19 = 12"
proof -
  have i: "inverted_b_cond w = set_bits (set_bits w 0 3 (field w 0 4 XOR 1)) 5 23 3"
    by (simp add: inverted_b_cond_def bits_field Let_def)
  show "words_off (inverted_b_cond w) 5 19 = 12" unfolding i by (rule twelve)
  show "field (inverted_b_cond w) 0 4 = field w 0 4 XOR 1"
    by (simp add: i field_def bits32 bit_simps bit_set_bits)
  show "bit (inverted_b_cond w) n = bit w n" if "24 \<le> n" "n < 32"
    using that by (auto simp: i bit_simps bit_set_bits field_def bit_1_iff three_bits)
qed

lemma inverted_compare_b_fields:
  "24 \<le> n \<Longrightarrow> n < 32 \<Longrightarrow> bit (inverted_compare_b w) n = (bit w n \<noteq> (n = 24))"
  "field (inverted_compare_b w) 0 5 = field w 0 5" "words_off (inverted_compare_b w) 5 19 = 12"
proof -
  have i: "inverted_compare_b w = set_bits (set_bit_at w 24 (if bit w 24 then 0 else 1)) 5 23 3"
    by (simp add: inverted_compare_b_def flipped_op Let_def)
  show "words_off (inverted_compare_b w) 5 19 = 12" unfolding i by (rule twelve)
  show "field (inverted_compare_b w) 0 5 = field w 0 5"
    by (simp add: i field_def bits32 bit_simps bit_set_bits bit_set_bit_at)
  show "bit (inverted_compare_b w) n = (bit w n \<noteq> (n = 24))" if "24 \<le> n" "n < 32"
    using that by (auto simp: i bit_simps bit_set_bits bit_set_bit_at bit_1_iff three_bits)
qed

lemma inverted_test_b_fields:
  "24 \<le> n \<Longrightarrow> n < 32 \<Longrightarrow> bit (inverted_test_b w) n = (bit w n \<noteq> (n = 24))"
  "field (inverted_test_b w) 0 5 = field w 0 5" "field (inverted_test_b w) 19 5 = field w 19 5" "words_off (inverted_test_b w) 5 14 = 12"
proof -
  have i: "inverted_test_b w = set_bits (set_bit_at w 24 (if bit w 24 then 0 else 1)) 5 18 3"
    by (simp add: inverted_test_b_def flipped_op Let_def)
  show "words_off (inverted_test_b w) 5 14 = 12" unfolding i by (rule twelve)
  show "field (inverted_test_b w) 0 5 = field w 0 5" "field (inverted_test_b w) 19 5 = field w 19 5"
    by (simp_all add: i field_def bits32 bit_simps bit_set_bits bit_set_bit_at)
  show "bit (inverted_test_b w) n = (bit w n \<noteq> (n = 24))" if "24 \<le> n" "n < 32"
    using that by (auto simp: i bit_simps bit_set_bits bit_set_bit_at bit_1_iff three_bits)
qed

lemma cond_holds_inverted: "c < 16 \<Longrightarrow> drop_bit 1 c \<noteq> 7 \<Longrightarrow> cond_holds (c XOR 1) s \<longleftrightarrow> \<not> cond_holds c s"
proof -
  assume c: "c < 16" "drop_bit 1 c \<noteq> 7"
  then have "drop_bit 1 (c XOR 1) = drop_bit 1 c" and "bit (c XOR 1) 0 \<longleftrightarrow> \<not> bit c 0"
    by (auto intro!: bit_word_eqI simp: bit_simps bit_1_iff)
  moreover have "c \<noteq> 15" using c(2) by auto
  moreover have "c XOR 1 \<noteq> 15"
  proof
    assume "c XOR 1 = 15"
    then have "(c XOR 1) XOR 1 = 15 XOR 1" by simp
    then have "c = 14" by (simp add: xor.assoc)
    then show False using c(2) by simp
  qed
  moreover have "unat (drop_bit 1 c) \<noteq> 7" using c(2) word_unat_eq_iff [of "drop_bit 1 c" 7] by simp
  moreover have "unat (drop_bit 1 c) < 8" using c(1) by (simp add: unat_drop_bit_u32 word_less_nat_alt)
  then have "unat (drop_bit 1 c) = 7 \<or> unat (drop_bit 1 c) \<in> {0,1,2,3,4,5,6}" by auto
  ultimately show ?thesis unfolding cond_holds_def Let_def by auto
qed

section \<open>Placing the code\<close>

lemma asm_LiteralLdrBranch:
  "LiteralLdrBranch t (asm ws rs) = Inr (asm (ws @ [ldr17, br17]) (rs @ [(length ws, t)]))"
proof -
  have "LiteralLdrBranch t ta = and_then (case AppendRelocLabel (withData t) ta of (l, ta) \<Rightarrow> Ldr TMP_REG_0 l ta) (\<lambda>ta. Inr (br TMP_REG_0 ta))" for ta
    by (simp add: LiteralLdrBranch_def split: prod.split)
  then show ?thesis by (simp add: asm_Ldr_label asm_simps)
qed

definition well_linked :: "u32 list \<Rightarrow> (nat \<times> u64) list \<Rightarrow> bool" where
  "well_linked ws rs \<longleftrightarrow>
     distinct (map fst rs) \<and> (\<forall>r \<in> set rs. fst r < length ws \<and> ws ! fst r = ldr17) \<and> length ws + 2 * length rs < 2 ^ 18"

lemma fetch_loaded:
  assumes "loaded m a bs" and "i + n \<le> length bs"
  shows "fetch m (a + word_of_nat i) n = take n (drop i bs)"
proof (rule nth_equalityI)
  fix k assume "k < length (fetch m (a + word_of_nat i) n)"
  then have k: "k < n" by simp
  have "m (a + word_of_nat (i + k)) = bs ! (i + k)"
    using assms k by (intro loaded_nth) simp_all
  then show "fetch m (a + word_of_nat i) n ! k = take n (drop i bs) ! k"
    using assms k by (simp add: nth_fetch add.assoc)
qed (use assms in simp)

lemma inst_at_loaded:
  assumes "loaded m a (code_bytes ws)" and "i < length ws"
  shows "inst_at m (a + word_of_nat (4 * i)) = ws ! i"
proof -
  have "fetch m (a + word_of_nat (4 * i)) 4 = take 4 (drop (4 * i) (code_bytes ws))"
    by (rule fetch_loaded [OF assms(1)]) (use assms(2) in simp)
  then show ?thesis using assms(2) by (simp add: inst_at_def code_bytes_nth le_word_bytes)
qed

lemma data_loaded:
  assumes "loaded m a (code_bytes ws)" and "Suc i < length ws" and "ws ! i = ucast t" "ws ! Suc i = ucast (drop_bit 32 t)"
  shows "le_word (fetch m (a + word_of_nat (4 * i)) 8) = (t :: u64)"
proof -
  have "fetch m (a + word_of_nat (4 * i)) (4 + 4) = fetch m (a + word_of_nat (4 * i)) 4 @ fetch m (a + word_of_nat (4 * i) + word_of_nat 4) 4"
    by (rule fetch_add)
  also have "\<dots> = le_bytes 4 (ws ! i) @ le_bytes 4 (ws ! Suc i)"
    using fetch_loaded [OF assms(1), of "4 * i" 4] fetch_loaded [OF assms(1), of "4 * Suc i" 4] assms(2)
      code_bytes_nth [of i ws] code_bytes_nth [of "Suc i" ws]
    by (simp add: algebra_simps)
  also have "\<dots> = le_bytes 8 t"
    using assms(3,4) by (simp add: le_bytes_data data_words_def code_bytes_def)
  finally show ?thesis by (simp add: le_word_bytes)
qed

lemma linked_load:
  assumes d: "d < 2 ^ 18"
  defines "w \<equiv> encode_imm19_offset ldr17 (word_of_nat (4 * d))"
  shows "a64_exec other w s = Some (set_xreg 17 (le_word (fetch (memory s) (pc s + word_of_nat (4 * d)) 8)) s, Next)"
proof -
  have c: "bit w k = bit ldr17 k" if "24 \<le> k" "k < 32" for k
    using that by (auto simp: w_def encode_imm19_offset_def bit_set_bits bits_alt bit_simps)
  have f: "field w 30 2 = 1" "field w 0 5 = 17"
    by (simp_all add: w_def encode_imm19_offset_def field_def bits32 bit_simps bit_set_bits bits_alt ldr17_def)
  have "sint (word_of_nat (4 * d) :: u64) = int (4 * d)"
    using d by (simp add: signed_of_nat signed_take_bit_int_eq_self del: of_nat_mult)
  then have "words_off w 5 19 = word_of_nat (4 * d)"
    using words_off_encoded [of 19 5 23 ldr17 "word_of_nat (4 * d)"] offset_fits [of 18 2 "word_of_nat (4 * d)"] d
    by (simp add: w_def encode_imm19_offset_def)
  then show ?thesis
    unfolding a64_exec_def Let_def a64_classes rfield_def f by (simp add: c ldr17_def)
qed

lemma step_word:
  assumes "well_linked ws rs" and "loaded (memory s) A (code_bytes (bind_words ws rs))"
    and "i < length ws" and "i \<notin> fst ` set rs" and "pc s = A + word_of_nat (4 * i)" and "a64_exec other (ws ! i) s = Some (t, fl)"
  shows "a64_step other s = Some (a64_after fl (A + word_of_nat (4 * Suc i)) t)"
  using assms inst_at_loaded [OF assms(2), of i] bind_words_other [OF assms(3,4)]
  by (simp add: a64_step_def algebra_simps)

lemma step_load:
  assumes wl: "well_linked ws rs" and ld: "loaded (memory s) A (code_bytes (bind_words ws rs))"
    and r: "(i, t) \<in> set rs" and pc: "pc s = A + word_of_nat (4 * i)"
  shows "a64_step other s = Some (s\<lparr>reg := (reg s)(17 := t), pc := A + word_of_nat (4 * Suc i)\<rparr>)"
proof -
  obtain j where j: "j < length rs" "rs ! j = (i, t)" using r by (auto simp: in_set_conv_nth)
  have i: "i < length ws" "ws ! i = ldr17" using wl r by (auto simp: well_linked_def)
  let ?F = "bind_words ws rs" and ?d = "length ws + 2 * j - i"
  have F: "?F ! i = encode_imm19_offset ldr17 (word_of_nat (4 * (length ws + 2 * j)) - word_of_nat (4 * i))"
    "?F ! (length ws + 2 * j) = ucast t" "?F ! Suc (length ws + 2 * j) = ucast (drop_bit 32 t)"
    using bind_words_ref [of j rs ws] j wl i by (auto simp: well_linked_def)
  have d: "(word_of_nat (4 * (length ws + 2 * j)) - word_of_nat (4 * i) :: u64) = word_of_nat (4 * ?d)"
    using i by (simp add: of_nat_diff algebra_simps)
  have "inst_at (memory s) (pc s) = encode_imm19_offset ldr17 (word_of_nat (4 * ?d))"
    using inst_at_loaded [OF ld, of i] i F(1) unfolding d pc by simp
  moreover have "length ws + 2 * length rs < 2 ^ 18" using wl by (simp add: well_linked_def)
  then have "?d < 2 ^ 18" using j by linarith
  moreover have "pc s + word_of_nat (4 * ?d) = A + word_of_nat (4 * (length ws + 2 * j))"
    using i by (simp add: pc of_nat_diff algebra_simps)
  moreover have "le_word (fetch (memory s) (A + word_of_nat (4 * (length ws + 2 * j))) 8) = t"
    by (rule data_loaded [OF ld]) (use j F(2,3) in auto)
  moreover from calculation have "a64_exec other (encode_imm19_offset ldr17 (word_of_nat (4 * ?d))) s = Some (set_xreg 17 t s, Next)"
    using linked_load [of ?d other s] by metis
  moreover have "pc s + 4 = A + word_of_nat (4 * Suc i)" by (simp add: pc)
  ultimately show ?thesis by (simp only: a64_step_def) (simp add: set_xreg_def)
qed

end
