(* ===== verification/Arm64_Refine.thy ===== *)
theory Arm64_Refine
  imports Arm64_Exec
begin

unbundle bit_operations_syntax

text \<open>
  The relocated AArch64 code against the original: what each class of instructions does on the
  processor model, that the sequence emitted for it has the same effect but for the scratch
  register x17, and the whole of \<open>GenRelocateCode\<close>.
\<close>

section \<open>The classes of the relocation\<close>

lemma inst_class_bits [a64_classes]:
  "inst_is_b_bl w \<longleftrightarrow> \<not> bit w 30 \<and> \<not> bit w 29 \<and> bit w 28 \<and> \<not> bit w 27 \<and> bit w 26"
  "inst_is_ldr_literal w \<longleftrightarrow> \<not> bit w 29 \<and> bit w 28 \<and> bit w 27 \<and> \<not> bit w 25 \<and> \<not> bit w 24"
  "inst_is_adr w \<longleftrightarrow> \<not> bit w 31 \<and> bit w 28 \<and> \<not> bit w 27 \<and> \<not> bit w 26 \<and> \<not> bit w 25 \<and> \<not> bit w 24"
  "inst_is_adrp w \<longleftrightarrow> bit w 31 \<and> bit w 28 \<and> \<not> bit w 27 \<and> \<not> bit w 26 \<and> \<not> bit w 25 \<and> \<not> bit w 24"
  "inst_is_b_cond w \<longleftrightarrow> \<not> bit w 31 \<and> bit w 30 \<and> \<not> bit w 29 \<and> bit w 28 \<and> \<not> bit w 27 \<and> bit w 26 \<and> \<not> bit w 25"
  "inst_is_compare_b w \<longleftrightarrow> \<not> bit w 30 \<and> bit w 29 \<and> bit w 28 \<and> \<not> bit w 27 \<and> bit w 26 \<and> \<not> bit w 25"
  "inst_is_test_b w \<longleftrightarrow> \<not> bit w 30 \<and> bit w 29 \<and> bit w 28 \<and> \<not> bit w 27 \<and> bit w 26 \<and> bit w 25"
  unfolding inst_is_b_bl_def inst_is_ldr_literal_def inst_is_adr_def inst_is_adrp_def inst_is_b_cond_def inst_is_compare_b_def inst_is_test_b_def
    UnconditionalBranchFixedMask_def UnconditionalBranchFixed_def LoadRegLiteralFixedMask_def LoadRegLiteralFixed_def
    PCRelAddressingFixedMask_def PCRelAddressingFixed_def PCRelAddressingMask_def ADR_def ADRP_def ConditionalBranchFixedMask_def
    ConditionalBranchFixed_def CompareBranchFixedMask_def CompareBranchFixed_def TestBranchFixedMask_def TestBranchFixed_def
  by (auto simp: bits32 bit_simps)

definition relocatable :: "u32 \<Rightarrow> bool" where
  \<comment> \<open>a literal load is one of a 64-bit general register; a conditional branch has a condition
    other than always, and is not an instruction with opcode 0x55\<close>
  "relocatable w \<longleftrightarrow>
     (inst_is_ldr_literal w \<longrightarrow> w AND 0xFF000000 = 0x58000000) \<and>
     (inst_is_b_cond w \<longrightarrow> w AND 0xFF000000 = 0x54000000 \<and> field w 1 3 \<noteq> 7)"

lemma relocatable_bits:
  "relocatable w \<Longrightarrow> inst_is_ldr_literal w \<Longrightarrow> \<not> bit w 31 \<and> bit w 30 \<and> \<not> bit w 26"
  "relocatable w \<Longrightarrow> inst_is_b_cond w \<Longrightarrow> \<not> bit w 24 \<and> field w 1 3 \<noteq> 7"
  by (auto simp: relocatable_def bits32 bit_simps)

definition position_independent :: "(u32 \<Rightarrow> a64 \<Rightarrow> (a64 \<times> flow) option) \<Rightarrow> bool" where
  \<comment> \<open>the instructions outside the model neither read nor write the program counter, but for
    the jump they report\<close>
  "position_independent other \<longleftrightarrow>
     (\<forall>w s a. other w (s\<lparr>pc := a\<rparr>) = map_option (\<lambda>(t, fl). (t\<lparr>pc := a\<rparr>, fl)) (other w s))"

lemma xreg_simps [simp]:
  "xreg (s\<lparr>pc := a\<rparr>) n = xreg s n" "xreg_sp (s\<lparr>pc := a\<rparr>) n = xreg_sp s n"
  "set_xreg n v (s\<lparr>pc := a\<rparr>) = (set_xreg n v s)\<lparr>pc := a\<rparr>" "set_xreg_sp n v (s\<lparr>pc := a\<rparr>) = (set_xreg_sp n v s)\<lparr>pc := a\<rparr>"
  "cond_holds c (s\<lparr>pc := a\<rparr>) = cond_holds c s" "pc (set_xreg n v s) = pc s" "memory (set_xreg n v s) = memory s"
  by (simp_all add: xreg_def xreg_sp_def set_xreg_def set_xreg_sp_def cond_holds_def)

lemma copied_position_independent:
  assumes "position_independent other"
    and "\<not> inst_is_b_bl w" "\<not> inst_is_ldr_literal w" "\<not> inst_is_adr w" "\<not> inst_is_adrp w" "\<not> inst_is_b_cond w" "\<not> inst_is_compare_b w" "\<not> inst_is_test_b w"
  shows "a64_exec other w (s\<lparr>pc := a\<rparr>) = map_option (\<lambda>(t, fl). (t\<lparr>pc := a\<rparr>, fl)) (a64_exec other w s)"
proof -
  have n: "w AND 0x7C000000 \<noteq> 0x14000000" "w AND 0xFF000000 \<noteq> 0x54000000" "w AND 0x7E000000 \<noteq> 0x34000000" "w AND 0x7E000000 \<noteq> 0x36000000"
    "w AND 0x3F000000 \<noteq> 0x18000000" "w AND 0x3F000000 \<noteq> 0x1C000000" "w AND 0x9F000000 \<noteq> 0x10000000" "w AND 0x9F000000 \<noteq> 0x90000000"
    using assms(2-8) unfolding a64_classes by blast+
  show ?thesis
    using assms(1) unfolding a64_exec_def Let_def position_independent_def by (simp add: n)
qed

text \<open>What the original instruction does, by class.\<close>

lemma exec_b_bl:
  "inst_is_b_bl w \<Longrightarrow> a64_exec other w s = Some (s, if bit w 31 then Call (pc s + words_off w 0 26) else Goto (pc s + words_off w 0 26))"
  unfolding a64_exec_def Let_def a64_classes by simp

lemma exec_ldr_literal:
  "inst_is_ldr_literal w \<Longrightarrow> relocatable w \<Longrightarrow>
   a64_exec other w s = Some (set_xreg (rfield w 0) (le_word (fetch (memory s) (pc s + words_off w 5 19) 8)) s, Next)"
proof -
  assume l: "inst_is_ldr_literal w" and "relocatable w"
  then have b: "\<not> bit w 31" "bit w 30" "\<not> bit w 26" using relocatable_bits(1) by blast+
  then have "field w 30 2 = 1" by (auto simp: field_def bits32 bit_simps)
  then show ?thesis using l b unfolding a64_exec_def Let_def a64_classes by simp
qed

lemma exec_adr:
  "inst_is_adr w \<Longrightarrow> a64_exec other w s = Some (set_xreg (rfield w 0) (pc s + adr_imm w) s, Next)"
  "inst_is_adrp w \<Longrightarrow> a64_exec other w s =
     Some (set_xreg (rfield w 0) (push_bit 12 (drop_bit 12 (pc s)) + push_bit 12 (adr_imm w)) s, Next)"
  unfolding a64_exec_def Let_def a64_classes by simp_all

lemma exec_b_cond:
  "inst_is_b_cond w \<Longrightarrow> \<not> bit w 24 \<Longrightarrow>
   a64_exec other w s = Some (s, if cond_holds (field w 0 4) s then Goto (pc s + words_off w 5 19) else Next)"
  unfolding a64_exec_def Let_def a64_classes by simp

definition compare_taken :: "u32 \<Rightarrow> a64 \<Rightarrow> bool" where
  "compare_taken w s \<longleftrightarrow> ((if bit w 31 then xreg s (rfield w 0) else take_bit 32 (xreg s (rfield w 0))) = 0) \<noteq> bit w 24"

definition test_taken :: "u32 \<Rightarrow> a64 \<Rightarrow> bool" where
  "test_taken w s \<longleftrightarrow> bit (xreg s (rfield w 0)) ((if bit w 31 then 32 else 0) + unat (field w 19 5)) = bit w 24"

lemma exec_compare_test:
  "inst_is_compare_b w \<Longrightarrow> a64_exec other w s = Some (s, if compare_taken w s then Goto (pc s + words_off w 5 19) else Next)"
  "inst_is_test_b w \<Longrightarrow> a64_exec other w s = Some (s, if test_taken w s then Goto (pc s + words_off w 5 14) else Next)"
  unfolding a64_exec_def Let_def a64_classes compare_taken_def test_taken_def by simp_all

text \<open>And what the inverted branches do.\<close>

lemma exec_inverted:
  "inst_is_b_cond w \<Longrightarrow> relocatable w \<Longrightarrow>
     a64_exec other (inverted_b_cond w) s = Some (s, if cond_holds (field w 0 4) s then Next else Goto (pc s + 12))"
  "inst_is_compare_b w \<Longrightarrow> a64_exec other (inverted_compare_b w) s = Some (s, if compare_taken w s then Next else Goto (pc s + 12))"
  "inst_is_test_b w \<Longrightarrow> a64_exec other (inverted_test_b w) s = Some (s, if test_taken w s then Next else Goto (pc s + 12))"
proof -
  assume w: "inst_is_b_cond w" "relocatable w"
  have b: "bit (inverted_b_cond w) n = bit w n" if "24 \<le> n" "n < 32" for n using that by (rule inverted_b_cond_fields)
  then have "inst_is_b_cond (inverted_b_cond w)" "\<not> bit (inverted_b_cond w) 24"
    using w relocatable_bits(2) [OF w(2,1)] unfolding a64_classes by simp_all
  moreover have "field w 0 4 < 16" by (simp add: field_def word_less_nat_alt unsigned_take_bit_eq take_bit_nat_def)
  moreover have "drop_bit 1 (field w 0 4) = field w 1 3" by (rule bit_word_eqI) (auto simp: field_def bit_simps)
  ultimately show "a64_exec other (inverted_b_cond w) s = Some (s, if cond_holds (field w 0 4) s then Next else Goto (pc s + 12))"
    using relocatable_bits(2) [OF w(2,1)] by (simp add: exec_b_cond inverted_b_cond_fields(2,3) cond_holds_inverted)
next
  assume w: "inst_is_compare_b w"
  have b: "bit (inverted_compare_b w) n = (bit w n \<noteq> (n = 24))" if "24 \<le> n" "n < 32" for n using that by (rule inverted_compare_b_fields)
  then have "inst_is_compare_b (inverted_compare_b w)" using w unfolding a64_classes by simp
  then show "a64_exec other (inverted_compare_b w) s = Some (s, if compare_taken w s then Next else Goto (pc s + 12))"
    by (auto simp: exec_compare_test compare_taken_def rfield_def inverted_compare_b_fields(2,3) b)
next
  assume w: "inst_is_test_b w"
  have b: "bit (inverted_test_b w) n = (bit w n \<noteq> (n = 24))" if "24 \<le> n" "n < 32" for n using that by (rule inverted_test_b_fields)
  then have "inst_is_test_b (inverted_test_b w)" using w unfolding a64_classes by simp
  then show "a64_exec other (inverted_test_b w) s = Some (s, if test_taken w s then Next else Goto (pc s + 12))"
    by (auto simp: exec_compare_test test_taken_def rfield_def inverted_test_b_fields(2-4) b)
qed

section \<open>One instruction\<close>

lemma a64_run_step: "a64_step other s = Some t \<Longrightarrow> a64_run other (Suc n) s = a64_run other n t"
  by simp

lemma half_words:
  "(((ucast (ucast (half 0 v) :: u32) AND NOT (push_bit 16 (mask 16)) OR push_bit 16 (ucast (ucast (half 1 v) :: u32)))
      AND NOT (push_bit 32 (mask 16)) OR push_bit 32 (ucast (ucast (half 2 v) :: u32)))
      AND NOT (push_bit 48 (mask 16)) OR push_bit 48 (ucast (ucast (half 3 v) :: u32))) = (v :: u64)"
proof -
  have u: "ucast (ucast (half k v) :: u32) = (take_bit 16 (drop_bit (16 * k) v) :: u64)" for k
    by (rule bit_word_eqI) (auto simp: half_def bit_simps)
  show ?thesis
  proof (rule bit_word_eqI)
    fix n assume "n < LENGTH(64)"
    then consider "n < 16" | "16 \<le> n \<and> n < 32" | "32 \<le> n \<and> n < 48" | "48 \<le> n \<and> n < 64" by fastforce
    then show "bit (((ucast (ucast (half 0 v) :: u32) AND NOT (push_bit 16 (mask 16)) OR push_bit 16 (ucast (ucast (half 1 v) :: u32)))
      AND NOT (push_bit 32 (mask 16)) OR push_bit 32 (ucast (ucast (half 2 v) :: u32)))
      AND NOT (push_bit 48 (mask 16)) OR push_bit 48 (ucast (ucast (half 3 v) :: u32)) :: u64) n = bit v n"
      by cases (auto simp: u bit_or_iff bit_and_iff bit_not_iff bit_push_bit_iff bit_take_bit_iff bit_drop_bit_eq bit_mask_iff)
  qed
qed

lemma set_xreg_twice [simp]: "set_xreg n v (set_xreg n u s) = set_xreg n v s"
  by (simp add: set_xreg_def)

lemma xreg_set: "n \<noteq> 31 \<Longrightarrow> xreg (set_xreg n v s) n = v"
  by (simp add: xreg_def set_xreg_def)

lemma run_mov:
  assumes wl: "well_linked ws rs" and ld: "loaded (memory s) A (code_bytes (bind_words ws rs))"
    and ws: "\<And>k. k < 4 \<Longrightarrow> i + k < length ws \<and> i + k \<notin> fst ` set rs \<and> ws ! (i + k) = mov_words r v ! k"
    and r: "r < 32" and pc: "pc s = A + word_of_nat (4 * i)"
  shows "a64_run other 4 s = Some ((set_xreg (unat r) v s)\<lparr>pc := A + word_of_nat (4 * (i + 4))\<rparr>)"
proof -
  define at where "at n t = t\<lparr>pc := A + word_of_nat (4 * (i + n))\<rparr>" for n and t :: a64
  have w: "ws ! i = mov_word 0xD2800000 0 (half 0 v) r" "ws ! (i + 1) = mov_word 0xF2800000 1 (half 1 v) r"
    "ws ! (i + 2) = mov_word 0xF2800000 2 (half 2 v) r" "ws ! (i + 3) = mov_word 0xF2800000 3 (half 3 v) r"
    using ws [of 0] ws [of 1] ws [of 2] ws [of 3] by (simp_all add: mov_words_def numeral_2_eq_2 numeral_3_eq_3)
  have s: "at 0 s = s" unfolding at_def add_0_right pc [symmetric] by simp
  have step: "a64_step other (at k t) = Some (at (Suc k) (set_xreg (unat r) x t))"
    if "k < 4" "memory t = memory s" "\<And>a. a64_exec other (ws ! (i + k)) (t\<lparr>pc := a\<rparr>) = Some ((set_xreg (unat r) x t)\<lparr>pc := a\<rparr>, Next)" for k t x
    using step_word [OF wl, of "at k t" A "i + k"] that ld ws [of k] by (simp add: at_def)
  define x0 where "x0 = (ucast (ucast (half 0 v) :: u32) :: u64)"
  define x1 where "x1 = (x0 AND NOT (push_bit 16 (mask 16)) OR push_bit 16 (ucast (ucast (half 1 v) :: u32)))"
  define x2 where "x2 = (x1 AND NOT (push_bit 32 (mask 16)) OR push_bit 32 (ucast (ucast (half 2 v) :: u32)))"
  have x3: "x2 AND NOT (push_bit 48 (mask 16)) OR push_bit 48 (ucast (ucast (half 3 v) :: u32)) = v"
    unfolding x2_def x1_def x0_def by (rule half_words)
  have k: "a64_exec other (mov_word 0xF2800000 k h r) ((set_xreg (unat r) y t)\<lparr>pc := a\<rparr>) =
      Some ((set_xreg (unat r) (y AND NOT (push_bit (16 * k) (mask 16)) OR push_bit (16 * k) (ucast (ucast h :: u32))) t)\<lparr>pc := a\<rparr>, Next)"
    if "k = 1 \<or> k = 2 \<or> k = 3" for k h y t a
    using exec_movk [OF r that, of other h "(set_xreg (unat r) y t)\<lparr>pc := a\<rparr>"]
    by (cases "unat r = 31") (simp_all add: xreg_set, simp add: set_xreg_def)
  have "a64_run other 4 (at 0 s) = Some (at 4 (set_xreg (unat r) v s))"
  proof -
    have "a64_step other (at 0 s) = Some (at 1 (set_xreg (unat r) x0 s))"
      using step [of 0 s x0] exec_movz [OF r] w(1) by (simp add: x0_def)
    moreover have "a64_step other (at 1 (set_xreg (unat r) x0 s)) = Some (at 2 (set_xreg (unat r) x1 s))"
      using step [of 1 "set_xreg (unat r) x0 s" x1] k [of 1] w(2) by (simp add: x1_def numeral_2_eq_2)
    moreover have "a64_step other (at 2 (set_xreg (unat r) x1 s)) = Some (at 3 (set_xreg (unat r) x2 s))"
      using step [of 2 "set_xreg (unat r) x1 s" x2] k [of 2] w(3) by (simp add: x2_def numeral_3_eq_3)
    moreover have "a64_step other (at 3 (set_xreg (unat r) x2 s)) = Some (at 4 (set_xreg (unat r) v s))"
      using step [of 3 "set_xreg (unat r) x2 s" v] k [of 3] w(4) x3 by (simp add: eval_nat_numeral)
    ultimately show ?thesis by (simp add: eval_nat_numeral)
  qed
  then show ?thesis unfolding s by (simp add: at_def)
qed

lemma trunc_page_adrp: "arm64_trunc_page (a + push_bit 12 d) = push_bit 12 (drop_bit 12 a) + push_bit 12 d"
proof -
  have m: "(0x1000 - 1 :: u64) = mask 12" by (simp add: mask_eq_exp_minus_1)
  have trunc: "arm64_trunc_page x = push_bit 12 (drop_bit 12 x)" for x
    unfolding arm64_trunc_page_def m by (rule bit_word_eqI) (auto simp: bit_simps)
  let ?z = "drop_bit 12 a + d"
  have "a + push_bit 12 d = push_bit 12 (drop_bit 12 a) + take_bit 12 a + push_bit 12 d"
    using bits_ident [of 12 a] by simp
  also have "\<dots> = push_bit 12 ?z + take_bit 12 a" by (simp add: push_bit_add)
  also have "\<dots> = push_bit 12 ?z OR take_bit 12 a"
    by (rule disjunctive_add_eq_or) (rule bit_word_eqI, auto simp: bit_simps)
  finally have "arm64_trunc_page (a + push_bit 12 d) = push_bit 12 (drop_bit 12 (push_bit 12 ?z OR take_bit 12 a))"
    by (simp add: trunc)
  also have "\<dots> = push_bit 12 ?z" by (rule bit_word_eqI) (auto simp: bit_simps)
  finally show ?thesis by (simp add: push_bit_add)
qed

text \<open>What is in x17 after an instruction that went to \<open>t\<close> and \<open>fl\<close>: the address of a literal,
  the target of a branch that is taken, or what the original leaves there.\<close>

definition scratch :: "u32 \<Rightarrow> u64 \<Rightarrow> a64 \<Rightarrow> flow \<Rightarrow> u64" where
  "scratch w a t fl =
     (if inst_is_ldr_literal w \<and> rfield w 0 \<noteq> 17 then a + words_off w 5 19
      else if inst_is_b_bl w \<or> inst_is_b_cond w \<or> inst_is_compare_b w \<or> inst_is_test_b w
      then (case fl of Next \<Rightarrow> reg t 17 | Goto x \<Rightarrow> x | Call x \<Rightarrow> x)
      else reg t 17)"

definition relocated_state :: "u32 \<Rightarrow> u64 \<Rightarrow> a64 \<Rightarrow> flow \<Rightarrow> u64 \<Rightarrow> a64" where
  "relocated_state w a t fl nxt = a64_after fl nxt (t\<lparr>reg := (reg t)(17 := scratch w a t fl)\<rparr>)"

text \<open>The sequence of one instruction in the placed code.\<close>

definition placed_at :: "u64 \<Rightarrow> u32 \<Rightarrow> u64 \<Rightarrow> nat \<Rightarrow> u32 list \<Rightarrow> (nat \<times> u64) list \<Rightarrow> bool" where
  "placed_at A w a p ws rs \<longleftrightarrow>
     well_linked ws rs \<and> p + length (emitted w a) \<le> length ws \<and>
     (\<forall>k < length (emitted w a). ws ! (p + k) = emitted w a ! k) \<and>
     (\<forall>k < length (emitted w a). p + k \<in> fst ` set rs \<longrightarrow> k \<in> fst ` set (refs w a)) \<and>
     (\<forall>(k, t) \<in> set (refs w a). (p + k, t) \<in> set rs)"

lemma placed_word:
  assumes "placed_at A w a p ws rs" and "loaded (memory s) A (code_bytes (bind_words ws rs))"
    and "k < length (emitted w a)" and "k \<notin> fst ` set (refs w a)" and "pc s = A + word_of_nat (4 * (p + k))"
    and "a64_exec other (emitted w a ! k) s = Some (t, fl)"
  shows "a64_step other s = Some (a64_after fl (A + word_of_nat (4 * (p + Suc k))) t)"
  using step_word [of ws rs s A "p + k" other t fl] assms by (auto simp: placed_at_def)

lemma placed_load:
  assumes "placed_at A w a p ws rs" and "loaded (memory s) A (code_bytes (bind_words ws rs))"
    and "(k, t) \<in> set (refs w a)" and "pc s = A + word_of_nat (4 * (p + k))"
  shows "a64_step other s = Some (s\<lparr>reg := (reg s)(17 := t), pc := A + word_of_nat (4 * (p + Suc k))\<rparr>)"
  using step_load [of ws rs s A "p + k" t other] assms by (auto simp: placed_at_def)

lemma sim_b_bl:
  assumes p: "placed_at A w a p ws rs" and ld: "loaded (memory s) A (code_bytes (bind_words ws rs))"
    and pc: "pc s = A + word_of_nat (4 * p)" and w: "inst_is_b_bl w"
    and orig: "a64_exec other w (s\<lparr>pc := a\<rparr>) = Some (t, fl)"
  shows "a64_run other 2 s = Some (relocated_state w a t fl (A + word_of_nat (4 * (p + 2))))"
proof -
  let ?d = "a + words_off w 0 26"
  have e: "emitted w a = [ldr17, if bit w 31 then blr17 else br17]" "refs w a = [(0, ?d)]" using w by (simp_all add: emitted_def refs_def)
  let ?s = "s\<lparr>reg := (reg s)(17 := ?d), pc := A + word_of_nat (4 * (p + 1))\<rparr>"
  have "a64_step other s = Some ?s" using placed_load [OF p ld, of 0] pc by (simp add: e)
  moreover have "a64_step other ?s = Some (a64_after (if bit w 31 then Call ?d else Goto ?d) (A + word_of_nat (4 * (p + 2))) ?s)"
    using placed_word [OF p, of ?s 1] ld by (cases "bit w 31") (simp_all add: e exec_br17 xreg_def)
  moreover have "t = s\<lparr>pc := a\<rparr>" "fl = (if bit w 31 then Call ?d else Goto ?d)" using orig by (auto simp: exec_b_bl [OF w])
  ultimately show ?thesis using w by (auto simp: numeral_2_eq_2 relocated_state_def scratch_def a64_classes)
qed

text \<open>The branches over a branch: \<open>taken\<close> says what the original does.\<close>

lemma sim_branch_over:
  assumes p: "placed_at A w a p ws rs" and ld: "loaded (memory s) A (code_bytes (bind_words ws rs))"
    and pc: "pc s = A + word_of_nat (4 * p)"
    and e: "emitted w a = [v, ldr17, br17]" "refs w a = [(1, d)]"
    and w: "inst_is_b_cond w \<or> inst_is_compare_b w \<or> inst_is_test_b w"
    and v: "a64_exec other v s = Some (s, if taken then Next else Goto (pc s + 12))"
    and orig: "a64_exec other w (s\<lparr>pc := a\<rparr>) = Some (s\<lparr>pc := a\<rparr>, if taken then Goto d else Next)"
  shows "\<exists>n. a64_run other n s = Some (relocated_state w a (s\<lparr>pc := a\<rparr>) (if taken then Goto d else Next) (A + word_of_nat (4 * (p + 3))))"
proof (cases taken)
  case False
  then have "a64_step other s = Some (s\<lparr>pc := A + word_of_nat (4 * (p + 3))\<rparr>)"
    using placed_word [OF p ld, of 0 other s] v pc by (simp add: e algebra_simps)
  then have "a64_run other 1 s = Some (relocated_state w a (s\<lparr>pc := a\<rparr>) Next (A + word_of_nat (4 * (p + 3))))"
    using w by (auto simp: relocated_state_def scratch_def a64_classes)
  then show ?thesis using False by (intro exI [of _ 1]) simp
next
  case True
  let ?s1 = "s\<lparr>pc := A + word_of_nat (4 * (p + 1))\<rparr>"
  let ?s2 = "?s1\<lparr>reg := (reg s)(17 := d), pc := A + word_of_nat (4 * (p + 2))\<rparr>"
  have "a64_step other s = Some ?s1" using placed_word [OF p ld, of 0 other s] v pc True by (simp add: e)
  moreover have "a64_step other ?s1 = Some ?s2" using placed_load [OF p, of ?s1 1] ld by (simp add: e numeral_2_eq_2)
  moreover have "a64_step other ?s2 = Some (?s2\<lparr>pc := d\<rparr>)"
    using placed_word [OF p, of ?s2 2] ld by (simp add: e exec_br17 xreg_def)
  ultimately have "a64_run other 3 s = Some (?s2\<lparr>pc := d\<rparr>)" by (simp add: numeral_3_eq_3)
  moreover have "?s2\<lparr>pc := d\<rparr> = relocated_state w a (s\<lparr>pc := a\<rparr>) (Goto d) (A + word_of_nat (4 * (p + 3)))"
    using w by (auto simp: relocated_state_def scratch_def a64_classes)
  ultimately show ?thesis using True by (metis (full_types))
qed

lemma placed_mov:
  assumes p: "placed_at A w a p ws rs" and ld: "loaded (memory s) A (code_bytes (bind_words ws rs))"
    and pc: "pc s = A + word_of_nat (4 * p)" and e: "emitted w a = mov_words r v @ rest" "refs w a = []" and r: "r < 32"
  shows "a64_run other 4 s = Some ((set_xreg (unat r) v s)\<lparr>pc := A + word_of_nat (4 * (p + 4))\<rparr>)"
proof (rule run_mov [OF _ ld _ r pc])
  show "well_linked ws rs" using p by (simp add: placed_at_def)
  fix k :: nat assume "k < 4"
  moreover have "length (mov_words r v) = 4" by (simp add: mov_words_def)
  ultimately have "k < length (emitted w a)" "emitted w a ! k = mov_words r v ! k" by (simp_all add: e nth_append)
  then show "p + k < length ws \<and> p + k \<notin> fst ` set rs \<and> ws ! (p + k) = mov_words r v ! k"
    using p by (auto simp: placed_at_def e(2))
qed

lemma sim_adr:
  assumes p: "placed_at A w a p ws rs" and ld: "loaded (memory s) A (code_bytes (bind_words ws rs))"
    and pc: "pc s = A + word_of_nat (4 * p)" and w: "inst_is_adr w \<or> inst_is_adrp w"
    and orig: "a64_exec other w (s\<lparr>pc := a\<rparr>) = Some (t, fl)"
  shows "a64_run other 4 s = Some (relocated_state w a t fl (A + word_of_nat (4 * (p + 4))))"
proof -
  let ?v = "if inst_is_adr w then a + adr_imm w else push_bit 12 (drop_bit 12 a) + push_bit 12 (adr_imm w)"
  have e: "emitted w a = mov_words (decode_rt w) ?v @ []" "refs w a = []"
    using w by (auto simp: emitted_def refs_def a64_classes trunc_page_adrp)
  have "t = (set_xreg (rfield w 0) ?v s)\<lparr>pc := a\<rparr>" "fl = Next" using orig w by (auto simp: exec_adr a64_classes)
  moreover have "scratch w a t fl = reg t 17" using w by (auto simp: scratch_def a64_classes)
  ultimately show ?thesis
    using placed_mov [OF p ld pc e decode_reg(3), of other] by (simp add: relocated_state_def decode_reg(1))
qed

lemma run_literal:
  assumes p: "placed_at A w a p ws rs" and ld: "loaded (memory s) A (code_bytes (bind_words ws rs))"
    and pc: "pc s = A + word_of_nat (4 * p)" and w: "inst_is_ldr_literal w"
  shows "a64_run other 5 s =
    Some ((set_xreg (rfield w 0) (le_word (fetch (memory s) (a + words_off w 5 19) 8)) (set_xreg 17 (a + words_off w 5 19) s))
          \<lparr>pc := A + word_of_nat (4 * (p + 5))\<rparr>)"
proof -
  let ?d = "a + words_off w 5 19" and ?r = "rfield w 0"
  have e: "emitted w a = mov_words 17 ?d @ [ldr_x17 (decode_rt w)]" "refs w a = []"
    using w by (auto simp: emitted_def refs_def a64_classes)
  let ?s = "(set_xreg 17 ?d s)\<lparr>pc := A + word_of_nat (4 * (p + 4))\<rparr>" and ?x = "le_word (fetch (memory s) ?d 8) :: u64"
  have m: "a64_run other 4 s = Some ?s" using placed_mov [OF p ld pc e, of other] by simp
  have "a64_step other ?s = Some ((set_xreg ?r ?x (set_xreg 17 ?d s))\<lparr>pc := A + word_of_nat (4 * (p + 5))\<rparr>)"
    using placed_word [OF p, of ?s 4] ld exec_ldr_x17 [OF decode_reg(3), of other w ?s]
    by (simp add: e mov_words_def decode_reg(1) set_xreg_def [of 17] algebra_simps)
  then show ?thesis using m a64_run_add [of other 4 1 s] by simp
qed

lemma sim_ldr_literal:
  assumes p: "placed_at A w a p ws rs" and ld: "loaded (memory s) A (code_bytes (bind_words ws rs))"
    and pc: "pc s = A + word_of_nat (4 * p)" and w: "inst_is_ldr_literal w" "relocatable w"
    and orig: "a64_exec other w (s\<lparr>pc := a\<rparr>) = Some (t, fl)"
  shows "a64_run other 5 s = Some (relocated_state w a t fl (A + word_of_nat (4 * (p + 5))))"
proof -
  let ?d = "a + words_off w 5 19" and ?r = "rfield w 0"
  have "t = (set_xreg ?r (le_word (fetch (memory s) ?d 8)) s)\<lparr>pc := a\<rparr>" "fl = Next"
    using orig w by (simp_all add: exec_ldr_literal)
  moreover have "scratch w a t fl = (if ?r = 17 then reg t 17 else ?d)" using w by (auto simp: scratch_def a64_classes)
  ultimately show ?thesis
    using run_literal [OF p ld pc w(1), of other] by (auto simp: relocated_state_def set_xreg_def fun_upd_twist)
qed

lemma inst_simulated:
  assumes p: "placed_at A w a p ws rs" and ld: "loaded (memory s) A (code_bytes (bind_words ws rs))"
    and pc: "pc s = A + word_of_nat (4 * p)" and rel: "relocatable w" and pi: "position_independent other"
    and orig: "a64_exec other w (s\<lparr>pc := a\<rparr>) = Some (t, fl)"
  shows "\<exists>n. a64_run other n s = Some (relocated_state w a t fl (A + word_of_nat (4 * (p + length (emitted w a)))))"
proof -
  consider "inst_is_b_bl w" | "inst_is_ldr_literal w" | "inst_is_adr w \<or> inst_is_adrp w" | "inst_is_b_cond w" | "inst_is_compare_b w"
    | "inst_is_test_b w"
    | "\<not> inst_is_b_bl w" "\<not> inst_is_ldr_literal w" "\<not> inst_is_adr w" "\<not> inst_is_adrp w" "\<not> inst_is_b_cond w" "\<not> inst_is_compare_b w"
      "\<not> inst_is_test_b w" by blast
  then show ?thesis
  proof cases
    case 1
    then show ?thesis using sim_b_bl [OF p ld pc 1 orig] by (auto simp: emitted_def)
  next
    case 2
    then have "length (emitted w a) = 5" by (auto simp: emitted_def a64_classes mov_words_def)
    then show ?thesis using sim_ldr_literal [OF p ld pc 2 rel orig] by auto
  next
    case 3
    then have "length (emitted w a) = 4" by (auto simp: emitted_def a64_classes mov_words_def)
    then show ?thesis using sim_adr [OF p ld pc 3 orig] by auto
  next
    case 4
    have e: "emitted w a = [inverted_b_cond w, ldr17, br17]" "refs w a = [(1, a + words_off w 5 19)]"
      using 4 by (auto simp: emitted_def refs_def a64_classes)
    then have len: "length (emitted w a) = 3" by simp
    show ?thesis unfolding len
      using sim_branch_over [OF p ld pc e _ exec_inverted(1) [OF 4 rel]] exec_b_cond [OF 4, of other "s\<lparr>pc := a\<rparr>"]
        relocatable_bits(2) [OF rel 4] orig 4 by auto
  next
    case 5
    have e: "emitted w a = [inverted_compare_b w, ldr17, br17]" "refs w a = [(1, a + words_off w 5 19)]"
      using 5 by (auto simp: emitted_def refs_def a64_classes)
    then have len: "length (emitted w a) = 3" by simp
    have "compare_taken w (s\<lparr>pc := a\<rparr>) = compare_taken w s" by (simp add: compare_taken_def)
    then show ?thesis unfolding len
      using sim_branch_over [OF p ld pc e _ exec_inverted(2) [OF 5]] exec_compare_test(1) [OF 5, of other "s\<lparr>pc := a\<rparr>"] orig 5 by auto
  next
    case 6
    have e: "emitted w a = [inverted_test_b w, ldr17, br17]" "refs w a = [(1, a + words_off w 5 14)]"
      using 6 by (auto simp: emitted_def refs_def a64_classes)
    then have len: "length (emitted w a) = 3" by simp
    have "test_taken w (s\<lparr>pc := a\<rparr>) = test_taken w s" by (simp add: test_taken_def)
    then show ?thesis unfolding len
      using sim_branch_over [OF p ld pc e _ exec_inverted(3) [OF 6]] exec_compare_test(2) [OF 6, of other "s\<lparr>pc := a\<rparr>"] orig 6 by auto
  next
    case 7
    then have e: "emitted w a = [w]" "refs w a = []" by (simp_all add: emitted_def refs_def)
    obtain u where u: "a64_exec other w s = Some (u, fl)" "t = u\<lparr>pc := a\<rparr>"
      using copied_position_independent [OF pi 7, where s = s and a = a] orig
      by (cases "a64_exec other w s") auto
    have "a64_step other s = Some (a64_after fl (A + word_of_nat (4 * (p + 1))) u)"
      using placed_word [OF p ld, of 0 other u fl] u(1) pc by (simp add: e)
    moreover have "scratch w a t fl = reg t 17" using 7 by (simp add: scratch_def)
    then have "relocated_state w a t fl b = a64_after fl b u" for b
      unfolding relocated_state_def u(2) by (cases fl) simp_all
    ultimately have "a64_run other 1 s = Some (relocated_state w a t fl (A + word_of_nat (4 * (p + length (emitted w a)))))" by (simp add: e)
    then show ?thesis by blast
  qed
qed

section \<open>The placed code of a function\<close>

lemma refs_emitted: "(k, t) \<in> set (refs w a) \<Longrightarrow> k < length (emitted w a) \<and> emitted w a ! k = ldr17"
  by (auto simp: refs_def emitted_def a64_classes split: if_splits)

lemma refs_few: "length (refs w a) \<le> 1"
  by (simp add: refs_def)

lemma refs_of_length: "length (refs_of n a ws) \<le> length ws"
proof (induction ws arbitrary: n a)
  case (Cons w ws)
  show ?case using add_mono [OF refs_few [of w a] Cons.IH [of "n + length (emitted w a)" "a + 4"]] by (simp add: shift_refs_def)
qed simp

lemma refs_of_append:
  "refs_of n a (ws @ vs) = refs_of n a ws @ refs_of (n + length (code_of a ws)) (a + word_of_nat (4 * length ws)) vs"
  by (induction ws arbitrary: n a) (simp_all add: algebra_simps)

lemma refs_of_range:
  "r \<in> set (refs_of n a ws) \<Longrightarrow> n \<le> fst r \<and> fst r < n + length (code_of a ws) \<and> code_of a ws ! (fst r - n) = ldr17"
proof (induction ws arbitrary: n a)
  case (Cons w ws)
  show ?case
  proof (cases "r \<in> set (shift_refs n (refs w a))")
    case True
    then obtain k t where "r = (n + k, t)" "(k, t) \<in> set (refs w a)" by (auto simp: shift_refs_def)
    then show ?thesis using refs_emitted [of k t w a] by (simp add: nth_append)
  next
    case False
    then have "r \<in> set (refs_of (n + length (emitted w a)) (a + 4) ws)" using Cons.prems by simp
    then show ?thesis using Cons.IH by (fastforce simp: nth_append)
  qed
qed simp

lemma refs_of_distinct: "distinct (map fst (refs_of n a ws))"
proof (induction ws arbitrary: n a)
  case (Cons w ws)
  have "distinct (map fst (shift_refs n (refs w a)))" using refs_few [of w a] by (cases "refs w a") (auto simp: shift_refs_def)
  moreover have "fst r < n + length (emitted w a)" if "r \<in> set (shift_refs n (refs w a))" for r
    using that refs_emitted [of _ _ w a] by (auto simp: shift_refs_def)
  moreover have "n + length (emitted w a) \<le> fst r" if "r \<in> set (refs_of (n + length (emitted w a)) (a + 4) ws)" for r
    using refs_of_range [OF that] by simp
  ultimately show ?case using Cons.IH by (fastforce simp: disjoint_iff)
qed simp

definition all_words :: "u64 \<Rightarrow> u32 list \<Rightarrow> bool \<Rightarrow> u32 list" where
  "all_words a iss branch = code_of a iss @ (if branch then [ldr17, br17] else [])"

definition all_refs :: "u64 \<Rightarrow> u32 list \<Rightarrow> bool \<Rightarrow> (nat \<times> u64) list" where
  "all_refs a iss branch = refs_of 0 a iss @ (if branch then [(length (code_of a iss), a + word_of_nat (4 * length iss))] else [])"

lemma all_well_linked:
  assumes "length iss < 2 ^ 14"
  shows "well_linked (all_words a iss branch) (all_refs a iss branch)"
proof -
  have "distinct (map fst (all_refs a iss branch))"
    using refs_of_distinct [of 0 a iss] refs_of_range [of _ 0 a iss] by (fastforce simp: all_refs_def)
  moreover have "\<forall>r \<in> set (all_refs a iss branch). fst r < length (all_words a iss branch) \<and> all_words a iss branch ! fst r = ldr17"
    using refs_of_range [of _ 0 a iss] by (fastforce simp: all_refs_def all_words_def nth_append)
  moreover have "length (all_words a iss branch) + 2 * length (all_refs a iss branch) < 2 ^ 18"
    using assms code_of_length [of a iss] refs_of_length [of 0 a iss] by (simp add: all_words_def all_refs_def)
  ultimately show ?thesis by (simp add: well_linked_def)
qed

lemma all_placed_at:
  assumes "length iss < 2 ^ 14" and k: "k < length iss"
  shows "placed_at A (iss ! k) (a + word_of_nat (4 * k)) (length (code_of a (take k iss))) (all_words a iss branch) (all_refs a iss branch)"
proof -
  let ?w = "iss ! k" and ?a = "a + word_of_nat (4 * k)" and ?p = "length (code_of a (take k iss))"
  have "iss = take k iss @ ?w # drop (Suc k) iss" using k by (rule id_take_nth_drop)
  then have c: "code_of a iss = code_of a (take k iss) @ emitted ?w ?a @ code_of (?a + 4) (drop (Suc k) iss)"
    and r: "refs_of 0 a iss = refs_of 0 a (take k iss) @ shift_refs ?p (refs ?w ?a) @ refs_of (?p + length (emitted ?w ?a)) (?a + 4) (drop (Suc k) iss)"
    using k code_of_append [of a "take k iss" "?w # drop (Suc k) iss"] refs_of_append [of 0 a "take k iss" "?w # drop (Suc k) iss"]
    by (simp_all add: algebra_simps)
  have own: "j \<in> fst ` set (refs ?w ?a)" if j: "j < length (emitted ?w ?a)" "?p + j \<in> fst ` set (all_refs a iss branch)" for j
  proof -
    obtain t where "(?p + j, t) \<in> set (all_refs a iss branch)" using j(2) by auto
    then consider "(?p + j, t) \<in> set (refs_of 0 a (take k iss))" | "(?p + j, t) \<in> set (shift_refs ?p (refs ?w ?a))"
      | "(?p + j, t) \<in> set (refs_of (?p + length (emitted ?w ?a)) (?a + 4) (drop (Suc k) iss))" | "?p + j = length (code_of a iss)"
      by (auto simp: all_refs_def r split: if_splits)
    then show ?thesis
    proof cases
      case 1
      then show ?thesis using refs_of_range by fastforce
    next
      case 2
      then show ?thesis by (force simp: shift_refs_def)
    next
      case 3
      then show ?thesis using refs_of_range [OF 3] j(1) by simp
    next
      case 4
      then show ?thesis using j(1) by (simp add: c)
    qed
  qed
  show ?thesis
    using all_well_linked [OF assms(1), of a branch] own
    by (auto simp: placed_at_def all_words_def all_refs_def c r nth_append shift_refs_def)
qed

text \<open>What \<open>GenRelocateCode\<close> returns.\<close>

lemma GenRelocateCode_words:
  fixes m buffer alloc branch and orig blk :: MemBlock
  assumes "mb_size orig \<le> 0xFFF0"
  defines "iss \<equiv> code_insts m buffer ((mb_size orig + 3) div 4)"
  defines "code \<equiv> code_bytes (bind_words (all_words (mb_addr orig) iss branch) (all_refs (mb_addr orig) iss branch))"
  shows "GenRelocateCode m alloc buffer orig blk branch =
    (if \<exists>w \<in> set iss. unimplemented w then Inl Abort
     else case alloc (length code) of
            None \<Rightarrow> Inl Out_of_bounds
          | Some A \<Rightarrow> Inr \<lparr>rr_origin = block_reset (mb_addr orig) (4 * length iss) orig, rr_relocated = block_reset A (length code) blk,
                           rr_offset_map = offsets_of 0 0 (mb_addr orig) iss Map.empty, rr_patches = [(A, code)]\<rparr>)"
proof -
  let ?n = "(mb_size orig + 3) div 4" and ?a = "mb_addr orig"
  let ?ctx = "\<lparr>buffer_addr = buffer, buffer_cursor = 0, buffer_size = mb_size orig, src_vmaddr = ?a, dst_vmaddr = mb_addr blk,
    origin = orig, relocated_offset_map = Map.empty\<rparr>"
  have n: "length iss = ?n" "?n < 2 ^ 14" using assms(1) by (simp_all add: iss_def)
  have loop: "relo_loop m ?ctx (turbo_assembler 0) =
    (if \<exists>w \<in> set iss. unimplemented w then Inl Abort
     else Inr (?ctx\<lparr>buffer_cursor := 4 * ?n, relocated_offset_map := offsets_of 0 0 ?a iss Map.empty\<rparr>, asm (code_of ?a iss) (refs_of 0 ?a iss)))"
    using relo_loop_words [of ?n ?ctx "[]" iss m ?a "[]"] n
    by (simp add: asm_start iss_def relo_cur_src_vmaddr_def)
  let ?ws = "all_words ?a iss branch" and ?rs = "all_refs ?a iss branch"
  have wl: "well_linked ?ws ?rs" using n by (intro all_well_linked) simp
  have br: "(if branch then LiteralLdrBranch (?a + word_of_nat (4 * ?n)) (asm (code_of ?a iss) (refs_of 0 ?a iss))
             else Inr (asm (code_of ?a iss) (refs_of 0 ?a iss))) = Inr (asm ?ws ?rs)"
    by (simp add: asm_LiteralLdrBranch all_words_def all_refs_def n)
  obtain L where L: "RelocBind (asm ?ws ?rs) = Inr \<lparr>code_buffer = code, data_labels = L, realized_addr = 0\<rparr>"
    using RelocBind_words [of ?rs ?ws] wl by (auto simp: well_linked_def code_def)
  have reset: "mb_addr (block_reset b k x) = b" "mb_size (block_reset b k x) = k" for b k x by (simp_all add: block_reset_def)
  show ?thesis
    unfolding GenRelocateCode_def relo_relocate_def Let_def loop
    using br L n(1)
    by (auto simp: reset FinalizeFromTurboAssembler_def GetBufferSize_def new_MemBlock_def block_reset_def split: option.split)
qed

section \<open>Relocation of a function\<close>

lemma GenRelocateCode_success:
  fixes m buffer alloc branch and orig blk :: MemBlock
  assumes g: "GenRelocateCode m alloc buffer orig blk branch = Inr r" and size: "mb_size orig \<le> 0xFFF0"
    and A: "rr_patches r = [(A, code)]" and k: "4 * k < mb_size orig" and off: "rr_offset_map r (4 * k) = Some off"
  defines "w \<equiv> inst_at m (buffer + word_of_nat (4 * k))" and "a \<equiv> mb_addr orig + word_of_nat (4 * k)"
    and "iss \<equiv> code_insts m buffer ((mb_size orig + 3) div 4)"
  defines "ws \<equiv> all_words (mb_addr orig) iss branch" and "rs \<equiv> all_refs (mb_addr orig) iss branch"
  shows "code = code_bytes (bind_words ws rs)" "mb_size (rr_origin r) = 4 * length iss" "k < length iss"
    "\<exists>p. off = 4 * p \<and> placed_at A w a p ws rs \<and>
      (4 * Suc k < mb_size orig \<longrightarrow> rr_offset_map r (4 * Suc k) = Some (4 * (p + length (emitted w a)))) \<and>
      (mb_size orig \<le> 4 * Suc k \<longrightarrow> p + length (emitted w a) = length (code_of (mb_addr orig) iss))"
proof -
  let ?a = "mb_addr orig"
  have n: "length iss < 2 ^ 14" "length iss = (mb_size orig + 3) div 4" using size by (simp_all add: iss_def)
  show code: "code = code_bytes (bind_words ws rs)" and "mb_size (rr_origin r) = 4 * length iss"
    using g A unfolding GenRelocateCode_words [OF size] ws_def rs_def iss_def
    by (auto simp: block_reset_def split: if_splits option.splits)
  have map: "rr_offset_map r = offsets_of 0 0 ?a iss Map.empty"
    using g unfolding GenRelocateCode_words [OF size] iss_def by (auto split: if_splits option.splits)
  show kl: "k < length iss" using k n by simp
  have wk: "iss ! k = w" using kl n(2) by (simp add: iss_def w_def code_insts_def)
  let ?p = "length (code_of ?a (take k iss))"
  have off': "off = 4 * ?p" using off offsets_of_nth [OF kl, of 0 0 ?a Map.empty] by (simp add: map)
  have next_: "length (code_of ?a (take (Suc k) iss)) = ?p + length (emitted w a)"
    using kl code_of_append [of ?a "take k iss" "[w]"] by (simp add: take_Suc_conv_app_nth wk a_def)
  have "rr_offset_map r (4 * Suc k) = Some (4 * (?p + length (emitted w a)))" if "4 * Suc k < mb_size orig"
  proof -
    have "Suc k < length iss" using that n by simp
    then show ?thesis using offsets_of_nth [of "Suc k" iss 0 0 ?a Map.empty] next_ by (simp add: map)
  qed
  moreover have "?p + length (emitted w a) = length (code_of ?a iss)" if "mb_size orig \<le> 4 * Suc k"
  proof -
    have "length iss \<le> Suc k" using that n by simp
    then show ?thesis using next_ by simp
  qed
  moreover have "placed_at A w a ?p ws rs"
    using all_placed_at [OF n(1) kl, of A ?a branch] by (simp add: wk ws_def rs_def a_def)
  ultimately show "\<exists>p. off = 4 * p \<and> placed_at A w a p ws rs \<and>
      (4 * Suc k < mb_size orig \<longrightarrow> rr_offset_map r (4 * Suc k) = Some (4 * (p + length (emitted w a)))) \<and>
      (mb_size orig \<le> 4 * Suc k \<longrightarrow> p + length (emitted w a) = length (code_of (mb_addr orig) iss))"
    using off' by blast
qed

lemma branch_back:
  assumes wl: "well_linked (all_words a iss True) (all_refs a iss True)"
    and ld: "loaded (memory s) A (code_bytes (bind_words (all_words a iss True) (all_refs a iss True)))"
    and pc: "pc s = A + word_of_nat (4 * length (code_of a iss))"
  defines "ret \<equiv> a + word_of_nat (4 * length iss)"
  shows "a64_run other 2 s = Some (s\<lparr>reg := (reg s)(17 := ret), pc := ret\<rparr>)"
proof -
  let ?c = "length (code_of a iss)"
  let ?s = "s\<lparr>reg := (reg s)(17 := ret), pc := A + word_of_nat (4 * Suc ?c)\<rparr>"
  have "a64_step other s = Some ?s"
    by (rule step_load [OF wl ld _ pc]) (simp add: all_refs_def ret_def)
  moreover have "Suc ?c \<notin> fst ` set (all_refs a iss True)"
    using refs_of_range [of _ 0 a iss] by (fastforce simp: all_refs_def)
  then have "a64_step other ?s = Some (a64_after (Goto ret) (A + word_of_nat (4 * Suc (Suc ?c))) ?s)"
    using ld by (intro step_word [OF wl]) (simp_all add: all_words_def nth_append exec_br17 xreg_def)
  ultimately show ?thesis by (simp add: numeral_2_eq_2)
qed


text \<open>A conditional branch and a \<open>nop\<close>, relocated to \<open>0x1000\<close>, with no flag set.\<close>

definition example_memory :: "u64 \<Rightarrow> u8" where
  "example_memory x = (if x = 0 then 0x80 else if x = 3 then 0x54 else if x = 4 then 0x1F else if x = 5 then 0x20
     else if x = 6 then 0x03 else if x = 7 then 0xD5 else 0)"

definition example_code :: "u8 list" where
  "example_code = [0x61, 0, 0, 0x54, 0xB1, 0, 0, 0x58, 0x20, 2, 0x1F, 0xD6, 0x1F, 0x20, 3, 0xD5, 0x91, 0, 0, 0x58, 0x20, 2, 0x1F, 0xD6,
     0x10, 0x80, 0, 0, 0, 0, 0, 0, 8, 0x80, 0, 0, 0, 0, 0, 0]"

definition example_nop :: "u32 \<Rightarrow> a64 \<Rightarrow> (a64 \<times> flow) option" where
  "example_nop w s = (if w = 0xD503201F then Some (s, Next) else None)"

lemma example_insts: "code_insts example_memory 0 2 = [0x54000080, 0xD503201F]"
  by code_simp

lemma example_code_is:
  "code_bytes (bind_words (all_words 0x8000 [0x54000080, 0xD503201F] True) (all_refs 0x8000 [0x54000080, 0xD503201F] True)) = example_code"
  by code_simp

lemma example_relocation:
  "GenRelocateCode example_memory (\<lambda>_. Some 0x1000) 0 (new_MemBlock 0x8000 8) (new_MemBlock 0 0) True =
   Inr \<lparr>rr_origin = new_MemBlock 0x8000 8, rr_relocated = new_MemBlock 0x1000 40, rr_offset_map = [0 \<mapsto> 0, 4 \<mapsto> 12],
        rr_patches = [(0x1000, example_code)]\<rparr>"
proof -
  have l: "length example_code = 40" by (simp add: example_code_def)
  have e: "length (emitted 0x54000080 0x8000) = 3" "\<not> unimplemented 0x54000080" "\<not> unimplemented 0xD503201F" by code_simp+
  show ?thesis
    using GenRelocateCode_words [of "new_MemBlock 0x8000 8" example_memory "\<lambda>_. Some 0x1000" 0 "new_MemBlock 0 0" True]
    by (simp add: new_MemBlock_def block_reset_def l e example_insts example_code_is)
qed

definition example_state :: a64 where
  "example_state = \<lparr>reg = (\<lambda>n. word_of_nat n), stack_pointer = 0x7000, vreg = (\<lambda>_. 0), flag_n = False, flag_z = True, flag_c = False, flag_v = False,
     memory = (\<lambda>x. if x - 0x1000 < 40 then example_code ! unat (x - 0x1000) else 0), pc = 0x1000\<rparr>"

lemma example_loaded: "loaded (memory example_state) 0x1000 example_code"
  by code_simp

section \<open>Termination and failure\<close>

lemma unimplemented_iff: "unimplemented w \<longleftrightarrow> inst_is_ldr_literal w \<and> bit w 31"
  unfolding unimplemented_def a64_classes by blast

lemma offsets_of_dom: "dom (offsets_of c n a ws M) = dom M \<union> (\<lambda>j. c + 4 * j) ` {..<length ws}"
proof (induction ws arbitrary: c n a M)
  case (Cons w ws)
  have "insert c ((\<lambda>j. c + 4 + 4 * j) ` {..<length ws}) = (\<lambda>j. c + 4 * j) ` {..<Suc (length ws)}"
    unfolding lessThan_Suc_eq_insert_0 by (simp add: image_image add.assoc)
  then have "insert c (dom M) \<union> (\<lambda>j. c + 4 + 4 * j) ` {..<length ws} = dom M \<union> (\<lambda>j. c + 4 * j) ` {..<Suc (length ws)}" by blast
  moreover have "dom (M(c \<mapsto> 4 * n)) = insert c (dom M)" by simp
  ultimately show ?case unfolding offsets_of.simps Cons.IH list.size by simp
qed simp

lemma all_lengths: "length (all_words a iss branch) + 2 * length (all_refs a iss branch) \<le> 7 * length iss + 4"
  using code_of_length [of a iss] refs_of_length [of 0 a iss] by (simp add: all_words_def all_refs_def)

text \<open>
  C29: \<open>GenRelocateCode\<close> on AArch64 returns for every block of up to \<open>0xFFF0\<close> bytes. It aborts
  exactly if the block contains a literal load with bit 31 set (\<open>UNIMPLEMENTED\<close> for LDRSW, PRFM
  and the 128-bit load), and otherwise fails exactly if the allocator has no memory. Else the
  original block becomes whole instructions, the new code lies at the allocated address, is at
  most 28 bytes per instruction and 16 more, and every original instruction, and nothing else,
  has an offset in it.
\<close>

theorem arm64_relocation_returns:
  fixes n :: nat and orig blk :: MemBlock
  assumes "mb_size orig \<le> 0xFFF0" and "n = (mb_size orig + 3) div 4"
  shows "\<exists>len \<le> 28 * n + 16.
    (let bad = (\<exists>k<n. let w = inst_at m (buffer + word_of_nat (4 * k)) in inst_is_ldr_literal w \<and> bit w 31) in
     case GenRelocateCode m alloc buffer orig blk branch of
       Inl f \<Rightarrow> (f = Abort \<and> bad) \<or> (f = Out_of_bounds \<and> \<not> bad \<and> alloc len = None)
     | Inr r \<Rightarrow> \<not> bad \<and> rr_origin r = block_reset (mb_addr orig) (4 * n) orig \<and>
         (\<exists>A code. alloc len = Some A \<and> rr_patches r = [(A, code)] \<and> length code = len \<and> rr_relocated r = block_reset A len blk) \<and>
         dom (rr_offset_map r) = {4 * k | k. k < n} \<and> (\<forall>off \<in> ran (rr_offset_map r). 4 dvd off \<and> off < len))"
proof -
  let ?a = "mb_addr orig" and ?iss = "code_insts m buffer n"
  let ?ws = "all_words ?a ?iss branch" and ?rs = "all_refs ?a ?iss branch"
  let ?len = "length (code_bytes (bind_words ?ws ?rs))" and ?M = "offsets_of 0 0 ?a ?iss Map.empty"
  have bad: "(\<exists>w \<in> set ?iss. unimplemented w) \<longleftrightarrow>
      (\<exists>k<n. inst_is_ldr_literal (inst_at m (buffer + word_of_nat (4 * k))) \<and> bit (inst_at m (buffer + word_of_nat (4 * k))) 31)"
    by (auto simp: unimplemented_iff code_insts_def)
  have len: "?len \<le> 28 * n + 16" using all_lengths [of ?a ?iss branch] by simp
  have dom: "dom ?M = {4 * k | k. k < n}" using offsets_of_dom [of 0 0 ?a ?iss Map.empty] by auto
  have ran: "4 dvd off \<and> off < ?len" if r: "off \<in> ran ?M" for off
  proof -
    obtain x where x: "?M x = Some off" using r unfolding ran_def by blast
    then obtain k where k: "x = 4 * k" "k < length ?iss" using dom by (auto simp: dom_def)
    then have off: "off = 4 * length (code_of ?a (take k ?iss))" using x offsets_of_nth [of k ?iss 0 0 ?a Map.empty] by simp
    have "placed_at 0 (?iss ! k) (?a + word_of_nat (4 * k)) (length (code_of ?a (take k ?iss))) ?ws ?rs"
      using all_placed_at k(2) assms by simp
    then have "length (code_of ?a (take k ?iss)) < length ?ws"
      using emitted_length(1) [of "?iss ! k" "?a + word_of_nat (4 * k)"] by (simp add: placed_at_def)
    then show ?thesis using off by simp
  qed
  show ?thesis
  proof (intro exI [of _ ?len] conjI len)
    show "let bad = (\<exists>k<n. let w = inst_at m (buffer + word_of_nat (4 * k)) in inst_is_ldr_literal w \<and> bit w 31) in
     case GenRelocateCode m alloc buffer orig blk branch of
       Inl f \<Rightarrow> (f = Abort \<and> bad) \<or> (f = Out_of_bounds \<and> \<not> bad \<and> alloc ?len = None)
     | Inr r \<Rightarrow> \<not> bad \<and> rr_origin r = block_reset (mb_addr orig) (4 * n) orig \<and>
         (\<exists>A code. alloc ?len = Some A \<and> rr_patches r = [(A, code)] \<and> length code = ?len \<and> rr_relocated r = block_reset A ?len blk) \<and>
         dom (rr_offset_map r) = {4 * k | k. k < n} \<and> (\<forall>off \<in> ran (rr_offset_map r). 4 dvd off \<and> off < ?len)"
      unfolding GenRelocateCode_words [OF assms(1)] assms(2) [symmetric] Let_def bad [symmetric]
      using dom ran by (auto split: option.split)
  qed
qed

lemma arm64_relocation_returns_witness:
  "GenRelocateCode example_memory (\<lambda>_. None) 0 (new_MemBlock 0x8000 8) (new_MemBlock 0 0) True = Inl Out_of_bounds"
proof -
  have "inst_at example_memory 0 = 0x54000080" "inst_at example_memory 4 = 0xD503201F" by code_simp+
  moreover have "\<not> inst_is_ldr_literal 0x54000080" "\<not> inst_is_ldr_literal 0xD503201F" by code_simp+
  ultimately have "\<not> (let w = inst_at example_memory (0 + word_of_nat (4 * k)) in inst_is_ldr_literal w \<and> bit w 31)" if "k < 2" for k :: nat
    using that by (auto dest: less_2_cases)
  moreover have "mb_size (new_MemBlock 0x8000 8) \<le> 0xFFF0" "2 = (mb_size (new_MemBlock 0x8000 8) + 3) div 4"
    by (simp_all add: new_MemBlock_def)
  ultimately show ?thesis
    using arm64_relocation_returns [of "new_MemBlock 0x8000 8" 2 example_memory 0 "\<lambda>_. None" "new_MemBlock 0 0" True]
    by (cases "GenRelocateCode example_memory (\<lambda>_. None) 0 (new_MemBlock 0x8000 8) (new_MemBlock 0 0) True") (auto simp: Let_def)
qed

section \<open>The instructions it gets wrong\<close>

lemma exec_literals:
  "w AND 0xFF000000 = 0x18000000 \<Longrightarrow> a64_exec other w s = Some (set_xreg (rfield w 0) (ucast (inst_at (memory s) (pc s + words_off w 5 19))) s, Next)"
  "w AND 0xBF000000 = 0x1C000000 \<Longrightarrow> a64_exec other w s =
     Some (s\<lparr>vreg := (vreg s)(rfield w 0 := le_word (fetch (memory s) (pc s + words_off w 5 19) (if bit w 30 then 8 else 4)))\<rparr>, Next)"
proof -
  assume w: "w AND 0xFF000000 = 0x18000000"
  then have b: "\<not> bit w 31" "\<not> bit w 30" "\<not> bit w 29" "bit w 28" "bit w 27" "\<not> bit w 26" "\<not> bit w 25" "\<not> bit w 24"
    by (auto simp: bits32 bit_simps)
  then have "field w 30 2 = 0" by (auto simp: field_def bits32 bit_simps)
  with b show "a64_exec other w s = Some (set_xreg (rfield w 0) (ucast (inst_at (memory s) (pc s + words_off w 5 19))) s, Next)"
    unfolding a64_exec_def Let_def a64_classes by simp
next
  assume w: "w AND 0xBF000000 = 0x1C000000"
  then have b: "\<not> bit w 31" "\<not> bit w 29" "bit w 28" "bit w 27" "bit w 26" "\<not> bit w 25" "\<not> bit w 24"
    by (auto simp: bits32 bit_simps)
  then have "field w 30 2 = (if bit w 30 then 1 else 0)" by (auto simp: field_def bits32 bit_simps)
  with b show "a64_exec other w s =
     Some (s\<lparr>vreg := (vreg s)(rfield w 0 := le_word (fetch (memory s) (pc s + words_off w 5 19) (if bit w 30 then 8 else 4)))\<rparr>, Next)"
    unfolding a64_exec_def Let_def a64_classes by simp
qed

lemma mislabelled:
  "w AND 0xFF000000 = 0x18000000 \<Longrightarrow> inst_is_ldr_literal w" "w AND 0xBF000000 = 0x1C000000 \<Longrightarrow> inst_is_ldr_literal w"
  "w AND 0xFF00000E = 0x5400000E \<Longrightarrow> inst_is_b_cond w \<and> \<not> bit w 24 \<and> field w 1 3 = 7"
  unfolding a64_classes by (auto simp: field_def bits32 bit_simps numeral_2_eq_2 [symmetric] numeral_3_eq_3 [symmetric])

lemma cond_holds_always:
  assumes "field w 1 3 = 7"
  shows "cond_holds (field w 0 4) s" "cond_holds (field w 0 4 XOR 1) s"
proof -
  have d: "drop_bit 1 (field w 0 4) = field w 1 3" by (rule bit_word_eqI) (auto simp: field_def bit_simps)
  have "field w 0 4 = 14 \<or> field w 0 4 = 15"
  proof -
    have "field w 0 4 = 14 + (if bit w 0 then 1 else 0)"
      using assms by (auto simp: field_def bits32 bit_simps eval_nat_numeral)
    then show ?thesis by auto
  qed
  then show "cond_holds (field w 0 4) s" "cond_holds (field w 0 4 XOR 1) s" by (auto simp: cond_holds_def)
qed

text \<open>
  C30: The instructions that the relocation of AArch64 code gets wrong. A literal load of a 32-bit
  register, which clears the upper half of the register, becomes a load of 64 bits; a literal
  load of a floating point register (S or D) becomes a load of the general register with the
  same number; and a branch with the condition \<open>AL\<close> or \<open>NV\<close>, which is always taken, never is.
\<close>

theorem arm64_misrelocated:
  fixes s :: a64
  assumes "GenRelocateCode m alloc buffer orig blk branch = Inr r" and "mb_size orig \<le> 0xFFF0"
    and "w = inst_at m (buffer + word_of_nat (4 * k))" and "a = mb_addr orig + word_of_nat (4 * k)" and "4 * k < mb_size orig"
    and "rr_patches r = [(A, code)]" and "loaded (memory s) A code"
    and "rr_offset_map r (4 * k) = Some off" and "pc s = A + word_of_nat off"
    and "d = a + words_off w 5 19" and "rt = rfield w 0"
  defines "at_a \<equiv> s\<lparr>pc := a\<rparr>"
    and "loads \<equiv> (set_xreg rt (le_word (fetch (memory s) d 8)) (set_xreg 17 d s))\<lparr>pc := A + word_of_nat (off + 20)\<rparr>"
  shows "(w AND 0xFF000000 = 0x18000000 \<longrightarrow>
      a64_exec other w at_a = Some (set_xreg rt (ucast (inst_at (memory s) d)) at_a, Next) \<and> a64_run other 5 s = Some loads)
    \<and> (w AND 0xBF000000 = 0x1C000000 \<longrightarrow>
      a64_exec other w at_a = Some (at_a\<lparr>vreg := (vreg s)(rt := le_word (fetch (memory s) d (if bit w 30 then 8 else 4)))\<rparr>, Next) \<and>
      a64_run other 5 s = Some loads)
    \<and> (w AND 0xFF00000E = 0x5400000E \<longrightarrow>
      a64_exec other w at_a = Some (at_a, Goto d) \<and> a64_run other 1 s = Some (s\<lparr>pc := A + word_of_nat (off + 12)\<rparr>))"
proof -
  note g = GenRelocateCode_success [OF assms(1,2,6,5,8), folded assms(3,4)]
  let ?iss = "code_insts m buffer ((mb_size orig + 3) div 4)"
  let ?ws = "all_words (mb_addr orig) ?iss branch" and ?rs = "all_refs (mb_addr orig) ?iss branch"
  obtain p where p: "off = 4 * p" "placed_at A w a p ?ws ?rs" using g(4) by blast
  note ld = assms(7) [unfolded g(1)] and pc = assms(9) [unfolded p(1)]
  have loads: "a64_run other 5 s = Some loads" if "inst_is_ldr_literal w"
    using run_literal [OF p(2) ld pc that, of other] by (simp add: loads_def p(1) assms(10,11) algebra_simps)
  have "a64_exec other w at_a = Some (at_a, Goto d) \<and> a64_run other 1 s = Some (s\<lparr>pc := A + word_of_nat (off + 12)\<rparr>)"
    if w: "inst_is_b_cond w" "\<not> bit w 24" "field w 1 3 = 7"
  proof -
    have b: "bit (inverted_b_cond w) n = bit w n" if "24 \<le> n" "n < 32" for n using that by (rule inverted_b_cond_fields)
    have i: "inst_is_b_cond (inverted_b_cond w)" "\<not> bit (inverted_b_cond w) 24" using w b unfolding a64_classes by simp_all
    have "emitted w a = [inverted_b_cond w, ldr17, br17]" "refs w a = [(1, d)]"
      using w(1) by (auto simp: emitted_def refs_def a64_classes assms(10))
    then have "a64_step other s = Some (s\<lparr>pc := A + word_of_nat (off + 12)\<rparr>)"
      using placed_word [OF p(2) ld, of 0 other s] pc exec_b_cond [OF i, of other s] cond_holds_always [OF w(3), of s]
      by (simp add: inverted_b_cond_fields(2,3) p(1) algebra_simps)
    then show ?thesis using exec_b_cond [OF w(1,2), of other at_a] cond_holds_always [OF w(3), of at_a]
      by (simp add: at_a_def assms(10))
  qed
  then show ?thesis
    using loads exec_literals [of w other at_a] mislabelled [of w] by (simp add: at_a_def assms(10,11))
qed

text \<open>A block of one instruction of each kind, with ones in memory around the code.\<close>

definition wrong_memory :: "u64 \<Rightarrow> u8" where
  "wrong_memory x = (if x = 0 \<or> x = 4 then 0x41 else if x = 8 then 0x4E else if x = 3 then 0x18 else if x = 7 then 0x1C
     else if x = 11 then 0x54 else 0)"

definition wrong_code :: "u8 list" where
  "wrong_code = [0x11, 1, 0x90, 0xD2, 0x11, 0, 0xA0, 0xF2, 0x11, 0, 0xC0, 0xF2, 0x11, 0, 0xE0, 0xF2, 0x21, 2, 0x40, 0xF9,
     0x91, 1, 0x90, 0xD2, 0x11, 0, 0xA0, 0xF2, 0x11, 0, 0xC0, 0xF2, 0x11, 0, 0xE0, 0xF2, 0x21, 2, 0x40, 0xF9,
     0x6F, 0, 0, 0x54, 0x51, 0, 0, 0x58, 0x20, 2, 0x1F, 0xD6, 0x10, 0x80, 0, 0, 0, 0, 0, 0]"

definition placed_wrong :: "u64 \<Rightarrow> u8" where
  "placed_wrong x = (if x - 0x1000 < 60 then wrong_code ! unat (x - 0x1000) else 0xFF)"

definition wrong_state :: "u64 \<Rightarrow> a64" where
  "wrong_state a = \<lparr>reg = (\<lambda>_. 0), stack_pointer = 0x7000, vreg = (\<lambda>_. 0), flag_n = False, flag_z = False, flag_c = False, flag_v = False,
     memory = placed_wrong, pc = a\<rparr>"

lemma wrong_relocation:
  "GenRelocateCode wrong_memory (\<lambda>_. Some 0x1000) 0 (new_MemBlock 0x8000 12) (new_MemBlock 0 0) False =
   Inr \<lparr>rr_origin = new_MemBlock 0x8000 12, rr_relocated = new_MemBlock 0x1000 60, rr_offset_map = [0 \<mapsto> 0, 4 \<mapsto> 20, 8 \<mapsto> 40],
        rr_patches = [(0x1000, wrong_code)]\<rparr>"
proof -
  have i: "code_insts wrong_memory 0 3 = [0x18000041, 0x1C000041, 0x5400004E]" by code_simp
  have c: "code_bytes (bind_words (all_words 0x8000 [0x18000041, 0x1C000041, 0x5400004E] False)
      (all_refs 0x8000 [0x18000041, 0x1C000041, 0x5400004E] False)) = wrong_code" by code_simp
  have l: "length wrong_code = 60" by (simp add: wrong_code_def)
  have e: "length (emitted 0x18000041 0x8000) = 5" "length (emitted 0x1C000041 0x8004) = 5"
    "\<not> unimplemented 0x18000041" "\<not> unimplemented 0x1C000041" "\<not> unimplemented 0x5400004E" by code_simp+
  show ?thesis
    using GenRelocateCode_words [of "new_MemBlock 0x8000 12" wrong_memory "\<lambda>_. Some 0x1000" 0 "new_MemBlock 0 0" False]
    by (simp add: new_MemBlock_def block_reset_def l e i c)
qed

lemma wrong_loaded: "loaded placed_wrong 0x1000 wrong_code"
  by code_simp

lemma arm64_misrelocated_witness:
  "map_option (\<lambda>(t, fl). reg t 1) (a64_exec example_nop 0x18000041 (wrong_state 0x8000)) = Some 0xFFFFFFFF \<and>
   map_option (\<lambda>t. reg t 1) (a64_run example_nop 5 (wrong_state 0x1000)) = Some 0xFFFFFFFFFFFFFFFF \<and>
   map_option (\<lambda>(t, fl). (reg t 1, vreg t 1)) (a64_exec example_nop 0x1C000041 (wrong_state 0x8004)) = Some (0, 0xFFFFFFFF) \<and>
   map_option (\<lambda>t. (reg t 1, vreg t 1)) (a64_run example_nop 5 (wrong_state 0x1014)) = Some (0xFFFFFFFFFFFFFFFF, 0) \<and>
   a64_exec example_nop 0x5400004E (wrong_state 0x8008) = Some (wrong_state 0x8008, Goto 0x8010) \<and>
   a64_run example_nop 1 (wrong_state 0x1028) = Some (wrong_state 0x1034)"
proof -
  have w: "(0x18000041 :: u32) = inst_at wrong_memory (0 + word_of_nat (4 * 0))" "(0x1C000041 :: u32) = inst_at wrong_memory (0 + word_of_nat (4 * 1))"
    "(0x5400004E :: u32) = inst_at wrong_memory (0 + word_of_nat (4 * 2))" by code_simp+
  have e: "words_off 0x18000041 5 19 = 8" "words_off 0x1C000041 5 19 = 8" "words_off 0x5400004E 5 19 = 8"
    "rfield 0x18000041 0 = 1" "rfield 0x1C000041 0 = 1" "rfield 0x5400004E 0 = 14" "\<not> bit (0x1C000041 :: u32) 30" by code_simp+
  have pc: "(wrong_state a)\<lparr>pc := b\<rparr> = wrong_state b" for a b by (simp add: wrong_state_def)
  have st: "pc (wrong_state a) = a" "reg (wrong_state a) = (\<lambda>_. 0)" "vreg (wrong_state a) = (\<lambda>_. 0)"
    "memory (wrong_state a) = placed_wrong" for a by (simp_all add: wrong_state_def)
  have mem: "le_word (fetch placed_wrong 0x8008 8) = (0xFFFFFFFFFFFFFFFF :: u64)" "inst_at placed_wrong 0x8008 = 0xFFFFFFFF"
    "le_word (fetch placed_wrong 0x800C 8) = (0xFFFFFFFFFFFFFFFF :: u64)" "le_word (fetch placed_wrong 0x800C 4) = (0xFFFFFFFF :: 128 word)"
    by code_simp+
  note m = arm64_misrelocated [where ?A = "0x1000" and ?code = wrong_code and other = example_nop, OF wrong_relocation]
  have size: "mb_size (new_MemBlock 0x8000 12) = 12" "mb_addr (new_MemBlock 0x8000 12) = 0x8000" by (simp_all add: new_MemBlock_def)
  have v: "(0x18000041 :: u32) AND 0xFF000000 = 0x18000000" "(0x1C000041 :: u32) AND 0xBF000000 = 0x1C000000"
    "(0x5400004E :: u32) AND 0xFF00000E = 0x5400000E" by simp_all
  have 1: "a64_exec example_nop 0x18000041 (wrong_state 0x8000) = Some (set_xreg 1 0xFFFFFFFF (wrong_state 0x8000), Next)"
    "a64_run example_nop 5 (wrong_state 0x1000) = Some ((set_xreg 1 0xFFFFFFFFFFFFFFFF (set_xreg 17 0x8008 (wrong_state 0x1000)))\<lparr>pc := 0x1014\<rparr>)"
    using m [OF _ w(1), of "0x8000" "wrong_state 0x1000" 0 "0x8008" 1] v(1) wrong_loaded
    by (simp_all add: size e pc st mem)
  have 2: "a64_exec example_nop 0x1C000041 (wrong_state 0x8004) =
      Some ((wrong_state 0x8004)\<lparr>vreg := (vreg (wrong_state 0x8004))(1 := 0xFFFFFFFF)\<rparr>, Next)"
    "a64_run example_nop 5 (wrong_state 0x1014) = Some ((set_xreg 1 0xFFFFFFFFFFFFFFFF (set_xreg 17 0x800C (wrong_state 0x1014)))\<lparr>pc := 0x1028\<rparr>)"
    using m [OF _ w(2), of "0x8004" "wrong_state 0x1014" 20 "0x800C" 1] v(2) wrong_loaded
    by (simp_all add: size e pc st mem)
  have 3: "a64_exec example_nop 0x5400004E (wrong_state 0x8008) = Some (wrong_state 0x8008, Goto 0x8010)"
    "a64_run example_nop 1 (wrong_state 0x1028) = Some (wrong_state 0x1034)"
    using m [OF _ w(3), of "0x8008" "wrong_state 0x1028" 40 "0x8010" 14] v(3) wrong_loaded
    by (simp_all add: size e pc st mem del: One_nat_def)
  show ?thesis unfolding 1 2 3 by (simp add: set_xreg_def st)
qed

end
