(* ===== verification/Spec2Isabelle.thy ===== *)
theory Spec2Isabelle
  imports Stream_Run Microlzma X86_Relocate Arm64_Refine
begin

text \<open>
  A verification library for the two self-contained native components of this repository:
  the XZ Embedded decoder (\<open>src/app/src/main/cpp/lspc/xz\<close>), which unpacks .xz data such as
  the compressed symbol tables of system libraries, and the relocation of code in the
  inline hooking library Dobby (\<open>src/app/src/main/cpp/lspc/Dobby\<close>), which moves the first
  instructions of a function elsewhere, for x86-64 and AArch64. The rest of the repository
  patches a running Android runtime and has its meaning there.

  The XZ decoder. \<open>xz_dec_run\<close> (\<open>xz_dec_stream.c\<close>) parses the .xz container and checks
  integrity values (\<open>xz_crc32.c\<close>, \<open>xz_crc64.c\<close>); for the contents of a block it calls the
  filter chain: optionally a branch filter (\<open>xz_dec_bcj.c\<close>), then LZMA2
  (\<open>xz_dec_lzma2.c\<close>), which splits into a chunk state machine, the LZMA symbol decoder, a
  range decoder for its bits, and a dictionary that holds the history matches refer to. All
  parts are resumable: they return when the caller's input or output buffer is used up and
  continue with the next one.

  The x86 relocation. \<open>GenRelocateCodeX86Shared\<close> calls \<open>x86_insn_decode\<close>, which is driven
  by four opcode tables, instruction by instruction until enough bytes are covered, and
  emits for each a copy or a sequence with the same effect at the new address.

  The AArch64 relocation. \<open>GenRelocateCode\<close> replaces each instruction that uses the program
  counter by a sequence, emitted through \<open>TurboAssembler\<close>, that loads an absolute address
  from a data label behind the code; \<open>RelocBind\<close> places the data and links the loads.

  Theories.
  \<^item> \<open>Prelude\<close>: machine integers, memory blocks and pointers, and \<open>ok m P\<close> (the
    computation has a result, and it satisfies \<open>P\<close>). \<open>None\<close> is an access outside a
    block or a loop that does not return, so every \<open>ok\<close> theorem includes memory safety
    and termination.
  \<^item> \<open>Crc\<close>: both CRCs, against the bit-serial definition (locale \<open>crc_engine\<close>).
  \<^item> \<open>Xz_Defs\<close>: \<open>xz.h\<close>, the modes of \<open>xz_private.h\<close>, the byte accessors.
  \<^item> \<open>Lzma_Defs\<close>: \<open>xz_lzma2.h\<close>, the constants and the symbol-history machine.
  \<^item> \<open>Range_Decoder\<close>: \<open>struct rc_dec\<close> and the \<open>rc_*\<close> functions; the 20-byte bound
    per symbol, and that the decoder inverts arithmetic coding.
  \<^item> \<open>Dictionary\<close>: \<open>struct dictionary\<close> and the \<open>dict_*\<close> functions; the ring buffer is
    a byte history (locale \<open>history\<close>) and the match copy is the LZ77 copy.
  \<^item> \<open>Lzma\<close>: the \<open>lzma_*\<close> functions; one symbol refines one step of an abstract LZMA
    decoder, and the main loop is a run of such steps.
  \<^item> \<open>Lzma2\<close>: the input windows of \<open>lzma2_lzma\<close>, the chunk state machine, creation and
    reset; the invariant \<open>lzma2_ok\<close> of this decoder.
  \<^item> \<open>Microlzma\<close>: the \<open>xz_dec_microlzma_*\<close> functions, which decode one LZMA stream of
    known sizes through the same chunk machine.
  \<^item> \<open>Bcj_Filters\<close>: the seven branch filters (locales \<open>block_filter\<close>, \<open>block_codec\<close>,
    \<open>field_codec\<close>), their encoders, and the law that lets them run on a stream in pieces.
  \<^item> \<open>Bcj\<close>: the stage \<open>xz_dec_bcj_run\<close> around a next filter (locale \<open>next_filter\<close>,
    interpreted by LZMA2): its invariant \<open>bcj_ok\<close>, and that over any sequence of calls
    it puts out the filtered image of what the next filter puts out.
  \<^item> \<open>Xz_Stream\<close>: \<open>xz_dec_stream.c\<close> and \<open>xz_stream.h\<close>, the container decoder: headers,
    the block, the Index, integrity values, the state machine \<open>dec_main\<close> as one case
    (\<open>dec_step\<close>) and its loop, \<open>xz_dec_run\<close>, \<open>xz_dec_catrun\<close>, creation and reset.
  \<^item> \<open>Stream_Fields\<close>: the fields that may be cut by the end of the input, against
    descriptions of their bytes (minimal variable-length integers, the records of the
    Index, the bytes of a check value).
  \<^item> \<open>Stream_Run\<close>: the invariant \<open>stream_ok\<close> of the whole decoder, state by state. The
    loop of \<open>dec_main\<close> ends because each round reads input or goes on to a state that
    does (\<open>left\<close>); every call returns, and calls that return \<open>XZ_OK\<close> make progress.
  \<^item> \<open>X86_Tables\<close>, \<open>X86_Decode\<close>: the opcode tables and the instruction decoder.
  \<^item> \<open>X86_Length\<close>: the length the processor manual gives to an instruction, computed
    independently, and that the decoder agrees with it outside a list of opcodes; that
    it stays in its buffer; concrete instructions it misreads.
  \<^item> \<open>X86_Relocate\<close>: relocation in the x86-64 build. A small semantics of the emitted
    sequences gives the addresses they jump to, call or access; jumps, calls and
    RIP-relative accesses keep theirs, and the loop covers whole instructions.
  \<^item> \<open>Code_Buffer\<close>: what the code generators share: faults, the byte vector code is emitted
    into, blocks, and reading words from a memory.
  \<^item> \<open>Arm64_Assembler\<close>: the bit-field coders and the assembler for AArch64.
  \<^item> \<open>Arm64_Machine\<close>: the AArch64 instructions concerned, from the architecture manual.
  \<^item> \<open>Arm64_Relocate\<close>: relocation of AArch64 code.
  \<^item> \<open>Arm64_Exec\<close>: the field coders agree with the manual and with each other; the code
    that relocation emits as a list of words, its labels bound, and what the words do.
  \<^item> \<open>Arm64_Refine\<close>: relocated code simulates the original, instruction by instruction,
    but for the instructions of \<open>arm64_misrelocated\<close>; relocation returns, and when it fails.

  Conventions. \<open>uint32_t\<close> values used as bit patterns are words; counters and positions are
  naturals with wrap-around written out (\<open>sz_add\<close>, \<open>u32_sub\<close> and so on). A \<open>do ... while\<close>
  or \<open>while\<close> loop is a \<open>partial_function\<close> in the option type, so its termination is
  proved and there is no fuel. Local variables that a branch leaves unchanged are not
  written. Compile-time switches are fields of \<open>xz_env\<close>, so a theorem about the decoder
  holds for every build. No bound on input lengths is assumed beyond the one C gives
  (object sizes below 2^63).

  Not modelled: the allocators (parameters of the \<open>_create\<close>, \<open>_reset\<close> and \<open>_init\<close>
  functions, and of the relocation); the branches of the relocation that only a 32-bit
  build compiles; the 32-bit ARM relocation; the AArch64 instructions that the assembler
  offers and relocation does not use; \<open>decompress_unxz.c\<close>, the driver that feeds the decoder in the boot
  code of the kernel, and the command line drivers and tests, whose work is I/O through
  callbacks; and the C++ and Java parts of the repository, whose behaviour lies in the
  Android runtime they patch.
\<close>

end
